(* ===== verification/Prelude.thy ===== *)
theory Prelude
  imports Complex_Main "HOL-Library.Word" "HOL-Library.Multiset" "HOL-Library.Sublist"
begin

unbundle bit_operations_syntax

text \<open>
  Shared vocabulary of the development: the C integer widths, the ways a C function of the
  simulator can fail, sequencing of fallible steps, the simp collections the component theories
  fill, and the generic list facts several components use.
\<close>

section \<open>Machine integers\<close>

type_synonym u8 = "8 word"
type_synonym u16 = "16 word"
type_synonym u32 = "32 word"
type_synonym u64 = "64 word"

text \<open>\<open>obj_id_t\<close> of \<^verbatim>\<open>config.h\<close>.\<close>

type_synonym obj_id_t = u64

section \<open>Failures\<close>

text \<open>
  A C call either returns or ends the process: a null or dangling dereference, a read outside an
  array, a division by zero, a failed \<^verbatim>\<open>assert\<close>, or an explicit \<^verbatim>\<open>abort\<close>/\<^verbatim>\<open>exit\<close>. \<open>Diverges\<close> is the value
  of a bounded loop of the model that has run out of its bound; the theorems show it away.
\<close>

datatype c_error = Null_deref | Bad_pointer | Out_of_bounds | Division_by_zero | Assert_failed | Aborted | Diverges

type_synonym 'a result = "c_error + 'a"

definition rbind :: "'e + 'a \<Rightarrow> ('a \<Rightarrow> 'e + 'b) \<Rightarrow> 'e + 'b" where
  "rbind x f = (case x of Inl e \<Rightarrow> Inl e | Inr a \<Rightarrow> f a)"

named_theorems c_simps \<open>evaluation rules of the fallible operations\<close>

lemma rbind_simps [simp, c_simps]:
  "rbind (Inl e) f = Inl e"
  "rbind (Inr a) f = f a"
  by (simp_all add: rbind_def)

lemma rbindE:
  assumes "rbind x f = Inr b"
  obtains a where "x = Inr a" "f a = Inr b"
  using assms by (cases x) auto

lemma rbind_eq_Inr: "rbind x f = Inr b \<longleftrightarrow> (\<exists>a. x = Inr a \<and> f a = Inr b)"
  by (cases x) auto

lemma rbind_cong [fundef_cong]:
  "x = y \<Longrightarrow> (\<And>a. y = Inr a \<Longrightarrow> f a = g a) \<Longrightarrow> rbind x f = rbind y g"
  by (cases y) auto

section \<open>Numbers and ranges\<close>

lemma upt_first: "[a ..< Suc (a + n)] = a # [Suc a ..< Suc (a + n)]"
  by (simp add: upt_conv_Cons del: upt_Suc)

lemma u64_Suc: "(of_nat n :: u64) + 1 = of_nat (Suc n)"
  by simp

lemma unat_of_nat_u64 [simp]: "n < 2 ^ 64 \<Longrightarrow> unat (of_nat n :: u64) = n"
  by (simp add: unat_of_nat)

lemma unat_u32_less: "unat (w :: u32) < 2 ^ 32"
  using unsigned_less [of w] by simp

section \<open>Lists\<close>

lemma length_filter_imp: "(\<And>x. P x \<Longrightarrow> Q x) \<Longrightarrow> length (filter P xs) \<le> length (filter Q xs)"
  by (induction xs) (auto intro: le_SucI)

lemma filter_update:
  "i < length xs \<Longrightarrow> length (filter P (xs[i := y])) + of_bool (P (xs ! i)) = length (filter P xs) + of_bool (P y)"
proof (induction xs arbitrary: i)
  case (Cons x xs)
  show ?case
  proof (cases i)
    case (Suc j)
    then show ?thesis using Cons.IH [of j] Cons.prems by simp
  qed simp
qed simp

text \<open>A step relation whose runs have bounded length and stop only in states with \<open>P\<close> reaches one.\<close>

lemma run_to_end:
  assumes "\<And>k s. (R ^^ k) a s \<Longrightarrow> k \<le> N \<and> (\<not> P s \<longrightarrow> (\<exists>s'. R s s'))"
  shows "\<exists>k s. (R ^^ k) a s \<and> P s"
proof (rule ccontr)
  assume none: "\<not> ?thesis"
  have "\<exists>s. (R ^^ k) a s" for k
  proof (induction k)
    case (Suc k)
    then obtain s where "(R ^^ k) a s" by blast
    then show ?case using assms none by (meson relpowp_Suc_I)
  qed simp
  then show False using assms not_less_eq_eq by blast
qed

lemma ucast_32_64 [simp]: "(ucast (ucast (w :: u32) :: u64) :: u32) = w"
  by (rule bit_word_eqI) (simp add: bit_simps)

end
