(* ===== verification/Structs.thy ===== *)
theory Structs
  imports Prelude
begin

text \<open>
  The plain data of \<^verbatim>\<open>include/libCacheSim/struct.h\<close> and \<^verbatim>\<open>enum.h\<close> the components share:
  requests and the result of a cache look-up. The build configuration is the repository's own
  (\<^verbatim>\<open>include/config.h\<close>): no \<^verbatim>\<open>SUPPORT_TTL\<close>, no \<^verbatim>\<open>TRACK_EVICTION_AGE\<close>.
\<close>

text \<open>\<open>OP_other\<close> is a value of the type that no enumerator names; readers store raw trace fields.\<close>

datatype req_op_e = OP_GET | OP_GETS | OP_SET | OP_ADD | OP_CAS | OP_REPLACE | OP_APPEND
  | OP_PREPEND | OP_DELETE | OP_INCR | OP_DECR | OP_READ | OP_WRITE | OP_UPDATE | OP_INVALID
  | OP_other u32

datatype cache_ck_res_e = cache_ck_hit | cache_ck_miss | cache_ck_expired | cache_ck_invalid

record request_t =
  real_time :: u64
  obj_id_int :: obj_id_t
  obj_size :: u64
  extra_field1 :: u64
  extra_field2 :: u64
  hv :: u64
  ttl :: u32
  op :: req_op_e
  valid :: bool

definition new_request :: request_t where
  "new_request = \<lparr>real_time = 0, obj_id_int = 0, obj_size = 1, extra_field1 = 0,
     extra_field2 = 0, hv = 0, ttl = 0, op = OP_INVALID, valid = True\<rparr>"

text \<open>\<open>clone_request\<close> copies the bytes of a request.\<close>

definition clone_request :: "request_t \<Rightarrow> request_t" where
  "clone_request req = req"

end
