(* ===== verification/CacheObj.thy ===== *)
theory CacheObj
  imports Structs
begin

text \<open>
  The cache objects of \<^verbatim>\<open>struct.h\<close> in an explicit store, and the list operations of
  \<^verbatim>\<open>include/libCacheSim/cacheObj.h\<close> on the doubly linked list threaded through them.

  A pointer is null, the \<open>i\<close>-th entry of the \<open>g\<close>-th table array that was allocated, or the
  \<open>n\<close>-th object that was allocated on its own. The store maps the allocated addresses to their
  contents; reading or writing through a null or a freed pointer is an error.
\<close>

section \<open>Pointers, objects, the store\<close>

datatype ptr = NULL | Slot nat nat | is_Obj: Obj nat

record cache_obj_t =
  hash_next :: ptr
  list_next :: ptr
  list_prev :: ptr
  extra_metadata :: u64
  o_id :: obj_id_t
  o_size :: u32

text \<open>An object after \<^verbatim>\<open>memset(cache_obj, 0, sizeof(cache_obj_t))\<close>.\<close>

definition zero_obj :: cache_obj_t where
  "zero_obj = \<lparr>hash_next = NULL, list_next = NULL, list_prev = NULL, extra_metadata = 0,
     o_id = 0, o_size = 0\<rparr>"

type_synonym heap = "ptr \<Rightarrow> cache_obj_t option"

text \<open>The pointer variables outside the objects that the caches keep.\<close>

datatype pvar = list_head | list_tail

record store =
  heap :: heap
  next_obj :: nat
  next_tbl :: nat
  vars :: "pvar \<Rightarrow> ptr"

definition load :: "heap \<Rightarrow> ptr \<Rightarrow> cache_obj_t result" where
  "load h p = (if p = NULL then Inl Null_deref
     else case h p of None \<Rightarrow> Inl Bad_pointer | Some x \<Rightarrow> Inr x)"

definition modify :: "heap \<Rightarrow> ptr \<Rightarrow> (cache_obj_t \<Rightarrow> cache_obj_t) \<Rightarrow> heap result" where
  "modify h p f = rbind (load h p) (\<lambda>x. Inr (h(p \<mapsto> f x)))"

abbreviation set_next :: "ptr \<Rightarrow> cache_obj_t \<Rightarrow> cache_obj_t" where
  "set_next q x \<equiv> x\<lparr>list_next := q\<rparr>"

abbreviation set_prev :: "ptr \<Rightarrow> cache_obj_t \<Rightarrow> cache_obj_t" where
  "set_prev q x \<equiv> x\<lparr>list_prev := q\<rparr>"

section \<open>List operations\<close>

text \<open>\<^verbatim>\<open>prev_obj_in_slist\<close>: the walk is bounded by \<open>fuel\<close>.\<close>

fun prev_obj_walk :: "nat \<Rightarrow> heap \<Rightarrow> ptr \<Rightarrow> ptr \<Rightarrow> ptr result" where
  "prev_obj_walk 0 h head cache_obj = Inl Diverges"
| "prev_obj_walk (Suc fuel) h head cache_obj =
    (if head = NULL then Inr head
     else rbind (load h head) (\<lambda>x.
       if list_next x \<noteq> cache_obj then prev_obj_walk fuel h (list_next x) cache_obj else Inr head))"

definition prev_obj_in_slist :: "nat \<Rightarrow> heap \<Rightarrow> ptr \<Rightarrow> ptr \<Rightarrow> ptr result" where
  "prev_obj_in_slist fuel h head cache_obj =
    (if head = cache_obj then Inl Assert_failed else prev_obj_walk fuel h head cache_obj)"

definition remove_obj_from_list ::
  "heap \<Rightarrow> ptr \<Rightarrow> ptr \<Rightarrow> ptr \<Rightarrow> (heap \<times> ptr \<times> ptr) result" where
  "remove_obj_from_list h head tail cache_obj =
    (if cache_obj = head then
       rbind (load h cache_obj) (\<lambda>x.
       rbind (modify h (list_next x) (set_prev NULL)) (\<lambda>h.
       Inr (h, list_next x, tail)))
     else if cache_obj = tail then
       rbind (load h cache_obj) (\<lambda>x.
       rbind (modify h (list_prev x) (set_next NULL)) (\<lambda>h.
       Inr (h, head, list_prev x)))
     else
       rbind (load h cache_obj) (\<lambda>x.
       rbind (modify h (list_prev x) (set_next (list_next x))) (\<lambda>h.
       rbind (load h cache_obj) (\<lambda>x.
       rbind (modify h (list_next x) (set_prev (list_prev x))) (\<lambda>h.
       rbind (modify h cache_obj (set_prev NULL)) (\<lambda>h.
       rbind (modify h cache_obj (set_next NULL)) (\<lambda>h.
       Inr (h, head, tail))))))))"

definition move_obj_to_tail ::
  "heap \<Rightarrow> ptr \<Rightarrow> ptr \<Rightarrow> ptr \<Rightarrow> (heap \<times> ptr \<times> ptr) result" where
  "move_obj_to_tail h head tail cache_obj =
    (if head = tail then
       (if cache_obj \<noteq> head then Inl Assert_failed
        else rbind (load h cache_obj) (\<lambda>x.
          if list_next x \<noteq> NULL \<or> list_prev x \<noteq> NULL then Inl Assert_failed
          else Inr (h, head, tail)))
     else if cache_obj = head then
       rbind (load h cache_obj) (\<lambda>x. let head = list_next x in
       rbind (modify h (list_next x) (set_prev NULL)) (\<lambda>h.
       rbind (modify h tail (set_next cache_obj)) (\<lambda>h.
       rbind (modify h cache_obj (set_next NULL)) (\<lambda>h.
       rbind (modify h cache_obj (set_prev tail)) (\<lambda>h.
       Inr (h, head, cache_obj))))))
     else if cache_obj = tail then Inr (h, head, tail)
     else
       rbind (load h cache_obj) (\<lambda>x.
       rbind (modify h (list_prev x) (set_next (list_next x))) (\<lambda>h.
       rbind (load h cache_obj) (\<lambda>x.
       rbind (modify h (list_next x) (set_prev (list_prev x))) (\<lambda>h.
       rbind (modify h tail (set_next cache_obj)) (\<lambda>h.
       rbind (modify h cache_obj (set_next NULL)) (\<lambda>h.
       rbind (modify h cache_obj (set_prev tail)) (\<lambda>h.
       Inr (h, head, cache_obj)))))))))"

text \<open>\<^verbatim>\<open>copy_request_to_cache_obj\<close>: the 64-bit request size is stored in 32 bits.\<close>

definition copy_request_to_cache_obj :: "cache_obj_t \<Rightarrow> request_t \<Rightarrow> cache_obj_t" where
  "copy_request_to_cache_obj x req = x\<lparr>o_size := ucast (obj_size req), o_id := obj_id_int req\<rparr>"

definition malloc_obj :: "cache_obj_t \<Rightarrow> 'a store_scheme \<Rightarrow> ptr \<times> 'a store_scheme" where
  "malloc_obj x s = (Obj (next_obj s),
     s\<lparr>heap := (heap s)(Obj (next_obj s) \<mapsto> x), next_obj := Suc (next_obj s)\<rparr>)"

text \<open>\<^verbatim>\<open>create_cache_obj_from_request\<close>; \<open>None\<close> is the null request.\<close>

definition create_cache_obj_from_request ::
  "request_t option \<Rightarrow> 'a store_scheme \<Rightarrow> ptr \<times> 'a store_scheme" where
  "create_cache_obj_from_request req s =
    malloc_obj (case req of None \<Rightarrow> zero_obj | Some r \<Rightarrow> copy_request_to_cache_obj zero_obj r) s"

definition free_cache_obj :: "ptr \<Rightarrow> 'a store_scheme \<Rightarrow> 'a store_scheme" where
  "free_cache_obj p s = s\<lparr>heap := (heap s)(p := None)\<rparr>"

section \<open>The doubly linked list\<close>

text \<open>The list structure depends only on the link fields of the objects.\<close>

definition links :: "heap \<Rightarrow> ptr \<Rightarrow> (ptr \<times> ptr) option" where
  "links h p = map_option (\<lambda>x. (list_prev x, list_next x)) (h p)"

definition first_or :: "ptr list \<Rightarrow> ptr \<Rightarrow> ptr" where
  "first_or xs n = (case xs of [] \<Rightarrow> n | x # _ \<Rightarrow> x)"

definition last_or :: "ptr \<Rightarrow> ptr list \<Rightarrow> ptr" where
  "last_or p xs = (if xs = [] then p else last xs)"

text \<open>\<open>dseg L p xs n\<close>: the nodes \<open>xs\<close> are linked to each other in both directions, the first back to
  \<open>p\<close> and the last on to \<open>n\<close>.\<close>

fun dseg :: "(ptr \<Rightarrow> (ptr \<times> ptr) option) \<Rightarrow> ptr \<Rightarrow> ptr list \<Rightarrow> ptr \<Rightarrow> bool" where
  "dseg L p [] n = True"
| "dseg L p (x # xs) n = (x \<noteq> NULL \<and> L x = Some (p, first_or xs n) \<and> dseg L x xs n)"

definition dll :: "heap \<Rightarrow> ptr \<Rightarrow> ptr \<Rightarrow> ptr list \<Rightarrow> bool" where
  "dll h head tail xs \<longleftrightarrow> dseg (links h) NULL xs NULL \<and> distinct xs \<and>
     head = first_or xs NULL \<and> tail = last_or NULL xs"

lemma first_last_or [simp]:
  "first_or [] n = n" "first_or (x # xs) n = x" "first_or (xs @ ys) n = first_or xs (first_or ys n)"
  "last_or p [] = p" "last_or p (xs @ [x]) = x" "last_or p (x # xs) = last_or x xs"
  "last_or p (xs @ ys) = last_or (last_or p xs) ys"
  by (auto simp: first_or_def last_or_def split: list.splits)

lemma dseg_append [simp]:
  "dseg L p (xs @ ys) n \<longleftrightarrow> dseg L p xs (first_or ys n) \<and> dseg L (last_or p xs) ys n"
  by (induction xs arbitrary: p) auto

lemma dseg_cong: "(\<And>x. x \<in> set xs \<Longrightarrow> L x = M x) \<Longrightarrow> dseg L p xs n \<longleftrightarrow> dseg M p xs n"
  by (induction xs arbitrary: p) auto

lemma dseg_upd [simp]: "x \<notin> set xs \<Longrightarrow> dseg (L(x := v)) p xs n \<longleftrightarrow> dseg L p xs n"
  by (rule dseg_cong) auto

lemma dseg_NULL: "dseg L p xs n \<Longrightarrow> NULL \<notin> set xs"
  by (induction xs arbitrary: p) auto

lemma links_upd [simp]:
  "links (h(p \<mapsto> x)) = (links h)(p \<mapsto> (list_prev x, list_next x))"
  "links (h(p := None)) = (links h)(p := None)"
  by (auto simp: links_def fun_eq_iff)

lemma links_Some: "links h p = Some (a, b) \<longleftrightarrow> (\<exists>x. h p = Some x \<and> list_prev x = a \<and> list_next x = b)"
  by (auto simp: links_def)

text \<open>Relinking either end of a segment.\<close>

lemma dseg_relink_last:
  "dseg L p (xs @ [x]) n \<Longrightarrow> x \<notin> set xs \<Longrightarrow> dseg (L(x \<mapsto> (last_or p xs, m))) p (xs @ [x]) m"
  by simp

lemma dseg_relink_first:
  "dseg L p (x # xs) n \<Longrightarrow> x \<notin> set xs \<Longrightarrow> dseg (L(x \<mapsto> (q, first_or xs n))) q (x # xs) n"
  by simp

lemma load_Some [c_simps]: "p \<noteq> NULL \<Longrightarrow> h p = Some x \<Longrightarrow> load h p = Inr x"
  by (simp add: load_def)

lemma load_NULL [simp, c_simps]: "load h NULL = Inl Null_deref"
  by (simp add: load_def)

lemma modify_Some [c_simps]: "p \<noteq> NULL \<Longrightarrow> h p = Some x \<Longrightarrow> modify h p f = Inr (h(p \<mapsto> f x))"
  by (simp add: modify_def load_Some)

lemma modify_NULL [simp, c_simps]: "modify h NULL f = Inl Null_deref"
  by (simp add: modify_def)

text \<open>Two stores that differ only in the list links of the objects at \<open>A\<close>.\<close>

definition unlink :: "cache_obj_t \<Rightarrow> cache_obj_t" where
  "unlink x = x\<lparr>list_next := NULL, list_prev := NULL\<rparr>"

definition core :: "heap \<Rightarrow> heap" where
  "core h p = map_option unlink (h p)"

definition relinked :: "ptr set \<Rightarrow> heap \<Rightarrow> heap \<Rightarrow> bool" where
  "relinked A h h' \<longleftrightarrow>
     (\<forall>p. map_option unlink (h' p) = map_option unlink (h p) \<and> (p \<notin> A \<longrightarrow> h' p = h p))"

lemma core_upd [simp]:
  "core (h(p \<mapsto> x)) = (core h)(p \<mapsto> unlink x)" "core (h(p := None)) = (core h)(p := None)"
  by (auto simp: core_def fun_eq_iff)

lemma unlink_set [simp]:
  "unlink (set_next q x) = unlink x" "unlink (set_prev q x) = unlink x"
  "unlink (x\<lparr>hash_next := q\<rparr>) = (unlink x)\<lparr>hash_next := q\<rparr>"
  "unlink (x\<lparr>o_size := z\<rparr>) = (unlink x)\<lparr>o_size := z\<rparr>"
  "hash_next (unlink x) = hash_next x" "o_id (unlink x) = o_id x" "o_size (unlink x) = o_size x"
  "unlink zero_obj = zero_obj" "unlink (unlink x) = unlink x"
  by (simp_all add: unlink_def zero_obj_def)

lemma core_Some: "core h p = Some y \<longleftrightarrow> (\<exists>x. h p = Some x \<and> y = unlink x)"
  by (auto simp: core_def)

lemma relinked_core: "relinked A h h' \<Longrightarrow> core h' = core h"
  by (simp add: relinked_def core_def fun_eq_iff)

lemma relinked_refl [simp, intro]: "relinked A h h"
  by (simp add: relinked_def)

lemma relinked_trans: "relinked A h h' \<Longrightarrow> relinked A h' h'' \<Longrightarrow> relinked A h h''"
  by (simp add: relinked_def)

lemma relinked_mono: "relinked A h h' \<Longrightarrow> A \<subseteq> B \<Longrightarrow> relinked B h h'"
  by (auto simp: relinked_def)

lemma relinked_upd:
  "relinked A h h' \<Longrightarrow> h' p = Some x \<Longrightarrow> unlink y = unlink x \<Longrightarrow> p \<in> A \<Longrightarrow> relinked A h (h'(p \<mapsto> y))"
  unfolding relinked_def by (auto; metis option.map(2))

lemma dll_split:
  assumes "dll h head tail (as @ x # bs)"
  obtains ox where "h x = Some ox" "x \<noteq> NULL" "list_prev ox = last_or NULL as"
    "list_next ox = first_or bs NULL"
  using assms by (auto simp: dll_def links_Some)

lemma dll_empty: "dll h head tail [] \<longleftrightarrow> head = NULL \<and> tail = NULL"
  by (auto simp: dll_def)

text \<open>A node of a list: it is alone, or the last, or has a successor that is the last node or not.\<close>

lemma list_pos_cases:
  assumes "x \<in> set xs" "distinct xs"
  obtains (single) "xs = [x]"
    | (last) a as where "xs = as @ [a, x]"
    | (first) b where "xs = [x, b]"
    | (first') b cs t where "xs = x # b # cs @ [t]"
    | (mid) as a b where "xs = as @ [a, x, b]"
    | (mid') as a b cs t where "xs = as @ [a, x] @ b # cs @ [t]"
proof -
  obtain as bs where xs: "xs = as @ x # bs" using assms(1) by (meson split_list)
  consider (n) "bs = []" | (o) b where "bs = [b]" | (m) b cs t where "bs = b # cs @ [t]"
    by (metis list.exhaust rev_exhaust)
  note bs = this
  show ?thesis
  proof (cases as rule: rev_cases)
    case Nil
    from bs show ?thesis
      by cases (rule single, simp add: xs Nil, rule first, simp add: xs Nil,
        rule first', simp add: xs Nil)
  next
    case (snoc as' a)
    from bs show ?thesis
      by cases (rule last, simp add: xs snoc, rule mid, simp add: xs snoc,
        rule mid', simp add: xs snoc)
  qed
qed

lemma first_or_notin: "first_or xs n = x \<Longrightarrow> x \<notin> set xs \<Longrightarrow> x = n"
  by (cases xs) auto

lemma first_or_self: "first_or xs n \<notin> set xs \<Longrightarrow> first_or xs n = n"
  by (cases xs) auto

lemmas list_op_simps = dll_def links_Some c_simps remove1_append relinked_def

lemma move_obj_to_tail_correct:
  assumes "dll h head tail xs" "x \<in> set xs"
  shows "\<exists>h' head' tail'. move_obj_to_tail h head tail x = Inr (h', head', tail') \<and>
    dll h' head' tail' (remove1 x xs @ [x]) \<and> relinked (set xs) h h'"
proof -
  have "distinct xs" using assms(1) by (simp add: dll_def)
  with assms(2) show ?thesis
  proof (cases rule: list_pos_cases)
    case (mid' as a b cs t)
    with assms(1) show ?thesis
      by (auto simp: list_op_simps move_obj_to_tail_def dest: first_or_notin first_or_self)
  qed (use assms(1) in \<open>auto simp: list_op_simps move_obj_to_tail_def
    dest: first_or_notin first_or_self\<close>)
qed

text \<open>Removing a node works wherever it stands in a list of at least two; a list of one node makes
  the code follow its null successor.\<close>

lemma remove_obj_from_list_long:
  assumes "dll h head tail xs" "x \<in> set xs" "xs \<noteq> [x]"
  shows "\<exists>h' head' tail'. remove_obj_from_list h head tail x = Inr (h', head', tail') \<and>
    dll h' head' tail' (remove1 x xs) \<and> relinked (set xs) h h'"
proof -
  have "distinct xs" using assms(1) by (simp add: dll_def)
  with assms(2) show ?thesis
  proof (cases rule: list_pos_cases)
    case (mid' as a b cs t)
    with assms(1) show ?thesis
      by (auto simp: list_op_simps remove_obj_from_list_def dest: first_or_notin first_or_self)
  qed (use assms(1,3) in \<open>auto simp: list_op_simps remove_obj_from_list_def
    dest: first_or_notin first_or_self\<close>)
qed

lemma remove_obj_from_list_single:
  "dll h head tail [x] \<Longrightarrow> remove_obj_from_list h head tail x = Inl Null_deref"
  by (auto simp: list_op_simps remove_obj_from_list_def)

text \<open>
  \<^verbatim>\<open>remove_obj_from_list\<close> takes a node out of the doubly linked list wherever it stands (head,
  tail or middle), moves the list ends when needed and changes nothing but links of the list's
  nodes; on a list of one node it dereferences the null pointer.
\<close>

theorem remove_obj_from_list_correct:
  assumes "dll h head tail xs" "x \<in> set xs"
  shows "if xs = [x] then remove_obj_from_list h head tail x = Inl Null_deref
    else \<exists>h' head' tail'. remove_obj_from_list h head tail x = Inr (h', head', tail') \<and>
      dll h' head' tail' (remove1 x xs) \<and> relinked (set xs) h h'"
  using remove_obj_from_list_long [OF assms] remove_obj_from_list_single assms(1) by auto

text \<open>A list of three nodes.\<close>

definition sample_list :: heap where
  "sample_list = [Obj 0 \<mapsto> zero_obj\<lparr>list_next := Obj 1\<rparr>,
     Obj 1 \<mapsto> zero_obj\<lparr>list_prev := Obj 0, list_next := Obj 2\<rparr>, Obj 2 \<mapsto> zero_obj\<lparr>list_prev := Obj 1\<rparr>]"

lemma sample_list_dll: "dll sample_list (Obj 0) (Obj 2) [Obj 0, Obj 1, Obj 2]"
  by (simp add: dll_def links_def sample_list_def zero_obj_def)

theorem remove_obj_from_list_correct_witness:
  "\<exists>h' head' tail'. remove_obj_from_list sample_list (Obj 0) (Obj 2) (Obj 1) = Inr (h', head', tail') \<and>
    dll h' head' tail' [Obj 0, Obj 2]"
  using remove_obj_from_list_correct [OF sample_list_dll, of "Obj 1"] by auto

text \<open>\<^verbatim>\<open>prev_obj_in_slist\<close> finds the predecessor of any node but the first, and the end of the
  list for a pointer that is not a successor in it.\<close>

lemma prev_obj_walk_correct:
  assumes "dseg (links h) p (as @ y # x # bs) NULL" "distinct (as @ y # x # bs)"
    "length as < fuel"
  shows "prev_obj_walk fuel h (first_or (as @ [y]) NULL) x = Inr y"
  using assms
proof (induction as arbitrary: p fuel)
  case Nil
  then show ?case by (cases fuel) (auto simp: links_Some c_simps)
next
  case (Cons a as)
  then obtain f where f: "fuel = Suc f" by (cases fuel) auto
  from Cons.prems have "first_or as y \<noteq> x" by (cases as) auto
  with Cons.prems Cons.IH [of a f] show ?case by (auto simp: f links_Some c_simps)
qed

lemma prev_obj_in_slist_correct:
  assumes "dll h head tail (as @ y # x # bs)" "length as < fuel"
  shows "prev_obj_in_slist fuel h head x = Inr y"
proof -
  have "head = first_or (as @ [y]) NULL" "head \<noteq> x"
    using assms(1) by (cases as; auto simp: dll_def)+
  then show ?thesis
    using prev_obj_walk_correct [of h NULL as y x bs fuel] assms
    by (simp add: prev_obj_in_slist_def dll_def)
qed

end
