(* ===== verification/HashtableStruct.thy ===== *)
theory HashtableStruct
  imports CacheObj
begin

text \<open>
  \<^verbatim>\<open>dataStructure/hashtable/hashtableStruct.h\<close> and the generator of
  \<^verbatim>\<open>utils/include/mymath.h\<close>: the state the two chained hash tables share, and their index
  arithmetic. The state extends the store. The fields of the unions are kept side by side: \<open>table\<close>
  is the array of objects of version 1, \<open>ptr_table\<close> the array of pointers of version 2. The hash
  function (\<^verbatim>\<open>get_hash_value_int_64\<close>, chosen at build time) is an argument \<open>hash\<close> of every
  operation; nothing is assumed of it. \<open>rand_seed\<close> is the copy of the static variable of
  \<^verbatim>\<open>mymath.h\<close> that belongs to the file of the table; it starts at 0, and \<^verbatim>\<open>set_rand_seed\<close>, called
  in another file, sets another copy.
\<close>

record hashtable_t = store +
  table :: nat
  ptr_table :: "nat \<Rightarrow> ptr"
  n_cur_item :: u64
  hash_power :: u16
  n_lookup :: u64
  n_chain_walk :: u64
  monitored_ptrs :: "pvar list"
  n_allocated_ptrs :: u16
  rand_seed :: u64

definition hashsize :: "u16 \<Rightarrow> u64" where
  "hashsize n = push_bit (unat n) 1"

definition hashmask :: "u16 \<Rightarrow> u64" where
  "hashmask n = hashsize n - 1"

text \<open>The index of the bucket of an object id.\<close>

definition bucket_of :: "(obj_id_t \<Rightarrow> u64) \<Rightarrow> u16 \<Rightarrow> obj_id_t \<Rightarrow> nat" where
  "bucket_of hash pw i = unat (hash i AND hashmask pw)"

text \<open>\<^verbatim>\<open>(uint64_t)(hashsize(p) * CHAINED_HASHTABLE_EXPAND_THRESHOLD)\<close>, with the threshold 0.8.
  The product of the \<^verbatim>\<open>double\<close> 0.8 and a power of two is exact, and its error against 4/5 stays
  below the distance of \<open>4/5 \<cdot> 2^p\<close> to the next integer for every power below 52.\<close>

definition expand_limit :: "u16 \<Rightarrow> u64" where
  "expand_limit pw = of_nat ((4 * 2 ^ unat pw) div 5)"

text \<open>A bound on the length of every chain walk.\<close>

abbreviation chain_bound :: "hashtable_t \<Rightarrow> nat" where
  "chain_bound s \<equiv> unat (n_cur_item s) + 2"

text \<open>\<^verbatim>\<open>next_rand\<close> of \<^verbatim>\<open>mymath.h\<close>: the next state of the generator, which it also returns.\<close>

definition next_rand :: "u64 \<Rightarrow> u64" where
  "next_rand seed = 6364136223846793005 * seed + 1442695040888963407"

lemma unat_hashsize: "unat pw < 64 \<Longrightarrow> unat (hashsize pw) = 2 ^ unat pw"
  using unat_of_nat_u64 [of "2 ^ unat pw"]
    power_strict_increasing [of "unat pw" 64 "2 :: nat"]
  by (simp add: hashsize_def push_bit_eq_mult)

lemma hashmask_mask: "hashmask pw = mask (unat pw)"
  by (simp add: hashmask_def hashsize_def mask_eq_exp_minus_1 push_bit_eq_mult)

lemma bucket_of_less: "unat pw < 64 \<Longrightarrow> bucket_of hash pw i < 2 ^ unat pw"
  unfolding bucket_of_def hashmask_mask take_bit_eq_mask [symmetric] unsigned_take_bit_eq
  by (rule take_bit_nat_less_exp)

end
