(* ===== verification/HashtableRep.thy ===== *)
theory HashtableRep
  imports HashtableStruct
begin

text \<open>
  What the two hash tables and their clients share when they reason about the store: the objects
  that are live, the list threaded through some of them, the chains of the buckets, and what a
  client sees of all this. A live object that is not in the list has null list links.
\<close>

section \<open>What a client sees\<close>

definition payload :: "heap \<Rightarrow> ptr \<Rightarrow> obj_id_t \<times> u32" where
  "payload h p = (o_id (the (h p)), o_size (the (h p)))"

text \<open>The objects of a set of addresses, and of a list of addresses in order.\<close>

definition objs :: "heap \<Rightarrow> ptr set \<Rightarrow> (obj_id_t \<times> u32) set" where
  "objs h P = payload h ` P"

abbreviation view :: "heap \<Rightarrow> ptr list \<Rightarrow> (obj_id_t \<times> u32) list" where
  "view h xs \<equiv> map (payload h) xs"

lemma payload_core: "core h' q = core h p \<Longrightarrow> payload h' q = payload h p"
  unfolding payload_def core_def
  by (cases "h p"; cases "h' q") (auto, (metis unlink_set(6,7))+)

lemma payload_upd [simp]:
  "payload (h(p \<mapsto> x)) q = (if q = p then (o_id x, o_size x) else payload h q)"
  by (simp add: payload_def)

lemma objs_core:
  "(\<And>p. p \<in> P \<Longrightarrow> core h' p = core h p) \<Longrightarrow> objs h' P = objs h P"
  unfolding objs_def by (intro image_cong refl payload_core)

lemma view_core:
  "(\<And>p. p \<in> set xs \<Longrightarrow> core h' p = core h p) \<Longrightarrow> view h' xs = view h xs"
  by (intro map_cong refl payload_core)

section \<open>The list among the live objects\<close>

definition linked :: "'a store_scheme \<Rightarrow> ptr set \<Rightarrow> ptr list \<Rightarrow> bool" where
  "linked s P xs \<longleftrightarrow> dll (heap s) (vars s list_head) (vars s list_tail) xs \<and> set xs \<subseteq> P \<and>
     (\<forall>p \<in> P - set xs. links (heap s) p = Some (NULL, NULL))"

lemma linked_cong:
  assumes "linked s P xs" "\<And>p. p \<in> P \<Longrightarrow> links (heap s') p = links (heap s) p" "vars s' = vars s"
  shows "linked s' P xs"
  using assms dseg_cong [of xs "links (heap s')" "links (heap s)" NULL NULL]
  by (auto simp: linked_def dll_def subset_iff)

lemma links_keep: "h p = Some x \<Longrightarrow> list_prev y = list_prev x \<Longrightarrow> list_next y = list_next x \<Longrightarrow>
    links (h(p \<mapsto> y)) = links h"
  by (auto simp: links_def fun_eq_iff)

text \<open>An object that has left the list, with links no neighbour disagrees with.\<close>

definition stale :: "'a store_scheme \<Rightarrow> ptr list \<Rightarrow> ptr \<Rightarrow> bool" where
  "stale s xs p \<longleftrightarrow> p \<notin> set xs \<and> (\<exists>a b. links (heap s) p = Some (a, b) \<and>
     (a = NULL \<or> a \<in> set xs \<and> (\<exists>c. links (heap s) a = Some (c, b))) \<and>
     (b = NULL \<or> b \<in> set xs \<and> (\<exists>c. links (heap s) b = Some (a, c))))"

definition same_view :: "heap \<Rightarrow> ptr set \<Rightarrow> ptr list \<Rightarrow> heap \<Rightarrow> ptr set \<Rightarrow> ptr list \<Rightarrow> bool" where
  "same_view h P xs h' P' xs' \<longleftrightarrow> objs h' P' = objs h P \<and> view h' xs' = view h xs \<and> card P' = card P"

lemma same_view_refl [simp]: "same_view h P xs h P xs"
  by (simp add: same_view_def)

lemma same_view_trans:
  "same_view h P xs h' P' xs' \<Longrightarrow> same_view h' P' xs' h'' P'' xs'' \<Longrightarrow> same_view h P xs h'' P'' xs''"
  by (simp add: same_view_def)

text \<open>Distinct ids survive whatever keeps the objects and their number.\<close>

definition ids_ok :: "heap \<Rightarrow> ptr set \<Rightarrow> bool" where
  "ids_ok h P \<longleftrightarrow> inj_on (fst \<circ> payload h) P"

lemma ids_ok_iff: "finite P \<Longrightarrow> ids_ok h P \<longleftrightarrow> card (fst ` objs h P) = card P"
  by (simp add: ids_ok_def inj_on_iff_eq_card objs_def image_comp)

lemma ids_ok_same_view:
  "same_view h P xs h' P' xs' \<Longrightarrow> finite P \<Longrightarrow> finite P' \<Longrightarrow> ids_ok h P \<Longrightarrow> ids_ok h' P'"
  by (simp add: ids_ok_iff same_view_def)

section \<open>Moving an object\<close>

definition subst :: "ptr \<Rightarrow> ptr \<Rightarrow> ptr \<Rightarrow> ptr" where
  "subst p q r = (if r = p then q else r)"

lemma map_subst [simp]: "p \<notin> set xs \<Longrightarrow> map (subst p q) xs = xs"
  by (induction xs) (auto simp: subst_def)

lemma subst_self [simp]: "subst p q p = q"
  by (simp add: subst_def)

lemma subst_image: "p \<in> P \<Longrightarrow> subst p q ` P = insert q (P - {p})"
  by (auto simp: subst_def)

lemma same_view_subst:
  assumes "payload h' q = payload h p" "\<And>r. r \<in> P \<Longrightarrow> r \<noteq> p \<Longrightarrow> payload h' r = payload h r"
    "p \<in> P" "q \<notin> P - {p}" "set xs \<subseteq> P" "finite P"
  shows "same_view h P xs h' (insert q (P - {p})) (map (subst p q) xs)"
proof -
  have s: "payload h' (subst p q r) = payload h r" if "r \<in> P" for r
    using that assms(1,2) by (auto simp: subst_def)
  then have "objs h' (subst p q ` P) = objs h P" by (simp add: objs_def image_comp)
  moreover have "view h' (map (subst p q) xs) = view h xs"
    using s assms(5) by auto
  moreover have "card (insert q (P - {p})) = card P"
    using assms(3,4,6) by (metis card_insert_disjoint card.remove finite_Diff)
  ultimately show ?thesis using assms(3) by (simp add: same_view_def subst_image)
qed

lemma payload_unlink: "core h' q = Some y \<Longrightarrow> payload h' q = (o_id y, o_size y)"
  by (auto simp: core_Some payload_def)

lemma links_core_NULL: "links h p = Some (a, b) \<Longrightarrow> core h p = Some x \<Longrightarrow> h p = Some (x\<lparr>list_prev := a, list_next := b\<rparr>)"
  by (auto simp: links_Some core_Some unlink_def)

section \<open>Chains\<close>

definition nexts :: "heap \<Rightarrow> ptr \<Rightarrow> ptr option" where
  "nexts h p = map_option hash_next (h p)"

fun hchain :: "heap \<Rightarrow> ptr list \<Rightarrow> bool" where
  "hchain h [] = True"
| "hchain h (p # ps) = (p \<noteq> NULL \<and> nexts h p = Some (first_or ps NULL) \<and> hchain h ps)"

lemma nexts_Some: "nexts h p = Some n \<longleftrightarrow> (\<exists>x. h p = Some x \<and> hash_next x = n)"
  by (auto simp: nexts_def)

lemma nexts_core: "core h' q = core h p \<Longrightarrow> nexts h' q = nexts h p"
  unfolding nexts_def core_def
  by (cases "h p"; cases "h' q") (auto, metis unlink_set(5))

lemma hchain_core: "(\<And>p. p \<in> set ps \<Longrightarrow> core h' p = core h p) \<Longrightarrow> hchain h' ps \<longleftrightarrow> hchain h ps"
proof (induction ps)
  case (Cons p ps)
  have "nexts h' p = nexts h p" using Cons.prems by (intro nexts_core) simp
  with Cons show ?case by simp
qed simp

lemma hchain_NULL: "hchain h ps \<Longrightarrow> NULL \<notin> set ps"
  by (induction ps) auto

lemma hchain_mem: "hchain h ps \<Longrightarrow> q \<in> set ps \<Longrightarrow> \<exists>x. h q = Some x"
  by (induction ps) (auto simp: nexts_Some)

text \<open>Splitting a chain at one of its objects.\<close>

lemma hchain_append:
  "hchain h (ps @ q # qs) \<Longrightarrow> hchain h (q # qs)"
  by (induction ps) auto


section \<open>Look-up counters\<close>

definition same_table :: "hashtable_t \<Rightarrow> hashtable_t \<Rightarrow> bool" where
  "same_table s s' \<longleftrightarrow> s' = s\<lparr>n_lookup := n_lookup s', n_chain_walk := n_chain_walk s'\<rparr>"

lemma same_table_refl [simp]: "same_table s s"
  by (simp add: same_table_def)

lemma same_tableD:
  assumes "same_table s s'"
  shows "heap s' = heap s" "vars s' = vars s" "table s' = table s" "ptr_table s' = ptr_table s"
    "hash_power s' = hash_power s" "n_cur_item s' = n_cur_item s" "next_obj s' = next_obj s"
    "next_tbl s' = next_tbl s" "monitored_ptrs s' = monitored_ptrs s"
  by (subst assms [unfolded same_table_def], simp)+

end
