(* ===== verification/ChainedHashtable.thy ===== *)
theory ChainedHashtable
  imports HashtableRep
begin

text \<open>
  \<^verbatim>\<open>dataStructure/hashtable/chainedHashtable.c\<close>, the table of \<^verbatim>\<open>HASHTABLE_VER 1\<close>. The first object
  of a bucket lives in the table itself, so deleting it and growing the table move objects to new
  addresses; the links of the list threaded through the objects and the monitored pointer
  variables are redirected.
\<close>

section \<open>Helpers\<close>

definition OBJ_EMPTY :: "cache_obj_t \<Rightarrow> bool" where
  "OBJ_EMPTY x \<longleftrightarrow> o_size x = 0"

text \<open>\<^verbatim>\<open>_last_obj_in_bucket\<close>, from the first object of the bucket.\<close>

fun last_obj_in_chain :: "nat \<Rightarrow> heap \<Rightarrow> ptr \<Rightarrow> ptr result" where
  "last_obj_in_chain 0 h p = Inl Diverges"
| "last_obj_in_chain (Suc fuel) h p =
    rbind (load h p) (\<lambda>x.
    if hash_next x \<noteq> NULL then last_obj_in_chain fuel h (hash_next x) else Inr p)"

definition update_monitored_ptr :: "hashtable_t \<Rightarrow> ptr \<Rightarrow> ptr \<Rightarrow> hashtable_t" where
  "update_monitored_ptr s new_obj old_obj =
    s\<lparr>vars := fold (\<lambda>v vs. if vs v = old_obj then vs(v := new_obj) else vs)
       (monitored_ptrs s) (vars s)\<rparr>"

definition move_obj_to_new_loc ::
  "hashtable_t \<Rightarrow> ptr \<Rightarrow> ptr \<Rightarrow> hashtable_t result" where
  "move_obj_to_new_loc s new_obj old_obj =
    rbind (load (heap s) old_obj) (\<lambda>x.
    rbind (if list_prev x \<noteq> NULL then modify (heap s) (list_prev x) (set_next new_obj)
           else Inr (heap s)) (\<lambda>h.
    rbind (load h old_obj) (\<lambda>x.
    rbind (if list_next x \<noteq> NULL then modify h (list_next x) (set_prev new_obj)
           else Inr h) (\<lambda>h.
    rbind (load h old_obj) (\<lambda>x.
    rbind (modify h new_obj (\<lambda>_. x)) (\<lambda>h.
    Inr (update_monitored_ptr (s\<lparr>heap := h\<rparr>) new_obj old_obj)))))))"

definition delete_obj_in_table ::
  "hashtable_t \<Rightarrow> ptr \<Rightarrow> hashtable_t result" where
  "delete_obj_in_table s cache_obj =
    rbind (load (heap s) cache_obj) (\<lambda>x.
    rbind (if list_prev x \<noteq> NULL then modify (heap s) (list_prev x) (set_next (list_next x))
           else Inr (heap s)) (\<lambda>h.
    rbind (load h cache_obj) (\<lambda>x.
    rbind (if list_next x \<noteq> NULL then modify h (list_next x) (set_prev (list_prev x))
           else Inr h) (\<lambda>h.
    Inr (update_monitored_ptr (s\<lparr>heap := h\<rparr>) NULL cache_obj)))))"

definition set_hash_next :: "ptr \<Rightarrow> ptr \<Rightarrow> hashtable_t \<Rightarrow> hashtable_t result" where
  "set_hash_next p q s =
    rbind (modify (heap s) p (\<lambda>x. x\<lparr>hash_next := q\<rparr>)) (\<lambda>h. Inr (s\<lparr>heap := h\<rparr>))"

definition move_into_new_table ::
  "(obj_id_t \<Rightarrow> u64) \<Rightarrow> hashtable_t \<Rightarrow> ptr \<Rightarrow> bool \<Rightarrow> hashtable_t result" where
  "move_into_new_table hash s cache_obj part_of_old_table =
    rbind (load (heap s) cache_obj) (\<lambda>x.
    let slot = Slot (table s) (bucket_of hash (hash_power s) (o_id x)) in
    rbind (load (heap s) slot) (\<lambda>y.
    if OBJ_EMPTY y then
      rbind (move_obj_to_new_loc s slot cache_obj) (\<lambda>s.
      rbind (set_hash_next slot NULL s) (\<lambda>s.
      Inr (if part_of_old_table then s else free_cache_obj cache_obj s)))
    else
      rbind (if part_of_old_table then
               (case create_cache_obj_from_request None s of (new_cache_obj, s) \<Rightarrow>
                rbind (move_obj_to_new_loc s new_cache_obj cache_obj) (\<lambda>s.
                Inr (new_cache_obj, s)))
             else Inr (cache_obj, s)) (\<lambda>(cache_obj, s).
      rbind (last_obj_in_chain (chain_bound s) (heap s) slot) (\<lambda>l.
      rbind (set_hash_next l cache_obj s) (\<lambda>s.
      set_hash_next cache_obj NULL s)))))"

section \<open>Allocation, growth\<close>

definition alloc_table :: "u16 \<Rightarrow> hashtable_t \<Rightarrow> hashtable_t" where
  "alloc_table pw s =
    s\<lparr>heap := (\<lambda>p. case p of
         Slot g i \<Rightarrow> if g = next_tbl s \<and> i < unat (hashsize pw) then Some zero_obj else heap s p
       | _ \<Rightarrow> heap s p),
      table := next_tbl s, next_tbl := Suc (next_tbl s)\<rparr>"

definition free_table :: "nat \<Rightarrow> hashtable_t \<Rightarrow> hashtable_t" where
  "free_table g s = s\<lparr>heap := (\<lambda>p. case p of Slot g' i \<Rightarrow> if g' = g then None else heap s p
     | _ \<Rightarrow> heap s p)\<rparr>"

definition create_chained_hashtable :: "u16 \<Rightarrow> hashtable_t \<Rightarrow> hashtable_t" where
  "create_chained_hashtable pw s =
    (alloc_table pw s)\<lparr>hash_power := pw, n_cur_item := 0, n_lookup := 0, n_chain_walk := 0,
      monitored_ptrs := [], n_allocated_ptrs := 0\<rparr>"

fun expand_chain ::
  "nat \<Rightarrow> (obj_id_t \<Rightarrow> u64) \<Rightarrow> hashtable_t \<Rightarrow> ptr \<Rightarrow> hashtable_t result" where
  "expand_chain 0 hash s cur_obj = Inl Diverges"
| "expand_chain (Suc fuel) hash s cur_obj =
    (if cur_obj = NULL then Inr s
     else rbind (load (heap s) cur_obj) (\<lambda>x.
       rbind (move_into_new_table hash s cur_obj False) (\<lambda>s.
       expand_chain fuel hash s (hash_next x))))"

fun expand_buckets ::
  "(obj_id_t \<Rightarrow> u64) \<Rightarrow> nat \<Rightarrow> nat list \<Rightarrow> hashtable_t \<Rightarrow> hashtable_t result" where
  "expand_buckets hash old_table [] s = Inr s"
| "expand_buckets hash old_table (i # is) s =
    rbind (load (heap s) (Slot old_table i)) (\<lambda>x.
    if OBJ_EMPTY x then expand_buckets hash old_table is s
    else
      rbind (move_into_new_table hash s (Slot old_table i) True) (\<lambda>s.
      rbind (expand_chain (chain_bound s) hash s (hash_next x)) (\<lambda>s.
      expand_buckets hash old_table is s)))"

definition chained_hashtable_expand ::
  "(obj_id_t \<Rightarrow> u64) \<Rightarrow> hashtable_t \<Rightarrow> hashtable_t result" where
  "chained_hashtable_expand hash s =
    (let old_table = table s; s = s\<lparr>hash_power := hash_power s + 1\<rparr>;
         s = alloc_table (hash_power s) s
     in rbind (expand_buckets hash old_table [0 ..< unat (hashsize (hash_power s - 1))] s) (\<lambda>s.
        Inr (free_table old_table s)))"

section \<open>Look-up\<close>

text \<open>The chain walk returns the object found (or null) and the number of objects it visited.\<close>

fun find_in_chain :: "nat \<Rightarrow> heap \<Rightarrow> ptr \<Rightarrow> obj_id_t \<Rightarrow> nat \<Rightarrow> (ptr \<times> nat) result" where
  "find_in_chain 0 h cache_obj obj_id depth = Inl Diverges"
| "find_in_chain (Suc fuel) h cache_obj obj_id depth =
    (if cache_obj = NULL then Inr (NULL, depth)
     else rbind (load h cache_obj) (\<lambda>x.
       if o_id x = obj_id then Inr (cache_obj, depth + 1)
       else find_in_chain fuel h (hash_next x) obj_id (depth + 1)))"

definition count_lookup :: "nat \<Rightarrow> hashtable_t \<Rightarrow> hashtable_t" where
  "count_lookup depth s =
    (let s = s\<lparr>n_lookup := n_lookup s + 1, n_chain_walk := n_chain_walk s + of_nat depth\<rparr>
     in if n_chain_walk s div n_lookup s > 3 then s\<lparr>n_chain_walk := 0, n_lookup := 0\<rparr> else s)"

text \<open>\<^verbatim>\<open>chained_hashtable_find_obj_id\<close> walks the chain as \<^verbatim>\<open>chained_hashtable_find\<close> does and then
  returns \<^verbatim>\<open>NULL\<close> instead of \<^verbatim>\<open>ret\<close>.\<close>

definition chained_hashtable_find_obj_id ::
  "(obj_id_t \<Rightarrow> u64) \<Rightarrow> hashtable_t \<Rightarrow> obj_id_t \<Rightarrow> (ptr \<times> hashtable_t) result" where
  "chained_hashtable_find_obj_id hash s obj_id =
    (let slot = Slot (table s) (bucket_of hash (hash_power s) obj_id) in
     rbind (load (heap s) slot) (\<lambda>x.
     if OBJ_EMPTY x then Inr (NULL, s)
     else
       rbind (find_in_chain (chain_bound s) (heap s) slot obj_id 0) (\<lambda>(ret, depth).
       Inr (NULL, count_lookup depth s))))"

definition chained_hashtable_find_obj ::
  "(obj_id_t \<Rightarrow> u64) \<Rightarrow> hashtable_t \<Rightarrow> ptr \<Rightarrow> (ptr \<times> hashtable_t) result" where
  "chained_hashtable_find_obj hash s obj_to_find =
    rbind (load (heap s) obj_to_find) (\<lambda>x. chained_hashtable_find_obj_id hash s (o_id x))"

text \<open>\<^verbatim>\<open>chained_hashtable_find\<close> caches the hash value in the request.\<close>

definition chained_hashtable_find ::
  "(obj_id_t \<Rightarrow> u64) \<Rightarrow> hashtable_t \<Rightarrow> request_t \<Rightarrow>
     (ptr \<times> request_t \<times> hashtable_t) result" where
  "chained_hashtable_find hash s req =
    (let req = (if hv req = 0 then req\<lparr>hv := hash (obj_id_int req)\<rparr> else req);
         slot = Slot (table s) (unat (hv req AND hashmask (hash_power s)))
     in rbind (load (heap s) slot) (\<lambda>x.
        if OBJ_EMPTY x then Inr (NULL, req, s)
        else
          rbind (find_in_chain (chain_bound s) (heap s) slot (obj_id_int req) 0) (\<lambda>(ret, depth).
          Inr (ret, req, count_lookup depth s))))"

section \<open>Insertion and deletion\<close>

definition chained_hashtable_insert ::
  "(obj_id_t \<Rightarrow> u64) \<Rightarrow> hashtable_t \<Rightarrow> request_t \<Rightarrow> (ptr \<times> hashtable_t) result" where
  "chained_hashtable_insert hash s req =
    rbind (if n_cur_item s > expand_limit (hash_power s) then chained_hashtable_expand hash s
           else Inr s) (\<lambda>s.
    let slot = Slot (table s) (bucket_of hash (hash_power s) (obj_id_int req)) in
    rbind (load (heap s) slot) (\<lambda>x.
    rbind (if OBJ_EMPTY x then
             rbind (modify (heap s) slot (\<lambda>x. copy_request_to_cache_obj x req)) (\<lambda>h.
             Inr (slot, s\<lparr>heap := h\<rparr>))
           else
             (case create_cache_obj_from_request (Some req) s of (new_cache_obj, s) \<Rightarrow>
              rbind (last_obj_in_chain (chain_bound s) (heap s) slot) (\<lambda>l.
              rbind (set_hash_next l new_cache_obj s) (\<lambda>s.
              Inr (new_cache_obj, s))))) (\<lambda>(cache_obj, s).
    Inr (cache_obj, s\<lparr>n_cur_item := n_cur_item s + 1\<rparr>))))"

fun delete_in_chain ::
  "nat \<Rightarrow> hashtable_t \<Rightarrow> ptr \<Rightarrow> ptr \<Rightarrow> hashtable_t result" where
  "delete_in_chain 0 s cache_obj_in_bucket cache_obj = Inl Diverges"
| "delete_in_chain (Suc fuel) s cache_obj_in_bucket cache_obj =
    (if cache_obj_in_bucket = NULL then Inl Assert_failed
     else
       (let prev_cache_obj = cache_obj_in_bucket in
        rbind (load (heap s) prev_cache_obj) (\<lambda>x.
        if hash_next x = cache_obj then
          rbind (load (heap s) cache_obj) (\<lambda>y.
          rbind (set_hash_next prev_cache_obj (hash_next y) s) (\<lambda>s.
          rbind (delete_obj_in_table s cache_obj) (\<lambda>s.
          Inr (free_cache_obj cache_obj s))))
        else delete_in_chain fuel s (hash_next x) cache_obj)))"

definition chained_hashtable_delete ::
  "(obj_id_t \<Rightarrow> u64) \<Rightarrow> hashtable_t \<Rightarrow> ptr \<Rightarrow> hashtable_t result" where
  "chained_hashtable_delete hash s cache_obj =
    (let bound = chain_bound s; s = s\<lparr>n_cur_item := n_cur_item s - 1\<rparr> in
     rbind (load (heap s) cache_obj) (\<lambda>x.
     let slot = Slot (table s) (bucket_of hash (hash_power s) (o_id x)) in
     rbind (load (heap s) slot) (\<lambda>y.
     if OBJ_EMPTY y then Inl Assert_failed
     else if cache_obj = slot then
       (if hash_next y \<noteq> NULL then
          rbind (move_obj_to_new_loc s slot (hash_next y)) (\<lambda>s.
          Inr (free_cache_obj (hash_next y) s))
        else
          rbind (delete_obj_in_table s slot) (\<lambda>s.
          Inr (s\<lparr>heap := (heap s)(slot \<mapsto> zero_obj)\<rparr>)))
     else delete_in_chain bound s slot cache_obj)))"

section \<open>Random object, iteration, destruction, integrity\<close>

text \<open>\<^verbatim>\<open>chained_hashtable_rand_obj\<close>: from a random position on to the next slot in use.\<close>

fun next_used_slot :: "nat \<Rightarrow> hashtable_t \<Rightarrow> u64 \<Rightarrow> ptr result" where
  "next_used_slot 0 s pos = Inl Diverges"
| "next_used_slot (Suc fuel) s pos =
    rbind (load (heap s) (Slot (table s) (unat pos))) (\<lambda>x.
    if OBJ_EMPTY x then next_used_slot fuel s ((pos + 1) AND hashmask (hash_power s))
    else Inr (Slot (table s) (unat pos)))"

definition chained_hashtable_rand_obj :: "hashtable_t \<Rightarrow> (ptr \<times> hashtable_t) result" where
  "chained_hashtable_rand_obj s =
    (let s = s\<lparr>rand_seed := next_rand (rand_seed s)\<rparr> in
     rbind (next_used_slot (unat (hashsize (hash_power s))) s
       (rand_seed s AND hashmask (hash_power s))) (\<lambda>p. Inr (p, s)))"

text \<open>\<^verbatim>\<open>chained_hashtable_foreach\<close>: the objects in the order in which \<^verbatim>\<open>iter_func\<close> is called.\<close>

fun collect_chain :: "nat \<Rightarrow> heap \<Rightarrow> ptr \<Rightarrow> ptr list result" where
  "collect_chain 0 h p = Inl Diverges"
| "collect_chain (Suc fuel) h p =
    (if p = NULL then Inr []
     else rbind (load h p) (\<lambda>x.
       rbind (collect_chain fuel h (hash_next x)) (\<lambda>ps. Inr (p # ps))))"

fun foreach_buckets :: "hashtable_t \<Rightarrow> nat list \<Rightarrow> ptr list result" where
  "foreach_buckets s [] = Inr []"
| "foreach_buckets s (i # is) =
    rbind (load (heap s) (Slot (table s) i)) (\<lambda>x.
    rbind (if OBJ_EMPTY x then Inr []
           else collect_chain (chain_bound s) (heap s) (Slot (table s) i)) (\<lambda>ps.
    rbind (foreach_buckets s is) (\<lambda>qs. Inr (ps @ qs))))"

definition chained_hashtable_foreach :: "hashtable_t \<Rightarrow> ptr list result" where
  "chained_hashtable_foreach s = foreach_buckets s [0 ..< unat (hashsize (hash_power s))]"

definition free_chained_hashtable :: "hashtable_t \<Rightarrow> hashtable_t result" where
  "free_chained_hashtable s =
    rbind (chained_hashtable_foreach s) (\<lambda>ps.
    Inr (free_table (table s) (fold free_cache_obj (filter is_Obj ps) s)))"

definition chained_hashtable_add_ptr_to_monitoring ::
  "hashtable_t \<Rightarrow> pvar \<Rightarrow> hashtable_t" where
  "chained_hashtable_add_ptr_to_monitoring s v =
    s\<lparr>n_allocated_ptrs := (if length (monitored_ptrs s) = unat (n_allocated_ptrs s)
        then max 8 (n_allocated_ptrs s * 2) else n_allocated_ptrs s),
      monitored_ptrs := monitored_ptrs s @ [v]\<rparr>"


section \<open>Moving and unlinking objects\<close>

lemma update_monitored_ptr_eq:
  "monitored_ptrs s = [list_head, list_tail] \<Longrightarrow>
    update_monitored_ptr s q p = s\<lparr>vars := subst p q \<circ> vars s\<rparr>"
proof -
  assume m: "monitored_ptrs s = [list_head, list_tail]"
  have "fold (\<lambda>v vs. if vs v = p then vs(v := q) else vs) [list_head, list_tail] (vars s) v =
      (subst p q \<circ> vars s) v" for v
    by (cases v) (auto simp: subst_def)
  then have "fold (\<lambda>v vs. if vs v = p then vs(v := q) else vs) [list_head, list_tail] (vars s) =
      subst p q \<circ> vars s" ..
  then show ?thesis unfolding update_monitored_ptr_def m by (rule arg_cong)
qed

lemma move_in_list:
  assumes "dseg (links h) NULL (as @ p # bs) NULL" "distinct (as @ p # bs)"
    "q \<notin> set (as @ p # bs)" "q \<noteq> NULL" "h p = Some x" "h q = Some y"
  shows "\<exists>h'. rbind (if list_prev x \<noteq> NULL then modify h (list_prev x) (set_next q) else Inr h) (\<lambda>h.
      rbind (load h p) (\<lambda>x.
      rbind (if list_next x \<noteq> NULL then modify h (list_next x) (set_prev q) else Inr h) (\<lambda>h.
      rbind (load h p) (\<lambda>x. modify h q (\<lambda>_. x))))) = Inr h' \<and>
    dseg (links h') NULL (as @ q # bs) NULL \<and> (\<forall>r. core h' r = ((core h)(q \<mapsto> unlink x)) r) \<and>
    (\<forall>r. r \<notin> set (as @ q # bs) \<longrightarrow> h' r = h r)"
proof (cases as rule: rev_cases)
  case Nil
  then show ?thesis using assms
    by (cases bs) (auto simp: links_Some c_simps core_def)
next
  case (snoc as' a)
  then show ?thesis using assms
    by (cases bs) (auto simp: links_Some c_simps core_def)
qed


lemma subst_first_last:
  "p \<noteq> NULL \<Longrightarrow> subst p q (first_or xs NULL) = first_or (map (subst p q) xs) NULL"
  "p \<noteq> NULL \<Longrightarrow> subst p q (last_or NULL xs) = last_or NULL (map (subst p q) xs)"
  by (cases xs; auto simp: subst_def) (cases xs rule: rev_cases; auto simp: subst_def)

lemma move_obj_to_new_loc_correct:
  assumes l: "linked s P xs" and p: "p \<in> P" "heap s p = Some x" and N: "NULL \<notin> P"
    and q: "q \<notin> P" "q \<noteq> NULL" "heap s q = Some y" and m: "monitored_ptrs s = [list_head, list_tail]"
  shows "\<exists>h v. move_obj_to_new_loc s q p = Inr (s\<lparr>heap := h, vars := v\<rparr>) \<and>
    linked (s\<lparr>heap := h, vars := v\<rparr>) (insert q (P - {p})) (map (subst p q) xs) \<and>
    (\<forall>r. core h r = ((core (heap s))(q \<mapsto> unlink x)) r) \<and>
    (\<forall>r. r \<notin> insert q P \<longrightarrow> h r = heap s r)"
proof -
  let ?v = "subst p q \<circ> vars s"
  have pN: "p \<noteq> NULL" using p(1) N by auto
  have qx: "q \<notin> set xs" using l q(1) by (auto simp: linked_def)
  have d: "dseg (links (heap s)) NULL xs NULL" "distinct xs" "set xs \<subseteq> P"
    "vars s list_head = first_or xs NULL" "vars s list_tail = last_or NULL xs"
    and det: "r \<in> P \<Longrightarrow> r \<notin> set xs \<Longrightarrow> links (heap s) r = Some (NULL, NULL)" for r
    using l by (auto simp: linked_def dll_def)
  have v: "subst p q (vars s list_head) = first_or (map (subst p q) xs) NULL"
    "subst p q (vars s list_tail) = last_or NULL (map (subst p q) xs)"
    using pN by (simp_all add: d subst_first_last)
  show ?thesis
  proof (cases "p \<in> set xs")
    case False
    then have lx: "list_prev x = NULL" "list_next x = NULL"
      using det [OF p(1)] p(2) by (auto simp: links_def)
    let ?h = "(heap s)(q \<mapsto> x)"
    have "move_obj_to_new_loc s q p = Inr (s\<lparr>heap := ?h, vars := ?v\<rparr>)"
      using pN p q m by (simp add: move_obj_to_new_loc_def c_simps lx update_monitored_ptr_eq)
    moreover have "linked (s\<lparr>heap := ?h, vars := ?v\<rparr>) (insert q (P - {p})) (map (subst p q) xs)"
      using False d det q(1) pN lx qx by (auto simp: linked_def dll_def subst_first_last)
    moreover have "core ?h = (core (heap s))(q \<mapsto> unlink x)" by simp
    ultimately show ?thesis by (intro exI [of _ ?h] exI [of _ ?v]) simp
  next
    case True
    then obtain as bs where xs: "xs = as @ p # bs" by (meson split_list)
    then have np: "p \<notin> set as" "p \<notin> set bs" "q \<notin> set (as @ p # bs)" using d(2,3) q(1) by auto
    have mx: "map (subst p q) xs = as @ q # bs" using np by (simp add: xs)
    obtain h where h: "rbind (if list_prev x \<noteq> NULL then modify (heap s) (list_prev x) (set_next q)
            else Inr (heap s)) (\<lambda>h.
        rbind (load h p) (\<lambda>x.
        rbind (if list_next x \<noteq> NULL then modify h (list_next x) (set_prev q) else Inr h) (\<lambda>h.
        rbind (load h p) (\<lambda>x. modify h q (\<lambda>_. x))))) = Inr h"
      and hs: "dseg (links h) NULL (as @ q # bs) NULL"
        "\<forall>r. core h r = ((core (heap s))(q \<mapsto> unlink x)) r"
        "\<forall>r. r \<notin> set (as @ q # bs) \<longrightarrow> h r = heap s r"
      using move_in_list [of "heap s" as p bs q x y] d(1,2) np(3) q p(2) unfolding xs by blast
    have "move_obj_to_new_loc s q p = Inr (s\<lparr>heap := h, vars := ?v\<rparr>)"
      using h pN p(2) m
      by (auto simp: move_obj_to_new_loc_def c_simps update_monitored_ptr_eq rbind_eq_Inr split: if_splits)
    moreover have "linked (s\<lparr>heap := h, vars := ?v\<rparr>) (insert q (P - {p})) (map (subst p q) xs)"
      unfolding linked_def dll_def
      using hs d(2,3) np det by (simp add: v mx) (auto simp: xs links_def)
    ultimately show ?thesis using hs d(3) unfolding xs by (intro exI [of _ h] exI [of _ ?v]) auto
  qed
qed


text \<open>Unlinking an object that has left the list already changes nothing.\<close>

lemma upd_same: "h p = Some x \<Longrightarrow> y = x \<Longrightarrow> h(p \<mapsto> y) = h"
  by auto

lemma modify_same: "p \<noteq> NULL \<Longrightarrow> h p = Some x \<Longrightarrow> f x = x \<Longrightarrow> modify h p f = Inr h"
  by (simp add: modify_Some upd_same)

lemma delete_obj_in_table_stale:
  assumes l: "dll (heap s) (vars s list_head) (vars s list_tail) xs" and st: "stale s xs p"
    and p: "p \<noteq> NULL" and m: "monitored_ptrs s = [list_head, list_tail]"
  shows "delete_obj_in_table s p = Inr s"
proof -
  obtain a b x where x: "heap s p = Some x" "list_prev x = a" "list_next x = b" "p \<notin> set xs"
    and a: "a = NULL \<or> a \<in> set xs \<and> (\<exists>c. links (heap s) a = Some (c, b))"
    and b: "b = NULL \<or> b \<in> set xs \<and> (\<exists>c. links (heap s) b = Some (a, c))"
    using st by (auto simp: stale_def links_Some)
  have "first_or xs NULL \<noteq> p" "last_or NULL xs \<noteq> p"
    using x(4) p by (auto simp: first_or_def last_or_def split: list.splits)
  then have "subst p NULL (vars s v) = vars s v" for v
    using l by (cases v) (auto simp: dll_def subst_def)
  then have v: "subst p NULL \<circ> vars s = vars s" by auto
  have "a \<noteq> NULL \<Longrightarrow> modify (heap s) a (set_next b) = Inr (heap s)"
    using a by (auto simp: links_Some intro!: modify_same)
  moreover have "b \<noteq> NULL \<Longrightarrow> modify (heap s) b (set_prev a) = Inr (heap s)"
    using b by (auto simp: links_Some intro!: modify_same)
  ultimately show ?thesis
    using x p m by (cases "a = NULL") (simp_all add: delete_obj_in_table_def c_simps update_monitored_ptr_eq v)
qed


section \<open>Buckets\<close>

text \<open>An empty bucket is a zeroed slot; otherwise the slot holds the first object of the chain and
  the others were allocated on their own. All of them hash to the bucket.\<close>

definition in_bucket :: "(obj_id_t \<Rightarrow> u64) \<Rightarrow> u16 \<Rightarrow> heap \<Rightarrow> nat \<Rightarrow> ptr \<Rightarrow> bool" where
  "in_bucket hash pw h i q \<longleftrightarrow>
    snd (payload h q) \<noteq> 0 \<and> bucket_of hash pw (fst (payload h q)) = i"

definition bucket :: "(obj_id_t \<Rightarrow> u64) \<Rightarrow> u16 \<Rightarrow> nat \<Rightarrow> heap \<Rightarrow> nat \<Rightarrow> ptr list \<Rightarrow> bool" where
  "bucket hash pw g h i ps \<longleftrightarrow>
    (case ps of [] \<Rightarrow> h (Slot g i) = Some zero_obj
     | p # qs \<Rightarrow> p = Slot g i \<and> (\<forall>q \<in> set qs. is_Obj q)) \<and>
    hchain h ps \<and> distinct ps \<and> (\<forall>q \<in> set ps. in_bucket hash pw h i q)"

definition tbl :: "(obj_id_t \<Rightarrow> u64) \<Rightarrow> u16 \<Rightarrow> nat \<Rightarrow> heap \<Rightarrow> (nat \<Rightarrow> ptr list) \<Rightarrow> bool" where
  "tbl hash pw g h C \<longleftrightarrow> (\<forall>i < 2 ^ unat pw. bucket hash pw g h i (C i))"

definition ptrs :: "u16 \<Rightarrow> (nat \<Rightarrow> ptr list) \<Rightarrow> ptr set" where
  "ptrs pw C = (\<Union>i < 2 ^ unat pw. set (C i))"

lemma finite_ptrs [simp]: "finite (ptrs pw C)"
  by (simp add: ptrs_def)

lemma in_bucket_core: "core h' q = core h q \<Longrightarrow> in_bucket hash pw h' i q \<longleftrightarrow> in_bucket hash pw h i q"
  using payload_core [of h' q h q] by (simp add: in_bucket_def)

lemma bucket_frame:
  assumes "bucket hash pw g h i ps" "\<And>q. q \<in> set ps \<Longrightarrow> core h' q = core h q"
    "ps = [] \<Longrightarrow> h' (Slot g i) = h (Slot g i)"
  shows "bucket hash pw g h' i ps"
  using assms hchain_core [of ps h' h] in_bucket_core [of h' _ h hash pw i]
  by (auto simp: bucket_def split: list.splits)

lemma bucket_slot:
  assumes "bucket hash pw g h i ps"
  obtains y where "h (Slot g i) = Some y" "OBJ_EMPTY y \<longleftrightarrow> ps = []" "ps = [] \<Longrightarrow> y = zero_obj"
proof (cases ps)
  case Nil
  with assms that [of zero_obj] show ?thesis by (auto simp: bucket_def OBJ_EMPTY_def zero_obj_def)
next
  case (Cons p qs)
  with assms that show ?thesis
    by (auto simp: bucket_def OBJ_EMPTY_def nexts_Some in_bucket_def payload_def)
qed

lemma bucket_hd: "bucket hash pw g h i ps \<Longrightarrow> ps \<noteq> [] \<Longrightarrow> hd ps = Slot g i"
  by (auto simp: bucket_def split: list.splits)

lemma bucket_slotD: "bucket hash pw g h i ps \<Longrightarrow> Slot g' k \<in> set ps \<Longrightarrow> g' = g \<and> k = i"
  by (auto simp: bucket_def split: list.splits)

lemma bucket_inD: "bucket hash pw g h i ps \<Longrightarrow> q \<in> set ps \<Longrightarrow> in_bucket hash pw h i q"
  by (simp add: bucket_def)

lemma tbl_in_bucket:
  "tbl hash pw g h C \<Longrightarrow> i < 2 ^ unat pw \<Longrightarrow> p \<in> set (C i) \<Longrightarrow> in_bucket hash pw h i p"
  by (simp add: tbl_def bucket_def)

lemma tbl_bucket_unique:
  "tbl hash pw g h C \<Longrightarrow> i < 2 ^ unat pw \<Longrightarrow> j < 2 ^ unat pw \<Longrightarrow> p \<in> set (C i) \<Longrightarrow> p \<in> set (C j) \<Longrightarrow> i = j"
  by (metis tbl_in_bucket in_bucket_def)

lemma tbl_slot_notin:
  "tbl hash pw g h C \<Longrightarrow> j < 2 ^ unat pw \<Longrightarrow> C j = [] \<Longrightarrow> Slot g j \<notin> ptrs pw C"
proof
  assume t: "tbl hash pw g h C" and "C j = []" and "Slot g j \<in> ptrs pw C"
  then obtain i where i: "i < 2 ^ unat pw" "Slot g j \<in> set (C i)" by (auto simp: ptrs_def)
  then have "j = i" using t bucket_slotD unfolding tbl_def by blast
  with i(2) \<open>C j = []\<close> show False by simp
qed

lemma tbl_NULL: "tbl hash pw g h C \<Longrightarrow> NULL \<notin> ptrs pw C"
  by (auto simp: tbl_def ptrs_def bucket_def dest: hchain_NULL)

lemma length_chain_le:
  assumes "tbl hash pw g h C" "j < 2 ^ unat pw" "ptrs pw C \<subseteq> P" "finite P"
  shows "length (C j) \<le> card P"
proof -
  have "length (C j) = card (set (C j))"
    using assms(1,2) by (auto simp: tbl_def bucket_def distinct_card)
  also have "\<dots> \<le> card P" using assms by (intro card_mono) (auto simp: ptrs_def)
  finally show ?thesis .
qed

lemma hchain_snoc:
  assumes "hchain h ps" "distinct ps" "q \<notin> set ps" "q \<noteq> NULL" "nexts h' q = Some NULL"
    "ps \<noteq> [] \<Longrightarrow> nexts h' (last ps) = Some q" "\<And>r. r \<in> set (butlast ps) \<Longrightarrow> core h' r = core h r"
  shows "hchain h' (ps @ [q])"
  using assms
proof (induction ps)
  case (Cons p ps)
  then show ?case
  proof (cases ps)
    case (Cons p' ps')
    have "nexts h' p = nexts h p" using Cons.prems(7) [of p] Cons by (intro nexts_core) simp
    with Cons Cons.prems Cons.IH show ?thesis by simp
  qed simp
qed simp

lemma tbl_frame:
  assumes "tbl hash pw g h C" "\<And>r. r \<in> ptrs pw C \<Longrightarrow> core h' r = core h r"
    "\<And>i. i < 2 ^ unat pw \<Longrightarrow> C i = [] \<Longrightarrow> h' (Slot g i) = h (Slot g i)"
  shows "tbl hash pw g h' C"
  unfolding tbl_def
proof (intro allI impI)
  fix i :: nat
  assume i: "i < 2 ^ unat pw"
  show "bucket hash pw g h' i (C i)"
  proof (rule bucket_frame)
    show "bucket hash pw g h i (C i)" using assms(1) i by (simp add: tbl_def)
    show "core h' r = core h r" if "r \<in> set (C i)" for r
      using that i by (intro assms(2)) (auto simp: ptrs_def)
  qed (use assms(3) i in simp)
qed

lemma ptrs_append: "j < 2 ^ unat pw \<Longrightarrow> ptrs pw (C(j := C j @ [q])) = insert q (ptrs pw C)"
  by (auto simp: ptrs_def split: if_splits)

lemma tbl_append:
  assumes t: "tbl hash pw g h C" and j: "j < 2 ^ unat pw"
    and q: "q \<notin> ptrs pw C" "if C j = [] then q = Slot g j else is_Obj q"
    and z: "core h' q = Some z" "hash_next z = NULL" "o_size z \<noteq> 0" "bucket_of hash pw (o_id z) = j"
    and l: "C j \<noteq> [] \<Longrightarrow> core h' (last (C j)) = map_option (\<lambda>x. x\<lparr>hash_next := q\<rparr>) (core h (last (C j)))"
    and fr: "\<And>r. r \<in> ptrs pw C \<Longrightarrow> C j = [] \<or> r \<noteq> last (C j) \<Longrightarrow> core h' r = core h r"
    and e: "\<And>i. i < 2 ^ unat pw \<Longrightarrow> i \<noteq> j \<Longrightarrow> C i = [] \<Longrightarrow> h' (Slot g i) = h (Slot g i)"
  shows "tbl hash pw g h' (C(j := C j @ [q]))"
proof -
  have b: "bucket hash pw g h j (C j)" using t j by (simp add: tbl_def)
  have "bucket hash pw g h' j (C j @ [q])"
  proof -
    have sub: "set (C j) \<subseteq> ptrs pw C" using j by (auto simp: ptrs_def)
    have mem: "r \<in> set (butlast (C j)) \<Longrightarrow> core h' r = core h r" for r
    proof -
      assume r: "r \<in> set (butlast (C j))"
      then have "C j \<noteq> []" by auto
      then have "r \<noteq> last (C j)"
        using r b by (metis append_butlast_last_id bucket_def disjoint_iff distinct_append list.set_intros(1))
      then show "core h' r = core h r" using fr [of r] sub r in_set_butlastD by fast
    qed
    have last: "in_bucket hash pw h' j (last (C j))" "nexts h' (last (C j)) = Some q" if ne: "C j \<noteq> []"
    proof -
      obtain x where x: "h (last (C j)) = Some x"
        using b hchain_mem [OF _ last_in_set [OF ne]] by (auto simp: bucket_def)
      with l [OF ne] obtain x' where x': "h' (last (C j)) = Some x'" "unlink x' = (unlink x)\<lparr>hash_next := q\<rparr>"
        by (auto simp: core_def)
      have "hash_next x' = q" "o_id x' = o_id x" "o_size x' = o_size x"
        using x'(2) unlink_set(5-7) [of x'] by simp_all
      moreover have "in_bucket hash pw h j (last (C j))"
        using b last_in_set [OF ne] by (simp add: bucket_def)
      ultimately show "in_bucket hash pw h' j (last (C j))" "nexts h' (last (C j)) = Some q"
        using x x'(1) by (simp_all add: in_bucket_def payload_def nexts_Some)
    qed
    have bk: "in_bucket hash pw h' j r" if "r \<in> set (C j)" for r
    proof (cases "r = last (C j)")
      case True
      then show ?thesis using last(1) that by (cases "C j = []") auto
    next
      case False
      then show ?thesis using fr [of r] sub that b in_bucket_core [of h' r h]
        by (auto simp: bucket_def)
    qed
    have "nexts h' q = Some NULL" "in_bucket hash pw h' j q"
      using z by (auto simp: nexts_Some core_Some in_bucket_def payload_def)
    moreover have "q \<noteq> NULL" "q \<notin> set (C j)" using q sub by (auto split: if_splits)
    moreover have "hchain h' (C j @ [q])"
      using b calculation last(2) mem by (intro hchain_snoc [of h]) (auto simp: bucket_def)
    ultimately show ?thesis using b q(2) bk
      by (auto simp: bucket_def split: list.splits if_splits)
  qed
  moreover have "bucket hash pw g h' i (C i)" if "i < 2 ^ unat pw" "i \<noteq> j" for i
  proof (rule bucket_frame [of hash pw g h])
    show "core h' r = core h r" if "r \<in> set (C i)" for r
      using that \<open>i < _\<close> \<open>i \<noteq> j\<close> tbl_bucket_unique [OF t, of i j r] j last_in_set [of "C j"]
      by (intro fr) (auto simp: ptrs_def)
  qed (use t e that in \<open>auto simp: tbl_def\<close>)
  ultimately show "tbl hash pw g h' (C(j := C j @ [q]))" by (simp add: tbl_def)
qed

lemma last_obj_in_chain_correct:
  "hchain h ps \<Longrightarrow> ps \<noteq> [] \<Longrightarrow> length ps \<le> fuel \<Longrightarrow> last_obj_in_chain fuel h (hd ps) = Inr (last ps)"
proof (induction ps arbitrary: fuel)
  case (Cons p ps)
  then obtain f where f: "fuel = Suc f" by (cases fuel) auto
  show ?case
  proof (cases ps)
    case (Cons p' ps')
    then have "p' \<noteq> NULL" using Cons.prems(1) by simp
    with Cons Cons.prems Cons.IH [of f] show ?thesis by (auto simp: f nexts_Some c_simps)
  qed (use Cons.prems in \<open>auto simp: f nexts_Some c_simps\<close>)
qed simp

declare last_obj_in_chain.simps [simp del]


section \<open>Growing the table\<close>

text \<open>While the table grows, the live objects are those of the new table and a set \<open>R\<close> of objects
  still to be moved.\<close>

definition expanding ::
  "(obj_id_t \<Rightarrow> u64) \<Rightarrow> hashtable_t \<Rightarrow> (nat \<Rightarrow> ptr list) \<Rightarrow> ptr set \<Rightarrow> ptr list \<Rightarrow> bool" where
  "expanding hash s C R xs \<longleftrightarrow>
    tbl hash (hash_power s) (table s) (heap s) C \<and> unat (hash_power s) < 64 \<and>
    ptrs (hash_power s) C \<inter> R = {} \<and> finite R \<and> NULL \<notin> R \<and> (\<forall>i. Slot (table s) i \<notin> R) \<and>
    (\<forall>p \<in> R. \<exists>x. heap s p = Some x \<and> o_size x \<noteq> 0) \<and>
    linked s (ptrs (hash_power s) C \<union> R) xs \<and>
    (\<forall>n. heap s (Obj n) \<noteq> None \<longrightarrow> n < next_obj s \<and> Obj n \<in> ptrs (hash_power s) C \<union> R) \<and>
    monitored_ptrs s = [list_head, list_tail] \<and>
    unat (n_cur_item s) = card (ptrs (hash_power s) C \<union> R)"

text \<open>What a step of the growth leaves alone: the chains of the objects at \<open>K\<close> and the contents
  of the slots at \<open>Z\<close>.\<close>

definition grow_frame :: "hashtable_t \<Rightarrow> hashtable_t \<Rightarrow> ptr set \<Rightarrow> ptr set \<Rightarrow> bool" where
  "grow_frame s s' K Z \<longleftrightarrow>
    hash_power s' = hash_power s \<and> table s' = table s \<and> n_cur_item s' = n_cur_item s \<and>
    next_tbl s' = next_tbl s \<and>
    (\<forall>g i. heap s' (Slot g i) = None \<longleftrightarrow> heap s (Slot g i) = None) \<and>
    (\<forall>r \<in> K. core (heap s') r = core (heap s) r) \<and> (\<forall>r \<in> Z. heap s' r = heap s r)"

lemma grow_frame_trans:
  "grow_frame s s' K Z \<Longrightarrow> grow_frame s' s'' L Z \<Longrightarrow> L \<subseteq> K \<Longrightarrow> grow_frame s s'' L Z"
  by (auto simp: grow_frame_def)

lemma grow_frame_refl [simp]: "grow_frame s s K Z"
  by (simp add: grow_frame_def)

lemma ptrs_Slot: "tbl hash pw g h C \<Longrightarrow> Slot g' i \<in> ptrs pw C \<Longrightarrow> g' = g \<and> i < 2 ^ unat pw"
  by (auto simp: tbl_def ptrs_def) (metis bucket_slotD)+

lemma ptrs_alloc: "tbl hash pw g h C \<Longrightarrow> p \<in> ptrs pw C \<Longrightarrow> \<exists>x. h p = Some x \<and> o_size x \<noteq> 0"
proof -
  assume t: "tbl hash pw g h C" and "p \<in> ptrs pw C"
  then obtain i where i: "i < 2 ^ unat pw" "p \<in> set (C i)" by (auto simp: ptrs_def)
  then have "hchain h (C i)" using t by (simp add: tbl_def bucket_def)
  from hchain_mem [OF this i(2)] show ?thesis
    using tbl_in_bucket [OF t i] by (auto simp: in_bucket_def payload_def)
qed

lemma set_hash_next_Some:
  "p \<noteq> NULL \<Longrightarrow> heap s p = Some x \<Longrightarrow>
    set_hash_next p q s = Inr (s\<lparr>heap := (heap s)(p \<mapsto> x\<lparr>hash_next := q\<rparr>)\<rparr>)"
  by (simp add: set_hash_next_def c_simps)

lemma core_Some_obtain:
  assumes "core h p = Some y"
  obtains x where "h p = Some x" "unlink x = y" "o_id x = o_id y" "o_size x = o_size y"
    "hash_next x = hash_next y"
  using assms by (auto simp: core_Some)

lemma chain_last:
  assumes "tbl hash pw g h C" "j < 2 ^ unat pw" "C j \<noteq> []" "length (C j) \<le> fuel"
  obtains xl where "last_obj_in_chain fuel h (Slot g j) = Inr (last (C j))"
    "h (last (C j)) = Some xl" "last (C j) \<noteq> NULL" "last (C j) \<in> ptrs pw C"
proof -
  have b: "bucket hash pw g h j (C j)" using assms(1,2) by (simp add: tbl_def)
  then have "last_obj_in_chain fuel h (Slot g j) = Inr (last (C j))"
    using last_obj_in_chain_correct [of h "C j" fuel] bucket_hd [OF b assms(3)] assms(3,4)
    by (simp add: bucket_def)
  moreover have l: "last (C j) \<in> set (C j)" using assms(3) by simp
  moreover obtain xl where "h (last (C j)) = Some xl"
    using b hchain_mem [OF _ l] by (auto simp: bucket_def)
  moreover have "last (C j) \<noteq> NULL" using b l hchain_NULL by (force simp: bucket_def)
  ultimately show thesis using that assms(2) by (auto simp: ptrs_def)
qed


lemma grow_step:
  assumes e: "expanding hash s C R xs" and p: "p \<in> R" "heap s p = Some x"
    and j: "j = bucket_of hash (hash_power s) (o_id x)"
    and q: "q \<notin> ptrs (hash_power s) C" "q \<notin> R - {p}" "if C j = [] then q = Slot (table s) j else is_Obj q"
    and sc: "hash_power s' = hash_power s" "table s' = table s" "n_cur_item s' = n_cur_item s"
      "next_tbl s' = next_tbl s" "monitored_ptrs s' = monitored_ptrs s"
    and l: "linked s' (insert q (ptrs (hash_power s) C \<union> R - {p})) (map (subst p q) xs)"
    and cq: "core (heap s') q = Some ((unlink x)\<lparr>hash_next := NULL\<rparr>)"
    and cl: "C j \<noteq> [] \<Longrightarrow> core (heap s') (last (C j)) =
      map_option (\<lambda>x. x\<lparr>hash_next := q\<rparr>) (core (heap s) (last (C j)))"
    and fr: "\<And>r. r \<in> ptrs (hash_power s) C \<union> R - {p} \<Longrightarrow> C j = [] \<or> r \<noteq> last (C j) \<Longrightarrow>
      core (heap s') r = core (heap s) r"
    and dead: "\<And>g i. Slot g i \<notin> insert q (ptrs (hash_power s) C \<union> R) \<Longrightarrow>
      heap s' (Slot g i) = heap s (Slot g i)"
    and al: "\<And>g i. heap s' (Slot g i) = None \<longleftrightarrow> heap s (Slot g i) = None"
    and ob: "\<And>n. heap s' (Obj n) \<noteq> None \<Longrightarrow>
      n < next_obj s' \<and> Obj n \<in> insert q (ptrs (hash_power s) C \<union> R - {p})"
    and Z: "Z \<inter> R = {}" "\<forall>r \<in> Z. \<exists>g i. r = Slot g i \<and> g \<noteq> table s"
  shows "\<exists>C' xs'. expanding hash s' C' (R - {p}) xs' \<and> grow_frame s s' (R - {p}) Z \<and>
    same_view (heap s) (ptrs (hash_power s) C \<union> R) xs
      (heap s') (ptrs (hash_power s) C' \<union> (R - {p})) xs'"
proof -
  let ?pw = "hash_power s" and ?C = "C(j := C j @ [q])"
  let ?P = "ptrs ?pw C \<union> R"
  have E: "tbl hash ?pw (table s) (heap s) C" "unat ?pw < 64" "ptrs ?pw C \<inter> R = {}" "finite R"
    "NULL \<notin> R" "\<And>i. Slot (table s) i \<notin> R" "\<And>p. p \<in> R \<Longrightarrow> \<exists>x. heap s p = Some x \<and> o_size x \<noteq> 0"
    "linked s ?P xs" "monitored_ptrs s = [list_head, list_tail]" "unat (n_cur_item s) = card ?P"
    using e by (auto simp: expanding_def)
  have jlt: "j < 2 ^ unat ?pw" using bucket_of_less [OF E(2)] j by simp
  have pC: "p \<notin> ptrs ?pw C" using p(1) E(3) by auto
  have lastC: "C j \<noteq> [] \<Longrightarrow> last (C j) \<in> ptrs ?pw C" using jlt by (auto simp: ptrs_def intro!: bexI [of _ j])
  have x0: "o_size x \<noteq> 0" using E(7) [OF p(1)] p(2) by auto
  note pt = ptrs_append [OF jlt, of C q]
  have tb: "tbl hash ?pw (table s) (heap s') ?C"
  proof (rule tbl_append [OF E(1) jlt q(1,3) cq])
    show "heap s' (Slot (table s) i) = heap s (Slot (table s) i)"
      if "i < 2 ^ unat ?pw" "i \<noteq> j" "C i = []" for i
      using tbl_slot_notin [OF E(1) that(1,3)] E(6) that(2) q(3) by (intro dead) (auto split: if_splits)
  qed (use x0 j cl fr pC in auto)
  have P': "insert q (?P - {p}) = ptrs ?pw ?C \<union> (R - {p})" using pt pC by auto
  have sz: "\<exists>y. heap s' r = Some y \<and> o_size y \<noteq> 0" if "r \<in> R - {p}" for r
  proof -
    have "core (heap s') r = core (heap s) r" using that lastC E(3) by (intro fr) auto
    then show ?thesis using E(7) [of r] that by (auto simp: core_Some core_def) (metis unlink_set(7))
  qed
  have sv: "same_view (heap s) ?P xs (heap s') (insert q (?P - {p})) (map (subst p q) xs)"
  proof (rule same_view_subst)
    show "payload (heap s') q = payload (heap s) p"
      using payload_unlink [OF cq] p(2) by (simp add: payload_def)
    show "payload (heap s') r = payload (heap s) r" if "r \<in> ?P" "r \<noteq> p" for r
    proof (cases "C j \<noteq> [] \<and> r = last (C j)")
      case True
      obtain y where y: "core (heap s) r = Some y"
        using True lastC ptrs_alloc [OF E(1)] by (force simp: core_Some)
      then have "core (heap s') r = Some (y\<lparr>hash_next := q\<rparr>)" using cl True by auto
      then show ?thesis using payload_unlink y by fastforce
    next
      case False
      then show ?thesis using fr [of r] that by (intro payload_core) auto
    qed
    show "set xs \<subseteq> ?P" using E(8) by (simp add: linked_def)
  qed (use p q E(4) in auto)
  have "expanding hash s' ?C (R - {p}) (map (subst p q) xs)"
    unfolding expanding_def sc E(9) using tb E(2-6,10) q pt sz l ob sv
    by (auto simp: P' same_view_def)
  moreover have "grow_frame s s' (R - {p}) Z"
  proof -
    have "core (heap s') r = core (heap s) r" if "r \<in> R - {p}" for r
      using that lastC E(3) by (intro fr) auto
    moreover have "heap s' r = heap s r" if "r \<in> Z" for r
    proof -
      obtain g i where r: "r = Slot g i" "g \<noteq> table s" using Z(2) \<open>r \<in> Z\<close> by blast
      moreover have "r \<notin> ptrs ?pw C" using ptrs_Slot [OF E(1)] r by auto
      moreover have "r \<notin> R" "r \<noteq> q" using Z(1) \<open>r \<in> Z\<close> r q(3) by (auto split: if_splits)
      ultimately show ?thesis using dead [of g i] by simp
    qed
    ultimately show ?thesis using sc al by (simp add: grow_frame_def)
  qed
  ultimately show ?thesis using sv P' by metis
qed


lemma move_to_empty_slot:
  assumes e: "expanding hash s C R xs" and p: "p \<in> R" "heap s p = Some x"
    and j: "j = bucket_of hash (hash_power s) (o_id x)" and Cj: "C j = []"
    and q: "q = Slot (table s) j"
    and Z: "Z \<inter> R = {}" "\<forall>r \<in> Z. \<exists>g i. r = Slot g i \<and> g \<noteq> table s"
  shows "\<exists>s'. rbind (move_obj_to_new_loc s q p) (\<lambda>s. rbind (set_hash_next q NULL s) (\<lambda>s.
      Inr (if \<not> is_Obj p then s else free_cache_obj p s))) = Inr s' \<and>
    (\<exists>C' xs'. expanding hash s' C' (R - {p}) xs' \<and> grow_frame s s' (R - {p}) Z \<and>
      same_view (heap s) (ptrs (hash_power s) C \<union> R) xs
        (heap s') (ptrs (hash_power s) C' \<union> (R - {p})) xs')"
proof -
  let ?P = "ptrs (hash_power s) C \<union> R"
  have E: "tbl hash (hash_power s) (table s) (heap s) C" "unat (hash_power s) < 64" "NULL \<notin> R"
    "\<And>i. Slot (table s) i \<notin> R" "linked s ?P xs" "monitored_ptrs s = [list_head, list_tail]"
    "\<And>n. heap s (Obj n) \<noteq> None \<Longrightarrow> n < next_obj s \<and> Obj n \<in> ?P" "ptrs (hash_power s) C \<inter> R = {}"
    using e by (auto simp: expanding_def)
  have jlt: "j < 2 ^ unat (hash_power s)" using bucket_of_less [OF E(2)] j by simp
  have qP: "q \<notin> ?P" using tbl_slot_notin [OF E(1) jlt Cj] E(4) q by auto
  have NP: "NULL \<notin> ?P" using tbl_NULL [OF E(1)] E(3) by auto
  obtain y where y: "heap s q = Some y"
    using E(1) jlt q by (auto simp: tbl_def elim!: bucket_slot allE [of _ j])
  obtain h v where mv: "move_obj_to_new_loc s q p = Inr (s\<lparr>heap := h, vars := v\<rparr>)"
    and l: "linked (s\<lparr>heap := h, vars := v\<rparr>) (insert q (?P - {p})) (map (subst p q) xs)"
    and c: "\<And>r. core h r = ((core (heap s))(q \<mapsto> unlink x)) r"
    and d: "\<And>r. r \<notin> insert q ?P \<Longrightarrow> h r = heap s r"
    using move_obj_to_new_loc_correct [OF E(5) _ p(2) NP qP _ y E(6)] p(1) q by blast
  obtain x' where x': "h q = Some x'" "unlink x' = unlink x" using c [of q] by (auto simp: core_def)
  define h' where "h' = (if is_Obj p then (h(q \<mapsto> x'\<lparr>hash_next := NULL\<rparr>))(p := None)
    else h(q \<mapsto> x'\<lparr>hash_next := NULL\<rparr>))"
  have pq: "p \<noteq> q" using p(1) qP by auto
  have alloc: "h r = None \<longleftrightarrow> heap s r = None" if "r \<noteq> q" for r
    using c [of r] that by (cases "h r"; cases "heap s r") (auto simp: core_def)
  have run: "rbind (move_obj_to_new_loc s q p) (\<lambda>s. rbind (set_hash_next q NULL s) (\<lambda>s.
      Inr (if \<not> is_Obj p then s else free_cache_obj p s))) = Inr (s\<lparr>heap := h', vars := v\<rparr>)"
    using mv x'(1) q by (simp add: set_hash_next_Some free_cache_obj_def h'_def)
  have "\<exists>C' xs'. expanding hash (s\<lparr>heap := h', vars := v\<rparr>) C' (R - {p}) xs' \<and>
      grow_frame s (s\<lparr>heap := h', vars := v\<rparr>) (R - {p}) Z \<and>
      same_view (heap s) ?P xs h' (ptrs (hash_power s) C' \<union> (R - {p})) xs'"
  proof (rule grow_step [OF e p j, where s' = "s\<lparr>heap := h', vars := v\<rparr>" and q = q, simplified])
    show "linked (s\<lparr>heap := h', vars := v\<rparr>) (insert q (?P - {p})) (map (subst p q) xs)"
      using pq x' by (intro linked_cong [OF l]) (auto simp: h'_def links_def)
    show "core h' q = Some ((unlink x)\<lparr>hash_next := NULL\<rparr>)" using pq x' by (simp add: h'_def core_def)
    show "core h' r = core (heap s) r" if "(r \<in> ptrs (hash_power s) C \<or> r \<in> R) \<and> r \<noteq> p" for r
      using that qP c [of r] by (auto simp: h'_def)
    show "h' (Slot g i) = heap s (Slot g i)"
      if "Slot g i \<noteq> q \<and> Slot g i \<notin> ptrs (hash_power s) C \<and> Slot g i \<notin> R" for g i
      using that d p(1) by (auto simp: h'_def)
    show "h' (Slot g i) = None \<longleftrightarrow> heap s (Slot g i) = None" for g i
      using alloc [of "Slot g i"] y by (auto simp: h'_def)
    show "n < next_obj s \<and> (Obj n = q \<or> (Obj n \<in> ptrs (hash_power s) C \<or> Obj n \<in> R) \<and> Obj n \<noteq> p)"
      if "\<exists>y. h' (Obj n) = Some y" for n
      using that E(7) [of n] alloc [of "Obj n"] q by (cases p) (auto simp: h'_def split: if_splits)
  qed (use Cj q qP Z in auto)
  with run show ?thesis by auto
qed


lemma attach_to_chain:
  assumes e: "expanding hash s C R xs" and p: "p \<in> R" "heap s p = Some x"
    and j: "j = bucket_of hash (hash_power s) (o_id x)" and Cj: "C j \<noteq> []"
    and q: "is_Obj q" "q \<notin> ptrs (hash_power s) C" "q \<notin> R - {p}"
    and sc: "hash_power s1 = hash_power s" "table s1 = table s" "n_cur_item s1 = n_cur_item s"
      "next_tbl s1 = next_tbl s" "monitored_ptrs s1 = monitored_ptrs s"
    and l: "linked s1 (insert q (ptrs (hash_power s) C \<union> R - {p})) (map (subst p q) xs)"
    and cq: "core (heap s1) q = Some (unlink x)"
    and fr: "\<And>r. r \<in> ptrs (hash_power s) C \<union> R - {p} \<Longrightarrow> core (heap s1) r = core (heap s) r"
    and dead: "\<And>g i. Slot g i \<notin> ptrs (hash_power s) C \<union> R \<Longrightarrow>
      heap s1 (Slot g i) = heap s (Slot g i)"
    and al: "\<And>g i. heap s1 (Slot g i) = None \<longleftrightarrow> heap s (Slot g i) = None"
    and ob: "\<And>n. heap s1 (Obj n) \<noteq> None \<Longrightarrow>
      n < next_obj s1 \<and> Obj n \<in> insert q (ptrs (hash_power s) C \<union> R - {p})"
    and Z: "Z \<inter> R = {}" "\<forall>r \<in> Z. \<exists>g i. r = Slot g i \<and> g \<noteq> table s"
  shows "\<exists>s'. rbind (last_obj_in_chain (chain_bound s1) (heap s1) (Slot (table s) j)) (\<lambda>l.
      rbind (set_hash_next l q s1) (\<lambda>s. set_hash_next q NULL s)) = Inr s' \<and>
    (\<exists>C' xs'. expanding hash s' C' (R - {p}) xs' \<and> grow_frame s s' (R - {p}) Z \<and>
      same_view (heap s) (ptrs (hash_power s) C \<union> R) xs
        (heap s') (ptrs (hash_power s) C' \<union> (R - {p})) xs')"
proof -
  let ?P = "ptrs (hash_power s) C \<union> R" and ?l = "last (C j)"
  have E: "tbl hash (hash_power s) (table s) (heap s) C" "unat (hash_power s) < 64" "finite R"
    "unat (n_cur_item s) = card ?P" "ptrs (hash_power s) C \<inter> R = {}"
    "\<And>i. Slot (table s) i \<notin> R"
    using e by (auto simp: expanding_def)
  have jlt: "j < 2 ^ unat (hash_power s)" using bucket_of_less [OF E(2)] j by simp
  have pC: "p \<notin> ptrs (hash_power s) C" using p(1) E(5) by auto
  have t1: "tbl hash (hash_power s) (table s) (heap s1) C"
  proof (rule tbl_frame [OF E(1)])
    show "core (heap s1) r = core (heap s) r" if "r \<in> ptrs (hash_power s) C" for r
      using that pC by (intro fr) auto
    show "heap s1 (Slot (table s) i) = heap s (Slot (table s) i)"
      if "i < 2 ^ unat (hash_power s)" "C i = []" for i
      using tbl_slot_notin [OF E(1) that] E(6) by (intro dead) auto
  qed
  have "length (C j) \<le> chain_bound s1"
    using length_chain_le [OF E(1) jlt, of ?P] E(3,4) by (simp add: sc)
  then obtain xl where last: "last_obj_in_chain (chain_bound s1) (heap s1) (Slot (table s) j) = Inr ?l"
    "heap s1 ?l = Some xl" "?l \<noteq> NULL" "?l \<in> ptrs (hash_power s) C"
    using chain_last [OF t1 jlt Cj] by metis
  obtain xq where xq: "heap s1 q = Some xq" "unlink xq = unlink x" using cq by (auto simp: core_def)
  have lq: "?l \<noteq> q" "q \<noteq> NULL" using last(4) q(1,2) by auto
  define h' where "h' = (heap s1)(?l \<mapsto> xl\<lparr>hash_next := q\<rparr>, q \<mapsto> xq\<lparr>hash_next := NULL\<rparr>)"
  have run: "rbind (last_obj_in_chain (chain_bound s1) (heap s1) (Slot (table s) j)) (\<lambda>l.
      rbind (set_hash_next l q s1) (\<lambda>s. set_hash_next q NULL s)) = Inr (s1\<lparr>heap := h'\<rparr>)"
    using last xq lq by (simp add: set_hash_next_Some h'_def)
  have lk: "links h' = links (heap s1)"
    unfolding h'_def using last(2) xq(1) lq by (simp add: links_keep fun_upd_idem links_def)
  have "core (heap s) ?l = Some (unlink xl)"
    using fr [of ?l] last(2,4) pC by (force simp: core_def [of "heap s1"])
  then have clast: "core h' ?l = map_option (\<lambda>x. x\<lparr>hash_next := q\<rparr>) (core (heap s) ?l)"
    using lq by (simp add: h'_def)
  have "\<exists>C' xs'. expanding hash (s1\<lparr>heap := h'\<rparr>) C' (R - {p}) xs' \<and>
      grow_frame s (s1\<lparr>heap := h'\<rparr>) (R - {p}) Z \<and>
      same_view (heap s) ?P xs (heap (s1\<lparr>heap := h'\<rparr>)) (ptrs (hash_power s) C' \<union> (R - {p})) xs'"
  proof (rule grow_step [OF e p j, where q = q])
    show "linked (s1\<lparr>heap := h'\<rparr>) (insert q (?P - {p})) (map (subst p q) xs)"
      using lk by (intro linked_cong [OF l]) auto
    show "core (heap (s1\<lparr>heap := h'\<rparr>)) q = Some ((unlink x)\<lparr>hash_next := NULL\<rparr>)"
      using xq by (simp add: h'_def core_def)
    show "core (heap (s1\<lparr>heap := h'\<rparr>)) r = core (heap s) r"
      if "r \<in> ?P - {p}" "C j = [] \<or> r \<noteq> ?l" for r
      using that q Cj fr [of r] by (auto simp: h'_def)
    show "heap (s1\<lparr>heap := h'\<rparr>) (Slot g i) = heap s (Slot g i)" if "Slot g i \<notin> insert q ?P" for g i
      using that dead [of g i] last(4) by (auto simp: h'_def)
    show "heap (s1\<lparr>heap := h'\<rparr>) (Slot g i) = None \<longleftrightarrow> heap s (Slot g i) = None" for g i
      using al [of g i] last(2) xq(1) by (auto simp: h'_def)
    show "n < next_obj (s1\<lparr>heap := h'\<rparr>) \<and> Obj n \<in> insert q (?P - {p})"
      if "heap (s1\<lparr>heap := h'\<rparr>) (Obj n) \<noteq> None" for n
      using that ob [of n] last(2) xq(1) by (auto simp: h'_def split: if_splits)
  qed (use Cj q sc Z clast in auto)
  with run show ?thesis by auto
qed


lemma move_into_new_table_correct:
  assumes e: "expanding hash s C R xs" and p: "p \<in> R" and part: "part = (\<not> is_Obj p)"
    and Z: "Z \<inter> R = {}" "\<forall>r \<in> Z. \<exists>g i. r = Slot g i \<and> g \<noteq> table s"
  shows "\<exists>s'. move_into_new_table hash s p part = Inr s' \<and>
    (\<exists>C' xs'. expanding hash s' C' (R - {p}) xs' \<and> grow_frame s s' (R - {p}) Z \<and>
      same_view (heap s) (ptrs (hash_power s) C \<union> R) xs
        (heap s') (ptrs (hash_power s) C' \<union> (R - {p})) xs')"
proof -
  let ?P = "ptrs (hash_power s) C \<union> R"
  have E: "tbl hash (hash_power s) (table s) (heap s) C" "unat (hash_power s) < 64" "NULL \<notin> R"
    "linked s ?P xs" "monitored_ptrs s = [list_head, list_tail]"
    "\<And>n. heap s (Obj n) \<noteq> None \<Longrightarrow> n < next_obj s \<and> Obj n \<in> ?P"
    "\<And>r. r \<in> R \<Longrightarrow> \<exists>x. heap s r = Some x" "ptrs (hash_power s) C \<inter> R = {}"
    using e by (auto simp: expanding_def)
  obtain x where x: "heap s p = Some x" using E(7) [OF p] by auto
  have pN: "p \<noteq> NULL" using p E(3) by auto
  define j where "j = bucket_of hash (hash_power s) (o_id x)"
  have jlt: "j < 2 ^ unat (hash_power s)" using bucket_of_less [OF E(2)] by (simp add: j_def)
  have "bucket hash (hash_power s) (table s) (heap s) j (C j)" using E(1) jlt by (simp add: tbl_def)
  then obtain y where y: "heap s (Slot (table s) j) = Some y" "OBJ_EMPTY y \<longleftrightarrow> C j = []"
    by (rule bucket_slot)
  show ?thesis
  proof (cases "C j = []")
    case True
    from move_to_empty_slot [OF e p x j_def True refl Z] show ?thesis
      using x y pN True by (simp add: move_into_new_table_def c_simps part Let_def flip: j_def)
  next
    case ne: False
    show ?thesis
    proof (cases "is_Obj p")
      case True
      have "\<exists>s'. rbind (last_obj_in_chain (chain_bound s) (heap s) (Slot (table s) j)) (\<lambda>l.
          rbind (set_hash_next l p s) (\<lambda>s. set_hash_next p NULL s)) = Inr s' \<and>
        (\<exists>C' xs'. expanding hash s' C' (R - {p}) xs' \<and> grow_frame s s' (R - {p}) Z \<and>
          same_view (heap s) ?P xs (heap s') (ptrs (hash_power s) C' \<union> (R - {p})) xs')"
      proof (rule attach_to_chain [OF e p x j_def ne True])
        have "map (subst p p) xs = xs" "insert p (?P - {p}) = ?P"
          using p by (auto simp: subst_def map_idI)
        then show "linked s (insert p (?P - {p})) (map (subst p p) xs)" using E(4) by simp
        show "n < next_obj s \<and> Obj n \<in> insert p (?P - {p})" if "heap s (Obj n) \<noteq> None" for n
          using E(6) [OF that] by auto
      qed (use E(8) p x Z in \<open>auto simp: core_def\<close>)
      then show ?thesis
        using x y pN ne True by (simp add: move_into_new_table_def c_simps part Let_def flip: j_def)
    next
      case False
      define n where "n = Obj (next_obj s)"
      define s0 where "s0 = s\<lparr>heap := (heap s)(n \<mapsto> zero_obj), next_obj := Suc (next_obj s)\<rparr>"
      have fresh: "heap s n = None" using E(6) [of "next_obj s"] by (force simp: n_def)
      have nP: "n \<notin> ?P" using fresh ptrs_alloc [OF E(1)] E(7) by force
      have NP: "NULL \<notin> ?P" using tbl_NULL [OF E(1)] E(3) by auto
      have l0: "linked s0 ?P xs" using nP by (intro linked_cong [OF E(4)]) (auto simp: s0_def)
      have x0: "heap s0 p = Some x" "heap s0 n = Some zero_obj" using x nP p by (auto simp: s0_def)
      obtain h v where mv: "move_obj_to_new_loc s0 n p = Inr (s0\<lparr>heap := h, vars := v\<rparr>)"
        and l: "linked (s0\<lparr>heap := h, vars := v\<rparr>) (insert n (?P - {p})) (map (subst p n) xs)"
        and c: "\<And>r. core h r = ((core (heap s0))(n \<mapsto> unlink x)) r"
        and d: "\<And>r. r \<notin> insert n ?P \<Longrightarrow> h r = heap s0 r"
        using move_obj_to_new_loc_correct [OF l0 _ x0(1) NP nP _ x0(2)] p E(5)
        by (auto simp: s0_def n_def)
      let ?s1 = "s0\<lparr>heap := h, vars := v\<rparr>"
      have c': "core h r = core (heap s) r" if "r \<noteq> n" for r using c [of r] that by (simp add: s0_def)
      have al: "h r = None \<longleftrightarrow> heap s r = None" if "r \<noteq> n" for r
        using c' [OF that] by (cases "h r"; cases "heap s r") (auto simp: core_def)
      have "\<exists>s'. rbind (last_obj_in_chain (chain_bound ?s1) (heap ?s1) (Slot (table s) j)) (\<lambda>l.
          rbind (set_hash_next l n ?s1) (\<lambda>s. set_hash_next n NULL s)) = Inr s' \<and>
        (\<exists>C' xs'. expanding hash s' C' (R - {p}) xs' \<and> grow_frame s s' (R - {p}) Z \<and>
          same_view (heap s) ?P xs (heap s') (ptrs (hash_power s) C' \<union> (R - {p})) xs')"
      proof (rule attach_to_chain [OF e p x j_def ne _ _ _ _ _ _ _ _ l])
        show "core (heap ?s1) n = Some (unlink x)" using c [of n] by simp
        show "core (heap ?s1) r = core (heap s) r" if "r \<in> ?P - {p}" for r
          using that nP c' [of r] by auto
        show "heap ?s1 (Slot g i) = heap s (Slot g i)" if "Slot g i \<notin> ?P" for g i
          using that d [of "Slot g i"] by (auto simp: s0_def n_def)
        show "heap ?s1 (Slot g i) = None \<longleftrightarrow> heap s (Slot g i) = None" for g i
          using al [of "Slot g i"] by (simp add: n_def)
        show "m < next_obj ?s1 \<and> Obj m \<in> insert n (?P - {p})" if "heap ?s1 (Obj m) \<noteq> None" for m
          using that E(6) [of m] al [of "Obj m"] False
          by (cases "m = next_obj s") (auto simp: n_def s0_def less_Suc_eq)
      qed (use nP Z in \<open>auto simp: s0_def n_def\<close>)
      then show ?thesis
        using x y pN ne mv False
        by (simp add: move_into_new_table_def create_cache_obj_from_request_def malloc_obj_def c_simps
            part flip: j_def n_def s0_def)
    qed
  qed
qed


lemma expanding_ptr:
  "expanding hash s C R xs \<Longrightarrow> p \<in> R \<Longrightarrow> p \<noteq> NULL \<and> (\<exists>x. heap s p = Some x \<and> o_size x \<noteq> 0)"
  by (auto simp: expanding_def)

lemma expanding_card: "expanding hash s C R xs \<Longrightarrow> card R \<le> unat (n_cur_item s)"
  by (auto simp: expanding_def intro!: card_mono)

text \<open>Moving the rest of a chain.\<close>

lemma expand_chain_correct:
  assumes "expanding hash s C R xs" "hchain (heap s) ps" "distinct ps" "set ps \<subseteq> R"
    "\<forall>p \<in> set ps. is_Obj p" "length ps < fuel"
    and Z: "Z \<inter> R = {}" "\<forall>r \<in> Z. \<exists>g i. r = Slot g i \<and> g \<noteq> table s"
  shows "\<exists>s'. expand_chain fuel hash s (first_or ps NULL) = Inr s' \<and>
    (\<exists>C' xs'. expanding hash s' C' (R - set ps) xs' \<and> grow_frame s s' (R - set ps) Z \<and>
      same_view (heap s) (ptrs (hash_power s) C \<union> R) xs
        (heap s') (ptrs (hash_power s) C' \<union> (R - set ps)) xs')"
  using assms
proof (induction ps arbitrary: s C R xs fuel)
  case Nil
  then obtain f where "fuel = Suc f" by (cases fuel) auto
  with Nil show ?case by (auto intro!: exI [of _ C] exI [of _ xs])
next
  case (Cons p ps)
  obtain f where f: "fuel = Suc f" using Cons.prems(6) by (cases fuel) auto
  have p: "p \<in> R" using Cons.prems(4) by simp
  obtain x where x: "heap s p = Some x" "hash_next x = first_or ps NULL" "p \<noteq> NULL"
    using Cons.prems(2) by (auto simp: nexts_Some)
  obtain s1 C1 xs1 where s1: "move_into_new_table hash s p False = Inr s1"
    "expanding hash s1 C1 (R - {p}) xs1" "grow_frame s s1 (R - {p}) Z"
    "same_view (heap s) (ptrs (hash_power s) C \<union> R) xs
      (heap s1) (ptrs (hash_power s) C1 \<union> (R - {p})) xs1"
    using move_into_new_table_correct [OF Cons.prems(1) p _ Cons.prems(7,8), of False] Cons.prems(5)
    by auto
  have sub: "set ps \<subseteq> R - {p}" using Cons.prems(3,4) by auto
  have Z': "Z \<inter> (R - {p}) = {}" using Cons.prems(7) by auto
  have tb: "\<forall>r \<in> Z. \<exists>g i. r = Slot g i \<and> g \<noteq> table s1"
    using Cons.prems(8) s1(3) by (simp add: grow_frame_def)
  have "hchain (heap s1) ps"
    using Cons.prems(2,3,4) s1(3) hchain_core [of ps "heap s1" "heap s"]
    by (auto simp: grow_frame_def)
  then obtain s' C' xs' where s': "expand_chain f hash s1 (first_or ps NULL) = Inr s'"
    "expanding hash s' C' (R - {p} - set ps) xs'" "grow_frame s1 s' (R - {p} - set ps) Z"
    "same_view (heap s1) (ptrs (hash_power s1) C1 \<union> (R - {p})) xs1
      (heap s') (ptrs (hash_power s1) C' \<union> (R - {p} - set ps)) xs'"
    using Cons.IH [OF s1(2) _ _ sub _ _ Z' tb, of f] Cons.prems f by auto
  have R: "R - {p} - set ps = R - set (p # ps)" by auto
  have pw: "hash_power s1 = hash_power s" using s1(3) by (simp add: grow_frame_def)
  have "grow_frame s s' (R - set (p # ps)) Z"
    using grow_frame_trans [OF s1(3) s'(3)] R by auto
  moreover have "same_view (heap s) (ptrs (hash_power s) C \<union> R) xs
      (heap s') (ptrs (hash_power s) C' \<union> (R - set (p # ps))) xs'"
    using same_view_trans [OF s1(4)] s'(4) R pw by simp
  ultimately show ?case
    using f x s1(1) s'(1,2) R by (simp add: c_simps) blast
qed

declare expand_chain.simps [simp del]

text \<open>The buckets of the old table that are still to be moved: those of the indices \<open>is\<close>.\<close>

definition old_buckets ::
  "(obj_id_t \<Rightarrow> u64) \<Rightarrow> u16 \<Rightarrow> nat \<Rightarrow> heap \<Rightarrow> (nat \<Rightarrow> ptr list) \<Rightarrow> nat list \<Rightarrow> bool" where
  "old_buckets hash pw g h D is \<longleftrightarrow> distinct is \<and> (\<forall>i \<in> set is. bucket hash pw g h i (D i))"

lemma bucket_split:
  assumes "bucket hash pw g h i ps" "ps \<noteq> []"
  obtains qs where "ps = Slot g i # qs" "hchain h qs" "distinct qs" "Slot g i \<notin> set qs"
    "\<forall>q \<in> set qs. is_Obj q" "nexts h (Slot g i) = Some (first_or qs NULL)"
  using assms by (cases ps) (auto simp: bucket_def)

lemma expand_buckets_correct:
  assumes "expanding hash s C (\<Union>i \<in> set is. set (D i)) xs" "table s \<noteq> old"
    "old_buckets hash opw old (heap s) D is"
  shows "\<exists>s'. expand_buckets hash old is s = Inr s' \<and>
    (\<exists>C' xs'. expanding hash s' C' {} xs' \<and> grow_frame s s' {} {} \<and>
      same_view (heap s) (ptrs (hash_power s) C \<union> (\<Union>i \<in> set is. set (D i))) xs
        (heap s') (ptrs (hash_power s) C') xs')"
  using assms
proof (induction "is" arbitrary: s C xs)
  case Nil
  then show ?case by (auto intro!: exI [of _ C] exI [of _ xs])
next
  case (Cons i "is")
  let ?R = "\<Union>i \<in> set is. set (D i)" and ?slot = "Slot old i"
  let ?RA = "\<Union>i \<in> set (i # is). set (D i)"
  let ?Z = "{Slot old k | k. k \<in> set (i # is) \<and> D k = []}"
  have b: "bucket hash opw old (heap s) k (D k)" if "k \<in> set (i # is)" for k
    using Cons.prems(3) that by (auto simp: old_buckets_def)
  obtain y where y: "heap s ?slot = Some y" "OBJ_EMPTY y \<longleftrightarrow> D i = []"
    using b [of i] by (auto elim: bucket_slot)
  have disj: "set (D i) \<inter> ?R = {}"
  proof -
    have "k = i" if "q \<in> set (D i)" "q \<in> set (D k)" "k \<in> set (i # is)" for q k
      using bucket_inD [OF b that(1)] bucket_inD [OF b that(2)] that(3) by (simp add: in_bucket_def)
    then show ?thesis using Cons.prems(3) by (fastforce simp: old_buckets_def)
  qed
  have Z: "?Z \<inter> ?RA = {}"
  proof -
    have "D k \<noteq> []" if "Slot old k \<in> set (D m)" "m \<in> set (i # is)" for k m
      using bucket_slotD [OF b [OF that(2)] that(1)] that(1) by auto
    then show ?thesis by blast
  qed
  show ?case
  proof (cases "D i = []")
    case True
    then show ?thesis
      using Cons.IH [of s C xs] Cons.prems y by (auto simp: c_simps old_buckets_def)
  next
    case False
    obtain qs where qs: "D i = ?slot # qs" "hchain (heap s) qs" "distinct qs" "?slot \<notin> set qs"
      "\<forall>q \<in> set qs. is_Obj q" "hash_next y = first_or qs NULL"
      using bucket_split [OF b [of i] False] y(1) by (auto simp: nexts_Some)
    obtain s1 C1 xs1 where s1: "move_into_new_table hash s ?slot True = Inr s1"
      "expanding hash s1 C1 (?RA - {?slot}) xs1" "grow_frame s s1 (?RA - {?slot}) ?Z"
      "same_view (heap s) (ptrs (hash_power s) C \<union> ?RA) xs
        (heap s1) (ptrs (hash_power s) C1 \<union> (?RA - {?slot})) xs1"
      using move_into_new_table_correct [OF Cons.prems(1), of ?slot True ?Z] qs(1) Z Cons.prems(2)
      by auto
    have hq: "hchain (heap s1) qs"
      using qs s1(3) hchain_core [of qs "heap s1" "heap s"] by (auto simp: grow_frame_def)
    have sub: "set qs \<subseteq> ?RA - {?slot}" using qs by auto
    have bd: "length qs < chain_bound s1"
      using expanding_card [OF s1(2)] card_mono [OF _ sub] distinct_card [OF qs(3)]
      by (simp add: expanding_def)
    have Z1: "?Z \<inter> (?RA - {?slot}) = {}" using Z by auto
    have tb: "\<forall>r \<in> ?Z. \<exists>g i. r = Slot g i \<and> g \<noteq> table s1"
      using Cons.prems(2) s1(3) by (auto simp: grow_frame_def)
    obtain s2 C2 xs2 where s2: "expand_chain (chain_bound s1) hash s1 (first_or qs NULL) = Inr s2"
      "expanding hash s2 C2 (?RA - {?slot} - set qs) xs2"
      "grow_frame s1 s2 (?RA - {?slot} - set qs) ?Z"
      "same_view (heap s1) (ptrs (hash_power s1) C1 \<union> (?RA - {?slot})) xs1
        (heap s2) (ptrs (hash_power s1) C2 \<union> (?RA - {?slot} - set qs)) xs2"
      using expand_chain_correct [OF s1(2) hq qs(3) sub qs(5) bd Z1 tb] by blast
    have R: "?RA - {?slot} - set qs = ?R" using disj qs(1) by auto
    have pw: "hash_power s1 = hash_power s" "hash_power s2 = hash_power s" "table s2 = table s"
      using s1(3) s2(3) by (auto simp: grow_frame_def)
    have fr: "grow_frame s s2 ?R ?Z"
      using grow_frame_trans [OF s1(3) s2(3)] R by auto
    have "old_buckets hash opw old (heap s2) D is"
    proof -
      have "bucket hash opw old (heap s2) k (D k)" if "k \<in> set is" for k
        using that fr by (intro bucket_frame [OF b]) (auto simp: grow_frame_def)
      then show ?thesis using Cons.prems(3) by (simp add: old_buckets_def)
    qed
    then obtain s3 C3 xs3 where s3: "expand_buckets hash old is s2 = Inr s3"
      "expanding hash s3 C3 {} xs3" "grow_frame s2 s3 {} {}"
      "same_view (heap s2) (ptrs (hash_power s) C2 \<union> ?R) xs2 (heap s3) (ptrs (hash_power s) C3) xs3"
      using Cons.IH [of s2 C2 xs2] s2(2) Cons.prems(2) R pw by metis
    have "same_view (heap s) (ptrs (hash_power s) C \<union> ?RA) xs (heap s3) (ptrs (hash_power s) C3) xs3"
      using same_view_trans [OF same_view_trans [OF s1(4)]] s2(4) s3(4) R pw by metis
    moreover have "grow_frame s s3 {} {}"
      using fr s3(3) by (simp add: grow_frame_def)
    ultimately show ?thesis
      using y False qs(6) s1(1) s2(1) s3(1,2) by (simp add: c_simps) blast
  qed
qed


section \<open>The table invariant\<close>

text \<open>
  \<open>ht_v1 hash s P\<close>: the table of \<open>s\<close> holds exactly the objects at \<open>P\<close>, under distinct ids, and
  nothing else is allocated. The bound on the number of objects (\<open>2 ^ 48\<close>, the size of the address
  space) keeps the bucket arithmetic away from its 64-bit limits.
\<close>

definition ht_v1 :: "(obj_id_t \<Rightarrow> u64) \<Rightarrow> hashtable_t \<Rightarrow> ptr set \<Rightarrow> bool" where
  "ht_v1 hash s P \<longleftrightarrow>
    (\<exists>C. tbl hash (hash_power s) (table s) (heap s) C \<and> P = ptrs (hash_power s) C) \<and>
    ids_ok (heap s) P \<and> n_cur_item s = of_nat (card P) \<and> card P \<le> 2 ^ 48 \<and>
    unat (hash_power s) \<le> 49 \<and>
    (\<forall>n. heap s (Obj n) \<noteq> None \<longrightarrow> n < next_obj s \<and> Obj n \<in> P) \<and>
    (\<forall>g i. heap s (Slot g i) \<noteq> None \<longleftrightarrow> g = table s \<and> i < 2 ^ unat (hash_power s)) \<and>
    table s < next_tbl s \<and> monitored_ptrs s = [list_head, list_tail]"

lemma ht_v1I:
  assumes "tbl hash (hash_power s) (table s) (heap s) C" "P = ptrs (hash_power s) C"
    "ids_ok (heap s) P" "n_cur_item s = of_nat (card P)" "card P \<le> 2 ^ 48" "unat (hash_power s) \<le> 49"
    "\<And>n. heap s (Obj n) \<noteq> None \<Longrightarrow> n < next_obj s \<and> Obj n \<in> P"
    "\<And>g i. heap s (Slot g i) \<noteq> None \<longleftrightarrow> g = table s \<and> i < 2 ^ unat (hash_power s)"
    "table s < next_tbl s" "monitored_ptrs s = [list_head, list_tail]"
  shows "ht_v1 hash s P"
  using assms unfolding ht_v1_def by blast

lemma ht_v1D:
  assumes "ht_v1 hash s P"
  shows "ids_ok (heap s) P" "n_cur_item s = of_nat (card P)" "card P \<le> 2 ^ 48"
    "unat (hash_power s) \<le> 49" "heap s (Obj n) \<noteq> None \<Longrightarrow> n < next_obj s \<and> Obj n \<in> P"
    "heap s (Slot g i) \<noteq> None \<longleftrightarrow> g = table s \<and> i < 2 ^ unat (hash_power s)"
    "table s < next_tbl s" "monitored_ptrs s = [list_head, list_tail]"
  using assms unfolding ht_v1_def by blast+

lemma ht_v1_obtain:
  assumes "ht_v1 hash s P"
  obtains C where "tbl hash (hash_power s) (table s) (heap s) C" "P = ptrs (hash_power s) C"
    "finite P" "NULL \<notin> P" "unat (n_cur_item s) = card P" "unat (hash_power s) < 64"
proof -
  obtain C where C: "tbl hash (hash_power s) (table s) (heap s) C" "P = ptrs (hash_power s) C"
    and n: "n_cur_item s = of_nat (card P)" "card P \<le> 2 ^ 48" "unat (hash_power s) \<le> 49"
    using assms by (auto simp: ht_v1_def)
  have "unat (n_cur_item s) = card P" using n by simp
  with C n tbl_NULL [OF C(1)] show thesis by (intro that [of C]) auto
qed

lemma ht_v1_alloc: "ht_v1 hash s P \<Longrightarrow> p \<in> P \<Longrightarrow> p \<noteq> NULL \<and> (\<exists>x. heap s p = Some x \<and> o_size x \<noteq> 0)"
  using ptrs_alloc by (fastforce elim!: ht_v1_obtain)

lemma unat_pw_Suc: "unat (pw :: u16) \<le> 48 \<Longrightarrow> unat (pw + 1) = Suc (unat pw)"
  by (simp add: unat_word_ariths)

lemma chained_hashtable_expand_correct:
  assumes h: "ht_v1 hash s P" and l: "linked s P xs" and pw: "unat (hash_power s) \<le> 48"
  shows "\<exists>s' P' xs'. chained_hashtable_expand hash s = Inr s' \<and> ht_v1 hash s' P' \<and>
    linked s' P' xs' \<and> same_view (heap s) P xs (heap s') P' xs' \<and>
    n_cur_item s' = n_cur_item s"
proof -
  define s1 where "s1 = alloc_table (hash_power s + 1) (s\<lparr>hash_power := hash_power s + 1\<rparr>)"
  obtain C where C: "tbl hash (hash_power s) (table s) (heap s) C" "P = ptrs (hash_power s) C"
    "finite P" "NULL \<notin> P" "unat (n_cur_item s) = card P"
    using h by (rule ht_v1_obtain)
  let ?is = "[0 ..< 2 ^ unat (hash_power s)]"
  note pw' = unat_pw_Suc [OF pw]
  have sz: "unat (hashsize (hash_power s + 1)) = 2 ^ Suc (unat (hash_power s))"
    "unat (hashsize (hash_power s)) = 2 ^ unat (hash_power s)"
    using pw pw' by (simp_all add: unat_hashsize)
  have tb: "table s < next_tbl s" and sl: "\<And>g i. heap s (Slot g i) \<noteq> None \<longleftrightarrow> g = table s \<and> i < 2 ^ unat (hash_power s)"
    and ob: "\<And>n. heap s (Obj n) \<noteq> None \<Longrightarrow> n < next_obj s \<and> Obj n \<in> P"
    and mp: "monitored_ptrs s = [list_head, list_tail]"
    using h by (auto simp: ht_v1_def)
  have hp: "heap s1 p = heap s p" if "heap s p \<noteq> None \<or> (\<forall>i. p \<noteq> Slot (next_tbl s) i)" for p
    using that sl [of "next_tbl s"] tb by (fastforce simp: s1_def alloc_table_def split: ptr.splits)
  have s1: "hash_power s1 = hash_power s + 1" "table s1 = next_tbl s" "n_cur_item s1 = n_cur_item s"
    "next_tbl s1 = Suc (next_tbl s)" "vars s1 = vars s" "next_obj s1 = next_obj s"
    "monitored_ptrs s1 = monitored_ptrs s" by (simp_all add: s1_def alloc_table_def)
  have e: "ptrs (hash_power s1) (\<lambda>_. []) = {}" by (simp add: ptrs_def)
  have P: "P = (\<Union>i \<in> set ?is. set (C i))" by (simp add: C(2) ptrs_def atLeast0LessThan)
  have al: "\<exists>x. heap s p = Some x \<and> o_size x \<noteq> 0" if "p \<in> P" for p using ht_v1_alloc [OF h that] by simp
  have hP: "heap s1 p = heap s p" if "p \<in> P" for p using al [OF that] by (intro hp) auto
  have ex: "expanding hash s1 (\<lambda>_. []) (\<Union>i \<in> set ?is. set (C i)) xs"
    unfolding P [symmetric] expanding_def
  proof (intro conjI allI ballI impI)
    show "tbl hash (hash_power s1) (table s1) (heap s1) (\<lambda>_. [])"
      using sz pw' by (auto simp: tbl_def bucket_def s1_def alloc_table_def)
    show "linked s1 (ptrs (hash_power s1) (\<lambda>_. []) \<union> P) xs"
      unfolding e by (rule linked_cong) (use l hP in \<open>simp_all add: links_def s1\<close>)
    show "Slot (table s1) i \<notin> P" for i
      using al [of "Slot (table s1) i"] sl [of "table s1" i] tb by (auto simp: s1)
    show "n < next_obj s1" "Obj n \<in> ptrs (hash_power s1) (\<lambda>_. []) \<union> P" if "heap s1 (Obj n) \<noteq> None" for n
      using that ob [of n] hp [of "Obj n"] by (simp_all add: s1)
  qed (use C al hP mp pw pw' in \<open>simp_all add: s1 ptrs_def\<close>)
  have old: "old_buckets hash (hash_power s) (table s) (heap s1) C ?is"
  proof -
    have "bucket hash (hash_power s) (table s) (heap s1) i (C i)" if "i < 2 ^ unat (hash_power s)" for i
    proof (rule bucket_frame)
      show "bucket hash (hash_power s) (table s) (heap s) i (C i)" using C(1) that by (simp add: tbl_def)
      show "core (heap s1) q = core (heap s) q" if "q \<in> set (C i)" for q
        using hP [of q] P that \<open>i < _\<close> by (simp add: core_def) (metis atLeast0LessThan atLeastLessThan_upt lessThan_iff UN_I)
    qed (use sl that in \<open>auto intro!: hp\<close>)
    then show ?thesis by (simp add: old_buckets_def)
  qed
  have "table s1 \<noteq> table s" using tb by (simp add: s1)
  then obtain s2 C2 xs2 where s2: "expand_buckets hash (table s) ?is s1 = Inr s2"
    "expanding hash s2 C2 {} xs2" "grow_frame s1 s2 {} {}"
    "same_view (heap s1) P xs (heap s2) (ptrs (hash_power s1) C2) xs2"
    using expand_buckets_correct [OF ex _ old] e P by auto
  define s' where "s' = free_table (table s) s2"
  have run: "chained_hashtable_expand hash s = Inr s'"
    using s2(1) sz by (simp add: chained_hashtable_expand_def Let_def s1_def s'_def)
      (simp add: alloc_table_def)
  let ?P = "ptrs (hash_power s1) C2"
  have sc: "hash_power s2 = hash_power s1" "table s2 = table s1" "n_cur_item s2 = n_cur_item s1"
    "next_tbl s2 = next_tbl s1" and sl2: "\<And>g i. heap s2 (Slot g i) = None \<longleftrightarrow> heap s1 (Slot g i) = None"
    using s2(3) by (auto simp: grow_frame_def)
  have s': "hash_power s' = hash_power s1" "table s' = table s1" "n_cur_item s' = n_cur_item s"
    "next_tbl s' = next_tbl s1" "vars s' = vars s2" "next_obj s' = next_obj s2"
    "monitored_ptrs s' = monitored_ptrs s2"
    by (simp_all add: s'_def free_table_def sc s1)
  have hs': "heap s' p = heap s2 p" if "\<forall>i. p \<noteq> Slot (table s) i" for p
    using that by (simp add: s'_def free_table_def split: ptr.splits)
  have E: "tbl hash (hash_power s1) (table s1) (heap s2) C2" "linked s2 ?P xs2"
    "\<And>n. heap s2 (Obj n) \<noteq> None \<Longrightarrow> n < next_obj s2 \<and> Obj n \<in> ?P"
    "monitored_ptrs s2 = [list_head, list_tail]" "unat (n_cur_item s) = card ?P"
    using s2(2) by (auto simp: expanding_def sc s1)
  have hp2: "heap s' p = heap s2 p" if "p \<in> ?P" for p
    using that ptrs_Slot [OF E(1), of "table s"] tb by (intro hs') (auto simp: s1)
  have sv: "same_view (heap s) P xs (heap s') ?P xs2"
  proof -
    have "same_view (heap s) P xs (heap s1) P xs"
      using hP l by (auto simp: same_view_def objs_def payload_def image_def linked_def subset_iff)
    moreover have "same_view (heap s2) ?P xs2 (heap s') ?P xs2"
      using hp2 E(2) by (auto simp: same_view_def objs_def payload_def image_def linked_def subset_iff)
    ultimately show ?thesis using s2(4) same_view_trans by metis
  qed
  have "tbl hash (hash_power s1) (table s1) (heap s') C2"
    using hp2 hs' tb by (intro tbl_frame [OF E(1)]) (auto simp: core_def s1)
  moreover have "ids_ok (heap s') ?P"
    using ids_ok_same_view [OF sv C(3)] h by (simp add: ht_v1_def)
  moreover have "heap s' (Slot g i) \<noteq> None \<longleftrightarrow> g = next_tbl s \<and> i < 2 ^ unat (hash_power s1)" for g i
  proof -
    have "heap s1 (Slot g i) \<noteq> None \<longleftrightarrow> (g = next_tbl s \<and> i < 2 ^ unat (hash_power s1)) \<or>
        (g = table s \<and> i < 2 ^ unat (hash_power s))"
      using sl [of g i] sz pw' by (auto simp: s1_def alloc_table_def)
    then show ?thesis using sl2 [of g i] tb by (auto simp: s'_def free_table_def)
  qed
  moreover have "n < next_obj s' \<and> Obj n \<in> ?P" if "heap s' (Obj n) \<noteq> None" for n
    using that E(3) [of n] by (simp add: hs' s')
  ultimately have "ht_v1 hash s' ?P"
    using h sv pw pw' C(5) E(4,5) by (auto simp: ht_v1_def s' s1 same_view_def)
  moreover have "linked s' ?P xs2"
    using hp2 s' by (intro linked_cong [OF E(2)]) (auto simp: links_def)
  ultimately show ?thesis using run sv s'(3) by blast
qed


section \<open>Look-up is correct\<close>

lemma find_in_chain_correct:
  "hchain h ps \<Longrightarrow> length ps < fuel \<Longrightarrow>
    \<exists>d. find_in_chain fuel h (first_or ps NULL) k d0 =
      Inr (case find (\<lambda>p. fst (payload h p) = k) ps of Some p \<Rightarrow> p | None \<Rightarrow> NULL, d)"
proof (induction ps arbitrary: fuel d0)
  case Nil
  then show ?case by (cases fuel) auto
next
  case (Cons p ps)
  then obtain f where f: "fuel = Suc f" by (cases fuel) auto
  with Cons show ?case by (auto simp: nexts_Some c_simps payload_def)
qed

lemma count_lookup_same [simp]: "same_table s (count_lookup d s)"
  by (cases s) (simp add: count_lookup_def Let_def same_table_def)

lemma ht_v1_rand_seed [simp]: "ht_v1 hash (s\<lparr>rand_seed := r\<rparr>) P \<longleftrightarrow> ht_v1 hash s P"
  by (simp add: ht_v1_def)

lemma ht_v1_same_table: "same_table s s' \<Longrightarrow> ht_v1 hash s' P \<longleftrightarrow> ht_v1 hash s P"
  by (simp add: ht_v1_def same_tableD)

lemma chain_find:
  assumes h: "ht_v1 hash s P" and i: "i = bucket_of hash (hash_power s) k"
  obtains y p d where "heap s (Slot (table s) i) = Some y"
    "OBJ_EMPTY y \<Longrightarrow> k \<notin> fst ` objs (heap s) P"
    "\<not> OBJ_EMPTY y \<Longrightarrow> find_in_chain (chain_bound s) (heap s) (Slot (table s) i) k 0 = Inr (p, d)"
    "p \<in> P \<and> fst (payload (heap s) p) = k \<or> p = NULL \<and> k \<notin> fst ` objs (heap s) P"
proof -
  obtain C where C: "tbl hash (hash_power s) (table s) (heap s) C" "P = ptrs (hash_power s) C"
    "finite P" "unat (n_cur_item s) = card P" "unat (hash_power s) < 64"
    using h by (rule ht_v1_obtain)
  have ilt: "i < 2 ^ unat (hash_power s)" using bucket_of_less [OF C(5)] i by simp
  have b: "bucket hash (hash_power s) (table s) (heap s) i (C i)" using C(1) ilt by (simp add: tbl_def)
  then obtain y where y: "heap s (Slot (table s) i) = Some y" "OBJ_EMPTY y \<longleftrightarrow> C i = []"
    by (rule bucket_slot)
  have only: "r \<in> set (C i)" if "r \<in> P" "fst (payload (heap s) r) = k" for r
  proof -
    obtain m where "m < 2 ^ unat (hash_power s)" "r \<in> set (C m)" using \<open>r \<in> P\<close> C(2) by (auto simp: ptrs_def)
    then show ?thesis using tbl_in_bucket [OF C(1)] i that(2) by (metis in_bucket_def)
  qed
  define p where "p = (case find (\<lambda>p. fst (payload (heap s) p) = k) (C i) of Some p \<Rightarrow> p | None \<Rightarrow> NULL)"
  have p: "p \<in> P \<and> fst (payload (heap s) p) = k \<or> p = NULL \<and> k \<notin> fst ` objs (heap s) P"
  proof (cases "find (\<lambda>p. fst (payload (heap s) p) = k) (C i)")
    case None
    then have "p = NULL" by (simp add: p_def)
    moreover have "k \<notin> fst ` objs (heap s) P" using None only by (auto simp: find_None_iff objs_def image_image)
    ultimately show ?thesis by simp
  next
    case (Some q)
    then have "p = q" by (simp add: p_def)
    moreover have "q \<in> set (C i)" "fst (payload (heap s) q) = k" using Some by (auto simp: find_Some_iff)
    ultimately show ?thesis using ilt C(2) by (auto simp: ptrs_def)
  qed
  have len: "length (C i) < chain_bound s" using length_chain_le [OF C(1) ilt, of P] C by simp
  have "\<exists>d. find_in_chain (chain_bound s) (heap s) (Slot (table s) i) k 0 = Inr (p, d)" if "C i \<noteq> []"
    using find_in_chain_correct [of "heap s" "C i" "chain_bound s" k 0] b len bucket_hd [OF b that] that
    by (cases "C i") (auto simp: bucket_def p_def)
  then obtain d where "\<not> OBJ_EMPTY y \<Longrightarrow> find_in_chain (chain_bound s) (heap s) (Slot (table s) i) k 0 = Inr (p, d)"
    using y(2) by blast
  moreover have "k \<notin> fst ` objs (heap s) P" if "OBJ_EMPTY y" using only that y(2) by (auto simp: objs_def image_image)
  ultimately show thesis using that y(1) p by blast
qed

lemma chained_hashtable_find_correct:
  assumes h: "ht_v1 hash s P" and hv: "hv req = 0 \<or> hv req = hash (obj_id_int req)"
  shows "\<exists>p s'. chained_hashtable_find hash s req = Inr (p, req\<lparr>hv := hash (obj_id_int req)\<rparr>, s') \<and>
    same_table s s' \<and>
    (p \<in> P \<and> fst (payload (heap s) p) = obj_id_int req \<or>
     p = NULL \<and> obj_id_int req \<notin> fst ` objs (heap s) P)"
proof -
  let ?k = "obj_id_int req"
  have req: "(if hv req = 0 then req\<lparr>hv := hash ?k\<rparr> else req) = req\<lparr>hv := hash ?k\<rparr>"
    using hv by auto
  obtain y p d where f: "heap s (Slot (table s) (bucket_of hash (hash_power s) ?k)) = Some y"
    "OBJ_EMPTY y \<Longrightarrow> ?k \<notin> fst ` objs (heap s) P"
    "\<not> OBJ_EMPTY y \<Longrightarrow> find_in_chain (chain_bound s) (heap s)
      (Slot (table s) (bucket_of hash (hash_power s) ?k)) ?k 0 = Inr (p, d)"
    "p \<in> P \<and> fst (payload (heap s) p) = ?k \<or> p = NULL \<and> ?k \<notin> fst ` objs (heap s) P"
    using chain_find [OF h refl] by metis
  then show ?thesis
    unfolding chained_hashtable_find_def req Let_def
    by (cases "OBJ_EMPTY y") (simp_all add: c_simps bucket_of_def)
qed

text \<open>\<^verbatim>\<open>chained_hashtable_find_obj_id\<close> reports every object as absent.\<close>

lemma chained_hashtable_find_obj_id_NULL:
  assumes h: "ht_v1 hash s P"
  shows "\<exists>s'. chained_hashtable_find_obj_id hash s k = Inr (NULL, s') \<and> same_table s s'"
proof -
  obtain y p d where f: "heap s (Slot (table s) (bucket_of hash (hash_power s) k)) = Some y"
    "\<not> OBJ_EMPTY y \<Longrightarrow> find_in_chain (chain_bound s) (heap s)
      (Slot (table s) (bucket_of hash (hash_power s) k)) k 0 = Inr (p, d)"
    using chain_find [OF h refl] by metis
  then show ?thesis
    unfolding chained_hashtable_find_obj_id_def Let_def
    by (cases "OBJ_EMPTY y") (auto simp: c_simps)
qed


section \<open>Insertion is correct\<close>

lemma expand_limit_pw:
  assumes "n \<le> 2 ^ 48" "of_nat n > expand_limit pw" "unat pw \<le> 49"
  shows "unat pw \<le> 48"
proof (rule ccontr)
  assume "\<not> unat pw \<le> 48"
  then have "unat pw = 49" using assms(3) by simp
  then have "expand_limit pw = of_nat ((4 * 2 ^ 49) div 5)" by (simp add: expand_limit_def)
  then have "unat (expand_limit pw) > 2 ^ 48" by simp
  moreover have "unat (of_nat n :: u64) = n" using assms(1) by simp
  ultimately show False using assms(1,2) by (simp add: word_less_nat_alt)
qed

lemma ids_ok_insert: "ids_ok h (insert p P) \<longleftrightarrow> ids_ok h P \<and> fst (payload h p) \<notin> fst ` objs h (P - {p})"
  by (simp add: ids_ok_def objs_def image_comp)

lemma insert_no_expand:
  assumes h: "ht_v1 hash s P" and l: "linked s P xs"
    and k: "obj_id_int req \<notin> fst ` objs (heap s) P" and sz: "(ucast (obj_size req) :: u32) \<noteq> 0"
    and n: "card P < 2 ^ 48"
  shows "\<exists>p s'. rbind (load (heap s) (Slot (table s) (bucket_of hash (hash_power s) (obj_id_int req)))) (\<lambda>x.
      rbind (if OBJ_EMPTY x then
             rbind (modify (heap s) (Slot (table s) (bucket_of hash (hash_power s) (obj_id_int req)))
               (\<lambda>x. copy_request_to_cache_obj x req)) (\<lambda>h.
             Inr (Slot (table s) (bucket_of hash (hash_power s) (obj_id_int req)), s\<lparr>heap := h\<rparr>))
           else
             (case create_cache_obj_from_request (Some req) s of (new_cache_obj, s1) \<Rightarrow>
              rbind (last_obj_in_chain (chain_bound s1) (heap s1)
                (Slot (table s) (bucket_of hash (hash_power s) (obj_id_int req)))) (\<lambda>l.
              rbind (set_hash_next l new_cache_obj s1) (\<lambda>s.
              Inr (new_cache_obj, s))))) (\<lambda>(cache_obj, s).
      Inr (cache_obj, s\<lparr>n_cur_item := n_cur_item s + 1\<rparr>))) = Inr (p, s') \<and>
    ht_v1 hash s' (insert p P) \<and> p \<notin> P \<and> linked s' (insert p P) xs \<and>
    same_view (heap s) P xs (heap s') P xs \<and>
    payload (heap s') p = (obj_id_int req, ucast (obj_size req))"
proof -
  let ?k = "obj_id_int req" and ?pw = "hash_power s"
  define j where "j = bucket_of hash ?pw ?k"
  obtain C where C: "tbl hash ?pw (table s) (heap s) C" "P = ptrs ?pw C"
    "finite P" "NULL \<notin> P" "unat (n_cur_item s) = card P" "unat ?pw < 64"
    using h by (rule ht_v1_obtain)
  have jlt: "j < 2 ^ unat ?pw" using bucket_of_less [OF C(6)] by (simp add: j_def)
  have "bucket hash ?pw (table s) (heap s) j (C j)" using C(1) jlt by (simp add: tbl_def)
  then obtain y where y: "heap s (Slot (table s) j) = Some y" "OBJ_EMPTY y \<longleftrightarrow> C j = []"
    "C j = [] \<Longrightarrow> y = zero_obj" using bucket_slot by blast
  define z where "z = copy_request_to_cache_obj zero_obj req"
  have z: "unlink z = z" "hash_next z = NULL" "o_size z = ucast (obj_size req)" "o_id z = ?k"
    "list_prev z = NULL" "list_next z = NULL"
    by (simp_all add: z_def copy_request_to_cache_obj_def zero_obj_def unlink_def)
  have finish: "ht_v1 hash s' (insert q P) \<and> q \<notin> P \<and> linked s' (insert q P) xs \<and>
      same_view (heap s) P xs (heap s') P xs \<and> payload (heap s') q = (?k, ucast (obj_size req))"
    if q: "q \<notin> P" "if C j = [] then q = Slot (table s) j else q = Obj (next_obj s)"
      and sc: "hash_power s' = ?pw" "table s' = table s" "n_cur_item s' = n_cur_item s + 1"
        "next_tbl s' = next_tbl s" "monitored_ptrs s' = monitored_ptrs s" "vars s' = vars s"
        "next_obj s \<le> next_obj s'" "C j \<noteq> [] \<Longrightarrow> next_obj s < next_obj s'"
      and hq: "heap s' q = Some z"
      and hl: "C j \<noteq> [] \<Longrightarrow> \<exists>xl. heap s (last (C j)) = Some xl \<and>
          heap s' (last (C j)) = Some (xl\<lparr>hash_next := q\<rparr>)"
      and ho: "\<And>r. r \<noteq> q \<Longrightarrow> C j = [] \<or> r \<noteq> last (C j) \<Longrightarrow> heap s' r = heap s r" for q s'
  proof -
    have lastP: "C j \<noteq> [] \<Longrightarrow> last (C j) \<in> P" using jlt C(2) by (auto simp: ptrs_def intro!: bexI [of _ j])
    have pay': "payload (heap s') r = payload (heap s) r" if "r \<noteq> q" for r
      using ho [of r] hl that by (cases "C j \<noteq> [] \<and> r = last (C j)") (auto simp: payload_def)
    have pay: "payload (heap s') r = payload (heap s) r" if "r \<in> P" for r
      using q(1) that by (intro pay') auto
    have lk: "links (heap s') r = links (heap s) r" if "r \<noteq> q" for r
      using ho [of r] hl q(1) that by (cases "C j \<noteq> [] \<and> r = last (C j)") (auto simp: links_def)
    have al: "heap s' r = None \<longleftrightarrow> heap s r = None" if "r \<noteq> q" for r
      using ho [of r] hl that by (cases "C j \<noteq> [] \<and> r = last (C j)") auto
    have tb: "tbl hash ?pw (table s) (heap s') (C(j := C j @ [q]))"
    proof (rule tbl_append [OF C(1) jlt])
      show "core (heap s') q = Some z" using hq z(1) by (simp add: core_def)
      show "core (heap s') r = core (heap s) r" if "r \<in> ptrs ?pw C" "C j = [] \<or> r \<noteq> last (C j)" for r
        using ho [OF _ that(2)] that(1) C(2) q(1) by (metis core_def)
      show "heap s' (Slot (table s) i) = heap s (Slot (table s) i)"
        if "i < 2 ^ unat ?pw" "i \<noteq> j" "C i = []" for i
        using tbl_slot_notin [OF C(1) that(1,3)] C(2) lastP q(2) that(2) by (intro ho) (auto split: if_splits)
    qed (use q C(2) z sz hl in \<open>auto simp: j_def core_def split: if_splits\<close>)
    have objs: "objs (heap s') P = objs (heap s) P" using pay by (simp add: objs_def)
    have view: "view (heap s') xs = view (heap s) xs"
      using pay l by (auto simp: linked_def)
    have "ids_ok (heap s') (insert q P)"
      using h k objs pay hq z q(1) by (simp add: ids_ok_insert) (simp add: ht_v1_def ids_ok_def payload_def cong: inj_on_cong)
    moreover have "heap s' (Slot g i) \<noteq> None \<longleftrightarrow> g = table s \<and> i < 2 ^ unat ?pw" for g i
      using al [of "Slot g i"] hq q(2) h jlt by (cases "Slot g i = q") (auto simp: ht_v1_def split: if_splits)
    moreover have "i < next_obj s' \<and> Obj i \<in> insert q P" if "heap s' (Obj i) \<noteq> None" for i
      using al [of "Obj i"] that h sc(7,8) q(2) by (cases "Obj i = q") (auto simp: ht_v1_def split: if_splits)
    moreover have "insert q P = ptrs ?pw (C(j := C j @ [q]))" by (simp add: ptrs_append [OF jlt] C(2))
    moreover have "card (insert q P) = Suc (card P)" using q(1) C(3) by simp
    ultimately have "ht_v1 hash s' (insert q P)"
      using tb n ht_v1D [OF h] by (intro ht_v1I) (simp_all only: sc, simp_all)
    moreover have "linked s' (insert q P) xs"
    proof -
      have "linked s' P xs" using q(1) sc(6) by (intro linked_cong [OF l] lk) auto
      then show ?thesis using hq z by (auto simp: linked_def links_def)
    qed
    ultimately show ?thesis using q(1) objs view hq z by (simp add: same_view_def payload_def)
  qed
  show ?thesis
  proof (cases "C j = []")
    case True
    let ?q = "Slot (table s) j"
    let ?s' = "s\<lparr>heap := (heap s)(?q \<mapsto> z), n_cur_item := n_cur_item s + 1\<rparr>"
    have "?q \<notin> P" using tbl_slot_notin [OF C(1) jlt True] C(2) by simp
    then show ?thesis
      using finish [of ?q ?s'] True y by (simp add: c_simps flip: j_def z_def)
  next
    case False
    let ?q = "Obj (next_obj s)"
    let ?s1 = "s\<lparr>heap := (heap s)(?q \<mapsto> z), next_obj := Suc (next_obj s)\<rparr>"
    have qP: "?q \<notin> P" using h ht_v1_alloc [OF h, of ?q] by (auto simp: ht_v1_def)
    have t1: "tbl hash ?pw (table s) (heap ?s1) C"
      using qP C(2) by (intro tbl_frame [OF C(1)]) auto
    have "length (C j) \<le> chain_bound ?s1" using length_chain_le [OF C(1) jlt, of P] C by simp
    then obtain xl where last: "last_obj_in_chain (chain_bound ?s1) (heap ?s1) (Slot (table s) j) = Inr (last (C j))"
      "heap ?s1 (last (C j)) = Some xl" "last (C j) \<noteq> NULL" "last (C j) \<in> P"
      using chain_last [OF t1 jlt False] C(2) by metis
    have lq: "last (C j) \<noteq> ?q" using last(4) qP by auto
    let ?s' = "?s1\<lparr>heap := (heap ?s1)(last (C j) \<mapsto> xl\<lparr>hash_next := ?q\<rparr>), n_cur_item := n_cur_item s + 1\<rparr>"
    show ?thesis
      using finish [of ?q ?s'] False y last lq qP
      by (simp add: c_simps set_hash_next_Some create_cache_obj_from_request_def malloc_obj_def
        flip: j_def z_def)
  qed
qed


lemma chained_hashtable_insert_correct:
  assumes h: "ht_v1 hash s P" and l: "linked s P xs"
    and k: "obj_id_int req \<notin> fst ` objs (heap s) P" and sz: "(ucast (obj_size req) :: u32) \<noteq> 0"
    and n: "card P < 2 ^ 48"
  shows "\<exists>p s' P' xs'. chained_hashtable_insert hash s req = Inr (p, s') \<and>
    ht_v1 hash s' (insert p P') \<and> p \<notin> P' \<and> linked s' (insert p P') xs' \<and> set xs' \<subseteq> P' \<and>
    same_view (heap s) P xs (heap s') P' xs' \<and>
    payload (heap s') p = (obj_id_int req, ucast (obj_size req))"
proof -
  have "\<exists>s1 P1 xs1. (if n_cur_item s > expand_limit (hash_power s) then chained_hashtable_expand hash s
      else Inr s) = Inr s1 \<and> ht_v1 hash s1 P1 \<and> linked s1 P1 xs1 \<and> same_view (heap s) P xs (heap s1) P1 xs1"
  proof (cases "n_cur_item s > expand_limit (hash_power s)")
    case True
    then have "unat (hash_power s) \<le> 48"
      using h expand_limit_pw [of "card P" "hash_power s"] by (simp add: ht_v1_def)
    from chained_hashtable_expand_correct [OF h l this] True show ?thesis by auto
  next
    case False
    with h l show ?thesis by (intro exI [of _ s] exI [of _ P] exI [of _ xs]) simp
  qed
  then obtain s1 P1 xs1 where s1: "(if n_cur_item s > expand_limit (hash_power s)
      then chained_hashtable_expand hash s else Inr s) = Inr s1"
    "ht_v1 hash s1 P1" "linked s1 P1 xs1" "same_view (heap s) P xs (heap s1) P1 xs1" by blast
  have k1: "obj_id_int req \<notin> fst ` objs (heap s1) P1" "card P1 < 2 ^ 48"
    using s1(4) k n by (auto simp: same_view_def)
  obtain p s' where "chained_hashtable_insert hash s req = Inr (p, s')"
    "ht_v1 hash s' (insert p P1)" "p \<notin> P1" "linked s' (insert p P1) xs1"
    "same_view (heap s1) P1 xs1 (heap s') P1 xs1"
    "payload (heap s') p = (obj_id_int req, ucast (obj_size req))"
    using insert_no_expand [OF s1(2,3) k1(1) sz k1(2)]
    unfolding chained_hashtable_insert_def s1(1) rbind_simps Let_def by blast
  moreover have "set xs1 \<subseteq> P1" using s1(3) by (simp add: linked_def)
  ultimately show ?thesis using same_view_trans [OF s1(4)] by blast
qed


section \<open>Deletion is correct\<close>

lemma tbl_replace:
  assumes t: "tbl hash pw g h C" and j: "j < 2 ^ unat pw" and b: "bucket hash pw g h' j ps"
    and fr: "\<And>r. r \<in> ptrs pw C \<Longrightarrow> r \<notin> set (C j) \<Longrightarrow> core h' r = core h r"
    and e: "\<And>i. i < 2 ^ unat pw \<Longrightarrow> i \<noteq> j \<Longrightarrow> C i = [] \<Longrightarrow> h' (Slot g i) = h (Slot g i)"
  shows "tbl hash pw g h' (C(j := ps))"
    "ptrs pw (C(j := ps)) = ptrs pw C - set (C j) \<union> set ps"
proof -
  have u: "r \<notin> set (C j)" if "r \<in> set (C i)" "i < 2 ^ unat pw" "i \<noteq> j" for r i
    using tbl_bucket_unique [OF t that(2) j that(1)] that(3) by auto
  show "ptrs pw (C(j := ps)) = ptrs pw C - set (C j) \<union> set ps"
    using j u by (fastforce simp: ptrs_def split: if_splits)
  have "bucket hash pw g h' i (C i)" if "i < 2 ^ unat pw" "i \<noteq> j" for i
  proof (rule bucket_frame)
    show "bucket hash pw g h i (C i)" using t that(1) by (simp add: tbl_def)
    show "core h' r = core h r" if "r \<in> set (C i)" for r
      using that \<open>i < _\<close> u [OF that \<open>i < _\<close> \<open>i \<noteq> j\<close>] by (intro fr) (auto simp: ptrs_def)
  qed (use e that in simp)
  with b show "tbl hash pw g h' (C(j := ps))" by (simp add: tbl_def)
qed

text \<open>Removing an inner object of a chain.\<close>

lemma hchain_remove:
  assumes "hchain h (as @ a # p # bs)" "distinct (as @ a # p # bs)"
    "nexts h' a = nexts h p" "\<And>r. r \<in> set as \<union> set bs \<Longrightarrow> core h' r = core h r"
  shows "hchain h' (as @ a # bs)"
  using assms
proof (induction as)
  case Nil
  then show ?case using hchain_core [of bs h' h] by simp
next
  case (Cons c as)
  have "nexts h' c = nexts h c" using Cons.prems(4) [of c] by (intro nexts_core) simp
  then show ?case using Cons by (cases as) simp_all
qed

lemma delete_in_chain_correct:
  assumes "hchain (heap s) (as @ a # p # bs)" "distinct (as @ a # p # bs)" "length as < fuel"
    "heap s a = Some xa" "heap s p = Some xp"
    "\<And>h. links h = links (heap s) \<Longrightarrow> delete_obj_in_table (s\<lparr>heap := h\<rparr>) p = Inr (s\<lparr>heap := h\<rparr>)"
  shows "delete_in_chain fuel s (first_or (as @ [a]) NULL) p =
    Inr (s\<lparr>heap := ((heap s)(a \<mapsto> xa\<lparr>hash_next := hash_next xp\<rparr>))(p := None)\<rparr>)"
  using assms
proof (induction as arbitrary: fuel)
  case Nil
  then obtain f where f: "fuel = Suc f" by (cases fuel) auto
  have "links ((heap s)(a \<mapsto> xa\<lparr>hash_next := hash_next xp\<rparr>)) = links (heap s)"
    using Nil.prems(4) by (intro links_keep) auto
  note del = Nil.prems(6) [OF this]
  have "hash_next xa = p" "a \<noteq> NULL" "p \<noteq> NULL" using Nil.prems(1,4) by (simp_all add: nexts_Some)
  then show ?case using Nil.prems(4,5)
    by (simp add: f c_simps Let_def set_hash_next_Some free_cache_obj_def del del: fun_upd_apply)
next
  case (Cons c as)
  then obtain f where f: "fuel = Suc f" by (cases fuel) auto
  obtain xc where xc: "heap s c = Some xc" "hash_next xc = first_or (as @ [a]) NULL"
    using Cons.prems(1) by (cases as) (auto simp: nexts_Some)
  have "first_or (as @ [a]) NULL \<noteq> p" using Cons.prems(2) by (cases as) auto
  then show ?case using Cons.IH [of f] Cons.prems xc by (simp add: f c_simps Let_def)
qed


lemma ht_v1_smaller:
  assumes h: "ht_v1 hash s P" and p: "p \<in> P"
    and t: "tbl hash (hash_power s) (table s) (heap s') C'"
    and v: "same_view (heap s) (P - {p}) xs (heap s') (ptrs (hash_power s) C') xs'"
    and sc: "hash_power s' = hash_power s" "table s' = table s" "n_cur_item s' = n_cur_item s - 1"
      "next_tbl s' = next_tbl s" "monitored_ptrs s' = monitored_ptrs s" "next_obj s' = next_obj s"
    and o: "\<And>n. heap s' (Obj n) \<noteq> None \<Longrightarrow> heap s (Obj n) \<noteq> None \<and> Obj n \<in> ptrs (hash_power s) C'"
    and sl: "\<And>g i. heap s' (Slot g i) = None \<longleftrightarrow> heap s (Slot g i) = None"
  shows "ht_v1 hash s' (ptrs (hash_power s) C')"
proof (rule ht_v1I)
  note d = ht_v1D [OF h]
  have fin: "finite P" using h by (auto elim!: ht_v1_obtain)
  have card: "card P = Suc (card (ptrs (hash_power s) C'))"
    using v card.remove [OF fin p] by (simp add: same_view_def)
  show "ids_ok (heap s') (ptrs (hash_power s) C')"
    using ids_ok_same_view [OF v] fin d(1) by (auto simp: ids_ok_def inj_on_def)
  show "n_cur_item s' = of_nat (card (ptrs (hash_power s) C'))" using d(2) by (simp add: sc card)
  show "card (ptrs (hash_power s) C') \<le> 2 ^ 48" using d(3) card by simp
  show "n < next_obj s' \<and> Obj n \<in> ptrs (hash_power s) C'" if "heap s' (Obj n) \<noteq> None" for n
    using o [OF that] d(5) [of n] by (simp add: sc)
  show "heap s' (Slot g i) \<noteq> None \<longleftrightarrow> g = table s' \<and> i < 2 ^ unat (hash_power s')" for g i
    using sl [of g i] d(6) [of g i] by (simp add: sc)
qed (use t sc ht_v1D [OF h] in simp_all)

lemma pred_obtain:
  assumes "p \<in> set ps" "ps = r # qs" "p \<noteq> r"
  obtains as a bs where "ps = as @ a # p # bs"
proof -
  obtain as bs where sp: "ps = as @ p # bs" using split_list [OF assms(1)] by blast
  moreover have "as \<noteq> []" using sp assms(2,3) by auto
  ultimately show thesis using that [of "butlast as" "last as" bs] by simp
qed

lemma delete_alone:
  assumes h: "ht_v1 hash s P" and t: "tbl hash (hash_power s) (table s) (heap s) C"
    and P: "P = ptrs (hash_power s) C" and j: "j < 2 ^ unat (hash_power s)"
    and Cj: "C j = [p]" "p = Slot (table s) j" and l: "linked s (P - {p}) xs"
    and s': "s' = s\<lparr>n_cur_item := n_cur_item s - 1, heap := (heap s)(p \<mapsto> zero_obj)\<rparr>"
  shows "ht_v1 hash s' (P - {p}) \<and> linked s' (P - {p}) xs \<and>
    same_view (heap s) (P - {p}) xs (heap s') (P - {p}) xs"
proof -
  have p: "p \<in> P" using P j Cj(1) by (auto simp: ptrs_def intro!: bexI [of _ j])
  have tr: "tbl hash (hash_power s) (table s) (heap s') (C(j := []))"
    "ptrs (hash_power s) (C(j := [])) = ptrs (hash_power s) C - set (C j) \<union> set []"
    by (rule tbl_replace [OF t j, where h' = "heap s'"]; use Cj s' in \<open>auto simp: bucket_def\<close>)+
  have P': "ptrs (hash_power s) (C(j := [])) = P - {p}" using tr(2) Cj(1) P by simp
  have v: "same_view (heap s) (P - {p}) xs (heap s') (P - {p}) xs"
    using l by (auto simp: s' same_view_def objs_def linked_def)
  have "ht_v1 hash s' (ptrs (hash_power s) (C(j := [])))"
    using v ht_v1D(5) [OF h] ht_v1_alloc [OF h p]
    by (intro ht_v1_smaller [OF h p tr(1)]) (auto simp: P' s' Cj(2))
  moreover have "linked s' (P - {p}) xs" by (rule linked_cong [OF l]) (auto simp: s')
  ultimately show ?thesis using v by (simp add: P')
qed

lemma delete_head:
  assumes h: "ht_v1 hash s P" and t: "tbl hash (hash_power s) (table s) (heap s) C"
    and P: "P = ptrs (hash_power s) C" and j: "j < 2 ^ unat (hash_power s)"
    and Cj: "C j = p # q # qs" "p = Slot (table s) j" and l: "linked s (P - {p}) xs"
  shows "\<exists>s' P' xs'. rbind (move_obj_to_new_loc (s\<lparr>n_cur_item := n_cur_item s - 1\<rparr>) p q)
      (\<lambda>s. Inr (free_cache_obj q s)) = Inr s' \<and> ht_v1 hash s' P' \<and>
    linked s' P' xs' \<and> same_view (heap s) (P - {p}) xs (heap s') P' xs'"
proof -
  let ?s1 = "s\<lparr>n_cur_item := n_cur_item s - 1\<rparr>"
  have b: "bucket hash (hash_power s) (table s) (heap s) j (C j)" using t j by (simp add: tbl_def)
  have pq: "p \<in> P" "q \<in> P" "p \<noteq> q" "q \<notin> set qs" "p \<notin> set qs" "is_Obj q"
    using P j Cj b by (auto simp: ptrs_def bucket_def intro!: bexI [of _ j])
  obtain x y where x: "heap s p = Some x" "heap s q = Some y" "p \<noteq> NULL" "NULL \<notin> P"
    using ht_v1_alloc [OF h] pq(1,2) by blast
  have l1: "linked ?s1 (P - {p}) xs" using l by (simp add: linked_def)
  obtain h' v where mv: "move_obj_to_new_loc ?s1 p q = Inr (?s1\<lparr>heap := h', vars := v\<rparr>)"
    and lk: "linked (?s1\<lparr>heap := h', vars := v\<rparr>) (insert p (P - {p} - {q})) (map (subst q p) xs)"
    and c: "\<And>r. core h' r = ((core (heap s))(p \<mapsto> unlink y)) r"
    and d: "\<And>r. r \<notin> insert p (P - {p}) \<Longrightarrow> h' r = heap s r"
    using move_obj_to_new_loc_correct [OF l1, of q y p x] pq x ht_v1D(8) [OF h] by auto
  define s' where "s' = ?s1\<lparr>vars := v, heap := h'(q := None)\<rparr>"
  have al: "h' r = None \<longleftrightarrow> heap s r = None" for r
    using c [of r] x by (cases "h' r"; cases "heap s r") (auto simp: core_def split: if_splits)
  have bk: "bucket hash (hash_power s) (table s) (h'(q := None)) j (p # qs)"
  proof -
    have f: "core (h'(q := None)) r = core (heap s) r" if "r \<in> set qs" for r
      using that c [of r] pq by auto
    have fp: "core (h'(q := None)) p = core (heap s) q" using c [of p] x pq by (simp add: core_def)
    show ?thesis
      using b pq Cj hchain_core [of qs, OF f] in_bucket_core [OF f] nexts_core [OF fp] payload_core [OF fp]
      by (auto simp: bucket_def in_bucket_def)
  qed
  have tr: "tbl hash (hash_power s) (table s) (heap s') (C(j := p # qs))"
    "ptrs (hash_power s) (C(j := p # qs)) = ptrs (hash_power s) C - set (C j) \<union> set (p # qs)"
  proof -
    note tr = tbl_replace [OF t j bk]
    have "core (h'(q := None)) r = core (heap s) r" if "r \<in> ptrs (hash_power s) C" "r \<notin> set (C j)" for r
      using that c [of r] Cj(1) by auto
    moreover have "(h'(q := None)) (Slot (table s) i) = heap s (Slot (table s) i)"
      if "i < 2 ^ unat (hash_power s)" "i \<noteq> j" "C i = []" for i
      using d [of "Slot (table s) i"] tbl_slot_notin [OF t that(1,3)] pq Cj that P by auto
    ultimately show "tbl hash (hash_power s) (table s) (heap s') (C(j := p # qs))"
      "ptrs (hash_power s) (C(j := p # qs)) = ptrs (hash_power s) C - set (C j) \<union> set (p # qs)"
      using tr by (simp_all add: s'_def)
  qed
  have P': "ptrs (hash_power s) (C(j := p # qs)) = insert p (P - {p} - {q})"
    using tr(2) Cj(1) P pq j by (auto simp: ptrs_def)
  have v: "same_view (heap s) (P - {p}) xs (heap s') (insert p (P - {p} - {q})) (map (subst q p) xs)"
  proof (rule same_view_subst)
    show "payload (heap s') p = payload (heap s) q"
      using c [of p] pq x by (intro payload_core) (simp add: s'_def core_def)
    show "payload (heap s') r = payload (heap s) r" if "r \<in> P - {p}" "r \<noteq> q" for r
      using that c [of r] by (intro payload_core) (simp add: s'_def)
  qed (use pq l h in \<open>auto simp: linked_def elim!: ht_v1_obtain\<close>)
  have ob: "heap s (Obj n) \<noteq> None \<and> Obj n \<in> ptrs (hash_power s) (C(j := p # qs))"
    if "heap s' (Obj n) \<noteq> None" for n
    using that al [of "Obj n"] ht_v1D(5) [OF h, of n] Cj(2) unfolding P'
    by (auto simp: s'_def split: if_splits)
  have sl: "heap s' (Slot g i) = None \<longleftrightarrow> heap s (Slot g i) = None" for g i
    using al [of "Slot g i"] pq(6) by (auto simp: s'_def)
  have "ht_v1 hash s' (ptrs (hash_power s) (C(j := p # qs)))"
    using ht_v1_smaller [OF h pq(1) tr(1) v [folded P'] _ _ _ _ _ _ ob sl] by (simp add: s'_def)
  moreover have "linked s' (insert p (P - {p} - {q})) (map (subst q p) xs)"
    using pq by (intro linked_cong [OF lk]) (auto simp: s'_def)
  moreover have "rbind (move_obj_to_new_loc ?s1 p q) (\<lambda>s. Inr (free_cache_obj q s)) = Inr s'"
    using mv by (simp add: s'_def free_cache_obj_def)
  ultimately show ?thesis using v P' by auto
qed

lemma delete_inner:
  assumes h: "ht_v1 hash s P" and t: "tbl hash (hash_power s) (table s) (heap s) C"
    and P: "P = ptrs (hash_power s) C" and j: "j < 2 ^ unat (hash_power s)"
    and Cj: "C j = as @ a # p # bs" and l: "linked s (P - {p}) xs"
    and x: "heap s a = Some xa" "heap s p = Some xp"
    and s': "s' = s\<lparr>n_cur_item := n_cur_item s - 1,
      heap := ((heap s)(a \<mapsto> xa\<lparr>hash_next := hash_next xp\<rparr>))(p := None)\<rparr>"
  shows "ht_v1 hash s' (P - {p}) \<and> linked s' (P - {p}) xs \<and>
    same_view (heap s) (P - {p}) xs (heap s') (P - {p}) xs"
proof -
  have b: "bucket hash (hash_power s) (table s) (heap s) j (C j)" using t j by (simp add: tbl_def)
  have dist: "distinct (as @ a # p # bs)" using b Cj by (simp add: bucket_def)
  have p: "p \<in> P" "a \<in> P" "a \<noteq> p" "is_Obj p"
    using P j Cj b by (auto simp: ptrs_def bucket_def intro!: bexI [of _ j] split: list.splits) (cases as; auto)+
  have f: "core (heap s') r = core (heap s) r" if "r \<noteq> a" "r \<noteq> p" for r using that by (simp add: s')
  have pay: "payload (heap s') r = payload (heap s) r" if "r \<noteq> p" for r
    using that x by (simp add: s' payload_def)
  have "hchain (heap s') (as @ a # bs)"
    using b Cj dist x by (intro hchain_remove [of "heap s" as a p bs] f) (auto simp: bucket_def s' nexts_def)
  moreover have "in_bucket hash (hash_power s) (heap s') j r" if "r \<in> set (as @ a # bs)" for r
  proof -
    have "r \<noteq> p" "r \<in> set (C j)" using that dist Cj by auto
    then show ?thesis using bucket_inD [OF b] pay [of r] by (simp add: in_bucket_def)
  qed
  ultimately have bk: "bucket hash (hash_power s) (table s) (heap s') j (as @ a # bs)"
    using b dist by (cases as) (auto simp: bucket_def Cj)
  have e: "heap s' (Slot (table s) i) = heap s (Slot (table s) i)"
    if "i < 2 ^ unat (hash_power s)" "i \<noteq> j" "C i = []" for i
    using tbl_slot_notin [OF t that(1,3)] p P by (auto simp: s')
  have tr: "tbl hash (hash_power s) (table s) (heap s') (C(j := as @ a # bs))"
    "ptrs (hash_power s) (C(j := as @ a # bs)) = ptrs (hash_power s) C - set (C j) \<union> set (as @ a # bs)"
    by (rule tbl_replace [OF t j bk]; use f e Cj in auto)+
  have P': "ptrs (hash_power s) (C(j := as @ a # bs)) = P - {p}"
    using tr(2) Cj P j dist by (auto simp: ptrs_def)
  have v: "same_view (heap s) (P - {p}) xs (heap s') (P - {p}) xs"
    using l pay by (auto simp: same_view_def objs_def linked_def)
  have "ht_v1 hash s' (ptrs (hash_power s) (C(j := as @ a # bs)))"
    using v ht_v1D(5) [OF h] p x
    by (intro ht_v1_smaller [OF h p(1) tr(1)]) (auto simp: P' s' split: if_splits)
  moreover have "linked s' (P - {p}) xs"
    using x by (intro linked_cong [OF l]) (auto simp: s' links_def)
  ultimately show ?thesis using v by (simp add: P')
qed

lemma chained_hashtable_delete_correct:
  assumes h: "ht_v1 hash s P" and p: "p \<in> P" and l: "linked s (P - {p}) xs" and st: "stale s xs p"
  shows "\<exists>s' P' xs'. chained_hashtable_delete hash s p = Inr s' \<and> ht_v1 hash s' P' \<and>
    linked s' P' xs' \<and> same_view (heap s) (P - {p}) xs (heap s') P' xs'"
proof -
  let ?pw = "hash_power s"
  obtain C where C: "tbl hash ?pw (table s) (heap s) C" "P = ptrs ?pw C"
    "finite P" "NULL \<notin> P" "unat (n_cur_item s) = card P" "unat ?pw < 64"
    using h by (rule ht_v1_obtain)
  obtain x where x: "heap s p = Some x" "p \<noteq> NULL" using ht_v1_alloc [OF h p] by auto
  define j where "j = bucket_of hash ?pw (o_id x)"
  define s1 where "s1 = s\<lparr>n_cur_item := n_cur_item s - 1\<rparr>"
  have s1: "heap s1 = heap s" "vars s1 = vars s" "table s1 = table s" "hash_power s1 = ?pw"
    "next_tbl s1 = next_tbl s" "next_obj s1 = next_obj s" "monitored_ptrs s1 = [list_head, list_tail]"
    "n_cur_item s1 = n_cur_item s - 1" "monitored_ptrs s = [list_head, list_tail]"
    using ht_v1D(8) [OF h] by (simp_all add: s1_def)
  have jlt: "j < 2 ^ unat ?pw" using bucket_of_less [OF C(6)] by (simp add: j_def)
  have pj: "p \<in> set (C j)"
  proof -
    obtain i where i: "i < 2 ^ unat ?pw" "p \<in> set (C i)" using p C(2) by (auto simp: ptrs_def)
    then show ?thesis using tbl_in_bucket [OF C(1) i] x by (simp add: in_bucket_def payload_def j_def)
  qed
  have b: "bucket hash ?pw (table s) (heap s) j (C j)" using C(1) jlt by (simp add: tbl_def)
  have "C j \<noteq> []" using pj by auto
  with b obtain qs where qs: "C j = Slot (table s) j # qs" "hchain (heap s) qs" "distinct qs"
    "Slot (table s) j \<notin> set qs" "\<forall>q \<in> set qs. is_Obj q" by (rule bucket_split)
  let ?slot = "Slot (table s) j"
  obtain y where y: "heap s ?slot = Some y" "\<not> OBJ_EMPTY y" "hash_next y = first_or qs NULL"
  proof -
    obtain y where "heap s ?slot = Some y" "OBJ_EMPTY y \<longleftrightarrow> C j = []" using b by (rule bucket_slot)
    moreover have "nexts (heap s) ?slot = Some (first_or qs NULL)" using b qs(1) by (simp add: bucket_def)
    ultimately show thesis using that qs(1) by (simp add: nexts_def)
  qed
  have l1: "linked s1 (P - {p}) xs" "stale s1 xs p"
    using l st by (simp_all add: linked_def stale_def s1)
  have run: "chained_hashtable_delete hash s p =
    (if p = ?slot then
       (if hash_next y \<noteq> NULL then
          rbind (move_obj_to_new_loc s1 ?slot (hash_next y)) (\<lambda>s. Inr (free_cache_obj (hash_next y) s))
        else rbind (delete_obj_in_table s1 ?slot) (\<lambda>s. Inr (s\<lparr>heap := (heap s)(?slot \<mapsto> zero_obj)\<rparr>)))
     else delete_in_chain (chain_bound s) s1 ?slot p)"
  proof -
    have ld: "load (heap s1) p = Inr x" "load (heap s1) ?slot = Inr y"
      using x y by (simp_all add: s1 load_Some)
    show ?thesis
      by (simp only: chained_hashtable_delete_def Let_def s1_def [symmetric] ld rbind_simps s1(3,4)
        j_def [symmetric] y(2) if_False)
  qed
  show ?thesis
  proof (cases "p = ?slot")
    case head: True
    show ?thesis
    proof (cases qs)
      case Nil
      have "delete_obj_in_table s1 ?slot = Inr s1"
        using delete_obj_in_table_stale [of s1 xs p] l1 s1 x(2) head by (simp add: linked_def)
      then have "chained_hashtable_delete hash s p =
          Inr (s\<lparr>n_cur_item := n_cur_item s - 1, heap := (heap s)(p \<mapsto> zero_obj)\<rparr>)"
        unfolding run using head y Nil by (simp add: s1_def)
      then show ?thesis
        using delete_alone [OF h C(1,2) jlt _ head l refl] qs(1) Nil head by auto
    next
      case (Cons q qs')
      then have "hash_next y = q" "q \<noteq> NULL" using y qs(2) by auto
      then have "chained_hashtable_delete hash s p =
          rbind (move_obj_to_new_loc (s\<lparr>n_cur_item := n_cur_item s - 1\<rparr>) p q) (\<lambda>s. Inr (free_cache_obj q s))"
        unfolding run using head by (simp add: s1_def)
      then show ?thesis
        using delete_head [OF h C(1,2) jlt _ head l, of q qs'] qs(1) Cons head by simp
    qed
  next
    case False
    with pj qs(1) obtain as a bs where sp: "C j = as @ a # p # bs"
      by (rule pred_obtain)
    have ap: "a \<in> P" using sp C(2) jlt by (auto simp: ptrs_def intro!: bexI [of _ j])
    obtain xa where xa: "heap s a = Some xa" using ht_v1_alloc [OF h ap] by auto
    have slot: "first_or (as @ [a]) NULL = ?slot" using sp qs(1) by (cases as) auto
    have dl: "delete_in_chain (chain_bound s) s1 (first_or (as @ [a]) NULL) p =
      Inr (s1\<lparr>heap := ((heap s1)(a \<mapsto> xa\<lparr>hash_next := hash_next x\<rparr>))(p := None)\<rparr>)"
    proof (rule delete_in_chain_correct)
      show "length as < chain_bound s" using length_chain_le [OF C(1) jlt, of P] C sp by simp
      show "delete_obj_in_table (s1\<lparr>heap := h\<rparr>) p = Inr (s1\<lparr>heap := h\<rparr>)"
        if "links h = links (heap s1)" for h
        using l1 that x(2) s1 by (intro delete_obj_in_table_stale) (auto simp: linked_def dll_def stale_def)
    qed (use b sp s1 xa x in \<open>auto simp: bucket_def\<close>)
    have "chained_hashtable_delete hash s p = Inr (s\<lparr>n_cur_item := n_cur_item s - 1,
        heap := ((heap s)(a \<mapsto> xa\<lparr>hash_next := hash_next x\<rparr>))(p := None)\<rparr>)"
      unfolding run using False dl [unfolded slot] by (simp add: s1_def del: delete_in_chain.simps)
    then show ?thesis using delete_inner [OF h C(1,2) jlt sp l xa x(1) refl] by blast
  qed
qed


section \<open>Creation, iteration, destruction, random choice\<close>

lemma create_chained_hashtable_correct:
  assumes e: "\<And>p. heap s p = None" "vars s = (\<lambda>_. NULL)" and pw: "unat pw \<le> 49"
    and s': "s' = chained_hashtable_add_ptr_to_monitoring (chained_hashtable_add_ptr_to_monitoring
      (create_chained_hashtable pw s) list_head) list_tail"
  shows "ht_v1 hash s' {} \<and> linked s' {} []"
proof -
  have sz: "unat (hashsize pw) = 2 ^ unat pw" using pw by (simp add: unat_hashsize)
  have hp: "heap s' p = (case p of Slot g i \<Rightarrow> if g = next_tbl s \<and> i < 2 ^ unat pw then Some zero_obj else None
      | _ \<Rightarrow> None)" for p
    using e(1) by (auto simp: s' chained_hashtable_add_ptr_to_monitoring_def create_chained_hashtable_def
      alloc_table_def sz split: ptr.splits)
  have sc: "hash_power s' = pw" "table s' = next_tbl s" "n_cur_item s' = 0" "next_tbl s' = Suc (next_tbl s)"
    "monitored_ptrs s' = [list_head, list_tail]" "vars s' = (\<lambda>_. NULL)"
    by (simp_all add: s' chained_hashtable_add_ptr_to_monitoring_def create_chained_hashtable_def
      alloc_table_def e(2))
  have "tbl hash pw (next_tbl s) (heap s') (\<lambda>_. [])" by (simp add: tbl_def bucket_def hp)
  moreover have "{} = ptrs pw (\<lambda>_. [])" by (simp add: ptrs_def)
  ultimately have "ht_v1 hash s' {}"
    using pw by (intro ht_v1I [where C = "\<lambda>_. []"]) (auto simp: sc hp ids_ok_def)
  then show ?thesis by (simp add: linked_def dll_def sc)
qed

lemma collect_chain_correct:
  "hchain h ps \<Longrightarrow> length ps < fuel \<Longrightarrow> collect_chain fuel h (first_or ps NULL) = Inr ps"
proof (induction ps arbitrary: fuel)
  case Nil
  then show ?case by (cases fuel) auto
next
  case (Cons p ps)
  then obtain f where "fuel = Suc f" by (cases fuel) auto
  with Cons show ?case by (auto simp: nexts_Some c_simps)
qed

lemma foreach_buckets_correct:
  assumes t: "tbl hash (hash_power s) (table s) (heap s) C" and "\<And>i. i \<in> set is \<Longrightarrow> i < 2 ^ unat (hash_power s)"
    and b: "\<And>i. i < 2 ^ unat (hash_power s) \<Longrightarrow> length (C i) < chain_bound s"
  shows "foreach_buckets s is = Inr (concat (map C is))"
  using assms(2)
proof (induction "is")
  case (Cons i "is")
  have i: "i < 2 ^ unat (hash_power s)" using Cons.prems by simp
  then have bk: "bucket hash (hash_power s) (table s) (heap s) i (C i)" using t by (simp add: tbl_def)
  then obtain y where y: "heap s (Slot (table s) i) = Some y" "OBJ_EMPTY y \<longleftrightarrow> C i = []"
    by (rule bucket_slot)
  have "collect_chain (chain_bound s) (heap s) (Slot (table s) i) = Inr (C i)" if "C i \<noteq> []"
    using collect_chain_correct [of "heap s" "C i" "chain_bound s"] b [OF i] bk bucket_hd [OF bk that] that
    by (cases "C i") (auto simp: bucket_def)
  then show ?case using Cons y by (cases "C i = []") (simp_all add: c_simps)
qed simp

text \<open>Every object is visited exactly once.\<close>

lemma chained_hashtable_foreach_correct:
  assumes h: "ht_v1 hash s P"
  shows "\<exists>ps. chained_hashtable_foreach s = Inr ps \<and> set ps = P \<and> distinct ps"
proof -
  obtain C where C: "tbl hash (hash_power s) (table s) (heap s) C" "P = ptrs (hash_power s) C"
    "finite P" "NULL \<notin> P" "unat (n_cur_item s) = card P" "unat (hash_power s) < 64"
    using h by (rule ht_v1_obtain)
  let ?ps = "concat (map C [0 ..< 2 ^ unat (hash_power s)])"
  have len: "length (C i) < chain_bound s" if "i < 2 ^ unat (hash_power s)" for i
    using length_chain_le [OF C(1) that, of P] C by simp
  have run: "chained_hashtable_foreach s = Inr ?ps"
    using foreach_buckets_correct [OF C(1) _ len, of "[0 ..< 2 ^ unat (hash_power s)]"]
    by (simp add: chained_hashtable_foreach_def unat_hashsize C(6))
  have set: "set ?ps = P" by (auto simp: C(2) ptrs_def)
  have "distinct (concat (map C is))" if "distinct is" "set is \<subseteq> {..< 2 ^ unat (hash_power s)}" for "is"
    using that
  proof (induction "is")
    case (Cons i "is")
    have "distinct (C i)" using C(1) Cons.prems(2) by (auto simp: tbl_def bucket_def)
    moreover have "set (C i) \<inter> set (C k) = {}" if "k \<in> set is" for k
      using tbl_bucket_unique [OF C(1), of i k] Cons.prems that by auto
    ultimately show ?case using Cons by auto
  qed simp
  from this [of "[0 ..< 2 ^ unat (hash_power s)]"] have "distinct ?ps"
    by (simp add: atLeast0LessThan)
  with run set show ?thesis by blast
qed

lemma fold_free:
  "fold free_cache_obj ps s = s\<lparr>heap := (\<lambda>p. if p \<in> set ps then None else heap s p)\<rparr>"
  by (induction ps arbitrary: s) (auto simp: free_cache_obj_def fun_eq_iff intro!: arg_cong [where f = "\<lambda>h. _\<lparr>heap := h\<rparr>"])

text \<open>Destroying the table releases everything.\<close>

lemma free_chained_hashtable_correct:
  assumes h: "ht_v1 hash s P"
  shows "\<exists>s'. free_chained_hashtable s = Inr s' \<and> (\<forall>p. p \<noteq> NULL \<longrightarrow> heap s' p = None)"
proof -
  obtain ps where ps: "chained_hashtable_foreach s = Inr ps" "set ps = P"
    using chained_hashtable_foreach_correct [OF h] by blast
  let ?s' = "free_table (table s) (fold free_cache_obj (filter is_Obj ps) s)"
  have "heap ?s' p = None" if "p \<noteq> NULL" for p
  proof (cases p)
    case (Obj n)
    then show ?thesis using ht_v1D(5) [OF h, of n] ps(2)
      by (cases "heap s p") (auto simp: free_table_def fold_free)
  next
    case (Slot g i)
    then show ?thesis using ht_v1D(6) [OF h, of g i] by (auto simp: free_table_def fold_free)
  qed (use that in simp)
  then show ?thesis using ps(1) by (simp add: free_chained_hashtable_def)
qed


text \<open>From any position of a table that is not empty, the search for a slot in use ends at one.\<close>

lemma next_pos:
  assumes "unat pw < 64" "unat pos < 2 ^ unat pw"
  shows "unat ((pos + 1) AND hashmask pw) = (unat pos + 1) mod 2 ^ unat pw"
proof -
  have "unat ((pos + 1) AND hashmask pw) = unat (pos + 1) mod 2 ^ unat pw"
    by (simp add: hashmask_mask unsigned_take_bit_eq flip: take_bit_eq_mask take_bit_eq_mod)
  also have "unat (pos + 1) = (unat pos + 1) mod 2 ^ 64" by (simp add: unat_word_ariths)
  also have "\<dots> mod 2 ^ unat pw = (unat pos + 1) mod 2 ^ unat pw"
    using assms(1) by (intro mod_mod_cancel le_imp_power_dvd) simp
  finally show ?thesis .
qed

lemma next_used_slot_correct:
  assumes t: "tbl hash (hash_power s) (table s) (heap s) C" and pw: "unat (hash_power s) < 64"
    and "unat pos < 2 ^ unat (hash_power s)" "k < fuel" "C ((unat pos + k) mod 2 ^ unat (hash_power s)) \<noteq> []"
  shows "\<exists>p. next_used_slot fuel s pos = Inr p \<and> p \<in> ptrs (hash_power s) C"
  using assms(3-)
proof (induction k arbitrary: pos fuel)
  case (0 pos)
  then obtain f where f: "fuel = Suc f" by (cases fuel) auto
  have b: "bucket hash (hash_power s) (table s) (heap s) (unat pos) (C (unat pos))"
    using t 0 by (simp add: tbl_def)
  then obtain y where y: "heap s (Slot (table s) (unat pos)) = Some y" "OBJ_EMPTY y \<longleftrightarrow> C (unat pos) = []"
    by (rule bucket_slot)
  have "C (unat pos) \<noteq> []" using 0 by simp
  moreover have "Slot (table s) (unat pos) \<in> ptrs (hash_power s) C"
    using bucket_hd [OF b calculation] hd_in_set [OF calculation] 0(1) by (auto simp: ptrs_def)
  ultimately show ?case using y by (simp add: f c_simps)
next
  case (Suc k pos)
  then obtain f where f: "fuel = Suc f" by (cases fuel) auto
  let ?n = "2 ^ unat (hash_power s) :: nat" and ?next = "(pos + 1) AND hashmask (hash_power s)"
  have b: "bucket hash (hash_power s) (table s) (heap s) (unat pos) (C (unat pos))"
    using t Suc.prems by (simp add: tbl_def)
  then obtain y where y: "heap s (Slot (table s) (unat pos)) = Some y" "OBJ_EMPTY y \<longleftrightarrow> C (unat pos) = []"
    by (rule bucket_slot)
  show ?case
  proof (cases "C (unat pos) = []")
    case True
    have n: "unat ?next = (unat pos + 1) mod ?n" using next_pos [OF pw Suc.prems(1)] .
    have "(unat ?next + k) mod ?n = (unat pos + Suc k) mod ?n" by (simp add: n mod_simps)
    then have "\<exists>p. next_used_slot f s ?next = Inr p \<and> p \<in> ptrs (hash_power s) C"
      using Suc.prems f n by (intro Suc.IH) auto
    then show ?thesis using y True by (simp add: f c_simps)
  next
    case False
    then have "Slot (table s) (unat pos) \<in> ptrs (hash_power s) C"
      using bucket_hd [OF b False] hd_in_set [OF False] Suc.prems(1) by (auto simp: ptrs_def)
    then show ?thesis using y False by (simp add: f c_simps)
  qed
qed

lemma chained_hashtable_rand_obj_correct:
  assumes h: "ht_v1 hash s P" and ne: "P \<noteq> {}"
  shows "\<exists>p. chained_hashtable_rand_obj s = Inr (p, s\<lparr>rand_seed := next_rand (rand_seed s)\<rparr>) \<and> p \<in> P"
proof -
  let ?s = "s\<lparr>rand_seed := next_rand (rand_seed s)\<rparr>"
  obtain C where C: "tbl hash (hash_power s) (table s) (heap s) C" "P = ptrs (hash_power s) C"
    "unat (hash_power s) < 64" using h by (rule ht_v1_obtain)
  let ?n = "2 ^ unat (hash_power s) :: nat" and ?pos = "rand_seed ?s AND hashmask (hash_power s)"
  have pos: "unat ?pos < ?n"
    using bucket_of_less [OF C(3), of "\<lambda>_. rand_seed ?s" 0] by (simp add: bucket_of_def)
  obtain i where i: "i < ?n" "C i \<noteq> []" using ne C(2) by (auto simp: ptrs_def)
  let ?k = "(i + ?n - unat ?pos) mod ?n"
  have "(unat ?pos + ?k) mod ?n = (unat ?pos + (i + ?n - unat ?pos)) mod ?n" by (simp add: mod_simps)
  also have "unat ?pos + (i + ?n - unat ?pos) = i + ?n" using pos by simp
  finally have "C ((unat ?pos + ?k) mod ?n) \<noteq> []" using i by simp
  then have "\<exists>p. next_used_slot ?n ?s ?pos = Inr p \<and> p \<in> ptrs (hash_power s) C"
    using next_used_slot_correct [of hash ?s C ?pos ?k ?n] C(1,3) pos by simp
  then show ?thesis
    by (auto simp: chained_hashtable_rand_obj_def Let_def C(2,3) unat_hashsize)
qed

end
