(* ===== verification/ChainedHashtableV2.thy ===== *)
theory ChainedHashtableV2
  imports ChainedHashtable
begin

text \<open>
  \<^verbatim>\<open>dataStructure/hashtable/chainedHashTableV2.c\<close>, the table of \<^verbatim>\<open>HASHTABLE_VER 2\<close>: an array of
  pointers to chains of objects that are all allocated on their own, so objects never move.
  \<open>ptr_table\<close> maps the indices of the array to the pointers stored there.
\<close>

section \<open>Operations\<close>

text \<open>The walk to the last object of a chain in \<^verbatim>\<open>add_to_bucket\<close>.\<close>

fun last_in_chain_v2 :: "nat \<Rightarrow> heap \<Rightarrow> ptr \<Rightarrow> ptr result" where
  "last_in_chain_v2 0 h cur_ptr = Inl Diverges"
| "last_in_chain_v2 (Suc fuel) h cur_ptr =
    rbind (load h cur_ptr) (\<lambda>x.
    if hash_next x \<noteq> NULL then last_in_chain_v2 fuel h (hash_next x) else Inr cur_ptr)"

definition add_to_bucket :: "(obj_id_t \<Rightarrow> u64) \<Rightarrow> hashtable_t \<Rightarrow> ptr \<Rightarrow> hashtable_t result" where
  "add_to_bucket hash s cache_obj =
    rbind (load (heap s) cache_obj) (\<lambda>x.
    let i = bucket_of hash (hash_power s) (o_id x) in
    if ptr_table s i = NULL then Inr (s\<lparr>ptr_table := (ptr_table s)(i := cache_obj)\<rparr>)
    else
      rbind (last_in_chain_v2 (chain_bound s) (heap s) (ptr_table s i)) (\<lambda>cur_ptr.
      set_hash_next cur_ptr cache_obj s))"

definition create_chained_hashtable_v2 :: "u16 \<Rightarrow> hashtable_t \<Rightarrow> hashtable_t" where
  "create_chained_hashtable_v2 pw s = s\<lparr>ptr_table := (\<lambda>_. NULL), hash_power := pw, n_cur_item := 0\<rparr>"

fun find_in_chain_v2 :: "nat \<Rightarrow> heap \<Rightarrow> ptr \<Rightarrow> obj_id_t \<Rightarrow> ptr result" where
  "find_in_chain_v2 0 h cache_obj obj_id = Inl Diverges"
| "find_in_chain_v2 (Suc fuel) h cache_obj obj_id =
    (if cache_obj = NULL then Inr cache_obj
     else rbind (load h cache_obj) (\<lambda>x.
       if o_id x = obj_id then Inr cache_obj
       else find_in_chain_v2 fuel h (hash_next x) obj_id))"

definition chained_hashtable_find_obj_id_v2 ::
  "(obj_id_t \<Rightarrow> u64) \<Rightarrow> hashtable_t \<Rightarrow> obj_id_t \<Rightarrow> ptr result" where
  "chained_hashtable_find_obj_id_v2 hash s obj_id =
    find_in_chain_v2 (chain_bound s) (heap s)
      (ptr_table s (bucket_of hash (hash_power s) obj_id)) obj_id"

definition chained_hashtable_find_v2 ::
  "(obj_id_t \<Rightarrow> u64) \<Rightarrow> hashtable_t \<Rightarrow> request_t \<Rightarrow> (ptr \<times> request_t \<times> hashtable_t) result" where
  "chained_hashtable_find_v2 hash s req =
    rbind (chained_hashtable_find_obj_id_v2 hash s (obj_id_int req)) (\<lambda>p. Inr (p, req, s))"

definition chained_hashtable_find_obj_v2 ::
  "(obj_id_t \<Rightarrow> u64) \<Rightarrow> hashtable_t \<Rightarrow> ptr \<Rightarrow> (ptr \<times> hashtable_t) result" where
  "chained_hashtable_find_obj_v2 hash s obj_to_find =
    rbind (load (heap s) obj_to_find) (\<lambda>x.
    rbind (chained_hashtable_find_obj_id_v2 hash s (o_id x)) (\<lambda>p. Inr (p, s)))"

fun rehash_chain_v2 ::
  "nat \<Rightarrow> (obj_id_t \<Rightarrow> u64) \<Rightarrow> hashtable_t \<Rightarrow> ptr \<Rightarrow> hashtable_t result" where
  "rehash_chain_v2 0 hash s cur_obj = Inl Diverges"
| "rehash_chain_v2 (Suc fuel) hash s cur_obj =
    (if cur_obj = NULL then Inr s
     else rbind (load (heap s) cur_obj) (\<lambda>x.
       rbind (set_hash_next cur_obj NULL s) (\<lambda>s.
       rbind (add_to_bucket hash s cur_obj) (\<lambda>s.
       rehash_chain_v2 fuel hash s (hash_next x)))))"

fun rehash_buckets_v2 ::
  "(obj_id_t \<Rightarrow> u64) \<Rightarrow> (nat \<Rightarrow> ptr) \<Rightarrow> nat list \<Rightarrow> hashtable_t \<Rightarrow> hashtable_t result" where
  "rehash_buckets_v2 hash old_table [] s = Inr s"
| "rehash_buckets_v2 hash old_table (i # is) s =
    rbind (rehash_chain_v2 (chain_bound s) hash s (old_table i)) (\<lambda>s.
    rehash_buckets_v2 hash old_table is s)"

definition chained_hashtable_expand_v2 ::
  "(obj_id_t \<Rightarrow> u64) \<Rightarrow> hashtable_t \<Rightarrow> hashtable_t result" where
  "chained_hashtable_expand_v2 hash s =
    (let old_table = ptr_table s;
         s = s\<lparr>hash_power := hash_power s + 1, ptr_table := (\<lambda>_. NULL)\<rparr>
     in rehash_buckets_v2 hash old_table [0 ..< unat (hashsize (hash_power s - 1))] s)"

definition chained_hashtable_insert_v2 ::
  "(obj_id_t \<Rightarrow> u64) \<Rightarrow> hashtable_t \<Rightarrow> request_t \<Rightarrow> (ptr \<times> hashtable_t) result" where
  "chained_hashtable_insert_v2 hash s req =
    rbind (if n_cur_item s > expand_limit (hash_power s) then chained_hashtable_expand_v2 hash s
           else Inr s) (\<lambda>s.
    case create_cache_obj_from_request (Some req) s of (new_cache_obj, s) \<Rightarrow>
    rbind (add_to_bucket hash s new_cache_obj) (\<lambda>s.
    Inr (new_cache_obj, s\<lparr>n_cur_item := n_cur_item s + 1\<rparr>)))"

text \<open>The walk of the deletion reads \<^verbatim>\<open>cur_obj->hash_next\<close> before it tests \<^verbatim>\<open>cur_obj\<close>.\<close>

fun prev_in_chain_v2 :: "nat \<Rightarrow> heap \<Rightarrow> ptr \<Rightarrow> ptr \<Rightarrow> ptr result" where
  "prev_in_chain_v2 0 h cur_obj cache_obj = Inl Diverges"
| "prev_in_chain_v2 (Suc fuel) h cur_obj cache_obj =
    rbind (load h cur_obj) (\<lambda>x.
    if hash_next x \<noteq> cache_obj then prev_in_chain_v2 fuel h (hash_next x) cache_obj
    else Inr cur_obj)"

text \<open>Deleting the first object of a bucket returns without freeing it.\<close>

definition chained_hashtable_delete_v2 ::
  "(obj_id_t \<Rightarrow> u64) \<Rightarrow> hashtable_t \<Rightarrow> ptr \<Rightarrow> hashtable_t result" where
  "chained_hashtable_delete_v2 hash s cache_obj =
    (let bound = chain_bound s; s = s\<lparr>n_cur_item := n_cur_item s - 1\<rparr> in
     rbind (load (heap s) cache_obj) (\<lambda>x.
     let i = bucket_of hash (hash_power s) (o_id x) in
     if ptr_table s i = cache_obj then Inr (s\<lparr>ptr_table := (ptr_table s)(i := hash_next x)\<rparr>)
     else
       rbind (prev_in_chain_v2 bound (heap s) (ptr_table s i) cache_obj) (\<lambda>cur_obj.
       rbind (set_hash_next cur_obj (hash_next x) s) (\<lambda>s.
       Inr (free_cache_obj cache_obj s)))))"

fun foreach_buckets_v2 :: "hashtable_t \<Rightarrow> nat list \<Rightarrow> ptr list result" where
  "foreach_buckets_v2 s [] = Inr []"
| "foreach_buckets_v2 s (i # is) =
    rbind (collect_chain (chain_bound s) (heap s) (ptr_table s i)) (\<lambda>ps.
    rbind (foreach_buckets_v2 s is) (\<lambda>qs. Inr (ps @ qs)))"

definition chained_hashtable_foreach_v2 :: "hashtable_t \<Rightarrow> ptr list result" where
  "chained_hashtable_foreach_v2 s = foreach_buckets_v2 s [0 ..< unat (hashsize (hash_power s))]"

definition free_chained_hashtable_v2 :: "hashtable_t \<Rightarrow> hashtable_t result" where
  "free_chained_hashtable_v2 s =
    rbind (chained_hashtable_foreach_v2 s) (\<lambda>ps. Inr (fold free_cache_obj ps s))"

section \<open>The table invariant\<close>

definition bucket_v2 :: "(obj_id_t \<Rightarrow> u64) \<Rightarrow> u16 \<Rightarrow> heap \<Rightarrow> nat \<Rightarrow> ptr list \<Rightarrow> bool" where
  "bucket_v2 hash pw h i ps \<longleftrightarrow> (\<forall>q \<in> set ps. is_Obj q) \<and> hchain h ps \<and> distinct ps \<and>
    (\<forall>q \<in> set ps. in_bucket hash pw h i q)"

definition tbl_v2 ::
  "(obj_id_t \<Rightarrow> u64) \<Rightarrow> u16 \<Rightarrow> (nat \<Rightarrow> ptr) \<Rightarrow> heap \<Rightarrow> (nat \<Rightarrow> ptr list) \<Rightarrow> bool" where
  "tbl_v2 hash pw T h C \<longleftrightarrow>
    (\<forall>i < 2 ^ unat pw. T i = first_or (C i) NULL \<and> bucket_v2 hash pw h i (C i))"

text \<open>The table holds exactly the objects at \<open>P\<close>; objects that were deleted as the first of their
  bucket stay allocated.\<close>

definition ht_v2 :: "(obj_id_t \<Rightarrow> u64) \<Rightarrow> hashtable_t \<Rightarrow> ptr set \<Rightarrow> bool" where
  "ht_v2 hash s P \<longleftrightarrow>
    (\<exists>C. tbl_v2 hash (hash_power s) (ptr_table s) (heap s) C \<and> P = ptrs (hash_power s) C) \<and>
    ids_ok (heap s) P \<and> n_cur_item s = of_nat (card P) \<and> card P \<le> 2 ^ 48 \<and>
    unat (hash_power s) \<le> 49 \<and> (\<forall>n. heap s (Obj n) \<noteq> None \<longrightarrow> n < next_obj s)"


section \<open>Chains\<close>

text \<open>The two states differ only in the chains: the pointer table and the \<^verbatim>\<open>hash_next\<close> fields.\<close>

definition body :: "heap \<Rightarrow> heap" where
  "body h p = map_option (\<lambda>x. x\<lparr>hash_next := NULL\<rparr>) (h p)"

definition rechained :: "hashtable_t \<Rightarrow> hashtable_t \<Rightarrow> bool" where
  "rechained s s' \<longleftrightarrow> hash_power s' = hash_power s \<and> n_cur_item s' = n_cur_item s \<and>
    vars s' = vars s \<and> next_obj s' = next_obj s \<and> body (heap s') = body (heap s)"

lemma rechained_refl [simp]: "rechained s s"
  by (simp add: rechained_def)

lemma rechained_trans: "rechained s s' \<Longrightarrow> rechained s' s'' \<Longrightarrow> rechained s s''"
  by (simp add: rechained_def)

lemma body_eqD:
  assumes "body h' = body h"
  shows "payload h' p = payload h p" "links h' p = links h p" "h' p = None \<longleftrightarrow> h p = None"
proof -
  have b: "map_option (\<lambda>x. x\<lparr>hash_next := NULL\<rparr>) (h' p) = map_option (\<lambda>x. x\<lparr>hash_next := NULL\<rparr>) (h p)"
    using assms by (metis body_def)
  then show "h' p = None \<longleftrightarrow> h p = None" by (metis option.map_disc_iff)
  show "payload h' p = payload h p"
  proof (cases "h p")
    case None
    then show ?thesis using b by (simp add: payload_def)
  next
    case (Some x)
    then obtain y where y: "h' p = Some y" "y\<lparr>hash_next := NULL\<rparr> = x\<lparr>hash_next := NULL\<rparr>" using b by auto
    show ?thesis using Some y(1) arg_cong [OF y(2), of o_id] arg_cong [OF y(2), of o_size]
      by (simp add: payload_def)
  qed
  show "links h' p = links h p"
  proof (cases "h p")
    case None
    then show ?thesis using b by (simp add: links_def)
  next
    case (Some x)
    then obtain y where y: "h' p = Some y" "y\<lparr>hash_next := NULL\<rparr> = x\<lparr>hash_next := NULL\<rparr>" using b by auto
    show ?thesis using Some y(1) arg_cong [OF y(2), of list_prev] arg_cong [OF y(2), of list_next]
      by (simp add: links_def)
  qed
qed

lemma in_bucket_body: "body h' = body h \<Longrightarrow> in_bucket hash pw h' i q \<longleftrightarrow> in_bucket hash pw h i q"
  using body_eqD(1) [of h' h q] by (simp add: in_bucket_def)

lemma tbl_v2_in_bucket:
  "tbl_v2 hash pw T h C \<Longrightarrow> i < 2 ^ unat pw \<Longrightarrow> p \<in> set (C i) \<Longrightarrow> in_bucket hash pw h i p"
  by (simp add: tbl_v2_def bucket_v2_def)

lemma tbl_v2_unique:
  "tbl_v2 hash pw T h C \<Longrightarrow> i < 2 ^ unat pw \<Longrightarrow> j < 2 ^ unat pw \<Longrightarrow> p \<in> set (C i) \<Longrightarrow> p \<in> set (C j) \<Longrightarrow> i = j"
  by (metis tbl_v2_in_bucket in_bucket_def)

lemma tbl_v2_length:
  assumes "tbl_v2 hash pw T h C" "i < 2 ^ unat pw"
  shows "length (C i) \<le> card (ptrs pw C)"
proof -
  have "length (C i) = card (set (C i))"
    using assms by (auto simp: tbl_v2_def bucket_v2_def distinct_card)
  also have "\<dots> \<le> card (ptrs pw C)" using assms(2) by (intro card_mono) (auto simp: ptrs_def)
  finally show ?thesis .
qed

text \<open>Replacing the chain of one bucket.\<close>

lemma tbl_v2_replace:
  assumes t: "tbl_v2 hash pw T h C" and j: "j < 2 ^ unat pw" and b: "bucket_v2 hash pw h' j ps"
    and T: "T' j = first_or ps NULL" "\<And>i. i \<noteq> j \<Longrightarrow> T' i = T i"
    and fr: "\<And>r. r \<in> ptrs pw C \<Longrightarrow> r \<notin> set (C j) \<Longrightarrow> core h' r = core h r"
  shows "tbl_v2 hash pw T' h' (C(j := ps))"
proof -
  have "T' i = first_or (C i) NULL \<and> bucket_v2 hash pw h' i (C i)" if i: "i < 2 ^ unat pw" "i \<noteq> j" for i
  proof -
    have f: "core h' r = core h r" if "r \<in> set (C i)" for r
      using that i tbl_v2_unique [OF t i(1) j that] by (intro fr) (auto simp: ptrs_def)
    have "bucket_v2 hash pw h i (C i)" "T i = first_or (C i) NULL" using t i(1) by (auto simp: tbl_v2_def)
    then show ?thesis
      using T(2) [OF i(2)] hchain_core [of "C i" h' h, OF f] in_bucket_core [OF f]
      by (simp add: bucket_v2_def)
  qed
  with b T(1) show ?thesis by (simp add: tbl_v2_def)
qed

lemma last_in_chain_v2_correct:
  "hchain h ps \<Longrightarrow> ps \<noteq> [] \<Longrightarrow> length ps \<le> fuel \<Longrightarrow> last_in_chain_v2 fuel h (first_or ps NULL) = Inr (last ps)"
proof (induction ps arbitrary: fuel)
  case (Cons p ps)
  then obtain f where f: "fuel = Suc f" by (cases fuel) auto
  show ?case
  proof (cases ps)
    case (Cons p' ps')
    then have "p' \<noteq> NULL" using Cons.prems(1) by simp
    with Cons Cons.prems Cons.IH [of f] show ?thesis by (auto simp: f nexts_Some c_simps)
  qed (use Cons.prems in \<open>auto simp: f nexts_Some c_simps\<close>)
qed simp

declare last_in_chain_v2.simps [simp del]

lemma add_to_bucket_correct:
  assumes t: "tbl_v2 hash (hash_power s) (ptr_table s) (heap s) C" and pw: "unat (hash_power s) < 64"
    and q: "q \<notin> ptrs (hash_power s) C" "is_Obj q" "heap s q = Some z" "hash_next z = NULL" "o_size z \<noteq> 0"
    and n: "card (ptrs (hash_power s) C) \<le> chain_bound s"
  shows "\<exists>s' C'. add_to_bucket hash s q = Inr s' \<and>
    tbl_v2 hash (hash_power s) (ptr_table s') (heap s') C' \<and>
    ptrs (hash_power s) C' = insert q (ptrs (hash_power s) C) \<and> rechained s s' \<and>
    (\<forall>r. r \<notin> ptrs (hash_power s) C \<longrightarrow> heap s' r = heap s r)"
proof -
  let ?pw = "hash_power s"
  define j where "j = bucket_of hash ?pw (o_id z)"
  have j: "j < 2 ^ unat ?pw" using bucket_of_less [OF pw] by (simp add: j_def)
  have b: "bucket_v2 hash ?pw (heap s) j (C j)" "ptr_table s j = first_or (C j) NULL"
    using t j by (auto simp: tbl_v2_def)
  have qN: "q \<noteq> NULL" "q \<notin> set (C j)" using q(1,2) j by (auto simp: ptrs_def)
  have inq: "in_bucket hash ?pw (heap s) j q" using q by (simp add: in_bucket_def payload_def j_def)
  note pt = ptrs_append [OF j, of C q]
  show ?thesis
  proof (cases "C j = []")
    case True
    let ?s' = "s\<lparr>ptr_table := (ptr_table s)(j := q)\<rparr>"
    have "add_to_bucket hash s q = Inr ?s'"
      using q qN True b by (simp add: add_to_bucket_def c_simps Let_def flip: j_def)
    moreover have "tbl_v2 hash ?pw (ptr_table ?s') (heap ?s') (C(j := C j @ [q]))"
      using True q qN inq by (intro tbl_v2_replace [OF t j]) (auto simp: bucket_v2_def nexts_def)
    ultimately show ?thesis using pt by (intro exI [of _ ?s'] exI [of _ "C(j := C j @ [q])"]) (simp add: rechained_def)
  next
    case False
    let ?l = "last (C j)"
    have l: "?l \<in> set (C j)" using False by simp
    have lP: "?l \<in> ptrs ?pw C" using l j by (auto simp: ptrs_def)
    have "hchain (heap s) (C j)" using b(1) by (simp add: bucket_v2_def)
    then obtain xl where xl: "heap s ?l = Some xl" using hchain_mem [OF _ l] by blast
    have lN: "?l \<noteq> NULL" "first_or (C j) NULL \<noteq> NULL" "?l \<noteq> q"
      using b(1) l hchain_NULL qN(2) False by (auto simp: bucket_v2_def) (cases "C j"; auto)+
    let ?h = "(heap s)(?l \<mapsto> xl\<lparr>hash_next := q\<rparr>)"
    have "last_in_chain_v2 (chain_bound s) (heap s) (ptr_table s j) = Inr ?l"
      using last_in_chain_v2_correct [of "heap s" "C j" "chain_bound s"] b False n tbl_v2_length [OF t j]
      by (simp add: bucket_v2_def)
    then have run: "add_to_bucket hash s q = Inr (s\<lparr>heap := ?h\<rparr>)"
      using q qN lN xl b(2) by (simp add: add_to_bucket_def c_simps Let_def set_hash_next_Some flip: j_def)
    have bd: "body ?h = body (heap s)" using xl by (auto simp: body_def fun_eq_iff)
    have "hchain ?h (C j @ [q])"
    proof (rule hchain_snoc [of "heap s"])
      show "core ?h r = core (heap s) r" if "r \<in> set (butlast (C j))" for r
      proof -
        have "distinct (butlast (C j) @ [?l])" using b(1) False by (simp add: bucket_v2_def)
        then show ?thesis using that by auto
      qed
    qed (use b q qN lN in \<open>auto simp: bucket_v2_def nexts_def\<close>)
    then have "bucket_v2 hash ?pw ?h j (C j @ [q])"
      using b(1) q(2) qN(2) inq in_bucket_body [OF bd] by (auto simp: bucket_v2_def)
    then have "tbl_v2 hash ?pw (ptr_table s) ?h (C(j := C j @ [q]))"
    proof (rule tbl_v2_replace [OF t j])
      show "ptr_table s j = first_or (C j @ [q]) NULL" using b(2) False by (cases "C j") auto
    qed (use l in auto)
    then show ?thesis using run pt bd lP
      by (intro exI [of _ "s\<lparr>heap := ?h\<rparr>"] exI [of _ "C(j := C j @ [q])"]) (auto simp: rechained_def)
  qed
qed


section \<open>Growing the table\<close>

lemma rehash_chain_v2_correct:
  assumes "tbl_v2 hash (hash_power s) (ptr_table s) (heap s) C" "unat (hash_power s) < 64"
    "hchain (heap s) ps" "distinct ps" "set ps \<inter> ptrs (hash_power s) C = {}"
    "\<forall>p \<in> set ps. is_Obj p \<and> (\<exists>x. heap s p = Some x \<and> o_size x \<noteq> 0)"
    "length ps < fuel" "card (ptrs (hash_power s) C) + length ps \<le> chain_bound s"
  shows "\<exists>s' C'. rehash_chain_v2 fuel hash s (first_or ps NULL) = Inr s' \<and>
    tbl_v2 hash (hash_power s) (ptr_table s') (heap s') C' \<and>
    ptrs (hash_power s) C' = ptrs (hash_power s) C \<union> set ps \<and> rechained s s' \<and>
    (\<forall>r. r \<notin> ptrs (hash_power s) C \<union> set ps \<longrightarrow> heap s' r = heap s r)"
  using assms
proof (induction ps arbitrary: s C fuel)
  case Nil
  then obtain f where "fuel = Suc f" by (cases fuel) auto
  with Nil show ?case by (auto intro!: exI [of _ C])
next
  case (Cons p ps)
  obtain f where f: "fuel = Suc f" using Cons.prems(7) by (cases fuel) auto
  let ?pw = "hash_power s"
  obtain x where x: "heap s p = Some x" "o_size x \<noteq> 0" "is_Obj p" "p \<noteq> NULL" "hash_next x = first_or ps NULL"
    using Cons.prems(3,6) by (auto simp: nexts_Some)
  define s1 where "s1 = s\<lparr>heap := (heap s)(p \<mapsto> x\<lparr>hash_next := NULL\<rparr>)\<rparr>"
  have pC: "p \<notin> ptrs ?pw C" using Cons.prems(5) by auto
  have rc: "rechained s s1" using x(1) by (auto simp: rechained_def s1_def body_def fun_eq_iff)
  have t1: "tbl_v2 hash (hash_power s1) (ptr_table s1) (heap s1) C"
  proof -
    have "hchain (heap s1) (C i)" if i: "i < 2 ^ unat ?pw" for i
    proof -
      have "core (heap s1) r = core (heap s) r" if "r \<in> set (C i)" for r
        using that pC i by (auto simp: s1_def ptrs_def)
      then show ?thesis
        using Cons.prems(1) i hchain_core [of "C i" "heap s1" "heap s"]
        by (simp add: tbl_v2_def bucket_v2_def)
    qed
    then show ?thesis using Cons.prems(1) in_bucket_body [of "heap s1" "heap s"] rc
      by (auto simp: tbl_v2_def bucket_v2_def s1_def rechained_def)
  qed
  obtain s2 C2 where s2: "add_to_bucket hash s1 p = Inr s2"
    "tbl_v2 hash ?pw (ptr_table s2) (heap s2) C2"
    "ptrs ?pw C2 = insert p (ptrs ?pw C)" "rechained s1 s2"
    "\<forall>r. r \<notin> ptrs ?pw C \<longrightarrow> heap s2 r = heap s1 r"
    using add_to_bucket_correct [OF t1, of p "x\<lparr>hash_next := NULL\<rparr>"] x pC Cons.prems(2,8)
    by (auto simp: s1_def)
  have pw2: "hash_power s2 = ?pw" "n_cur_item s2 = n_cur_item s" using s2(4) by (simp_all add: rechained_def s1_def)
  have out: "heap s2 r = heap s r" if "r \<notin> insert p (ptrs ?pw C)" for r
    using s2(5) that by (simp add: s1_def)
  have ps: "r \<notin> insert p (ptrs ?pw C)" if "r \<in> set ps" for r using Cons.prems(4,5) that by auto
  have "\<exists>s' C'. rehash_chain_v2 f hash s2 (first_or ps NULL) = Inr s' \<and>
    tbl_v2 hash (hash_power s2) (ptr_table s') (heap s') C' \<and>
    ptrs (hash_power s2) C' = ptrs (hash_power s2) C2 \<union> set ps \<and> rechained s2 s' \<and>
    (\<forall>r. r \<notin> ptrs (hash_power s2) C2 \<union> set ps \<longrightarrow> heap s' r = heap s2 r)"
  proof (rule Cons.IH)
    show "hchain (heap s2) ps"
      using Cons.prems(3) hchain_core [of ps "heap s2" "heap s"] out ps by (simp add: core_def)
    show "\<forall>p \<in> set ps. is_Obj p \<and> (\<exists>x. heap s2 p = Some x \<and> o_size x \<noteq> 0)"
      using Cons.prems(6) out ps by simp
  qed (use Cons.prems s2 pw2 f ps pC in \<open>auto simp: card_insert_if\<close>)
  then obtain s' C' where s': "rehash_chain_v2 f hash s2 (first_or ps NULL) = Inr s'"
    "tbl_v2 hash ?pw (ptr_table s') (heap s') C'" "ptrs ?pw C' = ptrs ?pw C2 \<union> set ps" "rechained s2 s'"
    "\<forall>r. r \<notin> ptrs ?pw C2 \<union> set ps \<longrightarrow> heap s' r = heap s2 r" unfolding pw2 by blast
  have "rehash_chain_v2 fuel hash s (first_or (p # ps) NULL) = Inr s'"
    using x s2(1) s'(1) by (simp add: f c_simps set_hash_next_Some s1_def)
  moreover have "rechained s s'" using rechained_trans [OF rechained_trans [OF rc s2(4)] s'(4)] .
  ultimately show ?case using s'(2,3,5) s2(3) out by (intro exI [of _ s'] exI [of _ C']) auto
qed

declare rehash_chain_v2.simps [simp del]

lemma rehash_buckets_v2_correct:
  assumes "tbl_v2 hash (hash_power s) (ptr_table s) (heap s) C" "unat (hash_power s) < 64"
    "\<forall>i \<in> set is. T i = first_or (D i) NULL \<and> bucket_v2 hash opw (heap s) i (D i)" "distinct is"
    "(\<Union>i \<in> set is. set (D i)) \<inter> ptrs (hash_power s) C = {}"
    "\<forall>i \<in> set is. \<forall>p \<in> set (D i). \<exists>x. heap s p = Some x \<and> o_size x \<noteq> 0"
    "card (ptrs (hash_power s) C) + card (\<Union>i \<in> set is. set (D i)) \<le> unat (n_cur_item s)"
  shows "\<exists>s' C'. rehash_buckets_v2 hash T is s = Inr s' \<and>
    tbl_v2 hash (hash_power s) (ptr_table s') (heap s') C' \<and>
    ptrs (hash_power s) C' = ptrs (hash_power s) C \<union> (\<Union>i \<in> set is. set (D i)) \<and> rechained s s'"
  using assms
proof (induction "is" arbitrary: s C)
  case Nil
  then show ?case by (auto intro!: exI [of _ C])
next
  case (Cons i "is")
  let ?pw = "hash_power s" and ?R = "\<Union>i \<in> set is. set (D i)"
  have b: "bucket_v2 hash opw (heap s) k (D k)" if "k \<in> set (i # is)" for k using Cons.prems(3) that by auto
  have dj: "set (D i) \<inter> ?R = {}"
  proof -
    have "k = i" if "q \<in> set (D i)" "q \<in> set (D k)" "k \<in> set is" for q k
      using b [of i] b [of k] that by (auto simp: bucket_v2_def in_bucket_def)
    then show ?thesis using Cons.prems(4) by fastforce
  qed
  have card: "card (\<Union>i \<in> set (i # is). set (D i)) = length (D i) + card ?R"
    using dj b [of i] by (simp add: card_Un_disjoint bucket_v2_def distinct_card)
  obtain s1 C1 where s1: "rehash_chain_v2 (chain_bound s) hash s (first_or (D i) NULL) = Inr s1"
    "tbl_v2 hash ?pw (ptr_table s1) (heap s1) C1" "ptrs ?pw C1 = ptrs ?pw C \<union> set (D i)" "rechained s s1"
    "\<forall>r. r \<notin> ptrs ?pw C \<union> set (D i) \<longrightarrow> heap s1 r = heap s r"
    using rehash_chain_v2_correct [OF Cons.prems(1,2), of "D i" "chain_bound s"] Cons.prems b [of i] card
    by (fastforce simp: bucket_v2_def)
  have pw: "hash_power s1 = ?pw" "n_cur_item s1 = n_cur_item s" using s1(4) by (simp_all add: rechained_def)
  have keep: "heap s1 r = heap s r" if "r \<in> ?R" for r
    using s1(5) that dj Cons.prems(5) by (auto simp: disjoint_iff)
  have "\<exists>s' C'. rehash_buckets_v2 hash T is s1 = Inr s' \<and>
    tbl_v2 hash (hash_power s1) (ptr_table s') (heap s') C' \<and>
    ptrs (hash_power s1) C' = ptrs (hash_power s1) C1 \<union> ?R \<and> rechained s1 s'"
  proof (rule Cons.IH)
    show "\<forall>k \<in> set is. T k = first_or (D k) NULL \<and> bucket_v2 hash opw (heap s1) k (D k)"
    proof
      fix k assume k: "k \<in> set is"
      have f: "core (heap s1) r = core (heap s) r" if "r \<in> set (D k)" for r
      proof -
        have "r \<in> ?R" using that k by auto
        then show ?thesis using keep [of r] by (simp add: core_def)
      qed
      show "T k = first_or (D k) NULL \<and> bucket_v2 hash opw (heap s1) k (D k)"
        using Cons.prems(3) k b [of k] hchain_core [of "D k", OF f] in_bucket_core [OF f]
        by (simp add: bucket_v2_def)
    qed
    show "?R \<inter> ptrs (hash_power s1) C1 = {}" using Cons.prems(5) dj s1(3) pw by auto
    show "\<forall>i \<in> set is. \<forall>p \<in> set (D i). \<exists>x. heap s1 p = Some x \<and> o_size x \<noteq> 0"
      using Cons.prems(6) keep by (metis UN_I list.set_intros(2))
    show "card (ptrs (hash_power s1) C1) + card ?R \<le> unat (n_cur_item s1)"
      using Cons.prems(7) card s1(3) pw card_Un_le [of "ptrs ?pw C" "set (D i)"] card_length [of "D i"]
      by simp
  qed (use Cons.prems(2,4) s1(2) pw in auto)
  then obtain s' C' where "rehash_buckets_v2 hash T is s1 = Inr s'"
    "tbl_v2 hash ?pw (ptr_table s') (heap s') C'" "ptrs ?pw C' = ptrs ?pw C1 \<union> ?R" "rechained s1 s'"
    unfolding pw by blast
  then show ?case
    using s1(1,3,4) Cons.prems(3) rechained_trans [OF s1(4)]
    by (intro exI [of _ s'] exI [of _ C']) auto
qed


section \<open>The operations are correct\<close>

lemma ht_v2I:
  assumes "tbl_v2 hash (hash_power s) (ptr_table s) (heap s) C" "P = ptrs (hash_power s) C"
    "ids_ok (heap s) P" "n_cur_item s = of_nat (card P)" "card P \<le> 2 ^ 48" "unat (hash_power s) \<le> 49"
    "\<And>n. heap s (Obj n) \<noteq> None \<Longrightarrow> n < next_obj s"
  shows "ht_v2 hash s P"
  using assms unfolding ht_v2_def by blast

lemma ht_v2D:
  assumes "ht_v2 hash s P"
  shows "ids_ok (heap s) P" "n_cur_item s = of_nat (card P)" "card P \<le> 2 ^ 48"
    "unat (hash_power s) \<le> 49" "heap s (Obj n) \<noteq> None \<Longrightarrow> n < next_obj s"
  using assms unfolding ht_v2_def by blast+

lemma ht_v2_obtain:
  assumes "ht_v2 hash s P"
  obtains C where "tbl_v2 hash (hash_power s) (ptr_table s) (heap s) C" "P = ptrs (hash_power s) C"
    "finite P" "unat (n_cur_item s) = card P" "unat (hash_power s) < 64"
proof -
  obtain C where C: "tbl_v2 hash (hash_power s) (ptr_table s) (heap s) C" "P = ptrs (hash_power s) C"
    using assms by (auto simp: ht_v2_def)
  have "unat (n_cur_item s) = card P" using ht_v2D(2,3) [OF assms] by simp
  with C ht_v2D(4) [OF assms] show thesis by (intro that [of C]) auto
qed

lemma ptrs_v2_alloc:
  assumes t: "tbl_v2 hash pw T h C" and "p \<in> ptrs pw C"
  shows "is_Obj p \<and> (\<exists>x. h p = Some x \<and> o_size x \<noteq> 0)"
proof -
  obtain i where i: "i < 2 ^ unat pw" "p \<in> set (C i)" using assms(2) by (auto simp: ptrs_def)
  then have "hchain h (C i)" "is_Obj p" using t by (auto simp: tbl_v2_def bucket_v2_def)
  with hchain_mem [OF this(1) i(2)] tbl_v2_in_bucket [OF t i] show ?thesis
    by (auto simp: in_bucket_def payload_def)
qed

lemma ht_v2_alloc: "ht_v2 hash s P \<Longrightarrow> p \<in> P \<Longrightarrow> p \<noteq> NULL \<and> (\<exists>x. heap s p = Some x \<and> o_size x \<noteq> 0)"
  using ptrs_v2_alloc by (fastforce elim!: ht_v2_obtain)

lemma rechained_view: "rechained s s' \<Longrightarrow> set xs \<subseteq> P \<Longrightarrow> same_view (heap s) P xs (heap s') P xs"
  using body_eqD(1) [of "heap s'" "heap s"] by (auto simp: same_view_def objs_def rechained_def)

lemma rechained_linked: "linked s P xs \<Longrightarrow> rechained s s' \<Longrightarrow> linked s' P xs"
  using body_eqD(2) [of "heap s'" "heap s"] by (elim linked_cong) (auto simp: rechained_def)

lemma chained_hashtable_expand_v2_correct:
  assumes h: "ht_v2 hash s P" and pw: "unat (hash_power s) \<le> 48"
  shows "\<exists>s'. chained_hashtable_expand_v2 hash s = Inr s' \<and> ht_v2 hash s' P \<and>
    rechained (s\<lparr>hash_power := hash_power s + 1\<rparr>) s'"
proof -
  obtain C where C: "tbl_v2 hash (hash_power s) (ptr_table s) (heap s) C" "P = ptrs (hash_power s) C"
    "finite P" "unat (n_cur_item s) = card P" using h by (rule ht_v2_obtain)
  let ?s = "s\<lparr>hash_power := hash_power s + 1, ptr_table := (\<lambda>_. NULL)\<rparr>"
  let ?is = "[0 ..< 2 ^ unat (hash_power s)]"
  have P: "P = (\<Union>i \<in> set ?is. set (C i))" by (simp add: C(2) ptrs_def atLeast0LessThan)
  have e: "ptrs (hash_power ?s) (\<lambda>_. []) = {}" by (simp add: ptrs_def)
  have t0: "tbl_v2 hash (hash_power ?s) (ptr_table ?s) (heap ?s) (\<lambda>_. [])"
    by (simp add: tbl_v2_def bucket_v2_def)
  have "\<exists>s' C'. rehash_buckets_v2 hash (ptr_table s) ?is ?s = Inr s' \<and>
    tbl_v2 hash (hash_power ?s) (ptr_table s') (heap s') C' \<and>
    ptrs (hash_power ?s) C' = ptrs (hash_power ?s) (\<lambda>_. []) \<union> (\<Union>i \<in> set ?is. set (C i)) \<and> rechained ?s s'"
  proof (rule rehash_buckets_v2_correct [OF t0, where opw = "hash_power s"])
    show "\<forall>i \<in> set ?is. \<forall>p \<in> set (C i). \<exists>x. heap ?s p = Some x \<and> o_size x \<noteq> 0"
      using ht_v2_alloc [OF h] P by auto
  qed (use C pw unat_pw_Suc [OF pw] e P in \<open>auto simp: tbl_v2_def\<close>)
  then obtain s' C' where s': "rehash_buckets_v2 hash (ptr_table s) ?is ?s = Inr s'"
    "tbl_v2 hash (hash_power ?s) (ptr_table s') (heap s') C'" "ptrs (hash_power ?s) C' = P" "rechained ?s s'"
    using e P by auto
  have "chained_hashtable_expand_v2 hash s = Inr s'"
    using s'(1) pw by (simp add: chained_hashtable_expand_v2_def Let_def unat_hashsize)
  moreover have "ht_v2 hash s' P"
  proof (rule ht_v2I [of hash s' C'])
    show "ids_ok (heap s') P"
      using ht_v2D(1) [OF h] s'(4) body_eqD(1) [of "heap s'" "heap s"]
      by (simp add: ids_ok_def rechained_def comp_def)
    show "n < next_obj s'" if "heap s' (Obj n) \<noteq> None" for n
      using ht_v2D(5) [OF h, of n] that s'(4) body_eqD(3) [of "heap s'" "heap s" "Obj n"]
      by (auto simp: rechained_def)
  qed (use s' ht_v2D [OF h] unat_pw_Suc [OF pw] pw in \<open>simp_all add: rechained_def\<close>)
  ultimately show ?thesis using s'(4) by (auto simp: rechained_def)
qed


lemma find_in_chain_v2_correct:
  "hchain h ps \<Longrightarrow> length ps < fuel \<Longrightarrow>
    find_in_chain_v2 fuel h (first_or ps NULL) k =
      Inr (case find (\<lambda>p. fst (payload h p) = k) ps of Some p \<Rightarrow> p | None \<Rightarrow> NULL)"
proof (induction ps arbitrary: fuel)
  case Nil
  then show ?case by (cases fuel) auto
next
  case (Cons p ps)
  then obtain f where f: "fuel = Suc f" by (cases fuel) auto
  with Cons show ?case by (auto simp: nexts_Some c_simps payload_def)
qed

lemma chained_hashtable_find_obj_id_v2_correct:
  assumes h: "ht_v2 hash s P"
  shows "\<exists>p. chained_hashtable_find_obj_id_v2 hash s k = Inr p \<and>
    (p \<in> P \<and> fst (payload (heap s) p) = k \<or> p = NULL \<and> k \<notin> fst ` objs (heap s) P)"
proof -
  obtain C where C: "tbl_v2 hash (hash_power s) (ptr_table s) (heap s) C" "P = ptrs (hash_power s) C"
    "finite P" "unat (n_cur_item s) = card P" "unat (hash_power s) < 64" using h by (rule ht_v2_obtain)
  let ?i = "bucket_of hash (hash_power s) k"
  let ?f = "find (\<lambda>p. fst (payload (heap s) p) = k) (C ?i)"
  have i: "?i < 2 ^ unat (hash_power s)" using bucket_of_less [OF C(5)] .
  then have b: "bucket_v2 hash (hash_power s) (heap s) ?i (C ?i)" "ptr_table s ?i = first_or (C ?i) NULL"
    using C(1) by (auto simp: tbl_v2_def)
  have "length (C ?i) < chain_bound s" using tbl_v2_length [OF C(1) i] C(2,4) by simp
  then have run: "chained_hashtable_find_obj_id_v2 hash s k = Inr (case ?f of Some p \<Rightarrow> p | None \<Rightarrow> NULL)"
    unfolding chained_hashtable_find_obj_id_v2_def b(2)
    using b(1) by (intro find_in_chain_v2_correct) (auto simp: bucket_v2_def)
  have only: "r \<in> set (C ?i)" if "r \<in> P" "fst (payload (heap s) r) = k" for r
  proof -
    obtain m where "m < 2 ^ unat (hash_power s)" "r \<in> set (C m)" using \<open>r \<in> P\<close> C(2) by (auto simp: ptrs_def)
    then show ?thesis using tbl_v2_in_bucket [OF C(1)] that(2) by (metis in_bucket_def)
  qed
  show ?thesis
  proof (cases ?f)
    case None
    then have "k \<notin> fst ` objs (heap s) P" using only by (auto simp: find_None_iff objs_def image_image)
    with None run show ?thesis by simp
  next
    case (Some q)
    then have "q \<in> set (C ?i)" "fst (payload (heap s) q) = k" by (auto simp: find_Some_iff)
    with Some run i C(2) show ?thesis by (auto simp: ptrs_def)
  qed
qed

lemma chained_hashtable_insert_v2_correct:
  assumes h: "ht_v2 hash s P" and l: "linked s P xs"
    and k: "obj_id_int req \<notin> fst ` objs (heap s) P" and sz: "(ucast (obj_size req) :: u32) \<noteq> 0"
    and n: "card P < 2 ^ 48"
  shows "\<exists>p s'. chained_hashtable_insert_v2 hash s req = Inr (p, s') \<and>
    ht_v2 hash s' (insert p P) \<and> p \<notin> P \<and> linked s' (insert p P) xs \<and>
    same_view (heap s) P xs (heap s') P xs \<and>
    payload (heap s') p = (obj_id_int req, ucast (obj_size req))"
proof -
  have "\<exists>s1. (if n_cur_item s > expand_limit (hash_power s) then chained_hashtable_expand_v2 hash s
      else Inr s) = Inr s1 \<and> ht_v2 hash s1 P \<and> body (heap s1) = body (heap s) \<and> vars s1 = vars s"
  proof (cases "n_cur_item s > expand_limit (hash_power s)")
    case True
    then have "unat (hash_power s) \<le> 48"
      using ht_v2D(2-4) [OF h] expand_limit_pw [of "card P" "hash_power s"] by simp
    from chained_hashtable_expand_v2_correct [OF h this] True show ?thesis by (auto simp: rechained_def)
  qed (use h in auto)
  then obtain s1 where s1: "(if n_cur_item s > expand_limit (hash_power s)
      then chained_hashtable_expand_v2 hash s else Inr s) = Inr s1" "ht_v2 hash s1 P"
      "body (heap s1) = body (heap s)" "vars s1 = vars s" by blast
  obtain C where C: "tbl_v2 hash (hash_power s1) (ptr_table s1) (heap s1) C" "P = ptrs (hash_power s1) C"
    "finite P" "unat (n_cur_item s1) = card P" "unat (hash_power s1) < 64" using s1(2) by (rule ht_v2_obtain)
  define q z where "q = Obj (next_obj s1)" and "z = copy_request_to_cache_obj zero_obj req"
  define s2 where "s2 = s1\<lparr>heap := (heap s1)(q \<mapsto> z), next_obj := Suc (next_obj s1)\<rparr>"
  have z: "hash_next z = NULL" "o_size z = ucast (obj_size req)" "o_id z = obj_id_int req"
    "list_prev z = NULL" "list_next z = NULL"
    by (simp_all add: z_def copy_request_to_cache_obj_def zero_obj_def)
  have qP: "q \<notin> P" using ht_v2D(5) [OF s1(2), of "next_obj s1"] ht_v2_alloc [OF s1(2), of q] by (auto simp: q_def)
  have t2: "tbl_v2 hash (hash_power s2) (ptr_table s2) (heap s2) C"
  proof -
    have f: "core (heap s2) r = core (heap s1) r" if "r \<in> set (C i)" "i < 2 ^ unat (hash_power s1)" for r i
      using that qP C(2) by (auto simp: s2_def ptrs_def)
    have "bucket_v2 hash (hash_power s1) (heap s2) i (C i)" if "i < 2 ^ unat (hash_power s1)" for i
      using C(1) that hchain_core [of "C i" "heap s2" "heap s1", OF f] in_bucket_core [OF f]
      by (auto simp: tbl_v2_def bucket_v2_def)
    then show ?thesis using C(1) by (simp add: tbl_v2_def s2_def)
  qed
  obtain s3 C3 where s3: "add_to_bucket hash s2 q = Inr s3"
    "tbl_v2 hash (hash_power s1) (ptr_table s3) (heap s3) C3"
    "ptrs (hash_power s1) C3 = insert q P" "rechained s2 s3"
    using add_to_bucket_correct [OF t2, of q z] C qP z sz by (auto simp: s2_def q_def)
  let ?s' = "s3\<lparr>n_cur_item := n_cur_item s3 + 1\<rparr>"
  have run: "chained_hashtable_insert_v2 hash s req = Inr (q, ?s')"
    using s1(1) s3(1) by (simp add: chained_hashtable_insert_v2_def create_cache_obj_from_request_def
      malloc_obj_def flip: q_def z_def s2_def)
  have pay: "payload (heap s3) r = (if r = q then (obj_id_int req, ucast (obj_size req)) else payload (heap s) r)" for r
    using body_eqD(1) [of "heap s3" "heap s2" r] body_eqD(1) [OF s1(3), of r] s3(4) z
    by (simp add: rechained_def s2_def)
  have lk: "links (heap s3) r = (if r = q then Some (NULL, NULL) else links (heap s) r)" for r
    using body_eqD(2) [of "heap s3" "heap s2" r] body_eqD(2) [OF s1(3), of r] s3(4) z
    by (simp add: rechained_def s2_def)
  have objs: "objs (heap s3) P = objs (heap s) P" using pay qP by (auto simp: objs_def image_def)
  have view: "view (heap s3) xs = view (heap s) xs" using pay qP l by (auto simp: linked_def)
  have "ids_ok (heap s3) (insert q P)"
  proof -
    have "ids_ok (heap s3) P \<longleftrightarrow> ids_ok (heap s) P"
      unfolding ids_ok_def using pay qP by (intro inj_on_cong) auto
    moreover have "ids_ok (heap s) P"
      using ht_v2D(1) [OF h] .
    ultimately show ?thesis using k objs qP pay by (simp add: ids_ok_insert)
  qed
  moreover have "i < next_obj ?s'" if "heap ?s' (Obj i) \<noteq> None" for i
  proof -
    have "heap s2 (Obj i) \<noteq> None" using that s3(4) body_eqD(3) [of "heap s3" "heap s2" "Obj i"] by (auto simp: rechained_def)
    then show ?thesis using ht_v2D(5) [OF s1(2), of i] s3(4)
      by (auto simp: rechained_def s2_def q_def less_Suc_eq split: if_splits)
  qed
  ultimately have "ht_v2 hash ?s' (insert q P)"
    using s3 qP C(3) n ht_v2D [OF s1(2)]
    by (intro ht_v2I [where C = C3]) (auto simp: rechained_def s2_def)
  moreover have "linked ?s' (insert q P) xs"
  proof -
    have "linked ?s' P xs"
      using lk qP s1(4) s3(4) by (intro linked_cong [OF l]) (auto simp: rechained_def s2_def)
    then show ?thesis using lk [of q] by (auto simp: linked_def)
  qed
  ultimately show ?thesis using run qP objs view pay by (intro exI [of _ q] exI [of _ ?s']) (simp add: same_view_def)
qed


lemma prev_in_chain_v2_correct:
  "hchain h (as @ a # p # bs) \<Longrightarrow> distinct (as @ a # p # bs) \<Longrightarrow> length as < fuel \<Longrightarrow>
    prev_in_chain_v2 fuel h (first_or (as @ [a]) NULL) p = Inr a"
proof (induction as arbitrary: fuel)
  case Nil
  then obtain f where "fuel = Suc f" by (cases fuel) auto
  with Nil show ?case by (auto simp: nexts_Some c_simps)
next
  case (Cons c as)
  then obtain f where f: "fuel = Suc f" by (cases fuel) auto
  obtain xc where xc: "h c = Some xc" "hash_next xc = first_or (as @ [a]) NULL"
    using Cons.prems(1) by (cases as) (auto simp: nexts_Some)
  have "first_or (as @ [a]) NULL \<noteq> p" using Cons.prems(2) by (cases as) auto
  then show ?case using Cons.IH [of f] Cons.prems xc by (simp add: f c_simps)
qed

lemma ht_v2_smaller:
  assumes h: "ht_v2 hash s P" and p: "p \<in> P" and P': "P - {p} = ptrs (hash_power s) C'"
    and t: "tbl_v2 hash (hash_power s) (ptr_table s') (heap s') C'"
    and pay: "\<And>r. r \<in> P - {p} \<Longrightarrow> payload (heap s') r = payload (heap s) r"
    and sc: "hash_power s' = hash_power s" "n_cur_item s' = n_cur_item s - 1" "next_obj s' = next_obj s"
    and o: "\<And>n. heap s' (Obj n) \<noteq> None \<Longrightarrow> heap s (Obj n) \<noteq> None"
  shows "ht_v2 hash s' (P - {p})"
proof (rule ht_v2I)
  note d = ht_v2D [OF h]
  have "finite P" using h by (auto elim!: ht_v2_obtain)
  then have card: "card P = Suc (card (P - {p}))" using p by (metis card.remove)
  show "ids_ok (heap s') (P - {p})"
    using d(1) pay by (auto simp: ids_ok_def inj_on_def)
  show "n_cur_item s' = of_nat (card (P - {p}))" using d(2) by (simp only: sc card) simp
  show "card (P - {p}) \<le> 2 ^ 48" using d(3) card by simp
  show "n < next_obj s'" if "heap s' (Obj n) \<noteq> None" for n using d(5) [OF o [OF that]] by (simp add: sc)
qed (use t P' sc ht_v2D(4) [OF h] in simp_all)

lemma ptrs_remove:
  assumes t: "tbl_v2 hash pw T h C" and j: "j < 2 ^ unat pw" and p: "C j = as @ p # bs"
  shows "ptrs pw (C(j := as @ bs)) = ptrs pw C - {p}"
proof -
  have "distinct (C j)" using t j by (simp add: tbl_v2_def bucket_v2_def)
  moreover have "p \<notin> set (C i)" if "i < 2 ^ unat pw" "i \<noteq> j" for i
    using tbl_v2_unique [OF t that(1) j, of p] that(2) p by auto
  moreover have upd: "ptrs pw (C(j := ps)) = (\<Union>i \<in> {..< 2 ^ unat pw} - {j}. set (C i)) \<union> set ps" for ps
    using j by (auto simp: ptrs_def split: if_splits)
  moreover have "ptrs pw C = (\<Union>i \<in> {..< 2 ^ unat pw} - {j}. set (C i)) \<union> set (C j)"
    using upd [of "C j"] by simp
  ultimately show ?thesis using p unfolding upd by auto
qed

lemma chained_hashtable_delete_v2_correct:
  assumes h: "ht_v2 hash s P" and p: "p \<in> P" and l: "linked s (P - {p}) xs"
  shows "\<exists>s'. chained_hashtable_delete_v2 hash s p = Inr s' \<and> ht_v2 hash s' (P - {p}) \<and>
    linked s' (P - {p}) xs \<and> same_view (heap s) (P - {p}) xs (heap s') (P - {p}) xs"
proof -
  let ?pw = "hash_power s"
  obtain C where C: "tbl_v2 hash ?pw (ptr_table s) (heap s) C" "P = ptrs ?pw C"
    "finite P" "unat (n_cur_item s) = card P" "unat ?pw < 64" using h by (rule ht_v2_obtain)
  obtain x where x: "heap s p = Some x" "p \<noteq> NULL" "is_Obj p" using ht_v2_alloc [OF h p] ptrs_v2_alloc [OF C(1)] p C(2) by auto
  define j where "j = bucket_of hash ?pw (o_id x)"
  have j: "j < 2 ^ unat ?pw" using bucket_of_less [OF C(5)] by (simp add: j_def)
  have "p \<in> set (C j)"
  proof -
    obtain i where i: "i < 2 ^ unat ?pw" "p \<in> set (C i)" using p C(2) by (auto simp: ptrs_def)
    then show ?thesis using tbl_v2_in_bucket [OF C(1) i] x by (simp add: in_bucket_def payload_def j_def)
  qed
  then obtain as bs where sp: "C j = as @ p # bs" by (meson split_list)
  have b: "bucket_v2 hash ?pw (heap s) j (C j)" "ptr_table s j = first_or (C j) NULL"
    using C(1) j by (auto simp: tbl_v2_def)
  have P': "P - {p} = ptrs ?pw (C(j := as @ bs))" using ptrs_remove [OF C(1) j sp] C(2) by simp
  have nx: "hash_next x = first_or bs NULL"
    using b(1) sp x(1) hchain_append [of "heap s" as p bs] by (auto simp: bucket_v2_def nexts_Some)
  show ?thesis
  proof (cases as rule: rev_cases)
    case Nil
    let ?s' = "s\<lparr>n_cur_item := n_cur_item s - 1, ptr_table := (ptr_table s)(j := hash_next x)\<rparr>"
    have run: "chained_hashtable_delete_v2 hash s p = Inr ?s'"
      using x b(2) sp Nil by (simp add: chained_hashtable_delete_v2_def c_simps Let_def flip: j_def)
    have "tbl_v2 hash ?pw (ptr_table ?s') (heap ?s') (C(j := as @ bs))"
      using b(1) sp Nil nx by (intro tbl_v2_replace [OF C(1) j]) (auto simp: bucket_v2_def)
    then have "ht_v2 hash ?s' (P - {p})" by (intro ht_v2_smaller [OF h p P']) auto
    moreover have "linked ?s' (P - {p}) xs" using l by (simp add: linked_def)
    ultimately show ?thesis using run by (intro exI [of _ ?s']) simp
  next
    case (snoc as' a)
    have sp': "C j = as' @ a # p # bs" using sp snoc by simp
    have d: "distinct (as' @ a # p # bs)" using b(1) sp' by (simp add: bucket_v2_def)
    have "a \<in> P" using sp' j C(2) by (auto simp: ptrs_def intro!: bexI [of _ j])
    then obtain xa where xa: "heap s a = Some xa" "a \<noteq> NULL" "a \<noteq> p" using ht_v2_alloc [OF h] d by fastforce
    let ?h = "((heap s)(a \<mapsto> xa\<lparr>hash_next := hash_next x\<rparr>))(p := None)"
    let ?s' = "s\<lparr>n_cur_item := n_cur_item s - 1, heap := ?h\<rparr>"
    have "length as' < chain_bound s" using tbl_v2_length [OF C(1) j] sp' C(2,4) by simp
    then have "prev_in_chain_v2 (chain_bound s) (heap s) (first_or (as' @ [a]) NULL) p = Inr a"
      using b(1) d sp' by (intro prev_in_chain_v2_correct [where bs = bs]) (auto simp: bucket_v2_def)
    moreover have "first_or (C j) NULL = first_or (as' @ [a]) NULL" "first_or (C j) NULL \<noteq> p"
      using sp' d by (cases as'; auto)+
    ultimately have run: "chained_hashtable_delete_v2 hash s p = Inr ?s'"
      using x xa b(2) by (simp add: chained_hashtable_delete_v2_def c_simps Let_def set_hash_next_Some
        free_cache_obj_def del: prev_in_chain_v2.simps flip: j_def)
    have pay: "payload ?h r = payload (heap s) r" if "r \<noteq> p" for r using that xa by (simp add: payload_def)
    have "hchain ?h (as' @ a # bs)"
      using b(1) sp' d x xa by (intro hchain_remove [of "heap s" as' a p bs]) (auto simp: bucket_v2_def nexts_def)
    moreover have "in_bucket hash ?pw ?h j r" if "r \<in> set (as' @ a # bs)" for r
    proof -
      have "r \<noteq> p" "r \<in> set (C j)" using that d sp' by auto
      then show ?thesis using b(1) pay [of r] by (simp add: bucket_v2_def in_bucket_def)
    qed
    ultimately have "bucket_v2 hash ?pw ?h j (as @ bs)"
      using b(1) sp' d snoc by (auto simp: bucket_v2_def)
    then have "tbl_v2 hash ?pw (ptr_table ?s') (heap ?s') (C(j := as @ bs))"
      using b(2) sp' snoc by (intro tbl_v2_replace [OF C(1) j]) auto
    then have "ht_v2 hash ?s' (P - {p})"
      using pay xa by (intro ht_v2_smaller [OF h p P']) (auto split: if_splits)
    moreover have "linked ?s' (P - {p}) xs" using xa by (intro linked_cong [OF l]) (auto simp: links_def)
    moreover have "same_view (heap s) (P - {p}) xs ?h (P - {p}) xs"
      using pay l by (auto simp: same_view_def objs_def linked_def)
    ultimately show ?thesis using run by (intro exI [of _ ?s']) simp
  qed
qed

end
