(* ===== verification/Hashtable.thy ===== *)
theory Hashtable
  imports ChainedHashtableV2
begin

text \<open>
  \<^verbatim>\<open>dataStructure/hashtable/hashtable.h\<close>: the macros through which the caches call the hash table
  the build selects, as a record of operations; the contract the caches rely on, as a locale; and
  the proof that both versions of the table fulfil it.
\<close>

section \<open>The operations\<close>

record ht_ops =
  create_hashtable :: "u16 \<Rightarrow> hashtable_t \<Rightarrow> hashtable_t"
  hashtable_find :: "hashtable_t \<Rightarrow> request_t \<Rightarrow> (ptr \<times> request_t \<times> hashtable_t) result"
  hashtable_find_obj :: "hashtable_t \<Rightarrow> ptr \<Rightarrow> (ptr \<times> hashtable_t) result"
  hashtable_insert :: "hashtable_t \<Rightarrow> request_t \<Rightarrow> (ptr \<times> hashtable_t) result"
  hashtable_delete :: "hashtable_t \<Rightarrow> ptr \<Rightarrow> hashtable_t result"
  hashtable_foreach :: "hashtable_t \<Rightarrow> ptr list result"
  free_hashtable :: "hashtable_t \<Rightarrow> hashtable_t result"
  hashtable_add_ptr_to_monitoring :: "hashtable_t \<Rightarrow> pvar \<Rightarrow> hashtable_t"

definition hashtable_ver1 :: "(obj_id_t \<Rightarrow> u64) \<Rightarrow> ht_ops" where
  "hashtable_ver1 hash =
    \<lparr>create_hashtable = create_chained_hashtable,
     hashtable_find = chained_hashtable_find hash,
     hashtable_find_obj = chained_hashtable_find_obj hash,
     hashtable_insert = chained_hashtable_insert hash,
     hashtable_delete = chained_hashtable_delete hash,
     hashtable_foreach = chained_hashtable_foreach,
     free_hashtable = free_chained_hashtable,
     hashtable_add_ptr_to_monitoring = chained_hashtable_add_ptr_to_monitoring\<rparr>"

definition hashtable_ver2 :: "(obj_id_t \<Rightarrow> u64) \<Rightarrow> ht_ops" where
  "hashtable_ver2 hash =
    \<lparr>create_hashtable = create_chained_hashtable_v2,
     hashtable_find = chained_hashtable_find_v2 hash,
     hashtable_find_obj = chained_hashtable_find_obj_v2 hash,
     hashtable_insert = chained_hashtable_insert_v2 hash,
     hashtable_delete = chained_hashtable_delete_v2 hash,
     hashtable_foreach = chained_hashtable_foreach_v2,
     free_hashtable = free_chained_hashtable_v2,
     hashtable_add_ptr_to_monitoring = (\<lambda>s v. s)\<rparr>"

section \<open>The contract\<close>

text \<open>The hash value a request carries is not set or is the one of its id.\<close>

definition hv_ok :: "(obj_id_t \<Rightarrow> u64) \<Rightarrow> request_t \<Rightarrow> bool" where
  "hv_ok hash req \<longleftrightarrow> hv req = 0 \<or> hv req = hash (obj_id_int req)"

locale hashtable_spec =
  fixes H :: ht_ops and hash :: "obj_id_t \<Rightarrow> u64" and ht :: "hashtable_t \<Rightarrow> ptr set \<Rightarrow> bool"
  assumes create: "(\<And>p. heap s p = None) \<Longrightarrow> vars s = (\<lambda>_. NULL) \<Longrightarrow> unat pw \<le> 49 \<Longrightarrow>
      s' = hashtable_add_ptr_to_monitoring H
        (hashtable_add_ptr_to_monitoring H (create_hashtable H pw s) list_head) list_tail \<Longrightarrow>
      ht s' {} \<and> linked s' {} []"
    and find: "ht s P \<Longrightarrow> hv_ok hash req \<Longrightarrow> \<exists>p req' s'. hashtable_find H s req = Inr (p, req', s') \<and>
      same_table s s' \<and> req'\<lparr>hv := hv req\<rparr> = req \<and> hv_ok hash req' \<and>
      (p \<in> P \<and> fst (payload (heap s) p) = obj_id_int req \<or>
       p = NULL \<and> obj_id_int req \<notin> fst ` objs (heap s) P)"
    and insert: "ht s P \<Longrightarrow> linked s P xs \<Longrightarrow> obj_id_int req \<notin> fst ` objs (heap s) P \<Longrightarrow>
      (ucast (obj_size req) :: u32) \<noteq> 0 \<Longrightarrow> card P < 2 ^ 48 \<Longrightarrow>
      \<exists>p s' P' xs'. hashtable_insert H s req = Inr (p, s') \<and> ht s' (Set.insert p P') \<and> p \<notin> P' \<and>
        linked s' (Set.insert p P') xs' \<and> set xs' \<subseteq> P' \<and> same_view (heap s) P xs (heap s') P' xs' \<and>
        payload (heap s') p = (obj_id_int req, ucast (obj_size req))"
    and delete: "ht s P \<Longrightarrow> p \<in> P \<Longrightarrow> linked s (P - {p}) xs \<Longrightarrow> stale s xs p \<Longrightarrow>
      \<exists>s' P' xs'. hashtable_delete H s p = Inr s' \<and> ht s' P' \<and> linked s' P' xs' \<and>
        same_view (heap s) (P - {p}) xs (heap s') P' xs'"
    and relink: "ht s P \<Longrightarrow> relinked P (heap s) h \<Longrightarrow> ht (s\<lparr>heap := h, vars := v\<rparr>) P"
    and resize: "ht s P \<Longrightarrow> p \<in> P \<Longrightarrow> heap s p = Some x \<Longrightarrow> z \<noteq> 0 \<Longrightarrow>
      ht (s\<lparr>heap := (heap s)(p \<mapsto> x\<lparr>o_size := z\<rparr>)\<rparr>) P"
    and counters: "same_table s s' \<Longrightarrow> ht s' P = ht s P"
    and alloc: "ht s P \<Longrightarrow> p \<in> P \<Longrightarrow> p \<noteq> NULL \<and> (\<exists>x. heap s p = Some x \<and> o_size x \<noteq> 0)"
    and ids: "ht s P \<Longrightarrow> finite P \<and> ids_ok (heap s) P \<and> card P \<le> 2 ^ 48 \<and> unat (n_cur_item s) = card P"

section \<open>Version 1\<close>

lemma relinked_None: "relinked A h h' \<Longrightarrow> h' p = None \<longleftrightarrow> h p = None"
  unfolding relinked_def by (metis option.map_disc_iff)

lemma relinked_payload: "relinked A h h' \<Longrightarrow> payload h' p = payload h p"
  using relinked_core [of A h h'] payload_core [of h' p h p] by simp

lemma relinked_payload': "relinked A h h' \<Longrightarrow> payload h' = payload h"
  using relinked_payload by blast

lemma ht_v1_relink:
  assumes h: "ht_v1 hash s P" and r: "relinked P (heap s) h"
  shows "ht_v1 hash (s\<lparr>heap := h, vars := v\<rparr>) P"
proof -
  obtain C where C: "tbl hash (hash_power s) (table s) (heap s) C" "P = ptrs (hash_power s) C"
    using h by (rule ht_v1_obtain)
  have "tbl hash (hash_power s) (table s) h C"
  proof (rule tbl_frame [OF C(1)])
    show "h (Slot (table s) i) = heap s (Slot (table s) i)" if "i < 2 ^ unat (hash_power s)" "C i = []" for i
      using tbl_slot_notin [OF C(1) that] C(2) r by (simp add: relinked_def)
  qed (simp add: relinked_core [OF r])
  moreover have "ids_ok h P" using ht_v1D(1) [OF h] by (simp add: ids_ok_def relinked_payload [OF r] comp_def)
  ultimately show ?thesis
    using C(2) ht_v1D [OF h] by (intro ht_v1I) (simp_all add: relinked_None [OF r])
qed

text \<open>Changing the size of an object to another nonzero size.\<close>

lemma resize_facts:
  assumes "h p = Some x"
  shows "nexts (h(p \<mapsto> x\<lparr>o_size := z\<rparr>)) r = nexts h r"
    "fst (payload (h(p \<mapsto> x\<lparr>o_size := z\<rparr>)) r) = fst (payload h r)"
    "links (h(p \<mapsto> x\<lparr>o_size := z\<rparr>)) = links h"
    "(h(p \<mapsto> x\<lparr>o_size := z\<rparr>)) r = None \<longleftrightarrow> h r = None"
  using assms by (auto simp: nexts_def payload_def links_def fun_eq_iff simp del: links_upd)

lemma hchain_nexts: "(\<And>r. nexts h' r = nexts h r) \<Longrightarrow> hchain h' ps \<longleftrightarrow> hchain h ps"
  by (induction ps) auto

lemma in_bucket_resize:
  "h p = Some x \<Longrightarrow> z \<noteq> 0 \<Longrightarrow> in_bucket hash pw h i r \<Longrightarrow> in_bucket hash pw (h(p \<mapsto> x\<lparr>o_size := z\<rparr>)) i r"
  by (auto simp: in_bucket_def payload_def)

lemma ht_v1_resize:
  assumes h: "ht_v1 hash s P" and p: "p \<in> P" "heap s p = Some x" and z: "z \<noteq> 0"
  shows "ht_v1 hash (s\<lparr>heap := (heap s)(p \<mapsto> x\<lparr>o_size := z\<rparr>)\<rparr>) P"
proof -
  let ?h = "(heap s)(p \<mapsto> x\<lparr>o_size := z\<rparr>)"
  obtain C where C: "tbl hash (hash_power s) (table s) (heap s) C" "P = ptrs (hash_power s) C"
    using h by (rule ht_v1_obtain)
  note f = resize_facts [of "heap s" p x z, OF p(2)]
  have "bucket hash (hash_power s) (table s) ?h i (C i)" if i: "i < 2 ^ unat (hash_power s)" for i
  proof -
    have b: "bucket hash (hash_power s) (table s) (heap s) i (C i)" using C(1) i by (simp add: tbl_def)
    have "Slot (table s) i \<noteq> p" if "C i = []" using tbl_slot_notin [OF C(1) i that] p(1) C(2) by auto
    then show ?thesis
      using b hchain_nexts [of ?h "heap s" "C i", OF f(1)] in_bucket_resize [of "heap s" p x z, OF p(2) z]
      by (auto simp: bucket_def split: list.splits)
  qed
  then have "tbl hash (hash_power s) (table s) ?h C" by (simp add: tbl_def)
  moreover have "ids_ok ?h P" using ht_v1D(1) [OF h] f(2) by (simp add: ids_ok_def comp_def del: payload_upd)
  ultimately show ?thesis
    using C(2) ht_v1D [OF h] f(4) by (intro ht_v1I) (simp_all del: fun_upd_apply)
qed

interpretation v1: hashtable_spec "hashtable_ver1 hash" hash "ht_v1 hash" for hash
proof
  show "\<exists>p req' s'. hashtable_find (hashtable_ver1 hash) s req = Inr (p, req', s') \<and>
      same_table s s' \<and> req'\<lparr>hv := hv req\<rparr> = req \<and> hv_ok hash req' \<and>
      (p \<in> P \<and> fst (payload (heap s) p) = obj_id_int req \<or>
       p = NULL \<and> obj_id_int req \<notin> fst ` objs (heap s) P)"
    if "ht_v1 hash s P" "hv_ok hash req" for s P req
    using chained_hashtable_find_correct [OF that(1), of req] that(2)
    by (fastforce simp: hashtable_ver1_def hv_ok_def)
  show "\<exists>p s' P' xs'. hashtable_insert (hashtable_ver1 hash) s req = Inr (p, s') \<and>
      ht_v1 hash s' (insert p P') \<and> p \<notin> P' \<and> linked s' (insert p P') xs' \<and> set xs' \<subseteq> P' \<and>
      same_view (heap s) P xs (heap s') P' xs' \<and>
      payload (heap s') p = (obj_id_int req, ucast (obj_size req))"
    if "ht_v1 hash s P" "linked s P xs" "obj_id_int req \<notin> fst ` objs (heap s) P"
      "(ucast (obj_size req) :: u32) \<noteq> 0" "card P < 2 ^ 48" for s P xs req
    using chained_hashtable_insert_correct [OF that] by (simp add: hashtable_ver1_def)
  show "finite P \<and> ids_ok (heap s) P \<and> card P \<le> 2 ^ 48 \<and> unat (n_cur_item s) = card P"
    if "ht_v1 hash s P" for s P
    using ht_v1D(1,3) [OF that] that by (auto elim!: ht_v1_obtain)
qed (use create_chained_hashtable_correct chained_hashtable_delete_correct ht_v1_relink ht_v1_resize
    ht_v1_same_table ht_v1_alloc in \<open>simp_all add: hashtable_ver1_def\<close>)


section \<open>Version 2\<close>

lemma create_chained_hashtable_v2_correct:
  assumes "\<And>p. heap s p = None" "vars s = (\<lambda>_. NULL)" "unat pw \<le> 49"
  shows "ht_v2 hash (create_chained_hashtable_v2 pw s) {} \<and> linked (create_chained_hashtable_v2 pw s) {} []"
proof -
  have "tbl_v2 hash pw (\<lambda>_. NULL) (heap s) (\<lambda>_. [])" by (simp add: tbl_v2_def bucket_v2_def)
  moreover have "{} = ptrs pw (\<lambda>_. [])" by (simp add: ptrs_def)
  ultimately show ?thesis
    using assms by (auto simp: create_chained_hashtable_v2_def linked_def dll_def ids_ok_def
      intro!: ht_v2I [where C = "\<lambda>_. []"])
qed

lemma ht_v2_relink:
  assumes h: "ht_v2 hash s P" and r: "relinked P (heap s) h"
  shows "ht_v2 hash (s\<lparr>heap := h, vars := v\<rparr>) P"
proof -
  obtain C where C: "tbl_v2 hash (hash_power s) (ptr_table s) (heap s) C" "P = ptrs (hash_power s) C"
    using h by (rule ht_v2_obtain)
  have "tbl_v2 hash (hash_power s) (ptr_table s) h C"
    using C(1) hchain_core [of _ h "heap s"] in_bucket_core [of h _ "heap s"] relinked_core [OF r]
    by (simp add: tbl_v2_def bucket_v2_def)
  moreover have "ids_ok h P" using ht_v2D(1) [OF h] by (simp add: ids_ok_def relinked_payload [OF r] comp_def)
  ultimately show ?thesis
    using C(2) ht_v2D [OF h] by (intro ht_v2I) (simp_all add: relinked_None [OF r])
qed

lemma ht_v2_resize:
  assumes h: "ht_v2 hash s P" and p: "p \<in> P" "heap s p = Some x" and z: "z \<noteq> 0"
  shows "ht_v2 hash (s\<lparr>heap := (heap s)(p \<mapsto> x\<lparr>o_size := z\<rparr>)\<rparr>) P"
proof -
  let ?h = "(heap s)(p \<mapsto> x\<lparr>o_size := z\<rparr>)"
  obtain C where C: "tbl_v2 hash (hash_power s) (ptr_table s) (heap s) C" "P = ptrs (hash_power s) C"
    using h by (rule ht_v2_obtain)
  note f = resize_facts [of "heap s" p x z, OF p(2)]
  have "tbl_v2 hash (hash_power s) (ptr_table s) ?h C"
    using C(1) hchain_nexts [of ?h "heap s", OF f(1)] in_bucket_resize [of "heap s" p x z, OF p(2) z]
    by (auto simp: tbl_v2_def bucket_v2_def)
  moreover have "ids_ok ?h P" using ht_v2D(1) [OF h] f(2) by (simp add: ids_ok_def comp_def del: payload_upd)
  ultimately show ?thesis
    using C(2) ht_v2D [OF h] f(4) by (intro ht_v2I) (simp_all del: fun_upd_apply)
qed

interpretation v2: hashtable_spec "hashtable_ver2 hash" hash "ht_v2 hash" for hash
proof
  show "\<exists>p req' s'. hashtable_find (hashtable_ver2 hash) s req = Inr (p, req', s') \<and>
      same_table s s' \<and> req'\<lparr>hv := hv req\<rparr> = req \<and> hv_ok hash req' \<and>
      (p \<in> P \<and> fst (payload (heap s) p) = obj_id_int req \<or>
       p = NULL \<and> obj_id_int req \<notin> fst ` objs (heap s) P)"
    if "ht_v2 hash s P" "hv_ok hash req" for s P req
    using chained_hashtable_find_obj_id_v2_correct [OF that(1), of "obj_id_int req"] that(2)
    by (auto simp: hashtable_ver2_def chained_hashtable_find_v2_def)
  show "\<exists>p s' P' xs'. hashtable_insert (hashtable_ver2 hash) s req = Inr (p, s') \<and>
      ht_v2 hash s' (insert p P') \<and> p \<notin> P' \<and> linked s' (insert p P') xs' \<and> set xs' \<subseteq> P' \<and>
      same_view (heap s) P xs (heap s') P' xs' \<and>
      payload (heap s') p = (obj_id_int req, ucast (obj_size req))"
    if "ht_v2 hash s P" "linked s P xs" "obj_id_int req \<notin> fst ` objs (heap s) P"
      "(ucast (obj_size req) :: u32) \<noteq> 0" "card P < 2 ^ 48" for s P xs req
  proof -
    have "set xs \<subseteq> P" using that(2) by (simp add: linked_def)
    then show ?thesis
      using chained_hashtable_insert_v2_correct [OF that] unfolding hashtable_ver2_def by auto
  qed
  show "\<exists>s' P' xs'. hashtable_delete (hashtable_ver2 hash) s p = Inr s' \<and> ht_v2 hash s' P' \<and>
      linked s' P' xs' \<and> same_view (heap s) (P - {p}) xs (heap s') P' xs'"
    if "ht_v2 hash s P" "p \<in> P" "linked s (P - {p}) xs" "stale s xs p" for s P p xs
    using chained_hashtable_delete_v2_correct [OF that(1-3)] unfolding hashtable_ver2_def by auto
  show "ht_v2 hash s' P = ht_v2 hash s P" if "same_table s s'" for s s' P
    using same_tableD [OF that] by (simp add: ht_v2_def)
  show "finite P \<and> ids_ok (heap s) P \<and> card P \<le> 2 ^ 48 \<and> unat (n_cur_item s) = card P"
    if "ht_v2 hash s P" for s P
    using ht_v2D(1,3) [OF that] that by (auto elim!: ht_v2_obtain)
qed (use create_chained_hashtable_v2_correct ht_v2_relink ht_v2_resize
    ht_v2_alloc in \<open>simp_all add: hashtable_ver2_def\<close>)

end
