(* ===== verification/Cache.thy ===== *)
theory Cache
  imports Hashtable
begin

text \<open>
  \<^verbatim>\<open>cache/cache.c\<close>: the cache structure of \<^verbatim>\<open>include/libCacheSim/cache.h\<close> and the functions the
  eviction algorithms share. The hash table is called through the operations \<open>H\<close>. The function
  pointers \<^verbatim>\<open>check\<close>, \<^verbatim>\<open>insert\<close> and \<^verbatim>\<open>evict\<close> of a cache, which \<^verbatim>\<open>cache_struct_init\<close> looks up by
  name, are the record \<open>cache_ops\<close>. The list ends \<^verbatim>\<open>list_head\<close> and \<^verbatim>\<open>list_tail\<close> are variables of the
  store, because the hash table redirects them when it moves objects.
\<close>

section \<open>State\<close>

record cache_t =
  hashtable :: hashtable_t
  req_cnt :: u64
  cache_size :: u64
  occupied_size :: u64
  n_obj :: u64
  default_ttl :: u64

record common_cache_params_t =
  p_cache_size :: u64
  p_default_ttl :: u64
  p_hash_power :: int

record cache_ops =
  check :: "cache_t \<Rightarrow> request_t \<Rightarrow> bool \<Rightarrow> (cache_ck_res_e \<times> request_t \<times> cache_t) result"
  insert_op :: "cache_t \<Rightarrow> request_t \<Rightarrow> cache_t result"
  evict :: "cache_t \<Rightarrow> request_t \<Rightarrow> bool \<Rightarrow> (cache_obj_t option \<times> cache_t) result"

text \<open>The memory before the cache is created.\<close>

definition empty_store :: hashtable_t where
  "empty_store = \<lparr>heap = (\<lambda>_. None), next_obj = 0, next_tbl = 0, vars = (\<lambda>_. NULL), table = 0,
     ptr_table = (\<lambda>_. NULL), n_cur_item = 0, hash_power = 0, n_lookup = 0, n_chain_walk = 0,
     monitored_ptrs = [], n_allocated_ptrs = 0, rand_seed = 0\<rparr>"

definition HASH_POWER_DEFAULT :: int where
  "HASH_POWER_DEFAULT = 24"

definition cache_struct_init :: "ht_ops \<Rightarrow> common_cache_params_t \<Rightarrow> cache_t" where
  "cache_struct_init H params =
    (let pw = (if p_hash_power params > 0 \<and> p_hash_power params < 40 then p_hash_power params
               else HASH_POWER_DEFAULT);
         s = create_hashtable H (of_int pw) empty_store;
         s = hashtable_add_ptr_to_monitoring H s list_head;
         s = hashtable_add_ptr_to_monitoring H s list_tail
     in \<lparr>hashtable = s, req_cnt = 0, cache_size = p_cache_size params, occupied_size = 0, n_obj = 0,
         default_ttl = p_default_ttl params\<rparr>)"

text \<open>The parameters \<^verbatim>\<open>create_cache_with_new_size\<close> hands to the algorithm's \<^verbatim>\<open>cache_init\<close>, which is
  \<^verbatim>\<open>cache_struct_init\<close> for the algorithms modelled here; the \<^verbatim>\<open>hash_power\<close> it leaves out is 0.\<close>

definition create_cache_with_new_size :: "ht_ops \<Rightarrow> cache_t \<Rightarrow> u64 \<Rightarrow> cache_t" where
  "create_cache_with_new_size H old_cache new_size =
    cache_struct_init H \<lparr>p_cache_size = new_size, p_default_ttl = default_ttl old_cache, p_hash_power = 0\<rparr>"

definition cache_struct_free :: "ht_ops \<Rightarrow> cache_t \<Rightarrow> hashtable_t result" where
  "cache_struct_free H cache = free_hashtable H (hashtable cache)"

section \<open>Operations\<close>

text \<open>The result, the object found (\<^verbatim>\<open>*cache_obj_ret\<close>), the request with its hash value, the cache.\<close>

definition cache_check ::
  "ht_ops \<Rightarrow> cache_t \<Rightarrow> request_t \<Rightarrow> bool \<Rightarrow> (cache_ck_res_e \<times> ptr \<times> request_t \<times> cache_t) result" where
  "cache_check H cache req update_cache =
    rbind (hashtable_find H (hashtable cache) req) (\<lambda>(cache_obj, req, s).
    let cache = cache\<lparr>hashtable := s\<rparr> in
    if cache_obj = NULL then Inr (cache_ck_miss, cache_obj, req, cache)
    else if update_cache then
      rbind (load (heap s) cache_obj) (\<lambda>x.
      if ucast (o_size x) \<noteq> obj_size req then
        rbind (modify (heap s) cache_obj (\<lambda>x. x\<lparr>o_size := ucast (obj_size req)\<rparr>)) (\<lambda>h.
        Inr (cache_ck_hit, cache_obj, req,
          cache\<lparr>occupied_size := occupied_size cache - ucast (o_size x) + obj_size req,
                hashtable := s\<lparr>heap := h\<rparr>\<rparr>))
      else Inr (cache_ck_hit, cache_obj, req, cache))
    else Inr (cache_ck_hit, cache_obj, req, cache))"

definition cache_insert_LRU :: "ht_ops \<Rightarrow> cache_t \<Rightarrow> request_t \<Rightarrow> (ptr \<times> cache_t) result" where
  "cache_insert_LRU H cache req =
    (let cache = cache\<lparr>occupied_size := occupied_size cache + obj_size req\<rparr> in
     rbind (hashtable_insert H (hashtable cache) req) (\<lambda>(cache_obj, s).
     let cache = cache\<lparr>n_obj := n_obj cache + 1\<rparr> in
     rbind (if vars s list_head = NULL then
              Inr (s\<lparr>vars := (vars s)(list_head := cache_obj, list_tail := cache_obj)\<rparr>)
            else
              rbind (modify (heap s) (vars s list_tail) (set_next cache_obj)) (\<lambda>h.
              rbind (modify h cache_obj (set_prev (vars s list_tail))) (\<lambda>h.
              Inr (s\<lparr>heap := h\<rparr>)))) (\<lambda>s.
     Inr (cache_obj, cache\<lparr>hashtable := s\<lparr>vars := (vars s)(list_tail := cache_obj)\<rparr>\<rparr>))))"

text \<open>The copy of the evicted object that is made when the caller passes a non-null
  \<^verbatim>\<open>evicted_obj\<close>.\<close>

definition copy_evicted :: "hashtable_t \<Rightarrow> ptr \<Rightarrow> bool \<Rightarrow> cache_obj_t option result" where
  "copy_evicted s obj_to_evict want =
    (if want then rbind (load (heap s) obj_to_evict) (\<lambda>x. Inr (Some x)) else Inr None)"

definition cache_evict ::
  "ht_ops \<Rightarrow> cache_t \<Rightarrow> request_t \<Rightarrow> bool \<Rightarrow> (cache_obj_t option \<times> cache_t) result" where
  "cache_evict H cache req want =
    (let s = hashtable cache; obj_to_evict = vars s list_head;
         cache = cache\<lparr>n_obj := n_obj cache - 1\<rparr> in
     rbind (copy_evicted s obj_to_evict want) (\<lambda>evicted_obj.
     rbind (load (heap s) obj_to_evict) (\<lambda>x.
     let s = s\<lparr>vars := (vars s)(list_head := list_next x)\<rparr> in
     rbind (modify (heap s) (vars s list_head) (set_prev NULL)) (\<lambda>h.
     let s = s\<lparr>heap := h\<rparr> in
     rbind (load (heap s) obj_to_evict) (\<lambda>x.
     let cache = cache\<lparr>occupied_size := occupied_size cache - ucast (o_size x)\<rparr> in
     rbind (hashtable_delete H s obj_to_evict) (\<lambda>s.
     Inr (evicted_obj, cache\<lparr>hashtable := s\<rparr>)))))))"

definition cache_get_obj :: "ht_ops \<Rightarrow> cache_t \<Rightarrow> request_t \<Rightarrow> (ptr \<times> request_t \<times> cache_t) result" where
  "cache_get_obj H cache req =
    rbind (hashtable_find H (hashtable cache) req) (\<lambda>(p, req, s). Inr (p, req, cache\<lparr>hashtable := s\<rparr>))"

text \<open>\<^verbatim>\<open>while (cache->occupied_size > cache->cache_size) cache->evict(cache, req, NULL)\<close>\<close>

fun evict_loop :: "nat \<Rightarrow> cache_ops \<Rightarrow> cache_t \<Rightarrow> request_t \<Rightarrow> cache_t result" where
  "evict_loop 0 V cache req = Inl Diverges"
| "evict_loop (Suc fuel) V cache req =
    (if occupied_size cache > cache_size cache then
       rbind (evict V cache req False) (\<lambda>(_, cache). evict_loop fuel V cache req)
     else Inr cache)"

definition cache_get ::
  "cache_ops \<Rightarrow> cache_t \<Rightarrow> request_t \<Rightarrow> (cache_ck_res_e \<times> request_t \<times> cache_t) result" where
  "cache_get V cache req =
    rbind (check V cache req True) (\<lambda>(cache_check, req, cache).
    rbind (if obj_size req \<le> cache_size cache then
             rbind (if cache_check = cache_ck_miss then insert_op V cache req else Inr cache) (\<lambda>cache.
             evict_loop (chain_bound (hashtable cache)) V cache req)
           else Inr cache) (\<lambda>cache.
    Inr (cache_check, req, cache\<lparr>req_cnt := req_cnt cache + 1\<rparr>)))"

text \<open>\<^verbatim>\<open>get_cache_state\<close> of \<^verbatim>\<open>cache/include/cacheUtils.h\<close>: the number and the bytes of the objects.\<close>

definition get_cache_state :: "ht_ops \<Rightarrow> cache_t \<Rightarrow> (u64 \<times> u64) result" where
  "get_cache_state H cache =
    rbind (hashtable_foreach H (hashtable cache)) (\<lambda>ps.
    Inr (fold (\<lambda>p (cnt, bytes). (cnt + 1, bytes + ucast (o_size (the (heap (hashtable cache) p))))) ps (0, 0)))"

section \<open>The cache as a list of objects\<close>

text \<open>The abstract cache: the ids and sizes of its objects, the list head first.\<close>

type_synonym contents = "(obj_id_t \<times> u32) list"

definition total_size :: "contents \<Rightarrow> nat" where
  "total_size L = sum_list (map (unat \<circ> snd) L)"

lemma total_size_simps [simp]:
  "total_size [] = 0" "total_size (x # L) = unat (snd x) + total_size L" "total_size (L @ M) = total_size L + total_size M"
  by (simp_all add: total_size_def)

text \<open>\<open>cache_at ht cnt c xs\<close>: the table and the list of \<open>c\<close> hold the objects at \<open>xs\<close>, and
  \<^verbatim>\<open>occupied_size\<close> is the sum of their sizes; \<open>cnt\<close> says whether \<^verbatim>\<open>n_obj\<close> is their number.\<close>

definition cache_at :: "(hashtable_t \<Rightarrow> ptr set \<Rightarrow> bool) \<Rightarrow> bool \<Rightarrow> cache_t \<Rightarrow> ptr list \<Rightarrow> bool" where
  "cache_at ht cnt c xs \<longleftrightarrow> ht (hashtable c) (set xs) \<and> linked (hashtable c) (set xs) xs \<and>
    occupied_size c = of_nat (total_size (view (heap (hashtable c)) xs)) \<and>
    (cnt \<longrightarrow> n_obj c = of_nat (length xs))"

definition cache_rep :: "(hashtable_t \<Rightarrow> ptr set \<Rightarrow> bool) \<Rightarrow> bool \<Rightarrow> cache_t \<Rightarrow> contents \<Rightarrow> bool" where
  "cache_rep ht cnt c L \<longleftrightarrow> (\<exists>xs. cache_at ht cnt c xs \<and> L = view (heap (hashtable c)) xs)"


lemma linked_all: "linked s (set xs) xs \<longleftrightarrow> dll (heap s) (vars s list_head) (vars s list_tail) xs"
  by (simp add: linked_def)

text \<open>A request whose size fits the 32 bits of the objects and is not 0.\<close>

definition fits :: "request_t \<Rightarrow> bool" where
  "fits req \<longleftrightarrow> 0 < unat (obj_size req) \<and> unat (obj_size req) < 2 ^ 32"

abbreviation size32 :: "request_t \<Rightarrow> u32" where
  "size32 req \<equiv> ucast (obj_size req)"

lemma fitsD:
  assumes "fits req"
  shows "size32 req \<noteq> 0" "unat (size32 req) = unat (obj_size req)" "ucast (size32 req) = obj_size req"
    "obj_size req = of_nat (unat (size32 req))"
proof -
  have u: "unat (size32 req) = unat (obj_size req)"
    using assms by (simp add: fits_def unsigned_ucast_eq take_bit_nat_eq_self)
  then show "unat (size32 req) = unat (obj_size req)" .
  then show "size32 req \<noteq> 0" using assms by (auto simp: fits_def)
  show e: "obj_size req = of_nat (unat (size32 req))" by (simp add: u)
  show "ucast (size32 req) = obj_size req"
    by (subst (2) e) (simp add: unsigned_of_nat flip: unat_eq_nat_uint)
qed

lemma ucast_u32: "(ucast (z :: u32) :: u64) = of_nat (unat z)"
  by simp

lemma ucast_back [simp]: "(ucast (ucast (z :: u32) :: u64) :: u32) = z"
  by (rule bit_word_eqI) (auto simp: bit_simps)

lemma total_size_split: "total_size (A @ x # B) = total_size A + unat (snd x) + total_size B"
  by simp

text \<open>When all objects are in the list, they still are after an operation that keeps the view.\<close>

lemma same_view_all:
  assumes "same_view h (set xs) xs h' P' xs'" "distinct xs" "distinct xs'" "set xs' \<subseteq> P'" "finite P'"
  shows "P' = set xs'"
proof -
  have "length xs' = length xs" using assms(1) by (metis same_view_def length_map)
  then have "card P' = card (set xs')" using assms(1-3) by (simp add: same_view_def distinct_card)
  then show ?thesis using assms(4,5) by (metis card_subset_eq)
qed

lemma heap_vars_commute: "(s :: hashtable_t)\<lparr>vars := v, heap := h\<rparr> = s\<lparr>heap := h, vars := v\<rparr>"
  by (cases s) simp

text \<open>Appending an unlinked object to the list, as \<^verbatim>\<open>cache_insert_LRU\<close> does.\<close>

lemma append_to_list:
  assumes d: "dll (heap s) (vars s list_head) (vars s list_tail) xs"
    and p: "heap s p = Some x" "list_prev x = NULL" "list_next x = NULL" "p \<noteq> NULL" "p \<notin> set xs"
  shows "\<exists>h v. rbind (if vars s list_head = NULL then
              Inr (s\<lparr>vars := (vars s)(list_head := p, list_tail := p)\<rparr>)
            else
              rbind (modify (heap s) (vars s list_tail) (set_next p)) (\<lambda>h.
              rbind (modify h p (set_prev (vars s list_tail))) (\<lambda>h.
              Inr (s\<lparr>heap := h\<rparr>)))) (\<lambda>s. Inr (s\<lparr>vars := (vars s)(list_tail := p)\<rparr>)) =
      Inr (s\<lparr>heap := h, vars := v\<rparr>) \<and>
    dll h (v list_head) (v list_tail) (xs @ [p]) \<and> relinked (set (xs @ [p])) (heap s) h"
proof (cases xs rule: rev_cases)
  case Nil
  let ?v = "(vars s)(list_head := p, list_tail := p)"
  show ?thesis using d p Nil
    by (intro exI [of _ "heap s"] exI [of _ ?v]) (auto simp: dll_def links_Some)
next
  case (snoc ys t)
  have t: "vars s list_tail = t" "vars s list_head \<noteq> NULL" "t \<noteq> NULL" "t \<noteq> p"
    using d p snoc by (cases ys; auto simp: dll_def)+
  obtain xt where xt: "heap s t = Some xt" "list_prev xt = last_or NULL ys" "list_next xt = NULL"
    using d snoc by (auto simp: dll_def links_Some)
  let ?h = "(heap s)(t \<mapsto> set_next p xt, p \<mapsto> set_prev t x)" and ?v = "(vars s)(list_tail := p)"
  have "dll ?h (?v list_head) (?v list_tail) (xs @ [p])"
    using d p snoc t xt by (auto simp: dll_def)
  moreover have "relinked (set (xs @ [p])) (heap s) ?h"
    using p(1) xt(1) t snoc by (auto simp: relinked_def)
  ultimately show ?thesis using p t xt
    by (intro exI [of _ ?h] exI [of _ ?v]) (simp add: c_simps)
qed

context hashtable_spec
begin

lemma cache_at_find:
  assumes c: "cache_at ht cnt c xs" and hv: "hv_ok hash req"
  shows "\<exists>p req' s'. hashtable_find H (hashtable c) req = Inr (p, req', s') \<and>
    same_table (hashtable c) s' \<and> req'\<lparr>hv := hv req\<rparr> = req \<and> hv_ok hash req' \<and>
    cache_at ht cnt (c\<lparr>hashtable := s'\<rparr>) xs \<and>
    (p \<in> set xs \<and> fst (payload (heap (hashtable c)) p) = obj_id_int req \<or>
     p = NULL \<and> obj_id_int req \<notin> fst ` set (view (heap (hashtable c)) xs))"
proof -
  have h: "ht (hashtable c) (set xs)" using c by (simp add: cache_at_def)
  from find [OF h hv] obtain p req' s' where f: "hashtable_find H (hashtable c) req = Inr (p, req', s')"
    "same_table (hashtable c) s'" "req'\<lparr>hv := hv req\<rparr> = req" "hv_ok hash req'"
    "p \<in> set xs \<and> fst (payload (heap (hashtable c)) p) = obj_id_int req \<or>
     p = NULL \<and> obj_id_int req \<notin> fst ` objs (heap (hashtable c)) (set xs)" by blast
  moreover have "cache_at ht cnt (c\<lparr>hashtable := s'\<rparr>) xs"
    using c counters [OF f(2)] same_tableD [OF f(2)] by (simp add: cache_at_def linked_all)
  ultimately show ?thesis by (auto simp: objs_def)
qed

lemma cache_check_miss:
  assumes c: "cache_at ht cnt c xs" and hv: "hv_ok hash req"
    and k: "obj_id_int req \<notin> fst ` set (view (heap (hashtable c)) xs)"
  shows "\<exists>req' s'. cache_check H c req b = Inr (cache_ck_miss, NULL, req', c\<lparr>hashtable := s'\<rparr>) \<and>
    req'\<lparr>hv := hv req\<rparr> = req \<and> hv_ok hash req' \<and> cache_at ht cnt (c\<lparr>hashtable := s'\<rparr>) xs \<and>
    view (heap s') xs = view (heap (hashtable c)) xs"
proof -
  from cache_at_find [OF c hv] obtain p req' s' where f: "hashtable_find H (hashtable c) req = Inr (p, req', s')"
    "same_table (hashtable c) s'" "req'\<lparr>hv := hv req\<rparr> = req" "hv_ok hash req'"
    "cache_at ht cnt (c\<lparr>hashtable := s'\<rparr>) xs"
    "p \<in> set xs \<and> fst (payload (heap (hashtable c)) p) = obj_id_int req \<or> p = NULL" by blast
  have "p = NULL" using f(6) k by force
  then show ?thesis using f same_tableD(1) [OF f(2)]
    by (intro exI [of _ req'] exI [of _ s']) (simp add: cache_check_def)
qed

lemma cache_check_hit:
  assumes c: "cache_at ht cnt c xs" and hv: "hv_ok hash req" and fit: "fits req"
    and k: "obj_id_int req \<in> fst ` set (view (heap (hashtable c)) xs)"
  shows "\<exists>p req' c' as bs. cache_check H c req True = Inr (cache_ck_hit, p, req', c') \<and>
    req'\<lparr>hv := hv req\<rparr> = req \<and> hv_ok hash req' \<and> cache_size c' = cache_size c \<and> req_cnt c' = req_cnt c \<and>
    cache_at ht cnt c' xs \<and> xs = as @ p # bs \<and> fst (payload (heap (hashtable c)) p) = obj_id_int req \<and>
    view (heap (hashtable c')) xs =
      view (heap (hashtable c)) as @ (obj_id_int req, size32 req) # view (heap (hashtable c)) bs"
proof -
  let ?s = "hashtable c"
  have h: "ht ?s (set xs)" using c by (simp add: cache_at_def)
  from cache_at_find [OF c hv] obtain p req' s' where f: "hashtable_find H ?s req = Inr (p, req', s')"
    "same_table ?s s'" "req'\<lparr>hv := hv req\<rparr> = req" "hv_ok hash req'"
    "cache_at ht cnt (c\<lparr>hashtable := s'\<rparr>) xs"
    "p \<in> set xs" "fst (payload (heap ?s) p) = obj_id_int req"
    using k by blast
  note st = same_tableD [OF f(2)]
  have r: "obj_size req' = obj_size req" using arg_cong [OF f(3), of obj_size] by simp
  obtain as bs where xs: "xs = as @ p # bs" using f(6) by (meson split_list)
  have "distinct xs" using c by (simp add: cache_at_def linked_all dll_def)
  then have np: "p \<notin> set as" "p \<notin> set bs" by (auto simp: xs)
  obtain x where x: "heap ?s p = Some x" "p \<noteq> NULL" using alloc [OF h f(6)] by auto
  have px: "payload (heap ?s) p = (obj_id_int req, o_size x)" using f(7) x by (simp add: payload_def)
  show ?thesis
  proof (cases "ucast (o_size x) = obj_size req")
    case True
    then have z: "size32 req = o_size x" by (metis ucast_back)
    have "cache_check H c req True = Inr (cache_ck_hit, p, req', c\<lparr>hashtable := s'\<rparr>)"
      using f x True r by (simp add: cache_check_def st c_simps)
    moreover have "view (heap s') xs = view (heap ?s) as @ (obj_id_int req, size32 req) # view (heap ?s) bs"
      by (simp add: xs st px z)
    ultimately show ?thesis using f xs
      by (intro exI [of _ p] exI [of _ req'] exI [of _ "c\<lparr>hashtable := s'\<rparr>"] exI [of _ as] exI [of _ bs]) simp
  next
    case False
    let ?h = "(heap ?s)(p \<mapsto> x\<lparr>o_size := size32 req\<rparr>)"
    let ?c = "c\<lparr>occupied_size := occupied_size c - ucast (o_size x) + obj_size req, hashtable := s'\<lparr>heap := ?h\<rparr>\<rparr>"
    have run: "cache_check H c req True = Inr (cache_ck_hit, p, req', ?c)"
      using f x False r by (simp add: cache_check_def st c_simps)
    have v: "view ?h xs = view (heap ?s) as @ (obj_id_int req, size32 req) # view (heap ?s) bs"
      using np px x by (auto simp: xs payload_def)
    have "ht (s'\<lparr>heap := ?h\<rparr>) (set xs)"
      using resize [of s' "set xs" p x "size32 req"] f(5,6) x fitsD(1) [OF fit]
      by (simp add: st cache_at_def)
    moreover have "links ?h = links (heap ?s)" using x by (intro links_keep) auto
    moreover have "occupied_size ?c = of_nat (total_size (view ?h xs))"
      using c unfolding v by (simp add: cache_at_def xs px fitsD(3) [OF fit])
    ultimately have "cache_at ht cnt ?c xs"
      using c by (simp add: cache_at_def linked_all dll_def st)
    then show ?thesis using run f v xs
      by (intro exI [of _ p] exI [of _ req'] exI [of _ ?c] exI [of _ as] exI [of _ bs]) simp
  qed
qed

lemma cache_insert_LRU_correct:
  assumes c: "cache_at ht cnt c xs" and fit: "fits req" and n: "length xs < 2 ^ 48"
    and k: "obj_id_int req \<notin> fst ` set (view (heap (hashtable c)) xs)"
  shows "\<exists>p c' xs'. cache_insert_LRU H c req = Inr (p, c') \<and> cache_at ht cnt c' (xs' @ [p]) \<and>
    cache_size c' = cache_size c \<and> req_cnt c' = req_cnt c \<and>
    view (heap (hashtable c')) (xs' @ [p]) = view (heap (hashtable c)) xs @ [(obj_id_int req, size32 req)]"
proof -
  let ?s = "hashtable c"
  have h: "ht ?s (set xs)" and l: "linked ?s (set xs) xs" and d: "distinct xs"
    using c by (auto simp: cache_at_def linked_all dll_def)
  have "card (set xs) < 2 ^ 48" using n d by (simp add: distinct_card)
  then obtain p s1 P1 xs1 where i: "hashtable_insert H ?s req = Inr (p, s1)" "ht s1 (Set.insert p P1)" "p \<notin> P1"
    "linked s1 (Set.insert p P1) xs1" "set xs1 \<subseteq> P1" "same_view (heap ?s) (set xs) xs (heap s1) P1 xs1"
    "payload (heap s1) p = (obj_id_int req, size32 req)"
    using insert [OF h l _ fitsD(1) [OF fit]] k by (auto simp: objs_def)
  have d1: "distinct xs1" using i(4) by (simp add: linked_def dll_def)
  have len: "length xs1 = length xs" using i(6) by (metis same_view_def length_map)
  have "finite P1" using ids [OF i(2)] by simp
  then have P1: "P1 = set xs1" using same_view_all [OF i(6) d d1 i(5)] by simp
  have dl: "dll (heap s1) (vars s1 list_head) (vars s1 list_tail) xs1"
    and pl: "links (heap s1) p = Some (NULL, NULL)"
    using i(3,4) P1 by (auto simp: linked_def)
  obtain x where x: "heap s1 p = Some x" "list_prev x = NULL" "list_next x = NULL" "p \<noteq> NULL"
    using pl alloc [OF i(2), of p] by (auto simp: links_Some)
  have pxs: "p \<notin> set xs1" using i(3,5) by auto
  from append_to_list [OF dl x(1-4) pxs] obtain h2 v2 where
    ap: "rbind (if vars s1 list_head = NULL then
              Inr (s1\<lparr>vars := (vars s1)(list_head := p, list_tail := p)\<rparr>)
            else
              rbind (modify (heap s1) (vars s1 list_tail) (set_next p)) (\<lambda>h.
              rbind (modify h p (set_prev (vars s1 list_tail))) (\<lambda>h.
              Inr (s1\<lparr>heap := h\<rparr>)))) (\<lambda>s. Inr (s\<lparr>vars := (vars s)(list_tail := p)\<rparr>)) =
      Inr (s1\<lparr>heap := h2, vars := v2\<rparr>)"
    and dl2: "dll h2 (v2 list_head) (v2 list_tail) (xs1 @ [p])"
    and rl: "relinked (set (xs1 @ [p])) (heap s1) h2" by blast
  let ?c = "c\<lparr>occupied_size := occupied_size c + obj_size req, n_obj := n_obj c + 1,
    hashtable := s1\<lparr>heap := h2, vars := v2\<rparr>\<rparr>"
  have run: "cache_insert_LRU H c req = Inr (p, ?c)"
    using ap unfolding cache_insert_LRU_def Let_def by (auto simp: i(1) rbind_eq_Inr)
  have lk2: "linked (s1\<lparr>heap := h2, vars := v2\<rparr>) (set (xs1 @ [p])) (xs1 @ [p])"
    using dl2 by (subst linked_all) simp
  have v: "view h2 (xs1 @ [p]) = view (heap ?s) xs @ [(obj_id_int req, size32 req)]"
    using i(6,7) by (simp add: same_view_def relinked_payload' [OF rl])
  have "ht (s1\<lparr>heap := h2, vars := v2\<rparr>) (set (xs1 @ [p]))"
    using relink [OF i(2), of h2 v2] rl P1 by simp
  moreover have "occupied_size ?c = of_nat (total_size (view h2 (xs1 @ [p])))"
    using c unfolding v by (simp add: cache_at_def fitsD(3) [OF fit])
  ultimately have "cache_at ht cnt ?c (xs1 @ [p])"
    using c lk2 len by (simp add: cache_at_def)
  with run v show ?thesis by (intro exI [of _ p] exI [of _ ?c] exI [of _ xs1]) simp
qed

lemma cache_at_delete:
  assumes h: "ht s (set (as @ p # bs))" and d: "distinct (as @ p # bs)"
    and l: "dll (heap s) (vars s list_head) (vars s list_tail) (as @ bs)" and st: "stale s (as @ bs) p"
  shows "\<exists>s' xs'. hashtable_delete H s p = Inr s' \<and> ht s' (set xs') \<and> linked s' (set xs') xs' \<and>
    view (heap s') xs' = view (heap s) (as @ bs)"
proof -
  have e: "set (as @ p # bs) - {p} = set (as @ bs)" using d by auto
  have "linked s (set (as @ bs)) (as @ bs)" using l by (subst linked_all) simp
  then obtain s' P' xs' where r: "hashtable_delete H s p = Inr s'" "ht s' P'" "linked s' P' xs'"
    "same_view (heap s) (set (as @ bs)) (as @ bs) (heap s') P' xs'"
    using delete [OF h _ _ st] unfolding e by auto
  have "P' = set xs'"
    using same_view_all [OF r(4)] d r(3) ids [OF r(2)] by (auto simp: linked_def dll_def)
  with r show ?thesis by (auto simp: same_view_def)
qed

lemma cache_evict_correct:
  assumes c: "cache_at ht cnt c (p # q # xs)"
  shows "\<exists>c' xs' ev. cache_evict H c req want = Inr (ev, c') \<and> cache_at ht cnt c' xs' \<and>
    cache_size c' = cache_size c \<and> req_cnt c' = req_cnt c \<and>
    view (heap (hashtable c')) xs' = view (heap (hashtable c)) (q # xs) \<and>
    ev = (if want then heap (hashtable c) p else None)"
proof -
  let ?s = "hashtable c"
  have h: "ht ?s (set (p # q # xs))" and d: "distinct (p # q # xs)"
    and l: "dll (heap ?s) (vars ?s list_head) (vars ?s list_tail) (p # q # xs)"
    using c by (simp_all add: cache_at_def linked_def dll_def)
  obtain x y where x: "heap ?s p = Some x" "list_prev x = NULL" "list_next x = q" "p \<noteq> NULL"
    and y: "heap ?s q = Some y" "list_prev y = p" "list_next y = first_or xs NULL" "q \<noteq> NULL"
    using l by (auto simp: dll_def links_Some)
  let ?h = "(heap ?s)(q \<mapsto> set_prev NULL y)" and ?v = "(vars ?s)(list_head := q)"
  let ?s1 = "?s\<lparr>vars := ?v, heap := ?h\<rparr>"
  have rl: "relinked (set (p # q # xs)) (heap ?s) ?h" using y(1) by (auto simp: relinked_def)
  have h1: "ht ?s1 (set ([] @ p # q # xs))" using relink [OF h rl, of ?v] by (simp add: heap_vars_commute)
  have l1: "dll (heap ?s1) (vars ?s1 list_head) (vars ?s1 list_tail) ([] @ q # xs)"
    using l d y by (auto simp: dll_def links_Some)
  have st: "stale ?s1 ([] @ q # xs) p" using x y d by (auto simp: stale_def links_def)
  have d1: "distinct ([] @ p # q # xs)" using d by simp
  from cache_at_delete [OF h1 d1 l1 st] obtain s' xs' where
    s': "hashtable_delete H ?s1 p = Inr s'" "ht s' (set xs')" "linked s' (set xs') xs'"
      "view (heap s') xs' = view (heap ?s1) ([] @ q # xs)" by blast
  let ?c = "c\<lparr>n_obj := n_obj c - 1, occupied_size := occupied_size c - ucast (o_size x), hashtable := s'\<rparr>"
  have v: "view (heap s') xs' = view (heap ?s) (q # xs)" using s'(4) relinked_payload' [OF rl] by simp
  have hd: "vars ?s list_head = p" using l by (simp add: dll_def)
  have run: "cache_evict H c req want = Inr (if want then Some x else None, ?c)"
    using x y d s'(1) by (auto simp: cache_evict_def copy_evicted_def Let_def hd c_simps)
  have "length xs' = Suc (length xs)" using arg_cong [OF v, of length] by simp
  moreover have "occupied_size ?c = of_nat (total_size (view (heap s') xs'))"
    unfolding v using c x(1) by (simp add: cache_at_def payload_def)
  ultimately have "cache_at ht cnt ?c xs'" using s'(2,3) c by (simp add: cache_at_def)
  then show ?thesis using run v x(1) by (intro exI [of _ ?c] exI [of _ xs']) auto
qed

text \<open>With fewer than two objects the eviction follows a null pointer.\<close>

lemma cache_evict_last:
  assumes c: "cache_at ht cnt c xs" and "length xs \<le> 1"
  shows "cache_evict H c req want = Inl Null_deref"
proof (cases xs)
  case Nil
  then have "vars (hashtable c) list_head = NULL" using c by (simp add: cache_at_def linked_def dll_def)
  then show ?thesis by (cases want) (simp_all add: cache_evict_def copy_evicted_def Let_def)
next
  case (Cons p ps)
  then have l: "dll (heap (hashtable c)) (vars (hashtable c) list_head) (vars (hashtable c) list_tail) [p]"
    using c assms(2) by (simp add: cache_at_def linked_def)
  then obtain x where "heap (hashtable c) p = Some x" "list_next x = NULL" "p \<noteq> NULL"
    by (auto simp: dll_def links_Some)
  moreover have "vars (hashtable c) list_head = p" using l by (simp add: dll_def)
  ultimately show ?thesis by (simp add: cache_evict_def copy_evicted_def Let_def c_simps)
qed

end

end
