(* ===== verification/EvictionAlgo.thy ===== *)
theory EvictionAlgo
  imports Cache
begin

text \<open>
  The eviction algorithms \<^verbatim>\<open>evictionAlgo/FIFO.c\<close>, \<^verbatim>\<open>LRU.c\<close> and \<^verbatim>\<open>MRU.c\<close> over the
  common cache functions, and what they do to the list of cached objects.
\<close>

section \<open>FIFO\<close>

definition FIFO_init :: "ht_ops \<Rightarrow> common_cache_params_t \<Rightarrow> cache_t" where
  "FIFO_init H ccache_params = cache_struct_init H ccache_params"

definition FIFO_free :: "ht_ops \<Rightarrow> cache_t \<Rightarrow> hashtable_t result" where
  "FIFO_free H cache = cache_struct_free H cache"

definition FIFO_check ::
  "ht_ops \<Rightarrow> cache_t \<Rightarrow> request_t \<Rightarrow> bool \<Rightarrow> (cache_ck_res_e \<times> request_t \<times> cache_t) result" where
  "FIFO_check H cache req update_cache =
    rbind (cache_check H cache req update_cache) (\<lambda>(ret, _, req, cache). Inr (ret, req, cache))"

definition FIFO_insert :: "ht_ops \<Rightarrow> cache_t \<Rightarrow> request_t \<Rightarrow> cache_t result" where
  "FIFO_insert H FIFO req = rbind (cache_insert_LRU H FIFO req) (\<lambda>(_, cache). Inr cache)"

definition FIFO_evict ::
  "ht_ops \<Rightarrow> cache_t \<Rightarrow> request_t \<Rightarrow> bool \<Rightarrow> (cache_obj_t option \<times> cache_t) result" where
  "FIFO_evict H cache req evicted_obj = cache_evict H cache req evicted_obj"

definition FIFO_ops :: "ht_ops \<Rightarrow> cache_ops" where
  "FIFO_ops H = \<lparr>check = FIFO_check H, insert_op = FIFO_insert H, evict = FIFO_evict H\<rparr>"

definition FIFO_get ::
  "ht_ops \<Rightarrow> cache_t \<Rightarrow> request_t \<Rightarrow> (cache_ck_res_e \<times> request_t \<times> cache_t) result" where
  "FIFO_get H cache req = cache_get (FIFO_ops H) cache req"

text \<open>The object's size is read after the object was deleted.\<close>

definition FIFO_remove_obj :: "ht_ops \<Rightarrow> cache_t \<Rightarrow> ptr \<Rightarrow> cache_t result" where
  "FIFO_remove_obj H cache obj_to_remove =
    rbind (hashtable_find_obj H (hashtable cache) obj_to_remove) (\<lambda>(cache_obj, s).
    if cache_obj = NULL then Inr (cache\<lparr>hashtable := s\<rparr>)
    else
      rbind (remove_obj_from_list (heap s) (vars s list_head) (vars s list_tail) cache_obj) (\<lambda>(h, hd, tl).
      rbind (hashtable_delete H (s\<lparr>heap := h, vars := (vars s)(list_head := hd, list_tail := tl)\<rparr>) cache_obj) (\<lambda>s.
      rbind (load (heap s) cache_obj) (\<lambda>x.
      if occupied_size cache \<ge> ucast (o_size x) then
        Inr (cache\<lparr>hashtable := s, occupied_size := occupied_size cache - ucast (o_size x)\<rparr>)
      else Inl Assert_failed))))"

section \<open>LRU\<close>

definition LRU_init :: "ht_ops \<Rightarrow> common_cache_params_t \<Rightarrow> cache_t" where
  "LRU_init H ccache_params = cache_struct_init H ccache_params"

definition LRU_free :: "ht_ops \<Rightarrow> cache_t \<Rightarrow> hashtable_t result" where
  "LRU_free H cache = cache_struct_free H cache"

text \<open>The step that \<^verbatim>\<open>LRU_check\<close> and \<^verbatim>\<open>MRU_check\<close> share: the object becomes the newest.\<close>

definition promote :: "hashtable_t \<Rightarrow> ptr \<Rightarrow> hashtable_t result" where
  "promote s cache_obj =
    rbind (move_obj_to_tail (heap s) (vars s list_head) (vars s list_tail) cache_obj) (\<lambda>(h, hd, tl).
    Inr (s\<lparr>heap := h, vars := (vars s)(list_head := hd, list_tail := tl)\<rparr>))"

definition LRU_check ::
  "ht_ops \<Rightarrow> cache_t \<Rightarrow> request_t \<Rightarrow> bool \<Rightarrow> (cache_ck_res_e \<times> request_t \<times> cache_t) result" where
  "LRU_check H cache req update_cache =
    rbind (cache_check H cache req update_cache) (\<lambda>(ret, cache_obj, req, cache).
    if cache_obj \<noteq> NULL \<and> update_cache then
      rbind (promote (hashtable cache) cache_obj) (\<lambda>s. Inr (ret, req, cache\<lparr>hashtable := s\<rparr>))
    else Inr (ret, req, cache))"

definition LRU_insert :: "ht_ops \<Rightarrow> cache_t \<Rightarrow> request_t \<Rightarrow> cache_t result" where
  "LRU_insert H LRU req = rbind (cache_insert_LRU H LRU req) (\<lambda>(_, cache). Inr cache)"

definition LRU_evict ::
  "ht_ops \<Rightarrow> cache_t \<Rightarrow> request_t \<Rightarrow> bool \<Rightarrow> (cache_obj_t option \<times> cache_t) result" where
  "LRU_evict H cache req evicted_obj = cache_evict H cache req evicted_obj"

definition LRU_ops :: "ht_ops \<Rightarrow> cache_ops" where
  "LRU_ops H = \<lparr>check = LRU_check H, insert_op = LRU_insert H, evict = LRU_evict H\<rparr>"

definition LRU_get ::
  "ht_ops \<Rightarrow> cache_t \<Rightarrow> request_t \<Rightarrow> (cache_ck_res_e \<times> request_t \<times> cache_t) result" where
  "LRU_get H cache req = cache_get (LRU_ops H) cache req"

definition LRU_remove_obj :: "ht_ops \<Rightarrow> cache_t \<Rightarrow> ptr \<Rightarrow> cache_t result" where
  "LRU_remove_obj H cache obj_to_remove = FIFO_remove_obj H cache obj_to_remove"

section \<open>MRU\<close>

definition MRU_init :: "ht_ops \<Rightarrow> common_cache_params_t \<Rightarrow> cache_t" where
  "MRU_init H ccache_params = cache_struct_init H ccache_params"

definition MRU_free :: "ht_ops \<Rightarrow> cache_t \<Rightarrow> hashtable_t result" where
  "MRU_free H cache = cache_struct_free H cache"

definition MRU_insert :: "ht_ops \<Rightarrow> cache_t \<Rightarrow> request_t \<Rightarrow> cache_t result" where
  "MRU_insert H cache req = rbind (cache_insert_LRU H cache req) (\<lambda>(_, cache). Inr cache)"

definition MRU_check ::
  "ht_ops \<Rightarrow> cache_t \<Rightarrow> request_t \<Rightarrow> bool \<Rightarrow> (cache_ck_res_e \<times> request_t \<times> cache_t) result" where
  "MRU_check H cache req update_cache =
    rbind (cache_check H cache req update_cache) (\<lambda>(ret, cache_obj, req, cache).
    if cache_obj \<noteq> NULL \<and> update_cache then
      rbind (promote (hashtable cache) cache_obj) (\<lambda>s. Inr (ret, req, cache\<lparr>hashtable := s\<rparr>))
    else Inr (ret, req, cache))"

text \<open>\<^verbatim>\<open>MRU_evict\<close> does not count the object out of \<^verbatim>\<open>n_obj\<close>.\<close>

definition MRU_evict ::
  "ht_ops \<Rightarrow> cache_t \<Rightarrow> request_t \<Rightarrow> bool \<Rightarrow> (cache_obj_t option \<times> cache_t) result" where
  "MRU_evict H cache req want =
    (let s = hashtable cache; obj_to_evict = vars s list_tail in
     rbind (copy_evicted s obj_to_evict want) (\<lambda>cache_obj.
     rbind (load (heap s) obj_to_evict) (\<lambda>x.
     let s = s\<lparr>vars := (vars s)(list_tail := list_prev x)\<rparr> in
     rbind (modify (heap s) (vars s list_tail) (set_next NULL)) (\<lambda>h.
     let s = s\<lparr>heap := h\<rparr> in
     rbind (load (heap s) obj_to_evict) (\<lambda>x.
     let cache = cache\<lparr>occupied_size := occupied_size cache - ucast (o_size x)\<rparr> in
     rbind (hashtable_delete H s obj_to_evict) (\<lambda>s.
     Inr (cache_obj, cache\<lparr>hashtable := s\<rparr>)))))))"

definition MRU_ops :: "ht_ops \<Rightarrow> cache_ops" where
  "MRU_ops H = \<lparr>check = MRU_check H, insert_op = MRU_insert H, evict = MRU_evict H\<rparr>"

definition MRU_get ::
  "ht_ops \<Rightarrow> cache_t \<Rightarrow> request_t \<Rightarrow> (cache_ck_res_e \<times> request_t \<times> cache_t) result" where
  "MRU_get H cache req = cache_get (MRU_ops H) cache req"

section \<open>The list operations of the algorithms\<close>

context hashtable_spec
begin

lemma promote_correct:
  assumes c: "cache_at ht cnt c xs" and x: "p \<in> set xs"
  shows "\<exists>s'. promote (hashtable c) p = Inr s' \<and>
    cache_at ht cnt (c\<lparr>hashtable := s'\<rparr>) (remove1 p xs @ [p]) \<and> payload (heap s') = payload (heap (hashtable c))"
proof -
  let ?s = "hashtable c" and ?ys = "remove1 p xs @ [p]"
  have h: "ht ?s (set xs)" and l: "dll (heap ?s) (vars ?s list_head) (vars ?s list_tail) xs"
    using c by (simp_all add: cache_at_def linked_all)
  obtain h hd tl where m: "move_obj_to_tail (heap ?s) (vars ?s list_head) (vars ?s list_tail) p = Inr (h, hd, tl)"
    "dll h hd tl ?ys" "relinked (set xs) (heap ?s) h"
    using move_obj_to_tail_correct [OF l x] by blast
  let ?s' = "?s\<lparr>heap := h, vars := (vars ?s)(list_head := hd, list_tail := tl)\<rparr>"
  have d: "distinct xs" using l by (simp add: dll_def)
  have set: "set ?ys = set xs" using d x by auto
  have ms: "mset ?ys = mset xs" using x by simp
  then have tot: "total_size (view h ?ys) = total_size (view (heap ?s) xs)"
    unfolding total_size_def relinked_payload' [OF m(3)]
    by (metis mset_map sum_mset_sum_list)
  have len: "length ?ys = length xs" using ms by (metis size_mset)
  have "linked ?s' (set ?ys) ?ys" using m(2) by (subst linked_all) simp
  then have "cache_at ht cnt (c\<lparr>hashtable := ?s'\<rparr>) ?ys"
    using relink [OF h m(3)] c tot len unfolding cache_at_def set by simp
  then show ?thesis using m(1) relinked_payload' [OF m(3)] by (simp add: promote_def)
qed

lemma MRU_evict_correct:
  assumes c: "cache_at ht cnt c (xs @ [q, p])"
  shows "\<exists>c' xs' ev. MRU_evict H c req want = Inr (ev, c') \<and> cache_at ht False c' xs' \<and>
    cache_size c' = cache_size c \<and> req_cnt c' = req_cnt c \<and>
    view (heap (hashtable c')) xs' = view (heap (hashtable c)) (xs @ [q])"
proof -
  let ?s = "hashtable c"
  have h: "ht ?s (set (xs @ [q, p]))" and d: "distinct (xs @ [q, p])"
    and l: "dll (heap ?s) (vars ?s list_head) (vars ?s list_tail) (xs @ [q, p])"
    using c by (simp_all add: cache_at_def linked_def dll_def)
  obtain x y where x: "heap ?s p = Some x" "list_prev x = q" "list_next x = NULL" "p \<noteq> NULL"
    and y: "heap ?s q = Some y" "list_prev y = last_or NULL xs" "list_next y = p" "q \<noteq> NULL"
    using l by (auto simp: dll_def links_Some)
  let ?h = "(heap ?s)(q \<mapsto> set_next NULL y)" and ?v = "(vars ?s)(list_tail := q)"
  let ?s1 = "?s\<lparr>vars := ?v, heap := ?h\<rparr>"
  have rl: "relinked (set (xs @ [q, p])) (heap ?s) ?h" using y(1) by (auto simp: relinked_def)
  have h1: "ht ?s1 (set ((xs @ [q]) @ p # []))" using relink [OF h rl, of ?v] by (simp add: heap_vars_commute)
  have l1: "dll (heap ?s1) (vars ?s1 list_head) (vars ?s1 list_tail) ((xs @ [q]) @ [])"
    using l d y by (auto simp: dll_def)
  have st: "stale ?s1 ((xs @ [q]) @ []) p" using x y d by (auto simp: stale_def links_def)
  have d1: "distinct ((xs @ [q]) @ p # [])" using d by simp
  from cache_at_delete [OF h1 d1 l1 st] obtain s' xs' where
    s': "hashtable_delete H ?s1 p = Inr s'" "ht s' (set xs')" "linked s' (set xs') xs'"
      "view (heap s') xs' = view (heap ?s1) ((xs @ [q]) @ [])" by blast
  let ?c = "c\<lparr>occupied_size := occupied_size c - ucast (o_size x), hashtable := s'\<rparr>"
  have v: "view (heap s') xs' = view (heap ?s) (xs @ [q])" using s'(4) relinked_payload' [OF rl] by simp
  have tl: "vars ?s list_tail = p" using l by (simp add: dll_def)
  have run: "MRU_evict H c req want = Inr (if want then Some x else None, ?c)"
    using x y d s'(1) by (auto simp: MRU_evict_def copy_evicted_def Let_def tl c_simps)
  have "occupied_size ?c = of_nat (total_size (view (heap s') xs'))"
    unfolding v using c x(1) by (simp add: cache_at_def payload_def)
  then have "cache_at ht False ?c xs'" using s'(2,3) by (simp add: cache_at_def)
  then show ?thesis using run v by (intro exI [of _ ?c] exI [of _ xs']) auto
qed

end

end
