(* ===== verification/CachePolicy.thy ===== *)
theory CachePolicy
  imports EvictionAlgo
begin

text \<open>
  What a list-based cache does, as a function on the list of its objects, and the proof that
  \<^verbatim>\<open>cache_get\<close> implements it for every algorithm whose \<^verbatim>\<open>check\<close>, \<^verbatim>\<open>insert\<close> and \<^verbatim>\<open>evict\<close> implement the
  corresponding list operations. The instances are FIFO, LRU and MRU over both hash tables.
\<close>

section \<open>Specification\<close>

definition cached :: "obj_id_t \<Rightarrow> contents \<Rightarrow> bool" where
  "cached k L \<longleftrightarrow> k \<in> fst ` set L"

text \<open>A hit updates the size in place (FIFO), or makes the object the newest (LRU, MRU).\<close>

definition resize_in_place :: "obj_id_t \<times> u32 \<Rightarrow> contents \<Rightarrow> contents" where
  "resize_in_place x L = map (\<lambda>y. if fst y = fst x then x else y) L"

definition make_newest :: "obj_id_t \<times> u32 \<Rightarrow> contents \<Rightarrow> contents" where
  "make_newest x L = filter (\<lambda>y. fst y \<noteq> fst x) L @ [x]"

text \<open>Evicting from the front (the oldest) or the back (the newest) until the rest fits.\<close>

fun evict_oldest :: "nat \<Rightarrow> contents \<Rightarrow> contents" where
  "evict_oldest n [] = []"
| "evict_oldest n (x # L) = (if n < total_size (x # L) then evict_oldest n L else x # L)"

definition evict_newest :: "nat \<Rightarrow> contents \<Rightarrow> contents" where
  "evict_newest n L = rev (evict_oldest n (rev L))"

text \<open>One request for object \<open>k\<close> of size \<open>z\<close> to a cache of size \<open>n\<close>.\<close>

definition spec_get ::
  "(obj_id_t \<times> u32 \<Rightarrow> contents \<Rightarrow> contents) \<Rightarrow> (nat \<Rightarrow> contents \<Rightarrow> contents) \<Rightarrow> nat \<Rightarrow>
   obj_id_t \<times> u32 \<Rightarrow> contents \<Rightarrow> cache_ck_res_e \<times> contents" where
  "spec_get touch shrink n x L =
    (let hit = cached (fst x) L;
         L1 = (if hit then touch x L else L)
     in (if hit then cache_ck_hit else cache_ck_miss,
         if unat (snd x) \<le> n then shrink n (if hit then L1 else L1 @ [x]) else L1))"

text \<open>The results of a sequence of requests, and the final contents.\<close>

fun spec_run ::
  "(obj_id_t \<times> u32 \<Rightarrow> contents \<Rightarrow> contents) \<Rightarrow> (nat \<Rightarrow> contents \<Rightarrow> contents) \<Rightarrow> nat \<Rightarrow>
   (obj_id_t \<times> u32) list \<Rightarrow> contents \<Rightarrow> cache_ck_res_e list \<times> contents" where
  "spec_run touch shrink n [] L = ([], L)"
| "spec_run touch shrink n (x # xs) L =
    (case spec_get touch shrink n x L of (r, L) \<Rightarrow>
     case spec_run touch shrink n xs L of (rs, L) \<Rightarrow> (r # rs, L))"

text \<open>The same sequence through the code.\<close>

fun get_all :: "cache_ops \<Rightarrow> cache_t \<Rightarrow> request_t list \<Rightarrow> (cache_ck_res_e list \<times> cache_t) result" where
  "get_all V cache [] = Inr ([], cache)"
| "get_all V cache (req # reqs) =
    rbind (cache_get V cache req) (\<lambda>(r, _, cache).
    rbind (get_all V cache reqs) (\<lambda>(rs, cache). Inr (r # rs, cache)))"

definition obj_of :: "request_t \<Rightarrow> obj_id_t \<times> u32" where
  "obj_of req = (obj_id_int req, size32 req)"

text \<open>Contents as a cache holds them: distinct ids, no object of size 0.\<close>

definition wf_contents :: "contents \<Rightarrow> bool" where
  "wf_contents L \<longleftrightarrow> distinct (map fst L) \<and> (\<forall>x \<in> set L. snd x \<noteq> 0)"

definition same_params :: "cache_t \<Rightarrow> cache_t \<Rightarrow> bool" where
  "same_params c c' \<longleftrightarrow> cache_size c' = cache_size c \<and> req_cnt c' = req_cnt c"

section \<open>The contract of an algorithm\<close>

text \<open>
  \<open>inv n L\<close> holds between requests, for the requests \<open>ok n z\<close> admits; \<open>good n L\<close> says that evicting
  from \<open>L\<close> until it fits stops before the last object.
\<close>

locale list_cache =
  fixes rep :: "cache_t \<Rightarrow> contents \<Rightarrow> bool" and V :: cache_ops and hash :: "obj_id_t \<Rightarrow> u64"
    and touch :: "obj_id_t \<times> u32 \<Rightarrow> contents \<Rightarrow> contents" and victim :: "contents \<Rightarrow> contents"
    and shrink :: "nat \<Rightarrow> contents \<Rightarrow> contents"
    and inv :: "nat \<Rightarrow> contents \<Rightarrow> bool" and ok :: "nat \<Rightarrow> nat \<Rightarrow> bool" and good :: "nat \<Rightarrow> contents \<Rightarrow> bool"
  assumes check_miss: "rep c L \<Longrightarrow> hv_ok hash req \<Longrightarrow> fits req \<Longrightarrow> \<not> cached (obj_id_int req) L \<Longrightarrow>
      \<exists>req' c'. check V c req True = Inr (cache_ck_miss, req', c') \<and> req'\<lparr>hv := hv req\<rparr> = req \<and>
        rep c' L \<and> same_params c c'"
    and check_hit: "rep c L \<Longrightarrow> hv_ok hash req \<Longrightarrow> fits req \<Longrightarrow> cached (obj_id_int req) L \<Longrightarrow>
      \<exists>req' c'. check V c req True = Inr (cache_ck_hit, req', c') \<and> req'\<lparr>hv := hv req\<rparr> = req \<and>
        rep c' (touch (obj_of req) L) \<and> same_params c c'"
    and insert_new: "rep c L \<Longrightarrow> fits req \<Longrightarrow> \<not> cached (obj_id_int req) L \<Longrightarrow> length L < 2 ^ 48 \<Longrightarrow>
      \<exists>c'. insert_op V c req = Inr c' \<and> rep c' (L @ [obj_of req]) \<and> same_params c c'"
    and evict_one: "rep c L \<Longrightarrow> 2 \<le> length L \<Longrightarrow>
      \<exists>ev c'. evict V c req False = Inr (ev, c') \<and> rep c' (victim L) \<and> same_params c c'"
    and rep_facts: "rep c L \<Longrightarrow> occupied_size c = of_nat (total_size L) \<and> wf_contents L \<and>
      unat (n_cur_item (hashtable c)) = length L"
    and rep_req_cnt: "rep c L \<Longrightarrow> rep (c\<lparr>req_cnt := m\<rparr>) L"
    and victim_smaller: "2 \<le> length L \<Longrightarrow> length (victim L) < length L \<and> total_size (victim L) \<le> total_size L"
    and shrink: "total_size L \<le> n \<Longrightarrow> shrink n L = L"
      "n < total_size L \<Longrightarrow> 2 \<le> length L \<Longrightarrow> shrink n L = shrink n (victim L)"
    and good: "good n L \<Longrightarrow> n < total_size L \<Longrightarrow> 2 \<le> length L \<and> good n (victim L)"
    and inv_bounds: "inv n L \<Longrightarrow> wf_contents L \<Longrightarrow> snd x \<noteq> 0 \<Longrightarrow> ok n (unat (snd x)) \<Longrightarrow>
      length L < 2 ^ 48 \<and> total_size (if cached (fst x) L then touch x L else L @ [x]) < 2 ^ 64"
    and inv_fit: "inv n L \<Longrightarrow> wf_contents L \<Longrightarrow> snd x \<noteq> 0 \<Longrightarrow> ok n (unat (snd x)) \<Longrightarrow> unat (snd x) \<le> n \<Longrightarrow>
      good n (if cached (fst x) L then touch x L else L @ [x]) \<and>
      inv n (shrink n (if cached (fst x) L then touch x L else L @ [x]))"
    and inv_large: "inv n L \<Longrightarrow> wf_contents L \<Longrightarrow> snd x \<noteq> 0 \<Longrightarrow> ok n (unat (snd x)) \<Longrightarrow> n < unat (snd x) \<Longrightarrow>
      inv n (if cached (fst x) L then touch x L else L)"
begin

lemma evict_loop_correct:
  assumes "rep c L" "good (unat (cache_size c)) L" "total_size L < 2 ^ 64" "length L < fuel"
  shows "\<exists>c'. evict_loop fuel V c req = Inr c' \<and> rep c' (shrink (unat (cache_size c)) L) \<and> same_params c c'"
  using assms
proof (induction fuel arbitrary: c L)
  case (Suc fuel)
  have occ: "unat (occupied_size c) = total_size L"
    using rep_facts [OF Suc.prems(1)] Suc.prems(3) by simp
  show ?case
  proof (cases "occupied_size c > cache_size c")
    case False
    then have "total_size L \<le> unat (cache_size c)" using occ by (simp add: word_less_nat_alt)
    then show ?thesis using False Suc.prems(1) by (simp add: shrink(1) same_params_def)
  next
    case True
    then have n: "unat (cache_size c) < total_size L" using occ by (simp add: word_less_nat_alt)
    with good [OF Suc.prems(2)] have g: "2 \<le> length L" "good (unat (cache_size c)) (victim L)" by auto
    obtain ev c1 where c1: "evict V c req False = Inr (ev, c1)" "rep c1 (victim L)" "same_params c c1"
      using evict_one [OF Suc.prems(1) g(1)] by blast
    have "\<exists>c'. evict_loop fuel V c1 req = Inr c' \<and> rep c' (shrink (unat (cache_size c1)) (victim L)) \<and> same_params c1 c'"
      using Suc.prems(3,4) victim_smaller [OF g(1)] g(2) c1(2,3)
      by (intro Suc.IH) (auto simp: same_params_def)
    then show ?thesis
      using True c1 shrink(2) [OF n g(1)] by (auto simp: same_params_def)
  qed
qed simp

lemma cache_get_correct:
  assumes r: "rep c L" and hv: "hv_ok hash req" and fit: "fits req"
    and i: "inv (unat (cache_size c)) L" "ok (unat (cache_size c)) (unat (obj_size req))"
  shows "\<exists>req' c'. cache_get V c req =
      Inr (fst (spec_get touch shrink (unat (cache_size c)) (obj_of req) L), req', c') \<and>
    rep c' (snd (spec_get touch shrink (unat (cache_size c)) (obj_of req) L)) \<and>
    inv (unat (cache_size c)) (snd (spec_get touch shrink (unat (cache_size c)) (obj_of req) L)) \<and>
    cache_size c' = cache_size c \<and> req_cnt c' = req_cnt c + 1"
proof -
  let ?n = "unat (cache_size c)" and ?x = "obj_of req"
  let ?hit = "cached (obj_id_int req) L"
  let ?L1 = "if ?hit then touch ?x L else L" and ?L2 = "if ?hit then touch ?x L else L @ [?x]"
  have x: "fst ?x = obj_id_int req" "unat (snd ?x) = unat (obj_size req)" "snd ?x \<noteq> 0"
    using fitsD [OF fit] by (simp_all add: obj_of_def)
  note w = rep_facts [OF r, THEN conjunct2, THEN conjunct1]
  note b = inv_bounds [OF i(1) w x(3)] and f = inv_fit [OF i(1) w x(3)] and lg = inv_large [OF i(1) w x(3)]
  have "\<exists>req1 c1. check V c req True = Inr (if ?hit then cache_ck_hit else cache_ck_miss, req1, c1) \<and>
      req1\<lparr>hv := hv req\<rparr> = req \<and> rep c1 ?L1 \<and> same_params c c1"
    using check_miss [OF r hv fit] check_hit [OF r hv fit] by (cases ?hit) auto
  then obtain req1 c1 where c1: "check V c req True = Inr (if ?hit then cache_ck_hit else cache_ck_miss, req1, c1)"
    "req1\<lparr>hv := hv req\<rparr> = req" "rep c1 ?L1" "same_params c c1" by blast
  have r1: "obj_size req1 = obj_size req" "obj_of req1 = ?x" "obj_id_int req1 = obj_id_int req" "fits req1"
    using arg_cong [OF c1(2), of obj_size] arg_cong [OF c1(2), of obj_id_int] fit
    by (simp_all add: obj_of_def fits_def)
  show ?thesis
  proof (cases "obj_size req \<le> cache_size c")
    case True
    then have le: "unat (snd ?x) \<le> ?n" using x(2) by (simp add: word_le_nat_alt)
    have "\<exists>c2. (if ?hit then Inr c1 else insert_op V c1 req1) = Inr c2 \<and> rep c2 ?L2 \<and> same_params c1 c2"
      using insert_new [of c1 L req1] c1(3) r1 b i(2) x by (cases ?hit) (auto simp: same_params_def)
    then obtain c2 where c2: "(if ?hit then Inr c1 else insert_op V c1 req1) = Inr c2" "rep c2 ?L2"
      "same_params c1 c2" by blast
    have sz: "cache_size c2 = cache_size c" using c1(4) c2(3) by (simp add: same_params_def)
    have "length ?L2 < chain_bound (hashtable c2)" using rep_facts [OF c2(2)] by simp
    moreover have "good ?n ?L2" "inv ?n (shrink ?n ?L2)" "total_size ?L2 < 2 ^ 64"
      using f b i(2) x le by auto
    ultimately obtain c3 where c3: "evict_loop (chain_bound (hashtable c2)) V c2 req1 = Inr c3"
      "rep c3 (shrink ?n ?L2)" "same_params c2 c3"
      using evict_loop_correct [OF c2(2), of "chain_bound (hashtable c2)" req1] by (auto simp: sz)
    have "cache_get V c req = Inr (if ?hit then cache_ck_hit else cache_ck_miss, req1, c3\<lparr>req_cnt := req_cnt c3 + 1\<rparr>)"
      using c1 c2 c3(1) True r1(1)
      by (cases ?hit) (simp_all add: cache_get_def same_params_def del: evict_loop.simps)
    moreover have "spec_get touch shrink ?n ?x L = (if ?hit then cache_ck_hit else cache_ck_miss, shrink ?n ?L2)"
      using le x by (simp add: spec_get_def Let_def)
    ultimately show ?thesis
      using rep_req_cnt [OF c3(2)] \<open>inv ?n (shrink ?n ?L2)\<close> c1(4) c2(3) c3(3)
      by (intro exI [of _ req1] exI [of _ "c3\<lparr>req_cnt := req_cnt c3 + 1\<rparr>"]) (simp add: same_params_def)
  next
    case False
    then have gt: "?n < unat (snd ?x)" using x(2) by (simp add: word_le_nat_alt)
    have "cache_get V c req = Inr (if ?hit then cache_ck_hit else cache_ck_miss, req1, c1\<lparr>req_cnt := req_cnt c1 + 1\<rparr>)"
      using c1 False r1(1) by (simp add: cache_get_def same_params_def)
    moreover have "spec_get touch shrink ?n ?x L = (if ?hit then cache_ck_hit else cache_ck_miss, ?L1)"
      using gt x by (simp add: spec_get_def Let_def)
    ultimately show ?thesis
      using rep_req_cnt [OF c1(3)] lg i(2) gt x c1(4)
      by (intro exI [of _ req1] exI [of _ "c1\<lparr>req_cnt := req_cnt c1 + 1\<rparr>"]) (simp add: same_params_def)
  qed
qed

text \<open>A request larger than the cache only runs \<^verbatim>\<open>check\<close>.\<close>

lemma cache_get_large:
  assumes r: "rep c L" and hv: "hv_ok hash req" and fit: "fits req" and gt: "cache_size c < obj_size req"
  shows "\<exists>req' c'. cache_get V c req =
      Inr (fst (spec_get touch shrink (unat (cache_size c)) (obj_of req) L), req', c') \<and>
    rep c' (snd (spec_get touch shrink (unat (cache_size c)) (obj_of req) L)) \<and> cache_size c' = cache_size c"
proof -
  let ?hit = "cached (obj_id_int req) L"
  let ?L1 = "if ?hit then touch (obj_of req) L else L"
  have "\<exists>req1 c1. check V c req True = Inr (if ?hit then cache_ck_hit else cache_ck_miss, req1, c1) \<and>
      req1\<lparr>hv := hv req\<rparr> = req \<and> rep c1 ?L1 \<and> same_params c c1"
    using check_miss [OF r hv fit] check_hit [OF r hv fit] by (cases ?hit) auto
  then obtain req1 c1 where c1: "check V c req True = Inr (if ?hit then cache_ck_hit else cache_ck_miss, req1, c1)"
    "req1\<lparr>hv := hv req\<rparr> = req" "rep c1 ?L1" "same_params c c1" by blast
  have "obj_size req1 = obj_size req" using arg_cong [OF c1(2), of obj_size] by simp
  then have "\<not> obj_size req1 \<le> cache_size c1" using c1(4) gt by (simp add: same_params_def)
  then have "cache_get V c req = Inr (if ?hit then cache_ck_hit else cache_ck_miss, req1, c1\<lparr>req_cnt := req_cnt c1 + 1\<rparr>)"
    using c1(1) by (simp add: cache_get_def del: evict_loop.simps)
  moreover have "spec_get touch shrink (unat (cache_size c)) (obj_of req) L =
      (if ?hit then cache_ck_hit else cache_ck_miss, ?L1)"
    using gt fitsD(2) [OF fit] by (simp add: spec_get_def Let_def obj_of_def word_less_nat_alt)
  ultimately show ?thesis
    using rep_req_cnt [OF c1(3)] c1(4)
    by (intro exI [of _ req1] exI [of _ "c1\<lparr>req_cnt := req_cnt c1 + 1\<rparr>"]) (simp add: same_params_def)
qed

text \<open>Only the hash value of the request may change.\<close>

lemma cache_get_same_req:
  assumes "rep c L" "hv_ok hash req" "fits req" "cache_get V c req = Inr (r, req', c')"
  shows "req'\<lparr>hv := hv req\<rparr> = req"
proof -
  obtain r1 req1 c1 where "check V c req True = Inr (r1, req1, c1)" "req1\<lparr>hv := hv req\<rparr> = req"
    using check_miss [OF assms(1-3)] check_hit [OF assms(1-3)] by (cases "cached (obj_id_int req) L") auto
  then show ?thesis using assms(4)
    by (auto simp: cache_get_def simp del: evict_loop.simps elim!: rbindE split: if_splits)
qed

text \<open>A whole trace.\<close>

lemma get_all_correct:
  assumes "rep c L" "inv (unat (cache_size c)) L"
    "\<forall>req \<in> set reqs. hv_ok hash req \<and> fits req \<and> ok (unat (cache_size c)) (unat (obj_size req))"
  shows "\<exists>c'. get_all V c reqs = Inr (fst (spec_run touch shrink (unat (cache_size c)) (map obj_of reqs) L), c') \<and>
    rep c' (snd (spec_run touch shrink (unat (cache_size c)) (map obj_of reqs) L)) \<and>
    inv (unat (cache_size c)) (snd (spec_run touch shrink (unat (cache_size c)) (map obj_of reqs) L)) \<and>
    cache_size c' = cache_size c \<and> req_cnt c' = req_cnt c + of_nat (length reqs)"
  using assms
proof (induction reqs arbitrary: c L)
  case (Cons req reqs)
  let ?n = "unat (cache_size c)"
  obtain r L1 where s: "spec_get touch shrink ?n (obj_of req) L = (r, L1)" by fastforce
  obtain req1 c1 where c1: "cache_get V c req = Inr (r, req1, c1)" "rep c1 L1" "inv ?n L1"
    "cache_size c1 = cache_size c" "req_cnt c1 = req_cnt c + 1"
    using cache_get_correct [OF Cons.prems(1), of req] Cons.prems(2,3) s by auto
  obtain rs L2 where s2: "spec_run touch shrink ?n (map obj_of reqs) L1 = (rs, L2)" by fastforce
  obtain c2 where "get_all V c1 reqs = Inr (rs, c2)" "rep c2 L2" "inv ?n L2" "cache_size c2 = cache_size c"
    "req_cnt c2 = req_cnt c1 + of_nat (length reqs)"
    using Cons.IH [of c1 L1] c1 Cons.prems(3) s2 by auto
  with c1 s s2 show ?case by simp
qed simp

end


section \<open>The list operations\<close>

lemma total_size_rev [simp]: "total_size (rev L) = total_size L"
  by (induction L) auto

lemma total_size_filter_le: "total_size (filter P L) \<le> total_size L"
  by (induction L) auto

lemma total_size_tl: "total_size (tl L) \<le> total_size L"
  by (cases L) auto

lemma evict_oldest_fits: "total_size (evict_oldest n L) \<le> n"
  by (induction n L rule: evict_oldest.induct) auto

lemma evict_oldest_suffix: "suffix (evict_oldest n L) L"
  by (induction n L rule: evict_oldest.induct) (auto intro: suffix_ConsI)

lemma evict_oldest_laws:
  "total_size L \<le> n \<Longrightarrow> evict_oldest n L = L"
  "n < total_size L \<Longrightarrow> evict_oldest n L = evict_oldest n (tl L)"
  by (cases L; simp)+

lemma evict_newest_laws:
  "total_size L \<le> n \<Longrightarrow> evict_newest n L = L"
  "n < total_size L \<Longrightarrow> evict_newest n L = evict_newest n (butlast L)"
  by (simp_all add: evict_newest_def evict_oldest_laws butlast_rev [symmetric])
    (metis butlast_rev rev_rev_ident evict_oldest_laws(2) total_size_rev)

lemma evict_newest_fits: "total_size (evict_newest n L) \<le> n"
  by (simp add: evict_newest_def evict_oldest_fits)

lemma total_size_butlast: "total_size (butlast L) \<le> total_size L"
  by (metis butlast_rev rev_rev_ident total_size_rev total_size_tl)

lemma length_le_total: "(\<forall>x \<in> set L. snd x \<noteq> (0 :: u32)) \<Longrightarrow> length L \<le> total_size L"
proof (induction L)
  case (Cons x L)
  then have "unat (snd x) \<noteq> 0" by (simp add: unat_eq_0)
  with Cons show ?case by auto
qed simp

lemma total_size_bound: "total_size L \<le> length L * (2 ^ 32 - 1)"
proof (induction L)
  case (Cons x L)
  have "unat (snd x) < 2 ^ 32" using unsigned_less [of "snd x", where 'a = nat] by simp
  with Cons show ?case by simp
qed simp

lemma total_size_mem: "x \<in> set L \<Longrightarrow> unat (snd x) \<le> total_size L"
  by (induction L) auto

lemma resize_in_place_split:
  assumes "distinct (map fst (A @ y # B))" "fst y = fst x"
  shows "resize_in_place x (A @ y # B) = A @ x # B" "make_newest x (A @ y # B) = A @ B @ [x]"
proof -
  have n: "fst z \<noteq> fst x" if "z \<in> set A \<union> set B" for z
    using that assms by (auto simp: image_iff)
  then show "resize_in_place x (A @ y # B) = A @ x # B"
    using assms(2) by (simp add: resize_in_place_def map_idI)
  show "make_newest x (A @ y # B) = A @ B @ [x]"
    using n assms(2) by (simp add: make_newest_def filter_id_conv)
qed

lemma cached_split: "cached k L \<Longrightarrow> \<exists>A y B. L = A @ y # B \<and> fst y = k"
  unfolding cached_def by (metis imageE split_list)


section \<open>FIFO, LRU and MRU fulfil the contract\<close>

text \<open>FIFO and MRU: the cache never holds more than fits, and no request is larger than the cache.\<close>

definition fit_inv :: "nat \<Rightarrow> contents \<Rightarrow> bool" where
  "fit_inv n L \<longleftrightarrow> n < 2 ^ 47 \<and> total_size L \<le> n"

definition all_fit :: "nat \<Rightarrow> contents \<Rightarrow> bool" where
  "all_fit n L \<longleftrightarrow> (\<forall>x \<in> set L. unat (snd x) \<le> n)"

text \<open>LRU: a hit may leave an object larger than the cache, but never at the end of the list when an
  eviction starts.\<close>

definition lru_inv :: "nat \<Rightarrow> contents \<Rightarrow> bool" where
  "lru_inv n L \<longleftrightarrow> n < 2 ^ 47 \<and> length L \<le> n \<and> (total_size L \<le> n \<or> n < 2 ^ 32)"

definition newest_fits :: "nat \<Rightarrow> contents \<Rightarrow> bool" where
  "newest_fits n L \<longleftrightarrow> L \<noteq> [] \<longrightarrow> unat (snd (last L)) \<le> n"

lemma all_fit_simps [simp]:
  "all_fit n []" "all_fit n (x # L) \<longleftrightarrow> unat (snd x) \<le> n \<and> all_fit n L"
  "all_fit n (L @ M) \<longleftrightarrow> all_fit n L \<and> all_fit n M"
  by (auto simp: all_fit_def)

lemma wf_split:
  "wf_contents (A @ y # B) \<Longrightarrow> distinct (map fst (A @ y # B))" by (simp add: wf_contents_def)

lemma fit_inv_step:
  assumes i: "fit_inv n L" "wf_contents L" "unat (snd x) \<le> n" and t: "touch \<in> {resize_in_place, make_newest}"
  shows "length L < 2 ^ 48" "total_size (if cached (fst x) L then touch x L else L @ [x]) < 2 ^ 64"
    "all_fit n (if cached (fst x) L then touch x L else L @ [x])"
proof -
  have sz: "\<forall>x \<in> set L. snd x \<noteq> 0" using i(2) by (simp add: wf_contents_def)
  then show "length L < 2 ^ 48" using length_le_total [of L] i(1) by (simp add: fit_inv_def)
  have af: "all_fit n L" using i(1) total_size_mem [of _ L] by (fastforce simp: all_fit_def fit_inv_def)
  have x: "unat (snd x) < 2 ^ 32" using unsigned_less [of "snd x", where 'a = nat] by simp
  have "total_size (if cached (fst x) L then touch x L else L @ [x]) \<le> total_size L + unat (snd x) \<and>
      all_fit n (if cached (fst x) L then touch x L else L @ [x])"
  proof (cases "cached (fst x) L")
    case True
    then obtain A y B where s: "L = A @ y # B" "fst y = fst x" using cached_split by blast
    then show ?thesis
      using t i(2,3) True af resize_in_place_split [of A y B x] wf_split [of A y B] by auto
  qed (use af i(3) in auto)
  then show "total_size (if cached (fst x) L then touch x L else L @ [x]) < 2 ^ 64"
    "all_fit n (if cached (fst x) L then touch x L else L @ [x])"
    using i(1) x by (auto simp: fit_inv_def)
qed

lemma all_fit_step:
  assumes "all_fit n L" "n < total_size L"
  shows "2 \<le> length L"
  using assms by (cases L; cases "tl L") (auto simp: all_fit_def)

lemma all_fit_sub: "all_fit n L \<Longrightarrow> set M \<subseteq> set L \<Longrightarrow> all_fit n M"
  by (auto simp: all_fit_def)

lemma lru_inv_step:
  assumes i: "lru_inv n L" "wf_contents L" "snd x \<noteq> 0"
  shows "length L < 2 ^ 48" "total_size (if cached (fst x) L then make_newest x L else L @ [x]) < 2 ^ 64"
    "unat (snd x) \<le> n \<Longrightarrow> newest_fits n (if cached (fst x) L then make_newest x L else L @ [x])"
    "unat (snd x) \<le> n \<Longrightarrow> lru_inv n (evict_oldest n (if cached (fst x) L then make_newest x L else L @ [x]))"
    "n < unat (snd x) \<Longrightarrow> lru_inv n (if cached (fst x) L then make_newest x L else L)"
proof -
  let ?L = "if cached (fst x) L then make_newest x L else L @ [x]"
  have x: "unat (snd x) < 2 ^ 32" using unsigned_less [of "snd x", where 'a = nat] by simp
  show "length L < 2 ^ 48" using i(1) by (simp add: lru_inv_def)
  have b: "total_size ?L \<le> total_size L + unat (snd x)" "length ?L \<le> length L + 1"
    using total_size_filter_le [of _ L] by (auto simp: make_newest_def)
  show "total_size ?L < 2 ^ 64"
  proof (cases "total_size L \<le> n")
    case True
    then show ?thesis using b(1) x i(1) by (simp add: lru_inv_def)
  next
    case False
    then have "length ?L \<le> 2 ^ 32" using i(1) b(2) by (simp add: lru_inv_def)
    then have "total_size ?L \<le> 2 ^ 32 * (2 ^ 32 - 1)"
      using total_size_bound [of ?L] mult_le_mono1 [of "length ?L" "2 ^ 32" "2 ^ 32 - 1 :: nat"] by linarith
    then show ?thesis by simp
  qed
  show "newest_fits n ?L" if "unat (snd x) \<le> n" using that by (auto simp: newest_fits_def make_newest_def)
  show "lru_inv n (evict_oldest n ?L)"
  proof -
    have "\<forall>y \<in> set ?L. snd y \<noteq> 0" using i(2,3) by (auto simp: wf_contents_def make_newest_def)
    then have "\<forall>y \<in> set (evict_oldest n ?L). snd y \<noteq> 0"
      using set_mono_suffix [OF evict_oldest_suffix [of n ?L]] by blast
    then have "length (evict_oldest n ?L) \<le> total_size (evict_oldest n ?L)" by (rule length_le_total)
    then show ?thesis using evict_oldest_fits [of n ?L] i(1) by (simp add: lru_inv_def)
  qed
  show "lru_inv n (if cached (fst x) L then make_newest x L else L)" if "n < unat (snd x)"
  proof (cases "cached (fst x) L")
    case True
    then obtain A y B where s: "L = A @ y # B" "fst y = fst x" using cached_split by blast
    then have "length (make_newest x L) = length L"
      using resize_in_place_split(2) [of A y B x] wf_split [of A y B] i(2) by simp
    then show ?thesis using True i(1) that x by (simp add: lru_inv_def)
  qed (use i(1) in simp)
qed

lemma newest_fits_step:
  assumes "newest_fits n L" "n < total_size L"
  shows "2 \<le> length L" "newest_fits n (tl L)"
proof -
  show l: "2 \<le> length L" using assms by (cases L; cases "tl L") (auto simp: newest_fits_def)
  then show "newest_fits n (tl L)" using assms(1) by (cases L) (auto simp: newest_fits_def)
qed

context hashtable_spec
begin

lemma cache_rep_facts:
  assumes "cache_rep ht cnt c L"
  shows "occupied_size c = of_nat (total_size L) \<and> wf_contents L \<and> unat (n_cur_item (hashtable c)) = length L"
proof -
  obtain xs where xs: "cache_at ht cnt c xs" "L = view (heap (hashtable c)) xs"
    using assms by (auto simp: cache_rep_def)
  have h: "ht (hashtable c) (set xs)" "distinct xs" using xs(1) by (simp_all add: cache_at_def linked_def dll_def)
  have "distinct (map fst L)"
    using ids [OF h(1)] h(2) by (simp add: xs(2) ids_ok_def distinct_map comp_def)
  moreover have "\<forall>x \<in> set L. snd x \<noteq> 0" using alloc [OF h(1)] by (force simp: xs(2) payload_def)
  ultimately show ?thesis
    using xs ids [OF h(1)] h(2) by (simp add: cache_at_def wf_contents_def distinct_card)
qed

lemma rep_req_cnt: "cache_rep ht cnt c L \<Longrightarrow> cache_rep ht cnt (c\<lparr>req_cnt := m\<rparr>) L"
  by (simp add: cache_rep_def cache_at_def)

lemma rep_check_miss:
  assumes "cache_rep ht cnt c L" "hv_ok hash req" "\<not> cached (obj_id_int req) L"
  shows "\<exists>req' c'. cache_check H c req True = Inr (cache_ck_miss, NULL, req', c') \<and>
    req'\<lparr>hv := hv req\<rparr> = req \<and> cache_rep ht cnt c' L \<and> same_params c c'"
proof -
  obtain xs where xs: "cache_at ht cnt c xs" "L = view (heap (hashtable c)) xs"
    using assms(1) by (auto simp: cache_rep_def)
  from cache_check_miss [OF xs(1) assms(2)] assms(3) obtain req' s' where
    "cache_check H c req True = Inr (cache_ck_miss, NULL, req', c\<lparr>hashtable := s'\<rparr>)" "req'\<lparr>hv := hv req\<rparr> = req"
    "cache_at ht cnt (c\<lparr>hashtable := s'\<rparr>) xs" "view (heap s') xs = view (heap (hashtable c)) xs"
    unfolding xs(2) cached_def by blast
  then show ?thesis using xs(2)
    by (intro exI [of _ req'] exI [of _ "c\<lparr>hashtable := s'\<rparr>"]) (auto simp: cache_rep_def same_params_def)
qed

lemma rep_check_hit:
  assumes "cache_rep ht cnt c L" "hv_ok hash req" "fits req" "cached (obj_id_int req) L"
  shows "\<exists>p req' c' xs. cache_check H c req True = Inr (cache_ck_hit, p, req', c') \<and>
    req'\<lparr>hv := hv req\<rparr> = req \<and> cache_at ht cnt c' xs \<and> p \<in> set xs \<and> same_params c c' \<and>
    view (heap (hashtable c')) xs = resize_in_place (obj_of req) L \<and>
    view (heap (hashtable c')) (remove1 p xs @ [p]) = make_newest (obj_of req) L"
proof -
  obtain xs where xs: "cache_at ht cnt c xs" "L = view (heap (hashtable c)) xs"
    using assms(1) by (auto simp: cache_rep_def)
  from cache_check_hit [OF xs(1) assms(2,3)] assms(4) obtain p req' c' as bs where
    r: "cache_check H c req True = Inr (cache_ck_hit, p, req', c')" "req'\<lparr>hv := hv req\<rparr> = req"
      "cache_at ht cnt c' xs" "same_params c c'" and s: "xs = as @ p # bs"
      "fst (payload (heap (hashtable c)) p) = obj_id_int req"
      "view (heap (hashtable c')) xs =
        view (heap (hashtable c)) as @ (obj_id_int req, size32 req) # view (heap (hashtable c)) bs"
    unfolding xs(2) cached_def same_params_def by blast
  let ?h = "heap (hashtable c)" and ?h' = "heap (hashtable c')"
  have d: "distinct (map fst (view ?h as @ payload ?h p # view ?h bs))"
    using cache_rep_facts [OF assms(1)] by (simp add: wf_contents_def xs(2) s(1))
  have "distinct xs" using r(3) by (simp add: cache_at_def linked_def dll_def)
  then have rm: "remove1 p xs = as @ bs" by (simp add: s(1) remove1_append)
  have v: "view ?h' as = view ?h as" "payload ?h' p = obj_of req" "view ?h' bs = view ?h bs"
    using s(3) by (simp_all add: s(1) obj_of_def)
  have "view ?h' xs = resize_in_place (obj_of req) L" "view ?h' (remove1 p xs @ [p]) = make_newest (obj_of req) L"
    using resize_in_place_split [OF d, of "obj_of req"] s(2) v by (simp_all add: xs(2) s(1) rm [unfolded s(1)] obj_of_def)
  then show ?thesis using r s(1)
    by (intro exI [of _ p] exI [of _ req'] exI [of _ c'] exI [of _ xs]) simp
qed

lemma rep_check_promote:
  assumes "cache_rep ht cnt c L" "hv_ok hash req" "fits req" "cached (obj_id_int req) L"
  shows "\<exists>req' c'. rbind (cache_check H c req True) (\<lambda>(ret, cache_obj, req, cache).
      if cache_obj \<noteq> NULL \<and> True then
        rbind (promote (hashtable cache) cache_obj) (\<lambda>s. Inr (ret, req, cache\<lparr>hashtable := s\<rparr>))
      else Inr (ret, req, cache)) = Inr (cache_ck_hit, req', c') \<and>
    req'\<lparr>hv := hv req\<rparr> = req \<and> cache_rep ht cnt c' (make_newest (obj_of req) L) \<and> same_params c c'"
proof -
  from rep_check_hit [OF assms] obtain p req' c1 xs where
    r: "cache_check H c req True = Inr (cache_ck_hit, p, req', c1)" "req'\<lparr>hv := hv req\<rparr> = req"
      "cache_at ht cnt c1 xs" "p \<in> set xs" "same_params c c1"
      "view (heap (hashtable c1)) (remove1 p xs @ [p]) = make_newest (obj_of req) L" by blast
  obtain s' where s': "promote (hashtable c1) p = Inr s'"
    "cache_at ht cnt (c1\<lparr>hashtable := s'\<rparr>) (remove1 p xs @ [p])" "payload (heap s') = payload (heap (hashtable c1))"
    using promote_correct [OF r(3,4)] by blast
  have "p \<noteq> NULL" using alloc [of "hashtable c1" "set xs" p] r(3,4) by (simp add: cache_at_def)
  moreover have "cache_rep ht cnt (c1\<lparr>hashtable := s'\<rparr>) (make_newest (obj_of req) L)"
    unfolding cache_rep_def using s'(2,3) r(6) by (intro exI [of _ "remove1 p xs @ [p]"]) simp
  ultimately show ?thesis using r(1,2,5) s'(1)
    by (intro exI [of _ req'] exI [of _ "c1\<lparr>hashtable := s'\<rparr>"]) (simp add: same_params_def)
qed

lemma rep_insert:
  assumes "cache_rep ht cnt c L" "fits req" "\<not> cached (obj_id_int req) L" "length L < 2 ^ 48"
  shows "\<exists>p c'. cache_insert_LRU H c req = Inr (p, c') \<and> cache_rep ht cnt c' (L @ [obj_of req]) \<and> same_params c c'"
proof -
  obtain xs where xs: "cache_at ht cnt c xs" "L = view (heap (hashtable c)) xs"
    using assms(1) by (auto simp: cache_rep_def)
  from cache_insert_LRU_correct [OF xs(1) assms(2)] assms(3,4) obtain p c' xs' where
    "cache_insert_LRU H c req = Inr (p, c')" "cache_at ht cnt c' (xs' @ [p])" "same_params c c'"
    "view (heap (hashtable c')) (xs' @ [p]) = view (heap (hashtable c)) xs @ [(obj_id_int req, size32 req)]"
    unfolding xs(2) cached_def same_params_def by auto
  then show ?thesis unfolding cache_rep_def xs(2) obj_of_def by metis
qed

lemma rep_evict:
  assumes "cache_rep ht cnt c L" "2 \<le> length L"
  shows "\<exists>ev c'. cache_evict H c req want = Inr (ev, c') \<and> cache_rep ht cnt c' (tl L) \<and> same_params c c'"
proof -
  obtain xs where xs: "cache_at ht cnt c xs" "L = view (heap (hashtable c)) xs"
    using assms(1) by (auto simp: cache_rep_def)
  obtain p q ys where ys: "xs = p # q # ys" using assms(2) xs(2) by (cases xs; cases "tl xs") auto
  from cache_evict_correct [OF xs(1) [unfolded ys], of req want] obtain c' xs' ev where
    "cache_evict H c req want = Inr (ev, c')" "cache_at ht cnt c' xs'" "same_params c c'"
    "view (heap (hashtable c')) xs' = view (heap (hashtable c)) (q # ys)"
    unfolding same_params_def by blast
  then show ?thesis unfolding cache_rep_def xs(2) ys by (metis list.sel(3) list.simps(9))
qed

lemma rep_MRU_evict:
  assumes "cache_rep ht cnt c L" "2 \<le> length L"
  shows "\<exists>ev c'. MRU_evict H c req want = Inr (ev, c') \<and> cache_rep ht False c' (butlast L) \<and> same_params c c'"
proof -
  obtain xs where xs: "cache_at ht cnt c xs" "L = view (heap (hashtable c)) xs"
    using assms(1) by (auto simp: cache_rep_def)
  have len: "2 \<le> length xs" using assms(2) xs(2) by simp
  then obtain zs p where zs: "xs = zs @ [p]" by (cases xs rule: rev_cases) auto
  with len obtain ys q where "zs = ys @ [q]" by (cases zs rule: rev_cases) auto
  with zs have ys: "xs = ys @ [q, p]" by simp
  from MRU_evict_correct [OF xs(1) [unfolded ys], of req want] obtain c' xs' ev where
    "MRU_evict H c req want = Inr (ev, c')" "cache_at ht False c' xs'" "same_params c c'"
    "view (heap (hashtable c')) xs' = view (heap (hashtable c)) (ys @ [q])"
    unfolding same_params_def by blast
  moreover have "butlast L = view (heap (hashtable c)) (ys @ [q])"
    by (simp add: xs(2) ys butlast_append)
  ultimately show ?thesis unfolding cache_rep_def by metis
qed

lemma init_rep:
  "cache_rep ht cnt (cache_struct_init H params) []"
proof -
  let ?pw = "if p_hash_power params > 0 \<and> p_hash_power params < 40 then p_hash_power params else HASH_POWER_DEFAULT"
  have r: "0 \<le> ?pw" "?pw \<le> 49" by (auto simp: HASH_POWER_DEFAULT_def)
  then have "unat (of_int ?pw :: u16) = nat ?pw"
    by (simp add: unsigned_of_int take_bit_int_eq_self unat_eq_nat_uint)
  then have pw: "unat (of_int ?pw :: u16) \<le> 49" using r by simp
  have e: "heap empty_store p = None" "vars empty_store = (\<lambda>_. NULL)" for p by (simp_all add: empty_store_def)
  from create [of empty_store "of_int ?pw", OF e pw refl]
  show ?thesis
    unfolding cache_rep_def cache_at_def by (intro exI [of _ "[]"]) (simp add: cache_struct_init_def Let_def)
qed

lemma FIFO_list_cache:
  "list_cache (cache_rep ht True) (FIFO_ops H) hash resize_in_place tl evict_oldest fit_inv (\<lambda>n z. z \<le> n) all_fit"
proof
  show "\<exists>req' c'. check (FIFO_ops H) c req True = Inr (cache_ck_miss, req', c') \<and> req'\<lparr>hv := hv req\<rparr> = req \<and>
      cache_rep ht True c' L \<and> same_params c c'"
    if "cache_rep ht True c L" "hv_ok hash req" "\<not> cached (obj_id_int req) L" for c L req
    using rep_check_miss [OF that] by (auto simp: FIFO_ops_def FIFO_check_def)
  show "\<exists>req' c'. check (FIFO_ops H) c req True = Inr (cache_ck_hit, req', c') \<and> req'\<lparr>hv := hv req\<rparr> = req \<and>
      cache_rep ht True c' (resize_in_place (obj_of req) L) \<and> same_params c c'"
    if "cache_rep ht True c L" "hv_ok hash req" "fits req" "cached (obj_id_int req) L" for c L req
    using rep_check_hit [OF that] unfolding FIFO_ops_def FIFO_check_def cache_rep_def
    by (fastforce intro: sym)
  show "\<exists>c'. insert_op (FIFO_ops H) c req = Inr c' \<and> cache_rep ht True c' (L @ [obj_of req]) \<and> same_params c c'"
    if "cache_rep ht True c L" "fits req" "\<not> cached (obj_id_int req) L" "length L < 2 ^ 48" for c L req
    using rep_insert [OF that] by (auto simp: FIFO_ops_def FIFO_insert_def)
  show "\<exists>ev c'. evict (FIFO_ops H) c req False = Inr (ev, c') \<and> cache_rep ht True c' (tl L) \<and> same_params c c'"
    if "cache_rep ht True c L" "2 \<le> length L" for c L req
    using rep_evict [OF that] by (simp add: FIFO_ops_def FIFO_evict_def)
  show "2 \<le> length L \<and> all_fit n (tl L)" if "all_fit n L" "n < total_size L" for n L
    using all_fit_step [OF that] that(1) by (cases L) auto
  show "length L < 2 ^ 48 \<and> total_size (if cached (fst x) L then resize_in_place x L else L @ [x]) < 2 ^ 64"
    if "fit_inv n L" "wf_contents L" "unat (snd x) \<le> n" for n L x
    using fit_inv_step(1,2) [OF that, of resize_in_place] by simp
  show "all_fit n (if cached (fst x) L then resize_in_place x L else L @ [x]) \<and>
      fit_inv n (evict_oldest n (if cached (fst x) L then resize_in_place x L else L @ [x]))"
    if "fit_inv n L" "wf_contents L" "unat (snd x) \<le> n" for n L x
    using fit_inv_step(3) [OF that, of resize_in_place] evict_oldest_fits that(1)
    by (auto simp: fit_inv_def)
qed (use cache_rep_facts rep_req_cnt evict_oldest_laws total_size_tl in auto)

lemma LRU_list_cache:
  "list_cache (cache_rep ht True) (LRU_ops H) hash make_newest tl evict_oldest lru_inv (\<lambda>_ _. True) newest_fits"
proof
  show "\<exists>req' c'. check (LRU_ops H) c req True = Inr (cache_ck_miss, req', c') \<and> req'\<lparr>hv := hv req\<rparr> = req \<and>
      cache_rep ht True c' L \<and> same_params c c'"
    if "cache_rep ht True c L" "hv_ok hash req" "\<not> cached (obj_id_int req) L" for c L req
    using rep_check_miss [OF that] by (auto simp: LRU_ops_def LRU_check_def)
  show "\<exists>req' c'. check (LRU_ops H) c req True = Inr (cache_ck_hit, req', c') \<and> req'\<lparr>hv := hv req\<rparr> = req \<and>
      cache_rep ht True c' (make_newest (obj_of req) L) \<and> same_params c c'"
    if "cache_rep ht True c L" "hv_ok hash req" "fits req" "cached (obj_id_int req) L" for c L req
    using rep_check_promote [OF that] by (auto simp: LRU_ops_def LRU_check_def)
  show "\<exists>c'. insert_op (LRU_ops H) c req = Inr c' \<and> cache_rep ht True c' (L @ [obj_of req]) \<and> same_params c c'"
    if "cache_rep ht True c L" "fits req" "\<not> cached (obj_id_int req) L" "length L < 2 ^ 48" for c L req
    using rep_insert [OF that] by (auto simp: LRU_ops_def LRU_insert_def)
  show "\<exists>ev c'. evict (LRU_ops H) c req False = Inr (ev, c') \<and> cache_rep ht True c' (tl L) \<and> same_params c c'"
    if "cache_rep ht True c L" "2 \<le> length L" for c L req
    using rep_evict [OF that] by (simp add: LRU_ops_def LRU_evict_def)
qed (use cache_rep_facts rep_req_cnt evict_oldest_laws total_size_tl lru_inv_step newest_fits_step in auto)

lemma MRU_list_cache:
  "list_cache (cache_rep ht False) (MRU_ops H) hash make_newest butlast evict_newest fit_inv (\<lambda>n z. z \<le> n) all_fit"
proof
  show "\<exists>req' c'. check (MRU_ops H) c req True = Inr (cache_ck_miss, req', c') \<and> req'\<lparr>hv := hv req\<rparr> = req \<and>
      cache_rep ht False c' L \<and> same_params c c'"
    if "cache_rep ht False c L" "hv_ok hash req" "\<not> cached (obj_id_int req) L" for c L req
    using rep_check_miss [OF that] by (auto simp: MRU_ops_def MRU_check_def)
  show "\<exists>req' c'. check (MRU_ops H) c req True = Inr (cache_ck_hit, req', c') \<and> req'\<lparr>hv := hv req\<rparr> = req \<and>
      cache_rep ht False c' (make_newest (obj_of req) L) \<and> same_params c c'"
    if "cache_rep ht False c L" "hv_ok hash req" "fits req" "cached (obj_id_int req) L" for c L req
    using rep_check_promote [OF that] by (auto simp: MRU_ops_def MRU_check_def)
  show "\<exists>c'. insert_op (MRU_ops H) c req = Inr c' \<and> cache_rep ht False c' (L @ [obj_of req]) \<and> same_params c c'"
    if "cache_rep ht False c L" "fits req" "\<not> cached (obj_id_int req) L" "length L < 2 ^ 48" for c L req
    using rep_insert [OF that] by (auto simp: MRU_ops_def MRU_insert_def)
  show "\<exists>ev c'. evict (MRU_ops H) c req False = Inr (ev, c') \<and> cache_rep ht False c' (butlast L) \<and> same_params c c'"
    if "cache_rep ht False c L" "2 \<le> length L" for c L req
    using rep_MRU_evict [OF that] by (simp add: MRU_ops_def)
  show "2 \<le> length L \<and> all_fit n (butlast L)" if "all_fit n L" "n < total_size L" for n L
    using all_fit_step [OF that] all_fit_sub [OF that(1), of "butlast L"] by (auto dest: in_set_butlastD)
  show "length L < 2 ^ 48 \<and> total_size (if cached (fst x) L then make_newest x L else L @ [x]) < 2 ^ 64"
    if "fit_inv n L" "wf_contents L" "unat (snd x) \<le> n" for n L x
    using fit_inv_step(1,2) [OF that, of make_newest] by simp
  show "all_fit n (if cached (fst x) L then make_newest x L else L @ [x]) \<and>
      fit_inv n (evict_newest n (if cached (fst x) L then make_newest x L else L @ [x]))"
    if "fit_inv n L" "wf_contents L" "unat (snd x) \<le> n" for n L x
    using fit_inv_step(3) [OF that, of make_newest] evict_newest_fits that(1)
    by (auto simp: fit_inv_def)
qed (use cache_rep_facts rep_req_cnt evict_newest_laws total_size_butlast in auto)

end

interpretation fifo1: list_cache "cache_rep (ht_v1 hash) True" "FIFO_ops (hashtable_ver1 hash)" hash
  resize_in_place tl evict_oldest fit_inv "\<lambda>n z. z \<le> n" all_fit for hash
  by (rule v1.FIFO_list_cache)

interpretation fifo2: list_cache "cache_rep (ht_v2 hash) True" "FIFO_ops (hashtable_ver2 hash)" hash
  resize_in_place tl evict_oldest fit_inv "\<lambda>n z. z \<le> n" all_fit for hash
  by (rule v2.FIFO_list_cache)

interpretation lru1: list_cache "cache_rep (ht_v1 hash) True" "LRU_ops (hashtable_ver1 hash)" hash
  make_newest tl evict_oldest lru_inv "\<lambda>_ _. True" newest_fits for hash
  by (rule v1.LRU_list_cache)

interpretation lru2: list_cache "cache_rep (ht_v2 hash) True" "LRU_ops (hashtable_ver2 hash)" hash
  make_newest tl evict_oldest lru_inv "\<lambda>_ _. True" newest_fits for hash
  by (rule v2.LRU_list_cache)

interpretation mru1: list_cache "cache_rep (ht_v1 hash) False" "MRU_ops (hashtable_ver1 hash)" hash
  make_newest butlast evict_newest fit_inv "\<lambda>n z. z \<le> n" all_fit for hash
  by (rule v1.MRU_list_cache)

interpretation mru2: list_cache "cache_rep (ht_v2 hash) False" "MRU_ops (hashtable_ver2 hash)" hash
  make_newest butlast evict_newest fit_inv "\<lambda>n z. z \<le> n" all_fit for hash
  by (rule v2.MRU_list_cache)

end
