(* ===== verification/CacheTraces.thy ===== *)
theory CacheTraces
  imports CachePolicy
begin

text \<open>
  Whole traces through a new cache: what FIFO, LRU and MRU answer and hold for every sequence of
  requests, that the two hash tables give the same answers, and where the eviction loop runs out
  of objects.
\<close>

section \<open>Traces through the default build\<close>

lemma init_params [simp]:
  "cache_size (cache_struct_init H params) = p_cache_size params"
  "req_cnt (cache_struct_init H params) = 0"
  by (simp_all add: cache_struct_init_def Let_def)

definition sample_req :: "obj_id_t \<Rightarrow> u64 \<Rightarrow> request_t" where
  "sample_req k z = new_request\<lparr>obj_id_int := k, obj_size := z\<rparr>"

lemma sample_req [simp]:
  "obj_id_int (sample_req k z) = k" "obj_size (sample_req k z) = z" "hv_ok hash (sample_req k z)"
  "obj_of (sample_req k z) = (k, ucast z)" "fits (sample_req k z) \<longleftrightarrow> 0 < unat z \<and> unat z < 2 ^ 32"
  by (simp_all add: sample_req_def new_request_def hv_ok_def obj_of_def fits_def)

definition sample_params :: "u64 \<Rightarrow> common_cache_params_t" where
  "sample_params n = \<lparr>p_cache_size = n, p_default_ttl = 0, p_hash_power = 3\<rparr>"

lemma sample_params [simp]: "p_cache_size (sample_params n) = n"
  by (simp add: sample_params_def)

lemmas run_simps = spec_get_def cached_def make_newest_def resize_in_place_def evict_newest_def Let_def

text \<open>
  (C8) LRU, default hash table. From a new cache of fewer than \<open>2 ^ 47\<close> bytes, every sequence of
  requests with sizes from 1 to \<open>2 ^ 32 - 1\<close> (also sizes larger than the cache) runs without a null
  dereference, a failed assertion or a loop that does not end, for every hash function. The results
  are those of a list in which a hit makes the object the newest and evictions take the oldest, and
  the final list, hash table, \<^verbatim>\<open>occupied_size\<close>, \<^verbatim>\<open>n_obj\<close> and \<^verbatim>\<open>req_cnt\<close> agree with it.
\<close>

theorem LRU_run_correct:
  assumes "\<forall>req \<in> set reqs. hv_ok hash req \<and> fits req" and "unat (p_cache_size params) < 2 ^ 47"
  shows "\<exists>c. get_all (LRU_ops (hashtable_ver1 hash)) (LRU_init (hashtable_ver1 hash) params) reqs =
      Inr (fst (spec_run make_newest evict_oldest (unat (p_cache_size params)) (map obj_of reqs) []), c) \<and>
    cache_rep (ht_v1 hash) True c
      (snd (spec_run make_newest evict_oldest (unat (p_cache_size params)) (map obj_of reqs) [])) \<and>
    req_cnt c = of_nat (length reqs)"
  using lru1.get_all_correct [OF v1.init_rep, of hash params reqs] assms
  by (auto simp: LRU_init_def lru_inv_def)

theorem LRU_run_correct_witness:
  "\<exists>c. get_all (LRU_ops (hashtable_ver1 (\<lambda>k. k))) (LRU_init (hashtable_ver1 (\<lambda>k. k)) (sample_params 10))
      [sample_req 1 5, sample_req 2 5, sample_req 1 4, sample_req 3 6, sample_req 2 1] =
    Inr ([cache_ck_miss, cache_ck_miss, cache_ck_hit, cache_ck_miss, cache_ck_miss], c) \<and>
    cache_rep (ht_v1 (\<lambda>k. k)) True c [(3, 6), (2, 1)] \<and> req_cnt c = 5"
  using LRU_run_correct [of "[sample_req 1 5, sample_req 2 5, sample_req 1 4, sample_req 3 6, sample_req 2 1]"
      "\<lambda>k. k" "sample_params 10"]
  by (simp add: run_simps)

text \<open>
  (C19) FIFO, default hash table. For requests no larger than the cache, every trace runs to its
  end with the results and the final contents of a queue: a hit only updates the size of its object,
  a miss appends, and evictions take the oldest object.
\<close>

theorem FIFO_run_correct:
  assumes "\<forall>req \<in> set reqs. hv_ok hash req \<and> fits req \<and> obj_size req \<le> p_cache_size params"
    and "unat (p_cache_size params) < 2 ^ 47"
  shows "\<exists>c. get_all (FIFO_ops (hashtable_ver1 hash)) (FIFO_init (hashtable_ver1 hash) params) reqs =
      Inr (fst (spec_run resize_in_place evict_oldest (unat (p_cache_size params)) (map obj_of reqs) []), c) \<and>
    cache_rep (ht_v1 hash) True c
      (snd (spec_run resize_in_place evict_oldest (unat (p_cache_size params)) (map obj_of reqs) [])) \<and>
    req_cnt c = of_nat (length reqs)"
  using fifo1.get_all_correct [OF v1.init_rep, of hash params reqs] assms
  by (auto simp: FIFO_init_def fit_inv_def word_le_nat_alt)

theorem FIFO_run_correct_witness:
  "\<exists>c. get_all (FIFO_ops (hashtable_ver1 (\<lambda>k. k))) (FIFO_init (hashtable_ver1 (\<lambda>k. k)) (sample_params 10))
      [sample_req 1 5, sample_req 2 5, sample_req 1 4, sample_req 3 6, sample_req 2 1] =
    Inr ([cache_ck_miss, cache_ck_miss, cache_ck_hit, cache_ck_miss, cache_ck_miss], c) \<and>
    cache_rep (ht_v1 (\<lambda>k. k)) True c [(3, 6), (2, 1)] \<and> req_cnt c = 5"
  using FIFO_run_correct [of "[sample_req 1 5, sample_req 2 5, sample_req 1 4, sample_req 3 6, sample_req 2 1]"
      "\<lambda>k. k" "sample_params 10"]
  by (simp add: run_simps)


text \<open>
  (C22) MRU, default hash table. For requests no larger than the cache, every trace runs to its
  end with the results and the final contents of a stack: a hit or a miss puts the object on top, and
  evictions take the top. \<^verbatim>\<open>n_obj\<close> is not part of the statement, \<^verbatim>\<open>MRU_evict\<close> does not maintain it.
\<close>

theorem MRU_run_correct:
  assumes "\<forall>req \<in> set reqs. hv_ok hash req \<and> fits req \<and> obj_size req \<le> p_cache_size params"
    and "unat (p_cache_size params) < 2 ^ 47"
  shows "\<exists>c. get_all (MRU_ops (hashtable_ver1 hash)) (MRU_init (hashtable_ver1 hash) params) reqs =
      Inr (fst (spec_run make_newest evict_newest (unat (p_cache_size params)) (map obj_of reqs) []), c) \<and>
    cache_rep (ht_v1 hash) False c
      (snd (spec_run make_newest evict_newest (unat (p_cache_size params)) (map obj_of reqs) [])) \<and>
    req_cnt c = of_nat (length reqs)"
  using mru1.get_all_correct [OF v1.init_rep, of hash params reqs] assms
  by (auto simp: MRU_init_def fit_inv_def word_le_nat_alt)

theorem MRU_run_correct_witness:
  "\<exists>c. get_all (MRU_ops (hashtable_ver1 (\<lambda>k. k))) (MRU_init (hashtable_ver1 (\<lambda>k. k)) (sample_params 10))
      [sample_req 1 5, sample_req 2 5, sample_req 1 6, sample_req 3 6, sample_req 2 1] =
    Inr ([cache_ck_miss, cache_ck_miss, cache_ck_hit, cache_ck_miss, cache_ck_hit], c) \<and>
    cache_rep (ht_v1 (\<lambda>k. k)) False c [(2, 1)] \<and> req_cnt c = 5"
  using MRU_run_correct [of "[sample_req 1 5, sample_req 2 5, sample_req 1 6, sample_req 3 6, sample_req 2 1]"
      "\<lambda>k. k" "sample_params 10"]
  by (simp add: run_simps)

section \<open>The choice of the hash table does not matter\<close>

text \<open>
  (C21) LRU gives the same results, request by request, over the table of objects with any hash
  function and over the table of pointers with any other, and the caches end with the same objects
  in the same order.
\<close>

theorem LRU_tables_agree:
  assumes "\<forall>req \<in> set reqs. hv req = 0 \<and> fits req" and "unat (p_cache_size params) < 2 ^ 47"
  shows "\<exists>rs L c c'. get_all (LRU_ops (hashtable_ver1 hash)) (LRU_init (hashtable_ver1 hash) params) reqs = Inr (rs, c) \<and>
    get_all (LRU_ops (hashtable_ver2 hash')) (LRU_init (hashtable_ver2 hash') params) reqs = Inr (rs, c') \<and>
    cache_rep (ht_v1 hash) True c L \<and> cache_rep (ht_v2 hash') True c' L"
  using lru1.get_all_correct [OF v1.init_rep, of hash params reqs]
    lru2.get_all_correct [OF v2.init_rep, of hash' params reqs] assms
  by (fastforce simp: LRU_init_def lru_inv_def hv_ok_def)

theorem LRU_tables_agree_witness:
  "\<exists>rs L c c'. get_all (LRU_ops (hashtable_ver1 (\<lambda>k. k))) (LRU_init (hashtable_ver1 (\<lambda>k. k)) (sample_params 2))
      [sample_req 1 1, sample_req 2 1, sample_req 3 1] = Inr (rs, c) \<and>
    get_all (LRU_ops (hashtable_ver2 (\<lambda>_. 7))) (LRU_init (hashtable_ver2 (\<lambda>_. 7)) (sample_params 2))
      [sample_req 1 1, sample_req 2 1, sample_req 3 1] = Inr (rs, c') \<and>
    cache_rep (ht_v1 (\<lambda>k. k)) True c L \<and> cache_rep (ht_v2 (\<lambda>_. 7)) True c' L"
  using LRU_tables_agree [of "[sample_req 1 1, sample_req 2 1, sample_req 3 1]" "sample_params 2" "\<lambda>k. k" "\<lambda>_. 7"]
  by (simp add: sample_req_def new_request_def fits_def)

section \<open>Where the eviction loop runs out of objects\<close>

lemma cache_rep_single_evict:
  "cache_rep (ht_v1 hash) cnt c [x] \<Longrightarrow> cache_evict (hashtable_ver1 hash) c req want = Inl Null_deref"
  by (auto simp: cache_rep_def dest!: v1.cache_evict_last)

lemma unat_ucast_u32: "unat (ucast (z :: u32) :: u64) = unat z"
  by (simp add: unsigned_ucast_eq take_bit_nat_eq_self order_less_trans [OF unsigned_less])

lemma FIFO_loop_crash:
  assumes r: "cache_rep (ht_v1 hash) True c [x, y]" and gt: "unat (cache_size c) < unat (snd y)"
  shows "evict_loop (chain_bound (hashtable c)) (FIFO_ops (hashtable_ver1 hash)) c req = Inl Null_deref"
proof -
  have occ: "occupied_size c = of_nat (total_size [x, y])" and n: "unat (n_cur_item (hashtable c)) = 2"
    using fifo1.rep_facts [OF r] by simp_all
  obtain ev c' where e: "evict (FIFO_ops (hashtable_ver1 hash)) c req False = Inr (ev, c')"
    and r': "cache_rep (ht_v1 hash) True c' [y]" and sp: "same_params c c'"
    using fifo1.evict_one [OF r, of req] by auto
  have "unat (snd x) < 2 ^ 32" "unat (snd y) < 2 ^ 32" using unsigned_less [of "snd x"] unsigned_less [of "snd y"] by auto
  then have "unat (occupied_size c) = total_size [x, y]" unfolding occ by (intro unat_of_nat_u64) simp
  then have "occupied_size c > cache_size c" using gt by (simp add: word_less_nat_alt)
  moreover have "occupied_size c' > cache_size c'"
    using fifo1.rep_facts [OF r'] gt sp by (simp add: word_less_nat_alt same_params_def unat_ucast_u32)
  moreover have "evict (FIFO_ops (hashtable_ver1 hash)) c' req False = Inl Null_deref"
    using cache_rep_single_evict [OF r'] by (simp add: FIFO_ops_def FIFO_evict_def)
  moreover have "chain_bound (hashtable c) = Suc (Suc (Suc (Suc 0)))" using n by simp
  ultimately show ?thesis using e by simp
qed

text \<open>
  (C20) The bound on the request sizes of the FIFO theorem is needed. Two objects are cached, the
  newer one is then requested with a size larger than the whole cache, which a hit records without
  evicting, and the older one is requested again: the eviction loop takes the older object, then the
  newer one, which is the last of the list, and follows its null successor.
\<close>

theorem FIFO_oversized_hit_crashes:
  assumes "i \<noteq> j" "0 < unat x" "0 < unat y" "unat x + unat y \<le> unat n" "unat n < unat big" "unat big < 2 ^ 32"
  shows "get_all (FIFO_ops (hashtable_ver1 hash)) (FIFO_init (hashtable_ver1 hash) (sample_params n))
      [sample_req i x, sample_req j y, sample_req j big, sample_req i x] = Inl Null_deref"
proof -
  let ?V = "FIFO_ops (hashtable_ver1 hash)" and ?rep = "cache_rep (ht_v1 hash) True"
  let ?c = "FIFO_init (hashtable_ver1 hash) (sample_params n)"
  have sz: "unat n < 2 ^ 47" "unat x < 2 ^ 32" "unat y < 2 ^ 32" using assms by simp_all
  then have ft: "fits (sample_req i x)" "fits (sample_req j y)" "fits (sample_req j big)"
    and u: "unat (ucast x :: u32) = unat x" "unat (ucast y :: u32) = unat y" "unat (ucast big :: u32) = unat big"
    using assms fitsD(2) [of "sample_req _ _"] by (simp_all add: unsigned_ucast_eq take_bit_nat_eq_self)
  have r0: "?rep ?c []" "cache_size ?c = n" using v1.init_rep [of hash] by (simp_all add: FIFO_init_def)
  obtain q1 c1 where c1: "cache_get ?V ?c (sample_req i x) = Inr (cache_ck_miss, q1, c1)"
    "?rep c1 [(i, ucast x)]" "cache_size c1 = n"
    using fifo1.cache_get_correct [OF r0(1), of "sample_req i x"] assms(1-4) sz ft r0(2) u
    by (auto simp: run_simps fit_inv_def)
  obtain q2 c2 where c2: "cache_get ?V c1 (sample_req j y) = Inr (cache_ck_miss, q2, c2)"
    "?rep c2 [(i, ucast x), (j, ucast y)]" "cache_size c2 = n"
    using fifo1.cache_get_correct [OF c1(2), of "sample_req j y"] assms(1-4) sz ft c1(3) u
    by (auto simp: run_simps fit_inv_def)
  obtain q3 c3 where c3: "cache_get ?V c2 (sample_req j big) = Inr (cache_ck_hit, q3, c3)"
    "?rep c3 [(i, ucast x), (j, ucast big)]" "cache_size c3 = n"
    using fifo1.cache_get_large [OF c2(2), of "sample_req j big"] assms ft c2(3) u
    by (auto simp: run_simps word_less_nat_alt)
  obtain q4 c4 where c4: "check ?V c3 (sample_req i x) True = Inr (cache_ck_hit, q4, c4)"
    "q4\<lparr>hv := hv (sample_req i x)\<rparr> = sample_req i x"
    "?rep c4 [(i, ucast x), (j, ucast big)]" "same_params c3 c4"
    using fifo1.check_hit [OF c3(2), of "sample_req i x"] assms(1) ft by (auto simp: run_simps)
  have "obj_size q4 = x" using arg_cong [OF c4(2), of obj_size] by simp
  then have "cache_get ?V c3 (sample_req i x) = Inl Null_deref"
    using FIFO_loop_crash [OF c4(3)] c4(1,4) c3(3) assms u
    by (simp add: cache_get_def same_params_def word_le_nat_alt del: evict_loop.simps)
  then show ?thesis using c1(1) c2(1) c3(1) by simp
qed

theorem FIFO_oversized_hit_crashes_witness:
  "get_all (FIFO_ops (hashtable_ver1 (\<lambda>k. k))) (FIFO_init (hashtable_ver1 (\<lambda>k. k)) (sample_params 10))
      [sample_req 1 5, sample_req 2 5, sample_req 2 20, sample_req 1 5] = Inl Null_deref"
  by (rule FIFO_oversized_hit_crashes) simp_all

section \<open>Removing an object\<close>

text \<open>
  (C26) Over the default hash table \<^verbatim>\<open>FIFO_remove_obj\<close> and \<^verbatim>\<open>LRU_remove_obj\<close> never remove anything:
  the look-up by id they start with returns the null pointer for every id, also for a cached one.
\<close>

theorem remove_obj_does_nothing:
  assumes "cache_rep (ht_v1 hash) cnt c L" and "heap (hashtable c) p \<noteq> None" "p \<noteq> NULL"
  shows "\<exists>s. FIFO_remove_obj (hashtable_ver1 hash) c p = Inr (c\<lparr>hashtable := s\<rparr>) \<and>
    LRU_remove_obj (hashtable_ver1 hash) c p = Inr (c\<lparr>hashtable := s\<rparr>) \<and> same_table (hashtable c) s"
proof -
  obtain xs x where h: "ht_v1 hash (hashtable c) (set xs)" and x: "heap (hashtable c) p = Some x"
    using assms(1,2) by (auto simp: cache_rep_def cache_at_def)
  then obtain s where "chained_hashtable_find_obj_id hash (hashtable c) (o_id x) = Inr (NULL, s)"
    "same_table (hashtable c) s" using chained_hashtable_find_obj_id_NULL [OF h] by blast
  then show ?thesis
    using x assms(3) by (intro exI [of _ s])
      (simp add: LRU_remove_obj_def FIFO_remove_obj_def hashtable_ver1_def chained_hashtable_find_obj_def c_simps)
qed

theorem remove_obj_does_nothing_witness:
  "\<exists>c p s. cache_rep (ht_v1 (\<lambda>k. k)) True c [(1, 5)] \<and> payload (heap (hashtable c)) p = (1, 5) \<and>
    FIFO_remove_obj (hashtable_ver1 (\<lambda>k. k)) c p = Inr (c\<lparr>hashtable := s\<rparr>) \<and> same_table (hashtable c) s"
proof -
  obtain q c where c: "cache_rep (ht_v1 (\<lambda>k. k)) True c [(1, 5)]"
    using fifo1.cache_get_correct [OF v1.init_rep, of "\<lambda>k. k" "sample_req 1 5" "sample_params 10"]
    by (auto simp: run_simps fit_inv_def)
  then obtain p where p: "payload (heap (hashtable c)) p = (1, 5)" "ht_v1 (\<lambda>k. k) (hashtable c) {p}"
    by (auto simp: cache_rep_def cache_at_def map_eq_Cons_conv)
  then have "heap (hashtable c) p \<noteq> None" "p \<noteq> NULL" using v1.alloc [of "\<lambda>k. k" _ "{p}" p] by auto
  from remove_obj_does_nothing [OF c this] show ?thesis using c p(1) by blast
qed

section \<open>Counting the cache's objects\<close>

lemma fold_cache_state:
  "fold (\<lambda>p (cnt, bytes). (cnt + 1, bytes + ucast (o_size (the (h p))))) ps (a, b) =
    (a + of_nat (length ps), b + of_nat (total_size (view h ps)))" for a b :: u64
  by (induction ps arbitrary: a b) (simp_all add: payload_def add_ac)

text \<open>
  \<^verbatim>\<open>get_cache_state\<close>, which walks the hash table, reports the number of objects in the list and
  the sum of their sizes, which is \<^verbatim>\<open>occupied_size\<close>.
\<close>

lemma get_cache_state_correct:
  assumes "cache_rep (ht_v1 hash) cnt c L"
  shows "get_cache_state (hashtable_ver1 hash) c = Inr (of_nat (length L), occupied_size c)"
proof -
  obtain xs where xs: "ht_v1 hash (hashtable c) (set xs)" "distinct xs" "L = view (heap (hashtable c)) xs"
    "occupied_size c = of_nat (total_size L)"
    using assms by (auto simp: cache_rep_def cache_at_def linked_def dll_def)
  obtain ps where ps: "chained_hashtable_foreach (hashtable c) = Inr ps" "set ps = set xs" "distinct ps"
    using chained_hashtable_foreach_correct [OF xs(1)] by blast
  then have "mset ps = mset xs" using xs(2) by (simp add: set_eq_iff_mset_eq_distinct)
  then have "length ps = length xs" "total_size (view (heap (hashtable c)) ps) = total_size L"
    unfolding xs(3) total_size_def by (metis size_mset) (metis mset_map sum_mset_sum_list \<open>mset ps = mset xs\<close>)
  then show ?thesis
    using ps(1) xs(3,4) by (simp add: get_cache_state_def hashtable_ver1_def fold_cache_state)
qed

end
