(* ===== verification/Splay.thy ===== *)
theory Splay
  imports Prelude
begin

text \<open>
  The size-augmented top-down splay tree of \<^verbatim>\<open>dataStructure/splay.c\<close> and
  \<^verbatim>\<open>include/splay.h\<close>, used by the profiler to count the keys above a timestamp.

  A tree is a datatype with the source's four fields. The two trees the C code grows at the
  \<^verbatim>\<open>right\<close> and \<^verbatim>\<open>left\<close> pointers of the dummy node \<^verbatim>\<open>N\<close> are the spines \<open>L\<close> and \<open>R\<close>: lists of
  nodes whose spine pointer is the next entry, the oldest entry (the child of \<^verbatim>\<open>N\<close>) first, the
  node \<^verbatim>\<open>l\<close> (\<^verbatim>\<open>r\<close>) points to last. Keys and sizes are unbounded integers: \<^verbatim>\<open>key_cmp\<close> is the
  subtraction of the source, which C defines only while it does not overflow.
\<close>

section \<open>Nodes\<close>

datatype sTree = NilT | SNode (left_of: sTree) (key_of: int) (val_of: int) (right_of: sTree)

fun node_value :: "sTree \<Rightarrow> int" where
  "node_value NilT = 0"
| "node_value (SNode l k v r) = v"

definition key_cmp :: "int \<Rightarrow> int \<Rightarrow> int" where
  "key_cmp i j = i - j"

lemma key_cmp_simps [simp]:
  "key_cmp i j < 0 \<longleftrightarrow> i < j"
  "0 < key_cmp i j \<longleftrightarrow> j < i"
  "key_cmp i j = 0 \<longleftrightarrow> i = j"
  by (auto simp: key_cmp_def)

type_synonym lspine = "(sTree \<times> int \<times> int) list"
type_synonym rspine = "(int \<times> int \<times> sTree) list"

section \<open>The splay operation\<close>

text \<open>The \<^verbatim>\<open>for (;;)\<close> loop: it returns the spines, the two size counters and the node at which
  it left the loop.\<close>

fun splay_loop ::
  "int \<Rightarrow> lspine \<Rightarrow> rspine \<Rightarrow> int \<Rightarrow> int \<Rightarrow> sTree \<Rightarrow> lspine \<times> rspine \<times> int \<times> int \<times> sTree" where
  "splay_loop i L R l_size r_size NilT = (L, R, l_size, r_size, NilT)"
| "splay_loop i L R l_size r_size (SNode a k v b) =
    (if key_cmp i k < 0 then
       (case a of
          NilT \<Rightarrow> (L, R, l_size, r_size, SNode a k v b)
        | SNode yl yk yv yr \<Rightarrow>
            if key_cmp i yk < 0 then
              (let t = SNode yr k (node_value yr + node_value b + 1) b in
               if yl = NilT then (L, R, l_size, r_size, SNode yl yk yv t)
               else splay_loop i L (R @ [(yk, yv, t)]) l_size
                      (r_size + (1 + node_value t)) yl)
            else splay_loop i L (R @ [(k, v, b)]) l_size (r_size + (1 + node_value b)) a)
     else if key_cmp i k > 0 then
       (case b of
          NilT \<Rightarrow> (L, R, l_size, r_size, SNode a k v b)
        | SNode yl yk yv yr \<Rightarrow>
            if key_cmp i yk > 0 then
              (let t = SNode a k (node_value a + node_value yl + 1) yl in
               if yr = NilT then (L, R, l_size, r_size, SNode t yk yv yr)
               else splay_loop i (L @ [(t, yk, yv)]) R
                      (l_size + (1 + node_value t)) r_size yr)
            else splay_loop i (L @ [(a, k, v)]) R (l_size + (1 + node_value a)) r_size b)
     else (L, R, l_size, r_size, SNode a k v b))"

text \<open>The two loops that correct the size fields along the spines.\<close>

fun fix_lspine :: "int \<Rightarrow> lspine \<Rightarrow> lspine" where
  "fix_lspine l_size [] = []"
| "fix_lspine l_size ((lt, k, v) # L) = (lt, k, l_size) # fix_lspine (l_size - (1 + node_value lt)) L"

fun fix_rspine :: "int \<Rightarrow> rspine \<Rightarrow> rspine" where
  "fix_rspine r_size [] = []"
| "fix_rspine r_size ((k, v, rt) # R) = (k, r_size, rt) # fix_rspine (r_size - (1 + node_value rt)) R"

text \<open>\<^verbatim>\<open>N.right\<close> after \<^verbatim>\<open>l->right = t->left\<close>, and \<^verbatim>\<open>N.left\<close> after \<^verbatim>\<open>r->left = t->right\<close>.\<close>

fun link_lspine :: "lspine \<Rightarrow> sTree \<Rightarrow> sTree" where
  "link_lspine [] x = x"
| "link_lspine ((lt, k, v) # L) x = SNode lt k v (link_lspine L x)"

fun link_rspine :: "rspine \<Rightarrow> sTree \<Rightarrow> sTree" where
  "link_rspine [] x = x"
| "link_rspine ((k, v, rt) # R) x = SNode (link_rspine R x) k v rt"

definition splay :: "int \<Rightarrow> sTree \<Rightarrow> sTree" where
  "splay i t =
    (if t = NilT then t
     else case splay_loop i [] [] 0 0 t of (L, R, l_size, r_size, t) \<Rightarrow>
       (let l_size = l_size + node_value (left_of t);
            r_size = r_size + node_value (right_of t)
        in SNode (link_lspine (fix_lspine l_size L) (left_of t)) (key_of t)
             (l_size + r_size + 1)
             (link_rspine (fix_rspine r_size R) (right_of t))))"

text \<open>\<^verbatim>\<open>sedgewickized_splay\<close>: the same restructuring, without the size fields. Its key argument
  is a C \<^verbatim>\<open>int\<close>, so the parameter is taken at 32 bits.\<close>

function sedgewick_loop :: "int \<Rightarrow> lspine \<Rightarrow> rspine \<Rightarrow> sTree \<Rightarrow> lspine \<times> rspine \<times> sTree" where
  "sedgewick_loop i L R NilT = (L, R, NilT)"
| "sedgewick_loop i L R (SNode a k v b) =
    (if i < k then
       (let t = (case a of
                   NilT \<Rightarrow> SNode a k v b
                 | SNode yl yk yv yr \<Rightarrow>
                     if i < yk then SNode yl yk yv (SNode yr k v b) else SNode a k v b)
        in if left_of t = NilT then (L, R, t)
           else sedgewick_loop i L (R @ [(key_of t, val_of t, right_of t)]) (left_of t))
     else if k < i then
       (let t = (case b of
                   NilT \<Rightarrow> SNode a k v b
                 | SNode yl yk yv yr \<Rightarrow>
                     if yk < i then SNode (SNode a k v yl) yk yv yr else SNode a k v b)
        in if right_of t = NilT then (L, R, t)
           else sedgewick_loop i (L @ [(left_of t, key_of t, val_of t)]) R (right_of t))
     else (L, R, SNode a k v b))"
  by pat_completeness auto
termination
  by (relation "measure (\<lambda>(i, L, R, t). size t)") (auto split: sTree.splits if_splits)

definition sedgewickized_splay :: "32 word \<Rightarrow> sTree \<Rightarrow> sTree" where
  "sedgewickized_splay i t =
    (if t = NilT then t
     else case sedgewick_loop (sint i) [] [] t of (L, R, t) \<Rightarrow>
       SNode (link_lspine L (left_of t)) (key_of t) (val_of t) (link_rspine R (right_of t)))"

section \<open>Insertion, deletion, the integrity check\<close>

text \<open>\<^verbatim>\<open>insert\<close>: the \<^verbatim>\<open>assert\<close> of the branch that finds the key present is kept.\<close>

definition splay_insert :: "int \<Rightarrow> sTree \<Rightarrow> sTree result" where
  "splay_insert i t =
    (if t = NilT then Inr (SNode NilT i 1 NilT)
     else
       (let t = splay i t; a = left_of t; k = key_of t; b = right_of t in
        if key_cmp i k < 0 then
          (let t' = SNode NilT k (1 + node_value b) b in
           Inr (SNode a i (1 + node_value a + node_value t') t'))
        else if key_cmp i k > 0 then
          (let t' = SNode a k (1 + node_value a) NilT in
           Inr (SNode t' i (1 + node_value t' + node_value b) b))
        else if val_of t = 1 + node_value a + node_value b then Inr t
        else Inl Assert_failed))"

definition set_value :: "int \<Rightarrow> sTree \<Rightarrow> sTree" where
  "set_value v t = (case t of NilT \<Rightarrow> NilT | SNode a k _ b \<Rightarrow> SNode a k v b)"

definition set_right :: "sTree \<Rightarrow> sTree \<Rightarrow> sTree" where
  "set_right b t = (case t of NilT \<Rightarrow> NilT | SNode a k v _ \<Rightarrow> SNode a k v b)"

definition splay_delete :: "int \<Rightarrow> sTree \<Rightarrow> sTree" where
  "splay_delete i t =
    (if t = NilT then NilT
     else
       (let root_value = node_value t; t = splay i t in
        if key_cmp i (key_of t) = 0 then
          (let x = (if left_of t = NilT then right_of t
                    else set_right (right_of t) (splay i (left_of t)))
           in set_value (root_value - 1) x)
        else t))"

text \<open>\<^verbatim>\<open>check_sTree\<close>: true when none of its assertions fails.\<close>

fun check_sTree :: "sTree \<Rightarrow> bool" where
  "check_sTree NilT = True"
| "check_sTree (SNode a k v b) =
    (v = node_value a + node_value b + 1 \<and> check_sTree a \<and> check_sTree b)"


section \<open>The keys in order\<close>

fun inorder :: "sTree \<Rightarrow> int list" where
  "inorder NilT = []"
| "inorder (SNode a k v b) = inorder a @ k # inorder b"

definition bst :: "sTree \<Rightarrow> bool" where
  "bst t \<longleftrightarrow> sorted_wrt (<) (inorder t)"

fun inorder_l :: "lspine \<Rightarrow> int list" where
  "inorder_l [] = []"
| "inorder_l ((lt, k, v) # L) = inorder lt @ k # inorder_l L"

fun inorder_r :: "rspine \<Rightarrow> int list" where
  "inorder_r [] = []"
| "inorder_r ((k, v, rt) # R) = inorder_r R @ k # inorder rt"

lemma inorder_l_append [simp]: "inorder_l (L @ M) = inorder_l L @ inorder_l M"
  by (induction L rule: inorder_l.induct) auto

lemma inorder_r_append [simp]: "inorder_r (R @ S) = inorder_r S @ inorder_r R"
  by (induction R rule: inorder_r.induct) auto

lemma inorder_fix_lspine [simp]: "inorder_l (fix_lspine n L) = inorder_l L"
  by (induction L arbitrary: n rule: inorder_l.induct) auto

lemma inorder_fix_rspine [simp]: "inorder_r (fix_rspine n R) = inorder_r R"
  by (induction R arbitrary: n rule: inorder_r.induct) auto

lemma inorder_link_lspine [simp]: "inorder (link_lspine L x) = inorder_l L @ inorder x"
  by (induction L x rule: link_lspine.induct) auto

lemma inorder_link_rspine [simp]: "inorder (link_rspine R x) = inorder x @ inorder_r R"
  by (induction R x rule: link_rspine.induct) auto

lemma inorder_eq_Nil [simp]: "inorder t = [] \<longleftrightarrow> t = NilT"
  by (cases t) auto

lemma inorder_node: "t \<noteq> NilT \<Longrightarrow> inorder t = inorder (left_of t) @ key_of t # inorder (right_of t)"
  by (cases t) auto

declare splay_loop.simps [simp del] sedgewick_loop.simps [simp del]

text \<open>
  A rule for the loop: a property of the loop's state that the two rotations and the two links
  keep holds when the loop stops, and it stops at a node with nothing left on the side of the key.
\<close>

definition stopped_at :: "int \<Rightarrow> sTree \<Rightarrow> bool" where
  "stopped_at i t \<longleftrightarrow> t \<noteq> NilT \<and> (i < key_of t \<longrightarrow> left_of t = NilT) \<and>
     (key_of t < i \<longrightarrow> right_of t = NilT)"

lemma splay_loop_rule [consumes 3, case_names rot_right link_right rot_left link_left]:
  assumes "splay_loop i L R ls rs t = (L', R', ls', rs', t')" and "t \<noteq> NilT" and "P L R ls rs t"
    and rr: "\<And>L R ls rs yl yk yv yr k v b. i < k \<Longrightarrow> i < yk \<Longrightarrow>
      P L R ls rs (SNode (SNode yl yk yv yr) k v b) \<Longrightarrow>
      P L R ls rs (SNode yl yk yv (SNode yr k (node_value yr + node_value b + 1) b))"
    and lr: "\<And>L R ls rs a k v b. i < k \<Longrightarrow> a \<noteq> NilT \<Longrightarrow> P L R ls rs (SNode a k v b) \<Longrightarrow>
      P L (R @ [(k, v, b)]) ls (rs + (1 + node_value b)) a"
    and rl: "\<And>L R ls rs a k v yl yk yv yr. k < i \<Longrightarrow> yk < i \<Longrightarrow>
      P L R ls rs (SNode a k v (SNode yl yk yv yr)) \<Longrightarrow>
      P L R ls rs (SNode (SNode a k (node_value a + node_value yl + 1) yl) yk yv yr)"
    and ll: "\<And>L R ls rs a k v b. k < i \<Longrightarrow> b \<noteq> NilT \<Longrightarrow> P L R ls rs (SNode a k v b) \<Longrightarrow>
      P (L @ [(a, k, v)]) R (ls + (1 + node_value a)) rs b"
  shows "P L' R' ls' rs' t' \<and> stopped_at i t'"
  using assms(1-3)
proof (induction t arbitrary: L R ls rs rule: measure_induct_rule [of size])
  case (less t)
  then obtain a k v b where t: "t = SNode a k v b" by (cases t) auto
  note IH = less.IH and loop = less.prems(1) and P = less.prems(3)
  consider (eq) "i = k"
    | (l0) "i < k" "a = NilT" | (r0) "k < i" "b = NilT"
    | (l) yl yk yv yr where "i < k" "a = SNode yl yk yv yr"
    | (r) yl yk yv yr where "k < i" "b = SNode yl yk yv yr"
    by (metis linorder_neqE_linordered_idom sTree.exhaust)
  then show ?case
  proof cases
    case l
    note P' = rr [OF \<open>i < k\<close> _ P [unfolded t l]]
    show ?thesis
      using loop IH [of yl L "R @ [(yk, yv, SNode yr k (node_value yr + node_value b + 1) b)]"]
        IH [of a L "R @ [(k, v, b)]"] P' lr [OF _ _ P'] lr [OF l(1) _ P [unfolded t]] l
      by (auto simp: t splay_loop.simps Let_def stopped_at_def split: if_splits)
  next
    case r
    note P' = rl [OF \<open>k < i\<close> _ P [unfolded t r]]
    show ?thesis
      using loop IH [of yr "L @ [(SNode a k (node_value a + node_value yl + 1) yl, yk, yv)]" R]
        IH [of b "L @ [(a, k, v)]" R] P' ll [OF _ _ P'] ll [OF r(1) _ P [unfolded t]] r
      by (auto simp: t splay_loop.simps Let_def stopped_at_def split: if_splits)
  qed (use loop P in \<open>auto simp: t splay_loop.simps stopped_at_def\<close>)
qed

lemma splay_loop_obtain:
  assumes "t \<noteq> NilT"
  obtains L R ls rs a k v b where "splay_loop i [] [] 0 0 t = (L, R, ls, rs, SNode a k v b)"
    "splay i t = SNode (link_lspine (fix_lspine (ls + node_value a) L) a) k
       (ls + node_value a + (rs + node_value b) + 1)
       (link_rspine (fix_rspine (rs + node_value b) R) b)"
    "stopped_at i (SNode a k v b)"
proof -
  obtain L R ls rs t' where l: "splay_loop i [] [] 0 0 t = (L, R, ls, rs, t')"
    by (metis prod_cases5)
  have "stopped_at i t'"
    using splay_loop_rule [OF l assms, of "\<lambda>_ _ _ _ _. True"] by simp
  moreover from this obtain a k v b where "t' = SNode a k v b"
    by (cases t') (auto simp: stopped_at_def)
  ultimately show ?thesis
    using assms by (intro that [of L R ls rs a k v b]) (auto simp: l splay_def Let_def)
qed

text \<open>Read from left to right, the spines and the current tree list the same keys throughout.\<close>

lemma splay_loop_inorder:
  assumes "splay_loop i L R ls rs t = (L', R', ls', rs', t')" "t \<noteq> NilT"
  shows "inorder_l L' @ inorder t' @ inorder_r R' = inorder_l L @ inorder t @ inorder_r R"
  using splay_loop_rule [OF assms, where P = "\<lambda>L' R' _ _ t'.
    inorder_l L' @ inorder t' @ inorder_r R' = inorder_l L @ inorder t @ inorder_r R"]
  by simp

lemma inorder_splay [simp]: "inorder (splay i t) = inorder t"
proof (cases "t = NilT")
  case False
  then obtain L R ls rs a k v b where
    l: "splay_loop i [] [] 0 0 t = (L, R, ls, rs, SNode a k v b)" and
    s: "splay i t = SNode (link_lspine (fix_lspine (ls + node_value a) L) a) k
       (ls + node_value a + (rs + node_value b) + 1)
       (link_rspine (fix_rspine (rs + node_value b) R) b)"
    by (rule splay_loop_obtain)
  from splay_loop_inorder [OF l False] show ?thesis by (simp add: s)
qed (simp add: splay_def)

lemma splay_node_inorder: "splay i t = SNode a k v b \<Longrightarrow> inorder t = inorder a @ k # inorder b"
  by (metis inorder.simps(2) inorder_splay)

lemma splay_eq_NilT [simp]: "splay i t = NilT \<longleftrightarrow> t = NilT"
  by (metis inorder_eq_Nil inorder_splay)

section \<open>What splaying finds\<close>

text \<open>In a search tree the spines hold exactly the keys on either side of the key sought.\<close>

lemma splay_loop_split:
  assumes "splay_loop i [] [] 0 0 t = (L', R', ls', rs', t')" "t \<noteq> NilT" "bst t"
  shows "(\<forall>x \<in> set (inorder_l L'). x < i) \<and> (\<forall>x \<in> set (inorder_r R'). i < x) \<and>
    sorted_wrt (<) (inorder t')"
  using splay_loop_rule [OF assms(1,2), where P = "\<lambda>L R _ _ t. (\<forall>x \<in> set (inorder_l L). x < i) \<and>
    (\<forall>x \<in> set (inorder_r R). i < x) \<and> sorted_wrt (<) (inorder t)"] assms(3)
  by (fastforce simp: sorted_wrt_append bst_def)

lemma splay_splits:
  assumes "bst t" "splay i t = SNode a k v b"
  shows "(\<forall>x \<in> set (inorder a). x < i) \<and> (\<forall>x \<in> set (inorder b). i < x)"
proof -
  have "t \<noteq> NilT" using assms(2) by (auto simp: splay_def)
  then obtain L R ls rs a' k' v' b' where
    l: "splay_loop i [] [] 0 0 t = (L, R, ls, rs, SNode a' k' v' b')" and
    s: "splay i t = SNode (link_lspine (fix_lspine (ls + node_value a') L) a') k'
       (ls + node_value a' + (rs + node_value b') + 1)
       (link_rspine (fix_rspine (rs + node_value b') R) b')" and
    st: "stopped_at i (SNode a' k' v' b')"
    by (rule splay_loop_obtain)
  have ab: "set (inorder a) = set (inorder_l L) \<union> set (inorder a')"
    "set (inorder b) = set (inorder b') \<union> set (inorder_r R)"
    using s assms(2) by auto
  have "sorted_wrt (<) (inorder a' @ k' # inorder b')" and
    out: "\<forall>x \<in> set (inorder_l L). x < i" "\<forall>x \<in> set (inorder_r R). i < x"
    using splay_loop_split [OF l \<open>t \<noteq> NilT\<close> assms(1)] by auto
  then have mid: "\<forall>x \<in> set (inorder a'). x < k'" "\<forall>x \<in> set (inorder b'). k' < x"
    by (auto simp: sorted_wrt_append)
  have "(i < k' \<longrightarrow> a' = NilT) \<and> (k' < i \<longrightarrow> b' = NilT)" using st by (simp add: stopped_at_def)
  with mid have "\<forall>x \<in> set (inorder a'). x < i" "\<forall>x \<in> set (inorder b'). i < x"
    by (cases i k' rule: linorder_cases; auto)+
  with out show ?thesis by (auto simp: ab)
qed

lemma bst_splay [simp]: "bst (splay i t) = bst t"
  by (simp add: bst_def)

lemma splay_root:
  assumes "bst t" "i \<in> set (inorder t)"
  shows "key_of (splay i t) = i"
proof (cases "splay i t")
  case (SNode a k v b)
  then show ?thesis
    using splay_splits [OF assms(1) SNode] splay_node_inorder [OF SNode] assms(2) by fastforce
qed (use assms in auto)

section \<open>The size fields\<close>

definition spine_l_size :: "lspine \<Rightarrow> int" where
  "spine_l_size L = (\<Sum>(lt, k, v) \<leftarrow> L. 1 + node_value lt)"

definition spine_r_size :: "rspine \<Rightarrow> int" where
  "spine_r_size R = (\<Sum>(k, v, rt) \<leftarrow> R. 1 + node_value rt)"

lemma spine_sizes [simp]:
  "spine_l_size [] = 0" "spine_r_size [] = 0"
  "spine_l_size ((lt, k, v) # L) = 1 + node_value lt + spine_l_size L"
  "spine_r_size ((k, v, rt) # R) = 1 + node_value rt + spine_r_size R"
  "spine_l_size (L @ M) = spine_l_size L + spine_l_size M"
  "spine_r_size (R @ S) = spine_r_size R + spine_r_size S"
  by (simp_all add: spine_l_size_def spine_r_size_def)

lemma check_link_lspine:
  assumes "\<forall>(lt, k, v) \<in> set L. check_sTree lt" "check_sTree x" "n = spine_l_size L + node_value x"
  shows "check_sTree (link_lspine (fix_lspine n L) x) \<and>
    node_value (link_lspine (fix_lspine n L) x) = n"
  using assms by (induction L arbitrary: n) auto

lemma check_link_rspine:
  assumes "\<forall>(k, v, rt) \<in> set R. check_sTree rt" "check_sTree x" "n = spine_r_size R + node_value x"
  shows "check_sTree (link_rspine (fix_rspine n R) x) \<and>
    node_value (link_rspine (fix_rspine n R) x) = n"
  using assms by (induction R arbitrary: n) auto

text \<open>Within the loop only the value of the current node may be stale; its subtrees and the
  subtrees hanging off the spines carry their sizes.\<close>

lemma splay_loop_sizes:
  assumes "splay_loop i [] [] 0 0 t = (L', R', ls', rs', t')" "t \<noteq> NilT" "check_sTree t"
  shows "(\<forall>(lt, k, v) \<in> set L'. check_sTree lt) \<and> (\<forall>(k, v, rt) \<in> set R'. check_sTree rt) \<and>
    ls' = spine_l_size L' \<and> rs' = spine_r_size R' \<and>
    check_sTree (left_of t') \<and> check_sTree (right_of t')"
proof -
  let ?P = "\<lambda>L R ls rs t. (\<forall>(lt, k, v) \<in> set L. check_sTree lt) \<and>
    (\<forall>(k, v, rt) \<in> set R. check_sTree rt) \<and> ls = spine_l_size L \<and> rs = spine_r_size R \<and>
    t \<noteq> NilT \<and> check_sTree (left_of t) \<and> check_sTree (right_of t)"
  have kids: "check_sTree (left_of u) \<and> check_sTree (right_of u)" if "check_sTree u" "u \<noteq> NilT" for u
    using that by (cases u) auto
  have "?P L' R' ls' rs' t' \<and> stopped_at i t'"
  proof (rule splay_loop_rule [OF assms(1,2)])
    show "?P [] [] 0 0 t" using kids [OF assms(3,2)] assms(2) by simp
  qed (auto dest: kids)
  then show ?thesis by blast
qed

lemma check_splay: "check_sTree t \<Longrightarrow> check_sTree (splay i t)"
proof (cases "t = NilT")
  case False
  assume c: "check_sTree t"
  obtain L R ls rs a k v b where
    l: "splay_loop i [] [] 0 0 t = (L, R, ls, rs, SNode a k v b)" and
    s: "splay i t = SNode (link_lspine (fix_lspine (ls + node_value a) L) a) k
       (ls + node_value a + (rs + node_value b) + 1)
       (link_rspine (fix_rspine (rs + node_value b) R) b)"
    using False by (rule splay_loop_obtain)
  from splay_loop_sizes [OF l False c] show ?thesis
    using check_link_lspine [of L a "ls + node_value a"]
      check_link_rspine [of R b "rs + node_value b"] by (simp add: s)
qed (simp add: splay_def)

lemma check_node_value: "check_sTree t \<Longrightarrow> node_value t = int (length (inorder t))"
  by (induction t) auto

section \<open>Insertion and deletion\<close>

text \<open>In a search tree, splaying splits the keys into those below and those above the one sought.\<close>

lemma splay_node:
  assumes "bst t" "t \<noteq> NilT"
  obtains a k v b where "splay i t = SNode a k v b"
    "inorder a = filter (\<lambda>x. x < i) (inorder a)" "inorder b = filter (\<lambda>x. i < x) (inorder b)"
    "filter (\<lambda>x. x < i) (inorder t) = inorder a @ (if k < i then [k] else [])"
    "filter (\<lambda>x. i < x) (inorder t) = (if i < k then [k] else []) @ inorder b"
    "(\<forall>x \<in> set (inorder a). x < i \<and> x < k)" "(\<forall>x \<in> set (inorder b). i < x \<and> k < x)"
proof -
  obtain a k v b where s: "splay i t = SNode a k v b"
    using assms(2) by (cases "splay i t") auto
  note i = splay_node_inorder [OF s]
  have ab: "\<forall>x \<in> set (inorder a). x < i" "\<forall>x \<in> set (inorder b). i < x"
    using splay_splits [OF assms(1) s] by auto
  then have f: "filter (\<lambda>x. x < i) (inorder a) = inorder a" "filter (\<lambda>x. i < x) (inorder b) = inorder b"
    "filter (\<lambda>x. i < x) (inorder a) = []" "filter (\<lambda>x. x < i) (inorder b) = []"
    by (auto simp: filter_id_conv filter_empty_conv intro: order_less_imp_not_less)
  moreover have "(\<forall>x \<in> set (inorder a). x < k)" "(\<forall>x \<in> set (inorder b). k < x)"
    using assms(1) by (auto simp: bst_def i sorted_wrt_append)
  ultimately show ?thesis using ab by (intro that [OF s]) (auto simp: i)
qed

lemma splay_insert_correct:
  assumes "bst t" "check_sTree t"
  shows "\<exists>t'. splay_insert i t = Inr t' \<and> check_sTree t' \<and> bst t' \<and>
    inorder t' = filter (\<lambda>x. x < i) (inorder t) @ i # filter (\<lambda>x. i < x) (inorder t)"
proof (cases "t = NilT")
  case False
  then obtain a k v b where s: "splay i t = SNode a k v b" and
    f: "filter (\<lambda>x. x < i) (inorder t) = inorder a @ (if k < i then [k] else [])"
      "filter (\<lambda>x. i < x) (inorder t) = (if i < k then [k] else []) @ inorder b" and
    ab: "(\<forall>x \<in> set (inorder a). x < i \<and> x < k)" "(\<forall>x \<in> set (inorder b). i < x \<and> k < x)"
    using splay_node [OF assms(1)] by metis
  have "sorted_wrt (<) (inorder a @ k # inorder b)"
    using assms(1) splay_node_inorder [OF s] by (simp add: bst_def)
  moreover have "v = node_value a + node_value b + 1" "check_sTree a" "check_sTree b"
    using check_splay [OF assms(2), of i] by (auto simp: s)
  ultimately show ?thesis
    using False ab unfolding splay_insert_def f s Let_def sTree.sel
    by (cases i k rule: linorder_cases) (auto simp: bst_def sorted_wrt_append)
qed (simp add: splay_insert_def bst_def)

lemma splay_max_right:
  assumes "bst t" "\<forall>x \<in> set (inorder t). x < i" "splay i t = SNode a k v b"
  shows "b = NilT"
  using splay_splits [OF assms(1,3)] splay_node_inorder [OF assms(3)] assms(2)
  by (cases b) auto

lemma set_value_simps [simp]:
  "inorder (set_value v t) = inorder t"
  "set_value v (SNode a k w b) = SNode a k v b"
  "set_right b (SNode a k w c) = SNode a k w b"
  "set_value v NilT = NilT"
  by (cases t; simp add: set_value_def set_right_def)+

lemma splay_delete_correct:
  assumes "bst t" "check_sTree t"
  shows "check_sTree (splay_delete i t) \<and> bst (splay_delete i t) \<and>
    inorder (splay_delete i t) = filter (\<lambda>x. x \<noteq> i) (inorder t)"
proof (cases "t = NilT")
  case False
  then obtain a k v b where s: "splay i t = SNode a k v b" and
    ab: "(\<forall>x \<in> set (inorder a). x < i \<and> x < k)" "(\<forall>x \<in> set (inorder b). i < x \<and> k < x)"
    using splay_node [OF assms(1)] by metis
  note it = splay_node_inorder [OF s]
  have sorted: "sorted_wrt (<) (inorder a @ inorder b)" and bsta: "bst a"
    using assms(1) it by (auto simp: bst_def sorted_wrt_append)
  have ck: "v = node_value a + node_value b + 1" "check_sTree a" "check_sTree b"
    using check_splay [OF assms(2), of i] by (auto simp: s)
  have nv: "node_value t = node_value a + node_value b + 1"
    using check_node_value [OF assms(2)] check_node_value [OF ck(2)] check_node_value [OF ck(3)]
    by (simp add: it)
  have fi: "filter (\<lambda>x. x \<noteq> i) (inorder t) = (if k = i then inorder a @ inorder b else inorder t)"
  proof -
    have "filter (\<lambda>x. x \<noteq> i) (inorder a) = inorder a" "filter (\<lambda>x. x \<noteq> i) (inorder b) = inorder b"
      using ab by (auto simp: filter_id_conv)
    then show ?thesis by (simp add: it)
  qed
  show ?thesis
  proof (cases "k = i \<and> a \<noteq> NilT")
    case True
    then obtain a' k' v' b' where sa: "splay i a = SNode a' k' v' b'"
      by (cases "splay i a") auto
    have "b' = NilT" using splay_max_right [OF bsta _ sa] ab by simp
    moreover have "check_sTree (SNode a' k' v' b')" using check_splay [OF ck(2), of i] by (simp add: sa)
    moreover have "inorder a = inorder a' @ [k']" "node_value a = int (length (inorder a))"
      using splay_node_inorder [OF sa] \<open>b' = NilT\<close> check_node_value [OF ck(2)] by auto
    ultimately show ?thesis
      using True False sorted nv ck check_node_value [of a']
      by (auto simp: splay_delete_def s sa Let_def fi bst_def)
  next
    case na: False
    show ?thesis
    proof (cases "k = i")
      case True
      with na False ck nv sorted show ?thesis
        by (cases b) (auto simp: splay_delete_def s Let_def fi bst_def)
    next
      case False
      then show ?thesis
        using \<open>t \<noteq> NilT\<close> check_splay [OF assms(2), of i] assms(1) unfolding fi
        by (simp add: splay_delete_def s Let_def bst_def it)
    qed
  qed
qed (simp add: splay_delete_def bst_def)

section \<open>The simplified splay\<close>

text \<open>\<open>shape\<close> forgets the size fields.\<close>

fun shape :: "sTree \<Rightarrow> sTree" where
  "shape NilT = NilT"
| "shape (SNode a k v b) = SNode (shape a) k 0 (shape b)"

fun shape_l :: "lspine \<Rightarrow> lspine" where
  "shape_l [] = []" | "shape_l ((lt, k, v) # L) = (shape lt, k, 0) # shape_l L"

fun shape_r :: "rspine \<Rightarrow> rspine" where
  "shape_r [] = []" | "shape_r ((k, v, rt) # R) = (k, 0, shape rt) # shape_r R"

lemma shape_append [simp]:
  "shape_l (L @ M) = shape_l L @ shape_l M" "shape_r (R @ S) = shape_r R @ shape_r S"
  by (induction L rule: shape_l.induct, auto) (induction R rule: shape_r.induct, auto)

lemma shape_NilT [simp]: "shape t = NilT \<longleftrightarrow> t = NilT"
  by (cases t) auto

lemma shape_links [simp]:
  "shape_l (fix_lspine n L) = shape_l L"
  "shape_r (fix_rspine n R) = shape_r R"
  "shape (link_lspine L x) = link_lspine (shape_l L) (shape x)"
  "shape (link_rspine R x) = link_rspine (shape_r R) (shape x)"
  by (induction L arbitrary: n rule: shape_l.induct, auto)
     (induction R arbitrary: n rule: shape_r.induct, auto,
      induction L rule: shape_l.induct, auto, induction R rule: shape_r.induct, auto)

lemma shape_SNode_iff:
  "shape t = SNode a k v b \<longleftrightarrow> (\<exists>a' v' b'. t = SNode a' k v' b' \<and> v = 0 \<and> shape a' = a \<and> shape b' = b)"
  by (cases t) auto

lemma sedgewick_loop_shape:
  assumes "splay_loop i L R ls rs t = (L', R', ls', rs', t')" "t \<noteq> NilT"
    "shape u = shape t" "shape_l M = shape_l L" "shape_r S = shape_r R"
  shows "\<exists>M' S' u'. sedgewick_loop i M S u = (M', S', u') \<and> shape_l M' = shape_l L' \<and>
    shape_r S' = shape_r R' \<and> shape u' = shape t'"
  using assms
proof (induction t arbitrary: L R ls rs u M S rule: measure_induct_rule [of size])
  case (less t)
  then obtain a k v b where t: "t = SNode a k v b" by (cases t) auto
  with less.prems obtain a' v' b' where u: "u = SNode a' k v' b'" "shape a' = shape a" "shape b' = shape b"
    by (auto simp: shape_SNode_iff)
  note prems = less.prems
  consider (eq) "i = k"
    | (l0) "i < k" "a = NilT" | (r0) "k < i" "b = NilT"
    | (l) yl yk yv yr where "i < k" "a = SNode yl yk yv yr"
    | (r) yl yk yv yr where "k < i" "b = SNode yl yk yv yr"
    by (metis linorder_neqE_linordered_idom sTree.exhaust)
  then show ?case
  proof cases
    case l
    with u obtain yl' yv' yr' where a': "a' = SNode yl' yk yv' yr'" "shape yl' = shape yl" "shape yr' = shape yr"
      by (auto simp: shape_SNode_iff)
    have "yl' = NilT \<longleftrightarrow> yl = NilT" using a' by (metis shape_NilT)
    then show ?thesis
      using prems l a' u
        less.IH [of yl L "R @ [(yk, yv, SNode yr k (node_value yr + node_value b + 1) b)]" ls _ yl' M
          "S @ [(yk, yv', SNode yr' k v' b')]"]
        less.IH [of a L "R @ [(k, v, b)]" ls _ a' M "S @ [(k, v', b')]"]
      by (auto simp: t splay_loop.simps sedgewick_loop.simps Let_def split: if_splits)
  next
    case r
    with u obtain yl' yv' yr' where b': "b' = SNode yl' yk yv' yr'" "shape yl' = shape yl" "shape yr' = shape yr"
      by (auto simp: shape_SNode_iff)
    have "yr' = NilT \<longleftrightarrow> yr = NilT" using b' by (metis shape_NilT)
    then show ?thesis
      using prems r b' u
        less.IH [of yr "L @ [(SNode a k (node_value a + node_value yl + 1) yl, yk, yv)]" R _ rs yr'
          "M @ [(SNode a' k v' yl', yk, yv')]" S]
        less.IH [of b "L @ [(a, k, v)]" R _ rs b' "M @ [(a', k, v')]" S]
      by (auto simp: t splay_loop.simps sedgewick_loop.simps Let_def split: if_splits)
  next
    case l0
    then have "a' = NilT" using u by (metis shape_NilT)
    with l0 prems show ?thesis by (auto simp: t u splay_loop.simps sedgewick_loop.simps Let_def)
  next
    case r0
    then have "b' = NilT" using u by (metis shape_NilT)
    with r0 prems show ?thesis by (auto simp: t u splay_loop.simps sedgewick_loop.simps Let_def)
  next
    case eq
    with prems show ?thesis by (auto simp: t u splay_loop.simps sedgewick_loop.simps Let_def)
  qed
qed


section \<open>Sequences of operations\<close>

text \<open>
  Splaying for a key of a search tree with correct size fields brings it to the root; the
  subtrees list the smaller and the larger keys, and their size fields count them. This is the fact
  the stack distance computation reads off the right child.
\<close>

theorem splay_access:
  assumes "bst t" "check_sTree t" "i \<in> set (inorder t)"
  shows "\<exists>a b. splay i t = SNode a i (int (length (inorder t))) b \<and>
    inorder a = filter (\<lambda>x. x < i) (inorder t) \<and> inorder b = filter (\<lambda>x. i < x) (inorder t) \<and>
    node_value a = int (length (inorder a)) \<and> node_value b = int (length (inorder b))"
proof -
  have "t \<noteq> NilT" using assms(3) by auto
  then obtain a k v b where s: "splay i t = SNode a k v b"
    and f: "filter (\<lambda>x. x < i) (inorder t) = inorder a @ (if k < i then [k] else [])"
      "filter (\<lambda>x. i < x) (inorder t) = (if i < k then [k] else []) @ inorder b"
    using splay_node [OF assms(1)] by metis
  have k: "k = i" using splay_root [OF assms(1,3)] s by simp
  have c: "check_sTree (SNode a k v b)" using check_splay [OF assms(2), of i] s by simp
  then have "v = int (length (inorder t))" using check_node_value [OF c] splay_node_inorder [OF s] by simp
  then show ?thesis using s f k c check_node_value [of a] check_node_value [of b] by simp
qed

theorem splay_access_witness:
  "\<exists>a b. splay 1 (SNode (SNode NilT 1 1 NilT) 2 3 (SNode NilT 3 1 NilT)) = SNode a 1 3 b \<and>
    inorder a = [] \<and> inorder b = [2, 3] \<and> node_value a = 0 \<and> node_value b = 2"
  using splay_access [of "SNode (SNode NilT 1 1 NilT) 2 3 (SNode NilT 3 1 NilT)" 1] by (auto simp: bst_def)

text \<open>Any sequence of calls on an initially empty tree.\<close>

datatype splay_op = Do_insert int | Do_delete int | Do_splay int

fun splay_run :: "splay_op list \<Rightarrow> sTree \<Rightarrow> sTree result" where
  "splay_run [] t = Inr t"
| "splay_run (Do_insert i # ops) t = rbind (splay_insert i t) (splay_run ops)"
| "splay_run (Do_delete i # ops) t = splay_run ops (splay_delete i t)"
| "splay_run (Do_splay i # ops) t = splay_run ops (splay i t)"

fun keys_run :: "splay_op list \<Rightarrow> int set \<Rightarrow> int set" where
  "keys_run [] K = K"
| "keys_run (Do_insert i # ops) K = keys_run ops (insert i K)"
| "keys_run (Do_delete i # ops) K = keys_run ops (K - {i})"
| "keys_run (Do_splay i # ops) K = keys_run ops K"

lemma splay_run_from:
  "bst t \<Longrightarrow> check_sTree t \<Longrightarrow> \<exists>t'. splay_run ops t = Inr t' \<and> bst t' \<and> check_sTree t' \<and>
    set (inorder t') = keys_run ops (set (inorder t))"
proof (induction ops t rule: splay_run.induct)
  case (2 i ops t)
  obtain u where u: "splay_insert i t = Inr u" "check_sTree u" "bst u"
    "inorder u = filter (\<lambda>x. x < i) (inorder t) @ i # filter (\<lambda>x. i < x) (inorder t)"
    using splay_insert_correct [OF 2(2,3)] by blast
  have "set (inorder u) = insert i (set (inorder t))" by (auto simp: u(4))
  then show ?case using 2(1) [OF u(1,3,2)] u(1) by simp
next
  case (3 i ops t)
  have "{x \<in> set (inorder t). x \<noteq> i} = set (inorder t) - {i}" by auto
  then show ?case using 3 splay_delete_correct [OF 3(2,3), of i] by simp
qed (simp_all add: check_splay)


end
