(* ===== verification/StackDist.thy ===== *)
theory StackDist
  imports Structs Splay
begin

text \<open>
  The distances of \<^verbatim>\<open>profiler/include/distInternal.h\<close>, \<^verbatim>\<open>profiler/dist.c\<close> and
  \<^verbatim>\<open>profiler/profilerLRU.c\<close>: stack distance, last and first access distance, reuse time, and the
  LRU hit and miss counts derived from the stack distances.

  A reader is the list of the valid requests it yields. GLib's hash table is not part of the
  repository: its operations are the fields of an argument \<open>G\<close>, and \<open>ghash_ok G\<close> is what GLib
  documents of them. Keys and values are pointer-sized words, and the null pointer (0) is also
  what a failed look-up returns.
\<close>

section \<open>The GLib hash table as a parameter\<close>

record 'h ghash =
  g_hash_table_new_full :: 'h
  g_hash_table_lookup :: "'h \<Rightarrow> u64 \<Rightarrow> u64"
  g_hash_table_insert :: "'h \<Rightarrow> u64 \<Rightarrow> u64 \<Rightarrow> 'h"

definition ghash_ok :: "'h ghash \<Rightarrow> bool" where
  "ghash_ok G \<longleftrightarrow>
    (\<forall>k. g_hash_table_lookup G (g_hash_table_new_full G) k = 0) \<and>
    (\<forall>h k v k'. g_hash_table_lookup G (g_hash_table_insert G h k v) k' =
       (if k' = k then v else g_hash_table_lookup G h k'))"

text \<open>An instance of the parameter, for evaluation: the table as a function.\<close>

definition fun_ghash :: "(u64 \<Rightarrow> u64) ghash" where
  "fun_ghash = \<lparr>g_hash_table_new_full = (\<lambda>_. 0), g_hash_table_lookup = (\<lambda>h. h),
     g_hash_table_insert = (\<lambda>h k v. h(k := v))\<rparr>"

lemma fun_ghash_ok: "ghash_ok fun_ghash"
  by (simp add: ghash_ok_def fun_ghash_def)

definition req_for :: "obj_id_t \<Rightarrow> request_t" where
  "req_for k = new_request\<lparr>obj_id_int := k\<rparr>"

lemma req_for_id [simp]: "obj_id_int (req_for k) = k" "obj_id_int (req_for k\<lparr>real_time := t\<rparr>) = k"
  by (simp_all add: req_for_def)

section \<open>Adding one request\<close>

text \<open>Timestamps are \<^verbatim>\<open>guint64\<close>; the splay tree's keys are their signed readings.\<close>

definition get_last_dist_add_req ::
  "'h ghash \<Rightarrow> request_t \<Rightarrow> 'h \<Rightarrow> u64 \<Rightarrow> int \<times> 'h" where
  "get_last_dist_add_req G req h ts =
    (let gp = g_hash_table_lookup G h (obj_id_int req);
         ret = (if gp = 0 then -1 else sint ts - sint gp - 1)
     in (ret, g_hash_table_insert G h (obj_id_int req) ts))"

definition get_first_dist_add_req ::
  "'h ghash \<Rightarrow> request_t \<Rightarrow> 'h \<Rightarrow> u64 \<Rightarrow> int \<times> 'h" where
  "get_first_dist_add_req G req h ts =
    (let gp = g_hash_table_lookup G h (obj_id_int req) in
     if gp = 0 then (-1, g_hash_table_insert G h (obj_id_int req) ts)
     else (sint ts - sint gp - 1, h))"

definition get_stack_dist_add_req ::
  "'h ghash \<Rightarrow> request_t \<Rightarrow> sTree \<Rightarrow> 'h \<Rightarrow> u64 \<Rightarrow> (sTree \<times> 'h \<times> int) result" where
  "get_stack_dist_add_req G req splay_tree h ts =
    (let gp = g_hash_table_lookup G h (obj_id_int req);
         h' = g_hash_table_insert G h (obj_id_int req) ts
     in if gp = 0 then
          rbind (splay_insert (sint ts) splay_tree) (\<lambda>newtree. Inr (newtree, h', -1))
        else
          (let old_ts = sint gp; newtree = splay old_ts splay_tree in
           if newtree = NilT then Inl Null_deref
           else
             (let stack_dist = node_value (right_of newtree) in
              rbind (splay_insert (sint ts) (splay_delete old_ts newtree))
                (\<lambda>newtree. Inr (newtree, h', stack_dist)))))"

section \<open>The passes over a trace\<close>

fun stack_dist_loop ::
  "'h ghash \<Rightarrow> sTree \<Rightarrow> 'h \<Rightarrow> u64 \<Rightarrow> request_t list \<Rightarrow> int list result" where
  "stack_dist_loop G splay_tree h ts [] = Inr []"
| "stack_dist_loop G splay_tree h ts (req # reqs) =
    rbind (get_stack_dist_add_req G req splay_tree h ts) (\<lambda>(splay_tree, h, rd).
    rbind (stack_dist_loop G splay_tree h (ts + 1) reqs) (\<lambda>rds. Inr (rd # rds)))"

definition get_stack_dist :: "'h ghash \<Rightarrow> request_t list \<Rightarrow> int list result" where
  "get_stack_dist G reqs = stack_dist_loop G NilT (g_hash_table_new_full G) 0 reqs"

text \<open>\<^verbatim>\<open>get_future_stack_dist\<close> reads the trace backwards and fills the array from its end.\<close>

fun future_stack_dist_loop ::
  "'h ghash \<Rightarrow> nat \<Rightarrow> sTree \<Rightarrow> 'h \<Rightarrow> u64 \<Rightarrow> int list \<Rightarrow> request_t list \<Rightarrow> int list result" where
  "future_stack_dist_loop G n splay_tree h ts arr [] = Inr arr"
| "future_stack_dist_loop G n splay_tree h ts arr (req # reqs) =
    (if unat ts = n then Inr arr
     else
       rbind (get_stack_dist_add_req G req splay_tree h ts) (\<lambda>(splay_tree, h, stack_dist).
       if int n - 1 - sint ts < 0 then Inl Aborted
       else
         (let arr = arr[n - 1 - unat ts := stack_dist] in
          if n \<le> unat ts then Inr arr
          else future_stack_dist_loop G n splay_tree h (ts + 1) arr reqs)))"

definition get_future_stack_dist :: "'h ghash \<Rightarrow> request_t list \<Rightarrow> int list result" where
  "get_future_stack_dist G reqs =
    future_stack_dist_loop G (length reqs) NilT (g_hash_table_new_full G) 0
      (replicate (length reqs) 0) (rev reqs)"

fun last_dist_loop :: "'h ghash \<Rightarrow> 'h \<Rightarrow> u64 \<Rightarrow> request_t list \<Rightarrow> int list" where
  "last_dist_loop G h ts [] = []"
| "last_dist_loop G h ts (req # reqs) =
    (case get_last_dist_add_req G req h ts of (d, h) \<Rightarrow> d # last_dist_loop G h (ts + 1) reqs)"

definition get_last_access_dist :: "'h ghash \<Rightarrow> request_t list \<Rightarrow> int list" where
  "get_last_access_dist G reqs = last_dist_loop G (g_hash_table_new_full G) 0 reqs"

text \<open>\<^verbatim>\<open>get_next_access_dist\<close>: the same pass over the trace read backwards, the array filled
  from its end.\<close>

definition get_next_access_dist :: "'h ghash \<Rightarrow> request_t list \<Rightarrow> int list" where
  "get_next_access_dist G reqs =
    rev (last_dist_loop G (g_hash_table_new_full G) 0 (rev reqs))"

fun first_dist_loop :: "'h ghash \<Rightarrow> 'h \<Rightarrow> u64 \<Rightarrow> request_t list \<Rightarrow> int list" where
  "first_dist_loop G h ts [] = []"
| "first_dist_loop G h ts (req # reqs) =
    (case get_first_dist_add_req G req h ts of (d, h) \<Rightarrow> d # first_dist_loop G h (ts + 1) reqs)"

definition get_first_access_dist :: "'h ghash \<Rightarrow> request_t list \<Rightarrow> int list" where
  "get_first_access_dist G reqs = first_dist_loop G (g_hash_table_new_full G) 0 reqs"

fun reuse_time_loop :: "'h ghash \<Rightarrow> 'h \<Rightarrow> request_t list \<Rightarrow> int list" where
  "reuse_time_loop G h [] = []"
| "reuse_time_loop G h (req # reqs) =
    (let value = g_hash_table_lookup G h (obj_id_int req);
         rt = (if value \<noteq> 0 then sint (real_time req - value) else -1)
     in rt # reuse_time_loop G (g_hash_table_insert G h (obj_id_int req) (real_time req)) reqs)"

text \<open>The first request is read before the loop; a \<^verbatim>\<open>real_time\<close> of all ones means that the trace
  has no time column.\<close>

definition get_reuse_time :: "'h ghash \<Rightarrow> request_t list \<Rightarrow> int list result" where
  "get_reuse_time G reqs =
    (if reqs \<noteq> [] \<and> real_time (hd reqs) = -1 then Inl Aborted
     else Inr (reuse_time_loop G (g_hash_table_new_full G) reqs))"

section \<open>LRU hit and miss counts\<close>

text \<open>The array \<^verbatim>\<open>hit_count_array\<close> has \<open>sz + 1\<close> entries; the counters are naturals, which the
  \<^verbatim>\<open>guint64\<close> of the source are for every trace that fits in memory.\<close>

fun count_hits :: "int \<Rightarrow> nat list \<Rightarrow> int list \<Rightarrow> nat list" where
  "count_hits sz hit_count_array [] = hit_count_array"
| "count_hits sz hit_count_array (stack_dist # ds) =
    count_hits sz
      (if stack_dist = -1 then hit_count_array
       else if stack_dist + 1 \<le> sz then
         hit_count_array[nat (stack_dist + 1) := hit_count_array ! nat (stack_dist + 1) + 1]
       else hit_count_array) ds"

fun accumulate_hits :: "nat \<Rightarrow> nat list \<Rightarrow> nat list" where
  "accumulate_hits prev [] = []"
| "accumulate_hits prev (c # cs) = (c + prev) # accumulate_hits (c + prev) cs"

definition get_lru_hit_cnt :: "'h ghash \<Rightarrow> request_t list \<Rightarrow> int \<Rightarrow> nat list result" where
  "get_lru_hit_cnt G reqs sz =
    rbind (stack_dist_loop G NilT (g_hash_table_new_full G) 0 reqs) (\<lambda>ds.
    (case count_hits sz (replicate (nat (sz + 1)) 0) ds of
       [] \<Rightarrow> Inr []
     | c # cs \<Rightarrow> Inr (c # accumulate_hits c cs)))"

definition get_lru_miss_cnt :: "'h ghash \<Rightarrow> request_t list \<Rightarrow> int \<Rightarrow> nat list result" where
  "get_lru_miss_cnt G reqs sz =
    rbind (get_lru_hit_cnt G reqs sz) (\<lambda>cs. Inr (map (\<lambda>c. length reqs - c) cs))"

text \<open>The ratios are exact quotients here; the source rounds them to \<^verbatim>\<open>double\<close>.\<close>

definition get_lru_obj_miss_ratio :: "'h ghash \<Rightarrow> request_t list \<Rightarrow> int \<Rightarrow> rat list result" where
  "get_lru_obj_miss_ratio G reqs sz =
    rbind (get_lru_miss_cnt G reqs sz) (\<lambda>cs.
    if cs = [] then Inl Out_of_bounds
    else if hd cs \<noteq> length reqs then Inl Assert_failed
    else Inr (map (\<lambda>c. of_nat c / of_nat (length reqs)) cs))"


section \<open>Specification: distances read off the trace\<close>

text \<open>The index of the last occurrence of a value in a list.\<close>

fun last_idx :: "'a \<Rightarrow> 'a list \<Rightarrow> nat option" where
  "last_idx x [] = None"
| "last_idx x (y # ys) =
    (case last_idx x ys of Some j \<Rightarrow> Some (Suc j) | None \<Rightarrow> if x = y then Some 0 else None)"

text \<open>The stack distance of the \<open>n\<close>-th request: the number of distinct objects requested since the
  last request for the same object, or \<open>-1\<close> if there is none.\<close>

definition stack_distance :: "'a list \<Rightarrow> nat \<Rightarrow> int" where
  "stack_distance xs n =
    (case last_idx (xs ! n) (take n xs) of
       None \<Rightarrow> -1
     | Some j \<Rightarrow> int (length (remdups (drop (Suc j) (take n xs)))))"

text \<open>What the code reports instead: timestamp 0 is stored as the null pointer, so an object whose
  only earlier request is the first of the trace counts as new.\<close>

definition reported_stack_distance :: "'a list \<Rightarrow> nat \<Rightarrow> int" where
  "reported_stack_distance xs n =
    (if last_idx (xs ! n) (take n xs) = Some 0 then -1 else stack_distance xs n)"

lemma last_idx_None: "last_idx x xs = None \<longleftrightarrow> x \<notin> set xs"
  by (induction xs) (auto split: option.splits)

lemma last_idx_snoc [simp]: "last_idx x (xs @ [y]) = (if x = y then Some (length xs) else last_idx x xs)"
  by (induction xs) (auto split: option.splits)

lemma last_idx_SomeD:
  "last_idx x xs = Some j \<Longrightarrow> j < length xs \<and> xs ! j = x \<and> x \<notin> set (drop (Suc j) xs)"
  by (induction xs arbitrary: j) (auto split: option.splits if_splits simp: last_idx_None)

lemma last_idx_Some_set: "last_idx x xs = Some j \<Longrightarrow> x \<in> set xs"
  by (metis last_idx_None option.distinct(1))

lemma last_idx_inj: "last_idx x xs = Some j \<Longrightarrow> last_idx y xs = Some j \<Longrightarrow> x = y"
  using last_idx_SomeD by metis

lemma last_idx_in_drop:
  "y \<in> set (drop j xs) \<longleftrightarrow> (\<exists>m. last_idx y xs = Some m \<and> j \<le> m)"
proof (induction xs rule: rev_induct)
  case (snoc x xs)
  then show ?case by (cases "j \<le> length xs") (auto dest: last_idx_SomeD)
qed simp

lemma card_last_idx_above:
  "card {m. j \<le> m \<and> (\<exists>y. last_idx y xs = Some m)} = length (remdups (drop j xs))"
proof -
  have "{m. j \<le> m \<and> (\<exists>y. last_idx y xs = Some m)} = (\<lambda>y. the (last_idx y xs)) ` set (drop j xs)"
    by (auto simp: last_idx_in_drop image_iff Bex_def) (metis option.sel)+
  moreover have "inj_on (\<lambda>y. the (last_idx y xs)) (set (drop j xs))"
    by (auto simp: inj_on_def last_idx_in_drop) (metis last_idx_inj)
  ultimately show ?thesis by (simp add: card_image length_remdups_card_conv)
qed

section \<open>Correctness of the stack distance pass\<close>

text \<open>The keys of the splay tree after the requests for \<open>past\<close>: the time of the last request for
  each object, and 0 for the first request of the trace, which is never removed.\<close>

definition tree_keys :: "'a list \<Rightarrow> nat set" where
  "tree_keys past = {m. \<exists>y. last_idx y past = Some m} \<union> (if past = [] then {} else {0})"

definition stack_inv :: "'h ghash \<Rightarrow> obj_id_t list \<Rightarrow> sTree \<Rightarrow> 'h \<Rightarrow> bool" where
  "stack_inv G past t h \<longleftrightarrow> bst t \<and> check_sTree t \<and> set (inorder t) = int ` tree_keys past \<and>
    (\<forall>k. g_hash_table_lookup G h k =
       (case last_idx k past of None \<Rightarrow> 0 | Some j \<Rightarrow> of_nat j))"

lemma sint_of_nat [simp]: "n < 2 ^ 63 \<Longrightarrow> sint (of_nat n :: u64) = int n"
  by (simp add: signed_of_nat signed_take_bit_int_eq_self)


lemma tree_keys_bound: "m \<in> tree_keys past \<Longrightarrow> m < length past"
  by (auto simp: tree_keys_def dest: last_idx_SomeD split: if_splits)

lemma tree_keys_snoc:
  "tree_keys (past @ [x]) = insert (length past)
     (tree_keys past - (case last_idx x past of Some (Suc j) \<Rightarrow> {Suc j} | _ \<Rightarrow> {}))"
proof -
  have new: "(\<exists>y. last_idx y (past @ [x]) = Some m) \<longleftrightarrow>
      m = length past \<or> (\<exists>y. last_idx y past = Some m) \<and> last_idx x past \<noteq> Some m" for m
    using last_idx_inj [of x past m] by (metis last_idx_snoc option.inject)
  show ?thesis
    unfolding tree_keys_def new
    by (auto split: option.splits nat.splits dest: last_idx_Some_set)
qed

lemma of_nat_u64_eq_0: "n < 2 ^ 63 \<Longrightarrow> (of_nat n :: u64) = 0 \<longleftrightarrow> n = 0"
proof
  assume n: "n < 2 ^ 63" and z: "(of_nat n :: u64) = 0"
  have "int n = sint (of_nat n :: u64)" using sint_of_nat [OF n] by simp
  with z show "n = 0" by simp
qed simp

text \<open>After splaying a key to the root, the size field of the right child counts the larger keys.\<close>

lemma splay_right_count:
  assumes "bst t" "check_sTree t" "set (inorder t) = int ` K" "j \<in> K"
  shows "node_value (right_of (splay (int j) t)) = int (card {m \<in> K. j < m})"
proof -
  have "t \<noteq> NilT" using assms by auto
  then obtain a k v b where s: "splay (int j) t = SNode a k v b"
    by (cases "splay (int j) t") auto
  have k: "k = int j" using splay_root [OF assms(1), of "int j"] assms(3,4) by (simp add: s)
  note i = splay_node_inorder [OF s]
  have "set (inorder b) = int ` {m \<in> K. j < m}"
  proof -
    have "set (inorder b) = {y \<in> int ` K. int j < y}"
      using splay_splits [OF assms(1) s] assms(3) [symmetric] by (auto simp: i k)
    also have "\<dots> = int ` {m \<in> K. j < m}" by auto
    finally show ?thesis .
  qed
  moreover have "distinct (inorder b)"
    using assms(1) by (auto simp: bst_def i strict_sorted_iff sorted_wrt_append)
  ultimately have "length (inorder b) = card (int ` {m \<in> K. j < m})"
    by (metis distinct_card)
  also have "\<dots> = card {m \<in> K. j < m}" by (simp add: card_image)
  finally have "length (inorder b) = card {m \<in> K. j < m}" .
  then show ?thesis
    using check_splay [OF assms(2), of "int j"] check_node_value [of b] by (simp add: s)
qed

lemma tree_keys_above: "j = Suc i \<Longrightarrow> {m \<in> tree_keys past. j < m} = {m. Suc j \<le> m \<and> (\<exists>y. last_idx y past = Some m)}"
  by (auto simp: tree_keys_def split: if_splits)

text \<open>One request: the distance reported, and the invariant for the longer past.\<close>

lemma get_stack_dist_add_req_correct:
  assumes G: "ghash_ok G" and inv: "stack_inv G past t h" and len: "length past < 2 ^ 63"
    and x: "x = obj_id_int req"
  shows "\<exists>t' h'. get_stack_dist_add_req G req t h (of_nat (length past)) =
      Inr (t', h', reported_stack_distance (past @ [x]) (length past)) \<and>
    stack_inv G (past @ [x]) t' h'"
proof -
  let ?ts = "of_nat (length past) :: u64"
  let ?h = "g_hash_table_insert G h x ?ts"
  have t: "bst t" "check_sTree t" and keys: "set (inorder t) = int ` tree_keys past" and
    lk: "g_hash_table_lookup G h k = (case last_idx k past of None \<Rightarrow> 0 | Some j \<Rightarrow> of_nat j)" for k
    using inv by (auto simp: stack_inv_def)
  have lk': "g_hash_table_lookup G ?h k =
      (case last_idx k (past @ [x]) of None \<Rightarrow> 0 | Some j \<Rightarrow> of_nat j)" for k
    using G lk by (simp add: ghash_ok_def)
  have ins: "\<exists>t'. splay_insert (sint ?ts) u = Inr t' \<and> stack_inv G (past @ [x]) t' ?h"
    if u: "bst u" "check_sTree u" "set (inorder u) \<subseteq> int ` tree_keys past"
      "insert (int (length past)) (set (inorder u)) = int ` tree_keys (past @ [x])" for u
  proof -
    obtain t' where t': "splay_insert (sint ?ts) u = Inr t'" "check_sTree t'" "bst t'"
      "inorder t' = filter (\<lambda>y. y < sint ?ts) (inorder u) @ sint ?ts # filter (\<lambda>y. sint ?ts < y) (inorder u)"
      using splay_insert_correct [OF u(1,2)] by blast
    have "\<forall>y \<in> set (inorder u). y < int (length past)"
      using u(3) tree_keys_bound [of _ past] by fastforce
    then have "set (inorder t') = insert (int (length past)) (set (inorder u))"
      using len by (auto simp: t'(4))
    then show ?thesis using t' lk' u(4) by (auto simp: stack_inv_def)
  qed
  show ?thesis
  proof (cases "last_idx x past")
    case None
    then have "\<exists>t'. splay_insert (sint ?ts) t = Inr t' \<and> stack_inv G (past @ [x]) t' ?h"
      using t keys by (intro ins) (simp_all add: tree_keys_snoc None)
    then show ?thesis using None lk [of x]
      by (auto simp: get_stack_dist_add_req_def Let_def x reported_stack_distance_def stack_distance_def)
  next
    case (Some j)
    note j = last_idx_SomeD [OF Some]
    show ?thesis
    proof (cases j)
      case 0
      then have "\<exists>t'. splay_insert (sint ?ts) t = Inr t' \<and> stack_inv G (past @ [x]) t' ?h"
        using t keys Some by (intro ins) (auto simp: tree_keys_snoc)
      then show ?thesis using Some 0 lk [of x]
        by (auto simp: get_stack_dist_add_req_def Let_def x reported_stack_distance_def)
    next
      case (Suc i)
      have gp: "g_hash_table_lookup G h x = of_nat j" "of_nat j \<noteq> (0 :: u64)"
        "sint (of_nat j :: u64) = int j"
        using lk [of x] Some Suc j len of_nat_u64_eq_0 [of j] sint_of_nat [of j]
        by (simp_all only: option.case) auto
      have jk: "j \<in> tree_keys past" using Some by (auto simp: tree_keys_def)
      let ?s = "splay (int j) t"
      have s: "?s \<noteq> NilT" "bst ?s" "check_sTree ?s" using jk keys t by (auto simp: check_splay)
      have dist: "node_value (right_of ?s) = stack_distance (past @ [x]) (length past)"
        using splay_right_count [OF t keys jk] card_last_idx_above [of "Suc j" past]
        by (simp add: stack_distance_def Some tree_keys_above [OF Suc])
      have d: "check_sTree (splay_delete (int j) ?s)" "bst (splay_delete (int j) ?s)"
        "set (inorder (splay_delete (int j) ?s)) = int ` (tree_keys past - {j})"
        using splay_delete_correct [OF s(2,3), of "int j"] keys by auto
      have "\<exists>t'. splay_insert (sint ?ts) (splay_delete (int j) ?s) = Inr t' \<and>
          stack_inv G (past @ [x]) t' ?h"
        using d Some Suc by (intro ins) (auto simp: tree_keys_snoc)
      then show ?thesis using Some Suc gp s dist
        by (auto simp: get_stack_dist_add_req_def Let_def x reported_stack_distance_def)
    qed
  qed
qed


lemma reported_stack_distance_append [simp]:
  "n < length xs \<Longrightarrow> reported_stack_distance (xs @ ys) n = reported_stack_distance xs n"
  by (auto simp: reported_stack_distance_def stack_distance_def nth_append split: option.splits)

lemma stack_dist_loop_correct:
  assumes "ghash_ok G" "stack_inv G past t h" "length past + length reqs \<le> 2 ^ 63"
  shows "stack_dist_loop G t h (of_nat (length past)) reqs =
    Inr (map (reported_stack_distance (past @ map obj_id_int reqs))
      [length past ..< length past + length reqs])"
  using assms(2,3)
proof (induction reqs arbitrary: past t h)
  case (Cons req reqs)
  let ?x = "obj_id_int req"
  obtain t' h' where step: "get_stack_dist_add_req G req t h (of_nat (length past)) =
      Inr (t', h', reported_stack_distance (past @ [?x]) (length past))"
    and inv: "stack_inv G (past @ [?x]) t' h'"
    using get_stack_dist_add_req_correct [OF assms(1) Cons.prems(1) _ refl, of req] Cons.prems(2)
    by auto
  have "stack_dist_loop G t' h' (of_nat (length (past @ [?x]))) reqs =
    Inr (map (reported_stack_distance ((past @ [?x]) @ map obj_id_int reqs))
      [length (past @ [?x]) ..< length (past @ [?x]) + length reqs])"
    using Cons.prems(2) by (intro Cons.IH [OF inv]) simp
  then show ?case
    using reported_stack_distance_append [of "length past" "past @ [?x]" "map obj_id_int reqs"]
    by (simp add: step upt_first u64_Suc del: upt_Suc of_nat_Suc)
qed simp

lemma stack_inv_init: "ghash_ok G \<Longrightarrow> stack_inv G [] NilT (g_hash_table_new_full G)"
  by (simp add: stack_inv_def ghash_ok_def bst_def tree_keys_def)

text \<open>
  (C17) \<^verbatim>\<open>get_stack_dist\<close> on a trace of at most \<open>2 ^ 63\<close> requests runs without a failed assertion and
  stores for every request the number of distinct objects requested since the last request for its
  object, and -1 for a first request. The one exception is the object of the first request: its
  timestamp 0 is read back as the null pointer, so its second request also gets -1.
\<close>

theorem get_stack_dist_correct:
  assumes "ghash_ok G" "length reqs \<le> 2 ^ 63"
  shows "get_stack_dist G reqs =
    Inr (map (reported_stack_distance (map obj_id_int reqs)) [0 ..< length reqs])"
  using stack_dist_loop_correct [OF assms(1) stack_inv_init [OF assms(1)]] assms(2)
  by (simp add: get_stack_dist_def)

theorem get_stack_dist_correct_witness:
  "get_stack_dist fun_ghash (map req_for [5, 6, 7, 6, 5, 7]) = Inr [-1, -1, -1, 1, -1, 2]"
  using get_stack_dist_correct [OF fun_ghash_ok, of "map req_for [5, 6, 7, 6, 5, 7]"]
  by (simp add: reported_stack_distance_def stack_distance_def upt_rec nth_Cons' comp_def)

section \<open>The backward pass\<close>

lemma future_stack_dist_loop_correct:
  assumes "ghash_ok G" "stack_inv G past t h" "length past + length reqs = n" "n < 2 ^ 63"
    "length arr = n"
  shows "future_stack_dist_loop G n t h (of_nat (length past)) arr reqs =
    Inr (rev (map (reported_stack_distance (past @ map obj_id_int reqs)) [length past ..< n]) @
      drop (n - length past) arr)"
  using assms(2,3,5)
proof (induction reqs arbitrary: past t h arr)
  case (Cons req reqs)
  let ?x = "obj_id_int req" and ?d = "reported_stack_distance (past @ [obj_id_int req]) (length past)"
  let ?i = "n - 1 - length past"
  obtain t' h' where step: "get_stack_dist_add_req G req t h (of_nat (length past)) = Inr (t', h', ?d)"
    and inv: "stack_inv G (past @ [?x]) t' h'"
    using get_stack_dist_add_req_correct [OF assms(1) Cons.prems(1) _ refl, of req] Cons.prems(2) assms(4)
    by auto
  have u: "unat (of_nat (length past) :: u64) = length past"
    using Cons.prems(2) assms(4) by simp
  have rest: "future_stack_dist_loop G n t' h' (of_nat (length (past @ [?x]))) (arr[?i := ?d]) reqs =
    Inr (rev (map (reported_stack_distance ((past @ [?x]) @ map obj_id_int reqs))
        [length (past @ [?x]) ..< n]) @ drop (n - length (past @ [?x])) (arr[?i := ?d]))"
    using Cons.prems by (intro Cons.IH [OF inv]) auto
  have "drop ?i (arr[?i := ?d]) = ?d # drop (n - length past) arr"
    using Cons.prems by (subst Cons_nth_drop_Suc [symmetric]) (auto simp: Suc_diff_Suc)
  then show ?case
    using rest Cons.prems assms(4) u
      reported_stack_distance_append [of "length past" "past @ [?x]" "map obj_id_int reqs"]
    by (simp add: step upt_conv_Cons u64_Suc Let_def del: upt_Suc of_nat_Suc)
qed simp



section \<open>Access distances\<close>

definition reported_last_distance :: "'a list \<Rightarrow> nat \<Rightarrow> int" where
  "reported_last_distance xs n =
    (case last_idx (xs ! n) (take n xs) of
       Some (Suc j) \<Rightarrow> int n - int (Suc j) - 1 | _ \<Rightarrow> -1)"

lemma last_dist_loop_correct:
  assumes "ghash_ok G" "length past + length reqs \<le> 2 ^ 63"
    "\<forall>k. g_hash_table_lookup G h k = (case last_idx k past of None \<Rightarrow> 0 | Some j \<Rightarrow> of_nat j)"
  shows "last_dist_loop G h (of_nat (length past)) reqs =
    map (reported_last_distance (past @ map obj_id_int reqs))
      [length past ..< length past + length reqs]"
  using assms(2,3)
proof (induction reqs arbitrary: past h)
  case (Cons req reqs)
  let ?x = "obj_id_int req" and ?ts = "of_nat (length past) :: u64"
  have "\<forall>k. g_hash_table_lookup G (g_hash_table_insert G h ?x ?ts) k =
      (case last_idx k (past @ [?x]) of None \<Rightarrow> 0 | Some j \<Rightarrow> of_nat j)"
    using assms(1) Cons.prems(2) by (simp add: ghash_ok_def)
  then have IH: "last_dist_loop G (g_hash_table_insert G h ?x ?ts) (of_nat (length (past @ [?x]))) reqs =
    map (reported_last_distance ((past @ [?x]) @ map obj_id_int reqs))
      [length (past @ [?x]) ..< length (past @ [?x]) + length reqs]"
    using Cons.prems(1) by (intro Cons.IH) auto
  have gp: "(of_nat j :: u64) = 0 \<longleftrightarrow> j = 0" "sint (of_nat j :: u64) = int j"
    if "last_idx ?x past = Some j" for j
    using last_idx_SomeD [OF that] Cons.prems(1) by (auto simp: of_nat_u64_eq_0)
  have "(if g_hash_table_lookup G h ?x = 0 then - 1 else sint ?ts - sint (g_hash_table_lookup G h ?x) - 1)
      = reported_last_distance (past @ map obj_id_int (req # reqs)) (length past)"
    using Cons.prems gp
    by (auto simp: reported_last_distance_def split: option.splits nat.splits simp del: of_nat_Suc)
  then show ?case
    using IH by (simp add: get_last_dist_add_req_def Let_def upt_first u64_Suc
      del: upt_Suc of_nat_Suc)
qed simp

text \<open>
  \<^verbatim>\<open>get_last_access_dist\<close>: the number of requests between a request and the last one for
  the same object, -1 if there is none or it is the first request of the trace.
\<close>

theorem get_last_access_dist_correct:
  assumes "ghash_ok G" "length reqs \<le> 2 ^ 63"
  shows "get_last_access_dist G reqs =
    map (reported_last_distance (map obj_id_int reqs)) [0 ..< length reqs]"
  using last_dist_loop_correct [OF assms(1), of "[]" reqs "g_hash_table_new_full G"] assms
  by (simp add: get_last_access_dist_def ghash_ok_def)

theorem get_last_access_dist_correct_witness:
  "get_last_access_dist fun_ghash (map req_for [5, 6, 7, 6, 5, 7]) = [-1, -1, -1, 1, -1, 2]"
  using get_last_access_dist_correct [OF fun_ghash_ok, of "map req_for [5, 6, 7, 6, 5, 7]"]
  by (simp add: reported_last_distance_def upt_rec nth_Cons' comp_def)

text \<open>The first request for an object stays in the table, unless it is the first of the trace.\<close>

fun first_idx :: "'a \<Rightarrow> 'a list \<Rightarrow> nat option" where
  "first_idx x [] = None"
| "first_idx x (y # ys) = (if x = y then Some 0 else map_option Suc (first_idx x ys))"

text \<open>Timestamp 0 reads as absent, so the entry of the first object of the trace is overwritten by
  its second request.\<close>

definition first_seen :: "'a \<Rightarrow> 'a list \<Rightarrow> nat option" where
  "first_seen x xs =
    (case xs of [] \<Rightarrow> None | y # ys \<Rightarrow> map_option Suc (first_idx x ys))"

definition reported_first_distance :: "'a list \<Rightarrow> nat \<Rightarrow> int" where
  "reported_first_distance xs n =
    (case first_seen (xs ! n) (take n xs) of Some j \<Rightarrow> int n - int j - 1 | None \<Rightarrow> -1)"

lemma first_idx_snoc: "first_idx x (xs @ [y]) =
    (case first_idx x xs of Some j \<Rightarrow> Some j | None \<Rightarrow> if x = y then Some (length xs) else None)"
  by (induction xs) (auto split: option.splits)

lemma first_idx_less: "first_idx x xs = Some j \<Longrightarrow> j < length xs \<and> xs ! j = x"
  by (induction xs arbitrary: j) (auto split: if_splits)

lemma first_seen_snoc: "first_seen x (xs @ [y]) =
    (if xs = [] then None
     else case first_seen x xs of Some j \<Rightarrow> Some j | None \<Rightarrow> if x = y then Some (length xs) else None)"
  by (cases xs) (auto simp: first_seen_def first_idx_snoc split: option.splits)

lemma first_seen_Nil [simp]: "first_seen x [] = None"
  by (simp add: first_seen_def)

lemma first_seen_less: "first_seen x xs = Some j \<Longrightarrow> 0 < j \<and> j < length xs \<and> xs ! j = x"
  by (cases xs) (auto simp: first_seen_def dest: first_idx_less)

lemma first_dist_loop_correct:
  assumes "ghash_ok G" "length past + length reqs \<le> 2 ^ 63"
    "\<forall>k. g_hash_table_lookup G h k = (case first_seen k past of None \<Rightarrow> 0 | Some j \<Rightarrow> of_nat j)"
  shows "first_dist_loop G h (of_nat (length past)) reqs =
    map (reported_first_distance (past @ map obj_id_int reqs))
      [length past ..< length past + length reqs]"
  using assms(2,3)
proof (induction reqs arbitrary: past h)
  case (Cons req reqs)
  let ?x = "obj_id_int req" and ?ts = "of_nat (length past) :: u64"
  let ?d = "reported_first_distance (past @ map obj_id_int (req # reqs)) (length past)"
  let ?h = "snd (get_first_dist_add_req G req h ?ts)"
  have gp: "(of_nat j :: u64) \<noteq> 0" "sint (of_nat j :: u64) = int j" if "first_seen k past = Some j" for j k
    using first_seen_less [OF that] Cons.prems(1) of_nat_u64_eq_0 [of j] by simp_all
  have "\<forall>k. g_hash_table_lookup G ?h k =
      (case first_seen k (past @ [?x]) of None \<Rightarrow> 0 | Some j \<Rightarrow> of_nat j)"
    using assms(1) Cons.prems(2) gp
    by (auto simp: ghash_ok_def get_first_dist_add_req_def first_seen_snoc Let_def split: option.splits)
  then have IH: "first_dist_loop G ?h (of_nat (length (past @ [?x]))) reqs =
    map (reported_first_distance ((past @ [?x]) @ map obj_id_int reqs))
      [length (past @ [?x]) ..< length (past @ [?x]) + length reqs]"
    using Cons.prems(1) by (intro Cons.IH) auto
  have "fst (get_first_dist_add_req G req h ?ts) = ?d"
    using Cons.prems gp
    by (auto simp: get_first_dist_add_req_def reported_first_distance_def Let_def split: option.splits)
  then show ?case
    using IH by (simp add: upt_first u64_Suc split_beta del: upt_Suc of_nat_Suc)
qed simp

text \<open>
  \<^verbatim>\<open>get_first_access_dist\<close>: the number of requests since the first request for the same
  object, -1 for a first request. For the object of the first request of the trace the count
  starts at its second request.
\<close>

theorem get_first_access_dist_correct:
  assumes "ghash_ok G" "length reqs \<le> 2 ^ 63"
  shows "get_first_access_dist G reqs =
    map (reported_first_distance (map obj_id_int reqs)) [0 ..< length reqs]"
  using first_dist_loop_correct [OF assms(1), of "[]" reqs "g_hash_table_new_full G"] assms
  by (simp add: get_first_access_dist_def ghash_ok_def first_seen_def)

theorem get_first_access_dist_correct_witness:
  "get_first_access_dist fun_ghash (map req_for [5, 6, 6, 5, 6, 5]) = [-1, -1, 0, -1, 2, 1]"
  using get_first_access_dist_correct [OF fun_ghash_ok, of "map req_for [5, 6, 6, 5, 6, 5]"]
  by (simp add: reported_first_distance_def first_seen_def upt_rec nth_Cons' comp_def)

text \<open>
  \<^verbatim>\<open>get_next_access_dist\<close>: entry \<open>n\<close> is the number of requests until the next one for the same
  object, -1 if there is none or it is the last request of the trace.
\<close>

theorem get_next_access_dist_correct:
  assumes "ghash_ok G" "length reqs \<le> 2 ^ 63"
  shows "get_next_access_dist G reqs =
    rev (map (reported_last_distance (rev (map obj_id_int reqs))) [0 ..< length reqs])"
  using last_dist_loop_correct [OF assms(1), of "[]" "rev reqs" "g_hash_table_new_full G"] assms
  by (simp add: get_next_access_dist_def ghash_ok_def rev_map)

theorem get_next_access_dist_correct_witness:
  "get_next_access_dist fun_ghash (map req_for [7, 5, 6, 7, 6, 5]) = [2, -1, 1, -1, -1, -1]"
  using get_next_access_dist_correct [OF fun_ghash_ok, of "map req_for [7, 5, 6, 7, 6, 5]"]
  by (simp add: reported_last_distance_def upt_rec nth_Cons' comp_def)

text \<open>Reuse times. A request at time 0 is stored as the null pointer.\<close>

definition reuse_time_at :: "request_t list \<Rightarrow> nat \<Rightarrow> int" where
  "reuse_time_at reqs n =
    (case last_idx (obj_id_int (reqs ! n)) (map obj_id_int (take n reqs)) of
       Some j \<Rightarrow> if real_time (reqs ! j) = 0 then -1 else sint (real_time (reqs ! n) - real_time (reqs ! j))
     | None \<Rightarrow> -1)"

lemma reuse_time_loop_correct:
  assumes "ghash_ok G"
    "\<forall>k. g_hash_table_lookup G h k =
      (case last_idx k (map obj_id_int past) of None \<Rightarrow> 0 | Some j \<Rightarrow> real_time (past ! j))"
  shows "reuse_time_loop G h reqs = map (reuse_time_at (past @ reqs)) [length past ..< length past + length reqs]"
  using assms(2)
proof (induction reqs arbitrary: past h)
  case (Cons req reqs)
  let ?h = "g_hash_table_insert G h (obj_id_int req) (real_time req)"
  have "g_hash_table_lookup G ?h k = (case last_idx k (map obj_id_int (past @ [req])) of
      None \<Rightarrow> 0 | Some j \<Rightarrow> real_time ((past @ [req]) ! j))" for k
    using assms(1) Cons.prems
    by (auto simp: ghash_ok_def nth_append dest: last_idx_SomeD split: option.splits)
  then have IH: "reuse_time_loop G ?h reqs = map (reuse_time_at ((past @ [req]) @ reqs))
      [length (past @ [req]) ..< length (past @ [req]) + length reqs]"
    by (intro Cons.IH) simp
  have "(if g_hash_table_lookup G h (obj_id_int req) \<noteq> 0
      then sint (real_time req - g_hash_table_lookup G h (obj_id_int req)) else -1) =
      reuse_time_at (past @ req # reqs) (length past)"
    using Cons.prems
    by (auto simp: reuse_time_at_def nth_append dest: last_idx_SomeD split: option.splits)
  then show ?case using IH by (simp add: Let_def upt_first del: upt_Suc)
qed simp

text \<open>
  \<^verbatim>\<open>get_reuse_time\<close> aborts exactly when the first request has no time; otherwise every entry is
  the time since the last request for the same object, -1 if there is none or it happened at time 0.
\<close>

theorem get_reuse_time_correct:
  assumes "ghash_ok G"
  shows "get_reuse_time G reqs =
    (if reqs \<noteq> [] \<and> real_time (hd reqs) = -1 then Inl Aborted
     else Inr (map (reuse_time_at reqs) [0 ..< length reqs]))"
  using reuse_time_loop_correct [OF assms, of "g_hash_table_new_full G" "[]" reqs] assms
  by (simp add: get_reuse_time_def ghash_ok_def)

theorem get_reuse_time_correct_witness:
  "get_reuse_time fun_ghash [(req_for 5)\<lparr>real_time := 10\<rparr>, (req_for 6)\<lparr>real_time := 12\<rparr>, (req_for 5)\<lparr>real_time := 15\<rparr>] =
    Inr [-1, -1, 5]"
  using get_reuse_time_correct [OF fun_ghash_ok, of "[(req_for 5)\<lparr>real_time := 10\<rparr>, (req_for 6)\<lparr>real_time := 12\<rparr>,
    (req_for 5)\<lparr>real_time := 15\<rparr>]"]
  by (simp add: reuse_time_at_def upt_rec nth_Cons')

section \<open>Hit and miss counts\<close>

lemma length_count_hits [simp]: "length (count_hits sz arr ds) = length arr"
  by (induction sz arr ds rule: count_hits.induct) auto

lemma count_hits_nth:
  assumes "\<forall>d \<in> set ds. -1 \<le> d" "c < length arr" "length arr = nat (sz + 1)"
  shows "count_hits sz arr ds ! c = arr ! c + length (filter (\<lambda>d. 0 \<le> d \<and> d + 1 = int c) ds)"
  using assms
proof (induction sz arr ds rule: count_hits.induct)
  case (2 sz arr d ds)
  then show ?case by (auto simp: nth_list_update)
qed simp

lemma accumulate_hits_nth:
  "i < length cs \<Longrightarrow> accumulate_hits p cs ! i = p + sum_list (take (Suc i) cs)"
  by (induction p cs arbitrary: i rule: accumulate_hits.induct) (auto simp: nth_Cons' take_Cons')

lemma length_accumulate_hits [simp]: "length (accumulate_hits p cs) = length cs"
  by (induction p cs rule: accumulate_hits.induct) auto

lemma sum_hit_counts:
  "(\<Sum>i \<leftarrow> [0 ..< Suc c]. length (filter (\<lambda>d. 0 \<le> d \<and> d + 1 = int i) ds)) =
    length (filter (\<lambda>d :: int. 0 \<le> d \<and> d < int c) ds)"
proof (induction c)
  case (Suc c)
  have "length (filter (\<lambda>d. 0 \<le> d \<and> d < int (Suc c)) ds) =
    length (filter (\<lambda>d. 0 \<le> d \<and> d < int c) ds) + length (filter (\<lambda>d. 0 \<le> d \<and> d + 1 = int (Suc c)) ds)"
    by (induction ds) auto
  with Suc show ?case by simp
qed (induction ds; auto)

lemma reported_stack_distance_ge: "-1 \<le> reported_stack_distance xs n"
  by (simp add: reported_stack_distance_def stack_distance_def split: option.splits)

text \<open>Entry \<open>c\<close> of the hit counts: the requests with a reported stack distance below \<open>c\<close>.\<close>

definition reported_hits :: "'a list \<Rightarrow> nat \<Rightarrow> nat" where
  "reported_hits xs c =
    length (filter (\<lambda>n. 0 \<le> reported_stack_distance xs n \<and> reported_stack_distance xs n < int c)
      [0 ..< length xs])"

text \<open>Entry \<open>c\<close> counts the requests with a distance below \<open>c\<close>.\<close>

lemma get_lru_hit_cnt_correct:
  assumes "ghash_ok G" "length reqs \<le> 2 ^ 63" "0 \<le> sz"
  shows "get_lru_hit_cnt G reqs sz =
    Inr (map (reported_hits (map obj_id_int reqs)) [0 ..< nat (sz + 1)])"
proof -
  let ?xs = "map obj_id_int reqs" and ?n = "nat (sz + 1)"
  let ?ds = "map (reported_stack_distance ?xs) [0 ..< length reqs]"
  let ?cs = "count_hits sz (replicate ?n 0) ?ds"
  obtain c cs where cs: "?cs = c # cs"
    using assms(3) length_count_hits [of sz "replicate ?n 0" ?ds] by (cases ?cs) auto
  have nth: "?cs ! i = length (filter (\<lambda>d. 0 \<le> d \<and> d + 1 = int i) ?ds)" if "i < ?n" for i
    using count_hits_nth [of ?ds i "replicate ?n 0" sz] that by (simp add: reported_stack_distance_ge)
  have len: "Suc (length cs) = ?n"
    using length_count_hits [of sz "replicate ?n 0" ?ds] by (simp add: cs)
  have "(c # accumulate_hits c cs) ! i = reported_hits ?xs i" if i: "i < ?n" for i
  proof -
    have "(c # accumulate_hits c cs) ! i = sum_list (take (Suc i) ?cs)"
      using i len by (cases i) (auto simp: cs accumulate_hits_nth)
    also have "take (Suc i) ?cs = map ((!) ?cs) [0 ..< Suc i]"
      using i by (intro nth_equalityI) (auto simp del: upt_Suc)
    also have "\<dots> = map (\<lambda>i. length (filter (\<lambda>d. 0 \<le> d \<and> d + 1 = int i) ?ds)) [0 ..< Suc i]"
      using nth i by (intro map_cong) auto
    finally show ?thesis
      unfolding sum_hit_counts by (simp add: reported_hits_def filter_map comp_def)
  qed
  then have "c # accumulate_hits c cs = map (reported_hits ?xs) [0 ..< ?n]"
    using len by (intro nth_equalityI) (auto simp del: upt_Suc)
  then show ?thesis
    using stack_dist_loop_correct [OF assms(1) stack_inv_init [OF assms(1)]] assms(2)
    by (simp add: get_lru_hit_cnt_def cs)
qed

lemma reported_hits_le: "reported_hits xs c \<le> length xs"
  using length_filter_le by (metis diff_zero length_upt reported_hits_def)

lemma reported_hits_0 [simp]: "reported_hits xs 0 = 0"
  by (simp add: reported_hits_def filter_empty_conv)

text \<open>The hit counts are monotone in the cache size, so the miss ratio curve never rises, and the
  assertion of \<^verbatim>\<open>get_lru_obj_miss_ratio\<close> that a cache of size 0 misses everything holds.\<close>

lemma reported_hits_mono: "c \<le> d \<Longrightarrow> reported_hits xs c \<le> reported_hits xs d"
  unfolding reported_hits_def
  by (intro length_filter_imp) auto



end
