(* ===== verification/Mattson.thy ===== *)
theory Mattson
  imports CacheTraces StackDist
begin

text \<open>
  The simulator and the profiler are two ways to the same numbers: running a trace of unit-sized
  requests through the LRU cache, and counting the stack distances below the cache size. This
  theory relates them, from the code of the one to the code of the other.
\<close>

section \<open>LRU contents by recency\<close>

definition lastn :: "nat \<Rightarrow> 'a list \<Rightarrow> 'a list" where
  "lastn n xs = drop (length xs - n) xs"

abbreviation units :: "obj_id_t list \<Rightarrow> contents" where
  "units \<equiv> map (\<lambda>k. (k, 1))"

lemma total_size_units [simp]: "total_size (units ks) = length ks"
  by (induction ks) auto

lemma evict_oldest_units: "evict_oldest n (units ks) = units (lastn n ks)"
  by (induction ks) (auto simp: lastn_def Suc_diff_le)

lemma lastn_lastn_snoc: "0 < n \<Longrightarrow> lastn n (lastn n xs @ [x]) = lastn n (xs @ [x])"
  by (cases "length xs \<le> n") (auto simp: lastn_def Suc_diff_le not_le)

lemma lastn_append: "n \<le> length ys \<Longrightarrow> lastn n (xs @ ys) = lastn n ys"
  by (auto simp: lastn_def)

lemma remdups_split: "remdups (xs @ ys) = remdups (filter (\<lambda>x. x \<notin> set ys) xs) @ remdups ys"
  by (induction xs) auto

lemma remdups_snoc: "remdups (xs @ [x]) = filter (\<lambda>y. y \<noteq> x) (remdups xs) @ [x]"
  by (induction xs) auto

text \<open>What the newest \<open>n\<close> of a list become when one of its elements moves to the end.\<close>

lemma lastn_move:
  assumes "0 < n" "distinct xs"
  shows "lastn n (filter (\<lambda>y. y \<noteq> x) xs @ [x]) =
    (if x \<in> set (lastn n xs) then filter (\<lambda>y. y \<noteq> x) (lastn n xs) @ [x] else lastn n (xs @ [x]))"
proof (cases "x \<in> set xs")
  case True
  then obtain A B where xs: "xs = A @ x # B" "x \<notin> set A" "x \<notin> set B"
    using assms(2) by (metis split_list distinct_append distinct.simps(2) not_distinct_conv_prefix split_list_first)
  have f: "filter (\<lambda>y. y \<noteq> x) A = A" "filter (\<lambda>y. y \<noteq> x) B = B" using xs by (auto simp: filter_id_conv)
  show ?thesis
  proof (cases "length B < n")
    case True
    have "filter (\<lambda>y. y \<noteq> x) (drop m A) = drop m A" for m
      using xs(2) by (auto simp: filter_id_conv dest: in_set_dropD)
    then show ?thesis using True xs f by (auto simp: lastn_def)
  next
    case False
    then have n: "n \<le> length B" by simp
    then have "lastn n xs = lastn n B" "x \<notin> set (lastn n B)"
      using lastn_append [OF n, of "A @ [x]"] xs(3) by (auto simp: xs(1) lastn_def dest: in_set_dropD)
    then show ?thesis
      using lastn_append [of n "B @ [x]" A] lastn_append [of n "B @ [x]" "A @ [x]"] n by (simp add: xs(1) f)
  qed
next
  case False
  then have "filter (\<lambda>y. y \<noteq> x) xs = xs" "x \<notin> set (lastn n xs)"
    by (auto simp: filter_id_conv lastn_def dest: in_set_dropD)
  then show ?thesis by simp
qed

lemma filter_units: "filter (\<lambda>y. fst y \<noteq> x) (units ks) = units (filter (\<lambda>y. y \<noteq> x) ks)"
  by (induction ks) auto

lemma spec_get_units:
  assumes "0 < n"
  shows "spec_get make_newest evict_oldest n (x, 1) (units (lastn n (remdups past))) =
    (if x \<in> set (lastn n (remdups past)) then cache_ck_hit else cache_ck_miss,
     units (lastn n (remdups (past @ [x]))))"
proof -
  let ?R = "remdups past"
  have c: "cached x (units (lastn n ?R)) \<longleftrightarrow> x \<in> set (lastn n ?R)" by (simp add: cached_def image_image)
  have m: "lastn n (filter (\<lambda>y. y \<noteq> x) (lastn n ?R) @ [x]) = filter (\<lambda>y. y \<noteq> x) (lastn n ?R) @ [x]"
    if "x \<in> set (lastn n ?R)"
  proof -
    have "length (filter (\<lambda>y. y \<noteq> x) (lastn n ?R)) < length (lastn n ?R)" using that by (intro length_filter_less) auto
    then show ?thesis by (simp add: lastn_def)
  qed
  have u: "units ks @ [(x, 1)] = units (ks @ [x])" for ks by simp
  show ?thesis
    using lastn_move [OF assms, of ?R x] m assms lastn_lastn_snoc [OF assms, of ?R x]
    by (simp add: spec_get_def c Let_def make_newest_def filter_units u remdups_snoc evict_oldest_units
      del: map_append)
qed

text \<open>Whether the newest \<open>n\<close> distinct objects include \<open>x\<close> is a matter of its stack distance.\<close>

lemma in_lastn_remdups:
  "x \<in> set (lastn n (remdups past)) \<longleftrightarrow>
    (\<exists>j. last_idx x past = Some j \<and> length (remdups (drop (Suc j) past)) < n)"
proof (cases "last_idx x past")
  case None
  then show ?thesis using last_idx_None [of x past] by (auto simp: lastn_def dest: in_set_dropD)
next
  case (Some j)
  let ?B = "remdups (drop (Suc j) past)" and ?A = "remdups (filter (\<lambda>y. y \<notin> set (x # drop (Suc j) past)) (take j past))"
  note j = last_idx_SomeD [OF Some]
  have "past = take j past @ x # drop (Suc j) past" using j by (metis id_take_nth_drop)
  then have "remdups past = remdups (take j past @ x # drop (Suc j) past)" by simp
  also have "\<dots> = ?A @ x # ?B" using j by (subst remdups_split) simp
  finally have r: "remdups past = ?A @ x # ?B" .
  have x: "x \<notin> set ?A" "x \<notin> set ?B" using j by auto
  show ?thesis
  proof (cases "length ?B < n")
    case True
    then show ?thesis using Some unfolding r by (simp add: lastn_def)
  next
    case False
    then show ?thesis using Some x unfolding r by (auto simp: lastn_def not_less Suc_diff_le dest: in_set_dropD)
  qed
qed

definition lru_hit :: "'a list \<Rightarrow> nat \<Rightarrow> nat \<Rightarrow> bool" where
  "lru_hit xs n i \<longleftrightarrow> 0 \<le> stack_distance xs i \<and> stack_distance xs i < int n"

lemma lru_hit_iff:
  "lru_hit xs n i \<longleftrightarrow> xs ! i \<in> set (lastn n (remdups (take i xs)))"
  by (auto simp: lru_hit_def stack_distance_def in_lastn_remdups split: option.splits)

lemma spec_run_units:
  assumes "0 < n"
  shows "spec_run make_newest evict_oldest n (units xs) (units (lastn n (remdups past))) =
    (map (\<lambda>i. if lru_hit (past @ xs) n i then cache_ck_hit else cache_ck_miss)
       [length past ..< length past + length xs], units (lastn n (remdups (past @ xs))))"
proof (induction xs arbitrary: past)
  case (Cons x xs)
  have "lru_hit (past @ x # xs) n (length past) \<longleftrightarrow> x \<in> set (lastn n (remdups past))"
    by (simp add: lru_hit_iff)
  then show ?case
    using Cons.IH [of "past @ [x]"] spec_get_units [OF assms, of x past]
    by (simp add: upt_first del: upt_Suc)
qed simp

section \<open>The simulator agrees with the stack distances\<close>

lemma LRU_unit_run:
  assumes "\<forall>req \<in> set reqs. hv_ok hash req \<and> obj_size req = 1" and "0 < p_cache_size params"
    and "unat (p_cache_size params) < 2 ^ 47"
  shows "\<exists>c. get_all (LRU_ops (hashtable_ver1 hash)) (LRU_init (hashtable_ver1 hash) params) reqs =
    Inr (map (\<lambda>i. if lru_hit (map obj_id_int reqs) (unat (p_cache_size params)) i then cache_ck_hit else cache_ck_miss)
      [0 ..< length reqs], c)"
proof -
  let ?n = "unat (p_cache_size params)"
  have u: "map obj_of reqs = units (map obj_id_int reqs)" using assms(1) by (auto simp: obj_of_def)
  have "0 < ?n" using assms(2) by (simp add: word_less_nat_alt)
  then have "fst (spec_run make_newest evict_oldest ?n (map obj_of reqs) []) =
      map (\<lambda>i. if lru_hit (map obj_id_int reqs) ?n i then cache_ck_hit else cache_ck_miss) [0 ..< length reqs]"
    using spec_run_units [of ?n "map obj_id_int reqs" "[]"] unfolding u by (simp add: lastn_def)
  then show ?thesis
    using lru1.get_all_correct [OF v1.init_rep, of hash params reqs] assms
    by (auto simp: LRU_init_def lru_inv_def fits_def)
qed

text \<open>
  (C16) Requests of size 1 through an LRU cache of \<open>n\<close> bytes: the run never fails, and the \<open>i\<close>-th
  request hits exactly when fewer than \<open>n\<close> distinct objects were requested since the last request
  for its object.
\<close>

theorem LRU_hit_iff_stack_distance:
  assumes "\<forall>req \<in> set reqs. hv_ok hash req \<and> obj_size req = 1" and "0 < p_cache_size params"
    and "unat (p_cache_size params) < 2 ^ 47"
  shows "\<exists>rs c. get_all (LRU_ops (hashtable_ver1 hash)) (LRU_init (hashtable_ver1 hash) params) reqs = Inr (rs, c) \<and>
    length rs = length reqs \<and>
    (\<forall>i < length reqs. rs ! i = (if 0 \<le> stack_distance (map obj_id_int reqs) i \<and>
        stack_distance (map obj_id_int reqs) i < int (unat (p_cache_size params))
      then cache_ck_hit else cache_ck_miss))"
  using LRU_unit_run [OF assms] by (auto simp: lru_hit_def)

theorem LRU_hit_iff_stack_distance_witness:
  "\<exists>rs c. get_all (LRU_ops (hashtable_ver1 (\<lambda>k. k))) (LRU_init (hashtable_ver1 (\<lambda>k. k)) (sample_params 2))
      [sample_req 1 1, sample_req 2 1, sample_req 1 1, sample_req 3 1, sample_req 2 1] = Inr (rs, c) \<and>
    rs ! 2 = cache_ck_hit \<and> rs ! 4 = cache_ck_miss"
proof -
  let ?reqs = "[sample_req 1 1, sample_req 2 1, sample_req 1 1, sample_req 3 1, sample_req 2 1]"
  obtain rs c where "get_all (LRU_ops (hashtable_ver1 (\<lambda>k. k))) (LRU_init (hashtable_ver1 (\<lambda>k. k)) (sample_params 2))
      ?reqs = Inr (rs, c)"
    and r: "\<forall>i < 5. rs ! i = (if 0 \<le> stack_distance (map obj_id_int ?reqs) i \<and>
      stack_distance (map obj_id_int ?reqs) i < 2 then cache_ck_hit else cache_ck_miss)"
    using LRU_hit_iff_stack_distance [of ?reqs "\<lambda>k. k" "sample_params 2"] by auto
  then show ?thesis using r [rule_format, of 2] r [rule_format, of 4]
    by (intro exI [of _ rs] exI [of _ c]) (simp add: stack_distance_def nth_Cons' take_Cons')
qed

text \<open>The second request for the first object of the trace, which the profiler reports as new.\<close>

lemma last_idx_0_unique:
  assumes "last_idx (xs ! i) (take i xs) = Some 0" "last_idx (xs ! i') (take i' xs) = Some 0"
    "i < length xs" "i' < length xs"
  shows "i = i'"
proof -
  have "i' \<le> i" if "last_idx (xs ! i) (take i xs) = Some 0" "last_idx (xs ! i') (take i' xs) = Some 0"
    "i < length xs" for i i'
  proof (rule ccontr)
    assume "\<not> i' \<le> i"
    moreover have i: "0 < i" "xs ! 0 = xs ! i" "xs ! i \<notin> set (drop (Suc 0) (take i xs))"
      using last_idx_SomeD [OF that(1)] by auto
    moreover have i': "xs ! 0 = xs ! i'" "xs ! i' \<notin> set (drop (Suc 0) (take i' xs))"
      using last_idx_SomeD [OF that(2)] by auto
    ultimately have "drop (Suc 0) (take i' xs) ! (i - 1) = xs ! i" "i - 1 < length (drop (Suc 0) (take i' xs))"
      using that(3) by auto
    then show False using i i' by (metis nth_mem)
  qed
  then show ?thesis using assms by (simp add: order_antisym)
qed

text \<open>Whether the trace requests its first object again within \<open>n\<close> distinct objects.\<close>

definition first_reused :: "'a list \<Rightarrow> nat \<Rightarrow> bool" where
  "first_reused xs n \<longleftrightarrow> (\<exists>i \<in> {0 ..< length xs}. last_idx (xs ! i) (take i xs) = Some 0 \<and> lru_hit xs n i)"

lemma at_most_one_filter:
  "distinct xs \<Longrightarrow> (\<And>x y. x \<in> set xs \<Longrightarrow> y \<in> set xs \<Longrightarrow> P x \<Longrightarrow> P y \<Longrightarrow> x = y) \<Longrightarrow>
    length (filter P xs) = (if \<exists>x \<in> set xs. P x then 1 else 0)"
proof (induction xs)
  case (Cons x xs)
  have "filter P xs = []" if "P x" using Cons.prems that by (auto simp: filter_empty_conv)
  then show ?case using Cons by (cases "P x") auto
qed simp

lemma lru_hits_reported:
  "length (filter (lru_hit xs n) [0 ..< length xs]) = reported_hits xs n + (if first_reused xs n then 1 else 0)"
proof -
  let ?z = "\<lambda>i. last_idx (xs ! i) (take i xs) = Some 0 \<and> lru_hit xs n i" and ?is = "[0 ..< length xs]"
  have "length (filter (lru_hit xs n) ?is) =
      length (filter (\<lambda>i. 0 \<le> reported_stack_distance xs i \<and> reported_stack_distance xs i < int n) ?is) +
      length (filter ?z ?is)"
    by (subst sum_length_filter_compl [of ?z, symmetric], subst add.commute)
      (simp add: lru_hit_def reported_stack_distance_def conj_ac cong: conj_cong)
  moreover have "length (filter ?z ?is) = (if first_reused xs n then 1 else 0)"
    using at_most_one_filter [of ?is ?z] last_idx_0_unique [of xs] by (auto simp: first_reused_def)
  ultimately show ?thesis by (simp add: reported_hits_def)
qed

text \<open>
  (C7) Simulator against profiler. For requests of size 1 and every cache size \<open>n\<close>, entry \<open>n\<close> of the
  array \<^verbatim>\<open>get_lru_hit_cnt\<close> computes from the splay tree is the number of hits of an LRU cache of \<open>n\<close>
  bytes, except that it is one too small when the first object of the trace is requested again
  within \<open>n\<close> distinct objects.
\<close>

theorem LRU_hits_match_profiler:
  assumes "ghash_ok G" "\<forall>req \<in> set reqs. hv_ok hash req \<and> obj_size req = 1" "length reqs \<le> 2 ^ 63"
    and "0 < p_cache_size params" "unat (p_cache_size params) < 2 ^ 47" "unat (p_cache_size params) \<le> nat sz"
  shows "\<exists>rs c hits. get_all (LRU_ops (hashtable_ver1 hash)) (LRU_init (hashtable_ver1 hash) params) reqs = Inr (rs, c) \<and>
    get_lru_hit_cnt G reqs sz = Inr hits \<and>
    count_list rs cache_ck_hit = hits ! unat (p_cache_size params) +
      (if first_reused (map obj_id_int reqs) (unat (p_cache_size params)) then 1 else 0)"
proof -
  let ?n = "unat (p_cache_size params)" and ?xs = "map obj_id_int reqs"
  obtain c where c: "get_all (LRU_ops (hashtable_ver1 hash)) (LRU_init (hashtable_ver1 hash) params) reqs =
      Inr (map (\<lambda>i. if lru_hit ?xs ?n i then cache_ck_hit else cache_ck_miss) [0 ..< length reqs], c)"
    using LRU_unit_run [OF assms(2,4,5)] by blast
  have "count_list (map (\<lambda>i. if lru_hit ?xs ?n i then cache_ck_hit else cache_ck_miss) is) cache_ck_hit =
      length (filter (lru_hit ?xs ?n) is)" for "is"
    by (induction "is") auto
  moreover have "0 < ?n" using assms(4) by (simp add: word_less_nat_alt)
  moreover from this have "0 \<le> sz" using assms(6) by linarith
  ultimately show ?thesis
    using c get_lru_hit_cnt_correct [OF assms(1,3), of sz] lru_hits_reported [of ?xs ?n] assms(6)
    by (auto simp: nat_add_distrib simp del: upt_Suc)
qed

theorem LRU_hits_match_profiler_witness:
  "\<exists>rs c hits. get_all (LRU_ops (hashtable_ver1 (\<lambda>k. k))) (LRU_init (hashtable_ver1 (\<lambda>k. k)) (sample_params 2))
      [sample_req 1 1, sample_req 2 1, sample_req 1 1, sample_req 2 1] = Inr (rs, c) \<and>
    get_lru_hit_cnt fun_ghash [sample_req 1 1, sample_req 2 1, sample_req 1 1, sample_req 2 1] 4 = Inr hits \<and>
    count_list rs cache_ck_hit = hits ! 2 + 1"
proof -
  let ?reqs = "[sample_req 1 1, sample_req 2 1, sample_req 1 1, sample_req 2 1]"
  have "first_reused (map obj_id_int ?reqs) 2"
    by (auto simp: first_reused_def lru_hit_def stack_distance_def intro!: bexI [of _ 2])
  then show ?thesis
    using LRU_hits_match_profiler [OF fun_ghash_ok, of ?reqs "\<lambda>k. k" "sample_params 2" 4] by simp
qed

end
