(* ===== verification/HashtableMap.thy ===== *)
theory HashtableMap
  imports Hashtable Cache
begin

text \<open>
  The hash tables as finite maps: a client that looks objects up, inserts those that are absent and
  deletes those that are present sees, call by call, the answers of a map from ids to sizes, across
  every expansion of the table and every object the table moves in memory.
\<close>

section \<open>A client\<close>

datatype ht_call = Ht_find obj_id_t | Ht_insert obj_id_t u32 | Ht_delete obj_id_t

definition req_of :: "obj_id_t \<Rightarrow> u32 \<Rightarrow> request_t" where
  "req_of k z = new_request\<lparr>obj_id_int := k, obj_size := ucast z\<rparr>"

definition ht_call :: "ht_ops \<Rightarrow> hashtable_t \<Rightarrow> ht_call \<Rightarrow> (u32 option \<times> hashtable_t) result" where
  "ht_call H s c = (case c of
     Ht_find k \<Rightarrow>
       rbind (hashtable_find H s (req_of k 1)) (\<lambda>(p, _, s).
       if p = NULL then Inr (None, s) else rbind (load (heap s) p) (\<lambda>x. Inr (Some (o_size x), s)))
   | Ht_insert k z \<Rightarrow>
       rbind (hashtable_find H s (req_of k z)) (\<lambda>(p, req, s).
       if p = NULL then rbind (hashtable_insert H s req) (\<lambda>(_, s). Inr (None, s)) else Inr (None, s))
   | Ht_delete k \<Rightarrow>
       rbind (hashtable_find H s (req_of k 1)) (\<lambda>(p, _, s).
       if p = NULL then Inr (None, s) else rbind (hashtable_delete H s p) (\<lambda>s. Inr (None, s))))"

fun ht_calls :: "ht_ops \<Rightarrow> hashtable_t \<Rightarrow> ht_call list \<Rightarrow> (u32 option list \<times> hashtable_t) result" where
  "ht_calls H s [] = Inr ([], s)"
| "ht_calls H s (c # cs) =
    rbind (ht_call H s c) (\<lambda>(r, s). rbind (ht_calls H s cs) (\<lambda>(rs, s). Inr (r # rs, s)))"

definition map_call :: "(obj_id_t \<rightharpoonup> u32) \<Rightarrow> ht_call \<Rightarrow> u32 option \<times> (obj_id_t \<rightharpoonup> u32)" where
  "map_call m c = (case c of
     Ht_find k \<Rightarrow> (m k, m)
   | Ht_insert k z \<Rightarrow> (None, if m k = None then m(k \<mapsto> z) else m)
   | Ht_delete k \<Rightarrow> (None, m(k := None)))"

fun map_calls :: "(obj_id_t \<rightharpoonup> u32) \<Rightarrow> ht_call list \<Rightarrow> u32 option list \<times> (obj_id_t \<rightharpoonup> u32)" where
  "map_calls m [] = ([], m)"
| "map_calls m (c # cs) =
    (case map_call m c of (r, m) \<Rightarrow> case map_calls m cs of (rs, m) \<Rightarrow> (r # rs, m))"

fun call_ok :: "ht_call \<Rightarrow> bool" where
  "call_ok (Ht_insert k z) \<longleftrightarrow> z \<noteq> 0"
| "call_ok _ \<longleftrightarrow> True"

section \<open>The refinement\<close>

text \<open>The table holds exactly the entries of the map, and no object is in a list.\<close>

definition ht_map :: "(hashtable_t \<Rightarrow> ptr set \<Rightarrow> bool) \<Rightarrow> hashtable_t \<Rightarrow> (obj_id_t \<rightharpoonup> u32) \<Rightarrow> nat \<Rightarrow> bool" where
  "ht_map ht s m n \<longleftrightarrow> (\<exists>P. ht s P \<and> linked s P [] \<and> card P \<le> n \<and> objs (heap s) P = {(k, z). m k = Some z})"

lemma req_of [simp]:
  "obj_id_int (req_of k z) = k" "obj_size (req_of k z) = ucast z" "hv (req_of k z) = 0" "hv_ok hash (req_of k z)"
  by (simp_all add: req_of_def new_request_def hv_ok_def)

context hashtable_spec
begin

lemma map_find:
  assumes h: "ht s P" and l: "linked s P []" and o: "objs (heap s) P = {(k, z). m k = Some z}"
    and hv: "hv_ok hash req"
  shows "\<exists>p req' s'. hashtable_find H s req = Inr (p, req', s') \<and> obj_id_int req' = obj_id_int req \<and>
    obj_size req' = obj_size req \<and> ht s' P \<and> linked s' P [] \<and> objs (heap s') P = {(k, z). m k = Some z} \<and>
    (case m (obj_id_int req) of None \<Rightarrow> p = NULL
     | Some z \<Rightarrow> p \<in> P \<and> p \<noteq> NULL \<and> payload (heap s') p = (obj_id_int req, z) \<and> (\<exists>x. heap s' p = Some x \<and> o_size x = z))"
proof -
  from find [OF h hv] obtain p req' s' where f: "hashtable_find H s req = Inr (p, req', s')"
    "same_table s s'" "req'\<lparr>hv := hv req\<rparr> = req"
    and p: "p \<in> P \<and> fst (payload (heap s) p) = obj_id_int req \<or> p = NULL \<and> obj_id_int req \<notin> fst ` objs (heap s) P"
    by blast
  have r: "obj_id_int req' = obj_id_int req" "obj_size req' = obj_size req"
    using arg_cong [OF f(3), of obj_id_int] arg_cong [OF f(3), of obj_size] by simp_all
  have t: "ht s' P" "linked s' P []" "heap s' = heap s"
    using h l counters [OF f(2)] same_tableD [OF f(2)] by (simp_all add: linked_def)
  show ?thesis
  proof (cases "p = NULL")
    case True
    then have "obj_id_int req \<notin> fst ` objs (heap s) P" using p alloc [OF h] by blast
    then have "m (obj_id_int req) = None" unfolding o by (cases "m (obj_id_int req)") (auto simp: image_iff)
    then show ?thesis using f r t o True by auto
  next
    case False
    then have pP: "p \<in> P" "fst (payload (heap s) p) = obj_id_int req" using p by auto
    then have "payload (heap s) p \<in> {(k, z). m k = Some z}" unfolding o [symmetric] objs_def by blast
    then have "m (obj_id_int req) = Some (snd (payload (heap s) p))" using pP(2) by (cases "payload (heap s) p") auto
    then show ?thesis using f r t o False pP alloc [OF h pP(1)] by (auto simp: payload_def)
  qed
qed

lemma map_delete:
  assumes h: "ht s P" and l: "linked s P []" and o: "objs (heap s) P = {(k, z). m k = Some z}"
    and p: "p \<in> P" "payload (heap s) p = (k, z)"
  shows "\<exists>s' P'. hashtable_delete H s p = Inr s' \<and> ht s' P' \<and> linked s' P' [] \<and> card P' \<le> card P \<and>
    objs (heap s') P' = {(k', z). (m(k := None)) k' = Some z}"
proof -
  have l': "linked s (P - {p}) []" and st: "stale s [] p" using l p(1) by (auto simp: linked_def stale_def)
  from delete [OF h p(1) l' st] obtain s' P' xs' where d: "hashtable_delete H s p = Inr s'" "ht s' P'"
    "linked s' P' xs'" "same_view (heap s) (P - {p}) [] (heap s') P' xs'" by blast
  have fin: "finite P" "ids_ok (heap s) P" using ids [OF h] by auto
  have "objs (heap s) (P - {p}) = {(k', z). (m(k := None)) k' = Some z}"
  proof -
    have "objs (heap s) (P - {p}) = {x \<in> objs (heap s) P. fst x \<noteq> k}"
    proof (intro set_eqI iffI)
      fix x assume "x \<in> objs (heap s) (P - {p})"
      then obtain q where q: "q \<in> P" "q \<noteq> p" "x = payload (heap s) q" by (auto simp: objs_def)
      then have "fst x \<noteq> k" using inj_onD [OF fin(2) [unfolded ids_ok_def], of q p] p by auto
      then show "x \<in> {x \<in> objs (heap s) P. fst x \<noteq> k}" using q by (auto simp: objs_def)
    qed (use p(2) in \<open>auto simp: objs_def\<close>)
    then show ?thesis unfolding o by (auto split: if_splits)
  qed
  moreover have "card (P - {p}) \<le> card P" using fin(1) by (simp add: card_mono)
  ultimately show ?thesis using d by (auto simp: same_view_def)
qed

lemma map_insert:
  assumes h: "ht s P" and l: "linked s P []" and o: "objs (heap s) P = {(k, z). m k = Some z}"
    and k: "m (obj_id_int req) = None" and z: "(ucast (obj_size req) :: u32) \<noteq> 0" and n: "card P < 2 ^ 48"
  shows "\<exists>p s' P'. hashtable_insert H s req = Inr (p, s') \<and> ht s' P' \<and> linked s' P' [] \<and> card P' = Suc (card P) \<and>
    objs (heap s') P' = {(k, z). (m(obj_id_int req \<mapsto> ucast (obj_size req))) k = Some z}"
proof -
  have "obj_id_int req \<notin> fst ` objs (heap s) P" using k unfolding o by auto
  from insert [OF h l this z n] obtain p s' P' xs' where i: "hashtable_insert H s req = Inr (p, s')"
    "ht s' (Set.insert p P')" "p \<notin> P'" "linked s' (Set.insert p P') xs'" "same_view (heap s) P [] (heap s') P' xs'"
    "payload (heap s') p = (obj_id_int req, ucast (obj_size req))" by blast
  have "objs (heap s') (Set.insert p P') = Set.insert (obj_id_int req, ucast (obj_size req)) {(k, z). m k = Some z}"
    using i(5,6) o by (simp add: objs_def same_view_def)
  also have "\<dots> = {(k, z). (m(obj_id_int req \<mapsto> ucast (obj_size req))) k = Some z}" using k by (auto split: if_splits)
  finally show ?thesis
    using i ids [OF i(2)] by (intro exI [of _ p] exI [of _ s'] exI [of _ "Set.insert p P'"])
      (auto simp: same_view_def)
qed

lemma ht_call_correct:
  assumes "ht_map ht s m n" "call_ok c" "n < 2 ^ 48"
  shows "\<exists>s'. ht_call H s c = Inr (fst (map_call m c), s') \<and> ht_map ht s' (snd (map_call m c)) (Suc n)"
proof -
  obtain P where P: "ht s P" "linked s P []" "card P \<le> n" "objs (heap s) P = {(k, z). m k = Some z}"
    using assms(1) by (auto simp: ht_map_def)
  note f = map_find [OF P(1,2,4)]
  have keep: "ht_map ht s' m (Suc n)" if "ht s' P" "linked s' P []" "objs (heap s') P = {(k, z). m k = Some z}" for s'
    using that P(3) by (auto simp: ht_map_def)
  show ?thesis
  proof (cases c)
    case (Ht_find k)
    then show ?thesis using f [of "req_of k 1"] keep
      by (cases "m k") (auto simp: ht_call_def map_call_def c_simps)
  next
    case (Ht_insert k z)
    show ?thesis
    proof (cases "m k")
      case None
      obtain req s' where s': "hashtable_find H s (req_of k z) = Inr (NULL, req, s')" "obj_id_int req = k"
        "obj_size req = ucast z" "ht s' P" "linked s' P []" "objs (heap s') P = {(k, z). m k = Some z}"
        using f [of "req_of k z"] None by auto
      have mr: "m (obj_id_int req) = None" "(ucast (obj_size req) :: u32) \<noteq> 0" "card P < 2 ^ 48"
        using None s'(2,3) Ht_insert assms(2,3) P(3) by simp_all
      obtain p s'' P' where "hashtable_insert H s' req = Inr (p, s'')" "ht s'' P'" "linked s'' P' []"
        "card P' = Suc (card P)" "objs (heap s'') P' = {(k', z'). (m(k \<mapsto> z)) k' = Some z'}"
        using map_insert [OF s'(4-6) mr] s'(2,3) by auto
      then show ?thesis using s' Ht_insert None P(3)
        by (intro exI [of _ s'']) (auto simp: ht_call_def map_call_def ht_map_def)
    next
      case (Some z')
      then show ?thesis using f [of "req_of k z"] keep Ht_insert by (auto simp: ht_call_def map_call_def)
    qed
  next
    case (Ht_delete k)
    show ?thesis
    proof (cases "m k")
      case None
      moreover from this have "m(k := None) = m" by auto
      ultimately show ?thesis using f [of "req_of k 1"] keep Ht_delete by (auto simp: ht_call_def map_call_def)
    next
      case (Some z)
      obtain p req s' where s': "hashtable_find H s (req_of k 1) = Inr (p, req, s')" "p \<in> P" "p \<noteq> NULL"
        "payload (heap s') p = (k, z)" "ht s' P" "linked s' P []" "objs (heap s') P = {(k, z). m k = Some z}"
        using f [of "req_of k 1"] Some by auto
      obtain s'' P' where "hashtable_delete H s' p = Inr s''" "ht s'' P'" "linked s'' P' []" "card P' \<le> card P"
        "objs (heap s'') P' = {(k', z). (m(k := None)) k' = Some z}"
        using map_delete [OF s'(5-7) s'(2,4)] by blast
      then show ?thesis using s' Ht_delete P(3)
        by (intro exI [of _ s'']) (auto simp: ht_call_def map_call_def ht_map_def)
    qed
  qed
qed

lemma ht_calls_correct:
  assumes "ht_map ht s m n" "\<forall>c \<in> set cs. call_ok c" "n + length cs \<le> 2 ^ 48"
  shows "\<exists>s'. ht_calls H s cs = Inr (fst (map_calls m cs), s') \<and>
    ht_map ht s' (snd (map_calls m cs)) (n + length cs)"
  using assms
proof (induction cs arbitrary: s m n)
  case (Cons c cs)
  obtain s1 where s1: "ht_call H s c = Inr (fst (map_call m c), s1)" "ht_map ht s1 (snd (map_call m c)) (Suc n)"
    using ht_call_correct [OF Cons.prems(1), of c] Cons.prems(2,3) by auto
  obtain s2 where "ht_calls H s1 cs = Inr (fst (map_calls (snd (map_call m c)) cs), s2)"
    "ht_map ht s2 (snd (map_calls (snd (map_call m c)) cs)) (Suc n + length cs)"
    using Cons.IH [OF s1(2)] Cons.prems(2,3) by auto
  then show ?case using s1(1) by (auto simp: split_beta)
qed auto

lemma ht_map_create:
  assumes "unat pw \<le> 49"
  shows "ht_map ht (hashtable_add_ptr_to_monitoring H
    (hashtable_add_ptr_to_monitoring H (create_hashtable H pw empty_store) list_head) list_tail) Map.empty 0"
  using create [of empty_store pw, OF _ _ assms refl]
  by (auto simp: ht_map_def empty_store_def objs_def intro!: exI [of _ "{}"])

end

text \<open>A new table with the two list ends monitored, as \<^verbatim>\<open>cache_struct_init\<close> makes it.\<close>

definition new_table :: "ht_ops \<Rightarrow> u16 \<Rightarrow> hashtable_t" where
  "new_table H pw = hashtable_add_ptr_to_monitoring H
    (hashtable_add_ptr_to_monitoring H (create_hashtable H pw empty_store) list_head) list_tail"

section \<open>Both tables are maps\<close>

text \<open>
  (C9) The table of objects (version 1, the default): for every hash function and every initial
  power up to 49, any sequence of up to \<open>2 ^ 48\<close> find, insert and delete calls from a new table runs without
  error and answers as a map does, through every expansion and every move of an object to the head
  of its bucket. No hypothesis is made on collisions.
\<close>

theorem chained_hashtable_is_map:
  assumes "\<forall>c \<in> set cs. call_ok c" "length cs \<le> 2 ^ 48" "unat pw \<le> 49"
  shows "\<exists>s. ht_calls (hashtable_ver1 hash) (new_table (hashtable_ver1 hash) pw) cs =
      Inr (fst (map_calls Map.empty cs), s) \<and>
    ht_map (ht_v1 hash) s (snd (map_calls Map.empty cs)) (length cs)"
  using v1.ht_calls_correct [OF v1.ht_map_create [OF assms(3)] assms(1), of hash] assms(2)
  by (simp add: new_table_def)

theorem chained_hashtable_is_map_witness:
  "\<exists>s n. ht_calls (hashtable_ver1 (\<lambda>_. 0)) (new_table (hashtable_ver1 (\<lambda>_. 0)) 2)
      [Ht_insert 1 10, Ht_insert 2 20, Ht_delete 1, Ht_find 1, Ht_find 2] = Inr ([None, None, None, None, Some 20], s) \<and>
    ht_map (ht_v1 (\<lambda>_. 0)) s [2 \<mapsto> 20] n"
  using chained_hashtable_is_map [of "[Ht_insert 1 10, Ht_insert 2 20, Ht_delete 1, Ht_find 1, Ht_find 2]" 2 "\<lambda>_. 0"]
  by (auto simp: map_call_def fun_upd_twist simp del: ht_calls.simps)

text \<open>
  (C23) The table of pointers (version 2) is a map in the same sense.
\<close>

theorem chained_hashtable_v2_is_map:
  assumes "\<forall>c \<in> set cs. call_ok c" "length cs \<le> 2 ^ 48" "unat pw \<le> 49"
  shows "\<exists>s. ht_calls (hashtable_ver2 hash) (new_table (hashtable_ver2 hash) pw) cs =
      Inr (fst (map_calls Map.empty cs), s) \<and>
    ht_map (ht_v2 hash) s (snd (map_calls Map.empty cs)) (length cs)"
  using v2.ht_calls_correct [OF v2.ht_map_create [OF assms(3)] assms(1), of hash] assms(2)
  by (simp add: new_table_def)

theorem chained_hashtable_v2_is_map_witness:
  "\<exists>s n. ht_calls (hashtable_ver2 (\<lambda>_. 0)) (new_table (hashtable_ver2 (\<lambda>_. 0)) 2)
      [Ht_insert 1 10, Ht_insert 2 20, Ht_delete 1, Ht_find 1, Ht_find 2] = Inr ([None, None, None, None, Some 20], s) \<and>
    ht_map (ht_v2 (\<lambda>_. 0)) s [2 \<mapsto> 20] n"
  using chained_hashtable_v2_is_map [of "[Ht_insert 1 10, Ht_insert 2 20, Ht_delete 1, Ht_find 1, Ht_find 2]" 2 "\<lambda>_. 0"]
  by (auto simp: map_call_def fun_upd_twist simp del: ht_calls.simps)

section \<open>Whole-table operations of version 1\<close>

lemma sample_table: "\<exists>s n. ht_map (ht_v1 (\<lambda>_. 0)) s [1 \<mapsto> 10, 2 \<mapsto> 20] n"
  using v1.ht_calls_correct [OF v1.ht_map_create [of 2], of "[Ht_insert 1 10, Ht_insert 2 20]" "\<lambda>_. 0"]
  by (auto simp: map_call_def fun_upd_twist simp del: ht_calls.simps)

text \<open>
  \<^verbatim>\<open>chained_hashtable_expand\<close> doubles the table, re-hashes every object, and keeps the map.
\<close>

theorem chained_hashtable_expand_keeps_map:
  assumes "ht_map (ht_v1 hash) s m n" "unat (hash_power s) \<le> 48"
  shows "\<exists>s'. chained_hashtable_expand hash s = Inr s' \<and> ht_map (ht_v1 hash) s' m n \<and>
    n_cur_item s' = n_cur_item s"
proof -
  obtain P where P: "ht_v1 hash s P" "linked s P []" "card P \<le> n" "objs (heap s) P = {(k, z). m k = Some z}"
    using assms(1) by (auto simp: ht_map_def)
  then show ?thesis using chained_hashtable_expand_correct [OF P(1,2) assms(2)]
    by (fastforce simp: ht_map_def same_view_def)
qed

theorem chained_hashtable_expand_keeps_map_witness:
  "\<exists>s'. chained_hashtable_expand (\<lambda>_. 0) (new_table (hashtable_ver1 (\<lambda>_. 0)) 3) = Inr s' \<and>
    ht_map (ht_v1 (\<lambda>_. 0)) s' Map.empty 0"
proof -
  have "ht_map (ht_v1 (\<lambda>_. 0)) (new_table (hashtable_ver1 (\<lambda>_. 0)) 3) Map.empty 0"
    using v1.ht_map_create [of 3 "\<lambda>_. 0"] by (simp add: new_table_def)
  moreover have "unat (hash_power (new_table (hashtable_ver1 (\<lambda>_. 0)) 3)) \<le> 48"
    by (simp add: new_table_def hashtable_ver1_def create_chained_hashtable_def
      chained_hashtable_add_ptr_to_monitoring_def alloc_table_def Let_def)
  ultimately show ?thesis using chained_hashtable_expand_keeps_map by blast
qed

text \<open>
  (C24) \<^verbatim>\<open>chained_hashtable_foreach\<close> visits every object of the table exactly once.
\<close>

theorem chained_hashtable_foreach_visits_map:
  assumes "ht_map (ht_v1 hash) s m n"
  shows "\<exists>ps. chained_hashtable_foreach s = Inr ps \<and> distinct (map fst (view (heap s) ps)) \<and>
    set (view (heap s) ps) = {(k, z). m k = Some z}"
proof -
  obtain P where P: "ht_v1 hash s P" "objs (heap s) P = {(k, z). m k = Some z}"
    using assms by (auto simp: ht_map_def)
  obtain ps where ps: "chained_hashtable_foreach s = Inr ps" "set ps = P" "distinct ps"
    using chained_hashtable_foreach_correct [OF P(1)] by blast
  then show ?thesis using P(2) v1.ids [OF P(1)]
    by (auto simp: objs_def ids_ok_def distinct_map comp_def)
qed

theorem chained_hashtable_foreach_visits_map_witness:
  "\<exists>s ps. chained_hashtable_foreach s = Inr ps \<and> set (view (heap s) ps) = {(1, 10), (2, 20)}"
proof -
  obtain s n where s: "ht_map (ht_v1 (\<lambda>_. 0)) s [1 \<mapsto> 10, 2 \<mapsto> 20] n" using sample_table by blast
  have "{(k, z). [1 \<mapsto> 10, 2 \<mapsto> 20] k = Some z} = {(1 :: obj_id_t, 10), (2, 20 :: u32)}"
    by (auto split: if_splits)
  then show ?thesis using chained_hashtable_foreach_visits_map [OF s] by auto
qed

text \<open>
  (C25) \<^verbatim>\<open>chained_hashtable_rand_obj\<close> on a table that is not empty stops and returns an object of the
  table, whatever the state of the generator.
\<close>

theorem chained_hashtable_rand_obj_in_map:
  assumes "ht_map (ht_v1 hash) s m n" "m \<noteq> Map.empty"
  shows "\<exists>p k z. chained_hashtable_rand_obj s = Inr (p, s\<lparr>rand_seed := next_rand (rand_seed s)\<rparr>) \<and>
    payload (heap s) p = (k, z) \<and> m k = Some z"
proof -
  obtain P where P: "ht_v1 hash s P" "payload (heap s) ` P = {(k, z). m k = Some z}"
    using assms(1) by (auto simp: ht_map_def objs_def)
  then have "P \<noteq> {}" using assms(2) by (auto simp: fun_eq_iff)
  then obtain p where p: "chained_hashtable_rand_obj s = Inr (p, s\<lparr>rand_seed := next_rand (rand_seed s)\<rparr>)" "p \<in> P"
    using chained_hashtable_rand_obj_correct [OF P(1)] by blast
  then have "payload (heap s) p \<in> {(k, z). m k = Some z}" unfolding P(2) [symmetric] by blast
  then show ?thesis using p(1) by (cases "payload (heap s) p") auto
qed

theorem chained_hashtable_rand_obj_in_map_witness:
  "\<exists>s p s'. chained_hashtable_rand_obj s = Inr (p, s') \<and>
    payload (heap s) p \<in> {(1, 10), (2, 20)}"
proof -
  obtain s n where s: "ht_map (ht_v1 (\<lambda>_. 0)) s [1 \<mapsto> 10, 2 \<mapsto> 20] n" using sample_table by blast
  have "[1 \<mapsto> 10, 2 \<mapsto> 20] \<noteq> (Map.empty :: obj_id_t \<rightharpoonup> u32)" by (metis map_upd_nonempty)
  from chained_hashtable_rand_obj_in_map [OF s this] obtain p k z s'
    where p: "chained_hashtable_rand_obj s = Inr (p, s')" "payload (heap s) p = (k, z)"
      "[1 \<mapsto> 10, 2 \<mapsto> 20] k = Some z" by blast
  then have "payload (heap s) p \<in> {(1, 10), (2, 20)}" by (auto split: if_splits)
  then show ?thesis using p(1) by blast
qed

text \<open>
  \<^verbatim>\<open>free_chained_hashtable\<close> frees the table and every object: of a store that
  holds the table only, nothing is left.
\<close>

theorem free_chained_hashtable_frees_all:
  assumes "ht_map (ht_v1 hash) s m n"
  shows "\<exists>s'. free_chained_hashtable s = Inr s' \<and> (\<forall>p. p \<noteq> NULL \<longrightarrow> heap s' p = None)"
proof -
  obtain P where "ht_v1 hash s P" using assms by (auto simp: ht_map_def)
  then show ?thesis by (rule free_chained_hashtable_correct)
qed

theorem free_chained_hashtable_frees_all_witness:
  "\<exists>s s'. free_chained_hashtable s = Inr s' \<and> heap s (Slot (table s) 0) \<noteq> None \<and> heap s' (Slot (table s) 0) = None"
proof -
  let ?s = "new_table (hashtable_ver1 (\<lambda>_. 0)) 3"
  have "ht_map (ht_v1 (\<lambda>_. 0)) ?s Map.empty 0" using v1.ht_map_create [of 3 "\<lambda>_. 0"] by (simp add: new_table_def)
  from free_chained_hashtable_frees_all [OF this] obtain s' where "free_chained_hashtable ?s = Inr s'"
    "\<forall>p. p \<noteq> NULL \<longrightarrow> heap s' p = None" by blast
  moreover have "heap ?s (Slot (table ?s) 0) \<noteq> None"
    by (simp add: new_table_def hashtable_ver1_def create_chained_hashtable_def
      chained_hashtable_add_ptr_to_monitoring_def alloc_table_def Let_def hashsize_def)
  ultimately show ?thesis by (intro exI [of _ ?s] exI [of _ s']) auto
qed

end
