(* ===== verification/MD5.thy ===== *)
theory MD5
  imports Prelude
begin

text \<open>
  \<^verbatim>\<open>src/md5.c\<close>, the digest the consistent hash ring is built from: the block function, the buffered
  \<^verbatim>\<open>md5_append\<close> and the padding of \<^verbatim>\<open>md5_finish\<close>. The state of \<^verbatim>\<open>md5.h\<close> is a record; the code reads a
  block as sixteen little-endian words on every machine. It is shown that the 64 unrolled
  operations are the loop of RFC 1321, that the buffered appending does not depend on how the
  message is cut into pieces, and that a digest is the chaining value of the padded message.
\<close>

section \<open>The block function\<close>

type_synonym md5_byte_t = u8
type_synonym md5_word_t = u32

record md5_state_t =
  count0 :: md5_word_t
  count1 :: md5_word_t
  abcd :: "md5_word_t \<times> md5_word_t \<times> md5_word_t \<times> md5_word_t"
  buf :: "md5_byte_t list"

definition T_MASK :: md5_word_t where
  "T_MASK = NOT 0"

definition md5_T :: "md5_word_t list" where
  "md5_T = [
    T_MASK XOR 0x28955b87, T_MASK XOR 0x173848a9, 0x242070db, T_MASK XOR 0x3e423111,
    T_MASK XOR 0x0a83f050, 0x4787c62a, T_MASK XOR 0x57cfb9ec, T_MASK XOR 0x02b96afe,
    0x698098d8, T_MASK XOR 0x74bb0850, T_MASK XOR 0x0000a44e, T_MASK XOR 0x76a32841,
    0x6b901122, T_MASK XOR 0x02678e6c, T_MASK XOR 0x5986bc71, 0x49b40821,
    T_MASK XOR 0x09e1da9d, T_MASK XOR 0x3fbf4cbf, 0x265e5a51, T_MASK XOR 0x16493855,
    T_MASK XOR 0x29d0efa2, 0x02441453, T_MASK XOR 0x275e197e, T_MASK XOR 0x182c0437,
    0x21e1cde6, T_MASK XOR 0x3cc8f829, T_MASK XOR 0x0b2af278, 0x455a14ed,
    T_MASK XOR 0x561c16fa, T_MASK XOR 0x03105c07, 0x676f02d9, T_MASK XOR 0x72d5b375,
    T_MASK XOR 0x0005c6bd, T_MASK XOR 0x788e097e, 0x6d9d6122, T_MASK XOR 0x021ac7f3,
    T_MASK XOR 0x5b4115bb, 0x4bdecfa9, T_MASK XOR 0x0944b49f, T_MASK XOR 0x4140438f,
    0x289b7ec6, T_MASK XOR 0x155ed805, T_MASK XOR 0x2b10cf7a, 0x04881d05,
    T_MASK XOR 0x262b2fc6, T_MASK XOR 0x1924661a, 0x1fa27cf8, T_MASK XOR 0x3b53a99a,
    T_MASK XOR 0x0bd6ddbb, 0x432aff97, T_MASK XOR 0x546bdc58, T_MASK XOR 0x036c5fc6,
    0x655b59c3, T_MASK XOR 0x70f3336d, T_MASK XOR 0x00100b82, T_MASK XOR 0x7a7ba22e,
    0x6fa87e4f, T_MASK XOR 0x01d3191f, T_MASK XOR 0x5cfebceb, 0x4e0811a1,
    T_MASK XOR 0x08ac817d, T_MASK XOR 0x42c50dca, 0x2ad7d2bb, T_MASK XOR 0x14792c6e]"

definition ROTATE_LEFT :: "md5_word_t \<Rightarrow> nat \<Rightarrow> md5_word_t" where
  "ROTATE_LEFT x n = push_bit n x OR drop_bit (32 - n) x"

definition md5_F :: "md5_word_t \<Rightarrow> md5_word_t \<Rightarrow> md5_word_t \<Rightarrow> md5_word_t" where
  "md5_F x y z = (x AND y) OR (NOT x AND z)"

definition md5_G :: "md5_word_t \<Rightarrow> md5_word_t \<Rightarrow> md5_word_t \<Rightarrow> md5_word_t" where
  "md5_G x y z = (x AND z) OR (y AND NOT z)"

definition md5_H :: "md5_word_t \<Rightarrow> md5_word_t \<Rightarrow> md5_word_t \<Rightarrow> md5_word_t" where
  "md5_H x y z = x XOR y XOR z"

definition md5_I :: "md5_word_t \<Rightarrow> md5_word_t \<Rightarrow> md5_word_t \<Rightarrow> md5_word_t" where
  "md5_I x y z = y XOR (x OR NOT z)"

text \<open>The register a \<^verbatim>\<open>SET\<close> assigns; the other three arguments of the macro follow from it, as they
  do in every line of the code.\<close>

datatype md5_reg = RA | RD | RC | RB

type_synonym md5_line = "md5_reg \<times> nat \<times> nat \<times> nat"

fun md5_SET ::
  "(md5_word_t \<Rightarrow> md5_word_t \<Rightarrow> md5_word_t \<Rightarrow> md5_word_t) \<Rightarrow> md5_word_t list \<Rightarrow> md5_line \<Rightarrow>
   md5_word_t \<times> md5_word_t \<times> md5_word_t \<times> md5_word_t \<Rightarrow> md5_word_t \<times> md5_word_t \<times> md5_word_t \<times> md5_word_t" where
  "md5_SET f X (RA, k, s, i) (a, b, c, d) =
    (ROTATE_LEFT (a + f b c d + X ! k + md5_T ! (i - 1)) s + b, b, c, d)"
| "md5_SET f X (RD, k, s, i) (a, b, c, d) =
    (a, b, c, ROTATE_LEFT (d + f a b c + X ! k + md5_T ! (i - 1)) s + a)"
| "md5_SET f X (RC, k, s, i) (a, b, c, d) =
    (a, b, ROTATE_LEFT (c + f d a b + X ! k + md5_T ! (i - 1)) s + d, d)"
| "md5_SET f X (RB, k, s, i) (a, b, c, d) =
    (a, ROTATE_LEFT (b + f c d a + X ! k + md5_T ! (i - 1)) s + c, c, d)"

definition md5_round1 :: "md5_line list" where
  "md5_round1 = [
    (RA, 0, 7, 1), (RD, 1, 12, 2), (RC, 2, 17, 3), (RB, 3, 22, 4),
    (RA, 4, 7, 5), (RD, 5, 12, 6), (RC, 6, 17, 7), (RB, 7, 22, 8),
    (RA, 8, 7, 9), (RD, 9, 12, 10), (RC, 10, 17, 11), (RB, 11, 22, 12),
    (RA, 12, 7, 13), (RD, 13, 12, 14), (RC, 14, 17, 15), (RB, 15, 22, 16)]"

definition md5_round2 :: "md5_line list" where
  "md5_round2 = [
    (RA, 1, 5, 17), (RD, 6, 9, 18), (RC, 11, 14, 19), (RB, 0, 20, 20),
    (RA, 5, 5, 21), (RD, 10, 9, 22), (RC, 15, 14, 23), (RB, 4, 20, 24),
    (RA, 9, 5, 25), (RD, 14, 9, 26), (RC, 3, 14, 27), (RB, 8, 20, 28),
    (RA, 13, 5, 29), (RD, 2, 9, 30), (RC, 7, 14, 31), (RB, 12, 20, 32)]"

definition md5_round3 :: "md5_line list" where
  "md5_round3 = [
    (RA, 5, 4, 33), (RD, 8, 11, 34), (RC, 11, 16, 35), (RB, 14, 23, 36),
    (RA, 1, 4, 37), (RD, 4, 11, 38), (RC, 7, 16, 39), (RB, 10, 23, 40),
    (RA, 13, 4, 41), (RD, 0, 11, 42), (RC, 3, 16, 43), (RB, 6, 23, 44),
    (RA, 9, 4, 45), (RD, 12, 11, 46), (RC, 15, 16, 47), (RB, 2, 23, 48)]"

definition md5_round4 :: "md5_line list" where
  "md5_round4 = [
    (RA, 0, 6, 49), (RD, 7, 10, 50), (RC, 14, 15, 51), (RB, 5, 21, 52),
    (RA, 12, 6, 53), (RD, 3, 10, 54), (RC, 10, 15, 55), (RB, 1, 21, 56),
    (RA, 8, 6, 57), (RD, 15, 10, 58), (RC, 6, 15, 59), (RB, 13, 21, 60),
    (RA, 4, 6, 61), (RD, 11, 10, 62), (RC, 2, 15, 63), (RB, 9, 21, 64)]"

definition le_word :: "md5_byte_t \<Rightarrow> md5_byte_t \<Rightarrow> md5_byte_t \<Rightarrow> md5_byte_t \<Rightarrow> md5_word_t" where
  "le_word b0 b1 b2 b3 = ucast b0 + push_bit 8 (ucast b1) + push_bit 16 (ucast b2) + push_bit 24 (ucast b3)"

fun md5_words :: "md5_byte_t list \<Rightarrow> md5_word_t list" where
  "md5_words (b0 # b1 # b2 # b3 # bs) = le_word b0 b1 b2 b3 # md5_words bs"
| "md5_words _ = []"

definition md5_process :: "md5_state_t \<Rightarrow> md5_byte_t list \<Rightarrow> md5_state_t" where
  "md5_process pms data =
    (let X = md5_words (take 64 data); r = abcd pms;
         r = fold (md5_SET md5_F X) md5_round1 r;
         r = fold (md5_SET md5_G X) md5_round2 r;
         r = fold (md5_SET md5_H X) md5_round3 r;
         r = fold (md5_SET md5_I X) md5_round4 r
     in case (abcd pms, r) of ((a0, b0, c0, d0), (a, b, c, d)) \<Rightarrow>
          pms\<lparr>abcd := (a0 + a, b0 + b, c0 + c, d0 + d)\<rparr>)"

section \<open>Appending and finishing\<close>

definition md5_init :: md5_state_t where
  "md5_init = \<lparr>count0 = 0, count1 = 0,
     abcd = (0x67452301, T_MASK XOR 0x10325476, T_MASK XOR 0x67452301, 0x10325476),
     buf = replicate 64 0\<rparr>"

text \<open>\<^verbatim>\<open>for (; left >= 64; p += 64, left -= 64) md5_process(pms, p);\<close> with the bytes that remain.\<close>

function md5_full_blocks :: "md5_state_t \<Rightarrow> md5_byte_t list \<Rightarrow> md5_state_t \<times> md5_byte_t list" where
  "md5_full_blocks pms p =
    (if 64 \<le> length p then md5_full_blocks (md5_process pms p) (drop 64 p) else (pms, p))"
  by auto
termination by (relation "measure (\<lambda>(_, p). length p)") auto

text \<open>\<^verbatim>\<open>memcpy(pms->buf + offset, p, n)\<close>\<close>

definition buf_write :: "nat \<Rightarrow> md5_byte_t list \<Rightarrow> md5_byte_t list \<Rightarrow> md5_byte_t list" where
  "buf_write offset p b = take offset b @ p @ drop (offset + length p) b"

text \<open>The update of the message length at the start of \<^verbatim>\<open>md5_append\<close>.\<close>

definition md5_count :: "md5_state_t \<Rightarrow> int \<Rightarrow> md5_state_t" where
  "md5_count pms nbytes =
    (let nbits = of_int (nbytes * 8);
         pms = pms\<lparr>count1 := count1 pms + of_int (nbytes div 2 ^ 29), count0 := count0 pms + nbits\<rparr>
     in if count0 pms < nbits then pms\<lparr>count1 := count1 pms + 1\<rparr> else pms)"

definition md5_append :: "md5_state_t \<Rightarrow> md5_byte_t list \<Rightarrow> int \<Rightarrow> md5_state_t" where
  "md5_append pms data nbytes =
    (let p = take (nat nbytes) data;
         offset = unat (drop_bit 3 (count0 pms) AND 63)
     in if nbytes \<le> 0 then pms
        else
          (let pms = md5_count pms nbytes;
               copy = (if int offset + nbytes > 64 then 64 - offset else nat nbytes)
           in if offset \<noteq> 0 \<and> offset + copy < 64 then pms\<lparr>buf := buf_write offset (take copy p) (buf pms)\<rparr>
              else
                (let (pms, p) =
                   (if offset \<noteq> 0 then
                      (let pms = pms\<lparr>buf := buf_write offset (take copy p) (buf pms)\<rparr>
                       in (md5_process pms (buf pms), drop copy p))
                    else (pms, p))
                 in case md5_full_blocks pms p of (pms, p) \<Rightarrow>
                      if p \<noteq> [] then pms\<lparr>buf := buf_write 0 p (buf pms)\<rparr> else pms)))"

definition md5_pad :: "md5_byte_t list" where
  "md5_pad = 0x80 # replicate 63 0"

text \<open>\<^verbatim>\<open>(md5_byte_t)(w >> ((i & 3) << 3))\<close> for the four bytes of a word.\<close>

definition le_bytes :: "md5_word_t \<Rightarrow> md5_byte_t list" where
  "le_bytes w = map (\<lambda>i. ucast (drop_bit (8 * i) w)) [0 ..< 4]"

definition md5_finish :: "md5_state_t \<Rightarrow> md5_byte_t list" where
  "md5_finish pms =
    (let data = le_bytes (count0 pms) @ le_bytes (count1 pms);
         pms = md5_append pms md5_pad (uint (55 - drop_bit 3 (count0 pms) AND 63) + 1);
         pms = md5_append pms data 8
     in case abcd pms of (a, b, c, d) \<Rightarrow> le_bytes a @ le_bytes b @ le_bytes c @ le_bytes d)"

section \<open>The unrolled operations are the loop of RFC 1321\<close>

type_synonym md5_regs = "md5_word_t \<times> md5_word_t \<times> md5_word_t \<times> md5_word_t"

text \<open>One iteration of the loop, which rotates the registers instead of naming another one.\<close>

fun rfc_step :: "md5_word_t list \<Rightarrow> nat \<Rightarrow> md5_regs \<Rightarrow> md5_regs" where
  "rfc_step X i (a, b, c, d) =
    (let f = (if i < 16 then md5_F else if i < 32 then md5_G else if i < 48 then md5_H else md5_I) b c d;
         k = (if i < 16 then i else if i < 32 then (5 * i + 1) mod 16 else if i < 48 then (3 * i + 5) mod 16
              else (7 * i) mod 16);
         s = (if i < 16 then [7, 12, 17, 22] else if i < 32 then [5, 9, 14, 20]
              else if i < 48 then [4, 11, 16, 23] else [6, 10, 15, 21]) ! (i mod 4)
     in (d, ROTATE_LEFT (a + f + X ! k + md5_T ! i) s + b, b, c))"

definition rfc_block :: "md5_byte_t list \<Rightarrow> md5_regs \<Rightarrow> md5_regs" where
  "rfc_block block r =
    (case (r, fold (rfc_step (md5_words block)) [0 ..< 64] r) of
       ((a0, b0, c0, d0), (a, b, c, d)) \<Rightarrow> (a0 + a, b0 + b, c0 + c, d0 + d))"

text \<open>Four lines of the code are four iterations.\<close>

lemma SET_quad:
  "md5_SET f X (RB, k4, s4, i4) (md5_SET f X (RC, k3, s3, i3) (md5_SET f X (RD, k2, s2, i2) (md5_SET f X (RA, k1, s1, i1) r))) =
    (\<lambda>(a, b, c, d). (d, ROTATE_LEFT (a + f b c d + X ! k4 + md5_T ! (i4 - 1)) s4 + b, b, c))
    ((\<lambda>(a, b, c, d). (d, ROTATE_LEFT (a + f b c d + X ! k3 + md5_T ! (i3 - 1)) s3 + b, b, c))
    ((\<lambda>(a, b, c, d). (d, ROTATE_LEFT (a + f b c d + X ! k2 + md5_T ! (i2 - 1)) s2 + b, b, c))
    ((\<lambda>(a, b, c, d). (d, ROTATE_LEFT (a + f b c d + X ! k1 + md5_T ! (i1 - 1)) s1 + b, b, c)) r)))"
  by (cases r) simp

lemma rfc_step_round:
  "i < 16 \<Longrightarrow> rfc_step X i = (\<lambda>(a, b, c, d). (d, ROTATE_LEFT (a + md5_F b c d + X ! i + md5_T ! i) ([7, 12, 17, 22] ! (i mod 4)) + b, b, c))"
  "16 \<le> i \<Longrightarrow> i < 32 \<Longrightarrow> rfc_step X i = (\<lambda>(a, b, c, d). (d, ROTATE_LEFT (a + md5_G b c d + X ! ((5 * i + 1) mod 16) + md5_T ! i) ([5, 9, 14, 20] ! (i mod 4)) + b, b, c))"
  "32 \<le> i \<Longrightarrow> i < 48 \<Longrightarrow> rfc_step X i = (\<lambda>(a, b, c, d). (d, ROTATE_LEFT (a + md5_H b c d + X ! ((3 * i + 5) mod 16) + md5_T ! i) ([4, 11, 16, 23] ! (i mod 4)) + b, b, c))"
  "48 \<le> i \<Longrightarrow> rfc_step X i = (\<lambda>(a, b, c, d). (d, ROTATE_LEFT (a + md5_I b c d + X ! ((7 * i) mod 16) + md5_T ! i) ([6, 10, 15, 21] ! (i mod 4)) + b, b, c))"
  by (auto simp: fun_eq_iff Let_def)

lemma upt_16: "[n ..< n + 16] =
    [n, n + 1, n + 2, n + 3, n + 4, n + 5, n + 6, n + 7, n + 8, n + 9, n + 10, n + 11, n + 12, n + 13, n + 14, n + 15]"
  by (simp add: upt_conv_Cons)

lemma round1_loop: "fold (md5_SET md5_F X) md5_round1 r = fold (rfc_step X) [0 ..< 16] r"
  unfolding upt_16 [of 0, unfolded add_0]
  by (simp add: md5_round1_def SET_quad rfc_step_round numeral_2_eq_2 [symmetric] del: md5_SET.simps rfc_step.simps)

lemma round2_loop: "fold (md5_SET md5_G X) md5_round2 r = fold (rfc_step X) [16 ..< 32] r"
  using upt_16 [of 16] by (simp add: md5_round2_def SET_quad rfc_step_round del: md5_SET.simps rfc_step.simps)

lemma round3_loop: "fold (md5_SET md5_H X) md5_round3 r = fold (rfc_step X) [32 ..< 48] r"
  using upt_16 [of 32] by (simp add: md5_round3_def SET_quad rfc_step_round del: md5_SET.simps rfc_step.simps)

lemma round4_loop: "fold (md5_SET md5_I X) md5_round4 r = fold (rfc_step X) [48 ..< 64] r"
  using upt_16 [of 48] by (simp add: md5_round4_def SET_quad rfc_step_round del: md5_SET.simps rfc_step.simps)

lemma md5_process_loop: "md5_process pms data = pms\<lparr>abcd := rfc_block (take 64 data) (abcd pms)\<rparr>"
proof -
  have "[0 ..< 64] = [0 ..< 16] @ [16 ..< 32] @ [32 ..< 48] @ [48 ..< 64]" by (simp add: upt_conv_Cons)
  then show ?thesis
    by (simp add: md5_process_def rfc_block_def round1_loop round2_loop round3_loop round4_loop Let_def
      split: prod.splits)
qed

section \<open>Chaining\<close>

text \<open>The chaining value after the full blocks of a message, and the bytes left over.\<close>

function chain :: "md5_regs \<Rightarrow> md5_byte_t list \<Rightarrow> md5_regs" where
  "chain r m = (if 64 \<le> length m then chain (rfc_block (take 64 m) r) (drop 64 m) else r)"
  by auto
termination by (relation "measure (\<lambda>(_, m). length m)") auto

declare chain.simps [simp del] md5_full_blocks.simps [simp del]

definition leftover :: "md5_byte_t list \<Rightarrow> md5_byte_t list" where
  "leftover m = drop (64 * (length m div 64)) m"

lemma length_leftover [simp]: "length (leftover m) = length m mod 64"
  by (simp add: leftover_def minus_mult_div_eq_mod)

lemma leftover_short [simp]: "length m < 64 \<Longrightarrow> leftover m = m"
  by (simp add: leftover_def)

lemma leftover_drop: "64 \<le> length m \<Longrightarrow> leftover (drop 64 m) = leftover m"
  using div_add_self1 [of 64 "length m - 64"] by (simp add: leftover_def add.commute)

lemma chain_short [simp]: "length m < 64 \<Longrightarrow> chain r m = r"
  by (simp add: chain.simps [of r m])

lemma chain_block: "64 \<le> length m \<Longrightarrow> chain r m = chain (rfc_block (take 64 m) r) (drop 64 m)"
  by (simp add: chain.simps [of r m])

lemma chain_append: "chain r (m @ p) = chain (chain r m) (leftover m @ p)"
  and leftover_append: "leftover (m @ p) = leftover (leftover m @ p)"
proof (induction r m rule: chain.induct)
  case (1 r m)
  show "chain r (m @ p) = chain (chain r m) (leftover m @ p)"
    using 1 by (cases "64 \<le> length m") (simp_all add: chain_block leftover_drop)
  show "leftover (m @ p) = leftover (leftover m @ p)"
    using 1(2) leftover_drop [of "m @ p"] by (cases "64 \<le> length m") (simp_all add: leftover_drop)
qed

lemma md5_full_blocks_chain: "md5_full_blocks pms p = (pms\<lparr>abcd := chain (abcd pms) p\<rparr>, leftover p)"
proof (induction pms p rule: md5_full_blocks.induct)
  case (1 pms p)
  then show ?case
    by (subst md5_full_blocks.simps) (simp add: md5_process_loop chain_block leftover_drop)
qed

section \<open>The state represents the message so far\<close>

definition md5_rep :: "md5_state_t \<Rightarrow> md5_byte_t list \<Rightarrow> bool" where
  "md5_rep pms m \<longleftrightarrow> count0 pms = of_nat (8 * length m) \<and> count1 pms = of_nat (8 * length m div 2 ^ 32) \<and>
    abcd pms = chain (abcd md5_init) m \<and> length (buf pms) = 64 \<and>
    take (length m mod 64) (buf pms) = leftover m"

lemma md5_rep_init: "md5_rep md5_init []"
  by (simp add: md5_rep_def md5_init_def)

text \<open>The buffer offset the code computes from the bit counter.\<close>

lemma offset_bytes: "unat (drop_bit 3 (of_nat (8 * n) :: u32) AND 63) = n mod 64"
proof -
  have "drop_bit 3 (of_nat (8 * n) :: u32) AND 63 = take_bit 6 (drop_bit 3 (of_nat (8 * n) :: u32))"
    by (simp add: take_bit_eq_mask mask_eq_exp_minus_1)
  also have "unat \<dots> = take_bit 6 (drop_bit 3 (take_bit 32 (8 * n)))"
    by (simp add: unsigned_take_bit_eq unsigned_drop_bit_eq unsigned_of_nat del: of_nat_mult)
  also have "\<dots> = n mod 64"
    by (simp add: take_bit_drop_bit [symmetric] drop_bit_take_bit take_bit_take_bit)
      (simp add: take_bit_eq_mod drop_bit_eq_div)
  finally show ?thesis .
qed

text \<open>Adding the bits of \<open>n\<close> bytes to the two halves of the counter, with its carry.\<close>

lemma count_carry:
  fixes b n :: nat
  defines "x \<equiv> of_nat b :: u32" and "y \<equiv> of_nat (8 * n) :: u32"
  shows "of_nat (b div 2 ^ 32) + of_nat (n div 2 ^ 29) + (if x + y < y then 1 else 0) = (of_nat ((b + 8 * n) div 2 ^ 32) :: u32)"
proof -
  have ux: "unat x = b mod 2 ^ 32" and uy: "unat y = 8 * n mod 2 ^ 32"
    by (simp_all add: x_def y_def unat_of_nat del: of_nat_mult)
  have lt: "unat x < 2 ^ 32" "unat y < 2 ^ 32" using unsigned_less [of x] unsigned_less [of y] by simp_all
  have "x + y < y \<longleftrightarrow> 2 ^ 32 \<le> unat x + unat y"
  proof (cases "2 ^ 32 \<le> unat x + unat y")
    case True
    then have "(unat x + unat y) mod 2 ^ 32 = unat x + unat y - 2 ^ 32" using lt by (subst le_mod_geq) simp_all
    then show ?thesis using True lt by (simp add: word_less_nat_alt unat_word_ariths)
  next
    case False
    then show ?thesis by (simp add: word_less_nat_alt unat_word_ariths)
  qed
  moreover have "(b + 8 * n) div 2 ^ 32 = b div 2 ^ 32 + 8 * n div 2 ^ 32 + (unat x + unat y) div 2 ^ 32"
    unfolding ux uy by (rule div_add1_eq)
  moreover have "(unat x + unat y) div 2 ^ 32 = (if 2 ^ 32 \<le> unat x + unat y then 1 else 0)"
    using lt by (auto intro: div_nat_eqI)
  moreover have "8 * n div 2 ^ 32 = n div 2 ^ 29" using div_mult_mult1 [of "8 :: nat" n "2 ^ 29"] by simp
  ultimately show ?thesis by simp
qed

lemma buf_write_start:
  assumes "length b = 64" "length t < 64"
  shows "length (buf_write 0 t b) = 64" "take (length t) (buf_write 0 t b) = t"
  using assms by (simp_all add: buf_write_def)

lemma md5_append_rep:
  assumes rep: "md5_rep pms m" and n: "0 \<le> nbytes" "nat nbytes \<le> length data"
  shows "md5_rep (md5_append pms data nbytes) (m @ take (nat nbytes) data)"
proof (cases "nbytes = 0")
  case True
  then show ?thesis using rep by (simp add: md5_append_def)
next
  case False
  define p where "p = take (nat nbytes) data"
  define o0 where "o0 = length m mod 64"
  define copy where "copy = (if int o0 + nbytes > 64 then 64 - o0 else nat nbytes)"
  define q where "q = md5_count pms nbytes"
  have lp: "length p = nat nbytes" "p \<noteq> []" using n False by (auto simp: p_def)
  have r: "abcd pms = chain (abcd md5_init) m" "length (buf pms) = 64" "take o0 (buf pms) = leftover m"
    and o0: "o0 < 64" "length (leftover m) = o0" using rep by (auto simp: md5_rep_def o0_def)
  have off: "unat (drop_bit 3 (count0 pms) AND 63) = o0"
    using rep offset_bytes [of "length m"] by (simp add: md5_rep_def o0_def)
  have nb: "(of_int (nbytes * 8) :: u32) = of_nat (8 * length p)" "(of_int (nbytes div 2 ^ 29) :: u32) = of_nat (length p div 2 ^ 29)"
    using lp(1) n(1) by (simp_all add: nat_eq_iff2 [of _ nbytes]) (metis nat_eq_iff of_int_of_nat_eq of_nat_div of_nat_numeral)
  have q: "count0 q = count0 pms + of_nat (8 * length p)" "abcd q = abcd pms" "buf q = buf pms"
    "count1 q = count1 pms + of_nat (length p div 2 ^ 29) +
      (if count0 pms + of_nat (8 * length p) < of_nat (8 * length p) then 1 else 0)"
    unfolding q_def md5_count_def nb by (simp_all add: Let_def)
  have c: "count0 q = of_nat (8 * length (m @ p))" "count1 q = of_nat (8 * length (m @ p) div 2 ^ 32)"
    using rep count_carry [of "8 * length m" "length p"] unfolding q md5_rep_def
    by (simp_all only: length_append add_mult_distrib2 of_nat_add)
  have cut: "md5_append pms data nbytes =
    (if o0 \<noteq> 0 \<and> o0 + copy < 64 then q\<lparr>buf := buf_write o0 (take copy p) (buf q)\<rparr>
     else
       (let (pms, p) =
          (if o0 \<noteq> 0 then
             (let pms = q\<lparr>buf := buf_write o0 (take copy p) (buf q)\<rparr>
              in (md5_process pms (buf pms), drop copy p))
           else (q, p))
        in case md5_full_blocks pms p of (pms, p) \<Rightarrow>
             if p \<noteq> [] then pms\<lparr>buf := buf_write 0 p (buf pms)\<rparr> else pms))"
    using n(1) False
    by (simp add: md5_append_def off p_def [symmetric] copy_def [symmetric] q_def [symmetric] Let_def)
  consider (aligned) "o0 = 0" | (within) "o0 \<noteq> 0" "o0 + length p < 64" | (over) "o0 \<noteq> 0" "64 \<le> o0 + length p"
    by linarith
  then have "md5_rep (md5_append pms data nbytes) (m @ p)"
  proof cases
    case aligned
    then have "leftover m = []" using o0(2) by (simp only: length_0_conv)
    then show ?thesis
      unfolding cut using aligned c q(2,3) r chain_append [of "abcd md5_init" m p] leftover_append [of m p]
        length_leftover [of "m @ p"] length_leftover [of p]
      by (auto simp: Let_def md5_full_blocks_chain md5_rep_def buf_write_def simp del: length_leftover)
  next
    case within
    then have "copy = length p" "o0 + copy < 64" using lp(1) by (auto simp: copy_def)
    then show ?thesis
      unfolding cut using within c q(2,3) r o0 chain_append [of "abcd md5_init" m p] leftover_append [of m p]
        length_leftover [of "m @ p"]
      by (auto simp: Let_def md5_rep_def buf_write_def)
  next
    case over
    have k: "copy = 64 - o0" "copy \<le> length p" "o0 + copy = 64" using over lp(1) o0(1) n(1) by (auto simp: copy_def)
    define blk where "blk = leftover m @ take copy p"
    have b: "buf_write o0 (take copy p) (buf pms) = blk" "length blk = 64"
      using k r(2,3) o0(2) by (auto simp: buf_write_def blk_def)
    have "take 64 (leftover m @ p) = blk" "drop 64 (leftover m @ p) = drop copy p" using k o0 by (auto simp: blk_def)
    then have "chain (abcd md5_init) (m @ p) = chain (rfc_block blk (abcd pms)) (drop copy p)"
      "leftover (m @ p) = leftover (drop copy p)"
      using chain_append [of "abcd md5_init" m p] leftover_append [of m p] chain_block [of "leftover m @ p"]
        leftover_drop [of "leftover m @ p"] r(1) over o0(2) by auto
    moreover define t where "t = leftover (drop copy p)"
    moreover have "length t < 64" unfolding t_def by simp
    moreover have "md5_append pms data nbytes =
        (if t \<noteq> [] then q\<lparr>abcd := chain (rfc_block blk (abcd pms)) (drop copy p), buf := buf_write 0 t blk\<rparr>
         else q\<lparr>buf := blk, abcd := chain (rfc_block blk (abcd pms)) (drop copy p)\<rparr>)"
      unfolding cut using over(1) k(3) b q(2,3) by (simp add: md5_process_loop md5_full_blocks_chain Let_def t_def)
    moreover have "length (leftover (m @ p)) = length (m @ p) mod 64" by (rule length_leftover)
    ultimately show ?thesis
      using c b(2) buf_write_start [of blk t]
      by (cases "t = []") (simp_all add: md5_rep_def del: length_leftover length_append)
  qed
  then show ?thesis by (simp add: p_def)
qed

section \<open>Digests\<close>

text \<open>The padded message of RFC 1321: a bit 1, zeros up to 56 bytes modulo 64, the length in bits.\<close>

definition md5_padding :: "nat \<Rightarrow> md5_byte_t list" where
  "md5_padding n = 0x80 # replicate ((119 - n mod 64) mod 64) 0 @
    le_bytes (of_nat (8 * n)) @ le_bytes (of_nat (8 * n div 2 ^ 32))"

definition rfc_md5 :: "md5_byte_t list \<Rightarrow> md5_byte_t list" where
  "rfc_md5 m = (case chain (abcd md5_init) (m @ md5_padding (length m)) of
    (a, b, c, d) \<Rightarrow> le_bytes a @ le_bytes b @ le_bytes c @ le_bytes d)"

lemma length_le_bytes [simp]: "length (le_bytes w) = 4"
  by (simp add: le_bytes_def)

lemma pad_length: "uint (55 - drop_bit 3 (of_nat (8 * n) :: u32) AND 63) = int ((119 - n mod 64) mod 64)"
proof -
  let ?w = "drop_bit 3 (of_nat (8 * n) :: u32)"
  have w: "uint (take_bit 6 ?w) = int (n mod 64)"
  proof -
    have "take_bit 6 ?w = ?w AND 63" by (simp add: take_bit_eq_mask mask_eq_exp_minus_1)
    then show ?thesis by (simp only: uint_nat offset_bytes)
  qed
  have "uint (55 - ?w AND 63) = take_bit 6 (uint (55 - ?w))"
    by (simp add: unsigned_take_bit_eq flip: take_bit_eq_mask [of 6 "55 - ?w", simplified mask_eq_exp_minus_1, simplified])
  also have "\<dots> = take_bit 6 (55 - uint ?w)"
    by (simp add: uint_word_ariths take_bit_eq_mod mod_mod_cancel)
  also have "\<dots> = (55 - uint (take_bit 6 ?w)) mod 64"
    by (subst unsigned_take_bit_eq) (simp add: take_bit_eq_mod mod_diff_right_eq)
  also have "\<dots> = int ((119 - n mod 64) mod 64)"
  proof -
    define r where "r = n mod 64"
    have "r < 64" by (simp add: r_def)
    then have "int ((119 - r) mod 64) = ((55 - int r) + 64) mod 64" by (simp add: zmod_int of_nat_diff)
    also have "\<dots> = (55 - int r) mod 64" by (rule mod_add_self2)
    finally show ?thesis unfolding w r_def [symmetric] by simp
  qed
  finally show ?thesis .
qed

lemma md5_finish_rep:
  assumes "md5_rep pms m"
  shows "md5_finish pms = rfc_md5 m"
proof -
  let ?k = "uint (55 - drop_bit 3 (count0 pms) AND 63) + 1"
  let ?data = "le_bytes (count0 pms) @ le_bytes (count1 pms)"
  let ?z = "(119 - length m mod 64) mod 64"
  have c: "count0 pms = of_nat (8 * length m)" "count1 pms = of_nat (8 * length m div 2 ^ 32)"
    using assms by (simp_all add: md5_rep_def)
  have k: "nat ?k = Suc ?z" "0 \<le> ?k" unfolding c pad_length by simp_all
  have "nat ?k \<le> length md5_pad" unfolding k by (simp add: md5_pad_def Suc_le_eq)
  from md5_append_rep [OF assms k(2) this]
  have r1: "md5_rep (md5_append pms md5_pad ?k) (m @ 0x80 # replicate ?z 0)"
    using mod_less_divisor [of 64 "119 - length m mod 64"] unfolding k by (simp add: md5_pad_def min_absorb1)
  from md5_append_rep [OF r1, of 8 ?data]
  have "md5_rep (md5_append (md5_append pms md5_pad ?k) ?data 8) (m @ md5_padding (length m))"
    by (simp add: md5_padding_def c)
  then show ?thesis by (simp add: md5_finish_def rfc_md5_def md5_rep_def Let_def)
qed

text \<open>A message appended piece by piece.\<close>

fun md5_appends :: "md5_state_t \<Rightarrow> md5_byte_t list list \<Rightarrow> md5_state_t" where
  "md5_appends pms [] = pms"
| "md5_appends pms (p # ps) = md5_appends (md5_append pms p (int (length p))) ps"

lemma md5_appends_rep: "md5_rep pms m \<Longrightarrow> md5_rep (md5_appends pms ps) (m @ concat ps)"
proof (induction ps arbitrary: pms m)
  case (Cons p ps)
  have "md5_rep (md5_append pms p (int (length p))) (m @ p)"
    using md5_append_rep [OF Cons.prems, of "int (length p)" p] by simp
  from Cons.IH [OF this] show ?case by simp
qed simp


text \<open>
  The test vector \<open>abc\<close> of RFC 1321.
\<close>

theorem md5_abc:
  "md5_finish (md5_append md5_init [0x61, 0x62, 0x63] 3) =
    [0x90, 0x01, 0x50, 0x98, 0x3c, 0xd2, 0x4f, 0xb0, 0xd6, 0x96, 0x3f, 0x7d, 0x28, 0xe1, 0x7f, 0x72]"
  by code_simp

end
