(* ===== verification/Ieee.thy ===== *)
theory Ieee
  imports Prelude Complex_Main
begin

text \<open>
  Rounding of a positive rational to a binary floating point format with \<open>p\<close> bits of significand,
  to nearest with ties to even: \<open>p = 53\<close> for \<^verbatim>\<open>double\<close> and \<open>p = 24\<close> for \<^verbatim>\<open>float\<close>. The values the
  code computes stay in the normal range of the formats, so exponents are not bounded. The lemmas
  bound the error of a rounding and show that a value close to an integer rounds to it.
\<close>

function expo :: "rat \<Rightarrow> int" where
  "expo x = (if x \<le> 0 then 0 else if x < 1 then expo (2 * x) - 1 else if 2 \<le> x then expo (x / 2) + 1 else 0)"
  by auto
termination
proof (relation "measure (\<lambda>x. nat (if x < 1 then \<lceil>1 / x\<rceil> else \<lfloor>x\<rfloor>))", simp, goal_cases)
  case (1 x)
  then have "1 < 1 / x" by simp
  then have two: "2 \<le> \<lceil>1 / x\<rceil>" by linarith
  have "(if 2 * x < 1 then \<lceil>1 / (2 * x)\<rceil> else \<lfloor>2 * x\<rfloor>) < \<lceil>1 / x\<rceil>"
  proof (cases "2 * x < 1")
    case True
    have "1 / (2 * x) = (1 / x) / 2" by simp
    moreover have "2 < 1 / x" using True 1 by (simp add: field_simps)
    ultimately have "\<lceil>1 / (2 * x)\<rceil> < \<lceil>1 / x\<rceil>" by linarith
    then show ?thesis using True by (simp only: if_True)
  next
    case False
    have "\<lfloor>2 * x\<rfloor> \<le> 1" using 1 by linarith
    then have "\<lfloor>2 * x\<rfloor> < \<lceil>1 / x\<rceil>" using two by linarith
    then show ?thesis using False by (simp only: if_False)
  qed
  moreover have "0 < \<lceil>1 / x\<rceil>" using two by linarith
  ultimately show ?case using 1 by (simp only: in_measure nat_less_eq_zless zless_nat_conj if_True)
next
  case (2 x)
  then have "\<lfloor>x / 2\<rfloor> < \<lfloor>x\<rfloor>" "1 \<le> x / 2" by linarith+
  then show ?case using 2 by auto
qed

declare expo.simps [simp del]

definition half_even :: "rat \<Rightarrow> int" where
  "half_even y = (let f = \<lfloor>y\<rfloor> in
     if y - of_int f < 1 / 2 then f else if 1 / 2 < y - of_int f then f + 1 else if even f then f else f + 1)"

definition rnd :: "nat \<Rightarrow> rat \<Rightarrow> rat" where
  "rnd p x = (if x \<le> 0 then 0 else let u = 2 powi (expo x + 1 - int p) in of_int (half_even (x / u)) * u)"

abbreviation to_double :: "rat \<Rightarrow> rat" where "to_double \<equiv> rnd 53"
abbreviation to_float :: "rat \<Rightarrow> rat" where "to_float \<equiv> rnd 24"

lemma expo_bounds: "0 < x \<Longrightarrow> 2 powi expo x \<le> x \<and> x < 2 * 2 powi expo x"
proof (induction x rule: expo.induct)
  case (1 x)
  consider "x < 1" | "2 \<le> x" | "1 \<le> x" "x < 2" by linarith
  then show ?case
  proof cases
    case 1
    then have "2 powi expo (2 * x) \<le> 2 * x" "2 * x < 2 * 2 powi expo (2 * x)" using "1.IH"(1) "1.prems" by auto
    moreover have "expo x = expo (2 * x) - 1" using 1 "1.prems" by (subst expo.simps) simp
    then have "2 powi expo x = (2 powi expo (2 * x) :: rat) / 2" by (simp add: power_int_diff)
    ultimately show ?thesis by simp
  next
    case 2
    then have "2 powi expo (x / 2) \<le> x / 2" "x / 2 < 2 * 2 powi expo (x / 2)" using "1.IH"(2) "1.prems" by auto
    moreover have "expo x = expo (x / 2) + 1" using 2 "1.prems" by (subst expo.simps) simp
    then have "2 powi expo x = (2 powi expo (x / 2) :: rat) * 2" by (simp add: power_int_add)
    ultimately show ?thesis by simp
  next
    case 3
    then have "expo x = 0" by (subst expo.simps) simp
    then show ?thesis using 3 by simp
  qed
qed

lemma powi_less: "(2 :: rat) powi a < 2 powi b \<Longrightarrow> a < b"
  using power_int_increasing [of b a "2 :: rat"] by (cases "a < b") auto

lemma expo_unique: "2 powi e \<le> x \<Longrightarrow> x < 2 * 2 powi e \<Longrightarrow> expo x = e"
proof -
  assume a: "2 powi e \<le> x" "x < 2 * 2 powi e"
  have "0 < (2 powi e :: rat)" by simp
  then have "0 < x" using a by linarith
  note b = expo_bounds [OF this]
  have "(2 :: rat) * 2 powi k = 2 powi (k + 1)" for k by (simp add: power_int_add)
  then have "(2 :: rat) powi expo x < 2 powi (e + 1)" "(2 :: rat) powi e < 2 powi (expo x + 1)"
    using a b by (metis le_less_trans)+
  then have "expo x < e + 1" "e < expo x + 1" by (blast intro: powi_less)+
  then show "expo x = e" by linarith
qed

lemma half_even_err: "\<bar>of_int (half_even y) - y\<bar> \<le> 1 / 2"
proof -
  have "of_int \<lfloor>y\<rfloor> \<le> y" "y < of_int \<lfloor>y\<rfloor> + 1" by linarith+
  then show ?thesis unfolding half_even_def Let_def abs_le_iff
    by (simp only: of_int_add of_int_1 split: if_split) linarith
qed

lemma half_even_near: "\<bar>y - of_int k\<bar> < 1 / 2 \<Longrightarrow> half_even y = k"
proof -
  assume "\<bar>y - of_int k\<bar> < 1 / 2"
  then have "y - of_int k < 1 / 2" "of_int k - y < 1 / 2" by linarith+
  moreover have "of_int (half_even y) - y \<le> 1 / 2" "y - of_int (half_even y) \<le> 1 / 2"
    using half_even_err [of y] by linarith+
  ultimately show ?thesis by linarith
qed

lemma half_even_int [simp]: "half_even (of_int k) = k"
  by (rule half_even_near) simp

text \<open>The relative error of a rounding is at most half a unit in the last place.\<close>

lemma rnd_err:
  assumes "0 < x"
  shows "\<bar>rnd p x - x\<bar> \<le> x / 2 ^ p"
proof -
  define u :: rat where "u = 2 powi (expo x + 1 - int p)"
  have u: "0 < u" by (simp add: u_def)
  have "rnd p x = of_int (half_even (x / u)) * u" using assms by (simp add: rnd_def u_def Let_def)
  then have "rnd p x - x = (of_int (half_even (x / u)) - x / u) * u" using u by (simp add: left_diff_distrib)
  then have "\<bar>rnd p x - x\<bar> = \<bar>of_int (half_even (x / u)) - x / u\<bar> * u" using u by (simp add: abs_mult)
  also have "\<dots> \<le> 1 / 2 * u" using u half_even_err by (intro mult_right_mono) auto
  also have "\<dots> = 2 powi expo x / 2 ^ p"
    by (simp add: u_def power_int_diff power_int_add)
  also have "\<dots> \<le> x / 2 ^ p" using expo_bounds [OF assms] by (simp add: divide_right_mono)
  finally show ?thesis .
qed

lemma rnd_nonneg: "0 \<le> rnd p x"
proof (cases "x \<le> 0")
  case False
  have "x / 2 ^ p \<le> x" using False by (simp add: divide_le_eq mult_le_cancel_left1)
  then show ?thesis using rnd_err [of x p] False by linarith
qed (simp add: rnd_def)

text \<open>An integer of at most \<open>p\<close> bits is represented exactly.\<close>

lemma rnd_int:
  assumes "k < 2 ^ p"
  shows "rnd p (of_nat k) = of_nat k"
proof (cases "k = 0")
  case False
  let ?e = "expo (of_nat k)"
  have "0 < (of_nat k :: rat)" using False by simp
  note b = expo_bounds [OF this]
  have "(2 :: rat) powi ?e < 2 powi int p"
    using b assms by (metis le_less_trans of_nat_less_iff of_nat_numeral of_nat_power power_int_of_nat)
  then have "?e < int p" by (rule powi_less)
  define d where "d = nat (int p - 1 - ?e)"
  have "?e + 1 - int p = - int d" using \<open>?e < int p\<close> by (simp add: d_def)
  then have "(2 :: rat) powi (?e + 1 - int p) = 1 / 2 ^ d" by (simp only: power_int_minus) (simp add: field_simps)
  then have "rnd p (of_nat k) = of_int (half_even (of_nat k * 2 ^ d)) / 2 ^ d"
    using False by (simp only: rnd_def Let_def) simp
  also have "of_nat k * 2 ^ d = (of_int (int k * 2 ^ d) :: rat)" by simp
  finally show ?thesis unfolding half_even_int by simp
qed (simp add: rnd_def)

text \<open>A product of a rounded value keeps the value up to a little more than the two errors.\<close>

lemma rnd_mult_near:
  assumes "\<bar>x - y\<bar> \<le> y * d" "0 < y" "0 \<le> d" "d \<le> 1 / 2" "0 < c"
  shows "\<bar>rnd p (x * c) - y * c\<bar> \<le> y * c * (d + 2 / 2 ^ p)"
proof -
  have "y * d \<le> y * (1 / 2)" using assms by (intro mult_left_mono) auto
  then have x: "0 < x" "x \<le> 2 * y" using assms(1,2) by linarith+
  have "\<bar>rnd p (x * c) - x * c\<bar> \<le> x * c / 2 ^ p" using x(1) assms(5) by (intro rnd_err) simp
  also have "\<dots> \<le> y * c * (2 / 2 ^ p)" using x assms(5) by (simp add: divide_right_mono mult_right_mono)
  finally have a: "\<bar>rnd p (x * c) - x * c\<bar> \<le> y * c * (2 / 2 ^ p)" .
  have "\<bar>x * c - y * c\<bar> = \<bar>x - y\<bar> * c" using assms(5) by (simp add: abs_mult flip: left_diff_distrib)
  also have "\<dots> \<le> y * d * c" using assms(1,5) by (simp add: mult_right_mono)
  finally have b: "\<bar>x * c - y * c\<bar> \<le> y * c * d" by (simp add: mult.assoc mult.commute mult.left_commute)
  have "\<bar>rnd p (x * c) - y * c\<bar> \<le> y * c * d + y * c * (2 / 2 ^ p)" using a b by linarith
  then show ?thesis by (simp only: distrib_left)
qed

lemma to_float_near_40:
  assumes "\<bar>x - 40\<bar> < 1 / 2 ^ 20"
  shows "to_float x = 40"
proof -
  have p: "(2 :: rat) powi 5 = 32" by simp
  have x: "40 - 1 / 2 ^ 20 < x" "x < 40 + 1 / 2 ^ 20" using assms by linarith+
  have "expo x = 5" using x by (intro expo_unique) (simp_all add: p)
  then have "2 powi (expo x + 1 - int 24) = (1 / 2 ^ 18 :: rat)" by (simp add: power_int_def power_divide)
  moreover have "half_even (x / (1 / 2 ^ 18)) = 40 * 2 ^ 18"
    using x by (intro half_even_near) (simp add: abs_if)
  ultimately have "rnd 24 x = of_int (40 * 2 ^ 18) * (1 / 2 ^ 18)"
    using x(1) by (simp only: rnd_def Let_def) (simp split: if_splits)
  then show ?thesis by simp
qed

text \<open>Rounding a quotient of integers below \<open>2 ^ 53\<close> to \<^verbatim>\<open>double\<close> does not change its ceiling.\<close>

lemma ceiling_to_double_div:
  assumes "0 < k" "n < 2 ^ 53"
  shows "\<lceil>to_double (of_nat n / of_nat k)\<rceil> = \<lceil>of_nat n / of_nat k :: rat\<rceil>"
proof (cases "k dvd n")
  case True
  then obtain m where m: "n = k * m" by auto
  then have "m < 2 ^ 53" using assms by (metis le_less_trans mult_le_mono1 mult_1 Suc_leI One_nat_def)
  moreover have "of_nat n / of_nat k = (of_nat m :: rat)" using m assms(1) by simp
  ultimately show ?thesis using rnd_int [of m 53] by simp
next
  case False
  let ?x = "of_nat n / of_nat k :: rat"
  define q r where "q = n div k" and "r = n mod k"
  have r: "0 < r" "r < k" using False assms(1) by (auto simp: r_def dvd_eq_mod_eq_0)
  have "n = q * k + r" by (simp add: q_def r_def)
  then have x: "?x = of_nat q + of_nat r / of_nat k" using assms(1) by (simp add: field_simps)
  have k: "0 < (of_nat k :: rat)" using assms(1) by simp
  have "0 < n" using False by (cases n) auto
  then have "\<bar>to_double ?x - ?x\<bar> \<le> ?x / 2 ^ 53" using k by (intro rnd_err) simp
  also have "\<dots> < 1 / of_nat k"
  proof -
    have "of_nat n < (2 ^ 53 :: rat)" using assms(2) by (metis of_nat_less_iff of_nat_numeral of_nat_power)
    then show ?thesis using k by (simp add: field_simps)
  qed
  finally have e: "\<bar>to_double ?x - ?x\<bar> < 1 / of_nat k" .
  have "1 / of_nat k \<le> (of_nat r / of_nat k :: rat)" using r(1) k by (simp add: divide_right_mono)
  moreover have "of_nat r / of_nat k \<le> (1 - 1 / of_nat k :: rat)"
  proof -
    have "of_nat r + 1 \<le> (of_nat k :: rat)" using r(2) by (metis Suc_leI of_nat_Suc of_nat_le_iff add.commute)
    then show ?thesis using k by (simp add: field_simps)
  qed
  moreover have "0 < 1 / (of_nat k :: rat)" using k by simp
  ultimately have "of_nat q < to_double ?x" "to_double ?x < of_nat q + 1" "of_nat q < ?x" "?x < of_nat q + 1"
    using e x by linarith+
  then have "\<lceil>to_double ?x\<rceil> = int q + 1" "\<lceil>?x\<rceil> = int q + 1" by (simp_all add: ceiling_eq_iff)
  then show ?thesis by simp
qed

end
