(* ===== verification/ConsistentHash.thy ===== *)
theory ConsistentHash
  imports MD5 Ieee
begin

text \<open>
  \<^verbatim>\<open>src/consistentHash.cpp\<close>: the ring of virtual nodes, its construction from the MD5 digests of
  server and replica numbers, the binary search for the node of a key, and the walk that picks the
  servers of a key. The 64-bit hash of a key is the argument \<open>hash\<close>; \<^verbatim>\<open>qsort\<close>, whose order of equal
  points is not specified, is the argument \<open>qsort\<close> with \<open>qsort_ok\<close> saying what it promises; the
  contents of the array \<^verbatim>\<open>malloc\<close> returns is the argument \<open>raw\<close>.
\<close>

section \<open>Data\<close>

record vnode_t =
  point :: u32
  server_id :: u32

record ring_t =
  n_point :: u32
  n_server :: u32
  vnodes :: "vnode_t list"

definition N_VNODE_PER_SERVER :: nat where
  "N_VNODE_PER_SERVER = 160"

definition ch_ring_compare :: "vnode_t \<Rightarrow> vnode_t \<Rightarrow> int" where
  "ch_ring_compare a b = (if point a < point b then -1 else if point a > point b then 1 else 0)"

definition qsort_ok :: "((vnode_t \<Rightarrow> vnode_t \<Rightarrow> int) \<Rightarrow> vnode_t list \<Rightarrow> vnode_t list) \<Rightarrow> bool" where
  "qsort_ok qs \<longleftrightarrow> (\<forall>xs. mset (qs ch_ring_compare xs) = mset xs \<and>
     sorted_wrt (\<lambda>a b. ch_ring_compare a b \<le> 0) (qs ch_ring_compare xs))"

section \<open>Construction\<close>

definition md5_digest :: "md5_byte_t list \<Rightarrow> md5_byte_t list" where
  "md5_digest inString = md5_finish (md5_append md5_init inString (int (length inString)))"

text \<open>\<^verbatim>\<open>(d[3] << 24) | (d[2] << 16) | (d[1] << 8) | d[0]\<close> at offset \<open>k\<close> of a digest\<close>

definition digest_word :: "md5_byte_t list \<Rightarrow> nat \<Rightarrow> u32" where
  "digest_word d k = push_bit 24 (ucast (d ! (3 + k))) OR push_bit 16 (ucast (d ! (2 + k)))
     OR push_bit 8 (ucast (d ! (1 + k))) OR ucast (d ! k)"

definition ketama_hash :: "md5_byte_t list \<Rightarrow> u32" where
  "ketama_hash inString = digest_word (md5_digest inString) 0"

text \<open>The decimal digits \<^verbatim>\<open>sprintf\<close> prints for \<^verbatim>\<open>%u\<close>.\<close>

fun print_u :: "nat \<Rightarrow> md5_byte_t list" where
  "print_u n = (if n < 10 then [of_nat (48 + n)] else print_u (n div 10) @ [of_nat (48 + n mod 10)])"

text \<open>The hashes of a server with weight \<open>w\<close> of a total \<open>t\<close>, computed in \<^verbatim>\<open>double\<close> and rounded to \<^verbatim>\<open>float\<close>
  by the call of \<^verbatim>\<open>floorf\<close>.\<close>

definition n_hashes :: "u32 \<Rightarrow> rat \<Rightarrow> nat \<Rightarrow> nat" where
  "n_hashes w t n = nat \<lfloor>to_float (to_double (to_double (to_double (of_nat (unat w) / t) * of_nat n)
     * of_nat (N_VNODE_PER_SERVER div 4)))\<rfloor>"

definition sum_weights :: "u32 list \<Rightarrow> rat" where
  "sum_weights ws = foldl (\<lambda>t w. to_double (t + of_nat (unat w))) 0 ws"

definition server_vnodes :: "nat \<Rightarrow> nat \<Rightarrow> vnode_t list" where
  "server_vnodes i ks =
    concat (map (\<lambda>k. let digest = md5_digest (print_u i @ [45] @ print_u k) in
      map (\<lambda>h. \<lparr>point = digest_word digest (h * 4), server_id = of_nat i\<rparr>) [0 ..< 4]) [0 ..< ks])"

text \<open>The total weight is read before \<^verbatim>\<open>weight\<close> is compared with the null pointer. A total of 0 makes the
  quotient not a number, whose conversion to an integer is undefined.\<close>

definition ch_ring_create ::
  "((vnode_t \<Rightarrow> vnode_t \<Rightarrow> int) \<Rightarrow> vnode_t list \<Rightarrow> vnode_t list) \<Rightarrow> vnode_t list \<Rightarrow> nat \<Rightarrow> u32 list option \<Rightarrow> ring_t result" where
  "ch_ring_create qsort raw n weight =
    (case weight of
       None \<Rightarrow> if 0 < n then Inl Null_deref
         else Inr \<lparr>n_point = 0, n_server = 0, vnodes = qsort ch_ring_compare []\<rparr>
     | Some ws \<Rightarrow>
         if length ws < n then Inl Out_of_bounds
         else
           (let total_weight = sum_weights (take n ws) in
            if 0 < n \<and> total_weight = 0 then Inl Division_by_zero
            else
              (let vs = concat (map (\<lambda>i. server_vnodes i (n_hashes (ws ! i) total_weight n)) [0 ..< n])
               in if n * N_VNODE_PER_SERVER < length vs then Inl Out_of_bounds
                  else Inr \<lparr>n_point = of_nat (n * N_VNODE_PER_SERVER), n_server = of_nat n,
                    vnodes = qsort ch_ring_compare vs @ drop (length vs) raw\<rparr>)))"

section \<open>Search\<close>

text \<open>The loop over \<^verbatim>\<open>lowp\<close> and \<^verbatim>\<open>highp\<close>; \<^verbatim>\<open>midp - 1\<close> wraps to all ones for 0 and becomes -1 when it
  is stored in the \<^verbatim>\<open>int\<close>.\<close>

function ring_search :: "vnode_t list \<Rightarrow> nat \<Rightarrow> nat \<Rightarrow> nat \<Rightarrow> int \<Rightarrow> nat result" where
  "ring_search vs n h lowp highp =
    (let midp = nat ((int lowp + highp) div 2) in
     if midp = n then Inr 0
     else if length vs \<le> midp then Inl Out_of_bounds
     else
       (let midval = unat (point (vs ! midp));
            midval_prev = (if midp = 0 then 0 else unat (point (vs ! (midp - 1))))
        in if h \<le> midval \<and> h > midval_prev then Inr midp
           else if h > midval then
             (if int midp + 1 > highp then Inr 0 else ring_search vs n h (midp + 1) highp)
           else
             (if int lowp > int midp - 1 then Inr 0 else ring_search vs n h lowp (int midp - 1))))"
  by auto
termination
proof (relation "measure (\<lambda>(_, _, _, l, u). nat (u - int l + 1))", goal_cases)
  case (2 vs n h lowp highp midp midval midval_prev)
  then have "midp = nat ((int lowp + highp) div 2)" "int midp + 1 \<le> highp" by auto
  then have "int midp = (int lowp + highp) div 2" "int midp + 1 \<le> highp" by linarith+
  then have "int lowp \<le> int midp" by linarith
  then show ?case using \<open>int midp + 1 \<le> highp\<close> by simp
next
  case (3 vs n h lowp highp midp midval midval_prev)
  then have "midp = nat ((int lowp + highp) div 2)" "int lowp \<le> int midp - 1" by auto
  then have "int midp = (int lowp + highp) div 2" "int lowp \<le> int midp - 1" by linarith+
  then have "int midp \<le> highp" by linarith
  then show ?case using \<open>int lowp \<le> int midp - 1\<close> by simp
qed simp

declare ring_search.simps [simp del]

definition ch_ring_get_vnode_idx :: "(u64 \<Rightarrow> u64) \<Rightarrow> u64 \<Rightarrow> ring_t \<Rightarrow> nat result" where
  "ch_ring_get_vnode_idx hash key ring =
    ring_search (vnodes ring) (unat (n_point ring)) (unat (hash key AND 0xffffffff)) 0 (int (unat (n_point ring)))"

definition ch_ring_get_server :: "(u64 \<Rightarrow> u64) \<Rightarrow> u64 \<Rightarrow> ring_t \<Rightarrow> vnode_t result" where
  "ch_ring_get_server hash key ring =
    rbind (ch_ring_get_vnode_idx hash key ring) (\<lambda>i.
    if length (vnodes ring) \<le> i then Inl Out_of_bounds else Inr (vnodes ring ! i))"

section \<open>The servers of a key\<close>

text \<open>\<open>pick\<close> is what happens to a server the walk meets for the first time; \<open>None\<close> is the null
  \<^verbatim>\<open>capacity\<close>.\<close>

definition pick :: "u32 \<Rightarrow> u32 list \<Rightarrow> u32 list option \<Rightarrow> (u32 list \<times> u32 list option) result" where
  "pick sid ret_idxs capacity =
    (case capacity of
       None \<Rightarrow> Inr (ret_idxs @ [sid], None)
     | Some cap \<Rightarrow>
         if length cap \<le> unat sid then Inl Out_of_bounds
         else if cap ! unat sid > 0 then Inr (ret_idxs @ [sid], Some (cap[unat sid := cap ! unat sid - 1]))
         else Inr (ret_idxs, Some cap))"

text \<open>The message printed when the ring is exhausted reads \<^verbatim>\<open>capacity\<close> also when it is null.\<close>

definition exhausted :: "ring_t \<Rightarrow> u32 list option \<Rightarrow> c_error" where
  "exhausted ring capacity = (if capacity = None \<and> n_server ring \<noteq> 0 then Null_deref else Aborted)"

function get_servers_loop ::
  "ring_t \<Rightarrow> nat \<Rightarrow> nat \<Rightarrow> nat \<Rightarrow> bool list \<Rightarrow> u32 list \<Rightarrow> u32 list option \<Rightarrow> (u32 list \<times> u32 list option) result" where
  "get_servers_loop ring start n vnode_pos checked_server ret_idxs capacity =
    (if n \<le> length ret_idxs then Inr (ret_idxs, capacity)
     else if n_point ring = 0 then Inl Division_by_zero
     else
       (let idx = ((start + vnode_pos) mod 2 ^ 32) mod unat (n_point ring) in
        if length (vnodes ring) \<le> idx then Inl Out_of_bounds
        else
          (let sid = server_id (vnodes ring ! idx) in
           if length checked_server \<le> unat sid then Inl Out_of_bounds
           else
             rbind (if checked_server ! unat sid then Inr (ret_idxs, capacity) else pick sid ret_idxs capacity)
               (\<lambda>(ret_idxs, capacity).
                if vnode_pos + 1 > unat (n_point ring) then Inl (exhausted ring capacity)
                else get_servers_loop ring start n (vnode_pos + 1) (checked_server[unat sid := True])
                  ret_idxs capacity))))"
  by auto
termination
  by (relation "measure (\<lambda>(ring, _, _, vnode_pos, _). Suc (unat (n_point ring)) - vnode_pos)") auto

declare get_servers_loop.simps [simp del]

text \<open>The servers found, the original lead server and the new capacities.\<close>

definition ch_ring_get_servers ::
  "(u64 \<Rightarrow> u64) \<Rightarrow> u64 \<Rightarrow> ring_t \<Rightarrow> nat \<Rightarrow> u32 list option \<Rightarrow> (u32 list \<times> u32 \<times> u32 list option) result" where
  "ch_ring_get_servers hash key ring n capacity =
    rbind (ch_ring_get_vnode_idx hash key ring) (\<lambda>start.
    if n_point ring = 0 then Inl Division_by_zero
    else if length (vnodes ring) \<le> start mod unat (n_point ring) then Inl Out_of_bounds
    else
      (let original_lead_server = server_id (vnodes ring ! (start mod unat (n_point ring))) in
       rbind (get_servers_loop ring start n 0 (replicate (unat (n_server ring)) False) [] capacity)
         (\<lambda>(ret_idxs, capacity). Inr (ret_idxs, original_lead_server, capacity))))"

section \<open>The search is right\<close>

text \<open>The node of a hash: the first point not below it, the first node when there is none.\<close>

definition successor :: "vnode_t list \<Rightarrow> nat \<Rightarrow> nat" where
  "successor vs h = (let i = length (takeWhile (\<lambda>v. unat (point v) < h) vs) in if i < length vs then i else 0)"

definition ring_sorted :: "vnode_t list \<Rightarrow> bool" where
  "ring_sorted vs \<longleftrightarrow> sorted (map (unat \<circ> point) vs)"

definition first_from :: "vnode_t list \<Rightarrow> nat \<Rightarrow> nat" where
  "first_from vs h = length (takeWhile (\<lambda>v. unat (point v) < h) vs)"

lemma first_from_le: "first_from vs h \<le> length vs"
  by (simp add: first_from_def length_takeWhile_le)

lemma first_from_below: "i < first_from vs h \<Longrightarrow> unat (point (vs ! i)) < h"
  unfolding first_from_def by (metis nth_mem set_takeWhileD takeWhile_nth)

lemma first_from_above:
  assumes "ring_sorted vs" "first_from vs h \<le> i" "i < length vs"
  shows "h \<le> unat (point (vs ! i))"
proof -
  have "\<not> unat (point (vs ! first_from vs h)) < h"
    using assms(2,3) unfolding first_from_def by (intro nth_length_takeWhile) simp
  moreover have "unat (point (vs ! first_from vs h)) \<le> unat (point (vs ! i))"
    using assms sorted_nth_mono [of "map (unat \<circ> point) vs" "first_from vs h" i] by (simp add: ring_sorted_def)
  ultimately show ?thesis by simp
qed

lemma ring_search_correct:
  assumes "ring_sorted vs" "int lowp \<le> int (first_from vs h)" "int (first_from vs h) \<le> highp" "highp \<le> int (length vs)"
  shows "ring_search vs (length vs) h lowp highp = Inr (if first_from vs h < length vs then first_from vs h else 0)"
  using assms
proof (induction vs "length vs" h lowp highp rule: ring_search.induct)
  case (1 vs h lowp highp)
  define a where "a = first_from vs h"
  define m where "m = nat ((int lowp + highp) div 2)"
  define prev where "prev = (if m = 0 then 0 else unat (point (vs ! (m - 1))))"
  have p: "int lowp \<le> int a" "int a \<le> highp" "highp \<le> int (length vs)" using "1.prems" by (simp_all add: a_def)
  have below: "unat (point (vs ! i)) < h" if "i < a" for i using first_from_below that by (simp add: a_def)
  have above: "h \<le> unat (point (vs ! i))" if "a \<le> i" "i < length vs" for i
    using first_from_above "1.prems"(1) that by (simp add: a_def)
  have IH: "ring_search vs (length vs) h (m + 1) highp = Inr (if a < length vs then a else 0)"
    if "m \<noteq> length vs" "m < length vs" "unat (point (vs ! m)) < h" "int m + 1 \<le> highp" "m + 1 \<le> a"
    using "1.hyps"(1) [OF m_def _ _ refl prev_def] that "1.prems"(1) p by (simp add: a_def)
  have IH': "ring_search vs (length vs) h lowp (int m - 1) = Inr (if a < length vs then a else 0)"
    if "m \<noteq> length vs" "m < length vs" "\<not> unat (point (vs ! m)) < h" "\<not> prev < h" "int lowp \<le> int m - 1" "int a \<le> int m - 1"
    using "1.hyps"(2) [OF m_def _ _ refl prev_def] that "1.prems"(1) p by (simp add: a_def)
  have m: "int lowp \<le> int m" "int m \<le> highp" using p unfolding m_def by linarith+
  have step: "ring_search vs (length vs) h lowp highp =
    (if m = length vs then Inr 0 else if length vs \<le> m then Inl Out_of_bounds
     else if h \<le> unat (point (vs ! m)) \<and> h > prev then Inr m
     else if h > unat (point (vs ! m)) then
       (if int m + 1 > highp then Inr 0 else ring_search vs (length vs) h (m + 1) highp)
     else (if int lowp > int m - 1 then Inr 0 else ring_search vs (length vs) h lowp (int m - 1)))"
    by (subst ring_search.simps) (simp add: Let_def m_def prev_def)
  consider (wrap) "m = length vs" | (found) "m < length vs" "h \<le> unat (point (vs ! m))" "h > prev"
    | (right) "m < length vs" "h > unat (point (vs ! m))" | (left) "m < length vs" "h \<le> unat (point (vs ! m))" "\<not> h > prev"
    using m(2) p(3) by linarith
  then have "ring_search vs (length vs) h lowp highp = Inr (if a < length vs then a else 0)"
  proof cases
    case wrap
    then have "a = length vs" using p m_def by linarith
    then show ?thesis using step wrap by simp
  next
    case found
    have "\<not> m < a" using below [of m] found by auto
    moreover have "\<not> a < m"
    proof
      assume "a < m"
      then have "a \<le> m - 1" "m - 1 < length vs" "m \<noteq> 0" using found(1) by simp_all
      then show False using above [of "m - 1"] found(3) by (simp add: prev_def)
    qed
    ultimately show ?thesis using step found by simp
  next
    case right
    have "m + 1 \<le> a" using above [of m] right by (cases "a \<le> m") auto
    then show ?thesis using step right IH p(2) by simp
  next
    case left
    show ?thesis
    proof (cases "m = 0")
      case True
      then have "a = 0" using below [of 0] left by (auto simp: prev_def)
      then show ?thesis using step left True by simp
    next
      case False
      then have "a \<le> m - 1" using below [of "m - 1"] left by (cases "m - 1 < a") (auto simp: prev_def)
      moreover from this have "int lowp \<le> int m - 1" "int a \<le> int m - 1" using p(1) False by linarith+
      ultimately show ?thesis using step left False IH' by simp
    qed
  qed
  then show ?case by (simp add: a_def)
qed

section \<open>The walk is right\<close>

text \<open>The distinct elements of a list in the order of their first occurrence.\<close>

definition nub :: "'a list \<Rightarrow> 'a list" where
  "nub xs = rev (remdups (rev xs))"

lemma nub_simps [simp]: "nub [] = []" "nub (xs @ [x]) = nub xs @ (if x \<in> set xs then [] else [x])"
  "set (nub xs) = set xs" "distinct (nub xs)"
  by (simp_all add: nub_def)

text \<open>The servers in the order in which the walk from node \<open>start\<close> meets them.\<close>

definition ring_walk :: "ring_t \<Rightarrow> nat \<Rightarrow> u32 list" where
  "ring_walk ring start = map server_id (rotate start (vnodes ring))"

definition ring_ok :: "ring_t \<Rightarrow> bool" where
  "ring_ok ring \<longleftrightarrow> length (vnodes ring) = unat (n_point ring) \<and> 0 < unat (n_point ring) \<and> unat (n_point ring) < 2 ^ 31 \<and>
    (\<forall>v \<in> set (vnodes ring). server_id v < n_server ring)"

definition has_capacity :: "u32 list option \<Rightarrow> u32 \<Rightarrow> bool" where
  "has_capacity capacity s = (case capacity of None \<Rightarrow> True | Some cap \<Rightarrow> 0 < cap ! unat s)"

definition cap_ok :: "ring_t \<Rightarrow> u32 list option \<Rightarrow> bool" where
  "cap_ok ring capacity = (case capacity of None \<Rightarrow> True | Some cap \<Rightarrow> length cap = unat (n_server ring))"

text \<open>The capacities after the servers of a list have been picked.\<close>

definition use_capacity :: "u32 list option \<Rightarrow> u32 list \<Rightarrow> u32 list option" where
  "use_capacity capacity ss = map_option (\<lambda>cap. fold (\<lambda>s cap. cap[unat s := cap ! unat s - 1]) ss cap) capacity"

lemma use_capacity_simps [simp]:
  "use_capacity capacity [] = capacity" "use_capacity None ss = None"
  "use_capacity capacity (ss @ [s]) = map_option (\<lambda>cap. cap[unat s := cap ! unat s - 1]) (use_capacity capacity ss)"
  by (cases capacity; simp add: use_capacity_def)+

lemma fold_capacity_length [simp]: "length (fold (\<lambda>s cap. cap[unat s := cap ! unat s - 1]) ss cap) = length cap"
  by (induction ss arbitrary: cap) auto

lemma use_capacity_other:
  "s \<notin> set ss \<Longrightarrow> fold (\<lambda>s cap. cap[unat s := cap ! unat s - 1]) ss cap ! unat s = cap ! unat (s :: u32)"
  by (induction ss arbitrary: cap) (auto simp: word_unat_eq_iff)

text \<open>What the walk has done after \<open>j\<close> nodes.\<close>

definition walked :: "ring_t \<Rightarrow> nat \<Rightarrow> u32 list option \<Rightarrow> nat \<Rightarrow> u32 list" where
  "walked ring start capacity j = filter (has_capacity capacity) (nub (take j (ring_walk ring start)))"

lemma length_ring_walk: "ring_ok ring \<Longrightarrow> length (ring_walk ring start) = unat (n_point ring)"
  by (simp add: ring_walk_def ring_ok_def)

lemma ring_walk_nth:
  assumes "ring_ok ring" "start < unat (n_point ring)" "j < unat (n_point ring)"
  shows "ring_walk ring start ! j = server_id (vnodes ring ! (((start + j) mod 2 ^ 32) mod unat (n_point ring)))"
    "((start + j) mod 2 ^ 32) mod unat (n_point ring) < length (vnodes ring)"
proof -
  have "(start + j) mod 2 ^ 32 = start + j" using assms by (simp add: ring_ok_def)
  then show "ring_walk ring start ! j = server_id (vnodes ring ! (((start + j) mod 2 ^ 32) mod unat (n_point ring)))"
    using assms nth_rotate [of j "vnodes ring" start] by (simp add: ring_ok_def ring_walk_def)
  show "((start + j) mod 2 ^ 32) mod unat (n_point ring) < length (vnodes ring)"
    using assms by (simp add: ring_ok_def)
qed

lemma ring_walk_server:
  "ring_ok ring \<Longrightarrow> s \<in> set (ring_walk ring start) \<Longrightarrow> unat s < unat (n_server ring)"
  by (auto simp: ring_ok_def ring_walk_def word_less_nat_alt)

lemma walked_Suc:
  assumes "j < length (ring_walk ring start)"
  shows "walked ring start capacity (Suc j) = walked ring start capacity j @
    (let s = ring_walk ring start ! j in
     if s \<in> set (take j (ring_walk ring start)) \<or> \<not> has_capacity capacity s then [] else [s])"
  using assms by (simp add: walked_def take_Suc_conv_app_nth Let_def)

lemma pick_walked:
  assumes "cap_ok ring capacity" "unat s < unat (n_server ring)" "s \<notin> set ss"
  shows "pick s ss (use_capacity capacity ss) =
    Inr (if has_capacity capacity s then (ss @ [s], use_capacity capacity (ss @ [s])) else (ss, use_capacity capacity ss))"
  using assms by (cases capacity)
    (auto simp: pick_def cap_ok_def has_capacity_def use_capacity_def use_capacity_other)

lemma walked_prefix: "j \<le> k \<Longrightarrow> take (length (walked ring start capacity j)) (walked ring start capacity k) = walked ring start capacity j"
proof (induction k rule: dec_induct)
  case (step k)
  show ?case
  proof (cases "k < length (ring_walk ring start)")
    case True
    have "length (walked ring start capacity j) \<le> length (walked ring start capacity k)"
      using step.IH by (metis length_take min.cobounded1 min.commute)
    then show ?thesis using step.IH by (simp add: walked_Suc [OF True])
  next
    case False
    then show ?thesis using step.IH by (simp add: walked_def)
  qed
qed simp

lemma get_servers_loop_done:
  "length ret = n \<Longrightarrow> get_servers_loop ring start n j checked ret capacity = Inr (ret, capacity)"
  by (subst get_servers_loop.simps) simp

lemma get_servers_loop_correct:
  assumes ok: "ring_ok ring" "cap_ok ring capacity" "start < unat (n_point ring)"
    and j: "j \<le> unat (n_point ring)" "length checked = unat (n_server ring)"
    and chk: "\<forall>s. unat s < unat (n_server ring) \<longrightarrow> checked ! unat s = (s \<in> set (take j (ring_walk ring start)))"
    and len: "length (walked ring start capacity j) \<le> n"
  shows "get_servers_loop ring start n j checked (walked ring start capacity j)
      (use_capacity capacity (walked ring start capacity j)) =
    (let ss = walked ring start capacity (unat (n_point ring)) in
     if n \<le> length ss then Inr (take n ss, use_capacity capacity (take n ss)) else Inl (exhausted ring capacity))"
  using j chk len
proof (induction "unat (n_point ring) - j" arbitrary: j checked)
  case 0
  let ?w = "ring_walk ring start" and ?ss = "walked ring start capacity j"
  have jn: "j = unat (n_point ring)" using 0 by simp
  have tk: "take j ?w = ?w" using length_ring_walk [OF ok(1)] jn by simp
  have ex: "exhausted ring (use_capacity capacity ?ss) = exhausted ring capacity"
    by (simp add: exhausted_def use_capacity_def)
  let ?i = "((start + j) mod 2 ^ 32) mod unat (n_point ring)"
  have n0: "n_point ring \<noteq> 0" using ok(1) by (auto simp: ring_ok_def)
  have i: "?i = start" "start < length (vnodes ring)" using ok jn by (auto simp: ring_ok_def)
  have "ring_walk ring start ! 0 = server_id (vnodes ring ! start)"
    using ring_walk_nth [OF ok(1,3), of 0] ok by (simp add: ring_ok_def)
  then have sid: "server_id (vnodes ring ! start) \<in> set ?w"
    using length_ring_walk [OF ok(1), of start] ok(1) nth_mem [of 0 ?w] by (simp add: ring_ok_def)
  then have "checked ! unat (server_id (vnodes ring ! start))" "unat (server_id (vnodes ring ! start)) < length checked"
    using 0 tk ring_walk_server [OF ok(1) sid] by auto
  then have "length ?ss < n \<Longrightarrow> get_servers_loop ring start n j checked ?ss (use_capacity capacity ?ss) = Inl (exhausted ring capacity)"
    using i n0 jn ex by (subst get_servers_loop.simps) (simp add: ring_ok_def Let_def)
  moreover have "length ?ss = n \<Longrightarrow> get_servers_loop ring start n j checked ?ss (use_capacity capacity ?ss) =
      Inr (?ss, use_capacity capacity ?ss)" by (rule get_servers_loop_done)
  ultimately show ?case using 0(5) jn by (cases "length ?ss = n") (auto simp: Let_def)
next
  case (Suc d)
  let ?w = "ring_walk ring start" and ?ss = "walked ring start capacity j"
  let ?i = "((start + j) mod 2 ^ 32) mod unat (n_point ring)"
  have jn: "j < unat (n_point ring)" using Suc(2) by simp
  have n0: "n_point ring \<noteq> 0" using ok(1) by (auto simp: ring_ok_def)
  note w = ring_walk_nth [OF ok(1,3) jn]
  have jw: "j < length ?w" using jn length_ring_walk [OF ok(1)] by simp
  define s where "s = ?w ! j"
  have s: "server_id (vnodes ring ! ?i) = s" "s \<in> set ?w" using w(1) nth_mem [OF jw] by (simp_all only: s_def)
  have sn: "unat s < unat (n_server ring)" using ring_walk_server [OF ok(1) s(2)] .
  note ws = walked_Suc [OF jw, of capacity, folded s_def]
  show ?case
  proof (cases "n \<le> length ?ss")
    case True
    then have n: "length ?ss = n" using Suc.prems(4) by simp
    let ?all = "walked ring start capacity (unat (n_point ring))"
    have "take n ?all = ?ss" using walked_prefix [of j "unat (n_point ring)" ring start capacity] jn n by simp
    moreover from this have "n \<le> length ?all" using n by (metis length_take min.cobounded1 min.commute)
    ultimately show ?thesis using get_servers_loop_done [OF n] by (simp add: Let_def)
  next
    case False
    have tk: "take (Suc j) ?w = take j ?w @ [s]" using jw by (simp add: take_Suc_conv_app_nth s_def)
    have chk': "\<forall>t. unat t < unat (n_server ring) \<longrightarrow> (checked[unat s := True]) ! unat t = (t \<in> set (take (Suc j) ?w))"
      using Suc.prems(2,3) sn by (auto simp: tk nth_list_update word_unat_eq_iff)
    have notin: "s \<notin> set ?ss" if "s \<notin> set (take j ?w)" using that by (auto simp: walked_def)
    let ?next = "walked ring start capacity (Suc j)"
    have old: "?next = ?ss" if "checked ! unat s" using that Suc.prems(3) sn by (simp add: ws Let_def)
    have new: "pick s ?ss (use_capacity capacity ?ss) = Inr (?next, use_capacity capacity ?next)" if "\<not> checked ! unat s"
      using that Suc.prems(3) sn pick_walked [OF ok(2) sn notin] by (auto simp: ws Let_def)
    have "get_servers_loop ring start n j checked ?ss (use_capacity capacity ?ss) =
      get_servers_loop ring start n (Suc j) (checked[unat s := True]) ?next (use_capacity capacity ?next)"
      using False w(2) s sn jn n0 Suc.prems(2) old new
      by (subst get_servers_loop.simps) (cases "checked ! unat s"; simp add: Let_def not_le)
    moreover have "length (walked ring start capacity (Suc j)) \<le> n" using False by (simp add: ws Let_def)
    ultimately show ?thesis
      using Suc.hyps(1) [of "Suc j" "checked[unat s := True]"] Suc.hyps(2) Suc.prems(2) jn chk' by simp
  qed
qed

lemma successor_less: "vs \<noteq> [] \<Longrightarrow> successor vs h < length vs"
  by (simp add: successor_def Let_def)

lemma get_vnode_idx_successor:
  assumes "ring_sorted (vnodes ring)" "length (vnodes ring) = unat (n_point ring)"
  shows "ch_ring_get_vnode_idx hash key ring = Inr (successor (vnodes ring) (unat (hash key AND 0xffffffff)))"
proof -
  let ?h = "unat (hash key AND 0xffffffff)"
  have "ring_search (vnodes ring) (length (vnodes ring)) ?h 0 (int (length (vnodes ring))) =
      Inr (if first_from (vnodes ring) ?h < length (vnodes ring) then first_from (vnodes ring) ?h else 0)"
    using first_from_le by (intro ring_search_correct [OF assms(1)]) simp_all
  then show ?thesis unfolding ch_ring_get_vnode_idx_def successor_def assms(2) [symmetric]
    by (simp only: first_from_def [symmetric] Let_def)
qed

text \<open>The servers the walk for a hash picks when it asks for as many as there are.\<close>

definition key_servers :: "ring_t \<Rightarrow> nat \<Rightarrow> u32 list option \<Rightarrow> u32 list" where
  "key_servers ring h capacity = filter (has_capacity capacity) (nub (ring_walk ring (successor (vnodes ring) h)))"

lemma get_servers_walk:
  assumes "ring_ok ring" "cap_ok ring capacity" "ring_sorted (vnodes ring)"
  shows "ch_ring_get_servers hash key ring n capacity =
    (let h = unat (hash key AND 0xffffffff); ss = key_servers ring h capacity in
     if n \<le> length ss
     then Inr (take n ss, server_id (vnodes ring ! successor (vnodes ring) h), use_capacity capacity (take n ss))
     else Inl (exhausted ring capacity))"
proof -
  define start where "start = successor (vnodes ring) (unat (hash key AND 0xffffffff))"
  have n: "length (vnodes ring) = unat (n_point ring)" "n_point ring \<noteq> 0" "vnodes ring \<noteq> []"
    using assms(1) by (auto simp: ring_ok_def)
  have start: "start < unat (n_point ring)" using successor_less [OF n(3)] n(1) by (simp add: start_def)
  have w0: "walked ring start capacity 0 = []" by (simp add: walked_def)
  have "walked ring start capacity (unat (n_point ring)) = key_servers ring (unat (hash key AND 0xffffffff)) capacity"
    using length_ring_walk [OF assms(1), of start] by (simp add: walked_def key_servers_def start_def [symmetric])
  then have "get_servers_loop ring start n 0 (replicate (unat (n_server ring)) False) [] capacity =
    (let ss = key_servers ring (unat (hash key AND 0xffffffff)) capacity in
     if n \<le> length ss then Inr (take n ss, use_capacity capacity (take n ss)) else Inl (exhausted ring capacity))"
    using get_servers_loop_correct [OF assms(1,2) start, of 0 "replicate (unat (n_server ring)) False" n] by (simp add: w0)
  then show ?thesis
    using get_vnode_idx_successor [OF assms(3) n(1), of hash key] n start
    by (simp add: ch_ring_get_servers_def start_def [symmetric] Let_def)
qed

section \<open>The ring of equally weighted servers\<close>

lemma n_hashes_equal:
  assumes "0 < w" "0 < n"
  shows "n_hashes w (of_nat (n * unat w)) n = N_VNODE_PER_SERVER div 4"
proof -
  define m where "m = unat w"
  let ?x = "of_nat m / of_nat (n * m) :: rat"
  have "m \<noteq> 0" using assms(1) unat_eq_zero [of w] by (auto simp: m_def)
  then have x: "?x = 1 / of_nat n" by simp
  have pos: "0 < (1 / of_nat n :: rat)" using assms(2) by simp
  have "\<bar>to_double ?x - 1 / of_nat n\<bar> \<le> 1 / of_nat n * (1 / 2 ^ 53)" using rnd_err [OF pos, of 53] unfolding x by simp
  from rnd_mult_near [OF this pos, of "of_nat n" 53]
  have "\<bar>to_double (to_double ?x * of_nat n) - 1\<bar> \<le> 1 * (3 / 2 ^ 53)" using assms(2) by simp
  from rnd_mult_near [OF this, of 40 53]
  have "\<bar>to_double (to_double (to_double ?x * of_nat n) * 40) - 40\<bar> \<le> 40 * (5 / 2 ^ 53)" by simp
  also have "\<dots> < 1 / 2 ^ 20" by simp
  finally have "to_float (to_double (to_double (to_double ?x * of_nat n) * 40)) = 40" by (rule to_float_near_40)
  then show ?thesis by (simp only: n_hashes_def N_VNODE_PER_SERVER_def m_def [symmetric]) simp
qed

lemma sum_weights_equal:
  assumes "n \<le> 2 ^ 20"
  shows "sum_weights (replicate n w) = of_nat (n * unat w)"
  using assms
proof (induction n)
  case (Suc n)
  have "unat w < 2 ^ 32" using unsigned_less [of w] by simp
  then have "Suc n * unat w < 2 ^ 53" using Suc.prems mult_le_mono [of "Suc n" "2 ^ 20" "unat w" "2 ^ 32"] by simp
  then have "to_double (of_nat (Suc n * unat w)) = of_nat (Suc n * unat w)" by (rule rnd_int)
  then show ?case using Suc
    by (simp add: sum_weights_def replicate_append_same [symmetric] add.commute del: replicate_append_same)
qed (simp add: sum_weights_def)

lemma server_vnodes_ids: "map server_id (server_vnodes i ks) = replicate (4 * ks) (of_nat i)"
proof -
  have "map server_id (concat (map (\<lambda>k. map (\<lambda>h. \<lparr>point = p k h, server_id = s\<rparr>) [0 ..< 4]) [0 ..< ks])) = replicate (4 * ks) s"
    for p s by (induction ks) (simp_all add: numeral_eq_Suc replicate_app_Cons_same)
  then show ?thesis by (simp add: server_vnodes_def Let_def)
qed

lemma all_vnodes:
  assumes "vs = concat (map (\<lambda>i. server_vnodes i 40) [0 ..< n])"
  shows "length vs = n * 160" "server_id ` set vs \<subseteq> of_nat ` {..< n}"
    "n \<le> 2 ^ 20 \<Longrightarrow> i < n \<Longrightarrow> size (filter_mset (\<lambda>v. server_id v = of_nat i) (mset vs)) = 160"
proof -
  have ids: "map server_id vs = concat (map (\<lambda>i. replicate 160 (of_nat i)) [0 ..< n])"
    by (simp add: assms map_concat server_vnodes_ids o_def)
  have "length (map server_id vs) = n * 160" unfolding ids by (induction n) simp_all
  then show "length vs = n * 160" by simp
  have "set (map server_id vs) \<subseteq> of_nat ` {..< n}" unfolding ids by auto
  then show "server_id ` set vs \<subseteq> of_nat ` {..< n}" by simp
  have cnt: "length (filter (\<lambda>s. s = (of_nat i :: u32)) (concat (map (\<lambda>i. replicate 160 (of_nat i)) [0 ..< n]))) =
      (if i < n then 160 else 0)" if "i \<le> 2 ^ 20" "n \<le> 2 ^ 20" for i n :: nat
    using that
  proof (induction n)
    case (Suc n)
    have "(of_nat n = (of_nat i :: u32)) = (n = i)" using Suc.prems by (simp add: word_of_nat_eq_iff take_bit_eq_mod)
    then show ?case using Suc by (auto simp: filter_replicate)
  qed simp
  assume i: "n \<le> 2 ^ 20" "i < n"
  have "size (filter_mset (\<lambda>v. server_id v = of_nat i) (mset vs)) = length (filter (\<lambda>s. s = of_nat i) (map server_id vs))"
    by (simp add: filter_map o_def flip: size_mset mset_filter)
  then show "size (filter_mset (\<lambda>v. server_id v = of_nat i) (mset vs)) = 160" using cnt [of i n] i by (simp add: ids)
qed

lemma qsort_sorted:
  assumes "qsort_ok qs"
  shows "mset (qs ch_ring_compare vs) = mset vs" "ring_sorted (qs ch_ring_compare vs)"
proof -
  have "ch_ring_compare a b \<le> 0 \<longleftrightarrow> unat (point a) \<le> unat (point b)" for a b
    by (auto simp: ch_ring_compare_def word_less_nat_alt)
  then show "mset (qs ch_ring_compare vs) = mset vs" "ring_sorted (qs ch_ring_compare vs)"
    using assms by (simp_all add: qsort_ok_def ring_sorted_def sorted_map)
qed

text \<open>
  (C32) Servers of equal positive weight: in spite of the floating point computation of their shares,
  \<^verbatim>\<open>ch_ring_create\<close> fills the whole array, every server has exactly 160 virtual nodes, the nodes are
  sorted by their points and every node names one of the servers.
\<close>

theorem ch_ring_create_balanced:
  assumes "qsort_ok qs" "0 < n" "n \<le> 2 ^ 20" "0 < w" "take n ws = replicate n w" "length raw = n * N_VNODE_PER_SERVER"
  shows "\<exists>ring. ch_ring_create qs raw n (Some ws) = Inr ring \<and> ring_ok ring \<and> ring_sorted (vnodes ring) \<and>
    unat (n_server ring) = n \<and> unat (n_point ring) = n * N_VNODE_PER_SERVER \<and>
    (\<forall>i < n. length (filter (\<lambda>v. server_id v = of_nat i) (vnodes ring)) = N_VNODE_PER_SERVER)"
proof -
  have len: "n \<le> length ws" using arg_cong [OF assms(5), of length] by simp
  have nth: "ws ! i = w" if "i < n" for i using nth_take [OF that, of ws] assms(5) that by simp
  have n: "unat (of_nat n :: u32) = n" "unat (of_nat (n * 160) :: u32) = n * 160"
    using assms(3) by (simp_all add: unat_of_nat del: of_nat_mult)
  define vs where "vs = concat (map (\<lambda>i. server_vnodes i 40) [0 ..< n])"
  note vs = all_vnodes [OF vs_def] and q = qsort_sorted [OF assms(1), of vs]
  let ?ring = "\<lparr>n_point = of_nat (n * 160), n_server = of_nat n, vnodes = qs ch_ring_compare vs\<rparr>"
  have w0: "of_nat (n * unat w) \<noteq> (0 :: rat)" using assms(2,4) unat_eq_zero [of w] by (auto simp del: of_nat_mult)
  have "map (\<lambda>i. server_vnodes i (n_hashes (ws ! i) (of_nat (n * unat w)) n)) [0 ..< n] = map (\<lambda>i. server_vnodes i 40) [0 ..< n]"
    using n_hashes_equal [OF assms(4,2)] by (simp add: nth N_VNODE_PER_SERVER_def)
  then have "ch_ring_create qs raw n (Some ws) = Inr ?ring"
    using assms(5,6) len w0 vs(1)
    by (simp add: ch_ring_create_def sum_weights_equal [OF assms(3)] vs_def [symmetric] N_VNODE_PER_SERVER_def Let_def
      del: of_nat_mult map_eq_conv)
  moreover have "length (qs ch_ring_compare vs) = n * 160" using arg_cong [OF q(1), of size] vs(1) by simp
  moreover have "server_id v < of_nat n" if "v \<in> set (qs ch_ring_compare vs)" for v
  proof -
    have "server_id v \<in> of_nat ` {..< n}" using that vs(2) mset_eq_setD [OF q(1)] by auto
    then obtain i where "server_id v = of_nat i" "i < n" by auto
    moreover from this have "unat (of_nat i :: u32) = i" using assms(3) by (simp add: unat_of_nat)
    ultimately show ?thesis using n(1) by (simp add: word_less_nat_alt)
  qed
  moreover have "length (filter (\<lambda>v. server_id v = of_nat i) (qs ch_ring_compare vs)) = 160" if "i < n" for i
    using vs(3) [OF assms(3) that] unfolding q(1) [symmetric] mset_filter [symmetric] size_mset .
  ultimately show ?thesis using q(2) n assms(2,3)
    by (intro exI [of _ ?ring]) (simp add: ring_ok_def N_VNODE_PER_SERVER_def del: of_nat_mult)
qed

lemma sort_key_qsort: "qsort_ok (\<lambda>cmp. sort_key point)"
proof -
  have "sorted_wrt (\<lambda>a b. ch_ring_compare a b \<le> 0) (sort_key point xs)" for xs
    using sorted_sort_key [of point xs] unfolding sorted_map
    by (rule sorted_wrt_mono_rel [rotated]) (simp add: ch_ring_compare_def)
  then show ?thesis by (simp add: qsort_ok_def)
qed

theorem ch_ring_create_balanced_witness:
  "\<exists>ring. ch_ring_create (\<lambda>cmp. sort_key point) (replicate 320 \<lparr>point = 0, server_id = 0\<rparr>) 2 (Some [5, 5]) = Inr ring \<and>
    ring_ok ring \<and> ring_sorted (vnodes ring) \<and> unat (n_server ring) = 2 \<and>
    (\<forall>i < 2. length (filter (\<lambda>v. server_id v = of_nat i) (vnodes ring)) = 160)"
proof -
  have "take 2 [5, 5] = replicate 2 (5 :: u32)" by (simp add: numeral_2_eq_2)
  from ch_ring_create_balanced [OF sort_key_qsort _ _ _ this, of "replicate 320 \<lparr>point = 0, server_id = 0\<rparr>"]
  show ?thesis unfolding N_VNODE_PER_SERVER_def by (simp, blast)
qed

section \<open>The properties of lookups\<close>

text \<open>A small ring for the examples: three servers, two of them with two nodes.\<close>

definition small_ring :: ring_t where
  "small_ring = \<lparr>n_point = 5, n_server = 3, vnodes =
    [\<lparr>point = 10, server_id = 2\<rparr>, \<lparr>point = 20, server_id = 0\<rparr>, \<lparr>point = 30, server_id = 2\<rparr>,
     \<lparr>point = 40, server_id = 1\<rparr>, \<lparr>point = 50, server_id = 0\<rparr>]\<rparr>"

lemma small_ring_ok: "ring_ok small_ring" "ring_sorted (vnodes small_ring)"
  by (simp_all add: ring_ok_def ring_sorted_def small_ring_def)

lemma small_ring_keys:
  "key_servers small_ring 15 (Some [3, 1, 0]) = [0, 1]" "key_servers small_ring 15 (Some [9, 9, 9]) = [0, 2, 1]"
  "key_servers small_ring 15 (Some [0, 9, 9]) = [2, 1]"
  by code_simp+

lemma small_ring_cap: "length cap = 3 \<Longrightarrow> cap_ok small_ring (Some cap)"
  by (simp add: cap_ok_def small_ring_def)

lemma small_ring_lead: "server_id (vnodes small_ring ! successor (vnodes small_ring) 15) = 0"
  by code_simp

text \<open>
  On a sorted ring the binary search returns the node of the first point that is not below the
  lower 32 bits of the key's hash, and node 0 when all points are below it.
\<close>

theorem ch_ring_get_vnode_idx_correct:
  assumes "ring_sorted (vnodes ring)" "length (vnodes ring) = unat (n_point ring)"
  shows "ch_ring_get_vnode_idx hash key ring = Inr (successor (vnodes ring) (unat (hash key AND 0xffffffff)))"
  using assms by (rule get_vnode_idx_successor)

theorem ch_ring_get_vnode_idx_correct_witness:
  "ch_ring_get_vnode_idx (\<lambda>x. x) 31 small_ring = Inr 3 \<and> ch_ring_get_vnode_idx (\<lambda>x. x) 51 small_ring = Inr 0"
  using ch_ring_get_vnode_idx_correct [of small_ring "\<lambda>x. x" 31] ch_ring_get_vnode_idx_correct [of small_ring "\<lambda>x. x" 51]
  by (simp add: small_ring_ok) (simp add: small_ring_def successor_def Let_def)

text \<open>
  (C31) \<^verbatim>\<open>ch_ring_get_servers\<close> returns the first \<open>n\<close> distinct servers with capacity left, in the order of
  the ring from the key's node on, takes one unit of capacity from each of them and reports the
  server of the key's node; when there are fewer it aborts (and reads a null \<^verbatim>\<open>capacity\<close> before).
\<close>

theorem ch_ring_get_servers_correct:
  assumes "ring_ok ring" "cap_ok ring capacity" "ring_sorted (vnodes ring)"
  shows "ch_ring_get_servers hash key ring n capacity =
    (let h = unat (hash key AND 0xffffffff); ss = key_servers ring h capacity in
     if n \<le> length ss
     then Inr (take n ss, server_id (vnodes ring ! successor (vnodes ring) h), use_capacity capacity (take n ss))
     else Inl (exhausted ring capacity))"
  using assms by (rule get_servers_walk)

theorem ch_ring_get_servers_correct_witness:
  "ch_ring_get_servers (\<lambda>x. x) 15 small_ring 2 (Some [3, 1, 0]) = Inr ([0, 1], 0, Some [2, 0, 0]) \<and>
   ch_ring_get_servers (\<lambda>x. x) 15 small_ring 3 (Some [3, 1, 0]) = Inl Aborted"
  using ch_ring_get_servers_correct [of small_ring "Some [3, 1, 0]" "\<lambda>x. x" 15 2]
    ch_ring_get_servers_correct [of small_ring "Some [3, 1, 0]" "\<lambda>x. x" 15 3]
  by (simp add: small_ring_ok small_ring_keys small_ring_cap small_ring_lead use_capacity_def exhausted_def)

text \<open>
  (C33) Failing one server moves only the keys that used it: the servers a key keeps stay in their
  order at the head of its new list.
\<close>

theorem ch_ring_minimal_disruption:
  assumes "ring_ok ring" "ring_sorted (vnodes ring)" "length cap = unat (n_server ring)"
    and "ch_ring_get_servers hash key ring n (Some cap) = Inr (ss, lead, cap1)"
    and "ch_ring_get_servers hash key ring n (Some (cap[unat s := 0])) = Inr (ss', lead', cap2)"
  shows "lead' = lead \<and> take (length (filter (\<lambda>t. t \<noteq> s) ss)) ss' = filter (\<lambda>t. t \<noteq> s) ss \<and> s \<notin> set ss'"
proof -
  let ?h = "unat (hash key AND 0xffffffff)" and ?cap = "cap[unat s := 0]"
  have ok: "cap_ok ring (Some cap)" "cap_ok ring (Some ?cap)" using assms(3) by (simp_all add: cap_ok_def)
  have ss: "ss = take n (key_servers ring ?h (Some cap))" "lead = server_id (vnodes ring ! successor (vnodes ring) ?h)"
    using assms(4) unfolding get_servers_walk [OF assms(1) ok(1) assms(2)] by (auto simp: Let_def split: if_splits)
  have ss': "ss' = take n (key_servers ring ?h (Some ?cap))" "lead' = server_id (vnodes ring ! successor (vnodes ring) ?h)"
    using assms(5) unfolding get_servers_walk [OF assms(1) ok(2) assms(2)] by (auto simp: Let_def split: if_splits)
  have bound: "unat t < length cap" if "t \<in> set (ring_walk ring (successor (vnodes ring) ?h))" for t
    using ring_walk_server [OF assms(1) that] assms(3) by simp
  have cap: "has_capacity (Some ?cap) t = (has_capacity (Some cap) t \<and> t \<noteq> s)"
    if "t \<in> set (ring_walk ring (successor (vnodes ring) ?h))" for t
    using bound [OF that] by (cases "t = s") (simp_all add: has_capacity_def word_unat_eq_iff)
  have ks: "key_servers ring ?h (Some ?cap) = filter (\<lambda>t. t \<noteq> s) (key_servers ring ?h (Some cap))"
    unfolding key_servers_def filter_filter by (rule filter_cong) (auto simp: cap)
  have "take (length (filter P (take n xs))) (take n (filter P xs)) = filter P (take n xs)" for P and xs :: "u32 list"
  proof -
    have "filter P xs = filter P (take n xs) @ filter P (drop n xs)" by (metis append_take_drop_id filter_append)
    moreover have "length (filter P (take n xs)) \<le> n" by (metis length_filter_le length_take min.boundedE)
    ultimately show ?thesis by (simp add: take_append)
  qed
  moreover have "s \<notin> set ss'" unfolding ss' ks by (auto dest: in_set_takeD)
  ultimately show ?thesis unfolding ss ss' ks by simp
qed

theorem ch_ring_minimal_disruption_witness:
  "ch_ring_get_servers (\<lambda>x. x) 15 small_ring 2 (Some [9, 9, 9]) = Inr ([0, 2], 0, Some [8, 9, 8]) \<and>
   ch_ring_get_servers (\<lambda>x. x) 15 small_ring 2 (Some [0, 9, 9]) = Inr ([2, 1], 0, Some [0, 8, 8]) \<and>
   take 1 [2, 1 :: u32] = filter (\<lambda>t. t \<noteq> 0) [0, 2]"
proof -
  have a: "ch_ring_get_servers (\<lambda>x. x) 15 small_ring 2 (Some [9, 9, 9]) = Inr ([0, 2], 0, Some [8, 9, 8])"
    using get_servers_walk [OF small_ring_ok(1) _ small_ring_ok(2), of "Some [9, 9, 9]" "\<lambda>x. x" 15 2]
    by (simp add: small_ring_keys small_ring_cap small_ring_lead use_capacity_def)
  have b: "ch_ring_get_servers (\<lambda>x. x) 15 small_ring 2 (Some [0, 9, 9]) = Inr ([2, 1], 0, Some [0, 8, 8])"
    using get_servers_walk [OF small_ring_ok(1) _ small_ring_ok(2), of "Some [0, 9, 9]" "\<lambda>x. x" 15 2]
    by (simp add: small_ring_keys small_ring_cap small_ring_lead use_capacity_def)
  show ?thesis
    using a b ch_ring_minimal_disruption [OF small_ring_ok, of "[9, 9, 9]" "\<lambda>x. x" 15 2 "[0, 2]" 0 "Some [8, 9, 8]" 0 "[2, 1]" 0 "Some [0, 8, 8]"]
    by (simp add: small_ring_def)
qed

end
