(* ===== verification/CacheServer.thy ===== *)
theory CacheServer
  imports CachePolicy Ieee
begin

text \<open>
  \<^verbatim>\<open>src/include/cacheServer.hpp\<close> and \<^verbatim>\<open>src/cacheServer.cpp\<close>: a cache server of the cluster, with its
  main cache, an optional gutter cache, the two bytes of metadata (object type and chunk id) it keeps
  in every cached object, and its availability. The hash table operations are the argument \<open>H\<close>.
  The caches are the ones of \<^verbatim>\<open>cache/cache.c\<close>; every operation that looks an object up may change the
  counters of the hash table and stores the hash value in the request, so it returns both.
\<close>

section \<open>Data\<close>

text \<open>\<^verbatim>\<open>obj_type_e\<close> is stored in a byte and cast back, so it is a number here.\<close>

type_synonym obj_type_e = u8

definition full_obj :: obj_type_e where "full_obj = 1"
definition chunk_obj :: obj_type_e where "chunk_obj = 2"
definition unknown_obj_type :: obj_type_e where "unknown_obj_type = 3"
definition invalid_obj :: obj_type_e where "invalid_obj = 4"

lemmas obj_type_defs = full_obj_def chunk_obj_def unknown_obj_type_def invalid_obj_def

datatype cache_type_e = main_cache | gutter_cache | unknown_cache | invalid_cache

datatype cache_alg = lru | fifo | other_alg string

record server_params_t =
  sp_server_id :: u32
  sp_cache_size :: u64
  sp_cache_alg :: cache_alg
  sp_EC_n :: u32
  sp_EC_k :: u32
  sp_gutter_space :: rat

record cacheServer =
  server_params :: server_params_t
  gutter_prob :: int
  main :: cache_t
  gcache :: "cache_t option"
  available :: bool
  sv_req_cnt :: u64
  sv_hit_cnt :: u64
  gutter_hit_cnt :: u64
  gutter_req_cnt :: u64

text \<open>\<^verbatim>\<open>curr_host_id\<close> is the lower half of the union with \<^verbatim>\<open>extra_field2\<close>.\<close>

definition set_curr_host_id :: "u32 \<Rightarrow> request_t \<Rightarrow> request_t" where
  "set_curr_host_id i req = req\<lparr>extra_field2 := push_bit 32 (drop_bit 32 (extra_field2 req)) OR ucast i\<rparr>"

text \<open>\<^verbatim>\<open>extra_metadata_u8[i]\<close>, bytes of the word \<open>extra_metadata\<close>, the lowest first.\<close>

definition metadata_u8 :: "nat \<Rightarrow> u64 \<Rightarrow> u8" where
  "metadata_u8 i m = ucast (drop_bit (8 * i) m)"

definition set_metadata_u8 :: "nat \<Rightarrow> u8 \<Rightarrow> u64 \<Rightarrow> u64" where
  "set_metadata_u8 i b m = (m AND NOT (push_bit (8 * i) 0xff)) OR push_bit (8 * i) (ucast b)"

section \<open>Construction\<close>

text \<open>The function pointers that \<^verbatim>\<open>LRU_init\<close> and \<^verbatim>\<open>FIFO_init\<close> put into the cache.\<close>

definition alg_ops :: "ht_ops \<Rightarrow> cache_alg \<Rightarrow> cache_ops" where
  "alg_ops H a = (if a = fifo then FIFO_ops H else LRU_ops H)"

text \<open>\<^verbatim>\<open>(long long)(f * cache_size)\<close> for a \<^verbatim>\<open>double\<close> factor.\<close>

definition scale_size :: "rat \<Rightarrow> u64 \<Rightarrow> u64" where
  "scale_size f n = of_int \<lfloor>to_double (f * to_double (of_nat (unat n)))\<rfloor>"

definition new_cacheServer :: "ht_ops \<Rightarrow> server_params_t \<Rightarrow> cacheServer result" where
  "new_cacheServer H params =
    (let ccache = (\<lambda>n. \<lparr>p_cache_size = n, p_default_ttl = 0, p_hash_power = 24\<rparr>);
         g = (if sp_gutter_space params > to_double (1 / 100000)
              then Some (LRU_init H (ccache (scale_size (sp_gutter_space params) (sp_cache_size params)))) else None);
         size = scale_size (to_double (1 - sp_gutter_space params)) (sp_cache_size params)
     in case sp_cache_alg params of
          lru \<Rightarrow> Inr \<lparr>server_params = params, gutter_prob = 100, main = LRU_init H (ccache size), gcache = g,
            available = True, sv_req_cnt = 0, sv_hit_cnt = 0, gutter_hit_cnt = 0, gutter_req_cnt = 0\<rparr>
        | fifo \<Rightarrow> Inr \<lparr>server_params = params, gutter_prob = 100, main = FIFO_init H (ccache size), gcache = g,
            available = True, sv_req_cnt = 0, sv_hit_cnt = 0, gutter_hit_cnt = 0, gutter_req_cnt = 0\<rparr>
        | other_alg _ \<Rightarrow> Inl Aborted)"

section \<open>Look-ups and metadata\<close>

text \<open>The object a server finds for a request: which cache, the pointer, its contents.\<close>

definition get_obj ::
  "ht_ops \<Rightarrow> cacheServer \<Rightarrow> request_t \<Rightarrow> (bool \<times> ptr \<times> request_t \<times> cacheServer) result" where
  "get_obj H sv req =
    rbind (cache_get_obj H (main sv) req) (\<lambda>(cache_obj, req, c).
    let sv = sv\<lparr>main := c\<rparr> in
    if cache_obj = NULL then
      (case gcache sv of
         None \<Rightarrow> Inl Assert_failed
       | Some g \<Rightarrow>
           rbind (cache_get_obj H g req) (\<lambda>(cache_obj, req, g).
           if cache_obj = NULL then Inl Assert_failed
           else Inr (False, cache_obj, req, sv\<lparr>gcache := Some g\<rparr>)))
    else Inr (True, cache_obj, req, sv))"

definition obj_heap :: "bool \<Rightarrow> cacheServer \<Rightarrow> heap" where
  "obj_heap in_main sv = heap (hashtable (if in_main then main sv else the (gcache sv)))"

definition set_obj_heap :: "bool \<Rightarrow> heap \<Rightarrow> cacheServer \<Rightarrow> cacheServer" where
  "set_obj_heap in_main h sv =
    (if in_main then sv\<lparr>main := (main sv)\<lparr>hashtable := (hashtable (main sv))\<lparr>heap := h\<rparr>\<rparr>\<rparr>
     else sv\<lparr>gcache := map_option (\<lambda>g. g\<lparr>hashtable := (hashtable g)\<lparr>heap := h\<rparr>\<rparr>) (gcache sv)\<rparr>)"

text \<open>Reading byte \<open>i\<close> of the object's metadata, and changing the metadata.\<close>

definition read_metadata :: "nat \<Rightarrow> ht_ops \<Rightarrow> cacheServer \<Rightarrow> request_t \<Rightarrow> (u8 \<times> request_t \<times> cacheServer) result" where
  "read_metadata i H sv req =
    rbind (get_obj H sv req) (\<lambda>(m, p, req, sv).
    rbind (load (obj_heap m sv) p) (\<lambda>x. Inr (metadata_u8 i (extra_metadata x), req, sv)))"

definition write_metadata ::
  "(u64 \<Rightarrow> u64) \<Rightarrow> ht_ops \<Rightarrow> cacheServer \<Rightarrow> request_t \<Rightarrow> (request_t \<times> cacheServer) result" where
  "write_metadata f H sv req =
    rbind (get_obj H sv req) (\<lambda>(m, p, req, sv).
    rbind (modify (obj_heap m sv) p (\<lambda>x. x\<lparr>extra_metadata := f (extra_metadata x)\<rparr>)) (\<lambda>h.
    Inr (req, set_obj_heap m h sv)))"

definition get_obj_type :: "ht_ops \<Rightarrow> cacheServer \<Rightarrow> request_t \<Rightarrow> (obj_type_e \<times> request_t \<times> cacheServer) result" where
  "get_obj_type H sv req = read_metadata 0 H sv req"

definition set_obj_type :: "ht_ops \<Rightarrow> cacheServer \<Rightarrow> request_t \<Rightarrow> obj_type_e \<Rightarrow> (request_t \<times> cacheServer) result" where
  "set_obj_type H sv req obj_type = write_metadata (set_metadata_u8 0 obj_type) H sv req"

definition get_chunk_id :: "ht_ops \<Rightarrow> cacheServer \<Rightarrow> request_t \<Rightarrow> (nat \<times> request_t \<times> cacheServer) result" where
  "get_chunk_id H sv req = rbind (read_metadata 1 H sv req) (\<lambda>(b, req, sv). Inr (unat b, req, sv))"

definition set_chunk_id :: "ht_ops \<Rightarrow> cacheServer \<Rightarrow> request_t \<Rightarrow> nat \<Rightarrow> (request_t \<times> cacheServer) result" where
  "set_chunk_id H sv req chunk_id =
    write_metadata (\<lambda>m. set_metadata_u8 1 (of_nat chunk_id) (set_metadata_u8 0 chunk_obj m)) H sv req"

text \<open>\<^verbatim>\<open>check\<close>: whether the object was found, its type (which \<^verbatim>\<open>*obj_type\<close> receives only then).\<close>

definition sv_check ::
  "ht_ops \<Rightarrow> cacheServer \<Rightarrow> request_t \<Rightarrow> (bool \<times> obj_type_e option \<times> request_t \<times> cacheServer) result" where
  "sv_check H sv req =
    (if \<not> available sv then Inr (False, None, req, sv)
     else
       (let sv = sv\<lparr>sv_req_cnt := sv_req_cnt sv + 1\<rparr> in
        rbind (cache_get_obj H (main sv) req) (\<lambda>(cache_obj, req, c).
        let sv = sv\<lparr>main := c\<rparr> in
        if cache_obj \<noteq> NULL then
          (let sv = sv\<lparr>sv_hit_cnt := sv_hit_cnt sv + 1\<rparr> in
           rbind (load (heap (hashtable c)) cache_obj) (\<lambda>x.
           Inr (True, Some (metadata_u8 0 (extra_metadata x)), req, sv)))
        else
          (case gcache sv of
             None \<Rightarrow> Inr (False, None, req, sv)
           | Some g \<Rightarrow>
               rbind (cache_get_obj H g req) (\<lambda>(cache_obj, req, g).
               let sv = sv\<lparr>gcache := Some g, gutter_req_cnt := gutter_req_cnt sv + 1\<rparr> in
               if cache_obj \<noteq> NULL then
                 (let sv = sv\<lparr>gutter_hit_cnt := gutter_hit_cnt sv + 1\<rparr> in
                  rbind (load (heap (hashtable g)) cache_obj) (\<lambda>x.
                  Inr (True, Some (metadata_u8 0 (extra_metadata x)), req, sv)))
               else Inr (False, None, req, sv))))))"

section \<open>Requests\<close>

definition get_main :: "ht_ops \<Rightarrow> cacheServer \<Rightarrow> request_t \<Rightarrow> (cache_ck_res_e \<times> request_t \<times> cacheServer) result" where
  "get_main H sv req =
    rbind (cache_get (alg_ops H (sp_cache_alg (server_params sv))) (main sv) req) (\<lambda>(ck, req, c).
    Inr (ck, req, sv\<lparr>main := c\<rparr>))"

definition get_gutter :: "ht_ops \<Rightarrow> cacheServer \<Rightarrow> request_t \<Rightarrow> (cache_ck_res_e \<times> request_t \<times> cacheServer) result" where
  "get_gutter H sv req =
    (case gcache sv of
       None \<Rightarrow> Inl Null_deref
     | Some g \<Rightarrow>
         rbind (cache_get (LRU_ops H) g req) (\<lambda>(ck, req, g). Inr (ck, req, sv\<lparr>gcache := Some g\<rparr>)))"

definition get_unknown :: "ht_ops \<Rightarrow> cacheServer \<Rightarrow> request_t \<Rightarrow> (cache_ck_res_e \<times> request_t \<times> cacheServer) result" where
  "get_unknown H sv req =
    (case gcache sv of
       None \<Rightarrow> get_main H sv req
     | Some g \<Rightarrow>
         rbind (cache_get_obj H g req) (\<lambda>(cache_obj, req, g).
         let sv = sv\<lparr>gcache := Some g\<rparr> in
         if cache_obj \<noteq> NULL then get_gutter H sv req else get_main H sv req))"

text \<open>\<^verbatim>\<open>get\<close> ends with \<^verbatim>\<open>assert(check(req, nullptr))\<close>, whose call counts as a request.\<close>

definition sv_get ::
  "ht_ops \<Rightarrow> cacheServer \<Rightarrow> request_t \<Rightarrow> cache_type_e \<Rightarrow> (bool \<times> request_t \<times> cacheServer) result" where
  "sv_get H sv req cache_type =
    (if \<not> available sv then Inr (False, req, sv)
     else
       (let req = set_curr_host_id (sp_server_id (server_params sv)) req in
        rbind (case cache_type of
                 gutter_cache \<Rightarrow> get_gutter H sv req
               | main_cache \<Rightarrow> get_main H sv req
               | unknown_cache \<Rightarrow> get_unknown H sv req
               | invalid_cache \<Rightarrow> Inl Aborted) (\<lambda>(ck, req, sv).
        rbind (sv_check H sv req) (\<lambda>(found, _, req, sv).
        if found then Inr (ck = cache_ck_hit, req, sv) else Inl Assert_failed))))"

section \<open>Availability\<close>

definition set_unavailable :: "cacheServer \<Rightarrow> cacheServer" where
  "set_unavailable sv = sv\<lparr>available := False\<rparr>"

definition set_available :: "cacheServer \<Rightarrow> cacheServer" where
  "set_available sv = sv\<lparr>available := True\<rparr>"

end
