(* ===== verification/CacheCluster.thy ===== *)
theory CacheCluster
  imports CacheServer ConsistentHash "HOL-Library.AList"
begin

text \<open>
  \<^verbatim>\<open>src/cacheCluster.cpp\<close>, \<^verbatim>\<open>src/include/cacheCluster.hpp\<close> and the statistics of \<^verbatim>\<open>src/include/stat.hpp\<close>:
  the cluster of cache servers, its mapping of buckets to servers, and the handling of a request as
  full copies or as the chunks of an erasure code. The build is the one of \<^verbatim>\<open>C2DNconfig.h\<close>: bucket
  hashing with 100 buckets, miss ratios tracked per server, no gutter space.

  Code outside the repository is a parameter: the numbers \<^verbatim>\<open>rand\<close> returns are the sequence \<open>rands\<close> of
  the cluster, and the solver of or-tools is the argument \<open>max_flow\<close> of \<open>find_parity_mapping\<close>.
  Reports printed to the log are left out.
\<close>

section \<open>Data\<close>

definition MAX_EC_N :: nat where "MAX_EC_N = 16"
definition MAX_N_SERVER :: nat where "MAX_N_SERVER = 128"
definition MAX_N_UNAVAIL :: nat where "MAX_N_UNAVAIL = 2"
definition N_BUCKET :: nat where "N_BUCKET = 100"

datatype trace_format_e = akamai1b | akamai1bWithHost | akamai1bWithBucket

datatype cluster_mode_e = no_replication | two_rep_popularity | two_rep_always | two_rep_always_gutter
  | C2DN | C2DN_add_n | three_rep_always | C2DN_add_n_three_rep | erft | invalid_mode

datatype server_chunk_stat_e = correct_chunk | incorrect_chunk | no_chunk | has_not_checked | invalid_chunk_status

record cluster_hit_t =
  is_hit :: bool
  is_ICP_hit :: bool
  is_RAM_hit :: bool
  n_chunk_hit :: u32
  req_host :: int
  obj_type :: obj_type_e

record cluster_params_t =
  cluster_id :: u64
  trace_format :: trace_format_e
  p_cache_servers :: "cacheServer list"
  cp_n_server :: nat
  p_server_cache_sizes :: "u64 list"
  server_weight :: "u32 list option"
  admission :: u32
  check_one_more :: bool
  parity_rebalance :: bool
  cluster_mode :: cluster_mode_e

record EC_params_t =
  ec_n :: nat
  ec_k :: nat
  size_threshold :: u32

record cacheClusterStat =
  st_cluster_id :: u64
  st_n_server :: nat
  n_avail_server :: u64
  server_cache_sizes :: "u64 list"
  cluster_cache_size :: u64
  cluster_cache_size_in_gb :: u64
  cluster_cache_size_in_mb :: u64
  cluster_hit_cnt :: u64
  cluster_req_cnt :: u64
  cluster_hit_bytes :: u64
  cluster_req_bytes :: u64
  full_obj_hit_cnt :: u64
  full_obj_hit_bytes :: u64
  chunk_obj_hit_cnt :: u64
  chunk_obj_hit_bytes :: u64
  n_miss :: "u64 list"
  midgress_bytes :: u64
  intra_cluster_bytes :: u64

record bucketStat =
  b_req_cnt :: u64
  b_hit_cnt :: u64
  b_req_byte :: u64
  b_midgress :: u64

record cacheCluster =
  ring :: ring_t
  ch_mapping :: "u32 \<rightharpoonup> u32 list"
  prev_ch_mapping :: "u32 \<rightharpoonup> u32 list"
  ori_lead_mapping :: "u32 \<rightharpoonup> u32"
  n_bucket_per_server :: "u32 list"
  obj_freq_map :: "u32 \<rightharpoonup> u32"
  cluster_check :: cluster_hit_t
  cluster_params :: cluster_params_t
  ec_params :: EC_params_t
  read_load_byte :: "u64 list"
  write_load_byte :: "u64 list"
  cache_servers :: "cacheServer list"
  cluster_stat :: cacheClusterStat
  bucket_stat :: "bucketStat list"
  rands :: "nat \<Rightarrow> nat"
  rand_idx :: nat

text \<open>\<^verbatim>\<open>bucket_id\<close> and \<^verbatim>\<open>original_server\<close> are the halves of the union with \<^verbatim>\<open>extra_field1\<close>.\<close>

definition bucket_id :: "request_t \<Rightarrow> u32" where
  "bucket_id req = ucast (extra_field1 req)"

definition original_server :: "request_t \<Rightarrow> u32" where
  "original_server req = ucast (drop_bit 32 (extra_field1 req))"

definition set_bucket_id :: "u32 \<Rightarrow> request_t \<Rightarrow> request_t" where
  "set_bucket_id b req = req\<lparr>extra_field1 := push_bit 32 (drop_bit 32 (extra_field1 req)) OR ucast b\<rparr>"

definition set_original_server :: "u32 \<Rightarrow> request_t \<Rightarrow> request_t" where
  "set_original_server s req = req\<lparr>extra_field1 := push_bit 32 (ucast s) OR (extra_field1 req AND 0xffffffff)\<rparr>"

text \<open>\<^verbatim>\<open>rand()\<close>\<close>

definition rand :: "cacheCluster \<Rightarrow> nat \<times> cacheCluster" where
  "rand c = (rands c (rand_idx c), c\<lparr>rand_idx := Suc (rand_idx c)\<rparr>)"

section \<open>Statistics\<close>

definition new_cacheClusterStat :: "u64 \<Rightarrow> nat \<Rightarrow> u64 list \<Rightarrow> nat \<Rightarrow> nat \<Rightarrow> cacheClusterStat result" where
  "new_cacheClusterStat cid n sizes EC_n EC_k =
    (if length sizes < n then Inl Out_of_bounds
     else
       (let total = sum_list (take n sizes) in
        Inr \<lparr>st_cluster_id = cid, st_n_server = n, n_avail_server = of_nat n,
          server_cache_sizes = take n sizes, cluster_cache_size = total,
          cluster_cache_size_in_gb = (total + 10) div (1000 * 1000 * 1000),
          cluster_cache_size_in_mb = (total + 10) div (1000 * 1000),
          cluster_hit_cnt = 0, cluster_req_cnt = 0, cluster_hit_bytes = 0, cluster_req_bytes = 0,
          full_obj_hit_cnt = 0, full_obj_hit_bytes = 0, chunk_obj_hit_cnt = 0, chunk_obj_hit_bytes = 0,
          n_miss = replicate EC_n 0, midgress_bytes = 0, intra_cluster_bytes = 0\<rparr>))"

definition zero_bucketStat :: bucketStat where
  "zero_bucketStat = \<lparr>b_req_cnt = 0, b_hit_cnt = 0, b_req_byte = 0, b_midgress = 0\<rparr>"

text \<open>\<^verbatim>\<open>v[i] += d\<close> on a vector, without a bounds check in the code.\<close>

definition add_at :: "u64 \<Rightarrow> u64 list \<Rightarrow> nat \<Rightarrow> u64 list result" where
  "add_at d v i = (if i < length v then Inr (v[i := v ! i + d]) else Inl Out_of_bounds)"

definition add_read_load :: "u64 \<Rightarrow> u32 \<Rightarrow> cacheCluster \<Rightarrow> cacheCluster result" where
  "add_read_load d i c = rbind (add_at d (read_load_byte c) (unat i)) (\<lambda>v. Inr (c\<lparr>read_load_byte := v\<rparr>))"

definition add_write_load :: "u64 \<Rightarrow> u32 \<Rightarrow> cacheCluster \<Rightarrow> cacheCluster result" where
  "add_write_load d i c = rbind (add_at d (write_load_byte c) (unat i)) (\<lambda>v. Inr (c\<lparr>write_load_byte := v\<rparr>))"

definition upd_bucket_stat :: "(bucketStat \<Rightarrow> bucketStat) \<Rightarrow> request_t \<Rightarrow> cacheCluster \<Rightarrow> cacheCluster result" where
  "upd_bucket_stat f req c =
    (let i = unat (original_server req) in
     if i < length (bucket_stat c) then Inr (c\<lparr>bucket_stat := (bucket_stat c)[i := f (bucket_stat c ! i)]\<rparr>)
     else Inl Out_of_bounds)"

definition upd_stat :: "(cacheClusterStat \<Rightarrow> cacheClusterStat) \<Rightarrow> cacheCluster \<Rightarrow> cacheCluster" where
  "upd_stat f c = c\<lparr>cluster_stat := f (cluster_stat c)\<rparr>"

definition upd_check :: "(cluster_hit_t \<Rightarrow> cluster_hit_t) \<Rightarrow> cacheCluster \<Rightarrow> cacheCluster" where
  "upd_check f c = c\<lparr>cluster_check := f (cluster_check c)\<rparr>"

section \<open>Calls of servers\<close>

text \<open>\<^verbatim>\<open>cache_servers.at(i)\<close> throws for an index out of range.\<close>

definition on_server ::
  "(cacheServer \<Rightarrow> ('a \<times> cacheServer) result) \<Rightarrow> u32 \<Rightarrow> cacheCluster \<Rightarrow> ('a \<times> cacheCluster) result" where
  "on_server f i c =
    (if unat i < length (cache_servers c) then
       rbind (f (cache_servers c ! unat i)) (\<lambda>(a, sv).
       Inr (a, c\<lparr>cache_servers := (cache_servers c)[unat i := sv]\<rparr>))
     else Inl Out_of_bounds)"

definition server_check ::
  "ht_ops \<Rightarrow> u32 \<Rightarrow> request_t \<Rightarrow> cacheCluster \<Rightarrow> ((bool \<times> obj_type_e option \<times> request_t) \<times> cacheCluster) result" where
  "server_check H i req c =
    on_server (\<lambda>sv. rbind (sv_check H sv req) (\<lambda>(b, t, req, sv). Inr ((b, t, req), sv))) i c"

definition server_chunk_id ::
  "ht_ops \<Rightarrow> u32 \<Rightarrow> request_t \<Rightarrow> cacheCluster \<Rightarrow> ((nat \<times> request_t) \<times> cacheCluster) result" where
  "server_chunk_id H i req c =
    on_server (\<lambda>sv. rbind (get_chunk_id H sv req) (\<lambda>(k, req, sv). Inr ((k, req), sv))) i c"

text \<open>\<^verbatim>\<open>get\<close> followed by \<^verbatim>\<open>set_obj_type(req, full_obj)\<close>, and by \<^verbatim>\<open>set_chunk_id\<close>.\<close>

definition store_full ::
  "ht_ops \<Rightarrow> cache_type_e \<Rightarrow> u32 \<Rightarrow> request_t \<Rightarrow> cacheCluster \<Rightarrow> (request_t \<times> cacheCluster) result" where
  "store_full H ct i req c =
    rbind (on_server (\<lambda>sv. rbind (sv_get H sv req ct) (\<lambda>(_, req, sv). Inr (req, sv))) i c) (\<lambda>(req, c).
    on_server (\<lambda>sv. set_obj_type H sv req full_obj) i c)"

definition store_chunk ::
  "ht_ops \<Rightarrow> cache_type_e \<Rightarrow> nat \<Rightarrow> u32 \<Rightarrow> request_t \<Rightarrow> cacheCluster \<Rightarrow> (request_t \<times> cacheCluster) result" where
  "store_chunk H ct j i req c =
    rbind (on_server (\<lambda>sv. rbind (sv_get H sv req ct) (\<lambda>(_, req, sv). Inr (req, sv))) i c) (\<lambda>(req, c).
    on_server (\<lambda>sv. set_chunk_id H sv req j) i c)"

text \<open>An element of the array \<^verbatim>\<open>server_idxs\<close>.\<close>

definition idx_at :: "u32 list \<Rightarrow> nat \<Rightarrow> u32 result" where
  "idx_at xs i = (if i < length xs then Inr (xs ! i) else Inl Out_of_bounds)"

section \<open>Admission\<close>

definition get_freq :: "request_t \<Rightarrow> bool \<Rightarrow> cacheCluster \<Rightarrow> u32 \<times> cacheCluster" where
  "get_freq req inc c =
    (let key = ucast (obj_id_int req); freq = (case obj_freq_map c key of None \<Rightarrow> 0 | Some f \<Rightarrow> f)
     in (freq, if inc then c\<lparr>obj_freq_map := (obj_freq_map c)(key \<mapsto> freq + 1)\<rparr> else c))"

definition should_admit :: "request_t \<Rightarrow> cacheCluster \<Rightarrow> bool \<times> cacheCluster" where
  "should_admit req c =
    (if admission (cluster_params c) \<le> 0 then (True, c)
     else
       (let (freq, c) = get_freq req False c;
            admit = freq \<ge> admission (cluster_params c);
            (_, c) = get_freq req True c
        in (admit, c)))"

definition check_coding_policy :: "request_t \<Rightarrow> cacheCluster \<Rightarrow> bool result" where
  "check_coding_policy req c =
    (case cluster_mode (cluster_params c) of
       no_replication \<Rightarrow> Inr False | two_rep_popularity \<Rightarrow> Inr False | two_rep_always \<Rightarrow> Inr False
     | two_rep_always_gutter \<Rightarrow> Inr False | three_rep_always \<Rightarrow> Inr False
     | C2DN \<Rightarrow> Inr (obj_size req > ucast (size_threshold (ec_params c)))
     | C2DN_add_n \<Rightarrow> Inr (obj_size req > ucast (size_threshold (ec_params c)))
     | C2DN_add_n_three_rep \<Rightarrow> Inr (obj_size req > ucast (size_threshold (ec_params c)))
     | erft \<Rightarrow> Inl Aborted | invalid_mode \<Rightarrow> Inl Aborted)"

section \<open>The mapping of buckets to servers\<close>

text \<open>The arcs \<^verbatim>\<open>find_parity_mapping\<close> adds, as tail, head and capacity: from the source 0 to server \<open>i\<close>,
  which is node \<open>2 + i\<close>, from there to the buckets the server has no data chunk of, and from every
  bucket to the sink 1.\<close>

definition buckets_on_server :: "cacheCluster \<Rightarrow> nat \<Rightarrow> nat list" where
  "buckets_on_server c i =
    filter (\<lambda>b. of_nat i \<in> set (take (ec_n (ec_params c) - 1) (the (ch_mapping c (of_nat b))))) [0 ..< N_BUCKET]"

definition server_cap :: "cacheCluster \<Rightarrow> int" where
  "server_cap c = \<lceil>to_double (to_double (of_nat N_BUCKET * of_nat (ec_n (ec_params c))) /
     to_double (of_nat (unat (n_avail_server (cluster_stat c)))))\<rceil>"

definition server_arcs :: "cacheCluster \<Rightarrow> nat \<Rightarrow> (nat \<times> nat \<times> int) list" where
  "server_arcs c i =
    (let bs = buckets_on_server c i; n = length (n_bucket_per_server c);
         cap = (if bs = [] then 0 else server_cap c - int (length bs))
     in (0, 2 + i, max 0 cap) # map (\<lambda>b. (2 + i, 2 + n + b, 1)) (filter (\<lambda>b. b \<notin> set bs) [0 ..< N_BUCKET]))"

definition parity_arcs :: "cacheCluster \<Rightarrow> (nat \<times> nat \<times> int) list" where
  "parity_arcs c =
    (let n = length (n_bucket_per_server c) in
     concat (map (server_arcs c) [0 ..< n]) @ map (\<lambda>i. (2 + n + i, 1, 1)) [0 ..< N_BUCKET])"

text \<open>The entries from \<^verbatim>\<open>n\<close> on move back by one, the parity server becomes entry \<^verbatim>\<open>n - 1\<close>.\<close>

definition shift_in :: "nat \<Rightarrow> u32 \<Rightarrow> u32 list \<Rightarrow> u32 list" where
  "shift_in n s xs = (fold (\<lambda>j xs. xs[j := xs ! (j - 1)]) (rev [n ..< n + MAX_N_UNAVAIL]) xs)[n - 1 := s]"

definition add_parity :: "nat \<times> nat \<Rightarrow> cacheCluster \<Rightarrow> cacheCluster result" where
  "add_parity a c =
    (let s = fst a - 2; b = snd a - 2 - length (n_bucket_per_server c) in
     case ch_mapping c (of_nat b) of
       None \<Rightarrow> Inl Null_deref
     | Some xs \<Rightarrow>
         if s < length (n_bucket_per_server c) then
           Inr (c\<lparr>ch_mapping := (ch_mapping c)(of_nat b \<mapsto> shift_in (ec_n (ec_params c)) (of_nat s) xs),
             n_bucket_per_server := (n_bucket_per_server c)[s := n_bucket_per_server c ! s + 1]\<rparr>)
         else Inl Out_of_bounds)"

fun add_parities :: "(nat \<times> nat) list \<Rightarrow> cacheCluster \<Rightarrow> cacheCluster result" where
  "add_parities [] c = Inr c"
| "add_parities (a # as) c = rbind (add_parity a c) (add_parities as)"

definition find_parity_mapping :: "((nat \<times> nat \<times> int) list \<Rightarrow> int list) \<Rightarrow> cacheCluster \<Rightarrow> cacheCluster result" where
  "find_parity_mapping max_flow c =
    (if n_avail_server (cluster_stat c) = 0 then Inl Division_by_zero
     else if \<exists>i < length (n_bucket_per_server c). buckets_on_server c i = [] \<and> available (cache_servers c ! i)
       then Inl Assert_failed
     else
       (let arcs = parity_arcs c in
        add_parities (map (\<lambda>((tail, head, _), _). (tail, head))
          (filter (\<lambda>((tail, head, _), flow). tail \<noteq> 0 \<and> head \<noteq> 1 \<and> 0 < flow) (zip arcs (max_flow arcs)))) c))"

text \<open>One bucket of \<^verbatim>\<open>populate_hash_mapping\<close>. The capacities are carried from bucket to bucket.\<close>

definition count_bucket :: "u32 \<Rightarrow> u32 list \<Rightarrow> u32 list result" where
  "count_bucket s v = (if unat s < length v then Inr (v[unat s := v ! unat s + 1]) else Inl Out_of_bounds)"

fun count_buckets :: "u32 list \<Rightarrow> u32 list \<Rightarrow> u32 list result" where
  "count_buckets [] v = Inr v"
| "count_buckets (s # ss) v = rbind (count_bucket s v) (count_buckets ss)"

definition map_bucket :: "(u64 \<Rightarrow> u64) \<Rightarrow> nat \<Rightarrow> u32 list option \<Rightarrow> cacheCluster \<Rightarrow> (u32 list option \<times> cacheCluster) result" where
  "map_bucket hash b data_capacity c =
    rbind (ch_ring_get_servers hash (of_nat b) (ring c) (ec_n (ec_params c) + MAX_N_UNAVAIL) data_capacity)
      (\<lambda>(server_idxs, original_lead_server, data_capacity).
    rbind (count_buckets (take (if parity_rebalance (cluster_params c) then ec_n (ec_params c) - 1 else ec_n (ec_params c))
      server_idxs) (n_bucket_per_server c)) (\<lambda>v.
    Inr (data_capacity, c\<lparr>ch_mapping := (ch_mapping c)(of_nat b \<mapsto> server_idxs),
      ori_lead_mapping := (ori_lead_mapping c)(of_nat b \<mapsto> original_lead_server), n_bucket_per_server := v\<rparr>)))"

fun map_buckets :: "(u64 \<Rightarrow> u64) \<Rightarrow> nat list \<Rightarrow> u32 list option \<Rightarrow> cacheCluster \<Rightarrow> cacheCluster result" where
  "map_buckets hash [] cap c = Inr c"
| "map_buckets hash (b # bs) cap c = rbind (map_bucket hash b cap c) (\<lambda>(cap, c). map_buckets hash bs cap c)"

definition data_capacity :: "cacheCluster \<Rightarrow> u32 list" where
  "data_capacity c = map (\<lambda>sv. if available sv then of_nat (N_BUCKET * ec_n (ec_params c)) else 0) (cache_servers c)"

definition populate_hash_mapping ::
  "(u64 \<Rightarrow> u64) \<Rightarrow> ((nat \<times> nat \<times> int) list \<Rightarrow> int list) \<Rightarrow> cacheCluster \<Rightarrow> cacheCluster result" where
  "populate_hash_mapping hash max_flow c =
    rbind (map_buckets hash [0 ..< N_BUCKET] (Some (data_capacity c))
      (c\<lparr>n_bucket_per_server := replicate (length (cache_servers c)) 0\<rparr>)) (\<lambda>c.
    if parity_rebalance (cluster_params c) then find_parity_mapping max_flow c else Inr c)"

text \<open>With bucket hashing a key outside the map is a failed assertion.\<close>

definition get_consistent_hash_mapping :: "u64 \<Rightarrow> cacheCluster \<Rightarrow> (u32 list \<times> u32) result" where
  "get_consistent_hash_mapping i c =
    (case ch_mapping c (ucast i) of
       None \<Rightarrow> Inl Assert_failed
     | Some server_idxs \<Rightarrow>
         (case ori_lead_mapping c (ucast i) of None \<Rightarrow> Inl Bad_pointer | Some l \<Rightarrow> Inr (server_idxs, l)))"

section \<open>Construction, failure and recovery\<close>

definition new_cluster_hit :: cluster_hit_t where
  "new_cluster_hit = \<lparr>is_hit = False, is_ICP_hit = False, is_RAM_hit = False, n_chunk_hit = 0, req_host = 0, obj_type = 0\<rparr>"

definition new_cacheCluster ::
  "((vnode_t \<Rightarrow> vnode_t \<Rightarrow> int) \<Rightarrow> vnode_t list \<Rightarrow> vnode_t list) \<Rightarrow> vnode_t list \<Rightarrow> (u64 \<Rightarrow> u64) \<Rightarrow>
   ((nat \<times> nat \<times> int) list \<Rightarrow> int list) \<Rightarrow> (nat \<Rightarrow> nat) \<Rightarrow> cluster_params_t \<Rightarrow> EC_params_t \<Rightarrow> cacheCluster result" where
  "new_cacheCluster qsort raw hash max_flow rng params ec =
    (let n = cp_n_server params in
     rbind (new_cacheClusterStat (cluster_id params) n (p_server_cache_sizes params) (ec_n ec) (ec_k ec)) (\<lambda>st.
     if length (p_cache_servers params) < n then Inl Out_of_bounds
     else
       rbind (ch_ring_create qsort raw n (server_weight params)) (\<lambda>rg.
       populate_hash_mapping hash max_flow
         \<lparr>ring = rg, ch_mapping = (\<lambda>_. None), prev_ch_mapping = (\<lambda>_. None), ori_lead_mapping = (\<lambda>_. None),
          n_bucket_per_server = [], obj_freq_map = (\<lambda>_. None), cluster_check = new_cluster_hit,
          cluster_params = params, ec_params = ec, read_load_byte = replicate n 0, write_load_byte = replicate n 0,
          cache_servers = take n (p_cache_servers params), cluster_stat = st,
          bucket_stat = replicate n zero_bucketStat, rands = rng, rand_idx = 0\<rparr>)))"

definition reset_consistent_hash_mapping :: "cacheCluster \<Rightarrow> cacheCluster" where
  "reset_consistent_hash_mapping c = c\<lparr>prev_ch_mapping := ch_mapping c, ch_mapping := (\<lambda>_. None)\<rparr>"

definition fail_one_server :: "u32 \<Rightarrow> cacheCluster \<Rightarrow> (bool \<times> cacheCluster) result" where
  "fail_one_server i c =
    rbind (on_server (\<lambda>sv. Inr ((), set_unavailable sv)) i (reset_consistent_hash_mapping c)) (\<lambda>(_, c).
    let c = upd_stat (\<lambda>st. st\<lparr>n_avail_server := n_avail_server st - 1\<rparr>) c
    in Inr (available (cache_servers c ! unat i), c))"

definition recover_one_server :: "u32 \<Rightarrow> cacheCluster \<Rightarrow> (bool \<times> cacheCluster) result" where
  "recover_one_server i c =
    (if length (cache_servers c) \<le> unat i then Inl Out_of_bounds
     else if \<not> available (cache_servers c ! unat i) then
       rbind (on_server (\<lambda>sv. Inr ((), set_available sv)) i (reset_consistent_hash_mapping c)) (\<lambda>(_, c).
       let c = upd_stat (\<lambda>st. st\<lparr>n_avail_server := n_avail_server st + 1\<rparr>) c
       in Inr (available (cache_servers c ! unat i), c))
     else Inr (available (cache_servers c ! unat i), c))"

section \<open>The servers of a request\<close>

text \<open>The index of the lead server, and of the second one; the difference of unsigned numbers wraps.\<close>

definition select_lead :: "cacheCluster \<Rightarrow> nat \<times> cacheCluster" where
  "select_lead c =
    (let m = cluster_mode (cluster_params c) in
     if ec_n (ec_params c) = 1 \<or> m = erft \<or> m = two_rep_always_gutter then (0, c)
     else
       (let (r, c) = rand c in
        (if m = three_rep_always \<or> m = C2DN_add_n_three_rep then r mod 3 else r mod 2, c)))"

definition second_idx :: "nat \<Rightarrow> nat \<Rightarrow> nat" where
  "second_idx idx_selected r = unat ((of_nat idx_selected - of_nat (r mod 2) - 1 :: u32) mod 3)"

definition select_second :: "nat \<Rightarrow> cacheCluster \<Rightarrow> nat \<times> cacheCluster" where
  "select_second idx_selected c =
    (let m = cluster_mode (cluster_params c) in
     if m = three_rep_always \<or> m = C2DN_add_n_three_rep then
       (let (r, c) = rand c in (second_idx idx_selected r, c))
     else (1 - idx_selected, c))"

definition request_bucket :: "request_t \<Rightarrow> cacheCluster \<Rightarrow> request_t result" where
  "request_bucket req c =
    (if trace_format (cluster_params c) = akamai1bWithBucket then
       (if sint (bucket_id req) \<le> int N_BUCKET \<and> sint (bucket_id req) \<ge> 0 then Inr req else Inl Assert_failed)
     else Inr (set_bucket_id (ucast (obj_id_int req mod of_nat N_BUCKET)) req))"

text \<open>The servers of the request's bucket, the two lead servers, the request, the cluster.\<close>

definition find_mapped_servers ::
  "request_t \<Rightarrow> cacheCluster \<Rightarrow> (u32 list \<times> u32 \<times> u32 \<times> request_t \<times> cacheCluster) result" where
  "find_mapped_servers req c =
    (let (idx_selected, c) = select_lead c in
     rbind (request_bucket req c) (\<lambda>req.
     rbind (get_consistent_hash_mapping (ucast (bucket_id req)) c) (\<lambda>(server_idxs, ori_lead).
     let req = set_original_server ori_lead req in
     rbind (idx_at server_idxs idx_selected) (\<lambda>lead_server.
     let (snd_idx, c) = select_second idx_selected c in
     rbind (idx_at server_idxs snd_idx) (\<lambda>second_lead.
     Inr (server_idxs, lead_server, second_lead, req, upd_check (\<lambda>k. k\<lparr>req_host := sint lead_server\<rparr>) c))))))"

section \<open>Full objects\<close>

text \<open>\<^verbatim>\<open>get\<close> and \<^verbatim>\<open>set_obj_type\<close> on the servers at the first \<open>m\<close> entries.\<close>

fun store_full_all :: "ht_ops \<Rightarrow> u32 list \<Rightarrow> request_t \<Rightarrow> cacheCluster \<Rightarrow> (request_t \<times> cacheCluster) result" where
  "store_full_all H [] req c = Inr (req, c)"
| "store_full_all H (i # is) req c =
    rbind (store_full H main_cache i req c) (\<lambda>(req, c). store_full_all H is req c)"

definition first_servers :: "nat \<Rightarrow> u32 list \<Rightarrow> u32 list result" where
  "first_servers m xs = (if m \<le> length xs then Inr (take m xs) else Inl Out_of_bounds)"

definition cache_hit_full_obj ::
  "ht_ops \<Rightarrow> request_t \<Rightarrow> u32 \<Rightarrow> u32 list \<Rightarrow> cacheCluster \<Rightarrow> (request_t \<times> cacheCluster) result" where
  "cache_hit_full_obj H req lead_server server_idxs c =
    (let c = upd_check (\<lambda>k. k\<lparr>is_hit := True\<rparr>) c; m = cluster_mode (cluster_params c) in
     if m = no_replication \<or> m = two_rep_popularity then store_full H main_cache lead_server req c
     else if m = two_rep_always \<or> m = C2DN \<or> m = C2DN_add_n then
       rbind (first_servers 2 server_idxs) (\<lambda>is. store_full_all H is req c)
     else if m = three_rep_always \<or> m = C2DN_add_n_three_rep then
       rbind (first_servers 3 server_idxs) (\<lambda>is. store_full_all H is req c)
     else
       rbind (first_servers 2 server_idxs) (\<lambda>is.
       rbind (store_full H main_cache (is ! 0) req c) (\<lambda>(req, c).
       if m = two_rep_always_gutter then
         (let (r, c) = rand c in
          if int (r mod 100) < gutter_prob (cache_servers c ! unat (is ! 0))
          then store_full H gutter_cache (is ! 1) req c else Inr (req, c))
       else if m = erft then store_full H gutter_cache (is ! 1) req c
       else Inl Aborted)))"

fun write_full_all :: "ht_ops \<Rightarrow> u32 list \<Rightarrow> request_t \<Rightarrow> cacheCluster \<Rightarrow> (request_t \<times> cacheCluster) result" where
  "write_full_all H [] req c = Inr (req, c)"
| "write_full_all H (i # is) req c =
    rbind (add_write_load (obj_size req) i c) (\<lambda>c.
    rbind (store_full H main_cache i req c) (\<lambda>(req, c). write_full_all H is req c))"

definition cache_miss_full_obj ::
  "ht_ops \<Rightarrow> request_t \<Rightarrow> u32 \<Rightarrow> u32 list \<Rightarrow> cacheCluster \<Rightarrow> (request_t \<times> cacheCluster) result" where
  "cache_miss_full_obj H req lead_server server_idxs c =
    (let m = cluster_mode (cluster_params c) in
     if m = no_replication \<or> m = two_rep_popularity then write_full_all H [lead_server] req c
     else if m = two_rep_always \<or> m = C2DN \<or> m = C2DN_add_n then
       rbind (first_servers 2 server_idxs) (\<lambda>is. write_full_all H is req c)
     else if m = three_rep_always \<or> m = C2DN_add_n_three_rep then
       rbind (first_servers 3 server_idxs) (\<lambda>is. write_full_all H is req c)
     else if m = two_rep_always_gutter then
       rbind (first_servers 2 server_idxs) (\<lambda>is. write_full_all H is req c)
     else Inl Aborted)"

section \<open>Chunks\<close>

definition chunk_size :: "u64 \<Rightarrow> nat \<Rightarrow> u64" where
  "chunk_size n k = of_int \<lceil>to_double (to_double (of_nat (unat n)) / of_nat k)\<rceil>"

text \<open>The local arrays of \<^verbatim>\<open>_cache_hit_chunk_obj\<close> and the numbers of chunks found.\<close>

record chunk_info =
  server_chunk_status :: "server_chunk_stat_e list"
  chunk_cnt :: "nat list"
  checked_servers :: "bool list"
  n_hits :: u32
  n_duplicates :: u32

definition new_chunk_info :: "cacheCluster \<Rightarrow> chunk_info" where
  "new_chunk_info c = \<lparr>server_chunk_status = replicate MAX_EC_N has_not_checked, chunk_cnt = replicate MAX_EC_N 0,
     checked_servers = replicate MAX_N_SERVER False, n_hits = n_chunk_hit (cluster_check c), n_duplicates = 0\<rparr>"

text \<open>What is recorded for a chunk found at position \<open>i\<close>.\<close>

definition count_chunk :: "nat \<Rightarrow> nat \<Rightarrow> chunk_info \<Rightarrow> chunk_info" where
  "count_chunk i chunk_id f =
    (let cnt = chunk_cnt f ! chunk_id;
         f = (if cnt = 0
              then f\<lparr>n_hits := n_hits f + 1, server_chunk_status := (server_chunk_status f)[i := correct_chunk]\<rparr>
              else f\<lparr>n_duplicates := n_duplicates f + 1, server_chunk_status := (server_chunk_status f)[i := incorrect_chunk]\<rparr>)
     in f\<lparr>chunk_cnt := (chunk_cnt f)[chunk_id := cnt + 1]\<rparr>)"

definition chunk_info_step ::
  "ht_ops \<Rightarrow> bool \<Rightarrow> nat \<Rightarrow> u32 \<Rightarrow> request_t \<times> chunk_info \<times> cacheCluster \<Rightarrow> (request_t \<times> chunk_info \<times> cacheCluster) result" where
  "chunk_info_step H debug_check i server_idx =
    (\<lambda>(req, f, c).
     rbind (if debug_check then Inr c else add_read_load (obj_size req) server_idx c) (\<lambda>c.
     if length (checked_servers f) \<le> unat server_idx \<or> length (server_chunk_status f) \<le> i then Inl Out_of_bounds
     else if \<not> debug_check \<and> checked_servers f ! unat server_idx then Inl Assert_failed
     else
       (let f = f\<lparr>checked_servers := (checked_servers f)[unat server_idx := True]\<rparr> in
        rbind (server_check H server_idx req c) (\<lambda>((found, _, req), c).
        if found then
          rbind (server_chunk_id H server_idx req c) (\<lambda>((chunk_id, req), c).
          if length (chunk_cnt f) \<le> chunk_id then Inl Out_of_bounds
          else Inr (req, count_chunk i chunk_id f, c))
        else
          rbind (if debug_check then Inr c else add_write_load (obj_size req) server_idx c) (\<lambda>c.
          Inr (req, f\<lparr>server_chunk_status := (server_chunk_status f)[i := no_chunk]\<rparr>, c))))))"

fun chunk_info_loop ::
  "ht_ops \<Rightarrow> bool \<Rightarrow> nat \<Rightarrow> u32 list \<Rightarrow> request_t \<times> chunk_info \<times> cacheCluster \<Rightarrow> (request_t \<times> chunk_info \<times> cacheCluster) result" where
  "chunk_info_loop H debug_check i [] st = Inr st"
| "chunk_info_loop H debug_check i (s # ss) st =
    rbind (chunk_info_step H debug_check i s st) (chunk_info_loop H debug_check (Suc i) ss)"

definition get_chunk_info ::
  "ht_ops \<Rightarrow> bool \<Rightarrow> u32 list \<Rightarrow> request_t \<times> chunk_info \<times> cacheCluster \<Rightarrow> (request_t \<times> chunk_info \<times> cacheCluster) result" where
  "get_chunk_info H debug_check server_idxs st =
    rbind (first_servers (ec_n (ec_params (snd (snd st)))) server_idxs) (\<lambda>is. chunk_info_loop H debug_check 0 is st)"

text \<open>A further server that is asked for a chunk: one of the next two servers, or the former parity
  server. A new chunk counts as a hit, but is not recorded in \<^verbatim>\<open>chunk_cnt\<close>.\<close>

definition check_extra ::
  "ht_ops \<Rightarrow> u32 \<Rightarrow> request_t \<times> chunk_info \<times> cacheCluster \<Rightarrow> (request_t \<times> chunk_info \<times> cacheCluster) result" where
  "check_extra H server_idx =
    (\<lambda>(req, f, c).
     if length (checked_servers f) \<le> unat server_idx then Inl Out_of_bounds
     else if checked_servers f ! unat server_idx then Inr (req, f, c)
     else
       (let f = f\<lparr>checked_servers := (checked_servers f)[unat server_idx := True]\<rparr> in
        rbind (server_check H server_idx req c) (\<lambda>((found, t, req), c).
        if found then
          rbind (add_read_load (obj_size req) server_idx c) (\<lambda>c.
          if t \<noteq> Some chunk_obj then Inl Assert_failed
          else
            rbind (server_chunk_id H server_idx req c) (\<lambda>((chunk_id, req), c).
            if length (chunk_cnt f) \<le> chunk_id then Inl Out_of_bounds
            else Inr (req, if chunk_cnt f ! chunk_id = 0 then f\<lparr>n_hits := n_hits f + 1\<rparr> else f, c)))
        else Inr (req, f, c))))"

fun check_extras ::
  "ht_ops \<Rightarrow> u32 list \<Rightarrow> request_t \<times> chunk_info \<times> cacheCluster \<Rightarrow> (request_t \<times> chunk_info \<times> cacheCluster) result" where
  "check_extras H [] st = Inr st"
| "check_extras H (s # ss) st = rbind (check_extra H s st) (check_extras H ss)"

definition look_further ::
  "ht_ops \<Rightarrow> u32 list \<Rightarrow> request_t \<times> chunk_info \<times> cacheCluster \<Rightarrow> (request_t \<times> chunk_info \<times> cacheCluster) result" where
  "look_further H server_idxs st =
    (let c = snd (snd st); n = ec_n (ec_params c); k = ec_k (ec_params c); p = cluster_params c in
     rbind (if check_one_more p \<or> parity_rebalance p then
              rbind (first_servers (n + MAX_N_UNAVAIL) server_idxs) (\<lambda>is. check_extras H (drop n is) st)
            else Inr st) (\<lambda>(req, f, c).
     if unat (n_hits f) < k \<and> parity_rebalance p then
       (case prev_ch_mapping c (bucket_id req) of
          None \<Rightarrow> Inr (req, f, c)
        | Some prev \<Rightarrow> rbind (idx_at prev (n - 1)) (\<lambda>s. check_extra H s (req, f, c)))
     else Inr (req, f, c)))"

text \<open>The message about too many duplicates asks every server again, which counts as requests.\<close>

fun report_chunks :: "ht_ops \<Rightarrow> u32 list \<Rightarrow> request_t \<Rightarrow> cacheCluster \<Rightarrow> (request_t \<times> cacheCluster) result" where
  "report_chunks H [] req c = Inr (req, c)"
| "report_chunks H (s # ss) req c =
    rbind (server_check H s req c) (\<lambda>((found, _, req), c).
    rbind (if found then rbind (server_chunk_id H s req c) (\<lambda>((_, req), c). Inr (req, c)) else Inr (req, c))
      (\<lambda>(req, c). report_chunks H ss req c))"

definition report_duplicates ::
  "ht_ops \<Rightarrow> request_t \<times> chunk_info \<times> cacheCluster \<Rightarrow> (request_t \<times> chunk_info \<times> cacheCluster) result" where
  "report_duplicates H =
    (\<lambda>(req, f, c).
     let n = ec_n (ec_params c); k = ec_k (ec_params c) in
     if unat (n_hits f) < n \<and> n_duplicates f > of_nat n - of_nat k then
       rbind (report_chunks H (map of_nat [0 ..< length (cache_servers c)]) req c) (\<lambda>(req, c). Inr (req, f, c))
     else Inr (req, f, c))"

text \<open>\<^verbatim>\<open>while (server_chunk_status[i] == correct_chunk) i++\<close>\<close>

function next_free :: "server_chunk_stat_e list \<Rightarrow> nat \<Rightarrow> nat result" where
  "next_free status i =
    (if length status \<le> i then Inl Out_of_bounds
     else if status ! i = correct_chunk then next_free status (Suc i) else Inr i)"
  by auto
termination by (relation "measure (\<lambda>(status, i). length status - i)") auto

declare next_free.simps [simp del]

text \<open>The loop over the missing chunks \<open>j\<close>, with the next position \<open>i\<close>.\<close>

fun restore_chunks ::
  "ht_ops \<Rightarrow> chunk_info \<Rightarrow> u32 list \<Rightarrow> nat list \<Rightarrow> nat \<Rightarrow> request_t \<Rightarrow> cacheCluster \<Rightarrow> (request_t \<times> cacheCluster) result" where
  "restore_chunks H f server_idxs [] i req c = Inr (req, c)"
| "restore_chunks H f server_idxs (j # js) i req c =
    (if length (chunk_cnt f) \<le> j then Inl Out_of_bounds
     else if chunk_cnt f ! j = 0 then
       rbind (next_free (server_chunk_status f) i) (\<lambda>i.
       if ec_n (ec_params c) \<le> i then Inl Assert_failed
       else
         rbind (idx_at server_idxs i) (\<lambda>s.
         rbind (store_chunk H unknown_cache j s req c) (\<lambda>(req, c).
         restore_chunks H f server_idxs js (Suc i) req c)))
     else restore_chunks H f server_idxs js i req c)"

text \<open>The statistics at the end of \<^verbatim>\<open>_cache_hit_chunk_obj\<close>; the missing chunks index \<^verbatim>\<open>n_miss\<close>, an array
  of \<^verbatim>\<open>n\<close> entries, with a difference of unsigned numbers.\<close>

definition chunk_hit_stat ::
  "u64 \<Rightarrow> request_t \<Rightarrow> chunk_info \<Rightarrow> cacheCluster \<Rightarrow> cacheCluster result" where
  "chunk_hit_stat chunk_obj_size req f c =
    (let n = ec_n (ec_params c); k = ec_k (ec_params c); hits = n_hits f;
         c = upd_check (\<lambda>x. x\<lparr>n_chunk_hit := hits\<rparr>) c;
         c = upd_stat (\<lambda>st. st\<lparr>intra_cluster_bytes := intra_cluster_bytes st + ucast (n_duplicates f) * chunk_obj_size\<rparr>) c;
         lack = ucast (of_nat k - hits :: u32) * chunk_obj_size;
         miss = unat (of_nat n - hits :: u32)
     in rbind (if unat hits < k then
                 upd_bucket_stat (\<lambda>b. b\<lparr>b_midgress := b_midgress b + lack\<rparr>) req
                   (upd_stat (\<lambda>st. st\<lparr>midgress_bytes := midgress_bytes st + lack\<rparr>) c)
               else Inr (upd_check (\<lambda>x. x\<lparr>is_hit := True\<rparr>) c)) (\<lambda>c.
        let c = upd_stat (\<lambda>st. st\<lparr>intra_cluster_bytes := intra_cluster_bytes st + chunk_obj_size * ucast (of_nat n - 1 :: u32)\<rparr>) c in
        rbind (add_at 1 (n_miss (cluster_stat c)) miss) (\<lambda>v.
        Inr (upd_stat (\<lambda>st. st\<lparr>n_miss := v\<rparr>) c))))"

definition cache_hit_chunk_obj ::
  "ht_ops \<Rightarrow> request_t \<Rightarrow> u32 list \<Rightarrow> cacheCluster \<Rightarrow> (request_t \<times> cacheCluster) result" where
  "cache_hit_chunk_obj H req server_idxs c =
    (if ec_k (ec_params c) = 0 then Inl Division_by_zero
     else
       (let full_obj_size = obj_size req; n = ec_n (ec_params c);
            chunk_obj_size = chunk_size (obj_size req) (ec_k (ec_params c)) in
        rbind (get_chunk_info H False server_idxs (req\<lparr>obj_size := chunk_obj_size\<rparr>, new_chunk_info c, c)) (\<lambda>st.
        rbind (if unat (n_hits (fst (snd st))) < ec_k (ec_params c) then look_further H server_idxs st else Inr st)
          (\<lambda>st.
        rbind (report_duplicates H st) (\<lambda>(req, f, c).
        rbind (restore_chunks H f server_idxs [0 ..< n] 0 req c) (\<lambda>(req, c).
        rbind (chunk_hit_stat chunk_obj_size req f c) (\<lambda>c.
        Inr (req\<lparr>obj_size := full_obj_size\<rparr>, c))))))))"

fun write_chunk_all :: "ht_ops \<Rightarrow> nat \<Rightarrow> u32 list \<Rightarrow> request_t \<Rightarrow> cacheCluster \<Rightarrow> (request_t \<times> cacheCluster) result" where
  "write_chunk_all H i [] req c = Inr (req, c)"
| "write_chunk_all H i (s # ss) req c =
    rbind (add_write_load (obj_size req) s c) (\<lambda>c.
    rbind (store_chunk H main_cache i s req c) (\<lambda>(req, c). write_chunk_all H (Suc i) ss req c))"

definition cache_miss_chunk_obj ::
  "ht_ops \<Rightarrow> request_t \<Rightarrow> u32 list \<Rightarrow> cacheCluster \<Rightarrow> (request_t \<times> cacheCluster) result" where
  "cache_miss_chunk_obj H req server_idxs c =
    (if ec_k (ec_params c) = 0 then Inl Division_by_zero
     else
       (let full_obj_size = obj_size req; n = ec_n (ec_params c); k = ec_k (ec_params c);
            chunk_obj_size = chunk_size (obj_size req) k; m = cluster_mode (cluster_params c);
            req = req\<lparr>obj_size := chunk_obj_size\<rparr>;
            c = upd_stat (\<lambda>st. st\<lparr>intra_cluster_bytes := intra_cluster_bytes st + chunk_obj_size * of_nat (k - 1)\<rparr>) c in
        rbind (first_servers k server_idxs) (\<lambda>is.
        rbind (write_chunk_all H 0 is req c) (\<lambda>(req, c).
        rbind (if m = C2DN_add_n \<or> m = C2DN_add_n_three_rep then
                 (let c = upd_stat (\<lambda>st. st\<lparr>intra_cluster_bytes := intra_cluster_bytes st + chunk_obj_size * ucast (of_nat n - 1 :: u32)\<rparr>) c in
                  rbind (first_servers n server_idxs) (\<lambda>is. write_chunk_all H k (drop k is) req c))
               else Inr (req, c)) (\<lambda>(req, c).
        Inr (req\<lparr>obj_size := full_obj_size\<rparr>, c))))))"

section \<open>A request\<close>

text \<open>The aggregate initialisation \<^verbatim>\<open>{false, false, false, 0, unknown_obj_type}\<close> gives its last value to
  \<^verbatim>\<open>req_host\<close> and leaves \<^verbatim>\<open>obj_type\<close> 0.\<close>

definition start_check :: cluster_hit_t where
  "start_check = new_cluster_hit\<lparr>req_host := uint unknown_obj_type\<rparr>"

definition note_type :: "obj_type_e option \<Rightarrow> cacheCluster \<Rightarrow> cacheCluster" where
  "note_type t c = (case t of None \<Rightarrow> c | Some t \<Rightarrow> upd_check (\<lambda>k. k\<lparr>obj_type := t\<rparr>) c)"

text \<open>The look-up in the lead server, and in the second one when the cluster checks one more. The
  server to read is the one the object was found in.\<close>

definition find_lead ::
  "ht_ops \<Rightarrow> u32 \<Rightarrow> u32 \<Rightarrow> request_t \<Rightarrow> cacheCluster \<Rightarrow> (u32 option \<times> bool \<times> request_t \<times> cacheCluster) result" where
  "find_lead H lead_server second_lead req c =
    rbind (server_check H lead_server req c) (\<lambda>((found, t, req), c).
    let c = note_type t c; (admit_into_cache, c) = should_admit req c in
    if found then Inr (Some lead_server, admit_into_cache, req, c)
    else if check_one_more (cluster_params c) then
      rbind (server_check H second_lead req c) (\<lambda>((found, t, req), c).
      Inr (if found then Some second_lead else None, admit_into_cache, req, note_type t c))
    else Inr (None, admit_into_cache, req, c))"

definition handle_hit ::
  "ht_ops \<Rightarrow> u32 \<Rightarrow> u32 \<Rightarrow> u32 list \<Rightarrow> request_t \<Rightarrow> cacheCluster \<Rightarrow> (request_t \<times> cacheCluster) result" where
  "handle_hit H server_to_read lead_server server_idxs req c =
    (let t = obj_type (cluster_check c) in
     if t = full_obj then
       rbind (add_read_load (obj_size req) server_to_read c) (cache_hit_full_obj H req lead_server server_idxs)
     else if t = chunk_obj then cache_hit_chunk_obj H req server_idxs c
     else if t = unknown_obj_type then Inl Aborted
     else Inr (req, c))"

definition handle_miss ::
  "ht_ops \<Rightarrow> bool \<Rightarrow> u32 \<Rightarrow> u32 list \<Rightarrow> request_t \<Rightarrow> cacheCluster \<Rightarrow> (request_t \<times> cacheCluster) result" where
  "handle_miss H admit_into_cache lead_server server_idxs req c =
    (let c = upd_stat (\<lambda>st. st\<lparr>midgress_bytes := midgress_bytes st + obj_size req\<rparr>) c in
     rbind (upd_bucket_stat (\<lambda>b. b\<lparr>b_midgress := b_midgress b + obj_size req\<rparr>) req c) (\<lambda>c.
     if admit_into_cache then
       rbind (add_read_load (obj_size req) lead_server c) (\<lambda>c.
       rbind (check_coding_policy req c) (\<lambda>coded.
       if coded then cache_miss_chunk_obj H req server_idxs c
       else cache_miss_full_obj H req lead_server server_idxs c))
     else Inr (req, c)))"

definition count_hit :: "request_t \<Rightarrow> cacheCluster \<Rightarrow> cacheCluster result" where
  "count_hit req c =
    (if \<not> is_hit (cluster_check c) then Inr c
     else if \<not> unat (n_chunk_hit (cluster_check c)) \<le> ec_n (ec_params c) then Inl Assert_failed
     else
       (let c = upd_stat (\<lambda>st. st\<lparr>cluster_hit_cnt := cluster_hit_cnt st + 1,
              cluster_hit_bytes := cluster_hit_bytes st + obj_size req\<rparr>) c in
        rbind (upd_bucket_stat (\<lambda>b. b\<lparr>b_hit_cnt := b_hit_cnt b + 1\<rparr>) req c) (\<lambda>c.
        if obj_type (cluster_check c) = full_obj then
          Inr (upd_stat (\<lambda>st. st\<lparr>full_obj_hit_cnt := full_obj_hit_cnt st + 1,
            full_obj_hit_bytes := full_obj_hit_bytes st + obj_size req\<rparr>) c)
        else if obj_type (cluster_check c) = chunk_obj then
          Inr (upd_stat (\<lambda>st. st\<lparr>chunk_obj_hit_cnt := chunk_obj_hit_cnt st + 1,
            chunk_obj_hit_bytes := chunk_obj_hit_bytes st + obj_size req\<rparr>) c)
        else Inl Aborted)))"

definition cluster_get :: "ht_ops \<Rightarrow> request_t \<Rightarrow> cacheCluster \<Rightarrow> (cluster_hit_t \<times> request_t \<times> cacheCluster) result" where
  "cluster_get H req c =
    (let c = c\<lparr>cluster_check := start_check\<rparr> in
     rbind (find_mapped_servers req c) (\<lambda>(server_idxs, lead_server, second_lead, req, c).
     let c = upd_stat (\<lambda>st. st\<lparr>cluster_req_cnt := cluster_req_cnt st + 1,
           cluster_req_bytes := cluster_req_bytes st + obj_size req\<rparr>) c in
     rbind (upd_bucket_stat (\<lambda>b. b\<lparr>b_req_cnt := b_req_cnt b + 1, b_req_byte := b_req_byte b + obj_size req\<rparr>) req c) (\<lambda>c.
     rbind (find_lead H lead_server second_lead req c) (\<lambda>(found, admit_into_cache, req, c).
     rbind (case found of
              Some server_to_read \<Rightarrow> handle_hit H server_to_read lead_server server_idxs req c
            | None \<Rightarrow> handle_miss H admit_into_cache lead_server server_idxs req c) (\<lambda>(req, c).
     rbind (count_hit req c) (\<lambda>c. Inr (cluster_check c, req, c)))))))"

section \<open>Copies in the cluster\<close>

fun count_copies :: "ht_ops \<Rightarrow> u32 list \<Rightarrow> nat \<Rightarrow> request_t \<Rightarrow> cacheCluster \<Rightarrow> (nat \<times> request_t \<times> cacheCluster) result" where
  "count_copies H [] n_copy req c = Inr (n_copy, req, c)"
| "count_copies H (s # ss) n_copy req c =
    rbind (server_check H s req c) (\<lambda>((found, _, req), c). count_copies H ss (if found then n_copy + 1 else n_copy) req c)"

definition get_num_copy_in_cluster :: "ht_ops \<Rightarrow> request_t \<Rightarrow> cacheCluster \<Rightarrow> (nat \<times> request_t \<times> cacheCluster) result" where
  "get_num_copy_in_cluster H req c = count_copies H (map of_nat [0 ..< length (cache_servers c)]) 0 req c"

text \<open>The map of all cached objects: the size of the copy seen last, and the number of copies in a
  signed byte.\<close>

type_synonym objmap = "(obj_id_t \<times> u64 \<times> u8) list"

definition objmap_aux :: "cache_obj_t \<Rightarrow> objmap \<Rightarrow> objmap" where
  "objmap_aux x m =
    AList.update (o_id x) (ucast (o_size x), case map_of m (o_id x) of None \<Rightarrow> 1 | Some (_, n) \<Rightarrow> n + 1) m"

text \<open>The objects and bytes of all available servers, and the map.\<close>

fun collect_objs :: "ht_ops \<Rightarrow> cacheServer list \<Rightarrow> u64 \<times> u64 \<times> objmap \<Rightarrow> (u64 \<times> u64 \<times> objmap) result" where
  "collect_objs H [] acc = Inr acc"
| "collect_objs H (sv # svs) (n, b, m) =
    (if \<not> available sv then collect_objs H svs (n, b, m)
     else
       rbind (hashtable_foreach H (hashtable (main sv))) (\<lambda>ps.
       collect_objs H svs (n + n_obj (main sv), b + occupied_size (main sv),
         fold (\<lambda>p. objmap_aux (the (heap (hashtable (main sv)) p))) ps m)))"

text \<open>The counts of the objects by their number of copies; a count above \<^verbatim>\<open>n\<close> writes past the array.\<close>

fun count_chunks :: "objmap \<Rightarrow> u64 list \<Rightarrow> u64 list result" where
  "count_chunks [] v = Inr v"
| "count_chunks ((_, _, n) # m) v =
    (if n = 0 then Inl Out_of_bounds else rbind (add_at 1 v (unat n - 1)) (count_chunks m))"

record rep_factor =
  obj_rep :: "rat option"
  byte_rep :: "rat option"
  n_chunk_cnt :: "u64 list"
  n_server_obj :: u64
  n_server_byte :: u64
  n_cluster_obj :: u64
  n_cluster_byte :: u64

text \<open>The quotient of two counters as \<^verbatim>\<open>double\<close>; \<open>None\<close> is infinity or not a number.\<close>

definition ratio :: "u64 \<Rightarrow> u64 \<Rightarrow> rat option" where
  "ratio a b = (if b = 0 then None else Some (to_double (to_double (of_nat (unat a)) / to_double (of_nat (unat b)))))"

definition find_rep_factor :: "ht_ops \<Rightarrow> cacheCluster \<Rightarrow> rep_factor result" where
  "find_rep_factor H c =
    rbind (collect_objs H (cache_servers c) (0, 0, [])) (\<lambda>(n, b, m).
    let n' = of_nat (length m); b' = sum_list (map (fst \<circ> snd) m) in
    rbind (count_chunks m (replicate (ec_n (ec_params c)) 0)) (\<lambda>v.
    Inr \<lparr>obj_rep = ratio n n', byte_rep = ratio b b', n_chunk_cnt = v, n_server_obj = n, n_server_byte = b,
      n_cluster_obj = n', n_cluster_byte = b'\<rparr>))"

end
