(* ===== verification/Metadata.thy ===== *)
theory Metadata
  imports CachePolicy
begin

text \<open>
  The clients of a cache keep metadata in the cached objects (\<^verbatim>\<open>extra_metadata\<close> of \<^verbatim>\<open>struct.h\<close>), which
  the hash table copies when it moves objects and which no cache function reads. Here a relabelling
  \<open>M\<close> overwrites the metadata of every object by a value that depends on its id alone, and every
  operation commutes with it. So when the metadata of a state is given by \<open>M\<close>, it still is after
  the operation: evictions, moves and growing tables never mix up the metadata of objects.
\<close>

section \<open>Relabelling\<close>

definition rtx :: "(obj_id_t \<Rightarrow> u64) \<Rightarrow> cache_obj_t \<Rightarrow> cache_obj_t" where
  "rtx M x = x\<lparr>extra_metadata := if o_size x = 0 then 0 else M (o_id x)\<rparr>"

definition rth :: "(obj_id_t \<Rightarrow> u64) \<Rightarrow> heap \<Rightarrow> heap" where
  "rth M h = (\<lambda>p. if p = NULL then h p else map_option (rtx M) (h p))"

definition rts :: "(obj_id_t \<Rightarrow> u64) \<Rightarrow> hashtable_t \<Rightarrow> hashtable_t" where
  "rts M s = s\<lparr>heap := rth M (heap s)\<rparr>"

text \<open>\<open>tagged M s\<close>: the metadata of the objects of \<open>s\<close> is given by \<open>M\<close>.\<close>

definition tagged :: "(obj_id_t \<Rightarrow> u64) \<Rightarrow> hashtable_t \<Rightarrow> bool" where
  "tagged M s \<longleftrightarrow> rts M s = s"

named_theorems rt \<open>commutation with relabelling\<close>

lemma rtx_simps [rt]:
  "hash_next (rtx M x) = hash_next x" "list_next (rtx M x) = list_next x" "list_prev (rtx M x) = list_prev x"
  "o_id (rtx M x) = o_id x" "o_size (rtx M x) = o_size x" "OBJ_EMPTY (rtx M x) = OBJ_EMPTY x" "rtx M zero_obj = zero_obj"
  by (simp_all add: rtx_def OBJ_EMPTY_def zero_obj_def)

lemma rtx_upd: "set_next q (rtx M x) = rtx M (set_next q x)" "set_prev q (rtx M x) = rtx M (set_prev q x)"
  "(rtx M x)\<lparr>hash_next := q\<rparr> = rtx M (x\<lparr>hash_next := q\<rparr>)"
  by (simp_all add: rtx_def)

lemma rth_app: "p \<noteq> NULL \<Longrightarrow> rth M h p = map_option (rtx M) (h p)"
  by (simp add: rth_def)

lemma rth_upd: "(rth M h)(p := None) = rth M (h(p := None))" "p \<noteq> NULL \<Longrightarrow> (rth M h)(p \<mapsto> rtx M x) = rth M (h(p \<mapsto> x))"
  by (auto simp: rth_def)

lemma rbind_assoc [rt]: "rbind (rbind x f) g = rbind x (\<lambda>a. rbind (f a) g)"
  by (cases x) simp_all

lemma rbind_if [rt]: "rbind (if b then x else y) f = (if b then rbind x f else rbind y f)"
  by simp

lemma load_rth [rt]: "load (rth M h) p = rbind (load h p) (\<lambda>x. Inr (rtx M x))"
  by (simp add: load_def rth_def split: option.split)

lemma load_null_rt [rt]: "load h NULL = Inl Null_deref"
  by (simp add: load_def)

lemma modify_rth:
  "(\<And>x. f (rtx M x) = rtx M (g x)) \<Longrightarrow> modify (rth M h) p f = rbind (modify h p g) (\<lambda>h. Inr (rth M h))"
  by (cases "p = NULL") (simp_all add: modify_def rt rth_upd)

lemma modify_rth_links [rt]:
  "modify (rth M h) p (set_next q) = rbind (modify h p (set_next q)) (\<lambda>h. Inr (rth M h))"
  "modify (rth M h) p (set_prev q) = rbind (modify h p (set_prev q)) (\<lambda>h. Inr (rth M h))"
  "modify (rth M h) p (\<lambda>x. x\<lparr>hash_next := q\<rparr>) = rbind (modify h p (\<lambda>x. x\<lparr>hash_next := q\<rparr>)) (\<lambda>h. Inr (rth M h))"
  "modify (rth M h) p (\<lambda>_. rtx M x) = rbind (modify h p (\<lambda>_. x)) (\<lambda>h. Inr (rth M h))"
  by (rule modify_rth, simp add: rtx_upd)+

lemma rts_simps [rt]:
  "heap (rts M s) = rth M (heap s)" "vars (rts M s) = vars s" "table (rts M s) = table s"
  "hash_power (rts M s) = hash_power s" "n_cur_item (rts M s) = n_cur_item s" "next_obj (rts M s) = next_obj s"
  "next_tbl (rts M s) = next_tbl s" "monitored_ptrs (rts M s) = monitored_ptrs s"
  "n_lookup (rts M s) = n_lookup s" "n_chain_walk (rts M s) = n_chain_walk s"
  by (simp_all add: rts_def)

lemma rts_upd [rt]:
  "(rts M s)\<lparr>heap := rth M h\<rparr> = rts M (s\<lparr>heap := h\<rparr>)" "(rts M s)\<lparr>vars := v\<rparr> = rts M (s\<lparr>vars := v\<rparr>)"
  "(rts M s)\<lparr>n_cur_item := n\<rparr> = rts M (s\<lparr>n_cur_item := n\<rparr>)" "(rts M s)\<lparr>hash_power := pw\<rparr> = rts M (s\<lparr>hash_power := pw\<rparr>)"
  "(rts M s)\<lparr>n_lookup := n\<rparr> = rts M (s\<lparr>n_lookup := n\<rparr>)" "(rts M s)\<lparr>n_chain_walk := n\<rparr> = rts M (s\<lparr>n_chain_walk := n\<rparr>)"
  by (cases s; simp add: rts_def)+

lemma rts_if [rt]: "rts M (if b then s else s') = (if b then rts M s else rts M s')"
  by simp

section \<open>The table\<close>

lemma last_obj_rt [rt]: "last_obj_in_chain fuel (rth M h) p = last_obj_in_chain fuel h p"
  by (induction fuel arbitrary: p) (simp_all add: last_obj_in_chain.simps rt cong: if_cong)

lemma update_monitored_ptr_rt [rt]: "update_monitored_ptr (rts M s) p q = rts M (update_monitored_ptr s p q)"
  by (simp add: update_monitored_ptr_def rt)

lemma move_obj_rt [rt]:
  "move_obj_to_new_loc (rts M s) p q = rbind (move_obj_to_new_loc s p q) (\<lambda>s. Inr (rts M s))"
  by (simp add: move_obj_to_new_loc_def rt cong: if_cong)

lemma delete_obj_rt [rt]:
  "delete_obj_in_table (rts M s) p = rbind (delete_obj_in_table s p) (\<lambda>s. Inr (rts M s))"
  by (simp add: delete_obj_in_table_def rt cong: if_cong)

lemma set_hash_next_rt [rt]: "set_hash_next p q (rts M s) = rbind (set_hash_next p q s) (\<lambda>s. Inr (rts M s))"
  by (simp add: set_hash_next_def rt)

lemma free_cache_obj_rt [rt]: "free_cache_obj p (rts M s) = rts M (free_cache_obj p s)"
  by (simp add: free_cache_obj_def rt rth_upd)

lemma create_None_rt [rt]:
  "create_cache_obj_from_request None (rts M s) = map_prod id (rts M) (create_cache_obj_from_request None s)"
  by (simp add: create_cache_obj_from_request_def malloc_obj_def rt) (simp add: rts_def rth_def rt fun_eq_iff)

lemma move_into_new_table_rt [rt]:
  "move_into_new_table hash (rts M s) p b = rbind (move_into_new_table hash s p b) (\<lambda>s. Inr (rts M s))"
  by (simp add: move_into_new_table_def rt Let_def split_def cong: if_cong)

lemma expand_chain_rt [rt]:
  "expand_chain fuel hash (rts M s) p = rbind (expand_chain fuel hash s p) (\<lambda>s. Inr (rts M s))"
  by (induction fuel arbitrary: s p) (simp_all add: expand_chain.simps rt cong: if_cong)

lemma expand_buckets_rt [rt]:
  "expand_buckets hash g is (rts M s) = rbind (expand_buckets hash g is s) (\<lambda>s. Inr (rts M s))"
  by (induction "is" arbitrary: s) (simp_all add: rt cong: if_cong)

lemma alloc_table_rt [rt]: "alloc_table pw (rts M s) = rts M (alloc_table pw s)"
  by (simp add: alloc_table_def rts_def rth_def fun_eq_iff rt split: ptr.split)

lemma free_table_rt [rt]: "free_table g (rts M s) = rts M (free_table g s)"
  by (simp add: free_table_def rts_def rth_def fun_eq_iff split: ptr.split)

lemma expand_rt [rt]:
  "chained_hashtable_expand hash (rts M s) = rbind (chained_hashtable_expand hash s) (\<lambda>s. Inr (rts M s))"
  by (simp add: chained_hashtable_expand_def rt Let_def)

lemma find_in_chain_rt [rt]: "find_in_chain fuel (rth M h) p k d = find_in_chain fuel h p k d"
  by (induction fuel arbitrary: p d) (simp_all add: find_in_chain.simps rt cong: if_cong)

lemma count_lookup_rt [rt]: "count_lookup d (rts M s) = rts M (count_lookup d s)"
  by (simp add: count_lookup_def rt Let_def)

lemma find_rt:
  "chained_hashtable_find hash (rts M s) req =
    rbind (chained_hashtable_find hash s req) (\<lambda>(p, req, s). Inr (p, req, rts M s))"
  by (simp add: chained_hashtable_find_def rt Let_def split_def cong: if_cong)

lemma delete_in_chain_rt [rt]:
  "delete_in_chain fuel (rts M s) p q = rbind (delete_in_chain fuel s p q) (\<lambda>s. Inr (rts M s))"
  by (induction fuel arbitrary: p) (simp_all add: delete_in_chain.simps rt Let_def cong: if_cong)

lemma zero_slot_rt [rt]:
  "(rts M s)\<lparr>heap := (rth M (heap s))(Slot g i \<mapsto> zero_obj)\<rparr> = rts M (s\<lparr>heap := (heap s)(Slot g i \<mapsto> zero_obj)\<rparr>)"
  using rth_upd(2) [of "Slot g i" M "heap s" zero_obj] by (simp add: rts_def rt)

lemma delete_rt:
  "chained_hashtable_delete hash (rts M s) p = rbind (chained_hashtable_delete hash s p) (\<lambda>s. Inr (rts M s))"
  by (simp add: chained_hashtable_delete_def rt Let_def cong: if_cong)

text \<open>An object that is inserted has no metadata yet.\<close>

lemma create_Some_rt:
  assumes "M (obj_id_int req) = 0"
  shows "create_cache_obj_from_request (Some req) (rts M s) = map_prod id (rts M) (create_cache_obj_from_request (Some req) s)"
proof -
  have "rtx M (copy_request_to_cache_obj zero_obj req) = copy_request_to_cache_obj zero_obj req"
    using assms by (simp add: rtx_def copy_request_to_cache_obj_def zero_obj_def)
  then show ?thesis
    by (simp add: create_cache_obj_from_request_def malloc_obj_def rt) (simp add: rts_def rth_def fun_eq_iff)
qed

lemma copy_request_rt:
  assumes "M (obj_id_int req) = 0" "load h p = Inr x" "OBJ_EMPTY x"
  shows "modify (rth M h) p (\<lambda>x. copy_request_to_cache_obj x req) =
    rbind (modify h p (\<lambda>x. copy_request_to_cache_obj x req)) (\<lambda>h. Inr (rth M h))"
proof -
  have "copy_request_to_cache_obj (rtx M x) req = rtx M (copy_request_to_cache_obj x req)"
    using assms(1,3) by (simp add: rtx_def copy_request_to_cache_obj_def OBJ_EMPTY_def)
  then show ?thesis using assms(2) by (cases "p = NULL") (simp_all add: modify_def rt rth_upd)
qed

lemma insert_rt:
  assumes M: "M (obj_id_int req) = 0"
  shows "chained_hashtable_insert hash (rts M s) req =
    rbind (chained_hashtable_insert hash s req) (\<lambda>(p, s). Inr (p, rts M s))"
proof -
  define B where "B s =
    (let slot = Slot (table s) (bucket_of hash (hash_power s) (obj_id_int req)) in
    rbind (load (heap s) slot) (\<lambda>x.
    rbind (if OBJ_EMPTY x then
             rbind (modify (heap s) slot (\<lambda>x. copy_request_to_cache_obj x req)) (\<lambda>h. Inr (slot, s\<lparr>heap := h\<rparr>))
           else
             (case create_cache_obj_from_request (Some req) s of (new_cache_obj, s) \<Rightarrow>
              rbind (last_obj_in_chain (chain_bound s) (heap s) slot) (\<lambda>l.
              rbind (set_hash_next l new_cache_obj s) (\<lambda>s. Inr (new_cache_obj, s))))) (\<lambda>(cache_obj, s).
    Inr (cache_obj, s\<lparr>n_cur_item := n_cur_item s + 1\<rparr>))))" for s
  have B: "B (rts M s) = rbind (B s) (\<lambda>(p, s). Inr (p, rts M s))" for s
  proof (cases "load (heap s) (Slot (table s) (bucket_of hash (hash_power s) (obj_id_int req)))")
    case (Inr x)
    then show ?thesis using copy_request_rt [of M req, OF M Inr]
      by (simp add: B_def rt create_Some_rt [of M req, OF M] split_def Let_def cong: if_cong)
  qed (simp add: B_def rt Let_def)
  have "chained_hashtable_insert hash s req =
      rbind (if n_cur_item s > expand_limit (hash_power s) then chained_hashtable_expand hash s else Inr s) B" for s
    by (simp only: chained_hashtable_insert_def B_def [abs_def])
  then show ?thesis by (simp add: rt B cong: if_cong)
qed

section \<open>The list and the caches\<close>

lemma move_obj_to_tail_rt [rt]:
  "move_obj_to_tail (rth M h) a b p = rbind (move_obj_to_tail h a b p) (\<lambda>(h, a, b). Inr (rth M h, a, b))"
  by (simp add: move_obj_to_tail_def rt Let_def cong: if_cong)

lemma promote_rt [rt]: "promote (rts M s) p = rbind (promote s p) (\<lambda>s. Inr (rts M s))"
  by (simp add: promote_def rt split_def)

definition rtc :: "(obj_id_t \<Rightarrow> u64) \<Rightarrow> cache_t \<Rightarrow> cache_t" where
  "rtc M c = c\<lparr>hashtable := rts M (hashtable c)\<rparr>"

lemma rtc_simps [rt]:
  "hashtable (rtc M c) = rts M (hashtable c)" "occupied_size (rtc M c) = occupied_size c" "cache_size (rtc M c) = cache_size c"
  "n_obj (rtc M c) = n_obj c" "req_cnt (rtc M c) = req_cnt c"
  "(rtc M c)\<lparr>hashtable := rts M s\<rparr> = rtc M (c\<lparr>hashtable := s\<rparr>)" "(rtc M c)\<lparr>n_obj := n\<rparr> = rtc M (c\<lparr>n_obj := n\<rparr>)"
  "(rtc M c)\<lparr>occupied_size := n\<rparr> = rtc M (c\<lparr>occupied_size := n\<rparr>)" "(rtc M c)\<lparr>req_cnt := n\<rparr> = rtc M (c\<lparr>req_cnt := n\<rparr>)"
  by (cases c; simp add: rtc_def)+

abbreviation H1 :: "(obj_id_t \<Rightarrow> u64) \<Rightarrow> ht_ops" where
  "H1 \<equiv> hashtable_ver1"

lemma H1_simps [rt]:
  "hashtable_find (H1 hash) = chained_hashtable_find hash" "hashtable_insert (H1 hash) = chained_hashtable_insert hash"
  "hashtable_delete (H1 hash) = chained_hashtable_delete hash"
  by (simp_all add: hashtable_ver1_def)

lemma cache_insert_rt:
  assumes "M (obj_id_int req) = 0"
  shows "cache_insert_LRU (H1 hash) (rtc M c) req = rbind (cache_insert_LRU (H1 hash) c req) (\<lambda>(p, c). Inr (p, rtc M c))"
  by (simp add: cache_insert_LRU_def rt insert_rt [of M req, OF assms] split_def Let_def cong: if_cong)

lemma cache_evict_rt:
  "cache_evict (H1 hash) (rtc M c) req False = rbind (cache_evict (H1 hash) c req False) (\<lambda>(x, c). Inr (x, rtc M c))"
  by (simp add: cache_evict_def copy_evicted_def rt delete_rt split_def Let_def)

text \<open>Both algorithms of the servers evict with \<^verbatim>\<open>cache_evict\<close>.\<close>

lemma evict_loop_rt:
  assumes "evict V = cache_evict (H1 hash)"
  shows "evict_loop fuel V (rtc M c) req = rbind (evict_loop fuel V c req) (\<lambda>c. Inr (rtc M c))"
  by (induction fuel arbitrary: c) (simp_all add: assms rt cache_evict_rt split_def)

lemma cache_get_obj_rt:
  "cache_get_obj (H1 hash) (rtc M c) req = rbind (cache_get_obj (H1 hash) c req) (\<lambda>(p, req, c). Inr (p, req, rtc M c))"
  by (simp add: cache_get_obj_def rt find_rt split_def)

lemma cache_check_rt:
  assumes c: "cache_at (ht_v1 hash) cnt c xs" and hv: "hv_ok hash req" and fit: "fits req"
  shows "cache_check (H1 hash) (rtc M c) req b =
    rbind (cache_check (H1 hash) c req b) (\<lambda>(r, p, req, c). Inr (r, p, req, rtc M c))"
proof -
  from v1.cache_at_find [OF c hv] obtain p req' s' where f: "chained_hashtable_find hash (hashtable c) req = Inr (p, req', s')"
    "same_table (hashtable c) s'" "req'\<lparr>hv := hv req\<rparr> = req" "p \<in> set xs \<or> p = NULL" by (auto simp: rt)
  have r: "obj_size req' = obj_size req" using arg_cong [OF f(3), of obj_size] by simp
  have ht: "ht_v1 hash (hashtable c) (set xs)" using c by (simp add: cache_at_def)
  show ?thesis
  proof (cases "p = NULL")
    case False
    then obtain x where x: "heap (hashtable c) p = Some x" "o_size x \<noteq> 0" using ht_v1_alloc [OF ht] f(4) by blast
    have "(rtx M x)\<lparr>o_size := size32 req\<rparr> = rtx M (x\<lparr>o_size := size32 req\<rparr>)"
      using x(2) fitsD(1) [OF fit] by (simp add: rtx_def)
    then have "modify (rth M (heap s')) p (\<lambda>x. x\<lparr>o_size := size32 req\<rparr>) =
        rbind (modify (heap s') p (\<lambda>x. x\<lparr>o_size := size32 req\<rparr>)) (\<lambda>h. Inr (rth M h))"
      using x False by (simp add: same_tableD [OF f(2)] modify_def load_def rth_app rth_upd)
    then show ?thesis using f(1) r by (simp add: cache_check_def rt find_rt Let_def cong: if_cong)
  qed (use f(1) in \<open>simp add: cache_check_def rt find_rt Let_def\<close>)
qed

lemma check_rt:
  assumes c: "cache_rep (ht_v1 hash) True c L" and hv: "hv_ok hash req" and fit: "fits req"
    and V: "V = LRU_ops (H1 hash) \<or> V = FIFO_ops (H1 hash)"
  shows "check V (rtc M c) req b = rbind (check V c req b) (\<lambda>(r, req, c). Inr (r, req, rtc M c))"
proof -
  obtain xs where xs: "cache_at (ht_v1 hash) True c xs" using c by (auto simp: cache_rep_def)
  show ?thesis using V cache_check_rt [OF xs hv fit, of M b]
    by (auto simp: LRU_ops_def LRU_check_def FIFO_ops_def FIFO_check_def rt split_def cong: if_cong)
qed

lemma cache_get_rt:
  assumes c: "cache_rep (ht_v1 hash) True c L" and hv: "hv_ok hash req" and fit: "fits req"
    and V: "V = LRU_ops (H1 hash) \<or> V = FIFO_ops (H1 hash)"
    and M: "\<not> cached (obj_id_int req) L \<Longrightarrow> M (obj_id_int req) = 0"
  shows "cache_get V (rtc M c) req = rbind (cache_get V c req) (\<lambda>(r, req, c). Inr (r, req, rtc M c))"
proof -
  have ev: "evict V = cache_evict (H1 hash)"
    using V by (auto simp: LRU_ops_def LRU_evict_def FIFO_ops_def FIFO_evict_def fun_eq_iff)
  have "\<exists>r req' c'. check V c req True = Inr (r, req', c') \<and> req'\<lparr>hv := hv req\<rparr> = req \<and>
      (r = cache_ck_miss \<longrightarrow> \<not> cached (obj_id_int req) L)"
    using V lru1.check_miss [OF c hv fit] lru1.check_hit [OF c hv fit]
      fifo1.check_miss [OF c hv fit] fifo1.check_hit [OF c hv fit] by (cases "cached (obj_id_int req) L") auto
  then obtain r req' c' where k: "check V c req True = Inr (r, req', c')" "req'\<lparr>hv := hv req\<rparr> = req"
    "r = cache_ck_miss \<longrightarrow> \<not> cached (obj_id_int req) L" by blast
  have "obj_id_int req' = obj_id_int req" using arg_cong [OF k(2), of obj_id_int] by simp
  then have "insert_op V (rtc M c') req' = rbind (insert_op V c' req') (\<lambda>c. Inr (rtc M c))" if "r = cache_ck_miss"
    using V M k(3) that cache_insert_rt [of M req' hash c']
    by (auto simp: LRU_ops_def LRU_insert_def FIFO_ops_def FIFO_insert_def rt split_def)
  then show ?thesis
    using k(1) check_rt [OF c hv fit V, of M True] evict_loop_rt [OF ev]
    by (simp add: cache_get_def rt del: evict_loop.simps cong: if_cong)
qed

section \<open>Metadata stays with its object\<close>

lemma tagged_cache: "tagged M (hashtable c) \<longleftrightarrow> rtc M c = c"
  by (cases c) (auto simp: tagged_def rtc_def)

lemma tagged_get:
  assumes "cache_rep (ht_v1 hash) True c L" "hv_ok hash req" "fits req"
    and "V = LRU_ops (H1 hash) \<or> V = FIFO_ops (H1 hash)"
    and "\<not> cached (obj_id_int req) L \<Longrightarrow> M (obj_id_int req) = 0"
    and "tagged M (hashtable c)" "cache_get V c req = Inr (r, req', c')"
  shows "tagged M (hashtable c')"
  using cache_get_rt [of hash c L req V M, OF assms(1-5)] assms(6,7) by (simp add: tagged_cache)

lemma tagged_get_obj:
  assumes "tagged M (hashtable c)" "cache_get_obj (H1 hash) c req = Inr (p, req', c')"
  shows "tagged M (hashtable c')"
  using cache_get_obj_rt [of hash M c req] assms by (simp add: tagged_cache)

lemma taggedD:
  assumes "tagged M s" "heap s p = Some x" "p \<noteq> NULL"
  shows "extra_metadata x = (if o_size x = 0 then 0 else M (o_id x))"
proof -
  have "rth M (heap s) p = heap s p" using assms(1) by (metis tagged_def rts_simps(1))
  then have "rtx M x = x" using assms(2,3) by (simp add: rth_app)
  then have "extra_metadata (rtx M x) = extra_metadata x" by simp
  then show ?thesis by (simp add: rtx_def)
qed

lemma taggedI:
  assumes "\<And>p x. heap s p = Some x \<Longrightarrow> p \<noteq> NULL \<Longrightarrow> extra_metadata x = (if o_size x = 0 then 0 else M (o_id x))"
  shows "tagged M s"
proof -
  have "rtx M x = x" if "heap s p = Some x" "p \<noteq> NULL" for p x using assms [OF that] by (simp add: rtx_def)
  then have "(if p = NULL then heap s p else map_option (rtx M) (heap s p)) = heap s p" for p by (cases "heap s p") auto
  then show ?thesis by (simp add: tagged_def rts_def rth_def)
qed

text \<open>Only the ids of cached objects matter.\<close>

lemma heap_live:
  assumes h: "ht_v1 hash s P" and x: "heap s p = Some x" "o_size x \<noteq> 0" "p \<noteq> NULL"
  shows "p \<in> P"
proof (cases p)
  case (Slot g i)
  obtain C where C: "tbl hash (hash_power s) (table s) (heap s) C" "P = ptrs (hash_power s) C" using h by (rule ht_v1_obtain)
  have gi: "g = table s" "i < 2 ^ unat (hash_power s)" using ht_v1D(6) [OF h, of g i] x Slot by auto
  then have b: "bucket hash (hash_power s) (table s) (heap s) i (C i)" using C(1) by (simp add: tbl_def)
  have "C i \<noteq> []" using b x Slot gi by (auto simp: bucket_def zero_obj_def)
  then have "p \<in> set (C i)" using b Slot gi by (cases "C i") (auto simp: bucket_def)
  then show ?thesis using C(2) gi(2) by (auto simp: ptrs_def)
next
  case (Obj n)
  then show ?thesis using ht_v1D(5) [OF h, of n] x by simp
next
  case NULL
  then show ?thesis using x(3) by simp
qed

lemma tagged_cong:
  assumes c: "cache_rep (ht_v1 hash) cnt c L" and M: "\<And>k. cached k L \<Longrightarrow> M' k = M k" and t: "tagged M (hashtable c)"
  shows "tagged M' (hashtable c)"
proof (rule taggedI)
  fix p x assume x: "heap (hashtable c) p = Some x" "p \<noteq> NULL"
  obtain xs where xs: "ht_v1 hash (hashtable c) (set xs)" "L = view (heap (hashtable c)) xs"
    using c by (auto simp: cache_rep_def cache_at_def)
  have "cached (o_id x) L" if "o_size x \<noteq> 0"
    using heap_live [OF xs(1) x(1) that x(2)] x by (force simp: cached_def xs(2) payload_def image_iff)
  then show "extra_metadata x = (if o_size x = 0 then 0 else M' (o_id x))" using taggedD [OF t x] M by auto
qed

end
