(* ===== verification/ServerSpec.thy ===== *)
theory ServerSpec
  imports CacheServer Metadata
begin

text \<open>
  What a cache server does, on an abstract state: the list of its cached objects and a map that
  gives the metadata of every cached object. The operations of \<^verbatim>\<open>cacheServer.hpp\<close> over the
  version 1 hash table implement it, for servers with an LRU main cache and no gutter cache (the
  configuration the simulator is built with).
\<close>

section \<open>The abstract server\<close>

definition restrict_tags :: "(obj_id_t \<Rightarrow> u64) \<Rightarrow> contents \<Rightarrow> obj_id_t \<Rightarrow> u64" where
  "restrict_tags M L = (\<lambda>k. if cached k L then M k else 0)"

definition server_rep :: "(obj_id_t \<Rightarrow> u64) \<Rightarrow> cacheServer \<Rightarrow> contents \<Rightarrow> (obj_id_t \<Rightarrow> u64) \<Rightarrow> bool" where
  "server_rep hash sv L M \<longleftrightarrow> gcache sv = None \<and> sp_cache_alg (server_params sv) = lru \<and>
    cache_rep (ht_v1 hash) True (main sv) L \<and> lru_inv (unat (cache_size (main sv))) L \<and>
    tagged M (hashtable (main sv)) \<and> (\<forall>k. \<not> cached k L \<longrightarrow> M k = 0)"

text \<open>What no request changes.\<close>

definition same_server :: "cacheServer \<Rightarrow> cacheServer \<Rightarrow> bool" where
  "same_server sv sv' \<longleftrightarrow> server_params sv' = server_params sv \<and> available sv' = available sv \<and>
    gutter_prob sv' = gutter_prob sv \<and> cache_size (main sv') = cache_size (main sv)"

lemma same_server_refl [simp]: "same_server sv sv"
  by (simp add: same_server_def)

lemma same_server_trans: "same_server a b \<Longrightarrow> same_server b c \<Longrightarrow> same_server a c"
  by (simp add: same_server_def)

text \<open>The request after a look-up: its hash value is set.\<close>

definition set_hv :: "(obj_id_t \<Rightarrow> u64) \<Rightarrow> request_t \<Rightarrow> request_t" where
  "set_hv hash req = (if hv req = 0 then req\<lparr>hv := hash (obj_id_int req)\<rparr> else req)"

lemma set_hv_simps [simp]:
  "obj_id_int (set_hv hash req) = obj_id_int req" "obj_size (set_hv hash req) = obj_size req"
  "extra_field1 (set_hv hash req) = extra_field1 req" "fits (set_hv hash req) = fits req"
  "hv_ok hash req \<Longrightarrow> hv_ok hash (set_hv hash req)" "obj_of (set_hv hash req) = obj_of req"
  "op (set_hv hash req) = op req"
  by (auto simp: set_hv_def fits_def hv_ok_def obj_of_def)

lemma set_curr_host_id_simps [simp]:
  "obj_id_int (set_curr_host_id i req) = obj_id_int req" "obj_size (set_curr_host_id i req) = obj_size req"
  "extra_field1 (set_curr_host_id i req) = extra_field1 req" "fits (set_curr_host_id i req) = fits req"
  "hv_ok hash (set_curr_host_id i req) = hv_ok hash req" "obj_of (set_curr_host_id i req) = obj_of req"
  "op (set_curr_host_id i req) = op req"
  by (auto simp: set_curr_host_id_def fits_def hv_ok_def obj_of_def)

lemma find_req: "chained_hashtable_find hash s req = Inr (p, req', s') \<Longrightarrow> req' = set_hv hash req"
  by (auto simp: chained_hashtable_find_def set_hv_def Let_def rbind_eq_Inr split: if_splits prod.splits)

lemma cache_get_req:
  "cache_get (LRU_ops (H1 hash)) c req = Inr (r, req', c') \<Longrightarrow> req' = set_hv hash req"
  by (auto simp: cache_get_def LRU_ops_def LRU_check_def cache_check_def Let_def rbind_eq_Inr rt
    simp del: evict_loop.simps split: if_splits prod.splits dest!: find_req)

section \<open>Look-ups\<close>

lemma cache_lookup:
  assumes c: "cache_rep (ht_v1 hash) True c L" and hv: "hv_ok hash req" and t: "tagged M (hashtable c)"
  shows "\<exists>p c'. cache_get_obj (H1 hash) c req = Inr (p, set_hv hash req, c') \<and>
    cache_rep (ht_v1 hash) True c' L \<and> tagged M (hashtable c') \<and> cache_size c' = cache_size c \<and>
    (if cached (obj_id_int req) L
     then p \<noteq> NULL \<and> (\<exists>xs x. cache_at (ht_v1 hash) True c' xs \<and> L = view (heap (hashtable c')) xs \<and> p \<in> set xs \<and>
       heap (hashtable c') p = Some x \<and> o_id x = obj_id_int req \<and> o_size x \<noteq> 0 \<and> extra_metadata x = M (obj_id_int req))
     else p = NULL)"
proof -
  obtain xs where xs: "cache_at (ht_v1 hash) True c xs" "L = view (heap (hashtable c)) xs"
    using c by (auto simp: cache_rep_def)
  from v1.cache_at_find [OF xs(1) hv] obtain p req' s' where
    f: "chained_hashtable_find hash (hashtable c) req = Inr (p, req', s')" "same_table (hashtable c) s'"
      "cache_at (ht_v1 hash) True (c\<lparr>hashtable := s'\<rparr>) xs"
      "p \<in> set xs \<and> fst (payload (heap (hashtable c)) p) = obj_id_int req \<or>
       p = NULL \<and> obj_id_int req \<notin> fst ` set (view (heap (hashtable c)) xs)" by (auto simp: rt)
  let ?c = "c\<lparr>hashtable := s'\<rparr>"
  have run: "cache_get_obj (H1 hash) c req = Inr (p, set_hv hash req, ?c)"
    using f(1) find_req [OF f(1)] by (simp add: cache_get_obj_def rt)
  have h: "heap s' = heap (hashtable c)" using same_tableD [OF f(2)] by simp
  have t': "tagged M s'" using tagged_get_obj [OF t run] by simp
  have rep: "cache_rep (ht_v1 hash) True ?c L" using f(3) xs(2) h by (auto simp: cache_rep_def)
  show ?thesis
  proof (cases "cached (obj_id_int req) L")
    case True
    then have p: "p \<in> set xs" "fst (payload (heap (hashtable c)) p) = obj_id_int req"
      using f(4) by (auto simp: cached_def xs(2))
    obtain x where x: "heap s' p = Some x" "o_size x \<noteq> 0" "p \<noteq> NULL"
      using ht_v1_alloc [of hash s' "set xs" p] f(3) p(1) by (auto simp: cache_at_def)
    have "o_id x = obj_id_int req" using p(2) x(1) h by (simp add: payload_def)
    then have "extra_metadata x = M (obj_id_int req)" using taggedD [OF t' x(1,3)] x(2) by simp
    then show ?thesis using run rep t' True f(3) xs(2) h p(1) x \<open>o_id x = obj_id_int req\<close>
      by (intro exI [of _ p] exI [of _ ?c]) auto
  next
    case False
    then have "p = NULL" using f(4) by (force simp: cached_def xs(2))
    then show ?thesis using run rep t' False by auto
  qed
qed

lemma sv_check_correct:
  assumes "server_rep hash sv L M" "available sv" "hv_ok hash req"
  shows "\<exists>sv'. sv_check (H1 hash) sv req =
      Inr (cached (obj_id_int req) L,
        if cached (obj_id_int req) L then Some (metadata_u8 0 (M (obj_id_int req))) else None, set_hv hash req, sv') \<and>
    server_rep hash sv' L M \<and> same_server sv sv'"
proof -
  have c: "cache_rep (ht_v1 hash) True (main sv) L" "tagged M (hashtable (main sv))"
    using assms(1) by (simp_all add: server_rep_def)
  show ?thesis
    using cache_lookup [OF c(1) assms(3) c(2)] assms(1,2)
    by (cases "cached (obj_id_int req) L")
      (auto simp: sv_check_def server_rep_def same_server_def load_def Let_def)
qed

lemma get_obj_correct:
  assumes s: "server_rep hash sv L M" and hv: "hv_ok hash req" and k: "cached (obj_id_int req) L"
  shows "\<exists>p xs x sv'. get_obj (H1 hash) sv req = Inr (True, p, set_hv hash req, sv') \<and>
    server_rep hash sv' L M \<and> same_server sv sv' \<and> p \<noteq> NULL \<and>
    cache_at (ht_v1 hash) True (main sv') xs \<and> L = view (heap (hashtable (main sv'))) xs \<and> p \<in> set xs \<and>
    heap (hashtable (main sv')) p = Some x \<and> o_id x = obj_id_int req \<and> o_size x \<noteq> 0 \<and> extra_metadata x = M (obj_id_int req)"
proof -
  have c: "cache_rep (ht_v1 hash) True (main sv) L" "tagged M (hashtable (main sv))"
    using s by (simp_all add: server_rep_def)
  obtain p c' xs x where f: "cache_get_obj (H1 hash) (main sv) req = Inr (p, set_hv hash req, c')"
    "cache_rep (ht_v1 hash) True c' L" "tagged M (hashtable c')" "cache_size c' = cache_size (main sv)" "p \<noteq> NULL"
    "cache_at (ht_v1 hash) True c' xs" "L = view (heap (hashtable c')) xs" "p \<in> set xs" "heap (hashtable c') p = Some x"
    "o_id x = obj_id_int req" "o_size x \<noteq> 0" "extra_metadata x = M (obj_id_int req)"
    using cache_lookup [OF c(1) hv c(2)] k by auto
  then show ?thesis using s
    by (intro exI [of _ p] exI [of _ xs] exI [of _ x] exI [of _ "sv\<lparr>main := c'\<rparr>"])
      (simp add: get_obj_def server_rep_def same_server_def Let_def)
qed

lemma read_metadata_correct:
  assumes "server_rep hash sv L M" "hv_ok hash req" "cached (obj_id_int req) L"
  shows "\<exists>sv'. read_metadata i (H1 hash) sv req = Inr (metadata_u8 i (M (obj_id_int req)), set_hv hash req, sv') \<and>
    server_rep hash sv' L M \<and> same_server sv sv'"
  using get_obj_correct [OF assms] by (auto simp: read_metadata_def obj_heap_def load_def)

section \<open>Writing metadata\<close>

lemma meta_facts:
  assumes "h p = Some x"
  shows "nexts (h(p \<mapsto> x\<lparr>extra_metadata := m\<rparr>)) r = nexts h r"
    "payload (h(p \<mapsto> x\<lparr>extra_metadata := m\<rparr>)) r = payload h r"
    "links (h(p \<mapsto> x\<lparr>extra_metadata := m\<rparr>)) = links h"
    "(h(p \<mapsto> x\<lparr>extra_metadata := m\<rparr>)) r = None \<longleftrightarrow> h r = None"
  using assms by (auto simp: nexts_def payload_def links_def fun_eq_iff simp del: links_upd)

lemma ht_v1_meta:
  assumes h: "ht_v1 hash s P" and p: "p \<in> P" "heap s p = Some x"
  shows "ht_v1 hash (s\<lparr>heap := (heap s)(p \<mapsto> x\<lparr>extra_metadata := m\<rparr>)\<rparr>) P"
proof -
  let ?h = "(heap s)(p \<mapsto> x\<lparr>extra_metadata := m\<rparr>)"
  obtain C where C: "tbl hash (hash_power s) (table s) (heap s) C" "P = ptrs (hash_power s) C"
    using h by (rule ht_v1_obtain)
  note f = meta_facts [of "heap s" p x m, OF p(2)]
  have "bucket hash (hash_power s) (table s) ?h i (C i)" if i: "i < 2 ^ unat (hash_power s)" for i
  proof -
    have b: "bucket hash (hash_power s) (table s) (heap s) i (C i)" using C(1) i by (simp add: tbl_def)
    have "Slot (table s) i \<noteq> p" if "C i = []" using tbl_slot_notin [OF C(1) i that] p(1) C(2) by auto
    then show ?thesis
      using b hchain_nexts [of ?h "heap s" "C i", OF f(1)] f(2)
      by (auto simp: bucket_def in_bucket_def split: list.splits)
  qed
  then have "tbl hash (hash_power s) (table s) ?h C" by (simp add: tbl_def)
  moreover have "ids_ok ?h P" using ht_v1D(1) [OF h] f(2) by (simp add: ids_ok_def comp_def del: payload_upd)
  ultimately show ?thesis
    using C(2) ht_v1D [OF h] f(4) by (intro ht_v1I) (simp_all del: fun_upd_apply)
qed

lemma write_metadata_correct:
  assumes s: "server_rep hash sv L M" and hv: "hv_ok hash req" and k: "cached (obj_id_int req) L"
  shows "\<exists>sv'. write_metadata f (H1 hash) sv req = Inr (set_hv hash req, sv') \<and>
    server_rep hash sv' L (M(obj_id_int req := f (M (obj_id_int req)))) \<and> same_server sv sv'"
proof -
  let ?k = "obj_id_int req"
  obtain p xs x sv1 where g: "get_obj (H1 hash) sv req = Inr (True, p, set_hv hash req, sv1)"
    "server_rep hash sv1 L M" "same_server sv sv1" "p \<noteq> NULL"
    "cache_at (ht_v1 hash) True (main sv1) xs" "L = view (heap (hashtable (main sv1))) xs" "p \<in> set xs"
    "heap (hashtable (main sv1)) p = Some x" "o_id x = ?k" "o_size x \<noteq> 0" "extra_metadata x = M ?k"
    using get_obj_correct [OF s hv k] by blast
  let ?c = "main sv1" let ?s = "hashtable ?c"
  let ?h = "(heap ?s)(p \<mapsto> x\<lparr>extra_metadata := f (extra_metadata x)\<rparr>)"
  let ?c' = "?c\<lparr>hashtable := ?s\<lparr>heap := ?h\<rparr>\<rparr>" and ?M = "M(?k := f (M ?k))"
  note mf = meta_facts [of "heap ?s" p x "f (extra_metadata x)", OF g(8)]
  have run: "write_metadata f (H1 hash) sv req = Inr (set_hv hash req, sv1\<lparr>main := ?c'\<rparr>)"
    using g by (simp add: write_metadata_def obj_heap_def set_obj_heap_def modify_def load_def)
  have ht: "ht_v1 hash ?s (set xs)" using g(5) by (simp add: cache_at_def)
  have v: "view ?h xs = L" using g(6) mf(2) by simp
  have "occupied_size ?c' = of_nat (total_size (view ?h xs))" unfolding v using g(5,6) by (simp add: cache_at_def)
  then have "cache_at (ht_v1 hash) True ?c' xs"
    using g(5) ht_v1_meta [OF ht g(7,8), of "f (extra_metadata x)"] mf(3)
    unfolding cache_at_def linked_all dll_def by simp
  then have rep: "cache_rep (ht_v1 hash) True ?c' L" using v by (auto simp: cache_rep_def)
  have "tagged ?M (?s\<lparr>heap := ?h\<rparr>)"
  proof (rule taggedI)
    fix q y assume y: "heap (?s\<lparr>heap := ?h\<rparr>) q = Some y" "q \<noteq> NULL"
    have t: "tagged M ?s" using g(2) by (simp add: server_rep_def)
    show "extra_metadata y = (if o_size y = 0 then 0 else ?M (o_id y))"
    proof (cases "q = p")
      case True
      then show ?thesis using y g(9-11) by auto
    next
      case False
      then have q: "heap ?s q = Some y" using y(1) by simp
      have "o_id y \<noteq> ?k" if "o_size y \<noteq> 0"
      proof
        assume e: "o_id y = ?k"
        have "q \<in> set xs" using heap_live [OF ht q that y(2)] .
        then have "(fst \<circ> payload (heap ?s)) q \<noteq> (fst \<circ> payload (heap ?s)) p"
          using False g(7) ht_v1D(1) [OF ht] by (auto simp: ids_ok_def inj_on_def)
        then show False using e q g(8,9) by (simp add: payload_def)
      qed
      then show ?thesis using taggedD [OF t q y(2)] by auto
    qed
  qed
  then have "server_rep hash (sv1\<lparr>main := ?c'\<rparr>) L ?M"
    using rep g(2) k by (auto simp: server_rep_def)
  moreover have "same_server sv (sv1\<lparr>main := ?c'\<rparr>)" using g(3) by (simp add: same_server_def)
  ultimately show ?thesis using run by blast
qed

section \<open>Requests\<close>

text \<open>The list after a request to an LRU cache of size \<open>n\<close>.\<close>

definition lru_list :: "nat \<Rightarrow> obj_id_t \<times> u32 \<Rightarrow> contents \<Rightarrow> contents" where
  "lru_list n x L = snd (spec_get make_newest evict_oldest n x L)"

lemma evict_oldest_keeps_last:
  "L \<noteq> [] \<Longrightarrow> unat (snd (last L)) \<le> n \<Longrightarrow> last L \<in> set (evict_oldest n L)"
proof (induction L)
  case (Cons x L)
  then show ?case by (cases "L = []") (auto simp: not_less)
qed simp

lemma lru_list_cached:
  assumes "unat (snd x) \<le> n"
  shows "cached (fst x) (lru_list n x L)"
proof -
  define K where "K = (if cached (fst x) L then make_newest x L else L @ [x])"
  have "K \<noteq> []" "last K = x" by (simp_all add: K_def make_newest_def)
  then have "x \<in> set (evict_oldest n K)" using evict_oldest_keeps_last [of K n] assms by simp
  then have "cached (fst x) (evict_oldest n K)" by (auto simp: cached_def)
  then show ?thesis using assms by (cases "cached (fst x) L") (simp_all add: lru_list_def spec_get_def K_def Let_def)
qed

text \<open>A request only removes other objects.\<close>

lemma lru_list_sub: "cached k (lru_list n x L) \<Longrightarrow> k = fst x \<or> cached k L"
proof -
  have sub: "set (evict_oldest n K) \<subseteq> set K" for K using evict_oldest_suffix set_mono_suffix by blast
  have "set (make_newest x L) \<subseteq> insert x (set L)" by (auto simp: make_newest_def)
  then have "set (evict_oldest n (make_newest x L)) \<subseteq> insert x (set L)" "set (evict_oldest n (L @ [x])) \<subseteq> insert x (set L)"
    using sub [of "make_newest x L"] sub [of "L @ [x]"] by auto
  then have "set (lru_list n x L) \<subseteq> insert x (set L)"
    by (simp add: lru_list_def spec_get_def Let_def) (auto simp: make_newest_def)
  then show "cached k (lru_list n x L) \<Longrightarrow> k = fst x \<or> cached k L" by (auto simp: cached_def)
qed

lemma get_main_correct:
  assumes s: "server_rep hash sv L M" and hv: "hv_ok hash req" and fit: "fits req"
  shows "\<exists>sv' r. get_main (H1 hash) sv req = Inr (r, set_hv hash req, sv') \<and>
    (r = cache_ck_hit \<longleftrightarrow> cached (obj_id_int req) L) \<and> same_server sv sv' \<and>
    server_rep hash sv' (lru_list (unat (cache_size (main sv))) (obj_of req) L)
      (restrict_tags M (lru_list (unat (cache_size (main sv))) (obj_of req) L))"
proof -
  let ?n = "unat (cache_size (main sv))" let ?L = "lru_list ?n (obj_of req) L"
  have c: "cache_rep (ht_v1 hash) True (main sv) L" "lru_inv ?n L" "tagged M (hashtable (main sv))"
    "\<forall>k. \<not> cached k L \<longrightarrow> M k = 0" "gcache sv = None" "sp_cache_alg (server_params sv) = lru"
    using s by (simp_all add: server_rep_def)
  obtain req' c' where g: "cache_get (LRU_ops (H1 hash)) (main sv) req =
      Inr (fst (spec_get make_newest evict_oldest ?n (obj_of req) L), req', c')"
    "cache_rep (ht_v1 hash) True c' ?L" "lru_inv ?n ?L" "cache_size c' = cache_size (main sv)"
    using lru1.cache_get_correct [OF c(1) hv fit c(2) TrueI] unfolding lru_list_def by blast
  have req': "req' = set_hv hash req" using cache_get_req [OF g(1)] .
  have "tagged M (hashtable c')" using tagged_get [OF c(1) hv fit _ _ c(3) g(1)] c(4) by simp
  then have "tagged (restrict_tags M ?L) (hashtable c')"
    by (rule tagged_cong [OF g(2), rotated]) (simp add: restrict_tags_def)
  then have "server_rep hash (sv\<lparr>main := c'\<rparr>) ?L (restrict_tags M ?L)"
    using g c(5,6) by (simp add: server_rep_def restrict_tags_def)
  moreover have "get_main (H1 hash) sv req =
      Inr (fst (spec_get make_newest evict_oldest ?n (obj_of req) L), set_hv hash req, sv\<lparr>main := c'\<rparr>)"
    using g(1) c(6) req' by (simp add: get_main_def alg_ops_def)
  moreover have "fst (spec_get make_newest evict_oldest ?n (obj_of req) L) = cache_ck_hit \<longleftrightarrow> cached (obj_id_int req) L"
    by (simp add: spec_get_def Let_def obj_of_def)
  ultimately show ?thesis using g(4) by (auto simp: same_server_def)
qed

text \<open>The request a server gets back: the host id and the hash value are set.\<close>

definition server_req :: "(obj_id_t \<Rightarrow> u64) \<Rightarrow> cacheServer \<Rightarrow> request_t \<Rightarrow> request_t" where
  "server_req hash sv req = set_hv hash (set_curr_host_id (sp_server_id (server_params sv)) req)"

lemma set_hv_again: "hv_ok hash req \<Longrightarrow> set_hv hash (set_hv hash req) = set_hv hash req"
  by (auto simp: set_hv_def hv_ok_def)

text \<open>An object that fits is cached after the request, so the assertion of \<^verbatim>\<open>get\<close> holds.\<close>

lemma sv_get_correct:
  assumes s: "server_rep hash sv L M" and av: "available sv" and hv: "hv_ok hash req" and fit: "fits req"
    and z: "obj_size req \<le> cache_size (main sv)" and ct: "ct = main_cache \<or> ct = unknown_cache"
  shows "\<exists>sv'. sv_get (H1 hash) sv req ct = Inr (cached (obj_id_int req) L, server_req hash sv req, sv') \<and>
    same_server sv sv' \<and> cached (obj_id_int req) (lru_list (unat (cache_size (main sv))) (obj_of req) L) \<and>
    server_rep hash sv' (lru_list (unat (cache_size (main sv))) (obj_of req) L)
      (restrict_tags M (lru_list (unat (cache_size (main sv))) (obj_of req) L))"
proof -
  let ?L = "lru_list (unat (cache_size (main sv))) (obj_of req) L"
  let ?req = "set_curr_host_id (sp_server_id (server_params sv)) req"
  have hv': "hv_ok hash ?req" "fits ?req" using hv fit by simp_all
  have "unat (snd (obj_of req)) \<le> unat (cache_size (main sv))"
    using z fitsD(2) [OF fit] by (simp add: obj_of_def word_le_nat_alt)
  then have k: "cached (obj_id_int req) ?L" using lru_list_cached [of "obj_of req" _ L] by (simp add: obj_of_def)
  obtain sv1 r where g: "get_main (H1 hash) sv ?req = Inr (r, set_hv hash ?req, sv1)"
    "r = cache_ck_hit \<longleftrightarrow> cached (obj_id_int req) L" "same_server sv sv1" "server_rep hash sv1 ?L (restrict_tags M ?L)"
    using get_main_correct [OF s hv'] by auto
  obtain sv2 where c: "sv_check (H1 hash) sv1 (set_hv hash ?req) =
      Inr (True, Some (metadata_u8 0 (restrict_tags M ?L (obj_id_int req))), set_hv hash (set_hv hash ?req), sv2)"
    "server_rep hash sv2 ?L (restrict_tags M ?L)" "same_server sv1 sv2"
    using sv_check_correct [OF g(4), of "set_hv hash ?req"] g(3) av hv' k by (auto simp: same_server_def)
  have "get_unknown (H1 hash) sv ?req = get_main (H1 hash) sv ?req"
    using s by (simp add: get_unknown_def server_rep_def)
  then have "sv_get (H1 hash) sv req ct = Inr (cached (obj_id_int req) L, server_req hash sv req, sv2)"
    using g(1,2) c(1) av ct set_hv_again [OF hv'(1)] by (auto simp: sv_get_def Let_def server_req_def)
  then show ?thesis using c k same_server_trans [OF g(3) c(3)] by blast
qed

section \<open>The bytes of the metadata\<close>

lemma metadata_u8_set [simp]:
  "metadata_u8 0 (set_metadata_u8 0 b m) = b"
  "metadata_u8 (Suc 0) (set_metadata_u8 (Suc 0) b m) = b"
  "metadata_u8 0 (set_metadata_u8 (Suc 0) b m) = metadata_u8 0 m"
proof -
  have m: "(0xff :: u64) = mask 8" by (simp add: mask_eq_exp_minus_1)
  show "metadata_u8 0 (set_metadata_u8 0 b m) = b" "metadata_u8 (Suc 0) (set_metadata_u8 (Suc 0) b m) = b"
    "metadata_u8 0 (set_metadata_u8 (Suc 0) b m) = metadata_u8 0 m"
    unfolding metadata_u8_def set_metadata_u8_def m by (rule bit_word_eqI; auto simp: bit_simps)+
qed

end
