(* ===== verification/ClusterSpec.thy ===== *)
theory ClusterSpec
  imports CacheCluster ServerSpec
begin

text \<open>
  The servers of a cluster on their abstract states, and the calls a cluster makes of them. The
  chunk of an object on a server is the second byte of its metadata. What the collection of chunks
  counts, and that restoring the missing chunks leaves every chunk on exactly one of the servers.
\<close>

section \<open>Abstract clusters\<close>

type_synonym aserver = "contents \<times> (obj_id_t \<Rightarrow> u64)"

definition cluster_rep :: "(obj_id_t \<Rightarrow> u64) \<Rightarrow> cacheCluster \<Rightarrow> aserver list \<Rightarrow> bool" where
  "cluster_rep hash c S \<longleftrightarrow> list_all2 (\<lambda>sv (L, M). server_rep hash sv L M) (cache_servers c) S"

text \<open>What the calls of servers change: the servers themselves and the loads.\<close>

definition frame :: "cacheCluster \<Rightarrow> cacheCluster \<Rightarrow> bool" where
  "frame c c' \<longleftrightarrow>
    c' = c\<lparr>cache_servers := cache_servers c', read_load_byte := read_load_byte c', write_load_byte := write_load_byte c'\<rparr> \<and>
    list_all2 same_server (cache_servers c) (cache_servers c') \<and>
    length (read_load_byte c') = length (read_load_byte c) \<and> length (write_load_byte c') = length (write_load_byte c)"

lemma frame_refl [simp]: "frame c c"
  by (simp add: frame_def list.rel_refl)

lemma frameD:
  assumes "frame c c'"
  shows "ec_params c' = ec_params c" "cluster_params c' = cluster_params c" "cluster_stat c' = cluster_stat c"
    "cluster_check c' = cluster_check c" "bucket_stat c' = bucket_stat c" "ch_mapping c' = ch_mapping c"
    "prev_ch_mapping c' = prev_ch_mapping c" "obj_freq_map c' = obj_freq_map c"
    "length (cache_servers c') = length (cache_servers c)"
    "length (read_load_byte c') = length (read_load_byte c)" "length (write_load_byte c') = length (write_load_byte c)"
proof -
  have e: "c' = c\<lparr>cache_servers := cache_servers c', read_load_byte := read_load_byte c', write_load_byte := write_load_byte c'\<rparr>"
    using assms by (simp add: frame_def)
  show "ec_params c' = ec_params c" "cluster_params c' = cluster_params c" "cluster_stat c' = cluster_stat c"
    "cluster_check c' = cluster_check c" "bucket_stat c' = bucket_stat c" "ch_mapping c' = ch_mapping c"
    "prev_ch_mapping c' = prev_ch_mapping c" "obj_freq_map c' = obj_freq_map c" by (subst e, simp)+
  show "length (cache_servers c') = length (cache_servers c)" using assms by (auto simp: frame_def dest: list_all2_lengthD)
qed (use assms in \<open>simp_all add: frame_def\<close>)

lemma frame_lead:
  assumes "frame c c'"
  shows "ori_lead_mapping c' = ori_lead_mapping c" "list_all2 same_server (cache_servers c) (cache_servers c')"
proof -
  have e: "c' = c\<lparr>cache_servers := cache_servers c', read_load_byte := read_load_byte c', write_load_byte := write_load_byte c'\<rparr>"
    using assms by (simp add: frame_def)
  show "ori_lead_mapping c' = ori_lead_mapping c" by (subst e) simp
qed (use assms in \<open>simp add: frame_def\<close>)

lemma frame_trans:
  assumes "frame a b" "frame b c"
  shows "frame a c"
proof -
  have "list_all2 same_server (cache_servers a) (cache_servers c)"
    using assms unfolding frame_def by (blast intro: list_all2_trans same_server_trans)
  moreover have "c = b\<lparr>cache_servers := cache_servers c, read_load_byte := read_load_byte c, write_load_byte := write_load_byte c\<rparr>"
    "b = a\<lparr>cache_servers := cache_servers b, read_load_byte := read_load_byte b, write_load_byte := write_load_byte b\<rparr>"
    using assms by (simp_all add: frame_def)
  then have "c = a\<lparr>cache_servers := cache_servers c, read_load_byte := read_load_byte c, write_load_byte := write_load_byte c\<rparr>"
    by (cases a; cases b; cases c) auto
  ultimately show ?thesis using assms by (simp add: frame_def)
qed

text \<open>A server that can be asked for an object of size \<open>z\<close>.\<close>

definition server_ok :: "cacheCluster \<Rightarrow> u64 \<Rightarrow> u32 \<Rightarrow> bool" where
  "server_ok c z s \<longleftrightarrow> unat s < length (cache_servers c) \<and> available (cache_servers c ! unat s) \<and>
    z \<le> cache_size (main (cache_servers c ! unat s)) \<and>
    unat s < length (read_load_byte c) \<and> unat s < length (write_load_byte c)"

lemma frame_server: "frame c c' \<Longrightarrow> i < length (cache_servers c) \<Longrightarrow> same_server (cache_servers c ! i) (cache_servers c' ! i)"
  unfolding frame_def by (metis list_all2_nthD)

lemma server_ok_frame: "frame c c' \<Longrightarrow> server_ok c' z s \<longleftrightarrow> server_ok c z s"
  using frameD(9-11) [of c c'] frame_server [of c c' "unat s"] by (auto simp: server_ok_def same_server_def)

abbreviation contents_at :: "aserver list \<Rightarrow> u32 \<Rightarrow> contents" where
  "contents_at S s \<equiv> fst (S ! unat s)"

abbreviation tags_at :: "aserver list \<Rightarrow> u32 \<Rightarrow> obj_id_t \<Rightarrow> u64" where
  "tags_at S s \<equiv> snd (S ! unat s)"

lemma cluster_repD:
  "cluster_rep hash c S \<Longrightarrow> unat s < length (cache_servers c) \<Longrightarrow> server_rep hash (cache_servers c ! unat s) (contents_at S s) (tags_at S s)"
  by (auto simp: cluster_rep_def list_all2_conv_all_nth split_def)

section \<open>Calls\<close>

lemma on_server_correct:
  assumes r: "cluster_rep hash c S" and i: "unat s < length (cache_servers c)"
    and f: "f (cache_servers c ! unat s) = Inr (a, sv')" "same_server (cache_servers c ! unat s) sv'" "server_rep hash sv' L M"
  shows "\<exists>c'. on_server f s c = Inr (a, c') \<and> frame c c' \<and> cluster_rep hash c' (S[unat s := (L, M)])"
proof -
  let ?c = "c\<lparr>cache_servers := (cache_servers c)[unat s := sv']\<rparr>"
  have "on_server f s c = Inr (a, ?c)" using i f(1) by (simp add: on_server_def)
  moreover have "frame c ?c"
    using f(2) i by (cases c) (auto simp: frame_def list_all2_conv_all_nth nth_list_update)
  moreover have "cluster_rep hash ?c (S[unat s := (L, M)])"
    using r f(3) by (auto simp: cluster_rep_def intro!: list_all2_update_cong)
  ultimately show ?thesis by blast
qed

lemma list_update_pair: "i < length S \<Longrightarrow> S[i := (fst (S ! i), snd (S ! i))] = S"
  by simp

lemma cluster_rep_length: "cluster_rep hash c S \<Longrightarrow> length S = length (cache_servers c)"
  by (auto simp: cluster_rep_def dest: list_all2_lengthD)

lemma server_check_correct:
  assumes r: "cluster_rep hash c S" and ok: "server_ok c z s" and hv: "hv_ok hash req"
  shows "\<exists>c'. server_check (H1 hash) s req c =
      Inr ((cached (obj_id_int req) (contents_at S s),
        if cached (obj_id_int req) (contents_at S s) then Some (metadata_u8 0 (tags_at S s (obj_id_int req))) else None,
        set_hv hash req), c') \<and> frame c c' \<and> cluster_rep hash c' S"
proof -
  have i: "unat s < length (cache_servers c)" "available (cache_servers c ! unat s)" using ok by (simp_all add: server_ok_def)
  obtain sv' where k: "sv_check (H1 hash) (cache_servers c ! unat s) req =
      Inr (cached (obj_id_int req) (contents_at S s),
        if cached (obj_id_int req) (contents_at S s) then Some (metadata_u8 0 (tags_at S s (obj_id_int req))) else None,
        set_hv hash req, sv')" "server_rep hash sv' (contents_at S s) (tags_at S s)" "same_server (cache_servers c ! unat s) sv'"
    using sv_check_correct [OF cluster_repD [OF r i(1)] i(2) hv] by blast
  have "S[unat s := (contents_at S s, tags_at S s)] = S" using i(1) cluster_rep_length [OF r] by (intro list_update_pair) simp
  then show ?thesis
    using on_server_correct [OF r i(1) _ k(3) k(2),
      of "\<lambda>sv. rbind (sv_check (H1 hash) sv req) (\<lambda>(b, t, req, sv). Inr ((b, t, req), sv))"] k(1)
    unfolding server_check_def by auto
qed

lemma server_chunk_id_correct:
  assumes r: "cluster_rep hash c S" and i: "unat s < length (cache_servers c)" and hv: "hv_ok hash req"
    and k: "cached (obj_id_int req) (contents_at S s)"
  shows "\<exists>c'. server_chunk_id (H1 hash) s req c =
      Inr ((unat (metadata_u8 1 (tags_at S s (obj_id_int req))), set_hv hash req), c') \<and> frame c c' \<and> cluster_rep hash c' S"
proof -
  obtain sv' where m: "read_metadata 1 (H1 hash) (cache_servers c ! unat s) req =
      Inr (metadata_u8 1 (tags_at S s (obj_id_int req)), set_hv hash req, sv')"
    "server_rep hash sv' (contents_at S s) (tags_at S s)" "same_server (cache_servers c ! unat s) sv'"
    using read_metadata_correct [OF cluster_repD [OF r i] hv k] by blast
  have "S[unat s := (contents_at S s, tags_at S s)] = S" using i cluster_rep_length [OF r] by (intro list_update_pair) simp
  then show ?thesis
    using on_server_correct [OF r i _ m(3) m(2),
      of "\<lambda>sv. rbind (get_chunk_id (H1 hash) sv req) (\<lambda>(k, req, sv). Inr ((k, req), sv))"] m(1)
    unfolding server_chunk_id_def by (auto simp: get_chunk_id_def)
qed

lemma add_load_correct:
  assumes "cluster_rep hash c S" "server_ok c z s"
  shows "\<exists>c'. add_read_load d s c = Inr c' \<and> frame c c' \<and> cluster_rep hash c' S"
    "\<exists>c'. add_write_load d s c = Inr c' \<and> frame c c' \<and> cluster_rep hash c' S"
  using assms
  by (cases c; auto simp: add_read_load_def add_write_load_def add_at_def server_ok_def frame_def cluster_rep_def list.rel_refl)+

section \<open>Storing an object on a server\<close>

text \<open>The state of a server after a request for the object \<open>k\<close> of size \<open>z\<close> whose metadata is then set.\<close>

definition stored :: "nat \<Rightarrow> (u64 \<Rightarrow> u64) \<Rightarrow> obj_id_t \<times> u32 \<Rightarrow> aserver \<Rightarrow> aserver" where
  "stored n f x A =
    (let L = lru_list n x (fst A); M = restrict_tags (snd A) L in (L, M(fst x := f (M (fst x)))))"

abbreviation size_at :: "cacheCluster \<Rightarrow> u32 \<Rightarrow> nat" where
  "size_at c s \<equiv> unat (cache_size (main (cache_servers c ! unat s)))"

lemma size_at_frame: "frame c c' \<Longrightarrow> unat s < length (cache_servers c) \<Longrightarrow> size_at c' s = size_at c s"
  using frame_server [of c c' "unat s"] by (simp add: same_server_def)

text \<open>The requests the servers hand back differ only in the fields for hash value and host.\<close>

definition like :: "(obj_id_t \<Rightarrow> u64) \<Rightarrow> request_t \<Rightarrow> request_t \<Rightarrow> bool" where
  "like hash req req' \<longleftrightarrow> obj_id_int req' = obj_id_int req \<and> obj_size req' = obj_size req \<and>
    extra_field1 req' = extra_field1 req \<and> op req' = op req \<and> (hv_ok hash req \<longrightarrow> hv_ok hash req')"

lemma like_simps [simp]:
  "like hash req req" "like hash req (set_hv hash req)" "like hash req (set_hv hash (set_hv hash req))"
  by (simp_all add: like_def)

lemma like_trans: "like hash a b \<Longrightarrow> like hash b c \<Longrightarrow> like hash a c"
  by (auto simp: like_def)

lemma likeD: "like hash req req' \<Longrightarrow> obj_id_int req' = obj_id_int req" "like hash req req' \<Longrightarrow> obj_size req' = obj_size req"
  "like hash req req' \<Longrightarrow> hv_ok hash req \<Longrightarrow> hv_ok hash req'" "like hash req req' \<Longrightarrow> fits req' = fits req"
  "like hash req req' \<Longrightarrow> obj_of req' = obj_of req" "like hash req req' \<Longrightarrow> bucket_id req' = bucket_id req"
  "like hash req req' \<Longrightarrow> original_server req' = original_server req"
  by (auto simp: like_def fits_def obj_of_def bucket_id_def original_server_def)

lemma store_correct:
  assumes r: "cluster_rep hash c S" and ok: "server_ok c (obj_size req) s" and hv: "hv_ok hash req" and fit: "fits req"
    and ct: "ct = main_cache \<or> ct = unknown_cache"
    and set: "\<And>sv req. set_op sv req = write_metadata f (H1 hash) sv req"
  shows "\<exists>req' c'. rbind (on_server (\<lambda>sv. rbind (sv_get (H1 hash) sv req ct) (\<lambda>(_, req, sv). Inr (req, sv))) s c)
      (\<lambda>(req, c). on_server (\<lambda>sv. set_op sv req) s c) = Inr (req', c') \<and> like hash req req' \<and> frame c c' \<and>
    cluster_rep hash c' (S[unat s := stored (size_at c s) f (obj_of req) (S ! unat s)])"
proof -
  let ?sv = "cache_servers c ! unat s" and ?L = "lru_list (size_at c s) (obj_of req) (contents_at S s)"
  let ?M = "restrict_tags (tags_at S s) ?L"
  have i: "unat s < length (cache_servers c)" "available ?sv" "obj_size req \<le> cache_size (main ?sv)"
    using ok by (simp_all add: server_ok_def)
  have len: "unat s < length S" using i(1) cluster_rep_length [OF r] by simp
  obtain sv1 where g: "sv_get (H1 hash) ?sv req ct = Inr (cached (obj_id_int req) (contents_at S s), server_req hash ?sv req, sv1)"
    "same_server ?sv sv1" "cached (obj_id_int req) ?L" "server_rep hash sv1 ?L ?M"
    using sv_get_correct [OF cluster_repD [OF r i(1)] i(2) hv fit i(3) ct] by blast
  obtain c1 where c1: "on_server (\<lambda>sv. rbind (sv_get (H1 hash) sv req ct) (\<lambda>(_, req, sv). Inr (req, sv))) s c =
      Inr (server_req hash ?sv req, c1)" "frame c c1" "cluster_rep hash c1 (S[unat s := (?L, ?M)])"
    using on_server_correct [OF r i(1) _ g(2,4),
      of "\<lambda>sv. rbind (sv_get (H1 hash) sv req ct) (\<lambda>(_, req, sv). Inr (req, sv))"] g(1) by auto
  have hv1: "hv_ok hash (server_req hash ?sv req)" "obj_id_int (server_req hash ?sv req) = obj_id_int req"
    using hv by (simp_all add: server_req_def)
  have i1: "unat s < length (cache_servers c1)" using i(1) frameD(9) [OF c1(2)] by simp
  have rep1: "server_rep hash (cache_servers c1 ! unat s) ?L ?M" using cluster_repD [OF c1(3) i1] len by simp
  obtain sv2 where w: "write_metadata f (H1 hash) (cache_servers c1 ! unat s) (server_req hash ?sv req) =
      Inr (set_hv hash (server_req hash ?sv req), sv2)"
    "server_rep hash sv2 ?L (?M(obj_id_int req := f (?M (obj_id_int req))))" "same_server (cache_servers c1 ! unat s) sv2"
    using write_metadata_correct [OF rep1 hv1(1)] g(3) hv1(2) by auto
  obtain c2 where c2: "on_server (\<lambda>sv. set_op sv (server_req hash ?sv req)) s c1 = Inr (set_hv hash (server_req hash ?sv req), c2)"
    "frame c1 c2" "cluster_rep hash c2 (S[unat s := (?L, ?M(obj_id_int req := f (?M (obj_id_int req))))])"
    using on_server_correct [OF c1(3) i1 _ w(3,2), of "\<lambda>sv. set_op sv (server_req hash ?sv req)"] w(1) set by auto
  have "like hash req (set_hv hash (server_req hash ?sv req))" by (simp add: like_def server_req_def)
  then show ?thesis using c1(1) c2 frame_trans [OF c1(2) c2(2)]
    by (auto simp: stored_def Let_def obj_of_def split_def)
qed

section \<open>Collecting the chunks\<close>

text \<open>The chunk of object \<open>k\<close> on a server, and the chunks on a list of servers.\<close>

definition chunk_of :: "aserver list \<Rightarrow> obj_id_t \<Rightarrow> u32 \<Rightarrow> nat option" where
  "chunk_of S k s = (if cached k (contents_at S s) then Some (unat (metadata_u8 1 (tags_at S s k))) else None)"

definition chunk_ids :: "aserver list \<Rightarrow> obj_id_t \<Rightarrow> u32 list \<Rightarrow> nat list" where
  "chunk_ids S k ss = List.map_filter (chunk_of S k) ss"

lemma chunk_ids_simps [simp]:
  "chunk_ids S k [] = []"
  "chunk_ids S k (ss @ [s]) = chunk_ids S k ss @ (case chunk_of S k s of None \<Rightarrow> [] | Some j \<Rightarrow> [j])"
  by (simp_all add: chunk_ids_def List.map_filter_def split: option.split)

definition status_of :: "aserver list \<Rightarrow> obj_id_t \<Rightarrow> u32 list \<Rightarrow> nat \<Rightarrow> server_chunk_stat_e" where
  "status_of S k ss i = (case chunk_of S k (ss ! i) of None \<Rightarrow> no_chunk
     | Some j \<Rightarrow> if j \<in> set (chunk_ids S k (take i ss)) then incorrect_chunk else correct_chunk)"

text \<open>What the arrays hold when the servers \<open>ss\<close> have been asked.\<close>

definition info :: "aserver list \<Rightarrow> obj_id_t \<Rightarrow> u32 list \<Rightarrow> chunk_info \<Rightarrow> bool" where
  "info S k ss f \<longleftrightarrow>
    length (server_chunk_status f) = MAX_EC_N \<and> (\<forall>i < length ss. server_chunk_status f ! i = status_of S k ss i) \<and>
    length (chunk_cnt f) = MAX_EC_N \<and> (\<forall>j < MAX_EC_N. chunk_cnt f ! j = count_list (chunk_ids S k ss) j) \<and>
    length (checked_servers f) = MAX_N_SERVER \<and>
    (\<forall>s. unat s < MAX_N_SERVER \<longrightarrow> checked_servers f ! unat s = (s \<in> set ss)) \<and>
    n_hits f = of_nat (card (set (chunk_ids S k ss))) \<and>
    n_duplicates f = of_nat (length (chunk_ids S k ss) - card (set (chunk_ids S k ss)))"

lemma info_start: "cluster_check c = start_check \<Longrightarrow> info S k [] (new_chunk_info c)"
  by (simp add: info_def new_chunk_info_def start_check_def new_cluster_hit_def)

lemma status_of_snoc: "i < length ss \<Longrightarrow> status_of S k (ss @ [s]) i = status_of S k ss i"
  by (simp add: status_of_def nth_append cong: option.case_cong)

lemma count_list_snoc: "count_list (xs @ [x]) j = count_list xs j + (if x = j then 1 else 0)"
  by (induction xs) auto

lemma card_set_le: "card (set xs) \<le> length xs"
  by (rule card_length)

lemma info_found:
  assumes i: "info S k ss f" and k: "chunk_of S k s = Some j" "j < MAX_EC_N" and n: "length ss < MAX_EC_N" and s: "unat s < MAX_N_SERVER"
  shows "info S k (ss @ [s]) (count_chunk (length ss) j (f\<lparr>checked_servers := (checked_servers f)[unat s := True]\<rparr>))"
proof -
  have c: "chunk_cnt f ! j = 0 \<longleftrightarrow> j \<notin> set (chunk_ids S k ss)" using i k(2) by (simp add: info_def count_list_0_iff)
  have st: "status_of S k (ss @ [s]) (length ss) = (if j \<in> set (chunk_ids S k ss) then incorrect_chunk else correct_chunk)"
    by (simp add: status_of_def k)
  have len: "Suc (length (chunk_ids S k ss)) - card (set (chunk_ids S k ss)) =
      Suc (length (chunk_ids S k ss) - card (set (chunk_ids S k ss)))"
    using card_set_le [of "chunk_ids S k ss"] by simp
  show ?thesis
    using i n s k c st
    by (cases "j \<in> set (chunk_ids S k ss)")
      (auto simp: info_def count_chunk_def Let_def less_Suc_eq nth_list_update status_of_snoc count_list_snoc
        word_unat_eq_iff [symmetric] insert_absorb len)
qed

lemma info_missing:
  assumes "info S k ss f" "chunk_of S k s = None" "length ss < MAX_EC_N" "unat s < MAX_N_SERVER"
  shows "info S k (ss @ [s]) (f\<lparr>checked_servers := (checked_servers f)[unat s := True],
    server_chunk_status := (server_chunk_status f)[length ss := no_chunk]\<rparr>)"
proof -
  have "status_of S k (ss @ [s]) (length ss) = no_chunk" by (simp add: status_of_def assms)
  then show ?thesis using assms
    by (auto simp: info_def less_Suc_eq nth_list_update status_of_snoc word_unat_eq_iff [symmetric])
qed

lemma chunk_info_step_correct:
  assumes r: "cluster_rep hash c S" and ok: "server_ok c (obj_size req) s" and hv: "hv_ok hash req"
    and i: "info S (obj_id_int req) ss f" and n: "length ss < MAX_EC_N" "unat s < MAX_N_SERVER" "s \<notin> set ss"
    and j: "\<And>j. chunk_of S (obj_id_int req) s = Some j \<Longrightarrow> j < MAX_EC_N"
  shows "\<exists>req' f' c'. chunk_info_step (H1 hash) False (length ss) s (req, f, c) = Inr (req', f', c') \<and>
    like hash req req' \<and> info S (obj_id_int req) (ss @ [s]) f' \<and> frame c c' \<and> cluster_rep hash c' S"
proof -
  let ?k = "obj_id_int req"
  obtain c1 where c1: "add_read_load (obj_size req) s c = Inr c1" "frame c c1" "cluster_rep hash c1 S"
    using add_load_correct(1) [OF r ok] by blast
  have ok1: "server_ok c1 (obj_size req) s" using ok server_ok_frame [OF c1(2)] by simp
  obtain c2 t where c2: "server_check (H1 hash) s req c1 = Inr ((cached ?k (contents_at S s), t, set_hv hash req), c2)"
    "frame c1 c2" "cluster_rep hash c2 S" using server_check_correct [OF c1(3) ok1 hv] by blast
  have fr: "frame c c2" using frame_trans [OF c1(2) c2(2)] .
  have ok2: "server_ok c2 (obj_size req) s" using ok server_ok_frame [OF fr] by simp
  have chk: "\<not> checked_servers f ! unat s" "length (checked_servers f) = MAX_N_SERVER" "length (server_chunk_status f) = MAX_EC_N"
    "length (chunk_cnt f) = MAX_EC_N" using i n by (auto simp: info_def)
  note hv2 = set_hv_simps(5) [OF hv]
  show ?thesis
  proof (cases "cached ?k (contents_at S s)")
    case True
    define m where "m = unat (metadata_u8 1 (tags_at S s ?k))"
    have m: "chunk_of S ?k s = Some m" "m < MAX_EC_N" using True j by (simp_all add: chunk_of_def m_def)
    obtain c3 where c3: "server_chunk_id (H1 hash) s (set_hv hash req) c2 = Inr ((m, set_hv hash (set_hv hash req)), c3)"
      "frame c2 c3" "cluster_rep hash c3 S"
      using server_chunk_id_correct [OF c2(3) _ hv2, of s] ok2 True by (auto simp: server_ok_def m_def)
    show ?thesis
      using c1(1) c2(1) c3 True chk n m(2) info_found [OF i m n(1,2)] frame_trans [OF fr c3(2)]
      by (auto simp: chunk_info_step_def Let_def)
  next
    case False
    obtain c3 where c3: "add_write_load (obj_size req) s c2 = Inr c3" "frame c2 c3" "cluster_rep hash c3 S"
      using add_load_correct(2) [OF c2(3) ok2] by blast
    have "chunk_of S ?k s = None" using False by (simp add: chunk_of_def)
    then show ?thesis
      using c1(1) c2(1) c3 False chk n info_missing [OF i _ n(1,2)] frame_trans [OF fr c3(2)]
      by (auto simp: chunk_info_step_def Let_def)
  qed
qed

lemma chunk_info_loop_correct:
  assumes "cluster_rep hash c S" "hv_ok hash req" "info S (obj_id_int req) ds f" "length (ds @ ss) \<le> MAX_EC_N" "distinct (ds @ ss)"
    and "\<forall>s \<in> set ss. server_ok c (obj_size req) s \<and> unat s < MAX_N_SERVER"
    and "\<forall>s \<in> set ss. \<forall>j. chunk_of S (obj_id_int req) s = Some j \<longrightarrow> j < MAX_EC_N"
  shows "\<exists>req' f' c'. chunk_info_loop (H1 hash) False (length ds) ss (req, f, c) = Inr (req', f', c') \<and>
    like hash req req' \<and> info S (obj_id_int req) (ds @ ss) f' \<and> frame c c' \<and> cluster_rep hash c' S"
  using assms
proof (induction ss arbitrary: ds req f c)
  case (Cons s ss)
  obtain req1 f1 c1 where st: "chunk_info_step (H1 hash) False (length ds) s (req, f, c) = Inr (req1, f1, c1)"
    "like hash req req1" "info S (obj_id_int req) (ds @ [s]) f1" "frame c c1" "cluster_rep hash c1 S"
    using chunk_info_step_correct [OF Cons.prems(1) _ Cons.prems(2,3), of s] Cons.prems(4-7) by auto
  note l = likeD [OF st(2)]
  have "\<exists>req' f' c'. chunk_info_loop (H1 hash) False (length (ds @ [s])) ss (req1, f1, c1) = Inr (req', f', c') \<and>
      like hash req1 req' \<and> info S (obj_id_int req1) ((ds @ [s]) @ ss) f' \<and> frame c1 c' \<and> cluster_rep hash c' S"
    using Cons.prems st l server_ok_frame [OF st(4)] by (intro Cons.IH) auto
  then show ?case using st l like_trans [OF st(2)] frame_trans [OF st(4)] by auto
qed auto

section \<open>Restoring the missing chunks\<close>

definition chunk_tag :: "nat \<Rightarrow> u64 \<Rightarrow> u64" where
  "chunk_tag j m = set_metadata_u8 1 (of_nat j) (set_metadata_u8 0 chunk_obj m)"

lemma chunk_tag_simps [simp]:
  "metadata_u8 0 (chunk_tag j m) = chunk_obj" "j < 256 \<Longrightarrow> unat (metadata_u8 (Suc 0) (chunk_tag j m)) = j"
  by (simp_all add: chunk_tag_def unat_of_nat)

text \<open>The positions that can take a chunk from \<open>i\<close> on, and the chunks among \<open>js\<close> that are missing.\<close>

definition free_from :: "server_chunk_stat_e list \<Rightarrow> nat \<Rightarrow> nat \<Rightarrow> nat list" where
  "free_from status n i = filter (\<lambda>i. status ! i \<noteq> correct_chunk) [i ..< n]"

definition missing :: "nat list \<Rightarrow> nat list \<Rightarrow> nat list" where
  "missing cnt js = filter (\<lambda>j. cnt ! j = 0) js"

text \<open>The loop as the list of its stores.\<close>

fun store_chunks :: "ht_ops \<Rightarrow> u32 list \<Rightarrow> (nat \<times> nat) list \<Rightarrow> request_t \<Rightarrow> cacheCluster \<Rightarrow> (request_t \<times> cacheCluster) result" where
  "store_chunks H server_idxs [] req c = Inr (req, c)"
| "store_chunks H server_idxs ((j, i) # ps) req c =
    rbind (store_chunk H unknown_cache j (server_idxs ! i) req c) (\<lambda>(req, c). store_chunks H server_idxs ps req c)"

lemma free_from_step: "i < n \<Longrightarrow> free_from status n i =
    (if status ! i = correct_chunk then free_from status n (Suc i) else i # free_from status n (Suc i))"
  by (simp add: free_from_def upt_conv_Cons)

lemma next_free_correct:
  "free_from status n i = x # xs \<Longrightarrow> n \<le> length status \<Longrightarrow> next_free status i = Inr x \<and> xs = free_from status n (Suc x) \<and> x < n"
proof (induction "n - i" arbitrary: i)
  case 0
  then show ?case by (simp add: free_from_def)
next
  case (Suc d)
  then have i: "i < n" by simp
  show ?case
  proof (cases "status ! i = correct_chunk")
    case True
    then have "free_from status n (Suc i) = x # xs" using Suc.prems(1) free_from_step [OF i] by simp
    then show ?thesis using Suc.hyps(1) [of "Suc i"] Suc.hyps(2) Suc.prems(2) True i
      by (subst next_free.simps) simp
  next
    case False
    then show ?thesis using Suc.prems free_from_step [OF i, of status] i by (subst next_free.simps) auto
  qed
qed

lemma restore_chunks_stores:
  assumes "n \<le> length (server_chunk_status f)" "n \<le> length server_idxs" "ec_n (ec_params c) = n"
    and "\<forall>j \<in> set js. j < length (chunk_cnt f)" "length (missing (chunk_cnt f) js) \<le> length (free_from (server_chunk_status f) n i)"
    and frame: "\<And>j s req c req' c'. store_chunk H unknown_cache j s req c = Inr (req', c') \<Longrightarrow> ec_params c' = ec_params c"
  shows "restore_chunks H f server_idxs js i req c =
    store_chunks H server_idxs (zip (missing (chunk_cnt f) js) (free_from (server_chunk_status f) n i)) req c"
  using assms(3-5)
proof (induction js arbitrary: i req c)
  case (Cons j js)
  show ?case
  proof (cases "chunk_cnt f ! j = 0")
    case True
    then obtain x xs where x: "free_from (server_chunk_status f) n i = x # xs"
      using Cons.prems(3) by (cases "free_from (server_chunk_status f) n i") (auto simp: missing_def)
    note nf = next_free_correct [OF x assms(1)]
    have "restore_chunks H f server_idxs js (Suc x) req' c' = store_chunks H server_idxs (zip (missing (chunk_cnt f) js) xs) req' c'"
      if "store_chunk H unknown_cache j (server_idxs ! x) req c = Inr (req', c')" for req' c'
      using Cons.IH [of c' "Suc x"] Cons.prems nf x True frame [OF that] by (simp add: missing_def)
    then have "rbind (store_chunk H unknown_cache j (server_idxs ! x) req c) (\<lambda>(req, c). restore_chunks H f server_idxs js (Suc x) req c) =
        rbind (store_chunk H unknown_cache j (server_idxs ! x) req c) (\<lambda>(req, c). store_chunks H server_idxs (zip (missing (chunk_cnt f) js) xs) req c)"
      by (intro rbind_cong) auto
    then show ?thesis using Cons.prems(1,2) nf x True assms(2) by (simp add: missing_def idx_at_def)
  next
    case False
    then show ?thesis using Cons by (simp add: missing_def)
  qed
qed (simp add: missing_def)

lemma store_chunk_ec:
  "store_chunk H ct j s req c = Inr (req', c') \<Longrightarrow> ec_params c' = ec_params c"
  by (auto simp: store_chunk_def on_server_def rbind_eq_Inr split: if_splits prod.splits)

lemma store_chunk_correct:
  assumes "cluster_rep hash c S" "server_ok c (obj_size req) s" "hv_ok hash req" "fits req" "ct = main_cache \<or> ct = unknown_cache"
  shows "\<exists>req' c'. store_chunk (H1 hash) ct j s req c = Inr (req', c') \<and> like hash req req' \<and> frame c c' \<and>
    cluster_rep hash c' (S[unat s := stored (size_at c s) (chunk_tag j) (obj_of req) (S ! unat s)])"
  unfolding store_chunk_def
  by (rule store_correct [OF assms]) (simp add: set_chunk_id_def chunk_tag_def [abs_def])

text \<open>The state after a list of stores.\<close>

lemma chunk_of_stored:
  assumes "unat s < length S" "unat (snd x) \<le> n" "j < 256"
  shows "chunk_of (S[unat s := stored n (chunk_tag j) x (S ! unat s)]) (fst x) t =
    (if t = s then Some j else chunk_of S (fst x) t)"
  using assms lru_list_cached [of x n "fst (S ! unat s)"]
  by (auto simp: chunk_of_def stored_def Let_def word_unat_eq_iff [symmetric] nth_list_update)

lemma store_chunks_correct:
  assumes "cluster_rep hash c S" "hv_ok hash req" "fits req" "distinct (map snd ps)"
    and "\<forall>(j, i) \<in> set ps. j < 256 \<and> i < length ss \<and> server_ok c (obj_size req) (ss ! i)" "distinct ss"
  shows "\<exists>req' c' S'. store_chunks (H1 hash) ss ps req c = Inr (req', c') \<and> like hash req req' \<and> frame c c' \<and>
    cluster_rep hash c' S' \<and>
    (\<forall>i < length ss. chunk_of S' (obj_id_int req) (ss ! i) =
      (case map_of (map (\<lambda>(j, i). (i, j)) ps) i of None \<Rightarrow> chunk_of S (obj_id_int req) (ss ! i) | Some j \<Rightarrow> Some j))"
  using assms
proof (induction ps arbitrary: req c S)
  case (Cons p ps)
  obtain j i where p: "p = (j, i)" by (cases p)
  let ?s = "ss ! i"
  have ok: "j < 256" "i < length ss" "server_ok c (obj_size req) ?s" using Cons.prems(5) p by auto
  obtain req1 c1 where st: "store_chunk (H1 hash) unknown_cache j ?s req c = Inr (req1, c1)" "like hash req req1" "frame c c1"
    "cluster_rep hash c1 (S[unat ?s := stored (size_at c ?s) (chunk_tag j) (obj_of req) (S ! unat ?s)])"
    using store_chunk_correct [OF Cons.prems(1) ok(3) Cons.prems(2,3), of unknown_cache j] by auto
  let ?S = "S[unat ?s := stored (size_at c ?s) (chunk_tag j) (obj_of req) (S ! unat ?s)]"
  note l = likeD [OF st(2)]
  have len: "unat ?s < length S" using ok(3) cluster_rep_length [OF Cons.prems(1)] by (simp add: server_ok_def)
  have z: "unat (snd (obj_of req)) \<le> size_at c ?s"
    using ok(3) fitsD(2) [OF Cons.prems(3)] by (simp add: server_ok_def obj_of_def word_le_nat_alt)
  have ch: "chunk_of ?S (obj_id_int req) t = (if t = ?s then Some j else chunk_of S (obj_id_int req) t)" for t
    using chunk_of_stored [OF len z ok(1), of t] by (simp add: obj_of_def)
  have "\<exists>req' c' S'. store_chunks (H1 hash) ss ps req1 c1 = Inr (req', c') \<and> like hash req1 req' \<and> frame c1 c' \<and>
      cluster_rep hash c' S' \<and> (\<forall>i < length ss. chunk_of S' (obj_id_int req1) (ss ! i) =
        (case map_of (map (\<lambda>(j, i). (i, j)) ps) i of None \<Rightarrow> chunk_of ?S (obj_id_int req1) (ss ! i) | Some j \<Rightarrow> Some j))"
    using Cons.prems st l server_ok_frame [OF st(3)] p by (intro Cons.IH) auto
  then obtain req' c' S' where IH: "store_chunks (H1 hash) ss ps req1 c1 = Inr (req', c')" "like hash req1 req'" "frame c1 c'"
    "cluster_rep hash c' S'" "\<forall>i < length ss. chunk_of S' (obj_id_int req) (ss ! i) =
        (case map_of (map (\<lambda>(j, i). (i, j)) ps) i of None \<Rightarrow> chunk_of ?S (obj_id_int req) (ss ! i) | Some j \<Rightarrow> Some j)"
    unfolding l(1) by blast
  have "map_of (map (\<lambda>(j, i). (i, j)) ps) i = None"
    using Cons.prems(4) p by (auto simp: map_of_eq_None_iff image_iff)
  then have "\<forall>m < length ss. chunk_of S' (obj_id_int req) (ss ! m) =
      (case map_of (map (\<lambda>(j, i). (i, j)) (p # ps)) m of None \<Rightarrow> chunk_of S (obj_id_int req) (ss ! m) | Some j \<Rightarrow> Some j)"
    using IH(5) ok(2) Cons.prems(6) by (auto simp: p ch nth_eq_iff_index_eq split: option.split)
  then show ?case using st IH like_trans [OF st(2) IH(2)] frame_trans [OF st(3) IH(3)] by (auto simp: p)
qed auto

section \<open>Every chunk exactly once\<close>

lemma chunk_ids_mem: "j \<in> set (chunk_ids S k ss) \<longleftrightarrow> (\<exists>s \<in> set ss. chunk_of S k s = Some j)"
  by (force simp: chunk_ids_def List.map_filter_def)

lemma correct_iff:
  "status_of S k ss i = correct_chunk \<longleftrightarrow>
    (\<exists>j. chunk_of S k (ss ! i) = Some j \<and> j \<notin> set (chunk_ids S k (take i ss)))"
  by (auto simp: status_of_def split: option.split)

lemma correct_inj:
  assumes "i < length ss" "i' < length ss" "status_of S k ss i = correct_chunk" "status_of S k ss i' = correct_chunk"
    "chunk_of S k (ss ! i) = chunk_of S k (ss ! i')"
  shows "i = i'"
proof -
  have False if "a < b" "b < length ss" "chunk_of S k (ss ! a) = chunk_of S k (ss ! b)" "status_of S k ss b = correct_chunk" for a b
  proof -
    have "ss ! a \<in> set (take b ss)" using that(1,2) by (auto simp: in_set_conv_nth)
    then show False using that(3,4) by (fastforce simp: correct_iff chunk_ids_mem)
  qed
  then show ?thesis using assms by (metis linorder_less_linear)
qed

lemma map_of_zip_at: "distinct xs \<Longrightarrow> p < length xs \<Longrightarrow> p < length ys \<Longrightarrow> map_of (zip xs ys) (xs ! p) = Some (ys ! p)"
  by (subst map_of_eq_Some_iff) (auto simp: map_fst_zip_take in_set_zip)

lemma card_compl: "card {i. i < n \<and> \<not> P i} = n - card {i. i < n \<and> P i}" for n :: nat
proof -
  have "{i. i < n \<and> \<not> P i} = {..< n} - {i. i < n \<and> P i}" by auto
  then show ?thesis using card_Diff_subset [of "{i. i < n \<and> P i}" "{..< n}"] by auto
qed

text \<open>There are as many positions without a correct chunk as missing chunks.\<close>

lemma missing_le_free:
  assumes i: "info S k ss f" and n: "length ss = n" and j: "\<forall>s \<in> set ss. \<forall>j. chunk_of S k s = Some j \<longrightarrow> j < n" and n16: "n \<le> MAX_EC_N"
  shows "length (missing (chunk_cnt f) [0 ..< n]) \<le> length (free_from (server_chunk_status f) n 0)"
proof -
  let ?C = "{i. i < n \<and> status_of S k ss i = correct_chunk}" and ?I = "{j. j < n \<and> j \<in> set (chunk_ids S k ss)}"
  let ?id = "\<lambda>i. the (chunk_of S k (ss ! i))"
  have id: "chunk_of S k (ss ! i) = Some (?id i)" if "i \<in> ?C" for i using that by (auto simp: correct_iff)
  have "inj_on ?id ?C"
  proof (rule inj_onI)
    fix a b assume "a \<in> ?C" "b \<in> ?C" "?id a = ?id b"
    then show "a = b" using id [of a] id [of b] n by (intro correct_inj [of a ss b S k]) auto
  qed
  moreover have "?id ` ?C \<subseteq> ?I"
  proof
    fix m assume "m \<in> ?id ` ?C"
    then obtain i where "i \<in> ?C" "chunk_of S k (ss ! i) = Some m" using id by auto
    then show "m \<in> ?I" using j n by (auto simp: chunk_ids_mem)
  qed
  ultimately have CI: "card ?C \<le> card ?I" by (intro card_inj_on_le) auto
  have "length (missing (chunk_cnt f) [0 ..< n]) = card {j. j < n \<and> j \<notin> set (chunk_ids S k ss)}"
  proof -
    have "missing (chunk_cnt f) [0 ..< n] = filter (\<lambda>j. j \<notin> set (chunk_ids S k ss)) [0 ..< n]"
      unfolding missing_def using i n16 by (intro filter_cong) (auto simp: info_def count_list_0_iff)
    then show ?thesis by (simp add: length_filter_conv_card cong: conj_cong)
  qed
  also have "\<dots> = n - card ?I"
    by (rule card_compl)
  also have "\<dots> \<le> n - card ?C" using CI by simp
  also have "n - card ?C = card {i. i < n \<and> status_of S k ss i \<noteq> correct_chunk}"
    by (rule card_compl [symmetric])
  also have "\<dots> = length (free_from (server_chunk_status f) n 0)"
  proof -
    have "free_from (server_chunk_status f) n 0 = filter (\<lambda>i. status_of S k ss i \<noteq> correct_chunk) [0 ..< n]"
      unfolding free_from_def using i n by (intro filter_cong) (auto simp: info_def)
    then show ?thesis by (simp add: length_filter_conv_card cong: conj_cong)
  qed
  finally show ?thesis .
qed

text \<open>The chunks that are correct stay, the missing ones fill the other positions.\<close>

lemma all_chunks_once:
  assumes i: "info S k ss f" and n: "length ss = n" "n \<le> MAX_EC_N"
    and j: "\<forall>s \<in> set ss. \<forall>j. chunk_of S k s = Some j \<longrightarrow> j < n"
    and S': "\<forall>i < n. chunk_of S' k (ss ! i) =
      (case map_of (map (\<lambda>(j, i). (i, j)) (zip (missing (chunk_cnt f) [0 ..< n]) (free_from (server_chunk_status f) n 0))) i of
         None \<Rightarrow> chunk_of S k (ss ! i) | Some j \<Rightarrow> Some j)"
  shows "mset (map (chunk_of S' k) ss) = mset (map Some [0 ..< n])"
proof -
  let ?miss = "missing (chunk_cnt f) [0 ..< n]" and ?free = "free_from (server_chunk_status f) n 0"
  let ?m = "map_of (map (\<lambda>(j, i). (i, j)) (zip ?miss ?free))"
  have zip: "map (\<lambda>(j, i). (i, j)) (zip ?miss ?free) = zip ?free ?miss"
    by (simp add: zip_commute [of ?free ?miss] split_def)
  have free: "distinct ?free" "i < n" "status_of S k ss i \<noteq> correct_chunk" if "i \<in> set ?free" for i
    using i n that by (auto simp: free_from_def info_def)
  have dfree: "distinct ?free" by (simp add: free_from_def)
  have "Some m \<in> set (map (chunk_of S' k) ss)" if m: "m < n" for m
  proof (cases "m \<in> set (chunk_ids S k ss)")
    case True
    let ?P = "\<lambda>i. i < n \<and> chunk_of S k (ss ! i) = Some m"
    obtain s where "s \<in> set ss" "chunk_of S k s = Some m" using True by (auto simp: chunk_ids_mem)
    then obtain i0 where "?P i0" using n by (auto simp: in_set_conv_nth)
    define i where "i = (LEAST i. ?P i)"
    have P: "?P i" unfolding i_def using \<open>?P i0\<close> by (rule LeastI)
    have "m \<notin> set (chunk_ids S k (take i ss))"
    proof
      assume "m \<in> set (chunk_ids S k (take i ss))"
      then obtain s where "s \<in> set (take i ss)" "chunk_of S k s = Some m" by (auto simp: chunk_ids_mem)
      then obtain b where "b < i" "b < length ss" "chunk_of S k (ss ! b) = Some m" by (auto simp: in_set_conv_nth)
      then show False using not_less_Least [of b ?P] n by (auto simp: i_def)
    qed
    then have "status_of S k ss i = correct_chunk" using P by (auto simp: correct_iff)
    then have "i \<notin> set ?free" using free by blast
    then have "?m i = None" by (auto simp: zip map_of_eq_None_iff dest: set_zip_leftD)
    then have "chunk_of S' k (ss ! i) = Some m" using S' P by simp
    then show ?thesis using P n by (metis length_map nth_map nth_mem)
  next
    case False
    then have "m \<in> set ?miss" using m i n by (auto simp: missing_def info_def count_list_0_iff)
    then obtain p where p: "p < length ?miss" "?miss ! p = m" by (auto simp: in_set_conv_nth)
    then have p': "p < length ?free" using missing_le_free [OF i n(1) j n(2)] by simp
    have "?m (?free ! p) = Some m"
      unfolding zip using map_of_zip_at [OF dfree p' p(1)] p(2) by simp
    moreover have "?free ! p < n" using free(2) [of "?free ! p"] p' by simp
    ultimately have "chunk_of S' k (ss ! (?free ! p)) = Some m" using S' by simp
    then show ?thesis using \<open>?free ! p < n\<close> n by (metis length_map nth_map nth_mem)
  qed
  then have sub: "set (map Some [0 ..< n]) \<subseteq> set (map (chunk_of S' k) ss)" by auto
  have "card (set (map Some [0 ..< n])) = n" by (simp add: card_image)
  then have "n \<le> card (set (map (chunk_of S' k) ss))" using card_mono [OF _ sub] by simp
  then have d: "distinct (map (chunk_of S' k) ss)" using n(1) card_length [of "map (chunk_of S' k) ss"] by (intro card_distinct) simp
  then have "set (map (chunk_of S' k) ss) = set (map Some [0 ..< n])"
    using sub n(1) card_subset_eq [OF _ sub] distinct_card [OF d] by (simp add: card_image)
  moreover have "distinct (map Some [0 ..< n])" by (simp add: distinct_map)
  ultimately show ?thesis using set_eq_iff_mset_eq_distinct [OF d] by blast
qed

section \<open>Asking further servers\<close>

text \<open>What an object on a further server has to be: a chunk with a small number.\<close>

definition chunk_ok :: "aserver list \<Rightarrow> obj_id_t \<Rightarrow> u32 \<Rightarrow> bool" where
  "chunk_ok S k s \<longleftrightarrow> (cached k (contents_at S s) \<longrightarrow>
    metadata_u8 0 (tags_at S s k) = chunk_obj \<and> unat (metadata_u8 1 (tags_at S s k)) < MAX_EC_N)"

text \<open>The arrays after asking further servers: only the hits and the checked servers change.\<close>

definition asked :: "chunk_info \<Rightarrow> nat \<Rightarrow> u32 set \<Rightarrow> chunk_info \<Rightarrow> bool" where
  "asked f e D f' \<longleftrightarrow> server_chunk_status f' = server_chunk_status f \<and> chunk_cnt f' = chunk_cnt f \<and>
    n_duplicates f' = n_duplicates f \<and> n_hits f' = n_hits f + of_nat e \<and> length (checked_servers f') = length (checked_servers f) \<and>
    (\<forall>s. unat s < length (checked_servers f) \<longrightarrow> checked_servers f' ! unat s = (checked_servers f ! unat s \<or> s \<in> D))"

lemma asked_refl: "asked f 0 {} f"
  by (simp add: asked_def)

lemma asked_trans: "asked f e D f' \<Longrightarrow> asked f' e' D' f'' \<Longrightarrow> asked f (e + e') (D \<union> D') f''"
  by (auto simp: asked_def)

text \<open>The servers of a list that are new and hold the object.\<close>

definition holders :: "aserver list \<Rightarrow> obj_id_t \<Rightarrow> chunk_info \<Rightarrow> u32 set \<Rightarrow> u32 set" where
  "holders S k f D = {s \<in> D. \<not> checked_servers f ! unat s \<and> cached k (contents_at S s)}"

lemma check_extra_correct:
  assumes r: "cluster_rep hash c S" and ok: "server_ok c (obj_size req) s" and hv: "hv_ok hash req"
    and s: "unat s < length (checked_servers f)" "chunk_ok S (obj_id_int req) s" "length (chunk_cnt f) = MAX_EC_N"
  shows "\<exists>req' f' c' e. check_extra (H1 hash) s (req, f, c) = Inr (req', f', c') \<and> like hash req req' \<and>
    asked f e {s} f' \<and> e \<le> card (holders S (obj_id_int req) f {s}) \<and> frame c c' \<and> cluster_rep hash c' S"
proof (cases "checked_servers f ! unat s")
  case True
  then have "asked f 0 {s} f" by (auto simp: asked_def word_unat_eq_iff [symmetric])
  then show ?thesis using True s(1) r
    by (intro exI [of _ req] exI [of _ f] exI [of _ c] exI [of _ 0]) (simp add: check_extra_def)
next
  case new: False
  let ?k = "obj_id_int req" let ?f = "f\<lparr>checked_servers := (checked_servers f)[unat s := True]\<rparr>"
  have a: "asked f 0 {s} ?f" "asked f 1 {s} (?f\<lparr>n_hits := n_hits f + 1\<rparr>)"
    using s(1) by (auto simp: asked_def nth_list_update word_unat_eq_iff [symmetric])
  obtain c1 where c1: "server_check (H1 hash) s req c = Inr ((cached ?k (contents_at S s),
      if cached ?k (contents_at S s) then Some (metadata_u8 0 (tags_at S s ?k)) else None, set_hv hash req), c1)"
    "frame c c1" "cluster_rep hash c1 S" using server_check_correct [OF r ok hv] by blast
  have ok1: "server_ok c1 (obj_size req) s" using ok server_ok_frame [OF c1(2)] by simp
  show ?thesis
  proof (cases "cached ?k (contents_at S s)")
    case False
    then show ?thesis using c1 new s(1) a(1)
      by (intro exI [of _ "set_hv hash req"] exI [of _ ?f] exI [of _ c1] exI [of _ 0]) (simp add: check_extra_def Let_def)
  next
    case True
    then have t: "metadata_u8 0 (tags_at S s ?k) = chunk_obj" "unat (metadata_u8 1 (tags_at S s ?k)) < MAX_EC_N"
      using s(2) by (simp_all add: chunk_ok_def)
    have h: "holders S ?k f {s} = {s}" using True new by (auto simp: holders_def)
    obtain c2 where c2: "add_read_load (obj_size req) s c1 = Inr c2" "frame c1 c2" "cluster_rep hash c2 S"
      using add_load_correct(1) [OF c1(3) ok1] by blast
    have fr: "frame c c2" using frame_trans [OF c1(2) c2(2)] .
    obtain c3 where c3: "server_chunk_id (H1 hash) s (set_hv hash req) c2 =
        Inr ((unat (metadata_u8 1 (tags_at S s ?k)), set_hv hash (set_hv hash req)), c3)" "frame c2 c3" "cluster_rep hash c3 S"
      using server_chunk_id_correct [OF c2(3) _ set_hv_simps(5) [OF hv], of s] ok server_ok_frame [OF fr] True
      by (auto simp: server_ok_def)
    define e where "e = (if chunk_cnt f ! unat (metadata_u8 1 (tags_at S s ?k)) = 0 then 1 else 0 :: nat)"
    have "check_extra (H1 hash) s (req, f, c) =
        Inr (set_hv hash (set_hv hash req), if e = 1 then ?f\<lparr>n_hits := n_hits f + 1\<rparr> else ?f, c3)"
      using c1(1) c2(1) c3(1) True new s(1,3) t by (simp add: check_extra_def Let_def e_def)
    moreover have "asked f e {s} (if e = 1 then ?f\<lparr>n_hits := n_hits f + 1\<rparr> else ?f)" using a by (simp add: e_def)
    moreover have "e \<le> card (holders S ?k f {s})" by (simp add: h e_def)
    ultimately show ?thesis using c3(3) frame_trans [OF fr c3(2)] by (meson like_simps(3))
  qed
qed

lemma check_extras_correct:
  assumes "cluster_rep hash c S" "hv_ok hash req" "length (chunk_cnt f) = MAX_EC_N"
    and "\<forall>s \<in> set ss. server_ok c (obj_size req) s \<and> unat s < length (checked_servers f) \<and> chunk_ok S (obj_id_int req) s"
  shows "\<exists>req' f' c' e. check_extras (H1 hash) ss (req, f, c) = Inr (req', f', c') \<and> like hash req req' \<and>
    asked f e (set ss) f' \<and> e \<le> card (holders S (obj_id_int req) f (set ss)) \<and> frame c c' \<and> cluster_rep hash c' S"
  using assms
proof (induction ss arbitrary: req f c)
  case Nil
  then show ?case using asked_refl [of f] by (auto intro!: exI [of _ 0])
next
  case (Cons s ss)
  let ?k = "obj_id_int req"
  obtain req1 f1 c1 e1 where st: "check_extra (H1 hash) s (req, f, c) = Inr (req1, f1, c1)" "like hash req req1"
    "asked f e1 {s} f1" "e1 \<le> card (holders S ?k f {s})" "frame c c1" "cluster_rep hash c1 S"
    using check_extra_correct [OF Cons.prems(1) _ Cons.prems(2), of s f] Cons.prems(3,4) by auto
  note l = likeD [OF st(2)]
  have "\<exists>req' f' c' e. check_extras (H1 hash) ss (req1, f1, c1) = Inr (req', f', c') \<and> like hash req1 req' \<and>
      asked f1 e (set ss) f' \<and> e \<le> card (holders S (obj_id_int req1) f1 (set ss)) \<and> frame c1 c' \<and> cluster_rep hash c' S"
    using Cons.prems st l server_ok_frame [OF st(5)] by (intro Cons.IH) (auto simp: asked_def)
  then obtain req' f' c' e where IH: "check_extras (H1 hash) ss (req1, f1, c1) = Inr (req', f', c')" "like hash req1 req'"
    "asked f1 e (set ss) f'" "e \<le> card (holders S ?k f1 (set ss))" "frame c1 c'" "cluster_rep hash c' S" unfolding l(1) by blast
  have "holders S ?k f {s} \<inter> holders S ?k f1 (set ss) = {}" "holders S ?k f {s} \<union> holders S ?k f1 (set ss) \<subseteq> holders S ?k f (set (s # ss))"
    using st(3) Cons.prems(4) by (auto simp: holders_def asked_def)
  moreover have "finite (holders S ?k f (set (s # ss)))" by (simp add: holders_def)
  ultimately have "card (holders S ?k f {s}) + card (holders S ?k f1 (set ss)) \<le> card (holders S ?k f (set (s # ss)))"
    by (metis (no_types, lifting) card_Un_disjoint card_mono finite_Un finite_subset)
  then have "e1 + e \<le> card (holders S ?k f (set (s # ss)))" using st(4) IH(4) by linarith
  then show ?case
    using st IH like_trans [OF st(2) IH(2)] frame_trans [OF st(5) IH(5)] asked_trans [OF st(3) IH(3)]
    by (intro exI [of _ req'] exI [of _ f'] exI [of _ c'] exI [of _ "e1 + e"]) simp
qed

text \<open>The servers that are asked when too few chunks were found.\<close>

definition further :: "cacheCluster \<Rightarrow> request_t \<Rightarrow> u32 list \<Rightarrow> u32 list" where
  "further c req server_idxs =
    (let n = ec_n (ec_params c) in
     drop n (take (n + MAX_N_UNAVAIL) server_idxs) @
     (case prev_ch_mapping c (bucket_id req) of None \<Rightarrow> [] | Some prev \<Rightarrow> [prev ! (n - 1)]))"

lemma holders_mono: "D \<subseteq> E \<Longrightarrow> finite E \<Longrightarrow> card (holders S k f D) \<le> card (holders S k f E)"
  by (intro card_mono) (auto simp: holders_def)

lemma look_further_correct:
  assumes r: "cluster_rep hash c S" and hv: "hv_ok hash req" and cnt: "length (chunk_cnt f) = MAX_EC_N"
    and len: "ec_n (ec_params c) + MAX_N_UNAVAIL \<le> length server_idxs"
      "\<And>prev. prev_ch_mapping c (bucket_id req) = Some prev \<Longrightarrow> ec_n (ec_params c) - 1 < length prev"
    and fu: "\<forall>s \<in> set (further c req server_idxs). server_ok c (obj_size req) s \<and> unat s < length (checked_servers f) \<and> chunk_ok S (obj_id_int req) s"
  shows "\<exists>req' f' c' e D. look_further (H1 hash) server_idxs (req, f, c) = Inr (req', f', c') \<and> like hash req req' \<and>
    asked f e D f' \<and> e \<le> card (holders S (obj_id_int req) f (set (further c req server_idxs))) \<and> frame c c' \<and> cluster_rep hash c' S"
proof -
  let ?k = "obj_id_int req" and ?n = "ec_n (ec_params c)" and ?p = "cluster_params c"
  let ?F = "further c req server_idxs"
  define ss where "ss = (if check_one_more ?p \<or> parity_rebalance ?p then drop ?n (take (?n + MAX_N_UNAVAIL) server_idxs) else [])"
  have ss: "set ss \<subseteq> set ?F" by (auto simp: ss_def further_def Let_def)
  obtain req1 f1 c1 e1 where e1: "check_extras (H1 hash) ss (req, f, c) = Inr (req1, f1, c1)" "like hash req req1"
    "asked f e1 (set ss) f1" "e1 \<le> card (holders S ?k f (set ss))" "frame c c1" "cluster_rep hash c1 S"
    using check_extras_correct [OF r hv cnt, of ss] fu ss by blast
  have first: "(if check_one_more ?p \<or> parity_rebalance ?p
      then rbind (first_servers (?n + MAX_N_UNAVAIL) server_idxs) (\<lambda>is. check_extras (H1 hash) (drop ?n is) (req, f, c))
      else Inr (req, f, c)) = Inr (req1, f1, c1)"
    using e1(1) len(1) by (auto simp: ss_def first_servers_def)
  note l = likeD [OF e1(2)] and pm = frameD(7) [OF e1(5)]
  show ?thesis
  proof (cases "unat (n_hits f1) < ec_k (ec_params c) \<and> parity_rebalance ?p \<and> prev_ch_mapping c (bucket_id req) \<noteq> None")
    case False
    then have "look_further (H1 hash) server_idxs (req, f, c) = Inr (req1, f1, c1)"
      using first l(6) pm by (auto simp: look_further_def Let_def)
    then show ?thesis using e1 holders_mono [OF ss, of S ?k f] by (meson List.finite_set order_trans)
  next
    case True
    then obtain prev where prev: "prev_ch_mapping c (bucket_id req) = Some prev" by auto
    let ?s = "prev ! (?n - 1)"
    have s: "?s \<in> set ?F" using prev by (simp add: further_def Let_def)
    have "server_ok c1 (obj_size req1) ?s" using fu s server_ok_frame [OF e1(5)] l(2) by simp
    then have "\<exists>req' f' c' e. check_extras (H1 hash) [?s] (req1, f1, c1) = Inr (req', f', c') \<and> like hash req1 req' \<and>
        asked f1 e (set [?s]) f' \<and> e \<le> card (holders S (obj_id_int req1) f1 (set [?s])) \<and> frame c1 c' \<and> cluster_rep hash c' S"
      using fu s e1(3) l hv cnt by (intro check_extras_correct [OF e1(6)]) (auto simp: asked_def)
    then obtain req2 f2 c2 e2 where e2: "check_extra (H1 hash) ?s (req1, f1, c1) = Inr (req2, f2, c2)" "like hash req1 req2"
      "asked f1 e2 {?s} f2" "e2 \<le> card (holders S ?k f1 {?s})" "frame c1 c2" "cluster_rep hash c2 S"
      unfolding l(1) by (auto simp: rbind_eq_Inr)
    have "look_further (H1 hash) server_idxs (req, f, c) = Inr (req2, f2, c2)"
      using first True e2(1) prev l(6) pm len(2) [OF prev] by (simp add: look_further_def Let_def idx_at_def)
    moreover have "holders S ?k f (set ss) \<inter> holders S ?k f1 {?s} = {}" "holders S ?k f (set ss) \<union> holders S ?k f1 {?s} \<subseteq> holders S ?k f (set ?F)"
      using e1(3) fu s ss by (auto simp: holders_def asked_def)
    then have "card (holders S ?k f (set ss)) + card (holders S ?k f1 {?s}) \<le> card (holders S ?k f (set ?F))"
      by (subst card_Un_disjoint [symmetric]) (auto simp: holders_def intro!: card_mono)
    then have "e1 + e2 \<le> card (holders S ?k f (set ?F))" using e1(4) e2(4) by linarith
    ultimately show ?thesis using e2 like_trans [OF e1(2) e2(2)] frame_trans [OF e1(5) e2(5)] asked_trans [OF e1(3) e2(3)] by blast
  qed
qed

section \<open>The report on duplicates\<close>

lemma server_check_any:
  assumes r: "cluster_rep hash c S" and i: "unat s < length (cache_servers c)" and hv: "hv_ok hash req"
  shows "\<exists>b t req' c'. server_check (H1 hash) s req c = Inr ((b, t, req'), c') \<and> like hash req req' \<and>
    (b \<longrightarrow> cached (obj_id_int req) (contents_at S s)) \<and> frame c c' \<and> cluster_rep hash c' S"
proof (cases "available (cache_servers c ! unat s)")
  case True
  have rep: "server_rep hash (cache_servers c ! unat s) (contents_at S s) (tags_at S s)" using cluster_repD [OF r i] .
  obtain sv' where k: "sv_check (H1 hash) (cache_servers c ! unat s) req =
      Inr (cached (obj_id_int req) (contents_at S s),
        if cached (obj_id_int req) (contents_at S s) then Some (metadata_u8 0 (tags_at S s (obj_id_int req))) else None,
        set_hv hash req, sv')" "server_rep hash sv' (contents_at S s) (tags_at S s)" "same_server (cache_servers c ! unat s) sv'"
    using sv_check_correct [OF rep True hv] by blast
  have "S[unat s := (contents_at S s, tags_at S s)] = S" using i cluster_rep_length [OF r] by (intro list_update_pair) simp
  then show ?thesis
    using on_server_correct [OF r i _ k(3) k(2),
      of "\<lambda>sv. rbind (sv_check (H1 hash) sv req) (\<lambda>(b, t, req, sv). Inr ((b, t, req), sv))"] k(1)
    unfolding server_check_def by (auto simp: like_simps(2))
next
  case False
  have e: "c\<lparr>cache_servers := (cache_servers c)[unat s := cache_servers c ! unat s]\<rparr> = c" by simp
  show ?thesis using i r False e
    by (intro exI [of _ False] exI [of _ None] exI [of _ req] exI [of _ c])
      (simp add: server_check_def on_server_def sv_check_def)
qed

lemma report_chunks_correct:
  assumes "cluster_rep hash c S" "hv_ok hash req" "\<forall>s \<in> set ss. unat s < length (cache_servers c)"
  shows "\<exists>req' c'. report_chunks (H1 hash) ss req c = Inr (req', c') \<and> like hash req req' \<and> frame c c' \<and> cluster_rep hash c' S"
  using assms
proof (induction ss arbitrary: req c)
  case (Cons s ss)
  obtain b t req1 c1 where st: "server_check (H1 hash) s req c = Inr ((b, t, req1), c1)" "like hash req req1"
    "b \<longrightarrow> cached (obj_id_int req) (contents_at S s)" "frame c c1" "cluster_rep hash c1 S"
    using server_check_any [OF Cons.prems(1) _ Cons.prems(2), of s] Cons.prems(3) by auto
  note l = likeD [OF st(2)] and len = frameD(9) [OF st(4)]
  have "\<exists>req2 c2. (if b then rbind (server_chunk_id (H1 hash) s req1 c1) (\<lambda>((_, req), c). Inr (req, c)) else Inr (req1, c1)) =
      Inr (req2, c2) \<and> like hash req1 req2 \<and> frame c1 c2 \<and> cluster_rep hash c2 S"
    using server_chunk_id_correct [OF st(5), of s req1] st l len Cons.prems by (cases b) fastforce+
  then obtain req2 c2 where s2: "(if b then rbind (server_chunk_id (H1 hash) s req1 c1) (\<lambda>((_, req), c). Inr (req, c)) else Inr (req1, c1)) =
      Inr (req2, c2)" "like hash req1 req2" "frame c1 c2" "cluster_rep hash c2 S" by blast
  have "\<exists>req' c'. report_chunks (H1 hash) ss req2 c2 = Inr (req', c') \<and> like hash req2 req' \<and> frame c2 c' \<and> cluster_rep hash c' S"
    using Cons.prems l likeD(3) [OF s2(2)] len frameD(9) [OF s2(3)] by (intro Cons.IH [OF s2(4)]) auto
  then show ?case using st s2 like_trans [OF like_trans [OF st(2) s2(2)]] frame_trans [OF frame_trans [OF st(4) s2(3)]] by auto
qed auto

lemma report_duplicates_correct:
  assumes r: "cluster_rep hash c S" and hv: "hv_ok hash req" and n: "length (cache_servers c) \<le> MAX_N_SERVER"
  shows "\<exists>req' c'. report_duplicates (H1 hash) (req, f, c) = Inr (req', f, c') \<and> like hash req req' \<and> frame c c' \<and> cluster_rep hash c' S"
proof -
  let ?ss = "map of_nat [0 ..< length (cache_servers c)] :: u32 list"
  have "\<forall>s \<in> set ?ss. unat s < length (cache_servers c)" using n by (auto simp: MAX_N_SERVER_def unat_of_nat)
  from report_chunks_correct [OF r hv this]
  obtain req' c' where "report_chunks (H1 hash) ?ss req c = Inr (req', c')" "like hash req req'" "frame c c'" "cluster_rep hash c' S" by blast
  then show ?thesis using r by (auto simp: report_duplicates_def Let_def)
qed

end
