(* ===== verification/SampleCluster.thy ===== *)
theory SampleCluster
  imports CacheCluster CacheTraces
begin

text \<open>
  A cluster of four servers of 100 bytes for the examples, with a ring of one node per server.
\<close>

definition four_ring :: ring_t where
  "four_ring = \<lparr>n_point = 4, n_server = 4, vnodes =
    [\<lparr>point = 10, server_id = 0\<rparr>, \<lparr>point = 20, server_id = 1\<rparr>, \<lparr>point = 30, server_id = 2\<rparr>, \<lparr>point = 40, server_id = 3\<rparr>]\<rparr>"

lemma four_ring_ok: "ring_ok four_ring" "ring_sorted (vnodes four_ring)"
  by (simp_all add: ring_ok_def ring_sorted_def four_ring_def)

definition sample_server :: "(obj_id_t \<Rightarrow> u64) \<Rightarrow> u32 \<Rightarrow> cacheServer" where
  "sample_server hash i =
    \<lparr>server_params = \<lparr>sp_server_id = i, sp_cache_size = 100, sp_cache_alg = lru, sp_EC_n = 2, sp_EC_k = 1, sp_gutter_space = 0\<rparr>,
     gutter_prob = 100, main = LRU_init (hashtable_ver1 hash) (sample_params 100), gcache = None, available = True,
     sv_req_cnt = 0, sv_hit_cnt = 0, gutter_hit_cnt = 0, gutter_req_cnt = 0\<rparr>"

definition sample_cluster :: "(obj_id_t \<Rightarrow> u64) \<Rightarrow> cluster_mode_e \<Rightarrow> cacheCluster" where
  "sample_cluster hash m =
    \<lparr>ring = four_ring, ch_mapping = (\<lambda>b. Some [0, 1, 2, 3]), prev_ch_mapping = (\<lambda>_. None), ori_lead_mapping = (\<lambda>b. Some 0),
     n_bucket_per_server = replicate 4 0, obj_freq_map = (\<lambda>_. None), cluster_check = start_check,
     cluster_params = \<lparr>cluster_id = 0, trace_format = akamai1b, p_cache_servers = [], cp_n_server = 4, p_server_cache_sizes = [],
       server_weight = None, admission = 0, check_one_more = False, parity_rebalance = False, cluster_mode = m\<rparr>,
     ec_params = \<lparr>ec_n = 2, ec_k = 1, size_threshold = 5\<rparr>, read_load_byte = replicate 4 0, write_load_byte = replicate 4 0,
     cache_servers = map (sample_server hash) [0, 1, 2, 3],
     cluster_stat = \<lparr>st_cluster_id = 0, st_n_server = 4, n_avail_server = 4, server_cache_sizes = [], cluster_cache_size = 400,
       cluster_cache_size_in_gb = 0, cluster_cache_size_in_mb = 0, cluster_hit_cnt = 0, cluster_req_cnt = 0, cluster_hit_bytes = 0,
       cluster_req_bytes = 0, full_obj_hit_cnt = 0, full_obj_hit_bytes = 0, chunk_obj_hit_cnt = 0, chunk_obj_hit_bytes = 0,
       n_miss = [0, 0], midgress_bytes = 0, intra_cluster_bytes = 0\<rparr>,
     bucket_stat = replicate 4 zero_bucketStat, rands = (\<lambda>_. 0), rand_idx = 0\<rparr>"

end
