(* ===== verification/ClusterProps.thy ===== *)
theory ClusterProps
  imports ClusterSpec SampleCluster
begin

text \<open>
  The properties of the cluster: what a request for a coded object does to the chunks on the
  servers, how requests are counted, when objects are admitted, and how servers fail and recover.
\<close>

section \<open>A hit on a coded object\<close>

text \<open>The state in which a cluster finds a chunk of the requested object on a lead server: the first
  \<open>n\<close> servers of its bucket are distinct, up, and large enough for a chunk; the chunks they hold
  have numbers below \<open>n\<close>; what the further servers hold of the object are chunks.\<close>

definition chunk_ready :: "(obj_id_t \<Rightarrow> u64) \<Rightarrow> cacheCluster \<Rightarrow> aserver list \<Rightarrow> request_t \<Rightarrow> u32 list \<Rightarrow> bool" where
  "chunk_ready hash c S req server_idxs \<longleftrightarrow>
    (let n = ec_n (ec_params c); ss = take n server_idxs; z = chunk_size (obj_size req) (ec_k (ec_params c)) in
     cluster_rep hash c S \<and> hv_ok hash req \<and> 1 \<le> ec_k (ec_params c) \<and> n \<le> MAX_EC_N \<and>
     n + MAX_N_UNAVAIL \<le> length server_idxs \<and> distinct ss \<and> length (cache_servers c) \<le> MAX_N_SERVER \<and>
     0 < unat z \<and> unat z < 2 ^ 32 \<and>
     (\<forall>s \<in> set ss \<union> set (further c req server_idxs). server_ok c z s) \<and>
     (\<forall>s \<in> set ss. \<forall>j. chunk_of S (obj_id_int req) s = Some j \<longrightarrow> j < n) \<and>
     (\<forall>s \<in> set (further c req server_idxs). chunk_ok S (obj_id_int req) s) \<and>
     (\<forall>prev. prev_ch_mapping c (bucket_id req) = Some prev \<longrightarrow> n - 1 < length prev) \<and>
     length (n_miss (cluster_stat c)) = n \<and> unat (original_server req) < length (bucket_stat c) \<and>
     n_chunk_hit (cluster_check c) = 0)"

text \<open>The numbers of different chunks on the first \<open>n\<close> servers and of other servers with a chunk.\<close>

definition near_chunks :: "cacheCluster \<Rightarrow> aserver list \<Rightarrow> request_t \<Rightarrow> u32 list \<Rightarrow> nat" where
  "near_chunks c S req server_idxs = card (set (chunk_ids S (obj_id_int req) (take (ec_n (ec_params c)) server_idxs)))"

definition stray_chunks :: "cacheCluster \<Rightarrow> aserver list \<Rightarrow> request_t \<Rightarrow> u32 list \<Rightarrow> nat" where
  "stray_chunks c S req server_idxs = card {s \<in> set (further c req server_idxs).
     s \<notin> set (take (ec_n (ec_params c)) server_idxs) \<and> cached (obj_id_int req) (contents_at S s)}"

lemma info_begin: "n_chunk_hit (cluster_check c) = 0 \<Longrightarrow> info S k [] (new_chunk_info c)"
  by (simp add: info_def new_chunk_info_def)

lemma chunk_hit_stat_correct:
  assumes n: "unat (n_hits f) = h" "1 \<le> h" "h \<le> ec_n (ec_params c)" "ec_n (ec_params c) \<le> MAX_EC_N"
    and m: "length (n_miss (cluster_stat c)) = ec_n (ec_params c)" "unat (original_server req) < length (bucket_stat c)"
  shows "\<exists>c'. chunk_hit_stat z req f c = Inr c' \<and> cache_servers c' = cache_servers c \<and>
    n_chunk_hit (cluster_check c') = n_hits f \<and> obj_type (cluster_check c') = obj_type (cluster_check c) \<and>
    is_hit (cluster_check c') = (is_hit (cluster_check c) \<or> ec_k (ec_params c) \<le> h) \<and>
    n_miss (cluster_stat c') = (n_miss (cluster_stat c))[ec_n (ec_params c) - h := n_miss (cluster_stat c) ! (ec_n (ec_params c) - h) + 1]"
proof -
  have "unat (of_nat (ec_n (ec_params c)) :: u32) = ec_n (ec_params c)" using n(4) by (simp add: unat_of_nat MAX_EC_N_def)
  then have miss: "unat (of_nat (ec_n (ec_params c)) - n_hits f) = ec_n (ec_params c) - h"
    using n(1,3) by (subst unat_sub) (simp_all add: word_le_nat_alt)
  show ?thesis
    using n(1-3) m
    by (cases "h < ec_k (ec_params c)")
      (auto simp: chunk_hit_stat_def Let_def miss add_at_def upd_bucket_stat_def upd_stat_def upd_check_def)
qed

lemma chunk_readyD:
  fixes c :: cacheCluster and req :: request_t and n z
  defines "n \<equiv> ec_n (ec_params c)" and "z \<equiv> chunk_size (obj_size req) (ec_k (ec_params c))"
  assumes "chunk_ready hash c S req server_idxs"
  shows "cluster_rep hash c S" "hv_ok hash req" "1 \<le> ec_k (ec_params c)" "n \<le> MAX_EC_N" "n + MAX_N_UNAVAIL \<le> length server_idxs"
    "distinct (take n server_idxs)" "length (cache_servers c) \<le> MAX_N_SERVER" "0 < unat z" "unat z < 2 ^ 32"
    "s \<in> set (take n server_idxs) \<or> s \<in> set (further c req server_idxs) \<Longrightarrow> server_ok c z s \<and> unat s < MAX_N_SERVER"
    "\<forall>s \<in> set (take n server_idxs). \<forall>j. chunk_of S (obj_id_int req) s = Some j \<longrightarrow> j < n"
    "s \<in> set (further c req server_idxs) \<Longrightarrow> chunk_ok S (obj_id_int req) s"
    "prev_ch_mapping c (bucket_id req) = Some prev \<Longrightarrow> n - 1 < length prev"
    "length (n_miss (cluster_stat c)) = n" "unat (original_server req) < length (bucket_stat c)" "n_chunk_hit (cluster_check c) = 0"
proof -
  show "server_ok c z s \<and> unat s < MAX_N_SERVER" if "s \<in> set (take n server_idxs) \<or> s \<in> set (further c req server_idxs)"
  proof -
    have "server_ok c z s" "length (cache_servers c) \<le> MAX_N_SERVER"
      using assms(3) that by (auto simp: chunk_ready_def Let_def n_def z_def)
    then show ?thesis by (simp add: server_ok_def)
  qed
qed (use assms(3) in \<open>auto simp: chunk_ready_def Let_def n_def z_def\<close>)

text \<open>The request for a chunk.\<close>

lemma chunk_request:
  assumes "hv_ok hash req" "0 < unat z" "unat z < 2 ^ 32"
  shows "obj_id_int (req\<lparr>obj_size := z\<rparr>) = obj_id_int req" "obj_size (req\<lparr>obj_size := z\<rparr>) = z" "hv_ok hash (req\<lparr>obj_size := z\<rparr>)"
    "fits (req\<lparr>obj_size := z\<rparr>)" "bucket_id (req\<lparr>obj_size := z\<rparr>) = bucket_id req"
    "original_server (req\<lparr>obj_size := z\<rparr>) = original_server req"
  using assms by (simp_all add: hv_ok_def fits_def bucket_id_def original_server_def)

lemma gather_chunks:
  fixes c :: cacheCluster and req :: request_t and n z
  defines "n \<equiv> ec_n (ec_params c)" and "z \<equiv> chunk_size (obj_size req) (ec_k (ec_params c))"
  assumes ready: "chunk_ready hash c S req server_idxs"
  shows "\<exists>req1 f1 c1. get_chunk_info (H1 hash) False server_idxs (req\<lparr>obj_size := z\<rparr>, new_chunk_info c, c) = Inr (req1, f1, c1) \<and>
    like hash (req\<lparr>obj_size := z\<rparr>) req1 \<and> info S (obj_id_int req) (take n server_idxs) f1 \<and> frame c c1 \<and> cluster_rep hash c1 S"
proof -
  note p = chunk_readyD [OF ready, folded n_def z_def]
  note q = chunk_request [OF p(2,8,9)]
  have "\<exists>req' f' c'. chunk_info_loop (H1 hash) False 0 (take n server_idxs) (req\<lparr>obj_size := z\<rparr>, new_chunk_info c, c) = Inr (req', f', c') \<and>
      like hash (req\<lparr>obj_size := z\<rparr>) req' \<and> info S (obj_id_int req) (take n server_idxs) f' \<and> frame c c' \<and> cluster_rep hash c' S"
    using chunk_info_loop_correct [OF p(1) q(3) info_begin [OF p(16)], of "take n server_idxs"] p(4,6,10,11) q(1,2)
    by (fastforce intro: order_less_le_trans)
  then show ?thesis using p(5) by (simp add: get_chunk_info_def first_servers_def n_def)
qed

lemma ask_further:
  fixes c :: cacheCluster and req :: request_t and n z
  defines "n \<equiv> ec_n (ec_params c)" and "z \<equiv> chunk_size (obj_size req) (ec_k (ec_params c))"
  assumes ready: "chunk_ready hash c S req server_idxs"
    and g: "like hash (req\<lparr>obj_size := z\<rparr>) req1" "info S (obj_id_int req) (take n server_idxs) f1" "frame c c1" "cluster_rep hash c1 S"
  shows "\<exists>req2 f2 c2 e D. (if unat (n_hits f1) < ec_k (ec_params c) then look_further (H1 hash) server_idxs (req1, f1, c1)
      else Inr (req1, f1, c1)) = Inr (req2, f2, c2) \<and> like hash req1 req2 \<and> asked f1 e D f2 \<and>
    e \<le> stray_chunks c S req server_idxs \<and> frame c1 c2 \<and> cluster_rep hash c2 S"
proof (cases "unat (n_hits f1) < ec_k (ec_params c)")
  case False
  then show ?thesis using g(4) asked_refl [of f1] by (intro exI [of _ req1] exI [of _ f1] exI [of _ c1] exI [of _ 0] exI [of _ "{}"]) simp
next
  case True
  note p = chunk_readyD [OF ready, folded n_def z_def] and fr1 = frameD [OF g(3)]
  note q = chunk_request [OF p(2,8,9)] and l1 = likeD [OF g(1)]
  let ?F = "further c req server_idxs"
  have F1: "further c1 req1 server_idxs = ?F" using fr1 l1(6) q(5) by (simp add: further_def)
  have fd1: "length (chunk_cnt f1) = MAX_EC_N" "length (checked_servers f1) = MAX_N_SERVER" using g(2) by (simp_all add: info_def)
  have holders: "holders S (obj_id_int req) f1 (set ?F) = {s \<in> set ?F. s \<notin> set (take n server_idxs) \<and> cached (obj_id_int req) (contents_at S s)}"
    using g(2) p(10) by (auto simp: holders_def info_def)
  have "\<exists>req' f' c' e D. look_further (H1 hash) server_idxs (req1, f1, c1) = Inr (req', f', c') \<and> like hash req1 req' \<and>
      asked f1 e D f' \<and> e \<le> card (holders S (obj_id_int req1) f1 (set (further c1 req1 server_idxs))) \<and> frame c1 c' \<and> cluster_rep hash c' S"
  proof (rule look_further_correct [OF g(4) _ fd1(1)])
    show "hv_ok hash req1" using l1(3) q(3) by simp
    show "ec_n (ec_params c1) + MAX_N_UNAVAIL \<le> length server_idxs" using p(5) fr1(1) by (simp add: n_def)
    show "ec_n (ec_params c1) - 1 < length prev" if "prev_ch_mapping c1 (bucket_id req1) = Some prev" for prev
      using p(13) that fr1(1,7) l1(6) q(5) by (simp add: n_def)
    show "\<forall>s \<in> set (further c1 req1 server_idxs). server_ok c1 (obj_size req1) s \<and> unat s < length (checked_servers f1) \<and> chunk_ok S (obj_id_int req1) s"
      using p(10,12) F1 fd1(2) l1(1,2) q(1,2) server_ok_frame [OF g(3)] by simp
  qed
  then show ?thesis using True l1(1) q(1) unfolding F1 by (simp add: holders stray_chunks_def n_def)
qed

text \<open>Restoring after the chunks were collected: every chunk is then on exactly one of the servers.\<close>

lemma restore_all:
  assumes r: "cluster_rep hash c S" and q: "hv_ok hash req" "fits req" and i: "info S (obj_id_int req) (take n server_idxs) f"
    and a: "server_chunk_status f' = server_chunk_status f" "chunk_cnt f' = chunk_cnt f"
    and n: "ec_n (ec_params c) = n" "n \<le> MAX_EC_N" "n \<le> length server_idxs" "distinct (take n server_idxs)"
    and ok: "\<And>s. s \<in> set (take n server_idxs) \<Longrightarrow> server_ok c (obj_size req) s"
    and j: "\<forall>s \<in> set (take n server_idxs). \<forall>j. chunk_of S (obj_id_int req) s = Some j \<longrightarrow> j < n"
  shows "\<exists>req' c' S'. restore_chunks (H1 hash) f' server_idxs [0 ..< n] 0 req c = Inr (req', c') \<and> like hash req req' \<and>
    frame c c' \<and> cluster_rep hash c' S' \<and>
    mset (map (chunk_of S' (obj_id_int req)) (take n server_idxs)) = mset (map Some [0 ..< n])"
proof -
  let ?ss = "take n server_idxs"
  let ?ps = "zip (missing (chunk_cnt f) [0 ..< n]) (free_from (server_chunk_status f) n 0)"
  have len: "length ?ss = n" using n(3) by simp
  note ml = missing_le_free [OF i len j n(2)]
  have fd: "length (server_chunk_status f) = MAX_EC_N" "length (chunk_cnt f) = MAX_EC_N" using i by (simp_all add: info_def)
  have rs: "restore_chunks (H1 hash) f' server_idxs [0 ..< n] 0 req c = store_chunks (H1 hash) server_idxs ?ps req c"
    using restore_chunks_stores [of n f' server_idxs c "[0 ..< n]" 0 "H1 hash" req] n fd ml a store_chunk_ec by auto
  have ps: "x < n \<and> y < n" if "(x, y) \<in> set ?ps" for x y
    using set_zip_leftD [OF that] set_zip_rightD [OF that] by (simp add: missing_def free_from_def)
  have eq: "store_chunks (H1 hash) server_idxs ps req c = store_chunks (H1 hash) ?ss ps req c" if "\<forall>(x, y) \<in> set ps. y < n" for ps req c
    using that by (induction ps arbitrary: req c) (auto intro!: rbind_cong)
  have "\<exists>req' c' S'. store_chunks (H1 hash) ?ss ?ps req c = Inr (req', c') \<and> like hash req req' \<and> frame c c' \<and> cluster_rep hash c' S' \<and>
      (\<forall>i < length ?ss. chunk_of S' (obj_id_int req) (?ss ! i) =
        (case map_of (map (\<lambda>(j, i). (i, j)) ?ps) i of None \<Rightarrow> chunk_of S (obj_id_int req) (?ss ! i) | Some j \<Rightarrow> Some j))"
  proof (rule store_chunks_correct [OF r q])
    have "distinct (free_from (server_chunk_status f) n 0)" by (simp add: free_from_def)
    then show "distinct (map snd ?ps)" by (simp add: map_snd_zip_take)
    show "\<forall>(j, i) \<in> set ?ps. j < 256 \<and> i < length ?ss \<and> server_ok c (obj_size req) (?ss ! i)"
      using ps n(2) len ok nth_mem [of _ ?ss] by (force simp: MAX_EC_N_def)
  qed (rule n(4))
  then obtain req' c' S' where s: "store_chunks (H1 hash) ?ss ?ps req c = Inr (req', c')" "like hash req req'" "frame c c'" "cluster_rep hash c' S'"
    "\<forall>i < n. chunk_of S' (obj_id_int req) (?ss ! i) =
        (case map_of (map (\<lambda>(j, i). (i, j)) ?ps) i of None \<Rightarrow> chunk_of S (obj_id_int req) (?ss ! i) | Some j \<Rightarrow> Some j)"
    unfolding len by blast
  have "mset (map (chunk_of S' (obj_id_int req)) ?ss) = mset (map Some [0 ..< n])"
    using all_chunks_once [OF i len n(2) j s(5)] .
  then show ?thesis using rs eq [of ?ps req c] ps s by auto
qed

text \<open>
  (C1) A hit on a coded object. When the request finds a chunk on one of its \<open>n\<close> servers, and no
  more than \<open>n\<close> chunks are counted in all, \<^verbatim>\<open>_cache_hit_chunk_obj\<close> runs without a failed assertion, an
  access out of bounds or an endless loop. Afterwards each of the chunks \<open>0 .. n - 1\<close> is on exactly one
  of the \<open>n\<close> servers, whatever chunks were missing or doubled before. The request is a hit exactly
  when at least \<open>k\<close> chunks were counted, and \<^verbatim>\<open>n_miss\<close> is counted up at the number of missing chunks.
\<close>

theorem cache_hit_chunk_obj_restores:
  assumes ready: "chunk_ready hash c S req server_idxs"
    and h: "1 \<le> near_chunks c S req server_idxs"
      "near_chunks c S req server_idxs + stray_chunks c S req server_idxs \<le> ec_n (ec_params c)"
  shows "\<exists>req' c' S' hits. cache_hit_chunk_obj (H1 hash) req server_idxs c = Inr (req', c') \<and> like hash req req' \<and>
    cluster_rep hash c' S' \<and>
    mset (map (chunk_of S' (obj_id_int req)) (take (ec_n (ec_params c)) server_idxs)) = mset (map Some [0 ..< ec_n (ec_params c)]) \<and>
    near_chunks c S req server_idxs \<le> hits \<and> hits \<le> ec_n (ec_params c) \<and>
    is_hit (cluster_check c') = (is_hit (cluster_check c) \<or> ec_k (ec_params c) \<le> hits) \<and>
    n_miss (cluster_stat c') = (n_miss (cluster_stat c))
      [ec_n (ec_params c) - hits := n_miss (cluster_stat c) ! (ec_n (ec_params c) - hits) + 1]"
proof -
  define n z where "n = ec_n (ec_params c)" and "z = chunk_size (obj_size req) (ec_k (ec_params c))"
  note p = chunk_readyD [OF ready, folded n_def z_def]
  note q = chunk_request [OF p(2,8,9)]
  obtain req1 f1 c1 where g: "get_chunk_info (H1 hash) False server_idxs (req\<lparr>obj_size := z\<rparr>, new_chunk_info c, c) = Inr (req1, f1, c1)"
    "like hash (req\<lparr>obj_size := z\<rparr>) req1" "info S (obj_id_int req) (take n server_idxs) f1" "frame c c1" "cluster_rep hash c1 S"
    using gather_chunks [OF ready] unfolding n_def z_def by blast
  obtain req2 f2 c2 e D where a: "(if unat (n_hits f1) < ec_k (ec_params c) then look_further (H1 hash) server_idxs (req1, f1, c1)
      else Inr (req1, f1, c1)) = Inr (req2, f2, c2)" "like hash req1 req2" "asked f1 e D f2"
      "e \<le> stray_chunks c S req server_idxs" "frame c1 c2" "cluster_rep hash c2 S"
    using ask_further [OF ready g(2-5) [unfolded n_def z_def]] by blast
  have l2: "like hash (req\<lparr>obj_size := z\<rparr>) req2" using like_trans [OF g(2) a(2)] .
  have sv2: "length (cache_servers c2) \<le> MAX_N_SERVER" using frameD(9) [OF g(4)] frameD(9) [OF a(5)] p(7) by simp
  obtain req3 c3 where d: "report_duplicates (H1 hash) (req2, f2, c2) = Inr (req3, f2, c3)" "like hash req2 req3" "frame c2 c3" "cluster_rep hash c3 S"
    using report_duplicates_correct [OF a(6) likeD(3) [OF l2 q(3)] sv2] by blast
  have l3: "like hash (req\<lparr>obj_size := z\<rparr>) req3" and fr: "frame c c3"
    using like_trans [OF l2 d(2)] frame_trans [OF frame_trans [OF g(4) a(5)] d(3)] by simp_all
  note r3 = likeD [OF l3, unfolded q] and fr3 = frameD [OF fr]
  have as: "server_chunk_status f2 = server_chunk_status f1" "chunk_cnt f2 = chunk_cnt f1" "n_hits f2 = n_hits f1 + of_nat e"
    using a(3) by (simp_all add: asked_def)
  have "\<exists>req' c' S'. restore_chunks (H1 hash) f2 server_idxs [0 ..< n] 0 req3 c3 = Inr (req', c') \<and> like hash req3 req' \<and> frame c3 c' \<and>
      cluster_rep hash c' S' \<and> mset (map (chunk_of S' (obj_id_int req3)) (take n server_idxs)) = mset (map Some [0 ..< n])"
    using p r3 g(3) as fr3(1) server_ok_frame [OF fr] q(3,4) by (intro restore_all [OF d(4)]) (auto simp: n_def)
  then obtain req4 c4 S' where s: "restore_chunks (H1 hash) f2 server_idxs [0 ..< n] 0 req3 c3 = Inr (req4, c4)" "like hash req3 req4" "frame c3 c4"
    "cluster_rep hash c4 S'" "mset (map (chunk_of S' (obj_id_int req)) (take n server_idxs)) = mset (map Some [0 ..< n])" unfolding r3(1) by blast
  have l4: "like hash (req\<lparr>obj_size := z\<rparr>) req4" and fr4: "frame c c4" using like_trans [OF l3 s(2)] frame_trans [OF fr s(3)] by simp_all
  note f4 = frameD [OF fr4]
  define hits where "hits = near_chunks c S req server_idxs + e"
  have le: "1 \<le> hits" "hits \<le> n" using h a(4) by (simp_all add: hits_def n_def)
  have "n_hits f2 = of_nat hits" using g(3) as(3) by (simp add: info_def near_chunks_def n_def hits_def)
  then have nh: "unat (n_hits f2) = hits" using le p(4) by (simp add: unat_of_nat MAX_EC_N_def)
  have o4: "unat (original_server req4) < length (bucket_stat c4)" using likeD(7) [OF l4] q(6) f4(5) p(15) by simp
  have "\<exists>c'. chunk_hit_stat z req4 f2 c4 = Inr c' \<and> cache_servers c' = cache_servers c4 \<and>
      n_chunk_hit (cluster_check c') = n_hits f2 \<and> obj_type (cluster_check c') = obj_type (cluster_check c4) \<and>
      is_hit (cluster_check c') = (is_hit (cluster_check c4) \<or> ec_k (ec_params c4) \<le> hits) \<and>
      n_miss (cluster_stat c') = (n_miss (cluster_stat c4))
        [ec_n (ec_params c4) - hits := n_miss (cluster_stat c4) ! (ec_n (ec_params c4) - hits) + 1]"
    using le f4 p(4,14) o4 by (intro chunk_hit_stat_correct [OF nh]) (auto simp: n_def)
  then obtain c' where c': "chunk_hit_stat z req4 f2 c4 = Inr c'" "cache_servers c' = cache_servers c4"
    "is_hit (cluster_check c') = (is_hit (cluster_check c) \<or> ec_k (ec_params c) \<le> hits)"
    "n_miss (cluster_stat c') = (n_miss (cluster_stat c))[n - hits := n_miss (cluster_stat c) ! (n - hits) + 1]"
    using f4 by (auto simp: n_def)
  have "cache_hit_chunk_obj (H1 hash) req server_idxs c = Inr (req4\<lparr>obj_size := obj_size req\<rparr>, c')"
    using g(1) a(1) d(1) s(1) c'(1) p(3) by (simp add: cache_hit_chunk_obj_def Let_def z_def n_def)
  moreover have "like hash req (req4\<lparr>obj_size := obj_size req\<rparr>)" using l4 by (auto simp: like_def hv_ok_def)
  moreover have "cluster_rep hash c' S'" using s(4) c'(2) by (simp add: cluster_rep_def)
  moreover have "near_chunks c S req server_idxs \<le> hits" by (simp add: hits_def)
  ultimately show ?thesis using s(5) c'(3,4) le(2) unfolding n_def by blast
qed

section \<open>The size of a chunk\<close>

text \<open>
  (C38) The size of a chunk, computed in floating point, is the quotient of the object size and \<open>k\<close>
  rounded up: \<open>k\<close> chunks hold the object, and they are less than \<open>k\<close> bytes larger.
\<close>

theorem chunk_size_correct:
  assumes "0 < k" "unat n < 2 ^ 53"
  shows "unat (chunk_size n k) = (unat n + k - 1) div k \<and> unat n \<le> k * unat (chunk_size n k) \<and> k * unat (chunk_size n k) < unat n + k"
proof -
  let ?m = "(unat n + k - 1) div k"
  have m: "unat n \<le> k * ?m" "k * ?m < unat n + k"
    using assms(1) dividend_less_times_div [of k "unat n + k - 1"] times_div_less_eq_dividend [of k "unat n + k - 1"] by linarith+
  have "\<lceil>of_nat (unat n) / of_nat k :: rat\<rceil> = int ?m"
  proof (rule ceiling_unique)
    have k: "0 < (of_nat k :: rat)" using assms(1) by simp
    have "(of_nat (unat n) :: rat) \<le> of_nat (k * ?m)" "of_nat (k * ?m) < (of_nat (unat n + k) :: rat)"
      using m by (simp_all only: of_nat_le_iff of_nat_less_iff)
    then show "of_nat (unat n) / of_nat k \<le> (of_int (int ?m) :: rat)" "of_int (int ?m) - 1 < (of_nat (unat n) / of_nat k :: rat)"
      using k by (simp_all add: field_simps)
  qed
  moreover have "to_double (of_nat (unat n)) = of_nat (unat n)" using assms(2) by (rule rnd_int)
  ultimately have "chunk_size n k = of_nat ?m"
    using ceiling_to_double_div [OF assms] by (simp only: chunk_size_def of_int_of_nat_eq)
  moreover have "?m \<le> unat n"
  proof (cases "n = 0")
    case False
    then have "1 \<le> unat n" by (metis unat_eq_zero Suc_leI One_nat_def neq0_conv)
    then have "unat n + k - 1 \<le> k * unat n" using assms(1) by (cases k) (auto simp: algebra_simps)
    then show ?thesis by (metis div_le_mono nonzero_mult_div_cancel_left assms(1) less_not_refl)
  qed (use assms(1) in auto)
  then have "?m < 2 ^ 64" using assms(2) by simp
  ultimately have "unat (chunk_size n k) = ?m" by simp
  then show ?thesis using m by simp
qed

theorem chunk_size_correct_witness:
  "unat (chunk_size 10 3) = 4 \<and> 10 \<le> 3 * unat (chunk_size 10 3)"
  using chunk_size_correct [of 3 10] by simp

section \<open>A sample cluster\<close>

lemma tagged_init: "tagged (\<lambda>_. 0) (hashtable (LRU_init (H1 hash) params))"
proof (rule taggedI)
  fix p x assume "heap (hashtable (LRU_init (H1 hash) params)) p = Some x"
  then have "x = zero_obj"
    by (auto simp: LRU_init_def cache_struct_init_def hashtable_ver1_def create_chained_hashtable_def alloc_table_def empty_store_def
      chained_hashtable_add_ptr_to_monitoring_def Let_def split: ptr.splits if_splits)
  then show "extra_metadata x = (if o_size x = 0 then 0 else 0)" by (simp add: zero_obj_def)
qed

lemma sample_server_rep: "server_rep hash (sample_server hash i) [] (\<lambda>_. 0)"
  using tagged_init [of hash "sample_params 100"] v1.init_rep [of hash True "sample_params 100"]
  by (simp add: server_rep_def sample_server_def lru_inv_def LRU_init_def)

definition empty_servers :: "aserver list" where
  "empty_servers = replicate 4 ([], \<lambda>_. 0)"

lemma sample_cluster_rep: "cluster_rep hash (sample_cluster hash m) empty_servers"
  by (simp add: cluster_rep_def sample_cluster_def empty_servers_def numeral_eq_Suc sample_server_rep)

lemma sample_server_ok: "z \<le> 100 \<Longrightarrow> unat s < 4 \<Longrightarrow> server_ok (sample_cluster hash m) z s"
proof -
  assume a: "z \<le> 100" "unat s < 4"
  have "unat s = 0 \<or> unat s = 1 \<or> unat s = 2 \<or> unat s = 3" using a(2) by linarith
  then show ?thesis using a
    by (auto simp: server_ok_def sample_cluster_def sample_server_def LRU_init_def)
qed

text \<open>After chunk 1 was stored on server 0, a hit puts chunk 0 on server 1.\<close>

theorem cache_hit_chunk_obj_restores_witness:
  "\<exists>c S c' S' req'. chunk_ready (\<lambda>k. k) c S (sample_req 7 10) [0, 1, 2, 3] \<and>
    chunk_of S 7 0 = Some 1 \<and> chunk_of S 7 1 = None \<and>
    cache_hit_chunk_obj (H1 (\<lambda>k. k)) (sample_req 7 10) [0, 1, 2, 3] c = Inr (req', c') \<and> cluster_rep (\<lambda>k. k) c' S' \<and>
    mset (map (chunk_of S' 7) [0, 1]) = {#Some 0, Some 1#} \<and> is_hit (cluster_check c')"
proof -
  let ?h = "\<lambda>k :: u64. k" and ?req = "sample_req 7 10"
  let ?S = "empty_servers[unat (0 :: u32) := stored 100 (chunk_tag 1) (obj_of ?req) (empty_servers ! unat (0 :: u32))]"
  have sz: "size_at (sample_cluster ?h C2DN) 0 = 100" by (simp add: sample_cluster_def sample_server_def LRU_init_def)
  obtain req1 c where st: "store_chunk (H1 ?h) unknown_cache 1 0 ?req (sample_cluster ?h C2DN) = Inr (req1, c)"
    "frame (sample_cluster ?h C2DN) c" "cluster_rep ?h c ?S"
    using store_chunk_correct [OF sample_cluster_rep [of ?h C2DN] sample_server_ok, of ?req 0 unknown_cache 1] sz by auto
  note fr = frameD [OF st(2)]
  have c: "ec_params c = \<lparr>ec_n = 2, ec_k = 1, size_threshold = 5\<rparr>" "prev_ch_mapping c = (\<lambda>_. None)" "cluster_check c = start_check"
    "length (cache_servers c) = 4" "n_miss (cluster_stat c) = [0, 0]" "length (bucket_stat c) = 4" using fr by (simp_all add: sample_cluster_def)
  have ch: "chunk_of ?S 7 t = (if t = 0 then Some 1 else chunk_of empty_servers 7 t)" for t
    using chunk_of_stored [of 0 empty_servers "obj_of ?req" 100 1 t] by (simp add: empty_servers_def)
  have em: "chunk_of empty_servers 7 t = None" "\<not> cached 7 (contents_at ?S t)" if "unat t < 4" "t \<noteq> 0" for t
    using that by (auto simp: chunk_of_def empty_servers_def cached_def word_unat_eq_iff)
  have "unat (chunk_size 10 1) = 10" using chunk_size_correct [of 1 10] by simp
  then have z: "chunk_size 10 (Suc 0) = 10" by (simp add: word_unat_eq_iff)
  have rq: "obj_size ?req = 10" "obj_id_int ?req = 7" "original_server ?req = 0" "hv_ok ?h ?req"
    by (simp_all add: original_server_def sample_req_def new_request_def hv_ok_def)
  have F: "further c ?req [0, 1, 2, 3] = [2, 3]" by (simp add: further_def c MAX_N_UNAVAIL_def Let_def)
  have ok: "server_ok c 10 s" if "s \<in> {0, 1, 2, 3}" for s
    using sample_server_ok [of 10 s ?h C2DN] server_ok_frame [OF st(2)] that by auto
  define S where "S = ?S"
  have S: "cluster_rep ?h c S" "chunk_of S 7 0 = Some 1" "chunk_of S 7 1 = None" "\<not> cached 7 (contents_at S 2)" "\<not> cached 7 (contents_at S 3)"
    using st(3) em(2) [of 2] em(2) [of 3] em(1) [of 1] ch [of 0] ch [of 1] by (simp_all add: S_def)
  have ready: "chunk_ready ?h c S ?req [0, 1, 2, 3]"
    using S ok by (simp add: chunk_ready_def Let_def c z F rq MAX_EC_N_def MAX_N_UNAVAIL_def MAX_N_SERVER_def chunk_ok_def
      start_check_def new_cluster_hit_def)
  have near: "near_chunks c S ?req [0, 1, 2, 3] = 1"
    using S by (simp add: near_chunks_def c chunk_ids_def List.map_filter_def rq)
  have stray: "stray_chunks c S ?req [0, 1, 2, 3] = 0" using S by (auto simp: stray_chunks_def F rq)
  have two: "[0 ..< (2 :: nat)] = [0, 1]" by (simp add: upt_rec)
  obtain req' c' S' where "cache_hit_chunk_obj (H1 ?h) ?req [0, 1, 2, 3] c = Inr (req', c')" "cluster_rep ?h c' S'"
    "mset (map (chunk_of S' 7) [0, 1]) = {#Some 0, Some 1#}" "is_hit (cluster_check c')"
    using cache_hit_chunk_obj_restores [OF ready]
    by (auto simp: near stray c two rq start_check_def new_cluster_hit_def)
  then show ?thesis using ready S(2,3) by blast
qed

end
