(* ===== verification/ClusterMapping.thy ===== *)
theory ClusterMapping
  imports SampleCluster
begin

text \<open>
  What \<^verbatim>\<open>populate_hash_mapping\<close> and \<^verbatim>\<open>find_parity_mapping\<close> compute: the servers of every bucket.
\<close>

section \<open>The servers of a bucket\<close>

text \<open>The available servers in the order of the ring, from the node of bucket \<open>b\<close> on.\<close>

abbreviation bucket_hash :: "(u64 \<Rightarrow> u64) \<Rightarrow> nat \<Rightarrow> nat" where
  "bucket_hash hash b \<equiv> unat (hash (of_nat b) AND 0xffffffff)"

definition live_servers :: "(u64 \<Rightarrow> u64) \<Rightarrow> cacheCluster \<Rightarrow> nat \<Rightarrow> u32 list" where
  "live_servers hash c b = filter (\<lambda>s. available (cache_servers c ! unat s))
     (nub (ring_walk (ring c) (successor (vnodes (ring c)) (bucket_hash hash b))))"

definition bucket_lead :: "(u64 \<Rightarrow> u64) \<Rightarrow> cacheCluster \<Rightarrow> nat \<Rightarrow> u32" where
  "bucket_lead hash c b = server_id (vnodes (ring c) ! successor (vnodes (ring c)) (bucket_hash hash b))"

text \<open>The cluster the mapping is computed for: a ring with a node for every server, and at least
  \<open>n + 2\<close> available servers.\<close>

definition mapping_ready :: "cacheCluster \<Rightarrow> bool" where
  "mapping_ready c \<longleftrightarrow> ring_ok (ring c) \<and> ring_sorted (vnodes (ring c)) \<and>
     unat (n_server (ring c)) = length (cache_servers c) \<and>
     (\<forall>i < length (cache_servers c). of_nat i \<in> server_id ` set (vnodes (ring c))) \<and>
     1 \<le> ec_n (ec_params c) \<and> ec_n (ec_params c) \<le> MAX_EC_N \<and>
     ec_n (ec_params c) + MAX_N_UNAVAIL \<le> length (filter available (cache_servers c))"

text \<open>The capacities after \<open>b\<close> buckets: an available server has lost at most one unit per bucket.\<close>

definition cap_left :: "cacheCluster \<Rightarrow> nat \<Rightarrow> u32 list \<Rightarrow> bool" where
  "cap_left c b cap \<longleftrightarrow> length cap = length (cache_servers c) \<and>
     (\<forall>i < length cap. if available (cache_servers c ! i)
        then N_BUCKET * ec_n (ec_params c) - b \<le> unat (cap ! i) else cap ! i = 0)"

lemma mapping_readyD:
  assumes "mapping_ready c"
  shows "ring_ok (ring c)" "ring_sorted (vnodes (ring c))" "unat (n_server (ring c)) = length (cache_servers c)"
    "1 \<le> ec_n (ec_params c)" "ec_n (ec_params c) \<le> MAX_EC_N"
    "ec_n (ec_params c) + MAX_N_UNAVAIL \<le> length (filter available (cache_servers c))"
    "i < length (cache_servers c) \<Longrightarrow> of_nat i \<in> server_id ` set (vnodes (ring c))"
  using assms by (simp_all add: mapping_ready_def)

lemma set_ring_walk: "ring_ok rg \<Longrightarrow> set (ring_walk rg k) = server_id ` set (vnodes rg)"
  by (simp add: ring_walk_def)

lemma live_servers_props:
  assumes "mapping_ready c"
  shows "distinct (live_servers hash c b)"
    "s \<in> set (live_servers hash c b) \<longleftrightarrow> unat s < length (cache_servers c) \<and> available (cache_servers c ! unat s)"
    "ec_n (ec_params c) + MAX_N_UNAVAIL \<le> length (live_servers hash c b)"
proof -
  note r = mapping_readyD [OF assms]
  have walk: "s \<in> set (ring_walk (ring c) k) \<longleftrightarrow> unat s < length (cache_servers c)" for s k
  proof
    show "unat s < length (cache_servers c)" if "s \<in> set (ring_walk (ring c) k)"
      using ring_walk_server [OF r(1) that] r(3) by simp
    show "s \<in> set (ring_walk (ring c) k)" if "unat s < length (cache_servers c)"
      using r(7) [OF that] by (simp add: set_ring_walk [OF r(1)])
  qed
  show d: "distinct (live_servers hash c b)" by (simp add: live_servers_def)
  show s: "s \<in> set (live_servers hash c b) \<longleftrightarrow> unat s < length (cache_servers c) \<and> available (cache_servers c ! unat s)" for s
    by (auto simp: live_servers_def walk)
  have "length (filter available (cache_servers c)) = card {i. i < length (cache_servers c) \<and> available (cache_servers c ! i)}"
    by (rule length_filter_conv_card)
  also have "{i. i < length (cache_servers c) \<and> available (cache_servers c ! i)} = unat ` set (live_servers hash c b)"
  proof -
    have n: "unat (n_server (ring c)) < 2 ^ 32" by (rule unat_u32_less)
    have "i = unat (of_nat i :: u32)" if "i < length (cache_servers c)" for i
      using that r(3) n by (simp add: unat_of_nat)
    then show ?thesis by (auto simp: s intro!: image_eqI [where x = "of_nat i" for i])
  qed
  also have "card \<dots> = length (live_servers hash c b)"
    using card_image [of unat "set (live_servers hash c b)"] distinct_card [OF d] by (simp add: inj_on_def word_unat_eq_iff)
  finally show "ec_n (ec_params c) + MAX_N_UNAVAIL \<le> length (live_servers hash c b)" using r(6) by simp
qed

section \<open>Populating the mapping\<close>

lemma count_buckets_ok:
  "\<forall>s \<in> set ss. unat s < length v \<Longrightarrow> distinct ss \<Longrightarrow> length v < 2 ^ 32 \<Longrightarrow>
   \<exists>v'. count_buckets ss v = Inr v' \<and> length v' = length v \<and>
     (\<forall>i < length v. v' ! i = v ! i + (if of_nat i \<in> set ss then 1 else 0))"
proof (induction ss arbitrary: v)
  case (Cons s ss)
  have "(of_nat i = s) = (unat s = i)" if "i < length v" for i
    using that Cons.prems(3) by (auto simp: word_unat_eq_iff unat_of_nat)
  then show ?case using Cons.prems Cons.IH [of "v[unat s := v ! unat s + 1]"]
    by (auto simp: count_bucket_def nth_list_update)
qed simp

lemma unat_minus_one: "0 < unat (w :: u32) \<Longrightarrow> unat (w - 1) = unat w - 1"
  by (simp add: unat_sub word_le_nat_alt)

lemma use_capacity_each:
  assumes "distinct ss" "i < length cap" "0 < unat (cap ! i)"
  shows "unat (cap ! i) - 1 \<le> unat (fold (\<lambda>s cap. cap[unat (s :: u32) := cap ! unat s - 1]) ss (cap :: u32 list) ! i)"
  using assms
proof (induction ss arbitrary: cap)
  case (Cons s ss)
  let ?cap = "cap[unat s := cap ! unat s - 1]"
  show ?case
  proof (cases "unat s = i")
    case True
    then have "fold (\<lambda>s cap. cap[unat s := cap ! unat s - 1]) ss ?cap ! i = ?cap ! i"
      using use_capacity_other [of s ss ?cap] Cons.prems(1) by simp
    then show ?thesis using True Cons.prems unat_minus_one [of "cap ! i"] by simp
  next
    case False
    then show ?thesis using Cons.IH [of ?cap] Cons.prems by simp
  qed
qed simp

lemma use_capacity_zero:
  "i \<notin> unat ` set ss \<Longrightarrow> fold (\<lambda>s cap. cap[unat s := cap ! unat (s :: u32) - 1]) ss cap ! i = cap ! i"
  by (induction ss arbitrary: cap) auto

lemma cap_left_servers:
  assumes "mapping_ready c" "cap_left c b cap" "b < N_BUCKET"
  shows "key_servers (ring c) (bucket_hash hash b') (Some cap) = live_servers hash c b'"
proof -
  note r = mapping_readyD [OF assms(1)]
  have "b < N_BUCKET * ec_n (ec_params c)" using assms(3) r(4) by (metis less_le_trans mult_le_mono2 mult.right_neutral)
  then have "has_capacity (Some cap) s = available (cache_servers c ! unat s)" if "unat s < length (cache_servers c)" for s
    using assms(2) that by (auto simp: cap_left_def has_capacity_def word_less_nat_alt split: if_splits)
  then show ?thesis unfolding key_servers_def live_servers_def
    by (intro filter_cong) (auto dest: ring_walk_server [OF r(1)] simp: r(3))
qed

lemma cap_left_use:
  assumes "mapping_ready c" "cap_left c b cap" "b < N_BUCKET"
  shows "cap_left c (Suc b) (fold (\<lambda>s cap. cap[unat s := cap ! unat s - 1]) (take m (live_servers hash c b')) cap)"
proof -
  note r = mapping_readyD [OF assms(1)] and l = live_servers_props [OF assms(1), where hash = hash and b = b']
  let ?ss = "take m (live_servers hash c b')"
  have b: "b < N_BUCKET * ec_n (ec_params c)" using assms(3) r(4) by (metis less_le_trans mult_le_mono2 mult.right_neutral)
  have "N_BUCKET * ec_n (ec_params c) - Suc b \<le> unat (fold (\<lambda>s cap. cap[unat s := cap ! unat s - 1]) ?ss cap ! i)"
    if "i < length cap" "available (cache_servers c ! i)" for i
    using use_capacity_each [of ?ss i cap] l(1) that assms(2) b by (simp add: cap_left_def distinct_take) force
  moreover have "fold (\<lambda>s cap. cap[unat s := cap ! unat s - 1]) ?ss cap ! i = 0"
    if "i < length cap" "\<not> available (cache_servers c ! i)" for i
  proof -
    have "i \<notin> unat ` set ?ss" using that(2) by (auto dest!: in_set_takeD simp: l(2))
    then show ?thesis using use_capacity_zero [of i ?ss cap] that assms(2) by (simp add: cap_left_def)
  qed
  ultimately show ?thesis using assms(2) by (simp add: cap_left_def)
qed

text \<open>Only the mapping and the counts of buckets change.\<close>

definition remapped :: "cacheCluster \<Rightarrow> cacheCluster \<Rightarrow> bool" where
  "remapped c c' \<longleftrightarrow> ring c' = ring c \<and> prev_ch_mapping c' = prev_ch_mapping c \<and> obj_freq_map c' = obj_freq_map c \<and>
     cluster_check c' = cluster_check c \<and> cluster_params c' = cluster_params c \<and> ec_params c' = ec_params c \<and>
     read_load_byte c' = read_load_byte c \<and> write_load_byte c' = write_load_byte c \<and> cache_servers c' = cache_servers c \<and>
     cluster_stat c' = cluster_stat c \<and> bucket_stat c' = bucket_stat c \<and> rands c' = rands c \<and> rand_idx c' = rand_idx c"

lemma remapped_trans: "remapped c c' \<Longrightarrow> remapped c' c'' \<Longrightarrow> remapped c c''"
  by (auto simp: remapped_def)

lemma remappedD:
  assumes "remapped c c'"
  shows "ring c' = ring c" "cache_servers c' = cache_servers c" "ec_params c' = ec_params c" "cluster_params c' = cluster_params c"
    "cluster_stat c' = cluster_stat c" "prev_ch_mapping c' = prev_ch_mapping c" "bucket_stat c' = bucket_stat c"
    "live_servers hash c' b = live_servers hash c b" "bucket_lead hash c' b = bucket_lead hash c b"
    "mapping_ready c' = mapping_ready c" "cap_left c' k cap = cap_left c k cap"
  using assms by (auto simp: remapped_def live_servers_def bucket_lead_def mapping_ready_def cap_left_def)

text \<open>The servers that are counted for a bucket: those of the data chunks when the parity chunk is
  placed later.\<close>

definition counted_servers :: "(u64 \<Rightarrow> u64) \<Rightarrow> cacheCluster \<Rightarrow> nat \<Rightarrow> u32 list" where
  "counted_servers hash c b = take (if parity_rebalance (cluster_params c) then ec_n (ec_params c) - 1 else ec_n (ec_params c))
     (live_servers hash c b)"

definition counted_buckets :: "(u64 \<Rightarrow> u64) \<Rightarrow> cacheCluster \<Rightarrow> nat list \<Rightarrow> nat \<Rightarrow> nat list" where
  "counted_buckets hash c bs i = filter (\<lambda>b. of_nat i \<in> set (counted_servers hash c b)) bs"

lemma map_bucket_correct:
  assumes "mapping_ready c" "cap_left c k cap" "k < N_BUCKET" "length (n_bucket_per_server c) = length (cache_servers c)"
  shows "\<exists>v cap'. map_bucket hash b (Some cap) c = Inr (Some cap', c\<lparr>
      ch_mapping := (ch_mapping c)(of_nat b \<mapsto> take (ec_n (ec_params c) + MAX_N_UNAVAIL) (live_servers hash c b)),
      ori_lead_mapping := (ori_lead_mapping c)(of_nat b \<mapsto> bucket_lead hash c b), n_bucket_per_server := v\<rparr>) \<and>
    length v = length (cache_servers c) \<and> cap_left c (Suc k) cap' \<and>
    (\<forall>i < length v. v ! i = n_bucket_per_server c ! i + (if of_nat i \<in> set (counted_servers hash c b) then 1 else 0))"
proof -
  note r = mapping_readyD [OF assms(1)] and l = live_servers_props [OF assms(1), where hash = hash and b = b]
  let ?ss = "take (ec_n (ec_params c) + MAX_N_UNAVAIL) (live_servers hash c b)"
  have ok: "cap_ok (ring c) (Some cap)" using assms(2) r(3) by (simp add: cap_ok_def cap_left_def)
  have g: "ch_ring_get_servers hash (of_nat b) (ring c) (ec_n (ec_params c) + MAX_N_UNAVAIL) (Some cap) =
      Inr (?ss, bucket_lead hash c b, use_capacity (Some cap) ?ss)"
    using get_servers_walk [OF r(1) ok r(2)] cap_left_servers [OF assms(1-3)] l(3) by (simp add: Let_def bucket_lead_def)
  have e: "take (if parity_rebalance (cluster_params c) then ec_n (ec_params c) - 1 else ec_n (ec_params c)) ?ss = counted_servers hash c b"
    by (simp add: counted_servers_def min_def)
  have n: "length (n_bucket_per_server c) < 2 ^ 32" using assms(4) r(3) unat_u32_less [of "n_server (ring c)"] by simp
  have "\<forall>s \<in> set (counted_servers hash c b). unat s < length (n_bucket_per_server c)" "distinct (counted_servers hash c b)"
    using l(1,2) assms(4) by (auto simp: counted_servers_def dest: in_set_takeD)
  then obtain v where v: "count_buckets (counted_servers hash c b) (n_bucket_per_server c) = Inr v" "length v = length (cache_servers c)"
    "\<forall>i < length v. v ! i = n_bucket_per_server c ! i + (if of_nat i \<in> set (counted_servers hash c b) then 1 else 0)"
    using count_buckets_ok [OF _ _ n] assms(4) by metis
  have "map_bucket hash b (Some cap) c = Inr (use_capacity (Some cap) ?ss, c\<lparr>
      ch_mapping := (ch_mapping c)(of_nat b \<mapsto> ?ss),
      ori_lead_mapping := (ori_lead_mapping c)(of_nat b \<mapsto> bucket_lead hash c b), n_bucket_per_server := v\<rparr>)"
    unfolding map_bucket_def g rbind_simps prod.case e v(1) ..
  moreover obtain cap' where "use_capacity (Some cap) ?ss = Some cap'" "cap_left c (Suc k) cap'"
    using cap_left_use [OF assms(1-3)] by (simp add: use_capacity_def)
  ultimately show ?thesis using v(2,3) by auto
qed

text \<open>The buckets of a list, mapped one after the other.\<close>

lemma map_buckets_correct:
  assumes "mapping_ready c" "cap_left c k cap" "k + length bs \<le> N_BUCKET" "distinct bs" "\<forall>b \<in> set bs. b < N_BUCKET"
    "length (n_bucket_per_server c) = length (cache_servers c)"
  shows "\<exists>c'. map_buckets hash bs (Some cap) c = Inr c' \<and> remapped c c' \<and>
    length (n_bucket_per_server c') = length (cache_servers c) \<and>
    (\<forall>i < length (cache_servers c). n_bucket_per_server c' ! i = n_bucket_per_server c ! i + of_nat (length (counted_buckets hash c bs i))) \<and>
    (\<forall>b < N_BUCKET. ch_mapping c' (of_nat b) = (if b \<in> set bs
       then Some (take (ec_n (ec_params c) + MAX_N_UNAVAIL) (live_servers hash c b)) else ch_mapping c (of_nat b))) \<and>
    (\<forall>b < N_BUCKET. ori_lead_mapping c' (of_nat b) =
       (if b \<in> set bs then Some (bucket_lead hash c b) else ori_lead_mapping c (of_nat b)))"
  using assms
proof (induction bs arbitrary: c k cap)
  case Nil
  then show ?case by (simp add: remapped_def counted_buckets_def)
next
  case (Cons b bs)
  have k: "k < N_BUCKET" using Cons.prems(3) by simp
  obtain v cap' where v: "length v = length (cache_servers c)" "cap_left c (Suc k) cap'"
    "\<forall>i < length v. v ! i = n_bucket_per_server c ! i + (if of_nat i \<in> set (counted_servers hash c b) then 1 else 0)"
    and mb: "map_bucket hash b (Some cap) c = Inr (Some cap',
      c\<lparr>ch_mapping := (ch_mapping c)(of_nat b \<mapsto> take (ec_n (ec_params c) + MAX_N_UNAVAIL) (live_servers hash c b)),
      ori_lead_mapping := (ori_lead_mapping c)(of_nat b \<mapsto> bucket_lead hash c b), n_bucket_per_server := v\<rparr>)"
    using map_bucket_correct [OF Cons.prems(1,2) k Cons.prems(6)] by blast
  define c1 where "c1 = c\<lparr>ch_mapping := (ch_mapping c)(of_nat b \<mapsto> take (ec_n (ec_params c) + MAX_N_UNAVAIL) (live_servers hash c b)),
      ori_lead_mapping := (ori_lead_mapping c)(of_nat b \<mapsto> bucket_lead hash c b), n_bucket_per_server := v\<rparr>"
  note m = mb [folded c1_def] c1_def v
  have re: "remapped c c1" by (simp add: remapped_def m(2))
  have nb: "n_bucket_per_server c1 = v" by (simp add: m(2))
  have cb: "counted_buckets hash c1 bs i = counted_buckets hash c bs i" for i
    by (simp add: counted_buckets_def counted_servers_def remappedD [OF re])
  have ne: "(of_nat b' :: u32) = of_nat b \<longleftrightarrow> b' = b" if "b' < N_BUCKET" for b'
    using that Cons.prems(5) by (auto simp: word_unat_eq_iff unat_of_nat N_BUCKET_def)
  obtain c' where c': "map_buckets hash bs (Some cap') c1 = Inr c'" "remapped c1 c'"
    "length (n_bucket_per_server c') = length (cache_servers c)"
    "\<forall>i < length (cache_servers c). n_bucket_per_server c' ! i = v ! i + of_nat (length (counted_buckets hash c bs i))"
    "\<forall>b < N_BUCKET. ch_mapping c' (of_nat b) = (if b \<in> set bs
       then Some (take (ec_n (ec_params c) + MAX_N_UNAVAIL) (live_servers hash c b)) else ch_mapping c1 (of_nat b))"
    "\<forall>b < N_BUCKET. ori_lead_mapping c' (of_nat b) =
       (if b \<in> set bs then Some (bucket_lead hash c b) else ori_lead_mapping c1 (of_nat b))"
    using Cons.IH [of c1 "Suc k" cap'] Cons.prems m(3,4) nb unfolding remappedD [OF re] cb by auto
  have "ch_mapping c1 (of_nat b') = (if b' = b then Some (take (ec_n (ec_params c) + MAX_N_UNAVAIL) (live_servers hash c b))
      else ch_mapping c (of_nat b'))" "ori_lead_mapping c1 (of_nat b') = (if b' = b then Some (bucket_lead hash c b)
      else ori_lead_mapping c (of_nat b'))" if "b' < N_BUCKET" for b'
    using ne [OF that] by (simp_all add: m(2))
  moreover have "n_bucket_per_server c' ! i = n_bucket_per_server c ! i + of_nat (length (counted_buckets hash c (b # bs) i))"
    if "i < length (cache_servers c)" for i
    using c'(4) m(3,5) that by (simp add: counted_buckets_def)
  ultimately show ?case using c'(1,3,5,6) m(1) Cons.prems(4) remapped_trans [OF re c'(2)] by (intro exI [of _ c']) auto
qed

text \<open>All buckets: the common part of both ways to populate the mapping.\<close>

lemma map_all_buckets:
  fixes c :: cacheCluster
  defines "c0 \<equiv> c\<lparr>n_bucket_per_server := replicate (length (cache_servers c)) 0\<rparr>"
  assumes "mapping_ready c"
  shows "\<exists>c'. map_buckets hash [0 ..< N_BUCKET] (Some (data_capacity c)) c0 = Inr c' \<and> remapped c c' \<and>
    length (n_bucket_per_server c') = length (cache_servers c) \<and>
    (\<forall>i < length (cache_servers c). n_bucket_per_server c' ! i = of_nat (length (counted_buckets hash c [0 ..< N_BUCKET] i))) \<and>
    (\<forall>b < N_BUCKET. ch_mapping c' (of_nat b) = Some (take (ec_n (ec_params c) + MAX_N_UNAVAIL) (live_servers hash c b))) \<and>
    (\<forall>b < N_BUCKET. ori_lead_mapping c' (of_nat b) = Some (bucket_lead hash c b))"
proof -
  note r = mapping_readyD [OF assms(2)]
  have re: "remapped c c0" by (simp add: remapped_def c0_def)
  have "unat (of_nat (N_BUCKET * ec_n (ec_params c)) :: u32) = N_BUCKET * ec_n (ec_params c)"
    using r(5) by (simp add: unat_of_nat N_BUCKET_def MAX_EC_N_def del: of_nat_mult)
  then have cap: "cap_left c0 0 (data_capacity c)" by (simp add: cap_left_def data_capacity_def c0_def)
  have nb: "n_bucket_per_server c0 = replicate (length (cache_servers c)) 0" by (simp add: c0_def)
  have cb: "counted_buckets hash c0 bs i = counted_buckets hash c bs i" for bs i
    by (simp add: counted_buckets_def counted_servers_def remappedD [OF re])
  show ?thesis using map_buckets_correct [OF _ cap, of "[0 ..< N_BUCKET]" hash] assms(2)
    unfolding remappedD [OF re] nb cb by (auto dest: remapped_trans [OF re])
qed

lemma populate_no_rebalance:
  assumes "mapping_ready c" "\<not> parity_rebalance (cluster_params c)"
  obtains c' where "populate_hash_mapping hash max_flow c = Inr c'" "remapped c c'"
    "\<forall>b < N_BUCKET. ch_mapping c' (of_nat b) = Some (take (ec_n (ec_params c) + MAX_N_UNAVAIL) (live_servers hash c b))"
    "\<forall>b < N_BUCKET. ori_lead_mapping c' (of_nat b) = Some (bucket_lead hash c b)"
proof -
  obtain c' where c': "map_buckets hash [0 ..< N_BUCKET] (Some (data_capacity c))
      (c\<lparr>n_bucket_per_server := replicate (length (cache_servers c)) 0\<rparr>) = Inr c'" "remapped c c'"
    "\<forall>b < N_BUCKET. ch_mapping c' (of_nat b) = Some (take (ec_n (ec_params c) + MAX_N_UNAVAIL) (live_servers hash c b))"
    "\<forall>b < N_BUCKET. ori_lead_mapping c' (of_nat b) = Some (bucket_lead hash c b)"
    using map_all_buckets [OF assms(1)] by blast
  have "populate_hash_mapping hash max_flow c = Inr c'"
    using c'(1) remappedD(4) [OF c'(2)] assms(2) by (simp add: populate_hash_mapping_def)
  then show thesis using that c'(2-4) by blast
qed

text \<open>
  (C6) \<^verbatim>\<open>populate_hash_mapping\<close> without parity rebalancing. The capacities never run out: every bucket
  is mapped to the first \<open>n + 2\<close> available servers in ring order from its node, which are distinct,
  and its original lead server is the server of its node, available or not. Nothing else of the
  cluster changes but the counts of buckets.
\<close>

theorem populate_hash_mapping_correct:
  assumes "mapping_ready c" "\<not> parity_rebalance (cluster_params c)"
  shows "\<exists>c'. populate_hash_mapping hash max_flow c = Inr c' \<and> remapped c c' \<and>
    (\<forall>b < N_BUCKET. \<exists>ss. ch_mapping c' (of_nat b) = Some ss \<and> ss = take (ec_n (ec_params c) + MAX_N_UNAVAIL) (live_servers hash c b) \<and>
       length ss = ec_n (ec_params c) + MAX_N_UNAVAIL \<and> distinct ss \<and>
       (\<forall>s \<in> set ss. unat s < length (cache_servers c) \<and> available (cache_servers c ! unat s)) \<and>
       ori_lead_mapping c' (of_nat b) = Some (bucket_lead hash c b))"
proof -
  note l = live_servers_props [OF assms(1), where hash = hash]
  obtain c' where "populate_hash_mapping hash max_flow c = Inr c'" "remapped c c'"
    "\<forall>b < N_BUCKET. ch_mapping c' (of_nat b) = Some (take (ec_n (ec_params c) + MAX_N_UNAVAIL) (live_servers hash c b))"
    "\<forall>b < N_BUCKET. ori_lead_mapping c' (of_nat b) = Some (bucket_lead hash c b)"
    using populate_no_rebalance [OF assms] by blast
  then show ?thesis using l(1) l(2) l(3) by (auto simp: distinct_take dest!: in_set_takeD)
qed

lemma sample_mapping_ready: "mapping_ready (sample_cluster hash m)"
proof -
  have "i = 0 \<or> i = 1 \<or> i = 2 \<or> i = 3" if "i < 4" for i :: nat using that by linarith
  then have "\<forall>i < 4. (of_nat i :: u32) \<in> {0, 1, 2, 3}" by fastforce
  then show ?thesis
    using four_ring_ok by (simp add: mapping_ready_def sample_cluster_def sample_server_def MAX_EC_N_def MAX_N_UNAVAIL_def)
      (simp add: four_ring_def)
qed

lemma sample_live: "live_servers (\<lambda>x. x) (sample_cluster hash m) 15 = [1, 2, 3, 0]"
proof -
  have "nub (ring_walk four_ring (successor (vnodes four_ring) 15)) = [1, 2, 3, 0]" by code_simp
  then show ?thesis by (simp add: live_servers_def sample_cluster_def sample_server_def)
qed

theorem populate_hash_mapping_correct_witness:
  "\<exists>c'. populate_hash_mapping (\<lambda>x. x) (\<lambda>_. []) (sample_cluster (\<lambda>x. x) C2DN) = Inr c' \<and> ch_mapping c' 15 = Some [1, 2, 3, 0]"
proof -
  have p: "\<not> parity_rebalance (cluster_params (sample_cluster (\<lambda>x. x) C2DN))" "ec_n (ec_params (sample_cluster (\<lambda>x. x) C2DN)) = 2"
    by (simp_all add: sample_cluster_def)
  obtain c' where "populate_hash_mapping (\<lambda>x. x) (\<lambda>_. []) (sample_cluster (\<lambda>x. x) C2DN) = Inr c'"
    "\<forall>b < N_BUCKET. ch_mapping c' (of_nat b) = Some (take 4 (live_servers (\<lambda>x. x) (sample_cluster (\<lambda>x. x) C2DN) b))"
    using populate_hash_mapping_correct [OF sample_mapping_ready p(1), of "\<lambda>x. x" "\<lambda>_. []"] by (auto simp: p(2) MAX_N_UNAVAIL_def)
  then show ?thesis using sample_live by (auto simp: N_BUCKET_def dest!: spec [of _ 15])
qed

end
