(* ===== verification/ParityMapping.thy ===== *)
theory ParityMapping
  imports ClusterMapping
begin

text \<open>
  What \<^verbatim>\<open>find_parity_mapping\<close> makes of a flow: the parity server of every bucket. The solver is a
  parameter; of its result the proofs use that it is an integral flow within the capacities.
\<close>

section \<open>Flows\<close>

type_synonym arc = "nat \<times> nat \<times> int"

definition flow_in :: "arc list \<Rightarrow> int list \<Rightarrow> nat \<Rightarrow> int" where
  "flow_in arcs fs v = sum_list (map snd (filter (\<lambda>((t, h, _), _). h = v) (zip arcs fs)))"

definition flow_out :: "arc list \<Rightarrow> int list \<Rightarrow> nat \<Rightarrow> int" where
  "flow_out arcs fs v = sum_list (map snd (filter (\<lambda>((t, h, _), _). t = v) (zip arcs fs)))"

definition is_flow :: "arc list \<Rightarrow> int list \<Rightarrow> bool" where
  "is_flow arcs fs \<longleftrightarrow> list_all2 (\<lambda>(_, _, cap) f. 0 \<le> f \<and> f \<le> cap) arcs fs \<and>
     (\<forall>v. v \<noteq> 0 \<longrightarrow> v \<noteq> 1 \<longrightarrow> flow_in arcs fs v = flow_out arcs fs v)"

text \<open>The capacity of the arcs that satisfy a condition bounds the flow on them, and the flow bounds
  the number of those that carry any.\<close>

lemma flow_le_capacity:
  "list_all2 (\<lambda>(_, _, cap) f. 0 \<le> f \<and> f \<le> cap) arcs fs \<Longrightarrow>
   sum_list (map snd (filter (P \<circ> fst) (zip arcs fs))) \<le> sum_list (map (snd \<circ> snd) (filter P (arcs :: arc list)))"
  by (induction rule: list_all2_induct) auto

lemma used_le_flow:
  "list_all2 (\<lambda>(_, _, cap) f. 0 \<le> f \<and> f \<le> cap) arcs fs \<Longrightarrow>
   int (length (filter (\<lambda>(a, f). P a \<and> 0 < f) (zip (arcs :: arc list) fs))) \<le> sum_list (map snd (filter (P \<circ> fst) (zip arcs fs)))"
  by (induction rule: list_all2_induct) auto

text \<open>The arcs from a server to a bucket that carry flow.\<close>

definition used_arcs :: "arc list \<Rightarrow> int list \<Rightarrow> (nat \<times> nat) list" where
  "used_arcs arcs fs = map (\<lambda>((t, h, _), _). (t, h)) (filter (\<lambda>((t, h, _), f). t \<noteq> 0 \<and> h \<noteq> 1 \<and> 0 < f) (zip arcs fs))"

lemma used_into:
  assumes "is_flow arcs fs" "v \<noteq> 0" "v \<noteq> 1"
  shows "int (length (filter (\<lambda>(t, h). h = v) (used_arcs arcs fs))) \<le> sum_list (map (snd \<circ> snd) (filter (\<lambda>(t, h, _). t = v) arcs))"
proof -
  have la: "list_all2 (\<lambda>(_, _, cap) f. 0 \<le> f \<and> f \<le> cap) arcs fs" using assms(1) by (simp add: is_flow_def)
  have "length (filter (\<lambda>(t, h). h = v) (used_arcs arcs fs)) \<le> length (filter (\<lambda>(a, f). (\<lambda>(t, h, _). h = v) a \<and> 0 < f) (zip arcs fs))"
    unfolding used_arcs_def by (simp add: filter_map o_def) (rule length_filter_imp, auto)
  also have "int \<dots> \<le> flow_in arcs fs v"
    using used_le_flow [OF la, of "\<lambda>(t, h, _). h = v"] by (simp add: flow_in_def o_def case_prod_unfold)
  also have "\<dots> = flow_out arcs fs v" using assms by (simp add: is_flow_def)
  also have "\<dots> \<le> sum_list (map (snd \<circ> snd) (filter (\<lambda>(t, h, _). t = v) arcs))"
    using flow_le_capacity [OF la, of "\<lambda>(t, h, _). t = v"] by (simp add: flow_out_def o_def case_prod_unfold)
  finally show ?thesis by simp
qed

lemma used_from:
  assumes "is_flow arcs fs" "v \<noteq> 0" "v \<noteq> 1"
  shows "int (length (filter (\<lambda>(t, h). t = v) (used_arcs arcs fs))) \<le> sum_list (map (snd \<circ> snd) (filter (\<lambda>(t, h, _). h = v) arcs))"
proof -
  have la: "list_all2 (\<lambda>(_, _, cap) f. 0 \<le> f \<and> f \<le> cap) arcs fs" using assms(1) by (simp add: is_flow_def)
  have "length (filter (\<lambda>(t, h). t = v) (used_arcs arcs fs)) \<le> length (filter (\<lambda>(a, f). (\<lambda>(t, h, _). t = v) a \<and> 0 < f) (zip arcs fs))"
    unfolding used_arcs_def by (simp add: filter_map o_def) (rule length_filter_imp, auto)
  also have "int \<dots> \<le> flow_out arcs fs v"
    using used_le_flow [OF la, of "\<lambda>(t, h, _). t = v"] by (simp add: flow_out_def o_def case_prod_unfold)
  also have "\<dots> = flow_in arcs fs v" using assms by (simp add: is_flow_def)
  also have "\<dots> \<le> sum_list (map (snd \<circ> snd) (filter (\<lambda>(t, h, _). h = v) arcs))"
    using flow_le_capacity [OF la, of "\<lambda>(t, h, _). h = v"] by (simp add: flow_in_def o_def case_prod_unfold)
  finally show ?thesis by simp
qed

lemma used_arcs_subset: "(t, h) \<in> set (used_arcs arcs fs) \<Longrightarrow> t \<noteq> 0 \<and> h \<noteq> 1 \<and> (\<exists>cap. (t, h, cap) \<in> set arcs)"
  unfolding used_arcs_def by (auto dest: set_zip_leftD)

section \<open>The arcs of the parity network\<close>

lemma filter_concat_one:
  "i < n \<Longrightarrow> (\<And>j. j < n \<Longrightarrow> filter P (g j) = (if j = i then [x] else [])) \<Longrightarrow> filter P (concat (map g [0 ..< n])) = [x]"
proof (induction n)
  case (Suc n)
  have "filter P (concat (map g [0 ..< n])) = []" if "i = n"
  proof -
    have "filter P (g j) = []" if "j < n" for j using Suc.prems(2) [of j] that \<open>i = n\<close> by simp
    then show ?thesis unfolding filter_empty_conv by force
  qed
  then show ?case using Suc by (cases "i = n") auto
qed simp

text \<open>The source arc of a server.\<close>

definition parity_room :: "cacheCluster \<Rightarrow> nat \<Rightarrow> int" where
  "parity_room c i = max 0 (if buckets_on_server c i = [] then 0 else server_cap c - int (length (buckets_on_server c i)))"

lemma server_arcs_eq:
  "server_arcs c i = (0, 2 + i, parity_room c i) #
    map (\<lambda>b. (2 + i, 2 + length (n_bucket_per_server c) + b, 1)) (filter (\<lambda>b. b \<notin> set (buckets_on_server c i)) [0 ..< N_BUCKET])"
  by (simp add: server_arcs_def parity_room_def Let_def)

lemma arcs_into_server:
  "i < length (n_bucket_per_server c) \<Longrightarrow> filter (\<lambda>(t, h, _). h = 2 + i) (parity_arcs c) = [(0, 2 + i, parity_room c i)]"
  unfolding parity_arcs_def Let_def filter_append
  by (subst filter_concat_one [of i]) (auto simp: server_arcs_eq filter_empty_conv)

lemma filter_upt_one: "b < n \<Longrightarrow> filter (\<lambda>i. i = b) [0 ..< n] = [b]"
  by (induction n) (auto simp: less_Suc_eq)

lemma arcs_from_bucket:
  assumes "b < N_BUCKET"
  shows "filter (\<lambda>(t, h, _). t = 2 + length (n_bucket_per_server c) + b) (parity_arcs c) = [(2 + length (n_bucket_per_server c) + b, 1, 1)]"
proof -
  let ?n = "length (n_bucket_per_server c)"
  have "filter (\<lambda>(t, h, _). t = 2 + ?n + b) (concat (map (server_arcs c) [0 ..< ?n])) = []"
    by (auto simp: filter_empty_conv server_arcs_eq)
  moreover have "filter (\<lambda>(t, h, _). t = 2 + ?n + b) (map (\<lambda>i. (2 + ?n + i, 1 :: nat, 1)) [0 ..< N_BUCKET]) = [(2 + ?n + b, 1, 1 :: int)]"
    using filter_upt_one [OF assms] by (simp add: filter_map o_def)
  ultimately show ?thesis by (simp add: parity_arcs_def Let_def)
qed

lemma middle_arcs:
  assumes "(t, h, cap) \<in> set (parity_arcs c)" "t \<noteq> 0" "h \<noteq> 1"
  shows "\<exists>i b. t = 2 + i \<and> h = 2 + length (n_bucket_per_server c) + b \<and> i < length (n_bucket_per_server c) \<and> b < N_BUCKET \<and>
    b \<notin> set (buckets_on_server c i)"
  using assms by (auto simp: parity_arcs_def Let_def server_arcs_eq)

text \<open>A server the flow uses has data buckets and lacks the bucket; every bucket is used once; a
  server gets no more buckets than it has room for.\<close>

lemma used_parity_arcs:
  assumes "is_flow (parity_arcs c) fs"
  defines "ps \<equiv> used_arcs (parity_arcs c) fs" and "n \<equiv> length (n_bucket_per_server c)"
  shows "(t, h) \<in> set ps \<Longrightarrow> \<exists>i b. t = 2 + i \<and> h = 2 + n + b \<and> i < n \<and> b < N_BUCKET \<and>
      b \<notin> set (buckets_on_server c i) \<and> buckets_on_server c i \<noteq> []"
    "distinct (map snd ps)" "i < n \<Longrightarrow> int (length (filter (\<lambda>(t, h). t = 2 + i) ps)) \<le> parity_room c i"
proof -
  show room: "int (length (filter (\<lambda>(t, h). t = 2 + i) ps)) \<le> parity_room c i" if "i < n" for i
    using used_from [OF assms(1), of "2 + i"] arcs_into_server [of i c] that by (simp add: ps_def n_def)
  show *: "\<exists>i b. t = 2 + i \<and> h = 2 + n + b \<and> i < n \<and> b < N_BUCKET \<and> b \<notin> set (buckets_on_server c i) \<and> buckets_on_server c i \<noteq> []"
    if th: "(t, h) \<in> set ps" for t h
  proof -
    obtain i b where ib: "t = 2 + i" "h = 2 + n + b" "i < n" "b < N_BUCKET" "b \<notin> set (buckets_on_server c i)"
      using used_arcs_subset [OF th [unfolded ps_def]] middle_arcs [of t h _ c] unfolding n_def by metis
    have "filter (\<lambda>(t, h). t = 2 + i) ps \<noteq> []" using th ib(1) by (auto simp: filter_empty_conv)
    then have "0 < parity_room c i" using room [OF ib(3)] by (cases "filter (\<lambda>(t, h). t = 2 + i) ps") auto
    then have "buckets_on_server c i \<noteq> []" by (auto simp: parity_room_def)
    then show ?thesis using ib by blast
  qed
  have "length (filter (\<lambda>(t, h). h = v) ps) \<le> 1" for v
  proof (cases "\<exists>t. (t, v) \<in> set ps")
    case True
    then obtain b where "v = 2 + n + b" "b < N_BUCKET" using * by blast
    then show ?thesis using used_into [OF assms(1), of v] arcs_from_bucket [of b c] by (simp add: ps_def n_def)
  next
    case False
    then have "filter (\<lambda>(t, h). h = v) ps = []" by (auto simp: filter_empty_conv)
    then show ?thesis by simp
  qed
  then have "count_list (map snd ps) v \<le> 1" for v
    by (simp add: count_list_eq_length_filter filter_map o_def case_prod_unfold eq_commute)
  then show "distinct (map snd ps)" by (metis distinct_count_atmost_1 count_mset le_antisym less_one not_less count_list_0_iff)
qed

section \<open>The new servers of a bucket\<close>

lemma shift_in_eq:
  assumes "length xs = n + MAX_N_UNAVAIL" "1 \<le> n"
  shows "shift_in n s xs = take (n - 1) xs @ [s, xs ! (n - 1), xs ! n]"
proof -
  have "rev [n ..< n + MAX_N_UNAVAIL] = [Suc n, n]" by (simp add: MAX_N_UNAVAIL_def)
  moreover have "(xs[Suc n := xs ! n, n := xs ! (n - 1), n - 1 := s]) ! i = (take (n - 1) xs @ [s, xs ! (n - 1), xs ! n]) ! i"
    if "i < n + 2" for i
    using that assms by (auto simp: nth_append nth_list_update MAX_N_UNAVAIL_def less_Suc_eq nth_Cons' numeral_eq_Suc)
  ultimately show ?thesis
    using assms by (intro nth_equalityI) (auto simp: shift_in_def MAX_N_UNAVAIL_def nth_list_update)
qed

text \<open>Every bucket with a flow gets its new server; the counts of the servers go up.\<close>

definition parity_of :: "(nat \<times> nat) list \<Rightarrow> nat \<Rightarrow> nat \<Rightarrow> nat option" where
  "parity_of ps n b = map_option (\<lambda>t. t - 2) (map_of (map (\<lambda>(t, h). (h, t)) ps) (2 + n + b))"

lemma add_parities_correct:
  fixes c :: cacheCluster
  defines "n \<equiv> length (n_bucket_per_server c)"
  assumes "\<forall>(t, h) \<in> set ps. \<exists>i b. t = 2 + i \<and> h = 2 + n + b \<and> i < n \<and> b < N_BUCKET" "distinct (map snd ps)"
    and "\<forall>b < N_BUCKET. ch_mapping c (of_nat b) = Some (xs b)"
  shows "\<exists>c'. add_parities ps c = Inr c' \<and> remapped c c' \<and> ori_lead_mapping c' = ori_lead_mapping c \<and>
    length (n_bucket_per_server c') = n \<and>
    (\<forall>b < N_BUCKET. ch_mapping c' (of_nat b) = Some (case parity_of ps n b of None \<Rightarrow> xs b
       | Some s \<Rightarrow> shift_in (ec_n (ec_params c)) (of_nat s) (xs b))) \<and>
    (\<forall>i < n. n_bucket_per_server c' ! i = n_bucket_per_server c ! i + of_nat (length (filter (\<lambda>(t, h). t = 2 + i) ps)))"
  using assms(2-4) unfolding n_def
proof (induction ps arbitrary: c xs)
  case Nil
  then show ?case by (simp add: remapped_def parity_of_def)
next
  case (Cons a ps)
  let ?n = "length (n_bucket_per_server c)"
  obtain i b where a: "a = (2 + i, 2 + ?n + b)" "i < ?n" "b < N_BUCKET" using Cons.prems(1) by (cases a) auto
  define c1 where "c1 = c\<lparr>ch_mapping := (ch_mapping c)(of_nat b \<mapsto> shift_in (ec_n (ec_params c)) (of_nat i) (xs b)),
    n_bucket_per_server := (n_bucket_per_server c)[i := n_bucket_per_server c ! i + 1]\<rparr>"
  have ap: "add_parity a c = Inr c1"
    using a Cons.prems(3) by (simp add: add_parity_def c1_def)
  have re: "remapped c c1" by (simp add: remapped_def c1_def)
  have ne: "(of_nat b' :: u32) = of_nat b \<longleftrightarrow> b' = b" if "b' < N_BUCKET" for b'
    using that a(3) by (auto simp: word_unat_eq_iff unat_of_nat N_BUCKET_def)
  define ys where "ys = xs(b := shift_in (ec_n (ec_params c)) (of_nat i) (xs b))"
  have n1: "length (n_bucket_per_server c1) = ?n" "ori_lead_mapping c1 = ori_lead_mapping c" by (simp_all add: c1_def)
  have ys: "\<forall>b' < N_BUCKET. ch_mapping c1 (of_nat b') = Some (ys b')"
    using Cons.prems(3) ne by (auto simp: c1_def ys_def)
  obtain c' where c': "add_parities ps c1 = Inr c'" "remapped c1 c'" "ori_lead_mapping c' = ori_lead_mapping c"
    "length (n_bucket_per_server c') = ?n"
    "\<forall>b < N_BUCKET. ch_mapping c' (of_nat b) = Some (case parity_of ps ?n b of None \<Rightarrow> ys b
       | Some s \<Rightarrow> shift_in (ec_n (ec_params c)) (of_nat s) (ys b))"
    "\<forall>i < ?n. n_bucket_per_server c' ! i = n_bucket_per_server c1 ! i + of_nat (length (filter (\<lambda>(t, h). t = 2 + i) ps))"
    using Cons.IH [of c1 ys] Cons.prems ys unfolding n1 remappedD [OF re] by auto
  have none: "parity_of ps ?n b = None"
  proof -
    have "2 + ?n + b \<notin> snd ` set ps" using Cons.prems(2) a(1) by simp
    then have "map_of (map (\<lambda>(t, h). (h, t)) ps) (2 + ?n + b) = None" by (force simp: map_of_eq_None_iff)
    then show ?thesis by (simp add: parity_of_def)
  qed
  have "parity_of (a # ps) ?n b' = (if b' = b then Some i else parity_of ps ?n b')" for b' by (simp add: parity_of_def a(1))
  then have "\<forall>b' < N_BUCKET. ch_mapping c' (of_nat b') = Some (case parity_of (a # ps) ?n b' of None \<Rightarrow> xs b'
       | Some s \<Rightarrow> shift_in (ec_n (ec_params c)) (of_nat s) (xs b'))"
    using c'(5) none by (auto simp: ys_def split: option.splits)
  moreover have "n_bucket_per_server c' ! j = n_bucket_per_server c ! j + of_nat (length (filter (\<lambda>(t, h). t = 2 + j) (a # ps)))"
    if "j < ?n" for j using c'(6) that by (auto simp: c1_def a(1) nth_list_update)
  ultimately show ?case using ap c'(1,3,4) remapped_trans [OF re c'(2)] by simp
qed

text \<open>What the code relies on in the solver: on non-negative capacities it returns an integral flow.\<close>

definition flow_solver :: "(arc list \<Rightarrow> int list) \<Rightarrow> bool" where
  "flow_solver max_flow \<longleftrightarrow> (\<forall>arcs. (\<forall>(t, h, cap) \<in> set arcs. 0 \<le> cap) \<longrightarrow> is_flow arcs (max_flow arcs))"

lemma parity_arcs_nonneg: "\<forall>(t, h, cap) \<in> set (parity_arcs c). 0 \<le> cap"
  by (auto simp: parity_arcs_def Let_def server_arcs_eq parity_room_def)

lemma find_parity_mapping_runs:
  assumes "flow_solver max_flow" "n_avail_server (cluster_stat c) \<noteq> 0"
    "\<forall>i < length (n_bucket_per_server c). available (cache_servers c ! i) \<longrightarrow> buckets_on_server c i \<noteq> []"
    "\<forall>b < N_BUCKET. ch_mapping c (of_nat b) = Some (xs b)"
  shows "\<exists>ps c'. find_parity_mapping max_flow c = Inr c' \<and> remapped c c' \<and> ori_lead_mapping c' = ori_lead_mapping c \<and>
    length (n_bucket_per_server c') = length (n_bucket_per_server c) \<and>
    (\<forall>b < N_BUCKET. ch_mapping c' (of_nat b) = Some (case parity_of ps (length (n_bucket_per_server c)) b of None \<Rightarrow> xs b
       | Some s \<Rightarrow> shift_in (ec_n (ec_params c)) (of_nat s) (xs b))) \<and>
    (\<forall>b s. parity_of ps (length (n_bucket_per_server c)) b = Some s \<longrightarrow> s < length (n_bucket_per_server c) \<and>
       b \<notin> set (buckets_on_server c s) \<and> buckets_on_server c s \<noteq> []) \<and>
    (\<forall>i < length (n_bucket_per_server c). \<exists>k. n_bucket_per_server c' ! i = n_bucket_per_server c ! i + of_nat k \<and> int k \<le> parity_room c i)"
proof -
  let ?n = "length (n_bucket_per_server c)" and ?ps = "used_arcs (parity_arcs c) (max_flow (parity_arcs c))"
  have f: "is_flow (parity_arcs c) (max_flow (parity_arcs c))" using assms(1) parity_arcs_nonneg by (simp add: flow_solver_def)
  note u = used_parity_arcs [OF f]
  have run: "find_parity_mapping max_flow c = add_parities ?ps c"
    using assms(2,3) by (auto simp: find_parity_mapping_def used_arcs_def Let_def)
  have "\<forall>(t, h) \<in> set ?ps. \<exists>i b. t = 2 + i \<and> h = 2 + ?n + b \<and> i < ?n \<and> b < N_BUCKET" using u(1) by blast
  then obtain c' where c': "add_parities ?ps c = Inr c'" "remapped c c'" "ori_lead_mapping c' = ori_lead_mapping c"
    "length (n_bucket_per_server c') = ?n"
    "\<forall>b < N_BUCKET. ch_mapping c' (of_nat b) = Some (case parity_of ?ps ?n b of None \<Rightarrow> xs b
       | Some s \<Rightarrow> shift_in (ec_n (ec_params c)) (of_nat s) (xs b))"
    "\<forall>i < ?n. n_bucket_per_server c' ! i = n_bucket_per_server c ! i + of_nat (length (filter (\<lambda>(t, h). t = 2 + i) ?ps))"
    using add_parities_correct [OF _ u(2) assms(4)] by blast
  have p: "s < ?n \<and> b \<notin> set (buckets_on_server c s) \<and> buckets_on_server c s \<noteq> []" if "parity_of ?ps ?n b = Some s" for b s
  proof -
    have "\<exists>t. (t, 2 + ?n + b) \<in> set ?ps \<and> s = t - 2" using that by (auto simp: parity_of_def dest!: map_of_SomeD)
    then show ?thesis using u(1) by fastforce
  qed
  show ?thesis using run c' p u(3) by (intro exI [of _ ?ps] exI [of _ c']) auto
qed

text \<open>The number of buckets a server should have at most.\<close>

definition fair_share :: "cacheCluster \<Rightarrow> nat" where
  "fair_share c = nat \<lceil>of_nat (N_BUCKET * ec_n (ec_params c)) / of_nat (unat (n_avail_server (cluster_stat c))) :: rat\<rceil>"

lemma server_cap_eq:
  assumes "ec_n (ec_params c) \<le> MAX_EC_N" "n_avail_server (cluster_stat c) \<noteq> 0" "unat (n_avail_server (cluster_stat c)) < 2 ^ 53"
  shows "server_cap c = int (fair_share c)"
proof -
  let ?m = "N_BUCKET * ec_n (ec_params c)" and ?k = "unat (n_avail_server (cluster_stat c))"
  have m: "?m < 2 ^ 53" using assms(1) by (simp add: N_BUCKET_def MAX_EC_N_def)
  have k: "0 < ?k" using assms(2) by (metis unat_eq_zero neq0_conv)
  have "to_double (of_nat N_BUCKET * of_nat (ec_n (ec_params c))) = of_nat ?m" "to_double (of_nat ?k) = of_nat ?k"
    using rnd_int [OF m] rnd_int [OF assms(3)] by (simp_all only: of_nat_mult)
  then have "server_cap c = \<lceil>to_double (of_nat ?m / of_nat ?k)\<rceil>" by (simp only: server_cap_def)
  also have "\<dots> = \<lceil>of_nat ?m / of_nat ?k :: rat\<rceil>" using ceiling_to_double_div [OF k m] .
  also have "\<dots> = int (fair_share c)"
  proof -
    have "0 \<le> (of_nat ?m / of_nat ?k :: rat)" by (intro divide_nonneg_nonneg of_nat_0_le_iff)
    then have "0 \<le> \<lceil>of_nat ?m / of_nat ?k :: rat\<rceil>" by (metis ceiling_mono ceiling_zero)
    then show ?thesis unfolding fair_share_def by (rule nat_0_le [symmetric])
  qed
  finally show ?thesis .
qed

text \<open>One bucket, and the count of one server, after the parity chunks are placed.\<close>

lemma parity_bucket:
  fixes c :: cacheCluster and ps :: "(nat \<times> nat) list" and b :: nat
  defines "n \<equiv> ec_n (ec_params c)" and "N \<equiv> length (cache_servers c)"
  assumes "mapping_ready c" "parity_rebalance (cluster_params c)" "b < N_BUCKET"
    and "\<forall>b s. parity_of ps N b = Some s \<longrightarrow> s < N \<and> b \<notin> set (counted_buckets hash c [0 ..< N_BUCKET] s) \<and>
         counted_buckets hash c [0 ..< N_BUCKET] s \<noteq> []"
  defines "ss \<equiv> case parity_of ps N b of None \<Rightarrow> take (n + MAX_N_UNAVAIL) (live_servers hash c b)
         | Some s \<Rightarrow> shift_in n (of_nat s) (take (n + MAX_N_UNAVAIL) (live_servers hash c b))"
  shows "length ss = n + MAX_N_UNAVAIL \<and> take (n - 1) ss = take (n - 1) (live_servers hash c b) \<and> distinct (take n ss) \<and>
    (\<forall>s \<in> set ss. unat s < N \<and> available (cache_servers c ! unat s))"
proof -
  note r = mapping_readyD [OF assms(3), folded n_def N_def] and l = live_servers_props [OF assms(3), where hash = hash, folded n_def N_def]
  let ?xs = "take (n + MAX_N_UNAVAIL) (live_servers hash c b)"
  have xs: "length ?xs = n + MAX_N_UNAVAIL" using l(3) [of b] by simp
  show ?thesis
  proof (cases "parity_of ps N b")
    case None
    then show ?thesis using xs l(1) l(2) by (auto simp: ss_def min_def distinct_take dest: in_set_takeD)
  next
    case (Some s)
    have s: "s < N" "b \<notin> set (counted_buckets hash c [0 ..< N_BUCKET] s)" "counted_buckets hash c [0 ..< N_BUCKET] s \<noteq> []"
      using assms(6) Some by blast+
    have us: "unat (of_nat s :: u32) = s" using s(1) r(3) unat_u32_less [of "n_server (ring c)"] by (simp add: unat_of_nat)
    have new: "of_nat s \<notin> set (take (n - 1) (live_servers hash c b))"
      using s(2) assms(4,5) by (simp add: counted_buckets_def counted_servers_def n_def)
    obtain b' where "of_nat s \<in> set (counted_servers hash c b')" using s(3) by (auto simp: counted_buckets_def filter_empty_conv)
    then have live: "available (cache_servers c ! s)" using l(2) [of "of_nat s" b'] us by (auto simp: counted_servers_def dest: in_set_takeD)
    have eq: "ss = take (n - 1) ?xs @ [of_nat s, ?xs ! (n - 1), ?xs ! n]" using shift_in_eq [OF xs r(4)] Some by (simp add: ss_def)
    have nth: "?xs ! (n - 1) \<in> set (live_servers hash c b)" "?xs ! n \<in> set (live_servers hash c b)"
      using xs r(4) nth_mem [of "n - 1" ?xs] nth_mem [of n ?xs] by (auto simp: MAX_N_UNAVAIL_def dest: in_set_takeD)
    have tk: "take (n - 1) ?xs = take (n - 1) (live_servers hash c b)" by (simp add: min_def)
    have "length (take (n - 1) ?xs) = n - 1" using xs by simp
    then have "take n ss = take (n - 1) (live_servers hash c b) @ [of_nat s]" "take (n - 1) ss = take (n - 1) (live_servers hash c b)"
      "length ss = n + MAX_N_UNAVAIL" using r(4) unfolding eq tk by (auto simp: MAX_N_UNAVAIL_def take_Cons' min_def)
    moreover have "\<forall>t \<in> set ss. unat t < N \<and> available (cache_servers c ! unat t)"
      using nth l(2) s(1) live us unfolding eq tk by (auto dest: in_set_takeD)
    ultimately show ?thesis using new l(1) [of b] by (simp add: distinct_take)
  qed
qed

lemma parity_count:
  assumes "mapping_ready c" "n_avail_server (cluster_stat c) \<noteq> 0" "unat (n_avail_server (cluster_stat c)) < 2 ^ 53" "remapped c c1"
    and "\<And>i. buckets_on_server c1 i = bs i"
    and "v = of_nat (length (bs i)) + of_nat k" "int k \<le> parity_room c1 i"
  shows "unat (v :: u32) \<le> max (length (bs i)) (fair_share c)"
proof -
  have cap: "server_cap c1 = int (fair_share c)"
    using server_cap_eq [of c] mapping_readyD(5) [OF assms(1)] assms(2,3) by (simp add: server_cap_def remappedD [OF assms(4)])
  have "length (bs i) + k \<le> max (length (bs i)) (fair_share c)"
    using assms(7) by (auto simp: parity_room_def cap assms(5) split: if_splits)
  moreover have "unat v \<le> length (bs i) + k" unfolding assms(6) by (metis of_nat_add unat_of_nat mod_less_eq_dividend)
  ultimately show ?thesis by simp
qed


text \<open>The sample cluster with rebalancing, and a solver that finds the zero flow.\<close>

definition rebalanced_cluster :: "cacheCluster" where
  "rebalanced_cluster = (let c = sample_cluster (\<lambda>x. x) C2DN in c\<lparr>cluster_params := (cluster_params c)\<lparr>parity_rebalance := True\<rparr>\<rparr>)"

lemma zero_flow_solver: "flow_solver (map (\<lambda>_. 0))"
proof -
  have "sum_list (map snd (filter P (zip arcs (map (\<lambda>_. 0 :: int) (arcs :: arc list))))) = 0" for P arcs
    by (induction arcs arbitrary: P) auto
  moreover have "list_all2 (\<lambda>(_, _, cap) f. 0 \<le> f \<and> f \<le> cap) arcs (map (\<lambda>_. 0) arcs)"
    if "\<forall>(t, h, cap) \<in> set arcs. 0 \<le> cap" for arcs :: "arc list"
    using that by (induction arcs) auto
  ultimately show ?thesis by (simp add: flow_solver_def is_flow_def flow_in_def flow_out_def)
qed


end
