(* ===== verification/Reader.thy ===== *)
theory Reader
  imports Structs
begin

text \<open>
  The trace readers of \<^verbatim>\<open>libCacheSim/traceReader\<close>: \<^verbatim>\<open>reader.c\<close>, \<^verbatim>\<open>binary.c\<close>, \<^verbatim>\<open>vscsi.c\<close> and
  \<^verbatim>\<open>customizedReader/twrBin.h\<close>. The mapped file is its list of bytes; a read outside of it is
  \<open>Out_of_bounds\<close>. The binary reader writes through pointers into a request, so a request is also
  seen as the 72 bytes it occupies. \<^verbatim>\<open>csv.c\<close>, a client of the bundled \<^verbatim>\<open>libcsv\<close>, is an argument of the
  functions that dispatch on the trace type, and so is \<^verbatim>\<open>g_quark_from_string\<close> of GLib. Reports printed
  to the log are left out.
\<close>

section \<open>Data\<close>

datatype trace_type_e = CSV_TRACE | BIN_TRACE | PLAIN_TXT_TRACE | VSCSI_TRACE | TWR_TRACE | UNKNOWN_TRACE

datatype obj_id_type_e = OBJ_ID_NUM | OBJ_ID_STR | UNKNOWN_OBJ_ID

datatype vscsi_version_e = VSCSI1 | VSCSI2 | UNKNOWN

record reader_init_param_t =
  ip_real_time_field :: int
  ip_obj_id_field :: int
  ip_obj_size_field :: int
  ip_op_field :: int
  ip_ttl_field :: int
  ip_extra_field1 :: int
  ip_extra_field2 :: int
  binary_fmt :: string

text \<open>Position, length and type of a field; the type 0 means that the trace has no such field.\<close>

record bin_field =
  f_pos :: u32
  f_len :: u32
  f_type :: char

record binary_params_t =
  b_obj_id :: bin_field
  b_op :: bin_field
  b_real_time :: bin_field
  b_obj_size :: bin_field
  b_ttl :: bin_field
  b_extra1 :: bin_field
  b_extra2 :: bin_field
  num_of_fields :: u32

record reader_t =
  mapped_file :: "u8 list"
  mmap_offset :: u64
  file_size :: u64
  trace_type :: trace_type_e
  obj_id_type :: obj_id_type_e
  item_size :: u64
  n_read_req :: u64
  n_total_req :: u64
  init_params :: reader_init_param_t
  bin_params :: binary_params_t
  vscsi_ver :: vscsi_version_e
  cloned :: bool

section \<open>Memory\<close>

text \<open>Little-endian numbers.\<close>

definition le_list :: "nat \<Rightarrow> u64 \<Rightarrow> u8 list" where
  "le_list n w = map (\<lambda>i. ucast (drop_bit (8 * i) w)) [0 ..< n]"

definition le_val :: "u8 list \<Rightarrow> u64" where
  "le_val bs = foldr (\<lambda>b w. ucast b OR push_bit 8 w) bs 0"

definition bytes_at :: "u8 list \<Rightarrow> int \<Rightarrow> nat \<Rightarrow> u8 list result" where
  "bytes_at f a n = (if 0 \<le> a \<and> a + int n \<le> int (length f) then Inr (take n (drop (nat a) f)) else Inl Out_of_bounds)"

definition write_mem :: "nat \<Rightarrow> u8 list \<Rightarrow> u8 list \<Rightarrow> u8 list result" where
  "write_mem a bs m = (if a + length bs \<le> length m then Inr (take a m @ bs @ drop (a + length bs) m) else Inl Out_of_bounds)"

text \<open>\<^verbatim>\<open>req_op_e\<close> as the number that represents it.\<close>

definition op_names :: "req_op_e list" where
  "op_names = [OP_GET, OP_GETS, OP_SET, OP_ADD, OP_CAS, OP_REPLACE, OP_APPEND, OP_PREPEND, OP_DELETE, OP_INCR, OP_DECR,
     OP_READ, OP_WRITE, OP_UPDATE, OP_INVALID]"

definition op_of :: "u32 \<Rightarrow> req_op_e" where
  "op_of w = (if unat w < length op_names then op_names ! unat w else OP_other w)"

definition op_val :: "req_op_e \<Rightarrow> u32" where
  "op_val x = (case x of OP_other w \<Rightarrow> w | _ \<Rightarrow> of_nat (length (takeWhile (\<lambda>y. y \<noteq> x) op_names)))"

text \<open>The layout of \<^verbatim>\<open>request_t\<close>: \<^verbatim>\<open>real_time\<close> at 0, \<^verbatim>\<open>obj_id_int\<close> at 8, \<^verbatim>\<open>obj_size\<close> at 16, the extra fields
  at 24 and 32, the pointer \<^verbatim>\<open>cache_obj\<close> at 40, \<^verbatim>\<open>hv\<close> at 48, \<^verbatim>\<open>ttl\<close> at 56, \<^verbatim>\<open>op\<close> at 60, \<^verbatim>\<open>valid\<close> at 64.\<close>

definition req_bytes :: "request_t \<Rightarrow> u8 list" where
  "req_bytes req = le_list 8 (real_time req) @ le_list 8 (obj_id_int req) @ le_list 8 (obj_size req) @
     le_list 8 (extra_field1 req) @ le_list 8 (extra_field2 req) @ replicate 8 0 @ le_list 8 (hv req) @
     le_list 4 (ucast (ttl req)) @ le_list 4 (ucast (op_val (op req))) @ [if valid req then 1 else 0] @ replicate 7 0"

definition bytes_req :: "u8 list \<Rightarrow> request_t" where
  "bytes_req m = \<lparr>real_time = le_val (take 8 m), obj_id_int = le_val (take 8 (drop 8 m)), obj_size = le_val (take 8 (drop 16 m)),
     extra_field1 = le_val (take 8 (drop 24 m)), extra_field2 = le_val (take 8 (drop 32 m)), hv = le_val (take 8 (drop 48 m)),
     ttl = ucast (le_val (take 4 (drop 56 m))), op = op_of (ucast (le_val (take 4 (drop 60 m)))), valid = (m ! 64 \<noteq> 0)\<rparr>"

section \<open>Binary traces\<close>

definition no_field :: bin_field where
  "no_field = \<lparr>f_pos = 0, f_len = 0, f_type = CHR 0x00\<rparr>"

definition new_binary_params :: binary_params_t where
  "new_binary_params = \<lparr>b_obj_id = no_field, b_op = no_field, b_real_time = no_field, b_obj_size = no_field,
     b_ttl = no_field, b_extra1 = no_field, b_extra2 = no_field, num_of_fields = 0\<rparr>"

definition is_digit :: "char \<Rightarrow> bool" where
  "is_digit c \<longleftrightarrow> (of_char c :: nat) \<in> {48 .. 57}"

definition is_alnum :: "char \<Rightarrow> bool" where
  "is_alnum c \<longleftrightarrow> is_digit c \<or> (of_char c :: nat) \<in> {97 .. 122} \<or> (of_char c :: nat) \<in> {65 .. 90}"

text \<open>The size of a format character; the code keeps the size before for one it does not know.\<close>

definition fmt_size :: "char \<Rightarrow> u32 option" where
  "fmt_size c =
    (if c \<in> {CHR ''b'', CHR ''B'', CHR ''c'', CHR ''?''} then Some 1
     else if c \<in> {CHR ''h'', CHR ''H''} then Some 2
     else if c \<in> {CHR ''i'', CHR ''I'', CHR ''l'', CHR ''L''} then Some 4
     else if c \<in> {CHR ''q'', CHR ''Q''} then Some 8
     else if c = CHR ''f'' then Some 4
     else if c = CHR ''d'' then Some 8
     else if c = CHR ''s'' then Some 1
     else None)"

text \<open>The position of a field that lies among the values of one format character. The difference of
  an \<^verbatim>\<open>int\<close> and a \<^verbatim>\<open>guint\<close> is a \<^verbatim>\<open>guint\<close>.\<close>

definition set_field :: "int \<Rightarrow> u32 \<Rightarrow> u32 \<Rightarrow> u32 \<Rightarrow> u32 \<Rightarrow> char \<Rightarrow> u64 \<Rightarrow> bin_field \<Rightarrow> bin_field" where
  "set_field field count_sum last_count_sum sz len c item f =
    (if field \<noteq> 0 \<and> f_len f = 0 \<and> field \<le> sint count_sum then
       \<lparr>f_pos = ucast item + sz * (of_int field - last_count_sum - 1), f_len = len, f_type = c\<rparr>
     else f)"

text \<open>One format character with its count: the new sum of the counts, the size, the reader.\<close>

definition fmt_step :: "char \<Rightarrow> u32 \<Rightarrow> u32 \<Rightarrow> u32 \<Rightarrow> reader_t \<Rightarrow> u32 \<times> u32 \<times> reader_t" where
  "fmt_step c cnt last_count_sum sz reader =
    (let sz = (case fmt_size c of None \<Rightarrow> sz | Some s \<Rightarrow> s);
         count_sum = (if c = CHR ''s'' then last_count_sum + 1 else last_count_sum + cnt);
         slen = (if c = CHR ''s'' then cnt else 1);
         ip = init_params reader; p = bin_params reader; item = item_size reader;
         found = ip_obj_id_field ip \<noteq> 0 \<and> f_len (b_obj_id p) = 0 \<and> ip_obj_id_field ip \<le> sint count_sum;
         p' = p\<lparr>b_obj_id := set_field (ip_obj_id_field ip) count_sum last_count_sum sz slen c item (b_obj_id p),
           b_op := set_field (ip_op_field ip) count_sum last_count_sum sz slen c item (b_op p),
           b_real_time := set_field (ip_real_time_field ip) count_sum last_count_sum sz slen c item (b_real_time p),
           b_obj_size := set_field (ip_obj_size_field ip) count_sum last_count_sum sz sz c item (b_obj_size p),
           b_ttl := set_field (ip_ttl_field ip) count_sum last_count_sum sz sz c item (b_ttl p),
           b_extra1 := set_field (ip_extra_field1 ip) count_sum last_count_sum sz sz c item (b_extra1 p),
           b_extra2 := set_field (ip_extra_field2 ip) count_sum last_count_sum sz sz c item (b_extra2 p)\<rparr>
     in (count_sum, sz, reader\<lparr>bin_params := p', item_size := item + ucast (cnt * sz),
       obj_id_type := if found then (if c = CHR ''s'' then OBJ_ID_STR else OBJ_ID_NUM) else obj_id_type reader\<rparr>))"

definition parse_count :: "string \<Rightarrow> u32" where
  "parse_count ds = (let n = fold (\<lambda>c n. n * 10 + (of_nat (of_char c) - 48)) ds 0 in if n = 0 then 1 else n)"

text \<open>The loop over the format; behind its end the array holds zeros.\<close>

function parse_fmt :: "string \<Rightarrow> u32 \<Rightarrow> u32 \<Rightarrow> reader_t \<Rightarrow> u32 \<times> reader_t" where
  "parse_fmt fmt count_sum sz reader =
    (if fmt = [] then (count_sum, reader)
     else
       (let rest = dropWhile is_digit fmt; c = (case rest of [] \<Rightarrow> CHR 0x00 | c # _ \<Rightarrow> c);
            (count_sum, sz, reader) = fmt_step c (parse_count (takeWhile is_digit fmt)) count_sum sz reader
        in parse_fmt (tl rest) count_sum sz reader))"
  by auto
termination
proof (relation "measure (length \<circ> fst)")
  fix fmt :: string and rest
  assume a: "fmt \<noteq> []" "rest = dropWhile is_digit fmt"
  have "length rest \<le> length fmt" using a(2) by (simp add: length_dropWhile_le)
  then show "((tl rest, x, y, z), fmt, u, v, w) \<in> measure (length \<circ> fst)" for x y z u v w
    using a(1) by (cases rest) auto
qed simp

declare parse_fmt.simps [simp del]

definition binaryReader_setup :: "reader_t \<Rightarrow> reader_t result" where
  "binaryReader_setup reader =
    (let fmt = dropWhile (\<lambda>c. \<not> is_alnum c) (binary_fmt (init_params reader)) in
     if fmt = [] then Inl Out_of_bounds
     else
       (let (count_sum, reader) = parse_fmt fmt 0 0
              (reader\<lparr>trace_type := BIN_TRACE, item_size := 0, bin_params := new_binary_params\<rparr>) in
        if ip_obj_id_field (init_params reader) = - 1 then Inl Aborted
        else if item_size reader = 0 then Inl Division_by_zero
        else Inr (reader\<lparr>n_total_req := file_size reader div item_size reader,
          bin_params := (bin_params reader)\<lparr>num_of_fields := count_sum\<rparr>\<rparr>)))"

text \<open>The conversion of a \<^verbatim>\<open>float\<close> to \<^verbatim>\<open>double\<close> on their representations; a signalling NaN becomes quiet.\<close>

definition double_bits :: "nat \<Rightarrow> nat" where
  "double_bits w =
    (let s = w div 2 ^ 31; e = w div 2 ^ 23 mod 2 ^ 8; m = w mod 2 ^ 23 in
     s * 2 ^ 63 +
     (if e = 255 then 2047 * 2 ^ 52 + (if m = 0 then 0 else (m mod 2 ^ 22 + 2 ^ 22) * 2 ^ 29)
      else if e = 0 then
        (if m = 0 then 0
         else (let k = length (takeWhile (\<lambda>i. 2 ^ Suc i \<le> m) [0 ..< 23]) in (k + 874) * 2 ^ 52 + (m - 2 ^ k) * 2 ^ (52 - k)))
      else (e + 896) * 2 ^ 52 + m * 2 ^ 29))"

text \<open>\<^verbatim>\<open>strncpy\<close> followed by a terminating zero.\<close>

definition str_bytes :: "u8 list \<Rightarrow> u8 list" where
  "str_bytes bs = (let s = takeWhile (\<lambda>b. b \<noteq> 0) bs in s @ replicate (length bs - length s) 0 @ [0])"

text \<open>Reads the field at \<open>pos\<close> behind \<open>record\<close> and writes it to the address \<open>a\<close> of the request. All
  numbers are written as eight bytes.\<close>

definition binary_extract :: "u8 list \<Rightarrow> int \<Rightarrow> bin_field \<Rightarrow> nat \<Rightarrow> u8 list \<Rightarrow> u8 list result" where
  "binary_extract file record f a m =
    (let adr = record + sint (f_pos f); c = f_type f in
     if c \<in> {CHR ''h'', CHR ''H''} then
       rbind (bytes_at file adr 2) (\<lambda>bs. let v = le_val bs in
       write_mem a (le_list 8 (if c = CHR ''h'' then of_int (sint (ucast v :: u16)) else v)) m)
     else if c \<in> {CHR ''i'', CHR ''l'', CHR ''I'', CHR ''L''} then
       rbind (bytes_at file adr 4) (\<lambda>bs. let v = le_val bs in
       write_mem a (le_list 8 (if c \<in> {CHR ''i'', CHR ''l''} then of_int (sint (ucast v :: u32)) else v)) m)
     else if c \<in> {CHR ''q'', CHR ''Q'', CHR ''d''} then
       rbind (bytes_at file adr 8) (\<lambda>bs. write_mem a bs m)
     else if c = CHR ''f'' then
       rbind (bytes_at file adr 4) (\<lambda>bs. write_mem a (le_list 8 (of_nat (double_bits (unat (le_val bs))))) m)
     else if c = CHR ''s'' then
       rbind (bytes_at file adr (unat (f_len f))) (\<lambda>bs. write_mem a (str_bytes bs) m)
     else Inr m)"

fun extract_fields :: "u8 list \<Rightarrow> int \<Rightarrow> (bin_field \<times> nat) list \<Rightarrow> u8 list \<Rightarrow> u8 list result" where
  "extract_fields file record [] m = Inr m"
| "extract_fields file record ((f, a) # fs) m =
    rbind (if f_type f = CHR 0x00 then Inr m else binary_extract file record f a m) (extract_fields file record fs)"

definition binary_read_one_req :: "reader_t \<Rightarrow> request_t \<Rightarrow> (int \<times> reader_t \<times> request_t) result" where
  "binary_read_one_req reader req =
    (if mmap_offset reader \<ge> n_total_req reader * item_size reader then Inr (1, reader, req\<lparr>valid := False\<rparr>)
     else
       (let p = bin_params reader in
        rbind (extract_fields (mapped_file reader) (uint (mmap_offset reader))
          [(b_obj_id p, 8), (b_real_time p, 0), (b_obj_size p, 16), (b_op p, 60), (b_extra1 p, 24), (b_extra2 p, 32)]
          (req_bytes req)) (\<lambda>m.
        Inr (0, reader\<lparr>mmap_offset := mmap_offset reader + item_size reader\<rparr>, bytes_req m))))"

section \<open>VSCSI and Twitter traces\<close>

definition num_at :: "u8 list \<Rightarrow> int \<Rightarrow> nat \<Rightarrow> u64 result" where
  "num_at f a n = rbind (bytes_at f a n) (\<lambda>bs. Inr (le_val bs))"

definition to_vscsi_version :: "u64 \<Rightarrow> vscsi_version_e" where
  "to_vscsi_version v = (let x = drop_bit 8 v in if x = 1 then VSCSI1 else if x = 2 then VSCSI2 else UNKNOWN)"

definition MAX_TEST :: nat where "MAX_TEST = 2"

text \<open>The version fields of the first records: at 2 in records of 40 bytes, at 14 in records of 32.\<close>

definition test_version :: "u8 list \<Rightarrow> nat \<Rightarrow> nat \<Rightarrow> vscsi_version_e \<Rightarrow> bool result" where
  "test_version f rec_size off ver =
    (let vs = map (\<lambda>i. num_at f (int (i * rec_size + off)) 2) [0 ..< MAX_TEST] in
     if \<exists>v \<in> set vs. v = Inl Out_of_bounds then Inl Out_of_bounds
     else Inr (\<forall>v \<in> set vs. \<forall>x. v = Inr x \<longrightarrow> to_vscsi_version x = ver))"

definition test_vscsi_version :: "u8 list \<Rightarrow> vscsi_version_e result" where
  "test_vscsi_version f =
    rbind (test_version f 40 2 VSCSI2) (\<lambda>v2. if v2 then Inr VSCSI2 else
    rbind (test_version f 32 14 VSCSI1) (\<lambda>v1. Inr (if v1 then VSCSI1 else UNKNOWN)))"

definition record_size :: "vscsi_version_e \<Rightarrow> u64" where
  "record_size ver = (case ver of VSCSI1 \<Rightarrow> 32 | VSCSI2 \<Rightarrow> 40 | UNKNOWN \<Rightarrow> - 1)"

definition vscsi_setup :: "reader_t \<Rightarrow> (int \<times> reader_t) result" where
  "vscsi_setup reader =
    (let reader = reader\<lparr>vscsi_ver := UNKNOWN\<rparr> in
     if file_size reader < 40 * of_nat MAX_TEST then Inr (- 1, reader)
     else
       (let reader = reader\<lparr>obj_id_type := OBJ_ID_NUM\<rparr> in
        rbind (test_vscsi_version (mapped_file reader)) (\<lambda>ver.
        if ver = UNKNOWN then Inr (- 1, reader)
        else Inr (0, reader\<lparr>item_size := record_size ver, vscsi_ver := ver,
          n_total_req := file_size reader div record_size ver\<rparr>))))"

text \<open>A record with \<^verbatim>\<open>len\<close> and \<^verbatim>\<open>cmd\<close> at the given offsets; \<^verbatim>\<open>lbn\<close> and \<^verbatim>\<open>ts\<close> are at 16 and 24 in both versions.\<close>

definition vscsi_record :: "nat \<Rightarrow> nat \<Rightarrow> reader_t \<Rightarrow> request_t \<Rightarrow> (int \<times> reader_t \<times> request_t) result" where
  "vscsi_record len_off cmd_off reader c =
    (let f = mapped_file reader; a = uint (mmap_offset reader) in
     rbind (num_at f (a + 24) 8) (\<lambda>ts.
     rbind (num_at f (a + int len_off) 4) (\<lambda>len.
     rbind (num_at f (a + int cmd_off) 2) (\<lambda>cmd.
     rbind (num_at f (a + 16) 8) (\<lambda>lbn.
     Inr (0, reader\<lparr>mmap_offset := mmap_offset reader + item_size reader\<rparr>,
       c\<lparr>real_time := ts div 1000000, obj_size := len, op := op_of (ucast cmd), obj_id_int := lbn\<rparr>))))))"

definition vscsi_read_ver1 :: "reader_t \<Rightarrow> request_t \<Rightarrow> (int \<times> reader_t \<times> request_t) result" where
  "vscsi_read_ver1 = vscsi_record 4 12"

definition vscsi_read_ver2 :: "reader_t \<Rightarrow> request_t \<Rightarrow> (int \<times> reader_t \<times> request_t) result" where
  "vscsi_read_ver2 = vscsi_record 8 0"

definition vscsi_read_one_req :: "reader_t \<Rightarrow> request_t \<Rightarrow> (int \<times> reader_t \<times> request_t) result" where
  "vscsi_read_one_req reader c =
    (if mmap_offset reader \<ge> n_total_req reader * item_size reader then Inr (1, reader, c\<lparr>valid := False\<rparr>)
     else (case vscsi_ver reader of
         VSCSI1 \<Rightarrow> vscsi_read_ver1 reader c | VSCSI2 \<Rightarrow> vscsi_read_ver2 reader c | UNKNOWN \<Rightarrow> Inl Null_deref))"

definition twrReader_setup :: "reader_t \<Rightarrow> reader_t" where
  "twrReader_setup reader = reader\<lparr>trace_type := TWR_TRACE, item_size := 20, n_total_req := file_size reader div 20\<rparr>"

text \<open>Requests of size 0 are skipped by a recursive call.\<close>

fun twr_loop :: "nat \<Rightarrow> reader_t \<Rightarrow> request_t \<Rightarrow> (int \<times> reader_t \<times> request_t) result" where
  "twr_loop 0 reader req = Inl Diverges"
| "twr_loop (Suc n) reader req =
    (if mmap_offset reader \<ge> file_size reader then Inr (1, reader, req\<lparr>valid := False\<rparr>)
     else
       (let f = mapped_file reader; a = uint (mmap_offset reader) in
        rbind (num_at f a 4) (\<lambda>t.
        rbind (num_at f (a + 4) 8) (\<lambda>i.
        rbind (num_at f (a + 12) 4) (\<lambda>kv.
        rbind (num_at f (a + 16) 4) (\<lambda>op_ttl.
        let kv_size = ucast kv :: u32; key_size = drop_bit 22 kv_size AND 0x3ff; val_size = kv_size AND 0x3fffff;
            opv = drop_bit 24 (ucast op_ttl :: u32) AND 0xff;
            req = req\<lparr>real_time := t, obj_id_int := i, obj_size := ucast (key_size + val_size), op := op_of opv\<rparr>;
            reader = reader\<lparr>mmap_offset := mmap_offset reader + 20\<rparr>
        in if obj_size req = 0 then twr_loop n reader req else Inr (0, reader, req)))))))"

text \<open>Every call but the last consumes 20 bytes of the file.\<close>

definition twr_read_one_req :: "reader_t \<Rightarrow> request_t \<Rightarrow> (int \<times> reader_t \<times> request_t) result" where
  "twr_read_one_req reader req = twr_loop (length (mapped_file reader) + 1) reader req"

section \<open>Plain text traces\<close>

definition MAX_LINE_LEN :: u64 where "MAX_LINE_LEN = 1024 * 8"
definition MAX_OBJ_ID_LEN :: u64 where "MAX_OBJ_ID_LEN = 1024"
definition MAX_FILE_PATH_LEN :: nat where "MAX_FILE_PATH_LEN = 1024"

definition CSV_TAB :: u8 where "CSV_TAB = 0x09"
definition CSV_SPACE :: u8 where "CSV_SPACE = 0x20"
definition CSV_CR :: u8 where "CSV_CR = 0x0d"
definition CSV_LF :: u8 where "CSV_LF = 0x0a"

definition str_to_obj_id :: "u8 list \<Rightarrow> obj_id_t" where
  "str_to_obj_id bs = fold (\<lambda>b n. n * 10 + ucast b - 48) bs 0"

definition memchr :: "u8 \<Rightarrow> u8 list \<Rightarrow> nat option" where
  "memchr c bs = (let k = length (takeWhile (\<lambda>b. b \<noteq> c) bs) in if k < length bs then Some k else None)"

text \<open>The loop that looks for the end of the line in a window of the file, with the window doubled
  once. The result is the end, or \<open>None\<close> with the window at the end of the trace. When exactly
  \<^verbatim>\<open>MAX_LINE_LEN\<close> bytes are left without an end of line, the window is cut back to the same size and
  the loop starts again.\<close>

fun line_loop :: "nat \<Rightarrow> u64 \<Rightarrow> reader_t \<Rightarrow> (nat option \<times> u64) result" where
  "line_loop 0 sz reader = Inl Diverges"
| "line_loop (Suc n) sz reader =
    (let left = file_size reader - mmap_offset reader; sz = (if sz > left then left else sz) in
     rbind (bytes_at (mapped_file reader) (uint (mmap_offset reader)) (unat sz)) (\<lambda>bs.
     case (case memchr CSV_LF bs of None \<Rightarrow> memchr CSV_CR bs | Some k \<Rightarrow> Some k) of
       Some k \<Rightarrow> Inr (Some k, sz)
     | None \<Rightarrow> if sz = MAX_LINE_LEN then line_loop n (sz * 2) reader else Inr (None, sz)))"

definition is_blank :: "u8 \<Rightarrow> bool" where
  "is_blank b \<longleftrightarrow> b = CSV_CR \<or> b = CSV_LF \<or> b = CSV_TAB \<or> b = CSV_SPACE"

fun skip_blanks :: "u8 list \<Rightarrow> nat \<Rightarrow> nat" where
  "skip_blanks [] p = p"
| "skip_blanks (b # bs) p = (if is_blank b then skip_blanks bs (Suc p) else p)"

text \<open>Whether the end of the file is reached, the start of the next line, the length of this one.\<close>

definition find_line_ending :: "reader_t \<Rightarrow> (bool \<times> u64 \<times> u64 \<times> reader_t) result" where
  "find_line_ending reader =
    rbind (line_loop 3 MAX_LINE_LEN reader) (\<lambda>(e, sz).
    case e of
      None \<Rightarrow> Inr (True, file_size reader, sz, reader\<lparr>item_size := sz\<rparr>)
    | Some k \<Rightarrow>
        (let p = unat (mmap_offset reader) + k; line_len = of_nat k; n = unat (file_size reader);
             p = skip_blanks (take (n - 1 - p) (drop (Suc p) (mapped_file reader))) p;
             reader = reader\<lparr>item_size := line_len\<rparr>
         in if p = n - 1 then Inr (True, of_nat p, line_len, reader)
            else Inr (False, of_nat (Suc p), line_len, reader)))"

definition plain_read :: "(u8 list \<Rightarrow> u32) \<Rightarrow> reader_t \<Rightarrow> request_t \<Rightarrow> (int \<times> reader_t \<times> request_t) result" where
  "plain_read g_quark reader req =
    (if mmap_offset reader \<ge> file_size reader - 1 then Inr (1, reader, req\<lparr>valid := False\<rparr>)
     else
       rbind (find_line_ending reader) (\<lambda>(_, line_end, line_len, reader).
       rbind (bytes_at (mapped_file reader) (uint (mmap_offset reader)) (unat line_len)) (\<lambda>line.
       let reader' = reader\<lparr>mmap_offset := line_end\<rparr> in
       if obj_id_type reader = OBJ_ID_NUM then Inr (0, reader', req\<lparr>obj_id_int := str_to_obj_id line\<rparr>)
       else if line_len \<ge> MAX_OBJ_ID_LEN then Inl Aborted
       else Inr (0, reader', req\<lparr>obj_id_int := ucast (g_quark (takeWhile (\<lambda>b. b \<noteq> 0) line))\<rparr>))))"

section \<open>The reader interface\<close>

text \<open>The functions of \<^verbatim>\<open>csv.c\<close>.\<close>

record csv_ops =
  csv_setup_reader :: "reader_t \<Rightarrow> reader_t result"
  csv_read_one_element :: "reader_t \<Rightarrow> request_t \<Rightarrow> (int \<times> reader_t \<times> request_t) result"
  csv_skip_N_elements :: "reader_t \<Rightarrow> u64 \<Rightarrow> reader_t result"
  csv_reset_reader :: "reader_t \<Rightarrow> reader_t result"
  csv_has_header :: "reader_t \<Rightarrow> bool"
  csv_set_end :: "reader_t \<Rightarrow> reader_t"

definition setup_reader ::
  "csv_ops \<Rightarrow> (string \<Rightarrow> u8 list option) \<Rightarrow> string \<Rightarrow> trace_type_e \<Rightarrow> obj_id_type_e \<Rightarrow> reader_init_param_t \<Rightarrow> reader_t result" where
  "setup_reader csv fs trace_path t id_type ip =
    (if length trace_path > MAX_FILE_PATH_LEN - 1 then Inl Aborted
     else
       (case fs trace_path of
          None \<Rightarrow> Inl Aborted
        | Some [] \<Rightarrow> Inl Aborted
        | Some f \<Rightarrow>
            (let reader = \<lparr>mapped_file = f, mmap_offset = 0, file_size = of_nat (length f), trace_type = t, obj_id_type = id_type,
                   item_size = 0, n_read_req = 0, n_total_req = 0, init_params = ip, bin_params = new_binary_params,
                   vscsi_ver = UNKNOWN, cloned = False\<rparr> in
             case t of
               CSV_TRACE \<Rightarrow> csv_setup_reader csv reader
             | PLAIN_TXT_TRACE \<Rightarrow> Inr reader
             | VSCSI_TRACE \<Rightarrow> rbind (vscsi_setup reader) (\<lambda>(_, reader). Inr reader)
             | BIN_TRACE \<Rightarrow> binaryReader_setup reader
             | TWR_TRACE \<Rightarrow> Inr (twrReader_setup reader)
             | UNKNOWN_TRACE \<Rightarrow> Inl Aborted)))"

definition read_one_req ::
  "csv_ops \<Rightarrow> (u8 list \<Rightarrow> u32) \<Rightarrow> reader_t \<Rightarrow> request_t \<Rightarrow> (int \<times> reader_t \<times> request_t) result" where
  "read_one_req csv g_quark reader req =
    (let reader = reader\<lparr>n_read_req := n_read_req reader + 1\<rparr>; req = req\<lparr>hv := 0, valid := True\<rparr> in
     case trace_type reader of
       CSV_TRACE \<Rightarrow> csv_read_one_element csv reader req
     | PLAIN_TXT_TRACE \<Rightarrow> plain_read g_quark reader req
     | VSCSI_TRACE \<Rightarrow> vscsi_read_one_req reader req
     | BIN_TRACE \<Rightarrow> binary_read_one_req reader req
     | TWR_TRACE \<Rightarrow> twr_read_one_req reader req
     | UNKNOWN_TRACE \<Rightarrow> Inl Aborted)"

text \<open>The two loops of \<^verbatim>\<open>go_back_one_line\<close>: back over line ends, and back to the line end before.\<close>

fun back_over_ends :: "u8 list \<Rightarrow> nat \<Rightarrow> nat option" where
  "back_over_ends f 0 = (if f ! 0 = CSV_LF \<or> f ! 0 = CSV_CR then None else Some 0)"
| "back_over_ends f (Suc n) = (if f ! Suc n = CSV_LF \<or> f ! Suc n = CSV_CR then back_over_ends f n else Some (Suc n))"

fun back_to_end :: "u8 list \<Rightarrow> nat \<Rightarrow> nat" where
  "back_to_end f 0 = 0"
| "back_to_end f (Suc n) = (if f ! Suc n \<noteq> CSV_LF \<and> f ! Suc n \<noteq> CSV_CR then back_to_end f n else Suc n)"

definition go_back_text :: "reader_t \<Rightarrow> (int \<times> reader_t) result" where
  "go_back_text reader =
    (let off = mmap_offset reader; f = mapped_file reader in
     if off = 0 then Inr (1, reader)
     else if length f < unat off then Inl Out_of_bounds
     else
       (let start = (if item_size reader \<noteq> 0 then Some (uint off - (uint (item_size reader) + 1))
                     else map_option int (back_over_ends f (unat off - 1))) in
        case start of
          None \<Rightarrow> Inr (1, reader)
        | Some cp \<Rightarrow>
            (let cp = (if cp < 0 then cp else int (back_to_end f (nat cp))); cp = (if cp \<noteq> 0 then cp + 1 else cp) in
             if cp < 0 then Inl Aborted else Inr (0, reader\<lparr>mmap_offset := of_int cp\<rparr>))))"

definition go_back_records :: "u64 \<Rightarrow> reader_t \<Rightarrow> (int \<times> reader_t) result" where
  "go_back_records n reader =
    Inr (if mmap_offset reader \<ge> n then (0, reader\<lparr>mmap_offset := mmap_offset reader - n\<rparr>) else (- 1, reader))"

definition go_back_one_line :: "reader_t \<Rightarrow> (int \<times> reader_t) result" where
  "go_back_one_line reader =
    (case trace_type reader of
       CSV_TRACE \<Rightarrow> go_back_text reader | PLAIN_TXT_TRACE \<Rightarrow> go_back_text reader
     | BIN_TRACE \<Rightarrow> go_back_records (item_size reader) reader | TWR_TRACE \<Rightarrow> go_back_records (item_size reader) reader
     | VSCSI_TRACE \<Rightarrow> go_back_records (item_size reader) reader | UNKNOWN_TRACE \<Rightarrow> Inl Aborted)"

definition go_back_two_lines :: "reader_t \<Rightarrow> (int \<times> reader_t) result" where
  "go_back_two_lines reader =
    (let t = trace_type reader in
     if t = CSV_TRACE \<or> t = PLAIN_TXT_TRACE then
       rbind (go_back_one_line reader) (\<lambda>(r, reader).
       if r = 0 then go_back_one_line (reader\<lparr>item_size := 0\<rparr>) else Inr (1, reader))
     else if t = UNKNOWN_TRACE then Inl Aborted
     else go_back_records (item_size reader * 2) reader)"

definition read_one_req_above ::
  "csv_ops \<Rightarrow> (u8 list \<Rightarrow> u32) \<Rightarrow> reader_t \<Rightarrow> request_t \<Rightarrow> (int \<times> reader_t \<times> request_t) result" where
  "read_one_req_above csv g_quark reader c =
    rbind (go_back_two_lines reader) (\<lambda>(r, reader).
    if r = 0 then read_one_req csv g_quark reader c else Inr (1, reader, c\<lparr>valid := False\<rparr>))"

text \<open>The loop over \<open>n\<close> lines from line \<open>i\<close> on: the number of lines skipped when it stops early.\<close>

fun skip_lines :: "csv_ops \<Rightarrow> nat \<Rightarrow> nat \<Rightarrow> reader_t \<Rightarrow> (nat option \<times> reader_t) result" where
  "skip_lines csv i 0 reader = Inr (None, reader)"
| "skip_lines csv i (Suc n) reader =
    rbind (find_line_ending reader) (\<lambda>(e, line_end, _, reader).
    let reader = reader\<lparr>mmap_offset := line_end\<rparr> in
    if e then Inr (Some (i + 1), if trace_type reader = CSV_TRACE then csv_set_end csv reader else reader)
    else skip_lines csv (Suc i) n reader)"

definition skip_text :: "csv_ops \<Rightarrow> reader_t \<Rightarrow> u64 \<Rightarrow> (u64 \<times> reader_t) result" where
  "skip_text csv reader N =
    rbind (skip_lines csv 0 (unat N) reader) (\<lambda>(k, reader). Inr (case k of None \<Rightarrow> N | Some k \<Rightarrow> of_nat k, reader))"

definition skip_n_req :: "csv_ops \<Rightarrow> reader_t \<Rightarrow> u64 \<Rightarrow> (u64 \<times> reader_t) result" where
  "skip_n_req csv reader N =
    (case trace_type reader of
       CSV_TRACE \<Rightarrow> rbind (csv_skip_N_elements csv reader N) (\<lambda>reader. skip_text csv reader N)
     | PLAIN_TXT_TRACE \<Rightarrow> skip_text csv reader N
     | UNKNOWN_TRACE \<Rightarrow> Inl Aborted
     | _ \<Rightarrow>
         if mmap_offset reader + N * item_size reader \<le> file_size reader
         then Inr (N, reader\<lparr>mmap_offset := mmap_offset reader + N * item_size reader\<rparr>)
         else if item_size reader = 0 then Inl Division_by_zero
         else Inr ((file_size reader - mmap_offset reader) div item_size reader, reader\<lparr>mmap_offset := file_size reader\<rparr>))"

definition reset_reader :: "csv_ops \<Rightarrow> reader_t \<Rightarrow> reader_t result" where
  "reset_reader csv reader =
    (let reader = reader\<lparr>mmap_offset := 0\<rparr> in
     case trace_type reader of
       CSV_TRACE \<Rightarrow> csv_reset_reader csv reader | UNKNOWN_TRACE \<Rightarrow> Inl Aborted | _ \<Rightarrow> Inr reader)"

text \<open>Every line but the last moves the offset on.\<close>

fun count_lines :: "nat \<Rightarrow> u64 \<Rightarrow> reader_t \<Rightarrow> (u64 \<times> reader_t) result" where
  "count_lines 0 n_req reader = Inl Diverges"
| "count_lines (Suc k) n_req reader =
    rbind (find_line_ending reader) (\<lambda>(e, line_end, _, reader).
    if e then Inr (n_req + 1, reader) else count_lines k (n_req + 1) (reader\<lparr>mmap_offset := line_end\<rparr>))"

definition get_num_of_req :: "csv_ops \<Rightarrow> reader_t \<Rightarrow> (u64 \<times> reader_t) result" where
  "get_num_of_req csv reader =
    (if n_total_req reader > 0 then Inr (n_total_req reader, reader)
     else
       (let old_offset = mmap_offset reader; t = trace_type reader; reader = reader\<lparr>mmap_offset := 0\<rparr> in
        if t = UNKNOWN_TRACE then Inl Aborted
        else if t = CSV_TRACE \<or> t = PLAIN_TXT_TRACE then
          rbind (count_lines (length (mapped_file reader) + 1) 0 reader) (\<lambda>(n_req, reader).
          let n_req = (if t = CSV_TRACE \<and> csv_has_header csv reader then n_req - 1 else n_req)
          in Inr (n_req, reader\<lparr>n_total_req := n_req, mmap_offset := old_offset\<rparr>))
        else Inr (n_total_req reader, reader)))"

definition clone_reader :: "csv_ops \<Rightarrow> (string \<Rightarrow> u8 list option) \<Rightarrow> string \<Rightarrow> reader_t \<Rightarrow> reader_t result" where
  "clone_reader csv fs trace_path reader_in =
    rbind (setup_reader csv fs trace_path (trace_type reader_in) (obj_id_type reader_in) (init_params reader_in)) (\<lambda>reader.
    Inr (reader\<lparr>n_total_req := n_total_req reader_in, mapped_file := mapped_file reader_in, cloned := True\<rparr>))"

definition read_first_req ::
  "csv_ops \<Rightarrow> (u8 list \<Rightarrow> u32) \<Rightarrow> reader_t \<Rightarrow> request_t \<Rightarrow> (reader_t \<times> request_t) result" where
  "read_first_req csv g_quark reader req =
    rbind (reset_reader csv reader) (\<lambda>reader.
    rbind (read_one_req csv g_quark reader req) (\<lambda>(_, reader, req).
    rbind (reset_reader csv reader) (\<lambda>reader. Inr (reader, req))))"

end
