(* ===== verification/ReaderProps.thy ===== *)
theory ReaderProps
  imports Reader
begin

text \<open>
  The properties of the trace readers: traces in the simulator's binary format are read back as they
  were written, plain text traces line by line, and where the readers go wrong.
\<close>

section \<open>Numbers in memory\<close>

lemma length_le_list [simp]: "length (le_list n w) = n"
  by (simp add: le_list_def)

lemma le_list_Suc: "le_list (Suc n) w = ucast w # le_list n (drop_bit 8 w)"
  unfolding le_list_def by (simp add: upt_conv_Cons map_Suc_upt [symmetric] o_def drop_bit_drop_bit add.commute del: upt_Suc)

lemma le_val_le_list: "le_val (le_list n w) = take_bit (8 * n) w"
proof (induction n arbitrary: w)
  case 0
  then show ?case by (simp add: le_list_def le_val_def)
next
  case (Suc n)
  have "le_val (le_list (Suc n) w) = ucast (ucast w :: u8) OR push_bit 8 (take_bit (8 * n) (drop_bit 8 w))"
    using Suc by (simp add: le_list_Suc le_val_def)
  also have "\<dots> = take_bit (8 * Suc n) w"
    by (rule bit_word_eqI) (auto simp: bit_simps)
  finally show ?case .
qed

lemma le_val_8 [simp]: "le_val (le_list 8 w) = w"
  by (simp add: le_val_le_list take_bit_word_eq_self)

lemma le_val_4 [simp]: "le_val (le_list 4 (ucast (w :: u32))) = ucast w"
  using bit_imp_le_length [of w] by (auto simp: le_val_le_list bit_eq_iff bit_simps)

lemma op_of_val: "op_of (op_val x) = x \<or> (\<exists>w. x = OP_other w \<and> unat w < 15)"
  by (cases x) (auto simp: op_of_def op_val_def op_names_def)

text \<open>Requests whose operation is a value the type can hold.\<close>

definition op_ok :: "request_t \<Rightarrow> bool" where
  "op_ok req \<longleftrightarrow> (\<forall>w. op req = OP_other w \<longrightarrow> 15 \<le> unat w)"

lemma length_req_bytes [simp]: "length (req_bytes req) = 72"
  by (simp add: req_bytes_def)

lemma bytes_req_bytes: "op_ok req \<Longrightarrow> bytes_req (req_bytes req) = req"
  using op_of_val [of "op req"] by (cases req) (auto simp: bytes_req_def req_bytes_def op_ok_def nth_append not_le)

section \<open>The simulator's format\<close>

text \<open>A record of the format \<^verbatim>\<open>III\<close> that \<^verbatim>\<open>prepare_arg\<close> sets up: time, object and size in 32 bits each.\<close>

definition akamai_record :: "u32 \<times> u32 \<times> u32 \<Rightarrow> u8 list" where
  "akamai_record = (\<lambda>(t, i, z). le_list 4 (ucast t) @ le_list 4 (ucast i) @ le_list 4 (ucast z))"

definition akamai_trace :: "(u32 \<times> u32 \<times> u32) list \<Rightarrow> u8 list" where
  "akamai_trace rs = concat (map akamai_record rs)"

definition akamai_params :: reader_init_param_t where
  "akamai_params = \<lparr>ip_real_time_field = 1, ip_obj_id_field = 2, ip_obj_size_field = 3, ip_op_field = 0, ip_ttl_field = 0,
     ip_extra_field1 = 0, ip_extra_field2 = 0, binary_fmt = ''III''\<rparr>"

definition akamai_layout :: binary_params_t where
  "akamai_layout = new_binary_params\<lparr>b_real_time := \<lparr>f_pos = 0, f_len = 1, f_type = CHR ''I''\<rparr>,
     b_obj_id := \<lparr>f_pos = 4, f_len = 1, f_type = CHR ''I''\<rparr>, b_obj_size := \<lparr>f_pos = 8, f_len = 4, f_type = CHR ''I''\<rparr>, num_of_fields := 3\<rparr>"

lemma length_akamai [simp]: "length (akamai_record r) = 12" "length (akamai_trace rs) = 12 * length rs"
  by (cases r, simp add: akamai_record_def) (induction rs, auto simp: akamai_trace_def akamai_record_def)

lemma akamai_setup:
  assumes "init_params reader = akamai_params"
  shows "binaryReader_setup reader = Inr (reader\<lparr>trace_type := BIN_TRACE, obj_id_type := OBJ_ID_NUM, item_size := 12,
    n_total_req := file_size reader div 12, bin_params := akamai_layout\<rparr>)"
proof -
  have d: "\<not> is_digit (CHR ''I'')" "is_alnum (CHR ''I'')" by code_simp+
  show ?thesis using assms
    by (simp add: binaryReader_setup_def akamai_params_def d parse_fmt.simps [of _ _ _ _ ] parse_count_def fmt_step_def fmt_size_def
      set_field_def new_binary_params_def no_field_def akamai_layout_def Let_def)
qed

lemma bytes_at_app:
  assumes "a = int (length xs)" "n = length ys"
  shows "bytes_at (xs @ ys @ zs) a n = Inr ys"
  using assms by (simp add: bytes_at_def)

lemma extract_I:
  assumes "bytes_at file (record + sint p) 4 = Inr (le_list 4 (ucast (v :: u32)))"
  shows "binary_extract file record \<lparr>f_pos = p, f_len = l, f_type = CHR ''I''\<rparr> a m = write_mem a (le_list 8 (ucast v)) m"
  using assms by (simp add: binary_extract_def Let_def)

lemma akamai_fields:
  assumes "op_ok req"
  shows "rbind (write_mem 8 (le_list 8 i) (req_bytes req)) (\<lambda>m. rbind (write_mem 0 (le_list 8 t) m) (\<lambda>m.
      rbind (write_mem 16 (le_list 8 z) m) (\<lambda>m. Inr (bytes_req m)))) =
    Inr (req\<lparr>real_time := t, obj_id_int := i, obj_size := z\<rparr>)"
proof -
  let ?r = "req\<lparr>real_time := t, obj_id_int := i, obj_size := z\<rparr>"
  have "bytes_req (req_bytes ?r) = ?r" using assms by (intro bytes_req_bytes) (simp add: op_ok_def)
  then show ?thesis by (simp add: write_mem_def req_bytes_def)
qed

lemma read_akamai_record:
  assumes r: "trace_type reader = BIN_TRACE" "bin_params reader = akamai_layout" "mapped_file reader = xs @ akamai_record (t, i, z) @ ys"
    and off: "unat (mmap_offset reader) = length xs" "mmap_offset reader < n_total_req reader * item_size reader"
    and q: "op_ok req"
  shows "read_one_req csv g_quark reader req = Inr (0,
    reader\<lparr>n_read_req := n_read_req reader + 1, mmap_offset := mmap_offset reader + item_size reader\<rparr>,
    req\<lparr>hv := 0, valid := True, real_time := ucast t, obj_id_int := ucast i, obj_size := ucast z\<rparr>)"
proof -
  let ?f = "mapped_file reader" and ?a = "uint (mmap_offset reader)" and ?q = "req\<lparr>hv := 0, valid := True\<rparr>"
  have a: "?a = int (length xs)" using off(1) by (metis uint_nat)
  have f: "?f = xs @ le_list 4 (ucast t) @ (le_list 4 (ucast i) @ le_list 4 (ucast z) @ ys)"
    "?f = (xs @ le_list 4 (ucast t)) @ le_list 4 (ucast i) @ (le_list 4 (ucast z) @ ys)"
    "?f = (xs @ le_list 4 (ucast t) @ le_list 4 (ucast i)) @ le_list 4 (ucast z) @ ys"
    using r(3) by (simp_all add: akamai_record_def)
  have b: "bytes_at ?f (?a + sint (0 :: u32)) 4 = Inr (le_list 4 (ucast t))"
    "bytes_at ?f (?a + sint (4 :: u32)) 4 = Inr (le_list 4 (ucast i))" "bytes_at ?f (?a + sint (8 :: u32)) 4 = Inr (le_list 4 (ucast z))"
    unfolding a by (subst f(1), rule bytes_at_app, simp_all) (subst f(2), rule bytes_at_app, simp_all, subst f(3), rule bytes_at_app, simp_all)
  have "extract_fields ?f ?a [(b_obj_id akamai_layout, 8), (b_real_time akamai_layout, 0), (b_obj_size akamai_layout, 16),
      (b_op akamai_layout, 60), (b_extra1 akamai_layout, 24), (b_extra2 akamai_layout, 32)] m =
    rbind (write_mem 8 (le_list 8 (ucast i)) m) (\<lambda>m. rbind (write_mem 0 (le_list 8 (ucast t)) m) (write_mem 16 (le_list 8 (ucast z))))" for m
    using b by (auto simp: akamai_layout_def new_binary_params_def no_field_def extract_I rbind_def split: sum.splits)
  moreover have "op_ok ?q" using q by (simp add: op_ok_def)
  ultimately show ?thesis using akamai_fields [of ?q "ucast i" "ucast t" "ucast z"] r(1,2) off(2)
    by (auto simp: read_one_req_def binary_read_one_req_def Let_def not_le rbind_def split: sum.splits)
qed

text \<open>A reader whose next records are \<open>rs\<close>, up to the end of the trace.\<close>

definition at_records :: "reader_t \<Rightarrow> (u32 \<times> u32 \<times> u32) list \<Rightarrow> bool" where
  "at_records reader rs \<longleftrightarrow> trace_type reader = BIN_TRACE \<and> bin_params reader = akamai_layout \<and> item_size reader = 12 \<and>
     (\<exists>xs. mapped_file reader = xs @ akamai_trace rs \<and> unat (mmap_offset reader) = length xs) \<and>
     unat (n_total_req reader) * 12 = length (mapped_file reader) \<and> length (mapped_file reader) < 2 ^ 64"

lemma at_records_end: "at_records reader rs \<Longrightarrow> unat (n_total_req reader * item_size reader) = length (mapped_file reader)"
  by (simp add: at_records_def unat_mult_lem [THEN iffD1])

lemma read_next:
  assumes "at_records reader ((t, i, z) # rs)" "op_ok req"
  obtains reader' where "read_one_req csv g_quark reader req =
      Inr (0, reader', req\<lparr>hv := 0, valid := True, real_time := ucast t, obj_id_int := ucast i, obj_size := ucast z\<rparr>)"
    "at_records reader' rs" "mapped_file reader' = mapped_file reader"
proof -
  obtain xs where f: "mapped_file reader = xs @ akamai_record (t, i, z) @ akamai_trace rs" "unat (mmap_offset reader) = length xs"
    using assms(1) by (auto simp: at_records_def akamai_trace_def)
  have a: "trace_type reader = BIN_TRACE" "bin_params reader = akamai_layout" "item_size reader = 12"
    "length (mapped_file reader) < 2 ^ 64" using assms(1) by (simp_all add: at_records_def)
  have lt: "mmap_offset reader < n_total_req reader * item_size reader"
    unfolding word_less_nat_alt at_records_end [OF assms(1)] using f by simp
  let ?reader = "reader\<lparr>n_read_req := n_read_req reader + 1, mmap_offset := mmap_offset reader + item_size reader\<rparr>"
  have "unat (mmap_offset reader + 12) = length (xs @ akamai_record (t, i, z))"
    using f a(4) by (simp add: unat_add_lem [THEN iffD1])
  then have "at_records ?reader rs" using assms(1) f
    unfolding at_records_def by (auto simp: a(3) intro!: exI [of _ "xs @ akamai_record (t, i, z)"])
  then show thesis using that read_akamai_record [OF a(1,2) f(1) f(2) lt assms(2)] by simp
qed

lemma read_end:
  assumes "at_records reader []"
  obtains reader' req' where "read_one_req csv g_quark reader req = Inr (1, reader', req')" "\<not> valid req'" "op req' = op req"
proof -
  have "\<not> mmap_offset reader < n_total_req reader * item_size reader"
    using assms unfolding word_less_nat_alt at_records_end [OF assms] by (auto simp: at_records_def akamai_trace_def)
  then show thesis using assms that by (simp add: at_records_def read_one_req_def binary_read_one_req_def not_less)
qed

text \<open>Reading \<open>n\<close> requests, each into the request before, as the loops over a trace do.\<close>

fun read_reqs :: "csv_ops \<Rightarrow> (u8 list \<Rightarrow> u32) \<Rightarrow> nat \<Rightarrow> reader_t \<Rightarrow> request_t \<Rightarrow> (request_t list \<times> reader_t \<times> request_t) result" where
  "read_reqs csv g_quark 0 reader req = Inr ([], reader, req)"
| "read_reqs csv g_quark (Suc n) reader req =
    rbind (read_one_req csv g_quark reader req) (\<lambda>(_, reader, req).
    rbind (read_reqs csv g_quark n reader req) (\<lambda>(reqs, reader, req'). Inr (req # reqs, reader, req')))"

lemma read_akamai_records:
  assumes "at_records reader rs" "op_ok req"
  shows "\<exists>reqs reader' req'. read_reqs csv g_quark (length rs) reader req = Inr (reqs, reader', req') \<and>
    map (\<lambda>q. (real_time q, obj_id_int q, obj_size q, valid q)) reqs = map (\<lambda>(t, i, z). (ucast t, ucast i, ucast z, True)) rs \<and>
    (\<exists>reader'' req''. read_one_req csv g_quark reader' req' = Inr (1, reader'', req'') \<and> \<not> valid req'')"
  using assms
proof (induction rs arbitrary: reader req)
  case Nil
  obtain reader' req' where "read_one_req csv g_quark reader req = Inr (1, reader', req')" "\<not> valid req'"
    by (rule read_end [OF Nil.prems(1)])
  then show ?case by simp
next
  case (Cons r rs)
  obtain t i z where r: "r = (t, i, z)" by (cases r) auto
  let ?req = "req\<lparr>hv := 0, valid := True, real_time := ucast t, obj_id_int := ucast i, obj_size := ucast z\<rparr>"
  obtain reader' where rd: "read_one_req csv g_quark reader req = Inr (0, reader', ?req)" "at_records reader' rs"
    by (rule read_next [OF Cons.prems [unfolded r]])
  have "op_ok ?req" using Cons.prems(2) by (simp add: op_ok_def)
  from Cons.IH [OF rd(2) this] show ?case using rd(1) by (auto simp: r)
qed

text \<open>Setting up a reader on a trace.\<close>

lemma setup_akamai:
  assumes "rs \<noteq> []" "fs path = Some (akamai_trace rs)" "length path < MAX_FILE_PATH_LEN" "12 * length rs < 2 ^ 64"
  obtains reader where "setup_reader csv fs path BIN_TRACE id_type akamai_params = Inr reader" "at_records reader rs"
    "n_total_req reader = of_nat (length rs)" "mapped_file reader = akamai_trace rs" "init_params reader = akamai_params"
proof -
  obtain b bs where f: "akamai_trace rs = b # bs" using assms(1) length_akamai(2) [of rs] by (cases "akamai_trace rs") auto
  define r0 where "r0 = \<lparr>mapped_file = akamai_trace rs, mmap_offset = 0, file_size = of_nat (length (akamai_trace rs)), trace_type = BIN_TRACE,
    obj_id_type = id_type, item_size = 0, n_read_req = 0, n_total_req = 0, init_params = akamai_params, bin_params = new_binary_params,
    vscsi_ver = UNKNOWN, cloned = False\<rparr>"
  define reader where "reader = r0\<lparr>obj_id_type := OBJ_ID_NUM, item_size := 12, n_total_req := file_size r0 div 12, bin_params := akamai_layout\<rparr>"
  have "binaryReader_setup r0 = Inr (r0\<lparr>trace_type := BIN_TRACE, obj_id_type := OBJ_ID_NUM, item_size := 12,
      n_total_req := file_size r0 div 12, bin_params := akamai_layout\<rparr>)" by (rule akamai_setup) (simp add: r0_def)
  then have "binaryReader_setup r0 = Inr reader" by (simp add: reader_def r0_def)
  then have su: "setup_reader csv fs path BIN_TRACE id_type akamai_params = Inr reader"
    using assms(2,3) f by (simp add: setup_reader_def r0_def Let_def MAX_FILE_PATH_LEN_def)
  have n: "n_total_req reader = of_nat (length rs)"
  proof -
    have "unat (of_nat (12 * length rs) div 12 :: u64) = length rs"
      using assms(4) by (simp add: unat_div unat_of_nat del: of_nat_mult)
    then have "of_nat (12 * length rs) div 12 = (of_nat (length rs) :: u64)"
      using word_unat_eq_iff [of "of_nat (12 * length rs) div 12 :: u64" "of_nat (length rs)"] assms(4) by (simp del: of_nat_mult)
    then show ?thesis by (simp add: reader_def r0_def del: of_nat_mult)
  qed
  have "at_records reader rs" using assms(4) n by (auto simp: at_records_def reader_def r0_def)
  then show thesis using that su n by (simp add: reader_def r0_def)
qed

text \<open>
  (C36) Traces in the simulator's binary format are read back as they were written: setting up a reader on
  the bytes of any list of times, objects and sizes and reading them gives exactly these values, in
  order, as valid requests, and the request after the last one is invalid.
\<close>

theorem akamai_trace_roundtrip:
  assumes "rs \<noteq> []" "fs path = Some (akamai_trace rs)" "length path < MAX_FILE_PATH_LEN" "12 * length rs < 2 ^ 64" "op_ok req"
  shows "\<exists>reader reqs reader' req'. setup_reader csv fs path BIN_TRACE id_type akamai_params = Inr reader \<and>
    n_total_req reader = of_nat (length rs) \<and>
    read_reqs csv g_quark (length rs) reader req = Inr (reqs, reader', req') \<and>
    map (\<lambda>q. (real_time q, obj_id_int q, obj_size q, valid q)) reqs = map (\<lambda>(t, i, z). (ucast t, ucast i, ucast z, True)) rs \<and>
    (\<exists>reader'' req''. read_one_req csv g_quark reader' req' = Inr (1, reader'', req'') \<and> \<not> valid req'')"
proof -
  obtain reader where "setup_reader csv fs path BIN_TRACE id_type akamai_params = Inr reader" "at_records reader rs"
    "n_total_req reader = of_nat (length rs)" by (rule setup_akamai [where fs = fs and path = path, OF assms(1-4)])
  then show ?thesis using read_akamai_records [of reader rs req csv g_quark] assms(5) by blast
qed

text \<open>A build without a CSV parser, for the examples.\<close>

definition no_csv :: csv_ops where
  "no_csv = \<lparr>csv_setup_reader = Inr, csv_read_one_element = \<lambda>r q. Inr (1, r, q\<lparr>valid := False\<rparr>), csv_skip_N_elements = \<lambda>r _. Inr r,
     csv_reset_reader = Inr, csv_has_header = \<lambda>_. False, csv_set_end = \<lambda>r. r\<rparr>"

theorem akamai_trace_roundtrip_witness:
  "\<exists>reader reqs reader' req'.
    setup_reader no_csv [''t'' \<mapsto> akamai_trace [(5, 70, 300), (6, 71, 4000000000)]] ''t'' BIN_TRACE OBJ_ID_NUM akamai_params = Inr reader \<and>
    read_reqs no_csv (\<lambda>_. 0) 2 reader new_request = Inr (reqs, reader', req') \<and>
    map (\<lambda>q. (real_time q, obj_id_int q, obj_size q, valid q)) reqs = [(5, 70, 300, True), (6, 71, 4000000000, True)]"
proof -
  let ?rs = "[(5, 70, 300), (6, 71, 4000000000)] :: (u32 \<times> u32 \<times> u32) list"
  have rs: "?rs \<noteq> []" "[''t'' \<mapsto> akamai_trace ?rs] ''t'' = Some (akamai_trace ?rs)" "length ''t'' < MAX_FILE_PATH_LEN"
    "12 * length ?rs < 2 ^ 64" by (simp_all add: MAX_FILE_PATH_LEN_def)
  have "op_ok new_request" by (simp add: op_ok_def new_request_def)
  then obtain reader reqs reader' req' where *:
    "setup_reader no_csv [''t'' \<mapsto> akamai_trace ?rs] ''t'' BIN_TRACE OBJ_ID_NUM akamai_params = Inr reader"
    "read_reqs no_csv (\<lambda>_. 0) (length ?rs) reader new_request = Inr (reqs, reader', req')"
    "map (\<lambda>q. (real_time q, obj_id_int q, obj_size q, valid q)) reqs = map (\<lambda>(t, i, z). (ucast t, ucast i, ucast z, True)) ?rs"
    using akamai_trace_roundtrip [of ?rs "[''t'' \<mapsto> akamai_trace ?rs]" "''t''" new_request no_csv OBJ_ID_NUM "\<lambda>_. 0"] rs by blast
  have n: "length ?rs = 2" and
    m: "map (\<lambda>(t, i, z). (ucast t, ucast i, ucast z, True)) ?rs = [(5 :: u64, 70 :: u64, 300 :: u64, True), (6, 71, 4000000000, True)]"
    by simp_all
  show ?thesis using *(1) *(2) [unfolded n] *(3) [unfolded m] by (intro exI conjI)
qed

section \<open>The operation field\<close>

lemma le_val_small: "length bs \<le> 4 \<Longrightarrow> bit (le_val bs) n \<Longrightarrow> n < 32"
proof -
  have "bit (le_val bs) n \<Longrightarrow> n < 8 * length bs" for n
  proof (induction bs arbitrary: n)
    case (Cons b bs)
    from Cons.prems have "bit b n \<or> 8 \<le> n \<and> bit (le_val bs) (n - 8)" by (auto simp: le_val_def bit_simps)
    then have "n < 8 \<or> n - 8 < 8 * length bs" using Cons.IH [of "n - 8"] bit_imp_le_length [of b n] by auto
    then show ?case by auto
  qed (simp add: le_val_def)
  then show "length bs \<le> 4 \<Longrightarrow> bit (le_val bs) n \<Longrightarrow> n < 32" by fastforce
qed

lemma bytes_at_length: "bytes_at f a n = Inr bs \<Longrightarrow> length bs = n"
  by (auto simp: bytes_at_def split: if_splits)

lemma write_mem_nth:
  "write_mem a bs m = Inr m' \<Longrightarrow> length m' = length m \<and> (\<forall>i. i < a \<or> a + length bs \<le> i \<longrightarrow> m' ! i = m ! i) \<and>
    (\<forall>i < length bs. m' ! (a + i) = bs ! i)"
  by (auto simp: write_mem_def nth_append split: if_splits)

text \<open>A field that is not a string changes at most eight bytes.\<close>

lemma extract_nth:
  assumes "binary_extract file record f a m = Inr m'" "f_type f \<noteq> CHR ''s''"
  shows "length m' = length m \<and> (\<forall>i. i < a \<or> a + 8 \<le> i \<longrightarrow> m' ! i = m ! i)"
  using assms by (auto simp: binary_extract_def Let_def rbind_eq_Inr split: if_splits dest!: bytes_at_length write_mem_nth)

lemma extract_op:
  assumes "binary_extract file record f 60 m = Inr m'" "f_type f \<in> {CHR ''I'', CHR ''L'', CHR ''H''}"
  shows "m' ! 64 = 0"
proof -
  define n :: nat where "n = (if f_type f = CHR ''H'' then 2 else 4)"
  obtain bs where b: "bytes_at file (record + sint (f_pos f)) n = Inr bs" "write_mem 60 (le_list 8 (le_val bs)) m = Inr m'"
    using assms by (auto simp: binary_extract_def Let_def rbind_eq_Inr n_def)
  have bs: "length bs \<le> 4" "write_mem 60 (le_list 8 (le_val bs)) m = Inr m'" using bytes_at_length [OF b(1)] b(2) by (simp_all add: n_def)
  have "4 < length (le_list 8 (le_val bs))" by simp
  then have "m' ! (60 + 4) = le_list 8 (le_val bs) ! 4" using write_mem_nth [OF bs(2)] by blast
  also have "\<dots> = 0" using le_val_small [OF bs(1)] by (auto simp: le_list_def bit_eq_iff bit_simps)
  finally show ?thesis by simp
qed

text \<open>
  (C37) A binary trace with an operation field of an unsigned type cannot be read: the eight bytes
  written for the field reach over the four bytes of \<^verbatim>\<open>op\<close> into \<^verbatim>\<open>valid\<close>, so every request comes back
  invalid, which the loops over a trace take for its end.
\<close>

theorem binary_op_field_invalidates:
  assumes "f_type (b_op (bin_params reader)) \<in> {CHR ''I'', CHR ''L'', CHR ''H''}"
    "f_type (b_extra1 (bin_params reader)) \<noteq> CHR ''s''" "f_type (b_extra2 (bin_params reader)) \<noteq> CHR ''s''"
    "binary_read_one_req reader req = Inr (r, reader', req')"
  shows "\<not> valid req'"
proof (cases "r = 1")
  case True
  then show ?thesis using assms(4) by (auto simp: binary_read_one_req_def Let_def rbind_eq_Inr split: if_splits)
next
  case False
  let ?p = "bin_params reader" and ?x = "\<lambda>f a m. if f_type f = CHR 0x00 then Inr m
    else binary_extract (mapped_file reader) (uint (mmap_offset reader)) f a m"
  obtain m6 where "extract_fields (mapped_file reader) (uint (mmap_offset reader))
      [(b_obj_id ?p, 8), (b_real_time ?p, 0), (b_obj_size ?p, 16), (b_op ?p, 60), (b_extra1 ?p, 24), (b_extra2 ?p, 32)] (req_bytes req) = Inr m6"
    and q: "req' = bytes_req m6"
    using assms(4) False by (auto simp: binary_read_one_req_def Let_def rbind_eq_Inr simp del: extract_fields.simps split: if_splits)
  then obtain m3 m4 m5 where m: "?x (b_op ?p) 60 m3 = Inr m4" "?x (b_extra1 ?p) 24 m4 = Inr m5" "?x (b_extra2 ?p) 32 m5 = Inr m6"
    unfolding extract_fields.simps rbind_eq_Inr by blast
  have "m4 ! 64 = 0" using m(1) assms(1) extract_op by (auto split: if_splits)
  moreover have "m5 ! 64 = m4 ! 64" using m(2) extract_nth [OF _ assms(2)] by (fastforce split: if_splits)
  moreover have "m6 ! 64 = m5 ! 64" using m(3) extract_nth [OF _ assms(3)] by (fastforce split: if_splits)
  ultimately show ?thesis by (simp add: q bytes_req_def)
qed

text \<open>Records of a time, an object, a size and the operation 11, a read.\<close>

definition op_trace_reader :: reader_t where
  "op_trace_reader = \<lparr>mapped_file = [5, 0, 0, 0, 70, 0, 0, 0, 44, 1, 0, 0, 11, 0, 0, 0], mmap_offset = 0, file_size = 16, trace_type = BIN_TRACE,
     obj_id_type = OBJ_ID_NUM, item_size = 0, n_read_req = 0, n_total_req = 0, init_params = akamai_params\<lparr>ip_op_field := 4, binary_fmt := ''IIII''\<rparr>,
     bin_params = new_binary_params, vscsi_ver = UNKNOWN, cloned = False\<rparr>"

theorem binary_op_field_invalidates_witness:
  "\<exists>reader reader' req'. binaryReader_setup op_trace_reader = Inr reader \<and>
    binary_read_one_req reader new_request = Inr (0, reader', req') \<and> obj_id_int req' = 70 \<and> op req' = OP_READ \<and> \<not> valid req'"
proof -
  have "case binaryReader_setup op_trace_reader of Inl _ \<Rightarrow> False
    | Inr reader \<Rightarrow> f_type (b_op (bin_params reader)) = CHR ''I'' \<and> f_type (b_extra1 (bin_params reader)) = CHR 0x00 \<and>
        f_type (b_extra2 (bin_params reader)) = CHR 0x00 \<and>
        (case binary_read_one_req reader new_request of Inl _ \<Rightarrow> False
         | Inr (r, reader', req') \<Rightarrow> r = 0 \<and> obj_id_int req' = 70 \<and> op req' = OP_READ)"
    by code_simp
  then obtain reader reader' req' where r: "binaryReader_setup op_trace_reader = Inr reader"
    "f_type (b_op (bin_params reader)) = CHR ''I''" "f_type (b_extra1 (bin_params reader)) = CHR 0x00" "f_type (b_extra2 (bin_params reader)) = CHR 0x00"
    "binary_read_one_req reader new_request = Inr (0, reader', req')" "obj_id_int req' = 70" "op req' = OP_READ"
    by (auto split: sum.splits prod.splits)
  then have "\<not> valid req'" using binary_op_field_invalidates [of reader new_request 0 reader' req'] by simp
  then show ?thesis using r by blast
qed

end
