(* ===== verification/Simulator.thy ===== *)
theory Simulator
  imports CacheCluster Reader
begin

text \<open>
  The driver of the simulation: \<^verbatim>\<open>src/cacheClusterThread.cpp\<close> with its header, which feeds a trace to a
  cluster and applies the server failures of a schedule, and \<^verbatim>\<open>src/simulator.cpp\<close> with \<^verbatim>\<open>utils.h\<close>, which
  sets up servers and cluster from the arguments. The files the thread writes are lists of the rows
  written; names of files and messages are left out. Parsing of the command line (Boost) is not
  modelled beyond what is done with the parsed values.
\<close>

section \<open>Strings\<close>

definition is_space :: "char \<Rightarrow> bool" where
  "is_space c \<longleftrightarrow> (of_char c :: nat) = 32 \<or> (of_char c :: nat) \<in> {9 .. 13}"

text \<open>The number at the start of a string, as \<^verbatim>\<open>strtol\<close> reads it.\<close>

definition strtol :: "string \<Rightarrow> int option" where
  "strtol s =
    (let s = dropWhile is_space s; neg = (s \<noteq> [] \<and> hd s = CHR ''-'');
         s = (if s \<noteq> [] \<and> (hd s = CHR ''-'' \<or> hd s = CHR ''+'') then tl s else s);
         ds = takeWhile is_digit s; n = fold (\<lambda>c n. n * 10 + (of_char c - 48)) ds 0
     in if ds = [] then None else Some (if neg then - n else n))"

text \<open>\<^verbatim>\<open>std::stoi\<close> and \<^verbatim>\<open>std::stol\<close> throw without a number and for one that is out of range.\<close>

definition stoi :: "string \<Rightarrow> int result" where
  "stoi s = (case strtol s of None \<Rightarrow> Inl Aborted | Some n \<Rightarrow> if - (2 ^ 31) \<le> n \<and> n < 2 ^ 31 then Inr n else Inl Aborted)"

definition stol :: "string \<Rightarrow> int result" where
  "stol s = (case strtol s of None \<Rightarrow> Inl Aborted | Some n \<Rightarrow> if - (2 ^ 63) \<le> n \<and> n < 2 ^ 63 then Inr n else Inl Aborted)"

text \<open>\<^verbatim>\<open>boost::split\<close> at every space.\<close>

fun split_space :: "string \<Rightarrow> string list" where
  "split_space [] = [[]]"
| "split_space (c # cs) =
    (if c = CHR '' '' then [] # split_space cs
     else (case split_space cs of [] \<Rightarrow> [[c]] | w # ws \<Rightarrow> (c # w) # ws))"

fun rmap :: "('a \<Rightarrow> 'b result) \<Rightarrow> 'a list \<Rightarrow> 'b list result" where
  "rmap f [] = Inr []"
| "rmap f (x # xs) = rbind (f x) (\<lambda>y. rbind (rmap f xs) (\<lambda>ys. Inr (y # ys)))"

definition to_lower :: "char \<Rightarrow> char" where
  "to_lower c = (if (of_char c :: nat) \<in> {65 .. 90} then char_of (of_char c + 32 :: nat) else c)"

text \<open>\<^verbatim>\<open>long convert_size(std::string)\<close>; the last character of the empty string is not there.\<close>

definition convert_size :: "string \<Rightarrow> u64 result" where
  "convert_size s =
    (if s = [] then Inl Out_of_bounds
     else
       (let c = to_lower (last s) in
        if c = CHR ''m'' then rbind (stol (butlast s)) (\<lambda>n. Inr (of_int n * 1000000))
        else if c = CHR ''g'' then rbind (stol (butlast s)) (\<lambda>n. Inr (of_int n * 1000000000))
        else if c = CHR ''t'' then rbind (stol (butlast s)) (\<lambda>n. Inr (of_int n * 1000000000000))
        else rbind (stol s) (\<lambda>n. Inr (of_int n))))"

section \<open>The cluster thread\<close>

record cacheClusterThread =
  t_reader :: reader_t
  failure_vector_deque :: "int list list"
  cache_cluster :: cacheCluster
  cache_start_time :: u64
  last_cluster_unavailability_update :: u64
  cluster_update_interval :: u64
  vtime :: u64
  last_log_otime :: u64
  last_rep_coef_log_otime :: u64
  log_interval :: u64
  prev_failed_servers :: "int list"
  log_rows :: "(u64 \<times> cacheClusterStat) list"
  bucket_rows :: "bucketStat list list"

text \<open>One line of the failure data: the servers that fail, separated by single spaces.\<close>

definition load_failure_data :: "string list \<Rightarrow> int list list result" where
  "load_failure_data ls = rmap (\<lambda>line. if line = [] then Inr [] else rmap stoi (split_space line)) ls"

definition new_cacheClusterThread :: "cacheCluster \<Rightarrow> reader_t \<Rightarrow> string list \<Rightarrow> u64 \<Rightarrow> cacheClusterThread result" where
  "new_cacheClusterThread c reader failure_lines interval =
    rbind (load_failure_data failure_lines) (\<lambda>q.
    Inr \<lparr>t_reader = reader, failure_vector_deque = q, cache_cluster = c, cache_start_time = 0,
      last_cluster_unavailability_update = 0, cluster_update_interval = 5 * 60, vtime = 0, last_log_otime = 0,
      last_rep_coef_log_otime = 0, log_interval = interval, prev_failed_servers = [], log_rows = [], bucket_rows = []\<rparr>)"

fun recover_servers :: "nat list \<Rightarrow> cacheCluster \<Rightarrow> cacheCluster result" where
  "recover_servers [] c = Inr c"
| "recover_servers (i # is) c = rbind (recover_one_server (of_nat i) c) (\<lambda>(_, c). recover_servers is c)"

fun fail_servers :: "int list \<Rightarrow> cacheCluster \<Rightarrow> cacheCluster result" where
  "fail_servers [] c = Inr c"
| "fail_servers (i # is) c = rbind (fail_one_server (of_int i) c) (\<lambda>(_, c). fail_servers is c)"

text \<open>The servers of the schedule fail, all others recover, and the buckets are mapped again.\<close>

definition apply_failures ::
  "(u64 \<Rightarrow> u64) \<Rightarrow> ((nat \<times> nat \<times> int) list \<Rightarrow> int list) \<Rightarrow> int list \<Rightarrow> cacheCluster \<Rightarrow> cacheCluster result" where
  "apply_failures hash max_flow failed_servers c =
    rbind (recover_servers [0 ..< length (cache_servers c)] c) (\<lambda>c.
    rbind (fail_servers failed_servers c) (\<lambda>c.
    populate_hash_mapping hash max_flow c))"

definition update_availability ::
  "(u64 \<Rightarrow> u64) \<Rightarrow> ((nat \<times> nat \<times> int) list \<Rightarrow> int list) \<Rightarrow> request_t \<Rightarrow> cacheClusterThread \<Rightarrow> cacheClusterThread result" where
  "update_availability hash max_flow req th =
    (case failure_vector_deque th of
       [] \<Rightarrow> Inr th
     | failed_servers # q \<Rightarrow>
         if real_time req - last_cluster_unavailability_update th \<ge> cluster_update_interval th then
           rbind (if failed_servers \<noteq> prev_failed_servers th
                  then apply_failures hash max_flow failed_servers (cache_cluster th) else Inr (cache_cluster th)) (\<lambda>c.
           Inr (th\<lparr>cache_cluster := c, prev_failed_servers := failed_servers, failure_vector_deque := q,
             last_cluster_unavailability_update := real_time req\<rparr>))
         else Inr th)"

text \<open>A row of the log at the end of an interval; the statistics of the servers start again.\<close>

definition write_log :: "request_t \<Rightarrow> cacheClusterThread \<Rightarrow> cacheClusterThread result" where
  "write_log req th =
    (let c = cache_cluster th; n = length (cache_servers c) in
     if log_interval th \<noteq> 0 \<and> real_time req - last_log_otime th \<ge> log_interval th then
       (if length (bucket_stat c) < n then Inl Out_of_bounds
        else Inr (th\<lparr>last_log_otime := real_time req, log_rows := log_rows th @ [(real_time req, cluster_stat c)],
          bucket_rows := bucket_rows th @ [take n (bucket_stat c)],
          cache_cluster := c\<lparr>bucket_stat := replicate n zero_bucketStat @ drop n (bucket_stat c)\<rparr>\<rparr>))
     else Inr th)"

text \<open>One round of the loop of \<^verbatim>\<open>run\<close> before the next request is read.\<close>

definition thread_step ::
  "ht_ops \<Rightarrow> (u64 \<Rightarrow> u64) \<Rightarrow> ((nat \<times> nat \<times> int) list \<Rightarrow> int list) \<Rightarrow> request_t \<Rightarrow> cacheClusterThread \<Rightarrow>
   (cluster_hit_t \<times> request_t \<times> cacheClusterThread) result" where
  "thread_step H hash max_flow req th =
    rbind (update_availability hash max_flow req th) (\<lambda>th.
    let th = th\<lparr>vtime := vtime th + 1\<rparr> in
    rbind (cluster_get H req (cache_cluster th)) (\<lambda>(hit_result, req, c).
    rbind (write_log req (th\<lparr>cache_cluster := c\<rparr>)) (\<lambda>th. Inr (hit_result, req, th))))"

text \<open>The loop, with the results of the requests; every round but the last reads a record of the trace.\<close>

fun thread_loop ::
  "nat \<Rightarrow> ht_ops \<Rightarrow> csv_ops \<Rightarrow> (u8 list \<Rightarrow> u32) \<Rightarrow> (u64 \<Rightarrow> u64) \<Rightarrow> ((nat \<times> nat \<times> int) list \<Rightarrow> int list) \<Rightarrow> request_t \<Rightarrow>
   cacheClusterThread \<Rightarrow> (cluster_hit_t list \<times> cacheClusterThread) result" where
  "thread_loop 0 H csv g_quark hash max_flow req th = Inl Diverges"
| "thread_loop (Suc k) H csv g_quark hash max_flow req th =
    (if \<not> valid req then Inr ([], th)
     else
       rbind (thread_step H hash max_flow req th) (\<lambda>(hit_result, req, th).
       rbind (read_one_req csv g_quark (t_reader th) req) (\<lambda>(_, reader, req).
       rbind (thread_loop k H csv g_quark hash max_flow req (th\<lparr>t_reader := reader\<rparr>)) (\<lambda>(hits, th).
       Inr (hit_result # hits, th)))))"

definition thread_run ::
  "ht_ops \<Rightarrow> csv_ops \<Rightarrow> (u8 list \<Rightarrow> u32) \<Rightarrow> (u64 \<Rightarrow> u64) \<Rightarrow> ((nat \<times> nat \<times> int) list \<Rightarrow> int list) \<Rightarrow>
   cacheClusterThread \<Rightarrow> (cluster_hit_t list \<times> rep_factor \<times> cacheClusterThread) result" where
  "thread_run H csv g_quark hash max_flow th =
    rbind (read_one_req csv g_quark (t_reader th) new_request) (\<lambda>(_, reader, req).
    let req = (if obj_size req \<le> 0 then req\<lparr>obj_size := 100 * 1024\<rparr> else req);
        th = th\<lparr>t_reader := reader, cache_start_time := real_time req, last_cluster_unavailability_update := real_time req,
          last_log_otime := real_time req, last_rep_coef_log_otime := real_time req, prev_failed_servers := []\<rparr> in
    rbind (thread_loop (length (mapped_file reader) + 2) H csv g_quark hash max_flow req th) (\<lambda>(hits, th).
    rbind (find_rep_factor H (cache_cluster th)) (\<lambda>rep. Inr (hits, rep, th))))"

section \<open>Arguments and set-up\<close>

record simulator_arg_t =
  sa_trace_path :: string
  sa_cache_alg :: string
  trace_format_str :: string
  sa_trace_format :: trace_format_e
  sa_trace_type :: trace_type_e
  sa_obj_id_type :: obj_id_type_e
  reader_init_params :: reader_init_param_t
  sa_n_server :: nat
  server_cache_size :: u64
  sa_server_cache_sizes :: "u64 list"
  sa_server_weight :: "u32 list"
  cluster_mode_str :: string
  sa_cluster_mode :: cluster_mode_e
  sa_gutter_space :: rat
  sa_log_interval :: u64
  sa_check_one_more :: bool
  sa_parity_rebalance :: bool
  sa_EC_n :: u32
  sa_EC_k :: u32
  EC_size_threshold :: u32
  sa_admission :: u32
  failure_data :: "string list"

text \<open>The members \<^verbatim>\<open>default_sim_arg\<close> assigns; the parser assigns the others.\<close>

definition default_sim_arg :: "simulator_arg_t \<Rightarrow> simulator_arg_t" where
  "default_sim_arg a = a\<lparr>sa_EC_n := 0, sa_EC_k := 0, EC_size_threshold := 0, sa_admission := 0, sa_log_interval := 300,
     sa_gutter_space := 0, sa_cluster_mode := invalid_mode, sa_check_one_more := False, sa_parity_rebalance := False,
     sa_trace_type := BIN_TRACE,
     reader_init_params := \<lparr>ip_real_time_field = 1, ip_obj_id_field = 2, ip_obj_size_field = 3, ip_op_field = 0,
       ip_ttl_field = 0, ip_extra_field1 = 0, ip_extra_field2 = 0, binary_fmt = []\<rparr>\<rparr>"

text \<open>The sizes and weights of the servers: all alike, or a list whose sum has to fit the average
  (\<^verbatim>\<open>exit\<close> otherwise); one argument may hold the whole list. Differences are of type \<^verbatim>\<open>long\<close>.\<close>

definition set_cache_sizes :: "string \<Rightarrow> string list option \<Rightarrow> simulator_arg_t \<Rightarrow> simulator_arg_t result" where
  "set_cache_sizes avg sizes a =
    rbind (convert_size avg) (\<lambda>z.
    let n = sa_n_server a; a = a\<lparr>server_cache_size := z\<rparr> in
    case sizes of
      None \<Rightarrow> Inr (a\<lparr>sa_server_cache_sizes := replicate n z, sa_server_weight := replicate n 1\<rparr>)
    | Some ws \<Rightarrow>
        (let ws = (case ws of [w] \<Rightarrow> split_space w | _ \<Rightarrow> ws) in
         if length ws < n then Inl Out_of_bounds
         else
           rbind (rmap convert_size (take n ws)) (\<lambda>zs.
           let d = sint (sum_list zs - z * of_nat n) in
           if \<bar>d\<bar> > 1000 then Inl Aborted
           else Inr (a\<lparr>sa_server_cache_sizes := zs, sa_server_weight := map ucast zs\<rparr>))))"

text \<open>The modes with what \<^verbatim>\<open>prepare_arg\<close> asserts of \<open>n\<close> and \<open>k\<close>. The last of them sets the mode of the one
  before.\<close>

definition mode_of_str :: "string \<Rightarrow> u32 \<Rightarrow> u32 \<Rightarrow> cluster_mode_e result" where
  "mode_of_str s n k =
    (if s = ''no_rep'' then (if n = 1 \<and> k = 1 then Inr no_replication else Inl Assert_failed)
     else if s = ''two_rep_popularity'' then (if n = 2 \<and> k = 1 then Inr two_rep_popularity else Inl Assert_failed)
     else if s = ''two_rep_always'' then (if n = 2 \<and> k = 1 then Inr two_rep_always else Inl Assert_failed)
     else if s = ''three_rep_always'' then (if n = 3 \<and> k = 1 then Inr three_rep_always else Inl Assert_failed)
     else if s = ''C2DN'' then (if n > 2 \<and> k \<ge> 2 then Inr C2DN else Inl Assert_failed)
     else if s = ''C2DN_add_n'' then (if n > 2 \<and> k \<ge> 2 then Inr C2DN_add_n else Inl Assert_failed)
     else if s = ''C2DN_add_n_three_rep'' then (if n > 2 \<and> k \<ge> 2 then Inr C2DN_add_n else Inl Assert_failed)
     else Inl Assert_failed)"

text \<open>\<^verbatim>\<open>sim_arg->cluster_mode\<close> is \<^verbatim>\<open>invalid_mode\<close> before, so an unknown name fails the last assertion.\<close>

definition prepare_arg :: "simulator_arg_t \<Rightarrow> simulator_arg_t result" where
  "prepare_arg a =
    (if trace_format_str a \<noteq> ''akamai1b'' then Inl Aborted
     else
       rbind (mode_of_str (cluster_mode_str a) (sa_EC_n a) (sa_EC_k a)) (\<lambda>m.
       Inr (a\<lparr>sa_trace_format := akamai1b, sa_cluster_mode := m,
         reader_init_params := (reader_init_params a)\<lparr>binary_fmt := ''III''\<rparr>\<rparr>)))"

definition alg_of_str :: "string \<Rightarrow> cache_alg" where
  "alg_of_str s = (if s = ''lru'' then lru else if s = ''fifo'' then fifo else other_alg s)"

definition sim_server :: "ht_ops \<Rightarrow> simulator_arg_t \<Rightarrow> nat \<Rightarrow> cacheServer result" where
  "sim_server H a i =
    (if length (sa_server_cache_sizes a) \<le> i then Inl Out_of_bounds
     else new_cacheServer H \<lparr>sp_server_id = of_nat i, sp_cache_size = sa_server_cache_sizes a ! i,
       sp_cache_alg = alg_of_str (sa_cache_alg a), sp_EC_n = sa_EC_n a, sp_EC_k = sa_EC_k a, sp_gutter_space = sa_gutter_space a\<rparr>)"

definition sim_cluster ::
  "ht_ops \<Rightarrow> ((vnode_t \<Rightarrow> vnode_t \<Rightarrow> int) \<Rightarrow> vnode_t list \<Rightarrow> vnode_t list) \<Rightarrow> vnode_t list \<Rightarrow> (u64 \<Rightarrow> u64) \<Rightarrow>
   ((nat \<times> nat \<times> int) list \<Rightarrow> int list) \<Rightarrow> (nat \<Rightarrow> nat) \<Rightarrow> simulator_arg_t \<Rightarrow> cacheCluster result" where
  "sim_cluster H qsort raw hash max_flow rng a =
    rbind (rmap (sim_server H a) [0 ..< sa_n_server a]) (\<lambda>svs.
    new_cacheCluster qsort raw hash max_flow rng
      \<lparr>cluster_id = 1, trace_format = sa_trace_format a, p_cache_servers = svs, cp_n_server = sa_n_server a,
       p_server_cache_sizes = sa_server_cache_sizes a, server_weight = Some (sa_server_weight a), admission = sa_admission a,
       check_one_more = sa_check_one_more a, parity_rebalance = sa_parity_rebalance a, cluster_mode = sa_cluster_mode a\<rparr>
      \<lparr>ec_n = unat (sa_EC_n a), ec_k = unat (sa_EC_k a), size_threshold = EC_size_threshold a\<rparr>)"

definition sim_run ::
  "ht_ops \<Rightarrow> csv_ops \<Rightarrow> (u8 list \<Rightarrow> u32) \<Rightarrow> (string \<Rightarrow> u8 list option) \<Rightarrow> ((vnode_t \<Rightarrow> vnode_t \<Rightarrow> int) \<Rightarrow> vnode_t list \<Rightarrow> vnode_t list) \<Rightarrow>
   vnode_t list \<Rightarrow> (u64 \<Rightarrow> u64) \<Rightarrow> ((nat \<times> nat \<times> int) list \<Rightarrow> int list) \<Rightarrow> (nat \<Rightarrow> nat) \<Rightarrow> simulator_arg_t \<Rightarrow>
   (cluster_hit_t list \<times> rep_factor \<times> cacheClusterThread) result" where
  "sim_run H csv g_quark fs qsort raw hash max_flow rng a =
    rbind (setup_reader csv fs (sa_trace_path a) (sa_trace_type a) (sa_obj_id_type a) (reader_init_params a)) (\<lambda>reader.
    rbind (sim_cluster H qsort raw hash max_flow rng a) (\<lambda>c.
    rbind (new_cacheClusterThread c reader (failure_data a) (sa_log_interval a)) (\<lambda>th.
    thread_run H csv g_quark hash max_flow th)))"

end
