(* ===== verification/ClusterStats.thy ===== *)
theory ClusterStats
  imports Simulator SampleCluster ReaderProps
begin

text \<open>
  The counters of a cluster along a run: requests, hits, and hits by the kind of object. Nothing but
  \<^verbatim>\<open>cacheCluster::get\<close> itself counts; this holds for any hash table the servers use.
\<close>

definition counters :: "cacheCluster \<Rightarrow> u64 \<times> u64 \<times> u64 \<times> u64" where
  "counters c = (let st = cluster_stat c in (cluster_req_cnt st, cluster_hit_cnt st, full_obj_hit_cnt st, chunk_obj_hit_cnt st))"

named_theorems counters_simps \<open>steps that do not count\<close>

lemma counters_upd [counters_simps]:
  "counters (c\<lparr>read_load_byte := v\<rparr>) = counters c" "counters (c\<lparr>write_load_byte := v\<rparr>) = counters c"
  "counters (c\<lparr>bucket_stat := b\<rparr>) = counters c" "counters (c\<lparr>cache_servers := svs\<rparr>) = counters c"
  "counters (c\<lparr>obj_freq_map := m\<rparr>) = counters c" "counters (c\<lparr>rand_idx := i\<rparr>) = counters c"
  "counters (c\<lparr>cluster_check := k\<rparr>) = counters c" "counters (upd_check f c) = counters c"
  "counters (c\<lparr>ch_mapping := m1\<rparr>) = counters c" "counters (c\<lparr>prev_ch_mapping := m1\<rparr>) = counters c"
  "counters (c\<lparr>ori_lead_mapping := m2\<rparr>) = counters c" "counters (c\<lparr>n_bucket_per_server := v'\<rparr>) = counters c"
  by (simp_all add: counters_def upd_check_def)

lemma counters_stat [counters_simps]:
  "counters (upd_stat (\<lambda>st. st\<lparr>midgress_bytes := f st\<rparr>) c) = counters c"
  "counters (upd_stat (\<lambda>st. st\<lparr>intra_cluster_bytes := f st\<rparr>) c) = counters c"
  "counters (upd_stat (\<lambda>st. st\<lparr>n_miss := g st\<rparr>) c) = counters c"
  "counters (upd_stat (\<lambda>st. st\<lparr>n_avail_server := f st\<rparr>) c) = counters c"
  by (simp_all add: counters_def upd_stat_def Let_def)

text \<open>A step of the model that returns keeps the counters.\<close>

lemma load_counters [dest!]:
  "add_read_load d i c = Inr c' \<Longrightarrow> counters c' = counters c" "add_write_load d i c = Inr c' \<Longrightarrow> counters c' = counters c"
  by (auto simp: add_read_load_def add_write_load_def rbind_eq_Inr counters_simps)

lemma bucket_stat_counters [dest!]: "upd_bucket_stat f req c = Inr c' \<Longrightarrow> counters c' = counters c"
  by (auto simp: upd_bucket_stat_def Let_def counters_simps split: if_splits)

lemma on_server_counters [dest!]: "on_server f i c = Inr (a, c') \<Longrightarrow> counters c' = counters c"
  by (auto simp: on_server_def rbind_eq_Inr counters_simps split: if_splits)

lemma server_check_counters [dest!]: "server_check H i req c = Inr (a, c') \<Longrightarrow> counters c' = counters c"
  by (auto simp: server_check_def)

lemma server_chunk_id_counters [dest!]: "server_chunk_id H i req c = Inr (a, c') \<Longrightarrow> counters c' = counters c"
  by (auto simp: server_chunk_id_def)

lemma store_counters [dest!]:
  "store_full H ct i req c = Inr (req', c') \<Longrightarrow> counters c' = counters c"
  "store_chunk H ct j i req c = Inr (req', c') \<Longrightarrow> counters c' = counters c"
  by (auto simp: store_full_def store_chunk_def rbind_eq_Inr)

lemma store_full_all_counters [dest!]: "store_full_all H is req c = Inr (req', c') \<Longrightarrow> counters c' = counters c"
  by (induction "is" arbitrary: req c) (auto simp: rbind_eq_Inr)

lemma write_full_all_counters [dest!]: "write_full_all H is req c = Inr (req', c') \<Longrightarrow> counters c' = counters c"
  by (induction "is" arbitrary: req c) (auto simp: rbind_eq_Inr)

lemma write_chunk_all_counters [dest!]: "write_chunk_all H i is req c = Inr (req', c') \<Longrightarrow> counters c' = counters c"
  by (induction "is" arbitrary: i req c) (auto simp: rbind_eq_Inr)

lemma rand_counters [dest!]: "rand c = (r, c') \<Longrightarrow> counters c' = counters c"
  by (auto simp: rand_def counters_simps)

lemma select_counters [dest!]:
  "select_lead c = (i, c') \<Longrightarrow> counters c' = counters c" "select_second j c = (i, c') \<Longrightarrow> counters c' = counters c"
  by (auto simp: select_lead_def select_second_def Let_def split: if_splits prod.split_asm)

lemma find_mapped_servers_counters [dest!]:
  assumes "find_mapped_servers req c = Inr (ss, l, l', req', c')"
  shows "counters c' = counters c"
proof -
  obtain i c1 where l: "select_lead c = (i, c1)" by fastforce
  obtain j c2 where m: "select_second i c1 = (j, c2)" by fastforce
  have "counters c' = counters c2"
    using assms by (auto simp: find_mapped_servers_def l m Let_def rbind_eq_Inr counters_simps)
  then show ?thesis using l m by auto
qed

lemma should_admit_counters [dest!]: "should_admit req c = (b, c') \<Longrightarrow> counters c' = counters c"
  by (auto simp: should_admit_def get_freq_def Let_def counters_simps split: if_splits)

lemma note_type_counters [counters_simps]: "counters (note_type t c) = counters c"
  by (simp add: note_type_def counters_simps split: option.splits)

lemma find_lead_counters [dest!]:
  assumes "find_lead H l l' req c = Inr (f, a, req', c')"
  shows "counters c' = counters c"
proof -
  obtain x where x: "server_check H l req c = Inr x"
    using assms unfolding find_lead_def by (rule rbindE)
  obtain b t req1 c1 where "x = ((b, t, req1), c1)" by (cases x) auto
  with x have s: "server_check H l req c = Inr ((b, t, req1), c1)" by simp
  obtain d c2 where a: "should_admit req1 (note_type t c1) = (d, c2)" by fastforce
  have "counters c' = counters c2"
    using assms by (auto simp: find_lead_def s a Let_def rbind_eq_Inr counters_simps split: if_splits)
  moreover have "counters c2 = counters c1" using a by (auto simp: counters_simps)
  ultimately show ?thesis using s by auto
qed

lemma upd_check_params: "cluster_params (upd_check f c) = cluster_params c"
  by (simp add: upd_check_def)

lemma cache_hit_full_obj_counters [dest!]: "cache_hit_full_obj H req l ss c = Inr (req', c') \<Longrightarrow> counters c' = counters c"
  by (cases "cluster_mode (cluster_params c)")
    (auto simp: cache_hit_full_obj_def Let_def rbind_eq_Inr counters_simps upd_check_params rand_def split: if_splits)

lemma cache_miss_full_obj_counters [dest!]: "cache_miss_full_obj H req l ss c = Inr (req', c') \<Longrightarrow> counters c' = counters c"
  by (auto simp: cache_miss_full_obj_def Let_def rbind_eq_Inr split: if_splits)

lemma cache_miss_chunk_obj_counters [dest!]: "cache_miss_chunk_obj H req ss c = Inr (req', c') \<Longrightarrow> counters c' = counters c"
  unfolding cache_miss_chunk_obj_def Let_def by (auto elim!: rbindE simp: counters_simps split: if_splits)

lemma chunk_info_step_counters [dest!]:
  "chunk_info_step H d i s (req, f, c) = Inr (req', f', c') \<Longrightarrow> counters c' = counters c"
  by (auto simp: chunk_info_step_def Let_def rbind_eq_Inr split: if_splits)

lemma chunk_info_loop_counters [dest!]:
  "chunk_info_loop H d i ss (req, f, c) = Inr (req', f', c') \<Longrightarrow> counters c' = counters c"
  by (induction ss arbitrary: i req f c) (auto simp: rbind_eq_Inr)

lemma get_chunk_info_counters [dest!]:
  "get_chunk_info H d ss (req, f, c) = Inr (req', f', c') \<Longrightarrow> counters c' = counters c"
  by (auto simp: get_chunk_info_def rbind_eq_Inr)

lemma check_extra_counters [dest!]: "check_extra H s (req, f, c) = Inr (req', f', c') \<Longrightarrow> counters c' = counters c"
  by (auto simp: check_extra_def Let_def rbind_eq_Inr split: if_splits)

lemma check_extras_counters [dest!]: "check_extras H ss (req, f, c) = Inr (req', f', c') \<Longrightarrow> counters c' = counters c"
  by (induction ss arbitrary: req f c) (auto simp: rbind_eq_Inr)

lemma look_further_counters [dest!]: "look_further H ss (req, f, c) = Inr (req', f', c') \<Longrightarrow> counters c' = counters c"
  by (auto simp: look_further_def Let_def rbind_eq_Inr split: if_splits option.splits)

lemma report_chunks_counters [dest!]: "report_chunks H ss req c = Inr (req', c') \<Longrightarrow> counters c' = counters c"
  by (induction ss arbitrary: req c) (auto simp: rbind_eq_Inr split: if_splits)

lemma report_duplicates_counters [dest!]: "report_duplicates H (req, f, c) = Inr (req', f', c') \<Longrightarrow> counters c' = counters c"
  by (auto simp: report_duplicates_def Let_def rbind_eq_Inr split: if_splits)

lemma restore_chunks_counters [dest!]: "restore_chunks H f ss js i req c = Inr (req', c') \<Longrightarrow> counters c' = counters c"
  by (induction js arbitrary: i req c) (auto simp: rbind_eq_Inr split: if_splits)

lemma chunk_hit_stat_counters [dest!]: "chunk_hit_stat z req f c = Inr c' \<Longrightarrow> counters c' = counters c"
  by (auto simp: chunk_hit_stat_def Let_def rbind_eq_Inr counters_simps split: if_splits)

lemma look_further_if_counters [dest!]:
  "(if b then look_further H ss st else Inr st) = Inr (req', f', c') \<Longrightarrow> counters c' = counters (snd (snd st))"
  by (cases st) (auto split: if_splits)

lemma cache_hit_chunk_obj_counters [dest!]:
  assumes "cache_hit_chunk_obj H req ss c = Inr (req', c')"
  shows "counters c' = counters c"
proof (cases "ec_k (ec_params c) = 0")
  case False
  show ?thesis
    using assms unfolding cache_hit_chunk_obj_def Let_def if_not_P [OF False]
    apply (elim rbindE)
    apply (simp only: split_paired_all prod.case)
    apply (elim rbindE)
    apply (simp only: split_paired_all prod.case)
    apply (elim rbindE)
    apply (simp only: split_paired_all prod.case prod.inject sum.inject)
    apply (drule get_chunk_info_counters look_further_if_counters report_duplicates_counters restore_chunks_counters
      chunk_hit_stat_counters)+
    apply simp
    done
qed (use assms in \<open>simp add: cache_hit_chunk_obj_def\<close>)

lemma handle_hit_counters [dest!]: "handle_hit H s l ss req c = Inr (req', c') \<Longrightarrow> counters c' = counters c"
  unfolding handle_hit_def Let_def by (auto elim!: rbindE split: if_split_asm split del: if_split)

lemma handle_miss_counters [dest!]:
  assumes "handle_miss H a l ss req c = Inr (req', c')"
  shows "counters c' = counters c"
proof -
  let ?c = "upd_stat (\<lambda>st. st\<lparr>midgress_bytes := midgress_bytes st + obj_size req\<rparr>) c"
  obtain c1 where c1: "upd_bucket_stat (\<lambda>b. b\<lparr>b_midgress := b_midgress b + obj_size req\<rparr>) req ?c = Inr c1"
    using assms unfolding handle_miss_def Let_def by (rule rbindE)
  have "counters c' = counters c1"
    using assms unfolding handle_miss_def Let_def c1 rbind_simps
    by (auto elim!: rbindE split: if_split_asm split del: if_split)
  then show ?thesis using bucket_stat_counters [OF c1] by (simp add: counters_simps)
qed

section \<open>One request\<close>

text \<open>What a request adds to the counters, by its result.\<close>

definition counted :: "cluster_hit_t \<Rightarrow> u64 \<times> u64 \<times> u64 \<times> u64 \<Rightarrow> u64 \<times> u64 \<times> u64 \<times> u64" where
  "counted k = (\<lambda>(r, h, f, g). (r + 1, h + of_bool (is_hit k), f + of_bool (is_hit k \<and> obj_type k = full_obj),
     g + of_bool (is_hit k \<and> obj_type k = chunk_obj)))"

definition hit_typed :: "cluster_hit_t \<Rightarrow> bool" where
  "hit_typed k \<longleftrightarrow> is_hit k \<longrightarrow> obj_type k = full_obj \<or> obj_type k = chunk_obj"

lemma bucket_stat_check: "upd_bucket_stat f req c = Inr c' \<Longrightarrow> cluster_check c' = cluster_check c"
  by (auto simp: upd_bucket_stat_def Let_def split: if_splits)

lemma count_hit_counters:
  assumes "count_hit req c = Inr c'" "counters c = (r + 1, h, f, g)"
  shows "counters c' = counted (cluster_check c') (r, h, f, g)" "hit_typed (cluster_check c')"
proof -
  have t: "full_obj \<noteq> chunk_obj" by (simp add: full_obj_def chunk_obj_def)
  have *: "counters c' = counted (cluster_check c') (r, h, f, g) \<and> hit_typed (cluster_check c')"
  proof (cases "is_hit (cluster_check c)")
    case True
    let ?c = "upd_stat (\<lambda>st. st\<lparr>cluster_hit_cnt := cluster_hit_cnt st + 1,
              cluster_hit_bytes := cluster_hit_bytes st + obj_size req\<rparr>) c"
    obtain c1 where c1: "upd_bucket_stat (\<lambda>b. b\<lparr>b_hit_cnt := b_hit_cnt b + 1\<rparr>) req ?c = Inr c1"
      using assms(1) True by (cases "upd_bucket_stat (\<lambda>b. b\<lparr>b_hit_cnt := b_hit_cnt b + 1\<rparr>) req ?c")
        (simp_all add: count_hit_def Let_def split: if_split_asm)
    have k: "counters c1 = (r + 1, h + 1, f, g)" "cluster_check c1 = cluster_check c"
      using bucket_stat_counters [OF c1] bucket_stat_check [OF c1] assms(2) by (simp_all add: counters_def upd_stat_def Let_def)
    show ?thesis
      using assms(1) True k t unfolding count_hit_def Let_def c1 rbind_simps
      by (auto simp: counted_def hit_typed_def counters_def upd_stat_def Let_def split: if_split_asm)
  qed (use assms in \<open>auto simp: count_hit_def counted_def hit_typed_def\<close>)
  then show "counters c' = counted (cluster_check c') (r, h, f, g)" "hit_typed (cluster_check c')" by auto
qed

lemma cluster_get_counters:
  assumes "cluster_get H req c = Inr (k, req', c')"
  shows "counters c' = counted k (counters c)" "hit_typed k"
proof -
  obtain r h f g where c: "counters c = (r, h, f, g)" by (cases "counters c") auto
  let ?c = "c\<lparr>cluster_check := start_check\<rparr>"
  obtain x where x: "find_mapped_servers req ?c = Inr x" using assms unfolding cluster_get_def Let_def by (rule rbindE)
  obtain ss l l' req1 c1 where "x = (ss, l, l', req1, c1)" by (cases x) auto
  with x have m: "find_mapped_servers req ?c = Inr (ss, l, l', req1, c1)" by simp
  let ?c1 = "upd_stat (\<lambda>st. st\<lparr>cluster_req_cnt := cluster_req_cnt st + 1, cluster_req_bytes := cluster_req_bytes st + obj_size req1\<rparr>) c1"
  have "counters ?c1 = (r + 1, h, f, g)"
    using find_mapped_servers_counters [OF m] c by (auto simp: counters_def upd_stat_def Let_def)
  moreover obtain c2 where b: "upd_bucket_stat (\<lambda>b. b\<lparr>b_req_cnt := b_req_cnt b + 1, b_req_byte := b_req_byte b + obj_size req1\<rparr>) req1 ?c1 = Inr c2"
    using assms unfolding cluster_get_def Let_def m rbind_simps prod.case by (rule rbindE)
  moreover obtain y where y: "find_lead H l l' req1 c2 = Inr y"
    using assms unfolding cluster_get_def Let_def m b rbind_simps prod.case by (rule rbindE)
  moreover obtain fd a req2 c3 where y': "y = (fd, a, req2, c3)" by (cases y) auto
  ultimately have c3: "counters c3 = (r + 1, h, f, g)" by auto
  note L = y [unfolded y']
  obtain z where z: "(case fd of Some s \<Rightarrow> handle_hit H s l ss req2 c3 | None \<Rightarrow> handle_miss H a l ss req2 c3) = Inr z"
    using assms unfolding cluster_get_def Let_def m b L rbind_simps prod.case by (rule rbindE)
  obtain req3 c4 where z': "z = (req3, c4)" by fastforce
  have n: "rbind (count_hit req3 c4) (\<lambda>c. Inr (cluster_check c, req3, c)) = Inr (k, req', c')"
    using assms unfolding cluster_get_def Let_def m b L z z' rbind_simps prod.case .
  have "counters c4 = (r + 1, h, f, g)" using z z' c3 by (auto split: option.splits)
  from count_hit_counters [OF _ this] n show "counters c' = counted k (counters c)" "hit_typed k"
    unfolding c by (auto elim!: rbindE)
qed

section \<open>A run\<close>

lemma count_bucket_results: "map_bucket hash b cap c = Inr (cap', c') \<Longrightarrow> counters c' = counters c"
  by (auto simp: map_bucket_def rbind_eq_Inr counters_simps)

lemma map_buckets_counters [dest!]: "map_buckets hash bs cap c = Inr c' \<Longrightarrow> counters c' = counters c"
  by (induction bs arbitrary: cap c) (auto simp: rbind_eq_Inr dest!: count_bucket_results)

lemma add_parities_counters [dest!]: "add_parities as c = Inr c' \<Longrightarrow> counters c' = counters c"
  by (induction as arbitrary: c) (auto simp: add_parity_def Let_def rbind_eq_Inr counters_simps split: option.splits if_splits)

lemma populate_counters [dest!]: "populate_hash_mapping hash mf c = Inr c' \<Longrightarrow> counters c' = counters c"
  by (auto simp: populate_hash_mapping_def find_parity_mapping_def Let_def rbind_eq_Inr counters_simps split: if_splits)

lemma recover_servers_counters [dest!]: "recover_servers is c = Inr c' \<Longrightarrow> counters c' = counters c"
  by (induction "is" arbitrary: c)
    (auto simp: recover_one_server_def reset_consistent_hash_mapping_def Let_def rbind_eq_Inr counters_simps split: if_splits)

lemma fail_servers_counters [dest!]: "fail_servers is c = Inr c' \<Longrightarrow> counters c' = counters c"
  by (induction "is" arbitrary: c)
    (auto simp: fail_one_server_def reset_consistent_hash_mapping_def Let_def rbind_eq_Inr counters_simps)

lemma apply_failures_counters [dest!]: "apply_failures hash mf fs c = Inr c' \<Longrightarrow> counters c' = counters c"
  by (auto simp: apply_failures_def rbind_eq_Inr)

lemma update_availability_counters [dest!]:
  "update_availability hash mf req th = Inr th' \<Longrightarrow> counters (cache_cluster th') = counters (cache_cluster th)"
  by (auto simp: update_availability_def rbind_eq_Inr split: list.splits if_splits)

lemma write_log_counters [dest!]: "write_log req th = Inr th' \<Longrightarrow> counters (cache_cluster th') = counters (cache_cluster th)"
  by (auto simp: write_log_def Let_def counters_simps split: if_splits)

lemma thread_step_counters:
  assumes "thread_step H hash mf req th = Inr (k, req', th')"
  shows "counters (cache_cluster th') = counted k (counters (cache_cluster th)) \<and> hit_typed k"
  using assms unfolding thread_step_def Let_def
  by (auto elim!: rbindE dest: cluster_get_counters)

lemma thread_loop_counters:
  "thread_loop n H csv g hash mf req th = Inr (hits, th') \<Longrightarrow>
   counters (cache_cluster th') = fold counted hits (counters (cache_cluster th)) \<and> (\<forall>k \<in> set hits. hit_typed k)"
proof (induction n arbitrary: req th hits)
  case (Suc n)
  show ?case
  proof (cases "valid req")
    case True
    obtain x where x: "thread_step H hash mf req th = Inr x" using Suc.prems True unfolding thread_loop.simps by (auto elim!: rbindE)
    obtain k req1 th1 where x': "x = (k, req1, th1)" by (cases x) auto
    obtain reader req2 hits2 where "thread_loop n H csv g hash mf req2 (th1\<lparr>t_reader := reader\<rparr>) = Inr (hits2, th')" "hits = k # hits2"
      using Suc.prems True x x' by (auto elim!: rbindE)
    from Suc.IH [OF this(1)] this(2) thread_step_counters [OF x [unfolded x']] show ?thesis by simp
  qed (use Suc.prems in simp)
qed simp

lemma fold_counted:
  "fold counted ks (r, h, f, g) =
     (r + of_nat (length ks), h + of_nat (length (filter is_hit ks)),
      f + of_nat (length (filter (\<lambda>k. is_hit k \<and> obj_type k = full_obj) ks)),
      g + of_nat (length (filter (\<lambda>k. is_hit k \<and> obj_type k = chunk_obj) ks)))"
  by (induction ks arbitrary: r h f g) (simp_all add: counted_def)

lemma hits_by_type:
  "\<forall>k \<in> set ks. hit_typed k \<Longrightarrow>
   length (filter is_hit ks) = length (filter (\<lambda>k. is_hit k \<and> obj_type k = full_obj) ks) +
     length (filter (\<lambda>k. is_hit k \<and> obj_type k = chunk_obj) ks)"
  by (induction ks) (auto simp: hit_typed_def full_obj_def chunk_obj_def)

text \<open>
  (C10) A run of the cluster thread that comes to its end has counted every request it handled and
  every hit, and each hit as the hit of a full object or of a chunked one; failures and recoveries of
  servers on the way change no counter.
\<close>

theorem thread_run_counts:
  assumes "thread_run H csv g_quark hash max_flow th = Inr (hits, rep, th')"
  defines "st \<equiv> cluster_stat (cache_cluster th)" and "st' \<equiv> cluster_stat (cache_cluster th')"
  shows "cluster_req_cnt st' = cluster_req_cnt st + of_nat (length hits) \<and>
    cluster_hit_cnt st' = cluster_hit_cnt st + of_nat (length (filter is_hit hits)) \<and>
    full_obj_hit_cnt st' = full_obj_hit_cnt st + of_nat (length (filter (\<lambda>k. is_hit k \<and> obj_type k = full_obj) hits)) \<and>
    chunk_obj_hit_cnt st' = chunk_obj_hit_cnt st + of_nat (length (filter (\<lambda>k. is_hit k \<and> obj_type k = chunk_obj) hits)) \<and>
    (full_obj_hit_cnt st' - full_obj_hit_cnt st) + (chunk_obj_hit_cnt st' - chunk_obj_hit_cnt st) =
      cluster_hit_cnt st' - cluster_hit_cnt st"
proof -
  obtain n req reader t0 where
    l: "thread_loop n H csv g_quark hash max_flow req (th\<lparr>t_reader := reader, cache_start_time := t0,
       last_cluster_unavailability_update := t0, last_log_otime := t0, last_rep_coef_log_otime := t0, prev_failed_servers := []\<rparr>) = Inr (hits, th')"
    using assms(1) unfolding thread_run_def Let_def by (auto elim!: rbindE simp del: thread_loop.simps)
  from thread_loop_counters [OF l]
  have "counters (cache_cluster th') = fold counted hits (counters (cache_cluster th))" "\<forall>k \<in> set hits. hit_typed k" by auto
  with hits_by_type [of hits] show ?thesis
    by (auto simp: counters_def Let_def st_def st'_def fold_counted)
qed

text \<open>A run of the sample cluster over a trace.\<close>

definition sample_run ::
  "(u32 \<times> u32 \<times> u32) list \<Rightarrow> cluster_mode_e \<Rightarrow>
   (cacheClusterThread \<times> cluster_hit_t list \<times> rep_factor \<times> cacheClusterThread) result" where
  "sample_run recs m =
    rbind (setup_reader no_csv [''t'' \<mapsto> akamai_trace recs] ''t'' BIN_TRACE OBJ_ID_NUM akamai_params) (\<lambda>reader.
    rbind (new_cacheClusterThread (sample_cluster (\<lambda>x. x) m) reader [] 300) (\<lambda>th.
    rbind (thread_run (hashtable_ver1 (\<lambda>x. x)) no_csv (\<lambda>_. 0) (\<lambda>x. x) (\<lambda>_. []) th) (\<lambda>r. Inr (th, r))))"

theorem thread_run_counts_witness:
  "\<exists>th hits rep th'. thread_run (hashtable_ver1 (\<lambda>x. x)) no_csv (\<lambda>_. 0) (\<lambda>x. x) (\<lambda>_. []) th = Inr (hits, rep, th') \<and>
     map is_hit hits = [False, True] \<and> cluster_req_cnt (cluster_stat (cache_cluster th')) = 2 \<and>
     cluster_hit_cnt (cluster_stat (cache_cluster th')) = 1"
proof -
  have "case sample_run [(5, 70, 30), (7, 70, 30)] no_replication of Inl e \<Rightarrow> False
    | Inr (th, hits, rep, th') \<Rightarrow> map is_hit hits = [False, True] \<and> cluster_req_cnt (cluster_stat (cache_cluster th)) = 0 \<and>
        cluster_hit_cnt (cluster_stat (cache_cluster th)) = 0"
    by code_simp
  then obtain th hits rep th' where r: "thread_run (hashtable_ver1 (\<lambda>x. x)) no_csv (\<lambda>_. 0) (\<lambda>x. x) (\<lambda>_. []) th = Inr (hits, rep, th')"
    and h: "map is_hit hits = [False, True]" and z: "cluster_req_cnt (cluster_stat (cache_cluster th)) = 0"
      "cluster_hit_cnt (cluster_stat (cache_cluster th)) = 0"
    by (auto simp: sample_run_def rbind_eq_Inr split: sum.splits prod.splits)
  from h obtain k k' where "hits = [k, k']" "\<not> is_hit k" "is_hit k'" by (auto simp: map_eq_Cons_conv)
  with thread_run_counts [OF r] z have "cluster_req_cnt (cluster_stat (cache_cluster th')) = 2"
    "cluster_hit_cnt (cluster_stat (cache_cluster th')) = 1" by auto
  with r h show ?thesis by (intro exI [of _ th] exI [of _ hits] exI [of _ rep] exI [of _ th'] conjI)
qed

end
