(* ===== verification/SimulatorProps.thy ===== *)
theory SimulatorProps
  imports Simulator ClusterMapping
begin

text \<open>
  Failures and recoveries of servers, as the cluster thread applies them from its schedule: which
  servers are available afterwards, and what the mapping of the buckets and the former mapping are.
\<close>

section \<open>One server\<close>

definition flip :: "nat \<Rightarrow> bool \<Rightarrow> cacheCluster \<Rightarrow> cacheCluster" where
  "flip i b c = upd_stat (\<lambda>st. st\<lparr>n_avail_server := n_avail_server st + (if b then 1 else - 1)\<rparr>)
     ((reset_consistent_hash_mapping c)\<lparr>cache_servers := (cache_servers c)[i := (cache_servers c ! i)\<lparr>available := b\<rparr>]\<rparr>)"

abbreviation up :: "cacheCluster \<Rightarrow> nat \<Rightarrow> bool" where
  "up c i \<equiv> available (cache_servers c ! i)"

lemma fail_one_flip:
  "unat i < length (cache_servers c) \<Longrightarrow> fail_one_server i c = Inr (False, flip (unat i) False c)"
  by (simp add: fail_one_server_def on_server_def reset_consistent_hash_mapping_def flip_def upd_stat_def set_unavailable_def Let_def)

lemma recover_one_flip:
  "unat i < length (cache_servers c) \<Longrightarrow>
   recover_one_server i c = Inr (True, if up c (unat i) then c else flip (unat i) True c)"
  by (simp add: recover_one_server_def on_server_def reset_consistent_hash_mapping_def flip_def upd_stat_def set_available_def Let_def)

section \<open>Several servers\<close>

text \<open>The difference between the number of servers the statistics have as available and their number.\<close>

definition avail_diff :: "cacheCluster \<Rightarrow> u64" where
  "avail_diff c = n_avail_server (cluster_stat c) - of_nat (length (filter available (cache_servers c)))"

text \<open>After \<open>k\<close> changes of the availability, which is now \<open>A\<close>. Every change makes the mapping the former
  one and clears it.\<close>

definition toggled :: "nat \<Rightarrow> (nat \<Rightarrow> bool) \<Rightarrow> cacheCluster \<Rightarrow> cacheCluster \<Rightarrow> bool" where
  "toggled k A c c' \<longleftrightarrow> ring c' = ring c \<and> cluster_params c' = cluster_params c \<and> ec_params c' = ec_params c \<and>
     length (cache_servers c') = length (cache_servers c) \<and>
     (\<forall>i < length (cache_servers c). cache_servers c' ! i = (cache_servers c ! i)\<lparr>available := A i\<rparr>) \<and>
     avail_diff c' = avail_diff c \<and>
     ch_mapping c' = (if k = 0 then ch_mapping c else Map.empty) \<and>
     prev_ch_mapping c' = (if k = 0 then prev_ch_mapping c else if k = 1 then ch_mapping c else Map.empty)"

lemma toggled_refl: "(\<And>i. i < length (cache_servers c) \<Longrightarrow> A i = up c i) \<Longrightarrow> toggled 0 A c c"
  by (simp add: toggled_def)

lemma toggled_trans: "toggled k A c c1 \<Longrightarrow> toggled l B c1 c2 \<Longrightarrow> toggled (k + l) B c c2"
  by (auto simp: toggled_def split: if_splits)

lemma toggled_cong: "toggled k A c c' \<Longrightarrow> (\<And>i. i < length (cache_servers c) \<Longrightarrow> A i = B i) \<Longrightarrow> toggled k B c c'"
  by (simp add: toggled_def)

lemma toggled_flip:
  assumes "i < length (cache_servers c)" "b \<noteq> up c i"
  shows "toggled 1 (\<lambda>j. if j = i then b else up c j) c (flip i b c)"
proof -
  let ?n = "length (filter available (cache_servers c))"
    and ?n' = "length (filter available ((cache_servers c)[i := (cache_servers c ! i)\<lparr>available := b\<rparr>]))"
  have "?n' + of_bool (up c i) = ?n + of_bool b"
    using filter_update [of i "cache_servers c" available "(cache_servers c ! i)\<lparr>available := b\<rparr>"] assms by simp
  then have "(of_nat ?n' + of_bool (up c i) :: u64) = of_nat ?n + of_bool b" by (metis of_nat_add of_nat_of_bool)
  then have "(of_nat ?n' :: u64) = of_nat ?n + (if b then 1 else - 1)" using assms(2) by (auto simp: eq_diff_eq)
  then show ?thesis
    by (simp add: toggled_def flip_def upd_stat_def reset_consistent_hash_mapping_def nth_list_update avail_diff_def)
qed

lemma fail_servers_toggled:
  assumes "length (cache_servers c) < 2 ^ 32" "distinct is" "\<forall>i \<in> set is. 0 \<le> i \<and> nat i < length (cache_servers c) \<and> up c (nat i)"
  shows "\<exists>c'. fail_servers is c = Inr c' \<and> toggled (length is) (\<lambda>i. up c i \<and> int i \<notin> set is) c c'"
  using assms
proof (induction "is" arbitrary: c)
  case (Cons i "is")
  let ?c = "flip (nat i) False c"
  have "unat (of_int i :: u32) = nat i" using Cons.prems by (simp add: unat_of_nat flip: of_nat_nat)
  then have f: "fail_one_server (of_int i) c = Inr (False, ?c)" using fail_one_flip [of "of_int i" c] Cons.prems by simp
  have t: "toggled 1 (\<lambda>j. if j = nat i then False else up c j) c ?c" using toggled_flip [of "nat i" c False] Cons.prems by simp
  then have u: "length (cache_servers ?c) = length (cache_servers c)"
    "\<And>j. j < length (cache_servers c) \<Longrightarrow> up ?c j = (j \<noteq> nat i \<and> up c j)" by (auto simp: toggled_def)
  have "nat j \<noteq> nat i" if "j \<in> set is" for j using that Cons.prems by (metis distinct.simps(2) eq_nat_nat_iff list.set_intros)
  then obtain c' where c': "fail_servers is ?c = Inr c'" "toggled (length is) (\<lambda>i. up ?c i \<and> int i \<notin> set is) ?c c'"
    using Cons.IH [of ?c] Cons.prems by (auto simp: u)
  have "toggled (Suc (length is)) (\<lambda>j. up c j \<and> int j \<notin> set (i # is)) c c'"
    using Cons.prems(3) by (intro toggled_cong [OF toggled_trans [OF t c'(2), unfolded plus_1_eq_Suc]]) (auto simp: u)
  then show ?case using f c'(1) by auto
qed (simp add: toggled_refl)

lemma recover_servers_toggled:
  assumes "length (cache_servers c) < 2 ^ 32" "distinct is" "\<forall>i \<in> set is. i < length (cache_servers c)"
  shows "\<exists>c'. recover_servers is c = Inr c' \<and> toggled (length (filter (\<lambda>i. \<not> up c i) is)) (\<lambda>i. up c i \<or> i \<in> set is) c c'"
  using assms
proof (induction "is" arbitrary: c)
  case (Cons i "is")
  let ?c = "if up c i then c else flip i True c" and ?k = "if up c i then 0 else 1 :: nat"
  have "unat (of_nat i :: u32) = i" using Cons.prems by (simp add: unat_of_nat)
  then have f: "recover_one_server (of_nat i) c = Inr (True, ?c)" using recover_one_flip [of "of_nat i" c] Cons.prems by simp
  have t: "toggled ?k (\<lambda>j. up c j \<or> j = i) c ?c"
    using toggled_flip [of i c True] Cons.prems by (auto simp: toggled_def)
  then have u: "length (cache_servers ?c) = length (cache_servers c)"
    "\<And>j. j < length (cache_servers c) \<Longrightarrow> up ?c j = (up c j \<or> j = i)" by (auto simp: toggled_def)
  obtain c' where c': "recover_servers is ?c = Inr c'"
    "toggled (length (filter (\<lambda>i. \<not> up ?c i) is)) (\<lambda>i. up ?c i \<or> i \<in> set is) ?c c'"
    using Cons.IH [of ?c] Cons.prems by (auto simp: u)
  have "filter (\<lambda>i. \<not> up ?c i) is = filter (\<lambda>i. \<not> up c i) is" using Cons.prems u(2) by (intro filter_cong) auto
  then have "toggled (length (filter (\<lambda>i. \<not> up c i) (i # is))) (\<lambda>j. up c j \<or> j \<in> set (i # is)) c c'"
    using toggled_trans [OF t c'(2)] by (auto simp: toggled_def u)
  then show ?case using f c'(1) by auto
qed (simp add: toggled_refl)

section \<open>A line of the schedule\<close>

definition all_available :: "cacheCluster \<Rightarrow> cacheCluster" where
  "all_available c = c\<lparr>cache_servers := map set_available (cache_servers c)\<rparr>"

lemma servers_with_failures:
  assumes "length (cache_servers c) < 2 ^ 32" "distinct fs" "\<forall>i \<in> set fs. 0 \<le> i \<and> nat i < length (cache_servers c)"
  obtains c1 c2 where "recover_servers [0 ..< length (cache_servers c)] c = Inr c1" "fail_servers fs c1 = Inr c2"
    "toggled (length (filter (Not \<circ> available) (cache_servers c)) + length fs) (\<lambda>i. int i \<notin> set fs) c c2"
proof -
  let ?N = "length (cache_servers c)"
  have k: "length (filter (\<lambda>i. \<not> up c i) [0 ..< ?N]) = length (filter (Not \<circ> available) (cache_servers c))"
    using arg_cong [OF map_nth [of "cache_servers c"], of "\<lambda>xs. length (filter (Not \<circ> available) xs)"]
    by (simp add: filter_map comp_def)
  obtain c1 where c1: "recover_servers [0 ..< ?N] c = Inr c1"
    "toggled (length (filter (Not \<circ> available) (cache_servers c))) (\<lambda>i. up c i \<or> i \<in> set [0 ..< ?N]) c c1"
    using recover_servers_toggled [OF assms(1), of "[0 ..< ?N]"] k by auto
  have u: "length (cache_servers c1) = ?N" "\<And>i. i < ?N \<Longrightarrow> up c1 i" using c1(2) by (auto simp: toggled_def)
  obtain c2 where c2: "fail_servers fs c1 = Inr c2" "toggled (length fs) (\<lambda>i. up c1 i \<and> int i \<notin> set fs) c1 c2"
    using fail_servers_toggled [of c1 fs] assms u by auto
  have "toggled (length (filter (Not \<circ> available) (cache_servers c)) + length fs) (\<lambda>i. int i \<notin> set fs) c c2"
    using toggled_trans [OF c1(2) c2(2)] u by (auto simp: toggled_def)
  then show thesis using that c1(1) c2(1) by blast
qed

lemma toggled_up_count:
  assumes "toggled k (\<lambda>i. int i \<notin> set fs) c c'" "distinct fs" "\<forall>i \<in> set fs. 0 \<le> i \<and> nat i < length (cache_servers c)"
  shows "length (filter available (cache_servers c')) = length (cache_servers c) - length fs"
proof -
  let ?N = "length (cache_servers c)"
  have "length (filter available (cache_servers c')) = card {i. i < ?N \<and> int i \<notin> set fs}"
    using assms(1) unfolding length_filter_conv_card by (intro arg_cong [of _ _ card]) (auto simp: toggled_def)
  also have "{i. i < ?N \<and> int i \<notin> set fs} = {..< ?N} - nat ` set fs" using assms(3) by (auto simp: image_iff) (metis nat_int)
  also have "card \<dots> = ?N - card (nat ` set fs)" using assms(3) by (subst card_Diff_subset) auto
  also have "card (nat ` set fs) = length fs"
    using assms(2,3) by (subst card_image) (auto simp: inj_on_def distinct_card eq_nat_nat_iff)
  finally show ?thesis .
qed


text \<open>Server 2 of a cluster with one copy per object fails.\<close>

definition one_copy_cluster :: cacheCluster where
  "one_copy_cluster = (sample_cluster (\<lambda>x. x) no_replication)\<lparr>ec_params := \<lparr>ec_n = 1, ec_k = 1, size_threshold = 5\<rparr>\<rparr>"


end
