(* ===== verification/ReplicatedCluster.thy ===== *)
theory ReplicatedCluster
  imports ClusterProps
begin

text \<open>
  A request to a cluster that keeps full copies: the modes without replication, with two copies and
  with three. On the abstract states of the servers it is a look-up in one or two of them and a
  request to each of the servers that keep a copy; no assertion fails and nothing is out of bounds.
\<close>

section \<open>What a request keeps\<close>

definition kept :: "cacheCluster \<Rightarrow> cacheCluster \<Rightarrow> bool" where
  "kept c c' \<longleftrightarrow> ec_params c' = ec_params c \<and> cluster_params c' = cluster_params c \<and> ch_mapping c' = ch_mapping c \<and>
     ori_lead_mapping c' = ori_lead_mapping c \<and> length (bucket_stat c') = length (bucket_stat c) \<and>
     list_all2 same_server (cache_servers c) (cache_servers c') \<and>
     length (read_load_byte c') = length (read_load_byte c) \<and> length (write_load_byte c') = length (write_load_byte c)"

lemma kept_trans: "kept a b \<Longrightarrow> kept b c \<Longrightarrow> kept a c"
  by (auto simp: kept_def intro: list_all2_trans [OF same_server_trans])

lemma kept_frame: "frame c c' \<Longrightarrow> kept c c'"
  using frameD [of c c'] frame_lead [of c c'] by (simp add: kept_def)

lemma kept_upd [simp]:
  "kept c c" "kept c (upd_stat f c)" "kept c (upd_check g c)" "kept c (c\<lparr>rand_idx := i\<rparr>)" "kept c (c\<lparr>obj_freq_map := m\<rparr>)"
  "kept c (c\<lparr>cluster_check := k\<rparr>)"
  by (simp_all add: kept_def upd_stat_def upd_check_def list.rel_refl)

lemma kept_server: "kept c c' \<Longrightarrow> i < length (cache_servers c) \<Longrightarrow> same_server (cache_servers c ! i) (cache_servers c' ! i)"
  unfolding kept_def by (metis list_all2_nthD)

lemma kept_length: "kept c c' \<Longrightarrow> length (cache_servers c') = length (cache_servers c)"
  by (auto simp: kept_def dest: list_all2_lengthD)

lemma server_ok_kept: "kept c c' \<Longrightarrow> server_ok c' z s \<longleftrightarrow> server_ok c z s"
  using kept_length [of c c'] kept_server [of c c' "unat s"] by (auto simp: server_ok_def same_server_def kept_def)

lemma size_at_kept: "kept c c' \<Longrightarrow> unat s < length (cache_servers c) \<Longrightarrow> size_at c' s = size_at c s"
  using kept_server [of c c' "unat s"] by (simp add: same_server_def)

lemma cluster_rep_upd [simp]:
  "cluster_rep hash (upd_stat f c) S = cluster_rep hash c S" "cluster_rep hash (upd_check g c) S = cluster_rep hash c S"
  "cluster_rep hash (c\<lparr>rand_idx := i\<rparr>) S = cluster_rep hash c S" "cluster_rep hash (c\<lparr>obj_freq_map := m\<rparr>) S = cluster_rep hash c S"
  "cluster_rep hash (c\<lparr>cluster_check := k\<rparr>) S = cluster_rep hash c S" "cluster_rep hash (c\<lparr>bucket_stat := b\<rparr>) S = cluster_rep hash c S"
  by (simp_all add: cluster_rep_def upd_stat_def upd_check_def)

lemma upd_check_simps [simp]:
  "cluster_check (upd_check g c) = g (cluster_check c)" "cluster_check (upd_stat f c) = cluster_check c"
  "obj_freq_map (upd_check g c) = obj_freq_map c" "obj_freq_map (upd_stat f c) = obj_freq_map c"
  "cluster_params (upd_check g c) = cluster_params c" "cluster_params (upd_stat f c) = cluster_params c"
  "ec_params (upd_check g c) = ec_params c" "ec_params (upd_stat f c) = ec_params c"
  by (simp_all add: upd_check_def upd_stat_def)

lemma upd_bucket_stat_correct:
  assumes "unat (original_server req) < length (bucket_stat c)" "cluster_rep hash c S"
  obtains c' where "upd_bucket_stat f req c = Inr c'" "kept c c'" "cluster_rep hash c' S" "cluster_check c' = cluster_check c"
    "obj_freq_map c' = obj_freq_map c"
proof -
  let ?c = "c\<lparr>bucket_stat := (bucket_stat c)[unat (original_server req) := f (bucket_stat c ! unat (original_server req))]\<rparr>"
  show thesis using assms by (intro that [of ?c]) (simp_all add: upd_bucket_stat_def kept_def list.rel_refl Let_def)
qed

section \<open>Full copies\<close>

definition full_tags :: "aserver list \<Rightarrow> bool" where
  "full_tags S \<longleftrightarrow> (\<forall>A \<in> set S. \<forall>k. cached k (fst A) \<longrightarrow> metadata_u8 0 (snd A k) = full_obj)"

definition store_copy :: "cacheCluster \<Rightarrow> obj_id_t \<times> u32 \<Rightarrow> u32 \<Rightarrow> aserver list \<Rightarrow> aserver list" where
  "store_copy c x s S = S[unat s := stored (size_at c s) (set_metadata_u8 0 full_obj) x (S ! unat s)]"

abbreviation store_copies :: "cacheCluster \<Rightarrow> obj_id_t \<times> u32 \<Rightarrow> u32 list \<Rightarrow> aserver list \<Rightarrow> aserver list" where
  "store_copies c x \<equiv> fold (store_copy c x)"

lemma length_store_copies [simp]: "length (store_copies c x ss S) = length S"
  by (induction ss arbitrary: S) (simp_all add: store_copy_def)

lemma full_tags_stored: "full_tags S \<Longrightarrow> full_tags (store_copy c x s S)"
proof -
  assume f: "full_tags S"
  have "cached k (fst (stored n (set_metadata_u8 0 full_obj) x (S ! unat s))) \<longrightarrow>
      metadata_u8 0 (snd (stored n (set_metadata_u8 0 full_obj) x (S ! unat s)) k) = full_obj" if "unat s < length S" for n k
    using f that lru_list_sub [of k n x "fst (S ! unat s)"]
    by (auto simp: full_tags_def stored_def Let_def restrict_tags_def dest: nth_mem)
  then show "full_tags (store_copy c x s S)"
    using f by (cases "unat s < length S") (auto simp: full_tags_def store_copy_def list_update_beyond dest!: set_update_subset_insert [THEN subsetD])
qed

lemma full_tags_store_copies: "full_tags S \<Longrightarrow> full_tags (store_copies c x ss S)"
  by (induction ss arbitrary: S) (simp_all add: full_tags_stored)

lemma store_copies_cong:
  "kept c c' \<Longrightarrow> \<forall>s \<in> set ss. unat s < length (cache_servers c) \<Longrightarrow> store_copies c' x ss S = store_copies c x ss S"
  by (induction ss arbitrary: S) (simp_all add: store_copy_def size_at_kept)

text \<open>The object is on every server of the list afterwards.\<close>

lemma store_copy_cached:
  assumes "unat s < length S" "unat (snd x) \<le> size_at c t" "s = t \<or> cached (fst x) (contents_at S s)"
  shows "cached (fst x) (contents_at (store_copy c x t S) s)"
  using assms lru_list_cached [of x "size_at c t" "fst (S ! unat t)"]
  by (cases "unat s = unat t") (auto simp: store_copy_def stored_def Let_def)

lemma store_copies_keep:
  "unat s < length S \<Longrightarrow> \<forall>t \<in> set ss. unat (snd x) \<le> size_at c t \<Longrightarrow> cached (fst x) (contents_at S s) \<Longrightarrow>
   cached (fst x) (contents_at (store_copies c x ss S) s)"
proof (induction ss arbitrary: S)
  case (Cons t ss)
  have "unat s < length (store_copy c x t S)" using Cons.prems by (simp add: store_copy_def)
  then show ?case using Cons.IH [of "store_copy c x t S"] Cons.prems store_copy_cached [of s S x c t] by simp
qed simp

lemma store_copies_cached:
  "s \<in> set ss \<Longrightarrow> unat s < length S \<Longrightarrow> \<forall>t \<in> set ss. unat (snd x) \<le> size_at c t \<Longrightarrow>
   cached (fst x) (contents_at (store_copies c x ss S) s)"
proof (induction ss arbitrary: S)
  case (Cons t ss)
  have len: "unat s < length (store_copy c x t S)" using Cons.prems by (simp add: store_copy_def)
  show ?case
  proof (cases "s = t")
    case True
    then show ?thesis using store_copies_keep [OF len, of ss x c] store_copy_cached [of s S x c t] Cons.prems by simp
  qed (use Cons.IH [OF _ len] Cons.prems in simp)
qed simp

text \<open>What the lemmas about a request say of it and of the cluster before and after.\<close>

lemma store_full_correct:
  assumes "cluster_rep hash c S" "server_ok c (obj_size req) s" "hv_ok hash req" "fits req"
  shows "\<exists>req' c'. store_full (H1 hash) main_cache s req c = Inr (req', c') \<and> like hash req req' \<and> frame c c' \<and>
    cluster_rep hash c' (store_copy c (obj_of req) s S)"
  unfolding store_full_def store_copy_def
  by (rule store_correct [OF assms]) (simp_all add: set_obj_type_def)

lemma store_full_all_correct:
  assumes "cluster_rep hash c S" "\<forall>s \<in> set ss. server_ok c (obj_size req) s" "hv_ok hash req" "fits req"
  shows "\<exists>req' c'. store_full_all (H1 hash) ss req c = Inr (req', c') \<and> like hash req req' \<and> frame c c' \<and>
    cluster_rep hash c' (store_copies c (obj_of req) ss S)"
  using assms
proof (induction ss arbitrary: req c S)
  case (Cons s ss)
  obtain req1 c1 where st: "store_full (H1 hash) main_cache s req c = Inr (req1, c1)" "like hash req req1" "frame c c1"
    "cluster_rep hash c1 (store_copy c (obj_of req) s S)"
    using store_full_correct [OF Cons.prems(1) _ Cons.prems(3,4), of s] Cons.prems(2) by auto
  note l = likeD [OF st(2)]
  have "\<exists>req' c'. store_full_all (H1 hash) ss req1 c1 = Inr (req', c') \<and> like hash req1 req' \<and> frame c1 c' \<and>
    cluster_rep hash c' (store_copies c1 (obj_of req1) ss (store_copy c (obj_of req) s S))"
    using Cons.prems l server_ok_frame [OF st(3)] by (intro Cons.IH [OF st(4)]) auto
  moreover have "store_copies c1 x ss T = store_copies c x ss T" for x T
    using Cons.prems(2) by (intro store_copies_cong [OF kept_frame [OF st(3)]]) (auto simp: server_ok_def)
  ultimately show ?case using st(1) l(5) like_trans [OF st(2)] frame_trans [OF st(3)] by auto
qed auto

lemma write_full_all_correct:
  assumes "cluster_rep hash c S" "\<forall>s \<in> set ss. server_ok c (obj_size req) s" "hv_ok hash req" "fits req"
  shows "\<exists>req' c'. write_full_all (H1 hash) ss req c = Inr (req', c') \<and> like hash req req' \<and> frame c c' \<and>
    cluster_rep hash c' (store_copies c (obj_of req) ss S)"
  using assms
proof (induction ss arbitrary: req c S)
  case (Cons s ss)
  obtain c0 where ld: "add_write_load (obj_size req) s c = Inr c0" "frame c c0" "cluster_rep hash c0 S"
    using add_load_correct(2) [OF Cons.prems(1), of _ s] Cons.prems(2) by (metis list.set_intros(1))
  obtain req1 c1 where st: "store_full (H1 hash) main_cache s req c0 = Inr (req1, c1)" "like hash req req1" "frame c0 c1"
    "cluster_rep hash c1 (store_copy c0 (obj_of req) s S)"
    using store_full_correct [OF ld(3) _ Cons.prems(3,4), of s] Cons.prems(2) server_ok_frame [OF ld(2)] by auto
  note l = likeD [OF st(2)] and fr = frame_trans [OF ld(2) st(3)]
  have "\<exists>req' c'. write_full_all (H1 hash) ss req1 c1 = Inr (req', c') \<and> like hash req1 req' \<and> frame c1 c' \<and>
    cluster_rep hash c' (store_copies c1 (obj_of req1) ss (store_copy c0 (obj_of req) s S))"
    using Cons.prems l server_ok_frame [OF fr] by (intro Cons.IH [OF st(4)]) auto
  moreover have "store_copies c1 x ss T = store_copies c x ss T" "store_copy c0 x s T = store_copy c x s T" for x T
    using Cons.prems(2) store_copies_cong [OF kept_frame [OF fr], of ss] store_copies_cong [OF kept_frame [OF ld(2)], of "[s]"]
    by (auto simp: server_ok_def)
  ultimately show ?case using ld(1) st(1) l(5) like_trans [OF st(2)] frame_trans [OF fr] by auto
qed auto

section \<open>The servers of a request\<close>

definition req_bucket :: "request_t \<Rightarrow> u32" where
  "req_bucket req = ucast (obj_id_int req mod of_nat N_BUCKET)"

definition servers_of :: "cacheCluster \<Rightarrow> request_t \<Rightarrow> u32 list" where
  "servers_of c req = the (ch_mapping c (req_bucket req))"

definition lead_of :: "cacheCluster \<Rightarrow> request_t \<Rightarrow> u32" where
  "lead_of c req = servers_of c req ! fst (select_lead c)"

definition second_of :: "cacheCluster \<Rightarrow> request_t \<Rightarrow> u32" where
  "second_of c req = servers_of c req ! fst (select_second (fst (select_lead c)) (snd (select_lead c)))"

text \<open>The clusters the lemmas are about: in one of the four modes, with a mapping of every bucket to
  three or more servers that are available and can hold an object of size \<open>z\<close>.\<close>

definition replicated :: "(obj_id_t \<Rightarrow> u64) \<Rightarrow> u64 \<Rightarrow> cacheCluster \<Rightarrow> aserver list \<Rightarrow> bool" where
  "replicated hash z c S \<longleftrightarrow> cluster_rep hash c S \<and> full_tags S \<and>
     cluster_mode (cluster_params c) \<in> {no_replication, two_rep_popularity, two_rep_always, three_rep_always} \<and>
     trace_format (cluster_params c) \<noteq> akamai1bWithBucket \<and>
     (\<forall>b < N_BUCKET. \<exists>ss l. ch_mapping c (of_nat b) = Some ss \<and> ori_lead_mapping c (of_nat b) = Some l \<and>
        unat l < length (bucket_stat c) \<and> 3 \<le> length ss \<and> (\<forall>s \<in> set (take 3 ss). server_ok c z s))"

lemma replicated_kept:
  assumes "replicated hash z c S" "kept c c'" "cluster_rep hash c' S'" "full_tags S'"
  shows "replicated hash z c' S'"
  using assms(1,3,4) server_ok_kept [OF assms(2)] assms(2) by (simp add: replicated_def kept_def)

lemma req_bucket: "\<exists>b < N_BUCKET. req_bucket req = of_nat b"
proof -
  let ?b = "unat (obj_id_int req mod of_nat N_BUCKET)"
  have "?b < N_BUCKET" by (simp add: N_BUCKET_def unat_mod)
  moreover have "req_bucket req = of_nat ?b" by (simp add: req_bucket_def word_unat_eq_iff unsigned_ucast_eq)
  ultimately show ?thesis by blast
qed

lemma replicated_servers:
  assumes "replicated hash z c S"
  obtains l where "ch_mapping c (req_bucket req) = Some (servers_of c req)" "ori_lead_mapping c (req_bucket req) = Some l"
    "unat l < length (bucket_stat c)" "3 \<le> length (servers_of c req)" "\<forall>s \<in> set (take 3 (servers_of c req)). server_ok c z s"
  using assms req_bucket [of req] unfolding replicated_def servers_of_def by (metis option.sel)

lemma bucket_fields [simp]:
  "bucket_id (set_bucket_id b req) = b" "original_server (set_original_server s req) = s"
  "obj_id_int (set_bucket_id b req) = obj_id_int req" "obj_size (set_bucket_id b req) = obj_size req"
  "obj_id_int (set_original_server s req) = obj_id_int req" "obj_size (set_original_server s req) = obj_size req"
  "op (set_bucket_id b req) = op req" "op (set_original_server s req) = op req"
  "hv_ok hash (set_bucket_id b req) = hv_ok hash req" "hv_ok hash (set_original_server s req) = hv_ok hash req"
proof -
  show "bucket_id (set_bucket_id b req) = b"
    unfolding bucket_id_def set_bucket_id_def by simp (rule bit_word_eqI; auto simp: bit_simps)
  show "original_server (set_original_server s req) = s"
    unfolding original_server_def set_original_server_def by simp (rule bit_word_eqI; auto simp: bit_simps)
qed (simp_all add: set_bucket_id_def set_original_server_def hv_ok_def)

lemma select_lead_bound: "fst (select_lead c) < 3" "kept c (snd (select_lead c))" "cache_servers (snd (select_lead c)) = cache_servers c"
  "cluster_check (snd (select_lead c)) = cluster_check c" "obj_freq_map (snd (select_lead c)) = obj_freq_map c"
  by (auto simp: select_lead_def rand_def Let_def)

lemma second_idx_bound: "second_idx i r < 3"
  by (simp add: second_idx_def unat_mod)

lemma select_second_bound: "fst (select_second i c) < 3" "kept c (snd (select_second i c))"
  "cache_servers (snd (select_second i c)) = cache_servers c"
  "cluster_check (snd (select_second i c)) = cluster_check c" "obj_freq_map (snd (select_second i c)) = obj_freq_map c"
  by (auto simp: select_second_def rand_def Let_def second_idx_bound)

lemma replicated_leads:
  assumes "replicated hash z c S"
  shows "server_ok c z (lead_of c req)" "server_ok c z (second_of c req)"
proof -
  obtain l where "3 \<le> length (servers_of c req)" "\<forall>s \<in> set (take 3 (servers_of c req)). server_ok c z s"
    using replicated_servers [OF assms, of req] by blast
  then have "server_ok c z (servers_of c req ! i)" if "i < 3" for i
    using that nth_mem [of i "take 3 (servers_of c req)"] by auto
  then show "server_ok c z (lead_of c req)" "server_ok c z (second_of c req)"
    unfolding lead_of_def second_of_def using select_lead_bound(1) select_second_bound(1) by blast+
qed

lemma find_mapped_correct:
  assumes "replicated hash z c S" "hv_ok hash req"
  obtains req1 c1 where
    "find_mapped_servers req c = Inr (servers_of c req, lead_of c req, second_of c req, req1, c1)"
    "obj_id_int req1 = obj_id_int req" "obj_size req1 = obj_size req" "op req1 = op req" "hv_ok hash req1"
    "unat (original_server req1) < length (bucket_stat c)" "kept c c1" "cluster_rep hash c1 S" "obj_freq_map c1 = obj_freq_map c"
    "cluster_check c1 = (cluster_check c)\<lparr>req_host := sint (lead_of c req)\<rparr>"
proof -
  obtain l where l: "ch_mapping c (req_bucket req) = Some (servers_of c req)" "ori_lead_mapping c (req_bucket req) = Some l"
    "unat l < length (bucket_stat c)" "3 \<le> length (servers_of c req)" by (rule replicated_servers [OF assms(1)])
  obtain i c1 where i: "select_lead c = (i, c1)" by fastforce
  obtain j c2 where j: "select_second i c1 = (j, c2)" by fastforce
  note b = select_lead_bound [of c, unfolded i, simplified] select_second_bound [where i = i and c = c1, unfolded j, simplified]
  let ?req = "set_original_server l (set_bucket_id (req_bucket req) req)"
  let ?c = "upd_check (\<lambda>k. k\<lparr>req_host := sint (lead_of c req)\<rparr>) c2"
  have k: "kept c c2" using b(2) b(7) kept_trans by blast
  have "trace_format (cluster_params c1) \<noteq> akamai1bWithBucket" using assms(1) b(2) by (simp add: replicated_def kept_def)
  then have "request_bucket req c1 = Inr (set_bucket_id (req_bucket req) req)"
    by (simp add: request_bucket_def req_bucket_def)
  moreover have "get_consistent_hash_mapping (ucast (req_bucket req)) c1 = Inr (servers_of c req, l)"
    using l(1,2) b(2) by (simp add: get_consistent_hash_mapping_def kept_def)
  ultimately have "find_mapped_servers req c = Inr (servers_of c req, lead_of c req, second_of c req, ?req, ?c)"
    using i j b(1,6) l(4) by (simp add: find_mapped_servers_def Let_def idx_at_def lead_of_def second_of_def)
  moreover have "cluster_rep hash ?c S" using assms(1) b(3,8) by (simp add: replicated_def cluster_rep_def upd_check_def)
  ultimately show thesis using that [of ?req ?c] assms(2) l(3) k b(4,5,9,10) kept_trans [OF k kept_upd(3)] by simp
qed

section \<open>Look-up, hit and miss\<close>

definition admits :: "cacheCluster \<Rightarrow> request_t \<Rightarrow> bool" where
  "admits c req \<longleftrightarrow> admission (cluster_params c) \<le> (case obj_freq_map c (ucast (obj_id_int req)) of None \<Rightarrow> 0 | Some f \<Rightarrow> f)"

lemma should_admit_correct:
  "\<exists>m. should_admit req c = (admits c req, c\<lparr>obj_freq_map := m\<rparr>)"
proof (cases "admission (cluster_params c) \<le> 0")
  case True
  then have "should_admit req c = (admits c req, c\<lparr>obj_freq_map := obj_freq_map c\<rparr>)"
    by (simp add: should_admit_def admits_def)
  then show ?thesis by (intro exI [of _ "obj_freq_map c"])
qed (simp add: should_admit_def get_freq_def Let_def admits_def, rule exI, rule refl)

definition found_at :: "cacheCluster \<Rightarrow> aserver list \<Rightarrow> obj_id_t \<Rightarrow> u32 \<Rightarrow> u32 \<Rightarrow> u32 option" where
  "found_at c S k lead second = (if cached k (contents_at S lead) then Some lead
     else if check_one_more (cluster_params c) \<and> cached k (contents_at S second) then Some second else None)"

lemma full_tags_at: "full_tags S \<Longrightarrow> unat s < length S \<Longrightarrow> cached k (contents_at S s) \<Longrightarrow> metadata_u8 0 (tags_at S s k) = full_obj"
  by (auto simp: full_tags_def dest: nth_mem)

lemma find_lead_correct:
  assumes r: "cluster_rep hash c S" "full_tags S" and ok: "server_ok c z lead" "server_ok c z second" and hv: "hv_ok hash req"
  obtains req' c' where
    "find_lead (H1 hash) lead second req c = Inr (found_at c S (obj_id_int req) lead second, admits c req, req', c')"
    "like hash req req'" "kept c c'" "cluster_rep hash c' S" "is_hit (cluster_check c') = is_hit (cluster_check c)"
    "n_chunk_hit (cluster_check c') = n_chunk_hit (cluster_check c)"
    "found_at c S (obj_id_int req) lead second \<noteq> None \<longrightarrow> obj_type (cluster_check c') = full_obj"
proof -
  let ?k = "obj_id_int req" and ?t = "\<lambda>s. if cached (obj_id_int req) (contents_at S s) then Some full_obj else None"
  have len: "unat lead < length S" "unat second < length S" using ok cluster_rep_length [OF r(1)] by (auto simp: server_ok_def)
  note ty = full_tags_at [OF r(2) len(1), of ?k] full_tags_at [OF r(2) len(2), of ?k]
  obtain c1 where c1: "server_check (H1 hash) lead req c = Inr ((cached ?k (contents_at S lead), ?t lead, set_hv hash req), c1)"
    "frame c c1" "cluster_rep hash c1 S" using server_check_correct [OF r(1) ok(1) hv] ty(1) by auto
  define c2 where "c2 = note_type (?t lead) c1"
  have c2: "kept c c2" "cluster_rep hash c2 S" "is_hit (cluster_check c2) = is_hit (cluster_check c)"
    "n_chunk_hit (cluster_check c2) = n_chunk_hit (cluster_check c)" "obj_freq_map c2 = obj_freq_map c"
    "cached ?k (contents_at S lead) \<longrightarrow> obj_type (cluster_check c2) = full_obj"
    using c1(3) frameD [OF c1(2)] kept_frame [OF c1(2)] kept_trans [OF kept_frame [OF c1(2)] kept_upd(3)]
    by (simp_all add: c2_def note_type_def)
  obtain m where m: "should_admit (set_hv hash req) c2 = (admits c2 (set_hv hash req), c2\<lparr>obj_freq_map := m\<rparr>)"
    using should_admit_correct by blast
  have ad: "admits c2 (set_hv hash req) = admits c req" using c2(1,5) by (simp add: admits_def kept_def)
  define c3 where "c3 = c2\<lparr>obj_freq_map := m\<rparr>"
  have c3: "kept c c3" "cluster_rep hash c3 S" "cluster_check c3 = cluster_check c2"
    using kept_trans [OF c2(1) kept_upd(5)] c2(2) by (simp_all add: c3_def)
  have "server_ok c3 z second" using server_ok_kept [OF c3(1)] ok(2) by simp
  then obtain c4 where c4: "server_check (H1 hash) second (set_hv hash req) c3 =
      Inr ((cached ?k (contents_at S second), ?t second, set_hv hash (set_hv hash req)), c4)" "frame c3 c4" "cluster_rep hash c4 S"
    using server_check_correct [OF c3(2), of z second "set_hv hash req"] ty(2) hv by auto
  have one: "check_one_more (cluster_params c3) = check_one_more (cluster_params c)" using c3(1) by (simp add: kept_def)
  have F: "find_lead (H1 hash) lead second req c =
      (if cached ?k (contents_at S lead) then Inr (Some lead, admits c req, set_hv hash req, c3)
       else if check_one_more (cluster_params c3) then rbind (server_check (H1 hash) second (set_hv hash req) c3) (\<lambda>((found, t, req'), c').
         Inr (if found then Some second else None, admits c req, req', note_type t c'))
       else Inr (None, admits c req, set_hv hash req, c3))"
    using m unfolding find_lead_def c1(1) by (simp add: Let_def ad flip: c2_def c3_def)
  show thesis
  proof (cases "\<not> cached ?k (contents_at S lead) \<and> check_one_more (cluster_params c)")
    case True
    let ?c = "note_type (?t second) c4"
    have "kept c ?c" "cluster_rep hash ?c S" "is_hit (cluster_check ?c) = is_hit (cluster_check c)"
      "n_chunk_hit (cluster_check ?c) = n_chunk_hit (cluster_check c)"
      "cached ?k (contents_at S second) \<longrightarrow> obj_type (cluster_check ?c) = full_obj"
      using c4(3) c2(3,4) c3(3) frameD [OF c4(2)] kept_trans [OF c3(1) kept_frame [OF c4(2)]]
        kept_trans [OF kept_trans [OF c3(1) kept_frame [OF c4(2)]] kept_upd(3)] by (simp_all add: note_type_def)
    then show thesis using F True one c4(1) by (intro that [of "set_hv hash (set_hv hash req)" ?c]) (auto simp: found_at_def)
  next
    case False
    then show thesis using F one c2 c3 by (intro that [of "set_hv hash req" c3]) (auto simp: found_at_def)
  qed
qed

text \<open>The servers that keep a copy.\<close>

definition copies :: "cluster_mode_e \<Rightarrow> u32 list \<Rightarrow> u32 \<Rightarrow> u32 list" where
  "copies m ss lead = (if m = no_replication \<or> m = two_rep_popularity then [lead]
     else if m = two_rep_always then take 2 ss else take 3 ss)"

abbreviation full_mode :: "cluster_mode_e \<Rightarrow> bool" where
  "full_mode m \<equiv> m \<in> {no_replication, two_rep_popularity, two_rep_always, three_rep_always}"

lemma handle_hit_correct:
  assumes r: "cluster_rep hash c S" and m: "full_mode (cluster_mode (cluster_params c))" and len: "3 \<le> length ss"
    and ok: "server_ok c (obj_size req) s" "\<forall>t \<in> set (copies (cluster_mode (cluster_params c)) ss lead). server_ok c (obj_size req) t"
    and q: "hv_ok hash req" "fits req" and t: "obj_type (cluster_check c) = full_obj"
  obtains req' c' where "handle_hit (H1 hash) s lead ss req c = Inr (req', c')" "like hash req req'" "kept c c'"
    "cluster_rep hash c' (store_copies c (obj_of req) (copies (cluster_mode (cluster_params c)) ss lead) S)"
    "cluster_check c' = (cluster_check c)\<lparr>is_hit := True\<rparr>"
proof -
  let ?cs = "copies (cluster_mode (cluster_params c)) ss lead"
  obtain c1 where c1: "add_read_load (obj_size req) s c = Inr c1" "frame c c1" "cluster_rep hash c1 S"
    using add_load_correct(1) [OF r ok(1)] by blast
  let ?c = "upd_check (\<lambda>k. k\<lparr>is_hit := True\<rparr>) c1"
  have k: "kept c ?c" using kept_trans [OF kept_frame [OF c1(2)] kept_upd(3)] by simp
  have mode: "cluster_mode (cluster_params c1) = cluster_mode (cluster_params c)" using k by (simp add: kept_def)
  have "\<forall>t \<in> set ?cs. server_ok ?c (obj_size req) t" using ok(2) server_ok_kept [OF k] by simp
  then obtain req' c' where st: "store_full_all (H1 hash) ?cs req ?c = Inr (req', c')" "like hash req req'" "frame ?c c'"
    "cluster_rep hash c' (store_copies ?c (obj_of req) ?cs S)"
    using store_full_all_correct [of hash ?c S ?cs req] c1(3) q by auto
  have "store_copies ?c (obj_of req) ?cs S = store_copies c (obj_of req) ?cs S"
    using ok(2) by (intro store_copies_cong [OF k]) (auto simp: server_ok_def)
  moreover have "cache_hit_full_obj (H1 hash) req lead ss c1 = Inr (req', c')"
    using st(1) m len mode
    by (auto simp: cache_hit_full_obj_def copies_def Let_def first_servers_def rbind_eq_Inr split: if_splits)
  then have "handle_hit (H1 hash) s lead ss req c = Inr (req', c')" using c1(1) t by (simp add: handle_hit_def Let_def)
  ultimately show thesis
    using that [of req' c'] st kept_trans [OF k kept_frame [OF st(3)]] frameD(4) [OF st(3)] frameD(4) [OF c1(2)] by simp
qed

lemma handle_miss_correct:
  assumes r: "cluster_rep hash c S" and m: "full_mode (cluster_mode (cluster_params c))" and len: "3 \<le> length ss"
    and ok: "server_ok c (obj_size req) lead" "\<forall>t \<in> set (copies (cluster_mode (cluster_params c)) ss lead). server_ok c (obj_size req) t"
    and q: "hv_ok hash req" "fits req" "unat (original_server req) < length (bucket_stat c)"
  obtains req' c' where "handle_miss (H1 hash) a lead ss req c = Inr (req', c')" "like hash req req'" "kept c c'"
    "cluster_rep hash c' (if a then store_copies c (obj_of req) (copies (cluster_mode (cluster_params c)) ss lead) S else S)"
    "cluster_check c' = cluster_check c"
proof -
  let ?cs = "copies (cluster_mode (cluster_params c)) ss lead"
  let ?c0 = "upd_stat (\<lambda>st. st\<lparr>midgress_bytes := midgress_bytes st + obj_size req\<rparr>) c"
  have "unat (original_server req) < length (bucket_stat ?c0)" "cluster_rep hash ?c0 S" using q(3) r by (simp_all add: upd_stat_def cluster_rep_def)
  then obtain c1 where c1: "upd_bucket_stat (\<lambda>b. b\<lparr>b_midgress := b_midgress b + obj_size req\<rparr>) req ?c0 = Inr c1" "kept ?c0 c1"
    "cluster_rep hash c1 S" "cluster_check c1 = cluster_check ?c0" by (rule upd_bucket_stat_correct)
  have k1: "kept c c1" using kept_trans [OF kept_upd(2) c1(2)] .
  show thesis
  proof (cases a)
    case False
    then have "handle_miss (H1 hash) a lead ss req c = Inr (req, c1)" using c1(1) by (simp add: handle_miss_def Let_def)
    then show thesis using that [of req c1] False k1 c1(3,4) by simp
  next
    case True
    have "server_ok c1 (obj_size req) lead" using ok(1) server_ok_kept [OF k1] by simp
    then obtain c2 where c2: "add_read_load (obj_size req) lead c1 = Inr c2" "frame c1 c2" "cluster_rep hash c2 S"
      using add_load_correct(1) [OF c1(3)] by blast
    have k: "kept c c2" using kept_trans [OF k1 kept_frame [OF c2(2)]] .
    have mode: "cluster_mode (cluster_params c2) = cluster_mode (cluster_params c)" using k by (simp add: kept_def)
    have "\<forall>t \<in> set ?cs. server_ok c2 (obj_size req) t" using ok(2) server_ok_kept [OF k] by simp
    then obtain req' c' where st: "write_full_all (H1 hash) ?cs req c2 = Inr (req', c')" "like hash req req'" "frame c2 c'"
      "cluster_rep hash c' (store_copies c2 (obj_of req) ?cs S)"
      using write_full_all_correct [OF c2(3), of ?cs req] q(1,2) by auto
    have "store_copies c2 (obj_of req) ?cs S = store_copies c (obj_of req) ?cs S"
      using ok(2) by (intro store_copies_cong [OF k]) (auto simp: server_ok_def)
    moreover have "cache_miss_full_obj (H1 hash) req lead ss c2 = Inr (req', c')"
      using st(1) m len mode
      by (auto simp: cache_miss_full_obj_def copies_def Let_def first_servers_def rbind_eq_Inr split: if_splits)
    moreover have "check_coding_policy req c2 = Inr False" using m mode by (auto simp: check_coding_policy_def)
    ultimately show thesis
      using that [of req' c'] True st c1 c2(1) kept_trans [OF k kept_frame [OF st(3)]] frameD(4) [OF st(3)] frameD(4) [OF c2(2)]
      by (simp add: handle_miss_def Let_def)
  qed
qed

lemma count_hit_correct:
  assumes "cluster_rep hash c S" "unat (original_server req) < length (bucket_stat c)" "n_chunk_hit (cluster_check c) = 0"
    "is_hit (cluster_check c) \<longrightarrow> obj_type (cluster_check c) = full_obj"
  obtains c' where "count_hit req c = Inr c'" "kept c c'" "cluster_rep hash c' S" "cluster_check c' = cluster_check c"
proof (cases "is_hit (cluster_check c)")
  case True
  let ?c0 = "upd_stat (\<lambda>st. st\<lparr>cluster_hit_cnt := cluster_hit_cnt st + 1, cluster_hit_bytes := cluster_hit_bytes st + obj_size req\<rparr>) c"
  have "unat (original_server req) < length (bucket_stat ?c0)" "cluster_rep hash ?c0 S" using assms(1,2) by (simp_all add: upd_stat_def cluster_rep_def)
  then obtain c1 where c1: "upd_bucket_stat (\<lambda>b. b\<lparr>b_hit_cnt := b_hit_cnt b + 1\<rparr>) req ?c0 = Inr c1" "kept ?c0 c1"
    "cluster_rep hash c1 S" "cluster_check c1 = cluster_check ?c0" by (rule upd_bucket_stat_correct)
  let ?c = "upd_stat (\<lambda>st. st\<lparr>full_obj_hit_cnt := full_obj_hit_cnt st + 1, full_obj_hit_bytes := full_obj_hit_bytes st + obj_size req\<rparr>) c1"
  have "count_hit req c = Inr ?c" using True assms(3,4) c1(1,4) by (simp add: count_hit_def Let_def)
  then show thesis using that [of ?c] c1(3,4) kept_trans [OF kept_trans [OF kept_upd(2) c1(2)] kept_upd(2)] by simp
qed (use that [of c] assms(1) in \<open>simp add: count_hit_def\<close>)

section \<open>The whole request\<close>

lemma copies_ok:
  assumes "replicated hash z c S"
  shows "\<forall>t \<in> set (copies m (servers_of c req) (lead_of c req)). server_ok c z t"
proof -
  obtain l where "\<forall>s \<in> set (take 3 (servers_of c req)). server_ok c z s" using replicated_servers [OF assms, of req] by blast
  then show ?thesis
    using replicated_leads(1) [OF assms] set_take_subset_set_take [of 2 3 "servers_of c req"] by (auto simp: copies_def)
qed

lemma server_ok_le: "server_ok c z s \<Longrightarrow> y \<le> z \<Longrightarrow> server_ok c y s"
  by (auto simp: server_ok_def)

text \<open>The state of the servers after a request that is answered from the cache or admitted.\<close>

definition after_get :: "cacheCluster \<Rightarrow> request_t \<Rightarrow> aserver list \<Rightarrow> aserver list" where
  "after_get c req S = store_copies c (obj_of req) (copies (cluster_mode (cluster_params c)) (servers_of c req) (lead_of c req)) S"

text \<open>The part of \<^verbatim>\<open>get\<close> up to the look-up.\<close>

lemma cluster_get_lookup:
  fixes c :: cacheCluster and req :: request_t
  defines "lead \<equiv> lead_of c req" and "second \<equiv> second_of c req" and "ss \<equiv> servers_of c req"
  defines "f \<equiv> \<lambda>S. found_at c S (obj_id_int req) lead second"
  assumes r: "replicated hash z c S" and q: "hv_ok hash req"
  obtains req2 c3 where "cluster_get (H1 hash) req c =
      rbind (case f S of Some s \<Rightarrow> handle_hit (H1 hash) s lead ss req2 c3
        | None \<Rightarrow> handle_miss (H1 hash) (admits c req) lead ss req2 c3) (\<lambda>(req, c).
      rbind (count_hit req c) (\<lambda>c. Inr (cluster_check c, req, c)))"
    "kept c c3" "cluster_rep hash c3 S" "\<not> is_hit (cluster_check c3)" "n_chunk_hit (cluster_check c3) = 0"
    "f S \<noteq> None \<longrightarrow> obj_type (cluster_check c3) = full_obj" "obj_id_int req2 = obj_id_int req" "obj_size req2 = obj_size req" "hv_ok hash req2"
    "op req2 = op req" "unat (original_server req2) < length (bucket_stat c)"
proof -
  let ?c0 = "c\<lparr>cluster_check := start_check\<rparr>"
  have rep: "cluster_rep hash c S" "full_tags S" using r by (simp_all add: replicated_def)
  have r0: "replicated hash z ?c0 S" by (rule replicated_kept [OF r kept_upd(6)]) (use rep in simp_all)
  have lead0: "servers_of ?c0 req = ss" "lead_of ?c0 req = lead" "second_of ?c0 req = second"
    by (simp_all add: servers_of_def lead_of_def second_of_def select_lead_def select_second_def rand_def Let_def ss_def lead_def second_def)
  obtain req1 c1 where m: "find_mapped_servers req ?c0 = Inr (ss, lead, second, req1, c1)"
    and q1: "obj_id_int req1 = obj_id_int req" "obj_size req1 = obj_size req" "op req1 = op req" "hv_ok hash req1"
      "unat (original_server req1) < length (bucket_stat c)"
    and c1: "kept ?c0 c1" "cluster_rep hash c1 S" "obj_freq_map c1 = obj_freq_map c"
      "cluster_check c1 = start_check\<lparr>req_host := sint lead\<rparr>"
    using find_mapped_correct [OF r0 q] unfolding lead0 by auto
  let ?c1 = "upd_stat (\<lambda>st. st\<lparr>cluster_req_cnt := cluster_req_cnt st + 1, cluster_req_bytes := cluster_req_bytes st + obj_size req1\<rparr>) c1"
  have k1: "kept c ?c1" using kept_trans [OF kept_trans [OF kept_upd(6) c1(1)] kept_upd(2)] .
  have "unat (original_server req1) < length (bucket_stat ?c1)" "cluster_rep hash ?c1 S" using q1(5) k1 c1(2) by (simp_all add: kept_def)
  then obtain c2 where b: "upd_bucket_stat (\<lambda>b. b\<lparr>b_req_cnt := b_req_cnt b + 1, b_req_byte := b_req_byte b + obj_size req1\<rparr>) req1 ?c1 = Inr c2"
    and c2: "kept ?c1 c2" "cluster_rep hash c2 S" "cluster_check c2 = cluster_check ?c1" "obj_freq_map c2 = obj_freq_map ?c1"
    by (rule upd_bucket_stat_correct)
  have k2: "kept c c2" using kept_trans [OF k1 c2(1)] .
  have f: "found_at c2 S (obj_id_int req1) lead second = f S" "admits c2 req1 = admits c req"
    using k2 q1(1) c2(4) c1(3) by (simp_all add: f_def found_at_def admits_def kept_def)
  obtain req2 c3 where l: "find_lead (H1 hash) lead second req1 c2 = Inr (f S, admits c req, req2, c3)"
    and q2: "like hash req1 req2" and c3: "kept c2 c3" "cluster_rep hash c3 S" "is_hit (cluster_check c3) = is_hit (cluster_check c2)"
      "n_chunk_hit (cluster_check c3) = n_chunk_hit (cluster_check c2)" "f S \<noteq> None \<longrightarrow> obj_type (cluster_check c3) = full_obj"
    using find_lead_correct [OF c2(2) rep(2), of z lead second req1] server_ok_kept [OF k2]
      replicated_leads [OF r, of req, folded lead_def second_def] q1(4) unfolding f by auto
  have "\<not> is_hit (cluster_check c3)" "n_chunk_hit (cluster_check c3) = 0"
    using c3(3,4) c2(3) c1(4) by (simp_all add: start_check_def new_cluster_hit_def)
  then show thesis
    using kept_trans [OF k2 c3(1)] c3(2,5) likeD [OF q2] q2 q1 m b l
    by (intro that [of req2 c3]) (simp_all add: cluster_get_def like_def)
qed

text \<open>Answering it.\<close>

lemma answer_replicated:
  fixes c :: cacheCluster and req :: request_t and ss :: "u32 list" and lead :: u32
  defines "cs \<equiv> copies (cluster_mode (cluster_params c)) ss lead"
  assumes r: "cluster_rep hash c S" and m: "full_mode (cluster_mode (cluster_params c))" and len: "3 \<le> length ss"
    and ok: "\<forall>t \<in> insert lead (insert second (set cs)). server_ok c (obj_size req) t"
    and q: "hv_ok hash req" "fits req" "unat (original_server req) < length (bucket_stat c)"
    and f: "f = None \<or> f = Some lead \<or> f = Some second" "f \<noteq> None \<longrightarrow> obj_type (cluster_check c) = full_obj"
    and chk: "\<not> is_hit (cluster_check c)" "n_chunk_hit (cluster_check c) = 0"
  obtains k req' c' where "rbind (case f of Some s \<Rightarrow> handle_hit (H1 hash) s lead ss req c
        | None \<Rightarrow> handle_miss (H1 hash) a lead ss req c) (\<lambda>(req, c).
      rbind (count_hit req c) (\<lambda>c. Inr (cluster_check c, req, c))) = Inr (k, req', c')"
    "is_hit k \<longleftrightarrow> f \<noteq> None" "kept c c'" "like hash req req'"
    "cluster_rep hash c' (if f \<noteq> None \<or> a then store_copies c (obj_of req) cs S else S)"
proof -
  let ?S = "if f \<noteq> None \<or> a then store_copies c (obj_of req) cs S else S"
  obtain req1 c1 where h: "(case f of Some s \<Rightarrow> handle_hit (H1 hash) s lead ss req c | None \<Rightarrow> handle_miss (H1 hash) a lead ss req c) =
      Inr (req1, c1)" "like hash req req1" "kept c c1" "cluster_rep hash c1 ?S" "cluster_check c1 = (cluster_check c)\<lparr>is_hit := f \<noteq> None\<rparr>"
  proof (cases f)
    case None
    obtain req1 c1 where "handle_miss (H1 hash) a lead ss req c = Inr (req1, c1)" "like hash req req1" "kept c c1"
      "cluster_rep hash c1 (if a then store_copies c (obj_of req) cs S else S)" "cluster_check c1 = cluster_check c"
      using handle_miss_correct [OF r m len _ _ q, of lead a] ok unfolding cs_def by auto
    then show thesis using that [of req1 c1] None chk(1) by (cases "cluster_check c") simp
  next
    case (Some s)
    have "server_ok c (obj_size req) s" using Some f(1) ok by auto
    then obtain req1 c1 where "handle_hit (H1 hash) s lead ss req c = Inr (req1, c1)" "like hash req req1" "kept c c1"
      "cluster_rep hash c1 (store_copies c (obj_of req) cs S)" "cluster_check c1 = (cluster_check c)\<lparr>is_hit := True\<rparr>"
      using handle_hit_correct [OF r m len, of req s lead] ok q(1,2) Some f(2) unfolding cs_def by auto
    then show thesis using that [of req1 c1] Some by simp
  qed
  have "unat (original_server req1) < length (bucket_stat c1)" using q(3) h(3) likeD(7) [OF h(2)] by (simp add: kept_def)
  then obtain c2 where n: "count_hit req1 c1 = Inr c2" "kept c1 c2" "cluster_rep hash c2 ?S" "cluster_check c2 = cluster_check c1"
    using count_hit_correct [OF h(4)] h(5) chk(2) f(2) by auto
  show thesis using that [of "cluster_check c2" req1 c2] h n kept_trans [OF h(3) n(2)] by simp
qed

lemma cluster_get_replicated:
  assumes r: "replicated hash z c S" and q: "hv_ok hash req" "fits req" "obj_size req \<le> z"
  obtains k req' c' where "cluster_get (H1 hash) req c = Inr (k, req', c')"
    "is_hit k \<longleftrightarrow> found_at c S (obj_id_int req) (lead_of c req) (second_of c req) \<noteq> None"
    "kept c c'" "replicated hash z c' (if is_hit k \<or> admits c req then after_get c req S else S)" "op req' = op req"
proof -
  let ?lead = "lead_of c req" and ?second = "second_of c req" and ?ss = "servers_of c req" and ?m = "cluster_mode (cluster_params c)"
  let ?f = "found_at c S (obj_id_int req) ?lead ?second" and ?cs = "copies ?m ?ss ?lead"
  have d: "full_tags S" "full_mode ?m" and len: "3 \<le> length ?ss"
    using r replicated_servers [OF r, of req] by (auto simp: replicated_def)
  obtain req2 c3 where l: "cluster_get (H1 hash) req c =
      rbind (case ?f of Some s \<Rightarrow> handle_hit (H1 hash) s ?lead ?ss req2 c3
        | None \<Rightarrow> handle_miss (H1 hash) (admits c req) ?lead ?ss req2 c3) (\<lambda>(req, c).
      rbind (count_hit req c) (\<lambda>c. Inr (cluster_check c, req, c)))"
    and k3: "kept c c3" and c3: "cluster_rep hash c3 S" "\<not> is_hit (cluster_check c3)" "n_chunk_hit (cluster_check c3) = 0"
      "?f \<noteq> None \<longrightarrow> obj_type (cluster_check c3) = full_obj"
    and q2: "obj_id_int req2 = obj_id_int req" "obj_size req2 = obj_size req" "hv_ok hash req2" "op req2 = op req"
      "unat (original_server req2) < length (bucket_stat c)"
    by (rule cluster_get_lookup [OF r q(1)])
  have q3: "fits req2" "obj_of req2 = obj_of req" "unat (original_server req2) < length (bucket_stat c3)"
    and m3: "cluster_mode (cluster_params c3) = ?m"
    using q2 q(2) k3 by (simp_all add: fits_def obj_of_def kept_def)
  have ok: "\<forall>t \<in> insert ?lead (insert ?second (set ?cs)). server_ok c3 (obj_size req2) t"
    using copies_ok [OF r] replicated_leads [OF r] server_ok_le [OF _ q(3)] server_ok_kept [OF k3] q2(2) by auto
  have f: "?f = None \<or> ?f = Some ?lead \<or> ?f = Some ?second" by (simp add: found_at_def)
  have cs: "store_copies c3 (obj_of req2) ?cs S = after_get c req S"
    unfolding after_get_def q3(2) using copies_ok [OF r] by (intro store_copies_cong [OF k3]) (auto simp: server_ok_def)
  obtain k req' c' where a: "cluster_get (H1 hash) req c = Inr (k, req', c')" "is_hit k \<longleftrightarrow> ?f \<noteq> None" "kept c3 c'" "like hash req2 req'"
    "cluster_rep hash c' (if ?f \<noteq> None \<or> admits c req then after_get c req S else S)"
    using answer_replicated [of hash c3 S ?ss ?lead ?second req2 ?f "admits c req"] c3 d(2) len ok q2 q3 f
    unfolding l m3 cs by blast
  have k: "kept c c'" using kept_trans [OF k3 a(3)] .
  have "full_tags (if ?f \<noteq> None \<or> admits c req then after_get c req S else S)"
    using d(1) by (simp add: after_get_def full_tags_store_copies)
  then have "replicated hash z c' (if is_hit k \<or> admits c req then after_get c req S else S)"
    using replicated_kept [OF r k a(5)] a(2) by simp
  then show thesis using that a(1,2,4) k q2(4) by (auto simp: like_def)
qed

section \<open>A sample cluster with copies\<close>

lemma sample_replicated:
  assumes "full_mode m"
  shows "replicated hash 100 (sample_cluster hash m) empty_servers"
proof -
  have f: "full_tags empty_servers" by (simp add: full_tags_def empty_servers_def cached_def)
  have "server_ok (sample_cluster hash m) 100 s" if "s \<in> {0, 1, 2}" for s using that by (intro sample_server_ok) auto
  then show ?thesis using assms f sample_cluster_rep [of hash m]
    by (simp add: replicated_def) (simp add: sample_cluster_def)
qed

lemma sample_req_ok: "hv_ok hash (sample_req 7 10)" "fits (sample_req 7 10)" "obj_size (sample_req 7 10) \<le> 100" "obj_id_int (sample_req 7 10) = 7"
  by (simp_all add: sample_req_def new_request_def hv_ok_def fits_def)



lemma lead_in_copies:
  assumes "replicated hash z c S" "kept c c'" "ec_n (ec_params c) = 1 \<or> cluster_mode (cluster_params c) \<in> {two_rep_always, three_rep_always}"
    "obj_id_int req' = obj_id_int req"
  shows "lead_of c' req' \<in> set (copies (cluster_mode (cluster_params c)) (servers_of c req) (lead_of c req))"
proof -
  have len: "3 \<le> length (servers_of c req)" using replicated_servers [OF assms(1), of req] by blast
  have m: "full_mode (cluster_mode (cluster_params c))" using assms(1) by (simp add: replicated_def)
  have s: "servers_of c' req' = servers_of c req" using assms(2,4) by (simp add: servers_of_def req_bucket_def kept_def)
  have "fst (select_lead c') = 0 \<and> fst (select_lead c) = 0 \<or> cluster_mode (cluster_params c) = two_rep_always \<and> fst (select_lead c') < 2 \<or>
      cluster_mode (cluster_params c) = three_rep_always \<and> fst (select_lead c') < 3"
    using assms(2,3) by (auto simp: select_lead_def rand_def Let_def kept_def)
  then show ?thesis
    using len m by (auto simp: lead_of_def s copies_def in_set_conv_nth intro: exI [of _ 0] exI [of _ "fst (select_lead c')"])
qed

text \<open>
  (C34) With one copy on the only server of a bucket, with two copies or with three, an object that
  was answered from the cache or admitted is a hit when it is requested again, whichever server is
  picked as the lead for the second request.
\<close>

theorem replicated_request_again_hits:
  assumes "replicated hash z c S" "ec_n (ec_params c) = 1 \<or> cluster_mode (cluster_params c) \<in> {two_rep_always, three_rep_always}"
    and "hv_ok hash req" "fits req" "obj_size req \<le> z" "hv_ok hash req'" "fits req'" "obj_size req' \<le> z" "obj_id_int req' = obj_id_int req"
  shows "\<exists>k req1 c1. cluster_get (H1 hash) req c = Inr (k, req1, c1) \<and>
    (is_hit k \<or> admits c req \<longrightarrow> (\<exists>k' req2 c2. cluster_get (H1 hash) req' c1 = Inr (k', req2, c2) \<and> is_hit k'))"
proof -
  let ?cs = "copies (cluster_mode (cluster_params c)) (servers_of c req) (lead_of c req)"
  obtain k req1 c1 where g: "cluster_get (H1 hash) req c = Inr (k, req1, c1)" "kept c c1"
    "replicated hash z c1 (if is_hit k \<or> admits c req then after_get c req S else S)"
    by (rule cluster_get_replicated [OF assms(1,3-5)])
  have "\<exists>k' req2 c2. cluster_get (H1 hash) req' c1 = Inr (k', req2, c2) \<and> is_hit k'" if a: "is_hit k \<or> admits c req"
  proof -
    let ?l = "lead_of c1 req'"
    have r1: "replicated hash z c1 (after_get c req S)" using g(3) a by simp
    have l: "?l \<in> set ?cs" using lead_in_copies [OF assms(1) g(2) assms(2,9)] .
    have ok: "\<forall>t \<in> set ?cs. server_ok c (obj_size req) t" using copies_ok [OF assms(1)] server_ok_le [OF _ assms(5)] by blast
    then have "\<forall>t \<in> set ?cs. unat (snd (obj_of req)) \<le> size_at c t"
      using fitsD(2) [OF assms(4)] by (auto simp: server_ok_def obj_of_def word_le_nat_alt)
    moreover have "unat ?l < length S" using ok l cluster_rep_length [of hash c S] assms(1) by (auto simp: server_ok_def replicated_def)
    ultimately have "cached (obj_id_int req) (contents_at (after_get c req S) ?l)"
      using store_copies_cached [OF l, of S "obj_of req" c] by (simp add: after_get_def obj_of_def)
    then have f: "found_at c1 (after_get c req S) (obj_id_int req') ?l (second_of c1 req') \<noteq> None" by (simp add: found_at_def assms(9))
    obtain k' req2 c2 where "cluster_get (H1 hash) req' c1 = Inr (k', req2, c2)"
      "is_hit k' \<longleftrightarrow> found_at c1 (after_get c req S) (obj_id_int req') ?l (second_of c1 req') \<noteq> None"
      by (rule cluster_get_replicated [OF r1 assms(6-8)])
    then show ?thesis using f by simp
  qed
  then show ?thesis using g(1) by blast
qed

theorem replicated_request_again_hits_witness:
  "\<exists>k req1 c1 k' req2 c2. cluster_get (H1 (\<lambda>k. k)) (sample_req 7 10) (sample_cluster (\<lambda>k. k) three_rep_always) = Inr (k, req1, c1) \<and>
     cluster_get (H1 (\<lambda>k. k)) (sample_req 7 10) c1 = Inr (k', req2, c2) \<and> is_hit k'"
proof -
  let ?c = "sample_cluster (\<lambda>k. k) three_rep_always" and ?req = "sample_req 7 10"
  have "cluster_mode (cluster_params ?c) \<in> {two_rep_always, three_rep_always}" "admits ?c ?req"
    by (simp_all add: sample_cluster_def admits_def)
  with replicated_request_again_hits [OF sample_replicated _ sample_req_ok(1-3) sample_req_ok(1-3), of three_rep_always "\<lambda>k. k"]
  show ?thesis by auto
qed

end
