(* ===== verification/RepFactor.thy ===== *)
theory RepFactor
  imports ReplicatedCluster
begin

text \<open>
  The replication factor \<^verbatim>\<open>find_rep_factor\<close> reports at the end of a run: the number of copies of every
  object in the available servers, and the counts of the objects by their number of copies.
\<close>

section \<open>The map of all objects\<close>

definition add_obj :: "obj_id_t \<times> u32 \<Rightarrow> objmap \<Rightarrow> objmap" where
  "add_obj x m = AList.update (fst x) (ucast (snd x), case map_of m (fst x) of None \<Rightarrow> 1 | Some (_, n) \<Rightarrow> n + 1) m"

definition copy_cnt :: "objmap \<Rightarrow> obj_id_t \<Rightarrow> u8" where
  "copy_cnt m k = (case map_of m k of None \<Rightarrow> 0 | Some (_, n) \<Rightarrow> n)"

lemma objmap_aux_add: "objmap_aux (the (h p)) = add_obj (payload h p)"
  by (rule ext) (simp add: objmap_aux_def add_obj_def payload_def)

lemma add_obj_keys: "fst ` set (add_obj x m) = insert (fst x) (fst ` set m)" "distinct (map fst m) \<Longrightarrow> distinct (map fst (add_obj x m))"
  by (simp_all add: add_obj_def dom_update distinct_update)

lemma add_obj_cnt: "copy_cnt (add_obj x m) k = copy_cnt m k + (if fst x = k then 1 else 0)"
  by (auto simp: copy_cnt_def add_obj_def update_conv' split: option.split)

lemma add_objs:
  "fst ` set (fold add_obj xs m) = fst ` set xs \<union> fst ` set m"
  "distinct (map fst m) \<Longrightarrow> distinct (map fst (fold add_obj xs m))"
  "copy_cnt (fold add_obj xs m) k = copy_cnt m k + of_nat (count_list (map fst xs) k)"
  by (induction xs arbitrary: m) (auto simp: add_obj_keys add_obj_cnt)

lemma foreach_contents:
  assumes "server_rep hash sv L M"
  obtains ps where "hashtable_foreach (H1 hash) (hashtable (main sv)) = Inr ps" "mset (view (heap (hashtable (main sv))) ps) = mset L"
    "n_obj (main sv) = of_nat (length L)" "occupied_size (main sv) = of_nat (total_size L)"
proof -
  let ?s = "hashtable (main sv)"
  obtain xs where xs: "ht_v1 hash ?s (set xs)" "distinct xs" "L = view (heap ?s) xs" "n_obj (main sv) = of_nat (length xs)"
    "occupied_size (main sv) = of_nat (total_size L)"
    using assms by (auto simp: server_rep_def cache_rep_def cache_at_def linked_def dll_def)
  obtain ps where ps: "chained_hashtable_foreach ?s = Inr ps" "set ps = set xs" "distinct ps"
    using chained_hashtable_foreach_correct [OF xs(1)] by blast
  then have "mset ps = mset xs" using xs(2) by (simp add: set_eq_iff_mset_eq_distinct)
  then have "mset (view (heap ?s) ps) = mset L" by (simp add: xs(3))
  then show thesis using that ps(1) xs(3-5) by (simp add: hashtable_ver1_def)
qed

lemma server_rep_distinct: "server_rep hash sv L M \<Longrightarrow> distinct (map fst L)"
  using v1.cache_rep_facts by (auto simp: server_rep_def wf_contents_def)

section \<open>All servers\<close>

text \<open>The contents of the available servers, and the number of copies of an object.\<close>

definition live_contents :: "cacheServer list \<Rightarrow> aserver list \<Rightarrow> contents list" where
  "live_contents svs S = map (fst \<circ> snd) (filter (available \<circ> fst) (zip svs S))"

definition n_copies :: "contents list \<Rightarrow> obj_id_t \<Rightarrow> nat" where
  "n_copies Ls k = length (filter (cached k) Ls)"

lemma count_list_distinct: "distinct xs \<Longrightarrow> count_list xs x = (if x \<in> set xs then 1 else 0)"
  by (induction xs) auto

lemma collect_objs_correct:
  assumes "list_all2 (\<lambda>sv (L, M). server_rep hash sv L M) svs S" "distinct (map fst m)"
  shows "\<exists>m'. collect_objs (H1 hash) svs (n, b, m) =
      Inr (n + of_nat (sum_list (map length (live_contents svs S))), b + of_nat (sum_list (map total_size (live_contents svs S))), m') \<and>
    distinct (map fst m') \<and> fst ` set m' = fst ` set m \<union> {k. 0 < n_copies (live_contents svs S) k} \<and>
    (\<forall>k. copy_cnt m' k = copy_cnt m k + of_nat (n_copies (live_contents svs S) k))"
  using assms
proof (induction svs S arbitrary: n b m rule: list_all2_induct)
  case Nil
  then show ?case by (simp add: live_contents_def n_copies_def)
next
  case (Cons sv svs A S)
  obtain L M where A: "A = (L, M)" "server_rep hash sv L M" using Cons.hyps(1) by (cases A) auto
  show ?case
  proof (cases "available sv")
    case False
    then show ?thesis using Cons.IH [OF Cons.prems] by (simp add: live_contents_def)
  next
    case True
    obtain ps where ps: "hashtable_foreach (H1 hash) (hashtable (main sv)) = Inr ps" "mset (view (heap (hashtable (main sv))) ps) = mset L"
      "n_obj (main sv) = of_nat (length L)" "occupied_size (main sv) = of_nat (total_size L)" by (rule foreach_contents [OF A(2)])
    let ?Ls = "live_contents svs S"
    define v where "v = view (heap (hashtable (main sv))) ps"
    define m1 where "m1 = fold (\<lambda>p. objmap_aux (the (heap (hashtable (main sv)) p))) ps m"
    have "m1 = fold add_obj v m" unfolding m1_def v_def by (simp add: objmap_aux_add fold_map comp_def)
    moreover have v: "mset v = mset L" using ps(2) by (simp add: v_def)
    then have "set v = set L" "mset (map fst v) = mset (map fst L)" using mset_eq_setD by (blast, simp only: mset_map)
    then have "set v = set L" "distinct (map fst v)" using server_rep_distinct [OF A(2)] mset_eq_imp_distinct_iff by blast+
    ultimately have m1: "distinct (map fst m1)" "fst ` set m1 = fst ` set L \<union> fst ` set m"
      "copy_cnt m1 k = copy_cnt m k + (if cached k L then 1 else 0)" for k
      using Cons.prems add_objs(1) [of v m] add_objs(3) [of v m k]
      by (simp_all add: add_objs(2) count_list_distinct cached_def)
    obtain m' where m': "collect_objs (H1 hash) svs (n + n_obj (main sv), b + occupied_size (main sv), m1) =
        Inr (n + n_obj (main sv) + of_nat (sum_list (map length ?Ls)), b + occupied_size (main sv) + of_nat (sum_list (map total_size ?Ls)), m')"
      "distinct (map fst m')" "fst ` set m' = fst ` set m1 \<union> {k. 0 < n_copies ?Ls k}" "\<forall>k. copy_cnt m' k = copy_cnt m1 k + of_nat (n_copies ?Ls k)"
      using Cons.IH [OF m1(1)] by blast
    have Ls: "live_contents (sv # svs) (A # S) = L # ?Ls" using True A(1) by (simp add: live_contents_def)
    have "fst ` set m' = fst ` set m \<union> {k. 0 < n_copies (L # ?Ls) k}"
      using m'(3) m1(2) by (auto simp: n_copies_def cached_def)
    moreover have "\<forall>k. copy_cnt m' k = copy_cnt m k + of_nat (n_copies (L # ?Ls) k)"
      using m'(4) m1(3) by (simp add: n_copies_def)
    ultimately show ?thesis using True ps(1,3,4) m'(1,2) by (simp add: Ls m1_def [symmetric] add_ac)
  qed
qed

section \<open>Counting\<close>

lemma count_chunks_ok:
  "\<forall>(k, z, n) \<in> set m. 0 < unat n \<and> unat n \<le> length v \<Longrightarrow>
   \<exists>v'. count_chunks m v = Inr v' \<and> length v' = length v \<and>
     (\<forall>j < length v. v' ! j = v ! j + of_nat (length (filter (\<lambda>(k, z, n). unat n = Suc j) m)))"
proof (induction m arbitrary: v)
  case (Cons x m)
  obtain k z n where x: "x = (k, z, n)" by (cases x) auto
  let ?i = "unat n - 1"
  have n: "0 < unat n" "?i < length v" "n \<noteq> 0" using Cons.prems x by auto
  obtain v' where "count_chunks m (v[?i := v ! ?i + 1]) = Inr v'" "length v' = length v"
    "\<forall>j < length v. v' ! j = v[?i := v ! ?i + 1] ! j + of_nat (length (filter (\<lambda>(k, z, n). unat n = Suc j) m))"
    using Cons.IH [of "v[?i := v ! ?i + 1]"] Cons.prems by auto
  then show ?case using n by (auto simp: x add_at_def nth_list_update)
qed simp

lemma count_chunks_error:
  "\<forall>(k, z, n) \<in> set m. 0 < unat n \<Longrightarrow> (k, z, n) \<in> set m \<Longrightarrow> length v < unat n \<Longrightarrow> count_chunks m v = Inl Out_of_bounds"
proof (induction m arbitrary: v)
  case (Cons x m)
  obtain k' z' n' where x: "x = (k', z', n')" by (cases x) auto
  then show ?case using Cons by (auto simp: add_at_def)
qed simp

text \<open>The map of all objects of a cluster: an entry for every cached object, with its number of copies.\<close>

lemma cluster_objmap:
  fixes c :: cacheCluster and S :: "aserver list"
  defines "Ls \<equiv> live_contents (cache_servers c) S"
  assumes "cluster_rep hash c S" "length (cache_servers c) < 128"
  obtains m where "collect_objs (H1 hash) (cache_servers c) (0, 0, []) =
      Inr (of_nat (sum_list (map length Ls)), of_nat (sum_list (map total_size Ls)), m)"
    "\<forall>k. 0 < n_copies Ls k \<longleftrightarrow> k \<in> fst ` set m" "\<forall>(k, z, n) \<in> set m. unat n = n_copies Ls k \<and> 0 < n_copies Ls k"
    "\<forall>P. length (filter (\<lambda>(k, z, n). P (unat n)) m) = card {k. 0 < n_copies Ls k \<and> P (n_copies Ls k)}"
proof -
  obtain m where m: "collect_objs (H1 hash) (cache_servers c) (0, 0, []) =
      Inr (of_nat (sum_list (map length Ls)), of_nat (sum_list (map total_size Ls)), m)" "distinct (map fst m)"
    "fst ` set m = {k. 0 < n_copies Ls k}" "\<forall>k. copy_cnt m k = of_nat (n_copies Ls k)"
    using collect_objs_correct [of hash "cache_servers c" S "[]" 0 0] assms(2) unfolding Ls_def
    by (auto simp: cluster_rep_def copy_cnt_def)
  have "n_copies Ls k < 256" for k
    using assms(3) by (auto simp: n_copies_def Ls_def live_contents_def intro!: le_less_trans [OF length_filter_le])
  then have u: "unat (copy_cnt m k) = n_copies Ls k" for k using m(4) by (simp add: unat_of_nat)
  have e: "unat n = n_copies Ls k" if "(k, z, n) \<in> set m" for k z n
    using u [of k] map_of_is_SomeI [OF m(2) that] by (simp add: copy_cnt_def)
  have pos: "0 < n_copies Ls k" if "(k, z, n) \<in> set m" for k z n using m(3) that by force
  have card: "length (filter (\<lambda>(k, z, n). P (unat n)) m) = card {k. 0 < n_copies Ls k \<and> P (n_copies Ls k)}" for P
  proof -
    have "fst ` set (filter (\<lambda>(k, z, n). P (unat n)) m) = {k \<in> fst ` set m. P (n_copies Ls k)}" using e by force
    then have a: "fst ` set (filter (\<lambda>(k, z, n). P (unat n)) m) = {k. 0 < n_copies Ls k \<and> P (n_copies Ls k)}" by (simp add: m(3))
    have b: "length (filter Q m) = card (fst ` set (filter Q m))" for Q
      using distinct_card [OF distinct_map_filter [OF m(2)], of Q] by simp
    show ?thesis by (simp only: a b)
  qed
  have "\<forall>k. 0 < n_copies Ls k \<longleftrightarrow> k \<in> fst ` set m" by (simp only: m(3) mem_Collect_eq) simp
  moreover have "\<forall>(k, z, n) \<in> set m. unat n = n_copies Ls k \<and> 0 < n_copies Ls k" using e pos by fast
  ultimately show thesis using that [OF m(1)] card by blast
qed

lemma find_rep_factor_ok:
  assumes "cluster_rep hash c S" "length (cache_servers c) < 128"
    "\<And>k. n_copies (live_contents (cache_servers c) S) k \<le> ec_n (ec_params c)"
  shows "\<exists>rep. find_rep_factor (H1 hash) c = Inr rep"
proof -
  let ?Ls = "live_contents (cache_servers c) S" and ?n = "ec_n (ec_params c)"
  obtain m where m: "collect_objs (H1 hash) (cache_servers c) (0, 0, []) =
      Inr (of_nat (sum_list (map length ?Ls)), of_nat (sum_list (map total_size ?Ls)), m)"
    and e: "\<forall>(k, z, n) \<in> set m. unat n = n_copies ?Ls k \<and> 0 < n_copies ?Ls k"
    by (rule cluster_objmap [OF assms(1,2)])
  obtain v where "count_chunks m (replicate ?n 0) = Inr v" using count_chunks_ok [of m "replicate ?n 0"] e assms(3) by fastforce
  then show ?thesis using m by (simp add: find_rep_factor_def Let_def)
qed

text \<open>
  (C35) The replication factor. With \<open>held k\<close> the number of available servers that hold object \<open>k\<close>, the
  report has the number of copies and of different objects, and in entry \<open>j\<close> of \<^verbatim>\<open>n_chunk_cnt\<close> the number of
  objects with \<open>j + 1\<close> copies, provided no object has more than \<open>n\<close> copies. If one has, as can happen
  once servers have failed and recovered, the counter written is beyond the array.
\<close>

theorem find_rep_factor_correct:
  fixes c :: cacheCluster and S :: "aserver list"
  defines "held \<equiv> n_copies (live_contents (cache_servers c) S)"
  assumes "cluster_rep hash c S" "length (cache_servers c) < 128"
  shows "((\<forall>k. held k \<le> ec_n (ec_params c)) \<longrightarrow>
      (\<exists>rep. find_rep_factor (H1 hash) c = Inr rep \<and>
        n_server_obj rep = of_nat (sum_list (map length (live_contents (cache_servers c) S))) \<and>
        n_cluster_obj rep = of_nat (card {k. 0 < held k}) \<and> length (n_chunk_cnt rep) = ec_n (ec_params c) \<and>
        (\<forall>j < ec_n (ec_params c). n_chunk_cnt rep ! j = of_nat (card {k. held k = Suc j})))) \<and>
    ((\<exists>k. ec_n (ec_params c) < held k) \<longrightarrow> find_rep_factor (H1 hash) c = Inl Out_of_bounds)"
proof -
  let ?Ls = "live_contents (cache_servers c) S" and ?n = "ec_n (ec_params c)"
  obtain m where m: "collect_objs (H1 hash) (cache_servers c) (0, 0, []) =
      Inr (of_nat (sum_list (map length ?Ls)), of_nat (sum_list (map total_size ?Ls)), m)"
    and keys: "\<forall>k. 0 < held k \<longleftrightarrow> k \<in> fst ` set m" and e: "\<forall>(k, z, n) \<in> set m. unat n = held k \<and> 0 < held k"
    and card: "\<forall>P. length (filter (\<lambda>(k, z, n). P (unat n)) m) = card {k. 0 < held k \<and> P (held k)}"
    unfolding held_def by (rule cluster_objmap [OF assms(2,3)])
  have n: "length m = card {k. 0 < held k}" using spec [OF card, of "\<lambda>_. True"] by simp
  show ?thesis
  proof (intro conjI impI)
    assume le: "\<forall>k. held k \<le> ?n"
    then obtain v where v: "count_chunks m (replicate ?n 0) = Inr v" "length v = ?n"
      "\<forall>j < ?n. v ! j = of_nat (length (filter (\<lambda>(k, z, n). unat n = Suc j) m))"
      using count_chunks_ok [of m "replicate ?n 0"] e by fastforce
    have "{k. 0 < held k \<and> held k = Suc j} = {k. held k = Suc j}" for j by auto
    then have "length (filter (\<lambda>(k, z, n). unat n = Suc j) m) = card {k. held k = Suc j}" for j
      using spec [OF card, of "\<lambda>n. n = Suc j"] by simp
    then have "\<forall>j < ?n. v ! j = of_nat (card {k. held k = Suc j})" using v(3) by simp
    then show "\<exists>rep. find_rep_factor (H1 hash) c = Inr rep \<and> n_server_obj rep = of_nat (sum_list (map length ?Ls)) \<and>
        n_cluster_obj rep = of_nat (card {k. 0 < held k}) \<and> length (n_chunk_cnt rep) = ?n \<and>
        (\<forall>j < ?n. n_chunk_cnt rep ! j = of_nat (card {k. held k = Suc j}))"
      using m v(1,2) n by (simp add: find_rep_factor_def Let_def)
  next
    assume "\<exists>k. ?n < held k"
    then obtain k where k: "?n < held k" ..
    then have "k \<in> fst ` set m" using spec [OF keys, of k] by linarith
    then obtain z n' where kz: "(k, z, n') \<in> set m" by auto
    have "count_chunks m (replicate ?n 0) = Inl Out_of_bounds"
      using count_chunks_error [OF _ kz, of "replicate ?n 0"] kz k e by fastforce
    then show "find_rep_factor (H1 hash) c = Inl Out_of_bounds" using m by (simp add: find_rep_factor_def Let_def)
  qed
qed

text \<open>Two copies of an object in the sample cluster.\<close>

theorem find_rep_factor_correct_witness:
  "\<exists>c rep. find_rep_factor (H1 (\<lambda>k. k)) c = Inr rep \<and> n_server_obj rep = 2 \<and> n_cluster_obj rep = 1 \<and> n_chunk_cnt rep = [0, 1]"
proof -
  let ?h = "\<lambda>k :: u64. k" and ?req = "sample_req 7 10"
  let ?c = "sample_cluster ?h two_rep_always" and ?S = "empty_servers"
  have sz: "cache_size (main (cache_servers ?c ! 0)) = 100" "cache_size (main (cache_servers ?c ! Suc 0)) = 100"
    by (simp_all add: sample_cluster_def sample_server_def LRU_init_def)
  have "server_ok ?c 10 s" if "s \<in> {0, 1}" for s using that by (intro sample_server_ok) auto
  then obtain req' c where c: "store_full_all (H1 ?h) [0, 1] ?req ?c = Inr (req', c)" "frame ?c c"
    "cluster_rep ?h c (store_copies ?c (obj_of ?req) [0, 1] ?S)"
    using store_full_all_correct [OF sample_cluster_rep [of ?h two_rep_always], of "[0, 1]" ?req] sample_req_ok by (auto simp: sample_req_def)
  define S where "S = store_copies ?c (obj_of ?req) [0, 1] ?S"
  have x: "obj_of ?req = (7, 10)" by (simp add: obj_of_def sample_req_def new_request_def)
  have l: "lru_list 100 (7, 10) [] = [(7, 10)]" by (simp add: lru_list_def spec_get_def Let_def cached_def)
  have em: "empty_servers = [([], \<lambda>_. 0), ([], \<lambda>_. 0), ([], \<lambda>_. 0), ([], \<lambda>_. 0)]"
    by (simp add: empty_servers_def numeral_eq_Suc)
  have S: "map fst S = [[(7, 10)], [(7, 10)], [], []]"
    by (simp add: S_def x store_copy_def sz stored_def Let_def l em)
  have len: "length (cache_servers c) = 4" "ec_n (ec_params c) = 2" using frameD [OF c(2)] by (simp_all add: sample_cluster_def)
  have "\<forall>sv \<in> set (cache_servers ?c). available sv" by (simp add: sample_cluster_def sample_server_def)
  then have "available sv" if "sv \<in> set (cache_servers c)" for sv
    using that frame_lead(2) [OF c(2)] unfolding list_all2_conv_all_nth in_set_conv_nth same_server_def by (metis nth_mem)
  then have "filter (available \<circ> fst) (zip (cache_servers c) S) = zip (cache_servers c) S"
    by (auto simp: filter_id_conv dest: set_zip_leftD)
  moreover have "map snd (zip (cache_servers c) S) = S" using arg_cong [OF S, of length] len by (intro map_snd_zip) simp
  then have "map (fst \<circ> snd) (zip (cache_servers c) S) = map fst S" by (metis map_map)
  ultimately have "live_contents (cache_servers c) S = map fst S" by (simp add: live_contents_def)
  then have L: "live_contents (cache_servers c) S = [[(7, 10)], [(7, 10)], [], []]" using S by simp
  have k: "n_copies [[(7, 10)], [(7, 10)], [], []] k = (if k = 7 then 2 else 0)" for k by (simp add: n_copies_def cached_def)
  have "find_rep_factor (H1 ?h) c = Inr rep \<and> n_server_obj rep = 2 \<and> n_cluster_obj rep = 1 \<and> n_chunk_cnt rep = [0, 1]"
    if "find_rep_factor (H1 ?h) c = Inr rep" "n_server_obj rep = 2" "n_cluster_obj rep = of_nat (card {k :: u64. k = 7})" "length (n_chunk_cnt rep) = 2"
      "\<forall>j < 2. n_chunk_cnt rep ! j = of_nat (card {k :: u64. k = 7 \<and> j = 1})" for rep
    using that by (auto simp: list_eq_iff_nth_eq less_2_cases_iff)
  moreover have e: "{k :: u64. 0 < (if k = 7 then 2 else 0 :: nat)} = {k. k = 7}" "{k :: u64. (if k = 7 then 2 else 0) = Suc j} = {k. k = 7 \<and> j = 1}" for j
    by auto
  ultimately show ?thesis
    using find_rep_factor_correct [OF c(3) [folded S_def]] len unfolding L k e by auto
qed

end
