(* ===== verification/ReplicatedRun.thy ===== *)
theory ReplicatedRun
  imports RepFactor Simulator ReaderProps
begin

text \<open>
  A whole run of the simulator with full copies: every record of the trace is read, requested from
  the cluster and counted, and the run comes to its end. For the report at the end, objects stay on
  the servers of their bucket, so that none has more copies than the array of counters has entries.
\<close>

section \<open>Where objects are\<close>

definition placed :: "cacheCluster \<Rightarrow> aserver list \<Rightarrow> bool" where
  "placed c S \<longleftrightarrow> (\<forall>k s. unat s < length S \<and> cached k (contents_at S s) \<longrightarrow>
     s \<in> set (take (ec_n (ec_params c)) (the (ch_mapping c (ucast (k mod of_nat N_BUCKET))))))"

text \<open>The modes with the numbers of copies \<^verbatim>\<open>prepare_arg\<close> asks for.\<close>

definition copy_mode :: "cacheCluster \<Rightarrow> bool" where
  "copy_mode c \<longleftrightarrow> (let m = cluster_mode (cluster_params c); n = ec_n (ec_params c) in
     m = no_replication \<and> n = 1 \<or> (m = two_rep_popularity \<or> m = two_rep_always) \<and> n = 2 \<or> m = three_rep_always \<and> n = 3)"

lemma placed_kept: "kept c c' \<Longrightarrow> placed c' S = placed c S" "kept c c' \<Longrightarrow> copy_mode c' = copy_mode c"
  by (simp_all add: placed_def copy_mode_def kept_def)

lemma copies_within:
  assumes "replicated hash z c S" "copy_mode c"
  shows "set (copies (cluster_mode (cluster_params c)) (servers_of c req) (lead_of c req)) \<subseteq> set (take (ec_n (ec_params c)) (servers_of c req))"
proof -
  have len: "3 \<le> length (servers_of c req)" using replicated_servers [OF assms(1), of req] by blast
  have le3: "ec_n (ec_params c) \<le> 3" using assms(2) by (auto simp: copy_mode_def Let_def)
  have "fst (select_lead c) < ec_n (ec_params c)"
    using assms(2) by (auto simp: copy_mode_def Let_def select_lead_def rand_def)
  then have "lead_of c req \<in> set (take (ec_n (ec_params c)) (servers_of c req))"
    using len assms(2) nth_mem [of "fst (select_lead c)" "take (ec_n (ec_params c)) (servers_of c req)"] le3
    by (simp add: lead_of_def)
  then show ?thesis using assms(2) by (auto simp: copies_def copy_mode_def Let_def)
qed

lemma placed_store_copies:
  assumes "placed c S" "set ss \<subseteq> set (take (ec_n (ec_params c)) (servers_of c req))"
  shows "placed c (store_copies c (obj_of req) ss S)"
  using assms
proof (induction ss arbitrary: S)
  case (Cons t ss)
  have "placed c (store_copy c (obj_of req) t S)"
    unfolding placed_def
  proof (intro allI impI)
    fix k s
    assume k: "unat s < length (store_copy c (obj_of req) t S) \<and> cached k (contents_at (store_copy c (obj_of req) t S) s)"
    then have "cached k (contents_at S s) \<or> s = t \<and> k = obj_id_int req"
      using lru_list_sub [of k "size_at c t" "obj_of req" "fst (S ! unat t)"]
      by (cases "s = t") (auto simp: store_copy_def stored_def Let_def obj_of_def word_unat_eq_iff)
    then show "s \<in> set (take (ec_n (ec_params c)) (the (ch_mapping c (ucast (k mod of_nat N_BUCKET)))))"
      using Cons.prems k by (auto simp: placed_def servers_of_def req_bucket_def store_copy_def)
  qed
  then show ?case using Cons by simp
qed simp

lemma n_copies_le: "n_copies (live_contents svs S) k \<le> length (filter (cached k \<circ> fst) S)"
  by (induction svs S rule: list_induct2') (auto simp: n_copies_def live_contents_def)

lemma placed_copies:
  assumes "placed c S" "length S < 2 ^ 32"
  shows "n_copies (live_contents svs S) k \<le> ec_n (ec_params c)"
proof -
  let ?B = "set (take (ec_n (ec_params c)) (the (ch_mapping c (ucast (k mod of_nat N_BUCKET)))))"
  have "n_copies (live_contents svs S) k \<le> length (filter (cached k \<circ> fst) S)" by (rule n_copies_le)
  also have "\<dots> = card {i. i < length S \<and> cached k (fst (S ! i))}" by (simp add: length_filter_conv_card)
  also have "\<dots> \<le> card (unat ` ?B)"
  proof (rule card_mono)
    show "{i. i < length S \<and> cached k (fst (S ! i))} \<subseteq> unat ` ?B"
    proof
      fix i assume i: "i \<in> {i. i < length S \<and> cached k (fst (S ! i))}"
      then have u: "unat (of_nat i :: u32) = i" using assms(2) by (simp add: unat_of_nat)
      then have "of_nat i \<in> ?B" using assms(1) i unfolding placed_def by (metis (mono_tags) mem_Collect_eq)
      then show "i \<in> unat ` ?B" using u by (metis image_eqI)
    qed
  qed simp
  also have "\<dots> \<le> card ?B" by (rule card_image_le) simp
  also have "\<dots> \<le> ec_n (ec_params c)" by (rule order_trans [OF card_length]) simp
  finally show ?thesis .
qed

section \<open>Steps of the thread\<close>

definition runnable :: "(obj_id_t \<Rightarrow> u64) \<Rightarrow> u64 \<Rightarrow> cacheCluster \<Rightarrow> bool" where
  "runnable hash z c \<longleftrightarrow> copy_mode c \<and> length (cache_servers c) < 128 \<and> length (cache_servers c) \<le> length (bucket_stat c) \<and>
     (\<exists>S. replicated hash z c S \<and> placed c S)"

lemma get_runnable:
  assumes "runnable hash z c" "hv_ok hash req" "fits req" "obj_size req \<le> z"
  obtains k req' c' where "cluster_get (H1 hash) req c = Inr (k, req', c')" "runnable hash z c'" "op req' = op req"
proof -
  obtain S where S: "replicated hash z c S" "placed c S" using assms(1) by (auto simp: runnable_def)
  have m: "copy_mode c" "length (cache_servers c) < 128" "length (cache_servers c) \<le> length (bucket_stat c)"
    using assms(1) by (auto simp: runnable_def)
  obtain k req' c' where g: "cluster_get (H1 hash) req c = Inr (k, req', c')" "kept c c'"
    "replicated hash z c' (if is_hit k \<or> admits c req then after_get c req S else S)" "op req' = op req"
    by (rule cluster_get_replicated [OF S(1) assms(2-4)])
  have "placed c (after_get c req S)"
    unfolding after_get_def by (rule placed_store_copies [OF S(2) copies_within [OF S(1) m(1)]])
  then have "placed c' (if is_hit k \<or> admits c req then after_get c req S else S)"
    using S(2) placed_kept(1) [OF g(2)] by simp
  then have "runnable hash z c'"
    using g(3) m placed_kept(2) [OF g(2)] kept_length [OF g(2)] g(2) unfolding runnable_def by (auto simp: kept_def)
  then show thesis using that g(1,4) by blast
qed

lemma write_log_runnable:
  assumes "runnable hash z (cache_cluster th)"
  obtains th' where "write_log req th = Inr th'" "runnable hash z (cache_cluster th')" "t_reader th' = t_reader th"
    "failure_vector_deque th' = failure_vector_deque th"
proof -
  let ?c = "cache_cluster th"
  let ?n = "length (cache_servers ?c)"
  have n: "?n \<le> length (bucket_stat ?c)" using assms by (simp add: runnable_def)
  let ?c' = "?c\<lparr>bucket_stat := replicate ?n zero_bucketStat @ drop ?n (bucket_stat ?c)\<rparr>"
  have k: "kept ?c ?c'" using n by (simp add: kept_def list.rel_refl)
  have "replicated hash z ?c' S" if "replicated hash z ?c S" for S
    using that by (intro replicated_kept [OF that k]) (simp_all add: replicated_def)
  then have "runnable hash z ?c'" using assms n placed_kept [OF k] by (auto simp: runnable_def)
  then have "\<exists>th'. write_log req th = Inr th' \<and> runnable hash z (cache_cluster th') \<and> t_reader th' = t_reader th \<and>
      failure_vector_deque th' = failure_vector_deque th"
    using assms n by (simp add: write_log_def Let_def not_less)
  then show thesis using that by blast
qed

lemma thread_step_runnable:
  assumes "runnable hash z (cache_cluster th)" "failure_vector_deque th = []" "hv_ok hash req" "fits req" "obj_size req \<le> z"
  obtains k req' th' where "thread_step (H1 hash) h mf req th = Inr (k, req', th')" "runnable hash z (cache_cluster th')"
    "t_reader th' = t_reader th" "failure_vector_deque th' = []" "op req' = op req"
proof -
  obtain k req' c' where g: "cluster_get (H1 hash) req (cache_cluster th) = Inr (k, req', c')" "runnable hash z c'" "op req' = op req"
    by (rule get_runnable [OF assms(1,3-5)])
  let ?th = "th\<lparr>vtime := vtime th + 1, cache_cluster := c'\<rparr>"
  have "runnable hash z (cache_cluster ?th)" using g(2) by simp
  then obtain th' where w: "write_log req' ?th = Inr th'" "runnable hash z (cache_cluster th')" "t_reader th' = t_reader ?th"
    "failure_vector_deque th' = failure_vector_deque ?th" by (rule write_log_runnable)
  have "thread_step (H1 hash) h mf req th = Inr (k, req', th')"
    using g(1) w(1) assms(2) by (simp add: thread_step_def update_availability_def Let_def)
  then show thesis using that w assms(2) g(3) by simp
qed

section \<open>The loop\<close>

text \<open>The sizes of the records are positive and fit the servers.\<close>

definition sizes_ok :: "u64 \<Rightarrow> (u32 \<times> u32 \<times> u32) list \<Rightarrow> bool" where
  "sizes_ok z rs \<longleftrightarrow> (\<forall>(t, i, y) \<in> set rs. 0 < y \<and> ucast y \<le> z)"

lemma record_req:
  fixes t i :: u32
  assumes "0 < y" "ucast y \<le> z" "op_ok req"
  defines "q \<equiv> req\<lparr>hv := 0, valid := True, real_time := ucast t, obj_id_int := ucast i, obj_size := ucast (y :: u32)\<rparr>"
  shows "hv_ok hash q" "fits q" "obj_size q \<le> z" "valid q" "op_ok q"
proof -
  have "unat (ucast y :: u64) = unat y" using unat_u32_less [of y] by (simp add: unsigned_ucast_eq take_bit_nat_eq_self)
  then show "fits q" using assms(1) unat_u32_less [of y] by (simp add: fits_def q_def word_less_nat_alt)
qed (use assms in \<open>simp_all add: hv_ok_def op_ok_def\<close>)

lemma thread_loop_completes:
  assumes "runnable hash z (cache_cluster th)" "failure_vector_deque th = []" "at_records (t_reader th) rs" "sizes_ok z rs"
    "hv_ok hash req" "fits req" "obj_size req \<le> z" "valid req" "op_ok req" "length rs + 2 \<le> n"
  shows "\<exists>hits th'. thread_loop n (H1 hash) csv g h mf req th = Inr (hits, th') \<and> length hits = Suc (length rs) \<and>
    runnable hash z (cache_cluster th')"
  using assms
proof (induction rs arbitrary: n req th)
  case Nil
  obtain k req1 th1 where st: "thread_step (H1 hash) h mf req th = Inr (k, req1, th1)" "runnable hash z (cache_cluster th1)"
    "t_reader th1 = t_reader th" by (rule thread_step_runnable [OF Nil.prems(1,2,5-7)])
  obtain reader req2 where rd: "read_one_req csv g (t_reader th) req1 = Inr (1, reader, req2)" "\<not> valid req2"
    by (rule read_end [OF Nil.prems(3)])
  obtain n' where "n = Suc (Suc n')" using Nil.prems(10) by (auto simp: le_iff_add)
  then show ?case using st rd Nil.prems(8) by simp
next
  case (Cons r rs)
  obtain t i y where r: "r = (t, i, y)" by (cases r) auto
  have y: "0 < y" "ucast y \<le> z" "sizes_ok z rs" using Cons.prems(4) by (auto simp: sizes_ok_def r)
  obtain k req1 th1 where st: "thread_step (H1 hash) h mf req th = Inr (k, req1, th1)" "runnable hash z (cache_cluster th1)"
    "t_reader th1 = t_reader th" "failure_vector_deque th1 = []" "op req1 = op req"
    by (rule thread_step_runnable [OF Cons.prems(1,2,5-7)])
  have o1: "op_ok req1" using st(5) Cons.prems(9) by (simp add: op_ok_def)
  let ?q = "req1\<lparr>hv := 0, valid := True, real_time := ucast t, obj_id_int := ucast i, obj_size := ucast y\<rparr>"
  obtain reader where rd: "read_one_req csv g (t_reader th) req1 = Inr (0, reader, ?q)" "at_records reader rs"
    by (rule read_next [OF Cons.prems(3) [unfolded r] o1])
  obtain n' where n': "n = Suc n'" "length rs + 2 \<le> n'" using Cons.prems(10) by (cases n) auto
  have "\<exists>hits th'. thread_loop n' (H1 hash) csv g h mf ?q (th1\<lparr>t_reader := reader\<rparr>) = Inr (hits, th') \<and>
      length hits = Suc (length rs) \<and> runnable hash z (cache_cluster th')"
    using st(2,4) rd(2) y(3) n'(2) record_req [OF y(1,2) o1, where t = t and i = i]
    by (intro Cons.IH) simp_all
  then show ?case using st(1,3) rd(1) n'(1) Cons.prems(8) by auto
qed

lemma rep_factor_runnable:
  assumes "runnable hash z c"
  obtains rep where "find_rep_factor (H1 hash) c = Inr rep"
proof -
  obtain S where S: "cluster_rep hash c S" "placed c S" "length (cache_servers c) < 128"
    using assms by (auto simp: runnable_def replicated_def)
  then have "length S < 2 ^ 32" using cluster_rep_length [OF S(1)] by simp
  from find_rep_factor_ok [OF S(1,3)] placed_copies [OF S(2) this] show thesis using that by blast
qed

lemma thread_run_runnable:
  assumes "runnable hash z (cache_cluster th)" "failure_vector_deque th = []" "at_records (t_reader th) rs" "sizes_ok z rs" "rs \<noteq> []"
  shows "\<exists>hits rep th'. thread_run (H1 hash) csv g h mf th = Inr (hits, rep, th') \<and> length hits = length rs"
proof -
  obtain t i y rs' where r: "rs = (t, i, y) # rs'" using assms(5) by (cases rs) auto
  have y: "0 < y" "ucast y \<le> z" "sizes_ok z rs'" using assms(4) by (auto simp: sizes_ok_def r)
  have o1: "op_ok new_request" by (simp add: op_ok_def new_request_def)
  let ?q = "new_request\<lparr>hv := 0, valid := True, real_time := ucast t, obj_id_int := ucast i, obj_size := ucast y\<rparr>"
  obtain reader where rd: "read_one_req csv g (t_reader th) new_request = Inr (0, reader, ?q)" "at_records reader rs'"
    "mapped_file reader = mapped_file (t_reader th)"
    by (rule read_next [OF assms(3) [unfolded r] o1])
  note q = record_req [OF y(1,2) o1, where t = t and i = i]
  have z: "\<not> obj_size ?q \<le> 0" using q(2) by (auto simp: fits_def word_le_nat_alt)
  let ?th = "th\<lparr>t_reader := reader, cache_start_time := real_time ?q, last_cluster_unavailability_update := real_time ?q,
      last_log_otime := real_time ?q, last_rep_coef_log_otime := real_time ?q, prev_failed_servers := []\<rparr>"
  have "length rs' + 2 \<le> length (mapped_file reader) + 2"
    using rd(3) assms(3) by (auto simp: at_records_def r length_akamai)
  then obtain hits th' where l: "thread_loop (length (mapped_file reader) + 2) (H1 hash) csv g h mf ?q ?th = Inr (hits, th')"
    "length hits = Suc (length rs')" "runnable hash z (cache_cluster th')"
    using thread_loop_completes [of hash z ?th rs' ?q "length (mapped_file reader) + 2" csv g h mf] assms(1,2) rd(2) y(3) q by auto
  obtain rep where "find_rep_factor (H1 hash) (cache_cluster th') = Inr rep" by (rule rep_factor_runnable [OF l(3)])
  then show ?thesis using rd(1) l(1,2) z r unfolding thread_run_def Let_def by (simp del: thread_loop.simps)
qed

text \<open>
  (C2) A run comes to its end. For a cluster of LRU servers that keeps one, two or three copies (with
  the \<open>n\<close> the set-up asks for), any trace in the simulator's format whose objects fit the servers, and
  no failures: the reader is set up, the thread handles every record with exactly one request,
  whatever the lead servers picked, no assertion fails, nothing is read or written out of bounds, the
  replication factor is reported and the thread returns.
\<close>

theorem simulation_completes:
  assumes "runnable hash z c" "rs \<noteq> []" "sizes_ok z rs"
    and "fs path = Some (akamai_trace rs)" "length path < MAX_FILE_PATH_LEN" "12 * length rs < 2 ^ 64"
  shows "\<exists>reader th hits rep th'. setup_reader csv fs path BIN_TRACE id_type akamai_params = Inr reader \<and>
    new_cacheClusterThread c reader [] interval = Inr th \<and>
    thread_run (H1 hash) csv g_quark ring_hash max_flow th = Inr (hits, rep, th') \<and> length hits = length rs"
proof -
  obtain reader where rd: "setup_reader csv fs path BIN_TRACE id_type akamai_params = Inr reader" "at_records reader rs"
    by (rule setup_akamai [where fs = fs and path = path, OF assms(2,4-6)])
  obtain th where th: "new_cacheClusterThread c reader [] interval = Inr th" "cache_cluster th = c" "t_reader th = reader"
    "failure_vector_deque th = []" by (simp add: new_cacheClusterThread_def load_failure_data_def)
  then show ?thesis using thread_run_runnable [of hash z th rs csv g_quark ring_hash max_flow] rd assms(1-3) by auto
qed

theorem simulation_completes_witness:
  "\<exists>reader th hits rep th'.
    setup_reader no_csv [''t'' \<mapsto> akamai_trace [(5, 70, 30), (6, 71, 40), (7, 70, 30)]] ''t'' BIN_TRACE OBJ_ID_NUM akamai_params = Inr reader \<and>
    new_cacheClusterThread (sample_cluster (\<lambda>x. x) two_rep_always) reader [] 300 = Inr th \<and>
    thread_run (H1 (\<lambda>x. x)) no_csv (\<lambda>_. 0) (\<lambda>x. x) (\<lambda>_. []) th = Inr (hits, rep, th') \<and> length hits = 3"
proof -
  let ?rs = "[(5, 70, 30), (6, 71, 40), (7, 70, 30)] :: (u32 \<times> u32 \<times> u32) list" and ?c = "sample_cluster (\<lambda>x. x) two_rep_always"
  have "placed ?c empty_servers" by (auto simp: placed_def empty_servers_def cached_def)
  then have r: "runnable (\<lambda>x. x) 100 ?c"
    using sample_replicated [of two_rep_always "\<lambda>x. x"]
    by (auto simp: runnable_def copy_mode_def Let_def) (simp_all add: sample_cluster_def)
  have "?rs \<noteq> []" "sizes_ok 100 ?rs" "[''t'' \<mapsto> akamai_trace ?rs] ''t'' = Some (akamai_trace ?rs)"
    "length ''t'' < MAX_FILE_PATH_LEN" "12 * length ?rs < 2 ^ 64" by (simp_all add: sizes_ok_def MAX_FILE_PATH_LEN_def)
  from simulation_completes [where fs = "[''t'' \<mapsto> akamai_trace ?rs]" and path = "''t''", OF r this,
      of no_csv OBJ_ID_NUM 300 "\<lambda>_. 0" "\<lambda>x. x" "\<lambda>_. []"]
  show ?thesis by (simp add: numeral_3_eq_3)
qed

end
