(* ===== verification/MissRatioCurve.thy ===== *)
theory MissRatioCurve
  imports EvictionAlgo Reader Ieee
begin

text \<open>
  \<^verbatim>\<open>profiler/simulator.c\<close> of libCacheSim: miss ratios for many cache sizes, one simulation per size in
  a pool of threads. A simulation works on its own reader and its own cache and is a function; what
  the threads share, the array of results and the counter \<^verbatim>\<open>progress\<close> with its mutex, is the state of a
  step relation whose runs are all the ways the threads can be interleaved. Messages are left out.
\<close>

section \<open>One simulation\<close>

record cache_state_t =
  stored_obj_cnt :: u64
  used_bytes :: u64
  cs_cache_size :: u64
  expired_obj_cnt :: u64
  expired_bytes :: u64
  cur_time :: u64

record sim_res_t =
  r_req_cnt :: u64
  r_req_bytes :: u64
  r_miss_cnt :: u64
  r_miss_bytes :: u64
  r_cache_size :: u64
  r_cache_state :: cache_state_t

text \<open>A reader comes with the path of its trace, which \<^verbatim>\<open>clone_reader\<close> opens again.\<close>

record sim_mt_params_t =
  mt_reader :: "string \<times> reader_t"
  mt_cache :: cache_t
  n_warmup_req :: u64
  mt_warmup_reader :: "(string \<times> reader_t) option"

type_synonym get_fn = "cache_t \<Rightarrow> request_t \<Rightarrow> (cache_ck_res_e \<times> request_t \<times> cache_t) result"

text \<open>Requests that warm up the cache, all of a trace or at most \<open>m\<close>.\<close>

fun warm_up ::
  "nat \<Rightarrow> csv_ops \<Rightarrow> (u8 list \<Rightarrow> u32) \<Rightarrow> get_fn \<Rightarrow> u64 option \<Rightarrow> u64 \<Rightarrow> reader_t \<Rightarrow> request_t \<Rightarrow> cache_t \<Rightarrow>
   (reader_t \<times> request_t \<times> cache_t) result" where
  "warm_up 0 csv g_quark get m n_warmup reader req cache = Inl Diverges"
| "warm_up (Suc k) csv g_quark get m n_warmup reader req cache =
    (if valid req \<and> (case m of None \<Rightarrow> True | Some m \<Rightarrow> n_warmup < m) then
       rbind (get cache req) (\<lambda>(_, req, cache).
       rbind (read_one_req csv g_quark reader req) (\<lambda>(_, reader, req).
       warm_up k csv g_quark get m (n_warmup + 1) reader req cache))
     else Inr (reader, req, cache))"

text \<open>The requests that are counted: requests, their bytes, misses, their bytes.\<close>

fun count_misses ::
  "nat \<Rightarrow> csv_ops \<Rightarrow> (u8 list \<Rightarrow> u32) \<Rightarrow> get_fn \<Rightarrow> u64 \<times> u64 \<times> u64 \<times> u64 \<Rightarrow> reader_t \<Rightarrow> request_t \<Rightarrow> cache_t \<Rightarrow>
   ((u64 \<times> u64 \<times> u64 \<times> u64) \<times> request_t \<times> cache_t) result" where
  "count_misses 0 csv g_quark get cnt reader req cache = Inl Diverges"
| "count_misses (Suc k) csv g_quark get (n_req, b_req, n_mis, b_mis) reader req cache =
    (if valid req then
       (let n_req = n_req + 1; b_req = b_req + obj_size req in
        rbind (get cache req) (\<lambda>(res, req, cache).
        let miss = (res \<noteq> cache_ck_hit);
            n_mis = (if miss then n_mis + 1 else n_mis);
            b_mis = (if miss then b_mis + obj_size req else b_mis) in
        rbind (read_one_req csv g_quark reader req) (\<lambda>(_, reader, req).
        count_misses k csv g_quark get (n_req, b_req, n_mis, b_mis) reader req cache)))
     else Inr ((n_req, b_req, n_mis, b_mis), req, cache))"

text \<open>\<^verbatim>\<open>_get_mrc_thread\<close> up to the report of its progress: the entry of the array it writes.\<close>

definition get_mrc_thread ::
  "csv_ops \<Rightarrow> (u8 list \<Rightarrow> u32) \<Rightarrow> (string \<Rightarrow> u8 list option) \<Rightarrow> ht_ops \<Rightarrow> get_fn \<Rightarrow> sim_mt_params_t \<Rightarrow> sim_res_t \<Rightarrow> sim_res_t result" where
  "get_mrc_thread csv g_quark fs H get params result =
    rbind (clone_reader csv fs (fst (mt_reader params)) (snd (mt_reader params))) (\<lambda>reader.
    let req = new_request; local_cache = create_cache_with_new_size H (mt_cache params) (r_cache_size result) in
    rbind (case mt_warmup_reader params of
             None \<Rightarrow> Inr (req, local_cache)
           | Some (path, warmup) \<Rightarrow>
               rbind (clone_reader csv fs path warmup) (\<lambda>warmup.
               rbind (read_one_req csv g_quark warmup req) (\<lambda>(_, warmup, req).
               rbind (warm_up (length (mapped_file warmup) + 2) csv g_quark get None 0 warmup req local_cache)
                 (\<lambda>(_, req, local_cache). Inr (req, local_cache))))) (\<lambda>(req, local_cache).
    rbind (read_one_req csv g_quark reader req) (\<lambda>(_, reader, req).
    rbind (if n_warmup_req params > 0
           then warm_up (length (mapped_file reader) + 2) csv g_quark get (Some (n_warmup_req params)) 0 reader req local_cache
           else Inr (reader, req, local_cache)) (\<lambda>(reader, req, local_cache).
    rbind (count_misses (length (mapped_file reader) + 2) csv g_quark get (0, 0, 0, 0) reader req local_cache)
      (\<lambda>((n_req, b_req, n_mis, b_mis), req, local_cache).
    rbind (if default_ttl local_cache \<noteq> 0 then
             rbind (get_cache_state H local_cache) (\<lambda>(n, b).
             let st = r_cache_state result;
                 st = st\<lparr>cur_time := real_time req, cs_cache_size := cache_size local_cache,
                   stored_obj_cnt := stored_obj_cnt st + n, used_bytes := used_bytes st + b\<rparr>
             in if used_bytes st = occupied_size local_cache then Inr st else Inl Assert_failed)
           else Inr (r_cache_state result)) (\<lambda>st.
    Inr (result\<lparr>r_miss_bytes := b_mis, r_miss_cnt := n_mis, r_req_cnt := n_req, r_req_bytes := b_req,
      r_cache_state := st\<rparr>)))))))"

section \<open>The pool of threads\<close>

text \<open>Where the thread of a size stands: its task not pushed yet, waiting in the queue, running, its result
  written, the mutex taken, the value of \<^verbatim>\<open>progress\<close> read, the new one written, returned. And where
  \<^verbatim>\<open>get_miss_ratio_curve\<close> stands: pushing task \<open>i\<close>, waiting for progress, freeing the pool.\<close>

datatype task_phase = Unpushed | Queued | Started | Written | Locked | Loaded nat | Stored | Exited

datatype main_phase = Pushing nat | Waiting | Freeing | Returned

record mrc_state =
  tasks :: "task_phase list"
  mrc_results :: "sim_res_t list"
  progress :: nat
  mtx :: "nat option"
  main_at :: main_phase

definition in_pool :: "task_phase \<Rightarrow> bool" where
  "in_pool t \<longleftrightarrow> t \<noteq> Unpushed \<and> t \<noteq> Queued \<and> t \<noteq> Exited"

definition new_sim_res :: "u64 \<Rightarrow> sim_res_t" where
  "new_sim_res z = \<lparr>r_req_cnt = 0, r_req_bytes = 0, r_miss_cnt = 0, r_miss_bytes = 0, r_cache_size = z,
     r_cache_state = \<lparr>stored_obj_cnt = 0, used_bytes = 0, cs_cache_size = 0, expired_obj_cnt = 0,
       expired_bytes = 0, cur_time = 0\<rparr>\<rparr>"

definition mrc_start :: "u64 list \<Rightarrow> mrc_state" where
  "mrc_start cache_sizes =
    \<lparr>tasks = replicate (length cache_sizes) Unpushed, mrc_results = map new_sim_res cache_sizes, progress = 0, mtx = None,
     main_at = Pushing 0\<rparr>"

text \<open>The steps, with the simulation of a size as the argument \<open>sim\<close>. The pool runs its tasks in the order
  they were pushed, at most \<open>n_threads\<close> at a time. A simulation that fails aborts the process, no step
  follows. The bound of the waiting loop is computed in \<^verbatim>\<open>uint64_t\<close>.\<close>

inductive mrc_step :: "(sim_res_t \<Rightarrow> sim_res_t result) \<Rightarrow> nat \<Rightarrow> mrc_state \<Rightarrow> mrc_state \<Rightarrow> bool" for sim n_threads where
  push: "main_at s = Pushing i \<Longrightarrow> i < length (tasks s) \<Longrightarrow>
    mrc_step sim n_threads s (s\<lparr>tasks := (tasks s)[i := Queued], main_at := Pushing (Suc i)\<rparr>)"
| pushed: "main_at s = Pushing (length (tasks s)) \<Longrightarrow> mrc_step sim n_threads s (s\<lparr>main_at := Waiting\<rparr>)"
| leave: "main_at s = Waiting \<Longrightarrow> \<not> of_nat (progress s) < (of_nat (length (tasks s)) - 1 :: u64) \<Longrightarrow>
    mrc_step sim n_threads s (s\<lparr>main_at := Freeing\<rparr>)"
| free: "main_at s = Freeing \<Longrightarrow> \<forall>t \<in> set (tasks s). t = Exited \<Longrightarrow> mrc_step sim n_threads s (s\<lparr>main_at := Returned\<rparr>)"
| start: "i < length (tasks s) \<Longrightarrow> tasks s ! i = Queued \<Longrightarrow> \<forall>j < i. tasks s ! j \<noteq> Queued \<Longrightarrow>
    length (filter in_pool (tasks s)) < n_threads \<Longrightarrow>
    mrc_step sim n_threads s (s\<lparr>tasks := (tasks s)[i := Started]\<rparr>)"
| simulate: "i < length (tasks s) \<Longrightarrow> tasks s ! i = Started \<Longrightarrow> sim (mrc_results s ! i) = Inr r \<Longrightarrow>
    mrc_step sim n_threads s (s\<lparr>tasks := (tasks s)[i := Written], mrc_results := (mrc_results s)[i := r]\<rparr>)"
| lock: "i < length (tasks s) \<Longrightarrow> tasks s ! i = Written \<Longrightarrow> mtx s = None \<Longrightarrow>
    mrc_step sim n_threads s (s\<lparr>tasks := (tasks s)[i := Locked], mtx := Some i\<rparr>)"
| load_progress: "i < length (tasks s) \<Longrightarrow> tasks s ! i = Locked \<Longrightarrow>
    mrc_step sim n_threads s (s\<lparr>tasks := (tasks s)[i := Loaded (progress s)]\<rparr>)"
| store_progress: "i < length (tasks s) \<Longrightarrow> tasks s ! i = Loaded v \<Longrightarrow>
    mrc_step sim n_threads s (s\<lparr>tasks := (tasks s)[i := Stored], progress := v + 1\<rparr>)"
| unlock: "i < length (tasks s) \<Longrightarrow> tasks s ! i = Stored \<Longrightarrow>
    mrc_step sim n_threads s (s\<lparr>tasks := (tasks s)[i := Exited], mtx := None\<rparr>)"

inductive_cases mrc_stepE: "mrc_step sim n_threads s s'"

text \<open>The parameters of \<^verbatim>\<open>get_miss_ratio_curve\<close>, with the number of requests that warm up the cache, and the
  sizes of \<^verbatim>\<open>get_miss_ratio_curve_with_step_size\<close>.\<close>

definition mrc_params ::
  "csv_ops \<Rightarrow> string \<times> reader_t \<Rightarrow> cache_t \<Rightarrow> (string \<times> reader_t) option \<Rightarrow> rat \<Rightarrow> sim_mt_params_t result" where
  "mrc_params csv r cache warmup warmup_perc =
    rbind (get_num_of_req csv (snd r)) (\<lambda>(n, reader).
    Inr \<lparr>mt_reader = (fst r, reader), mt_cache = cache,
      n_warmup_req = of_int \<lfloor>to_double (to_double (of_nat (unat n)) * warmup_perc)\<rfloor>, mt_warmup_reader = warmup\<rparr>)"

definition step_sizes :: "cache_t \<Rightarrow> u64 \<Rightarrow> u64 list" where
  "step_sizes cache step_size =
    (let num_of_sizes = nat \<lceil>to_double (to_double (of_nat (unat (cache_size cache))) / to_double (of_nat (unat step_size)))\<rceil>
     in map (\<lambda>i. step_size * (of_nat i + 1)) [0 ..< num_of_sizes])"

end
