(* ===== verification/MissRatioProps.thy ===== *)
theory MissRatioProps
  imports MissRatioCurve
begin

text \<open>
  All interleavings of the threads of \<^verbatim>\<open>get_miss_ratio_curve\<close> give the same results: invariants of the
  step relation, a rank that falls with every step, and that no state before the return is stuck.
\<close>

section \<open>Invariants\<close>

text \<open>The number of steps a thread has left.\<close>

fun steps_left :: "task_phase \<Rightarrow> nat" where
  "steps_left Unpushed = 7" | "steps_left Queued = 6" | "steps_left Started = 5" | "steps_left Written = 4"
| "steps_left Locked = 3" | "steps_left (Loaded v) = 2" | "steps_left Stored = 1" | "steps_left Exited = 0"

fun main_left :: "main_phase \<Rightarrow> nat" where
  "main_left (Pushing i) = 3" | "main_left Waiting = 2" | "main_left Freeing = 1" | "main_left Returned = 0"

definition critical :: "task_phase \<Rightarrow> bool" where
  "critical t \<longleftrightarrow> 1 \<le> steps_left t \<and> steps_left t \<le> 3"

text \<open>The results are those of the simulations that have been run; the mutex has the number of the
  thread in the critical section; \<^verbatim>\<open>progress\<close> counts the threads that have stored it.\<close>

definition results_ok :: "sim_res_t list \<Rightarrow> sim_res_t list \<Rightarrow> mrc_state \<Rightarrow> bool" where
  "results_ok rs res s \<longleftrightarrow> length (tasks s) = length rs \<and> length (mrc_results s) = length rs \<and>
     (\<forall>i < length rs. mrc_results s ! i = (if steps_left (tasks s ! i) \<le> 4 then res ! i else rs ! i))"

definition mutex_ok :: "mrc_state \<Rightarrow> bool" where
  "mutex_ok s \<longleftrightarrow> (\<forall>i. mtx s = Some i \<longrightarrow> i < length (tasks s)) \<and>
     (\<forall>i < length (tasks s). mtx s = Some i \<longleftrightarrow> critical (tasks s ! i))"

definition progress_ok :: "mrc_state \<Rightarrow> bool" where
  "progress_ok s \<longleftrightarrow> progress s = length (filter (\<lambda>t. steps_left t \<le> 1) (tasks s)) \<and>
     (\<forall>i < length (tasks s). \<forall>v. tasks s ! i = Loaded v \<longrightarrow> v = progress s)"

definition main_ok :: "mrc_state \<Rightarrow> bool" where
  "main_ok s \<longleftrightarrow> (case main_at s of
     Pushing k \<Rightarrow> k \<le> length (tasks s) \<and> (\<forall>i < length (tasks s). tasks s ! i = Unpushed \<longleftrightarrow> k \<le> i)
   | Returned \<Rightarrow> \<forall>i < length (tasks s). tasks s ! i = Exited
   | _ \<Rightarrow> \<forall>i < length (tasks s). tasks s ! i \<noteq> Unpushed)"

lemma push_unpushed: "main_ok s \<Longrightarrow> main_at s = Pushing i \<Longrightarrow> i < length (tasks s) \<Longrightarrow> tasks s ! i = Unpushed"
  by (simp add: main_ok_def)

lemma mutual_exclusion:
  "mutex_ok s \<Longrightarrow> i < length (tasks s) \<Longrightarrow> j < length (tasks s) \<Longrightarrow> critical (tasks s ! i) \<Longrightarrow> critical (tasks s ! j) \<Longrightarrow> i = j"
  unfolding mutex_ok_def by (metis option.inject)

lemma main_step: "mrc_step sim n s s' \<Longrightarrow> main_ok s \<Longrightarrow> main_ok s'"
  by (erule mrc_stepE) (auto simp: main_ok_def nth_list_update all_set_conv_all_nth split: main_phase.split_asm)

lemma results_step:
  assumes "mrc_step sim n s s'" "main_ok s" "results_ok rs res s" "\<And>i. i < length rs \<Longrightarrow> sim (rs ! i) = Inr (res ! i)"
  shows "results_ok rs res s'"
  using assms(1,3)
proof cases
  case (push i)
  then show ?thesis using push_unpushed [OF assms(2), of i] assms(3) by (auto simp: results_ok_def nth_list_update)
next
  case (simulate i r)
  then have "mrc_results s ! i = rs ! i" "i < length rs" using assms(3) by (auto simp: results_ok_def)
  then have "r = res ! i" using simulate(4) assms(4) [of i] by simp
  then show ?thesis using simulate assms(3) by (auto simp: results_ok_def nth_list_update)
qed (auto simp: results_ok_def nth_list_update)

lemma mutex_step:
  assumes "mrc_step sim n s s'" "main_ok s" "mutex_ok s"
  shows "mutex_ok s'"
  using assms(1,3)
proof cases
  case (push i)
  then show ?thesis using push_unpushed [OF assms(2), of i] assms(3) by (auto simp: mutex_ok_def critical_def nth_list_update)
next
  case (unlock i)
  have "\<not> critical (tasks s ! j)" if "j < length (tasks s)" "j \<noteq> i" for j
    using mutual_exclusion [OF assms(3), of i j] unlock that by (auto simp: critical_def)
  then show ?thesis using unlock by (auto simp: mutex_ok_def critical_def nth_list_update)
qed (auto simp: mutex_ok_def critical_def nth_list_update)

lemma progress_step:
  assumes "mrc_step sim n s s'" "main_ok s" "mutex_ok s" "progress_ok s"
  shows "progress_ok s'"
proof -
  note upd = filter_update [of _ "tasks s" "\<lambda>t. steps_left t \<le> 1"]
  show ?thesis
    using assms(1)
  proof cases
    case (push i)
    then show ?thesis using push_unpushed [OF assms(2), of i] assms(4) upd [of i Queued] by (auto simp: progress_ok_def nth_list_update)
  next
    case (start i)
    then show ?thesis using assms(4) upd [of i Started] by (auto simp: progress_ok_def nth_list_update)
  next
    case (simulate i r)
    then show ?thesis using assms(4) upd [of i Written] by (auto simp: progress_ok_def nth_list_update)
  next
    case (lock i)
    then show ?thesis using assms(4) upd [of i Locked] by (auto simp: progress_ok_def nth_list_update)
  next
    case (load_progress i)
    then show ?thesis using assms(4) upd [of i "Loaded (progress s)"] by (auto simp: progress_ok_def nth_list_update)
  next
    case (store_progress i v)
    have "v = progress s" using store_progress assms(4) by (auto simp: progress_ok_def)
    moreover have "tasks s ! j \<noteq> Loaded w" if "j < length (tasks s)" "j \<noteq> i" for j w
      using mutual_exclusion [OF assms(3), of i j] that store_progress by (auto simp: critical_def)
    ultimately show ?thesis using store_progress assms(4) upd [of i Stored] by (auto simp: progress_ok_def nth_list_update)
  next
    case (unlock i)
    then show ?thesis using assms(4) upd [of i Exited] by (auto simp: progress_ok_def nth_list_update)
  qed (use assms(4) in \<open>auto simp: progress_ok_def\<close>)
qed

section \<open>Termination\<close>

definition steps_to_go :: "mrc_state \<Rightarrow> nat" where
  "steps_to_go s = sum_list (map steps_left (tasks s)) + main_left (main_at s)"

lemma sum_list_less:
  "i < length xs \<Longrightarrow> (f y :: nat) < f (xs ! i) \<Longrightarrow> sum_list (map f (xs[i := y])) < sum_list (map f xs)"
  by (induction xs arbitrary: i) (auto simp: nth_Cons split: nat.splits)

lemma steps_fall:
  assumes "mrc_step sim n s s'" "main_ok s"
  shows "steps_to_go s' < steps_to_go s"
  using assms(1)
proof cases
  case (push i)
  then show ?thesis
    using push_unpushed [OF assms(2), of i] sum_list_less [of i "tasks s" steps_left Queued] by (simp add: steps_to_go_def)
qed (auto simp: steps_to_go_def intro: sum_list_less)

text \<open>All of it together.\<close>

definition mrc_inv :: "sim_res_t list \<Rightarrow> sim_res_t list \<Rightarrow> mrc_state \<Rightarrow> bool" where
  "mrc_inv rs res s \<longleftrightarrow> results_ok rs res s \<and> mutex_ok s \<and> progress_ok s \<and> main_ok s"

lemma mrc_inv_step:
  assumes "mrc_step sim n s s'" "mrc_inv rs res s" "\<And>i. i < length rs \<Longrightarrow> sim (rs ! i) = Inr (res ! i)"
  shows "mrc_inv rs res s'"
  using assms results_step [OF assms(1)] mutex_step [OF assms(1)] progress_step [OF assms(1)] main_step [OF assms(1)]
  by (simp add: mrc_inv_def)

lemma mrc_inv_start: "mrc_inv (map new_sim_res zs) res (mrc_start zs)"
  by (auto simp: mrc_inv_def results_ok_def mutex_ok_def progress_ok_def main_ok_def mrc_start_def critical_def)

lemma mrc_inv_reach:
  assumes "(mrc_step sim n)\<^sup>*\<^sup>* (mrc_start zs) s" "\<And>i. i < length zs \<Longrightarrow> sim (new_sim_res (zs ! i)) = Inr (res ! i)"
  shows "mrc_inv (map new_sim_res zs) res s"
  using assms(1)
proof (induction rule: rtranclp_induct)
  case (step s s')
  show ?case by (rule mrc_inv_step [OF step.hyps(2) step.IH]) (simp add: assms(2))
qed (rule mrc_inv_start)

section \<open>No state before the return is stuck\<close>

lemma mutex_free: "mutex_ok s \<Longrightarrow> \<forall>i < length (tasks s). \<not> critical (tasks s ! i) \<Longrightarrow> mtx s = None"
  by (cases "mtx s") (auto simp: mutex_ok_def)

lemma pool_empty: "\<forall>t \<in> set ts. t = Unpushed \<or> t = Queued \<or> t = Exited \<Longrightarrow> filter in_pool ts = []"
  by (auto simp: filter_empty_conv in_pool_def)

lemma first_queued:
  assumes "i < length ts" "ts ! i = Queued"
  obtains j where "j < length ts" "ts ! j = Queued" "\<forall>k < j. ts ! k \<noteq> Queued"
proof
  let ?j = "LEAST i. ts ! i = Queued"
  show "?j < length ts" using Least_le [of "\<lambda>i. ts ! i = Queued"] assms by fastforce
  show "ts ! ?j = Queued" using LeastI [of "\<lambda>i. ts ! i = Queued"] assms by blast
  show "\<forall>k < ?j. ts ! k \<noteq> Queued" using not_less_Least by blast
qed

text \<open>Some thread that is in the pool can go on, or the first of the queue can start.\<close>

lemma thread_goes_on:
  assumes "mrc_inv rs res s" "\<And>i. i < length rs \<Longrightarrow> sim (rs ! i) = Inr (res ! i)" "0 < n_threads"
    and "i < length (tasks s)" "tasks s ! i \<noteq> Unpushed" "tasks s ! i \<noteq> Exited"
  shows "\<exists>s'. mrc_step sim n_threads s s'"
proof (rule ccontr)
  assume none: "\<not> ?thesis"
  have nc: "\<not> critical (tasks s ! j)" if "j < length (tasks s)" for j
    using none that mrc_step.load_progress [of j s sim n_threads] mrc_step.store_progress [of j s _ sim n_threads] mrc_step.unlock [of j s sim n_threads]
    by (cases "tasks s ! j") (auto simp: critical_def)
  then have free: "mtx s = None" using assms(1) mutex_free by (simp add: mrc_inv_def)
  have nw: "tasks s ! j \<noteq> Written" if "j < length (tasks s)" for j using none that free mrc_step.lock by blast
  have ns: "tasks s ! j \<noteq> Started" if "j < length (tasks s)" for j
  proof
    assume "tasks s ! j = Started"
    moreover from this have "sim (mrc_results s ! j) = Inr (res ! j)" using assms(1,2) that by (simp add: mrc_inv_def results_ok_def)
    ultimately show False using none that mrc_step.simulate by blast
  qed
  have idle: "tasks s ! j = Unpushed \<or> tasks s ! j = Queued \<or> tasks s ! j = Exited" if "j < length (tasks s)" for j
    using nc [OF that] nw [OF that] ns [OF that] by (cases "tasks s ! j") (auto simp: critical_def)
  then have pool: "filter in_pool (tasks s) = []" by (intro pool_empty) (metis in_set_conv_nth)
  obtain j where "j < length (tasks s)" "tasks s ! j = Queued" "\<forall>k < j. tasks s ! k \<noteq> Queued"
    using first_queued [OF assms(4)] idle [OF assms(4)] assms(5,6) by blast
  then show False using none pool assms(3) mrc_step.start [of j s n_threads sim] by auto
qed

lemma wait_bound:
  assumes "0 < n" "n < 2 ^ 31"
  shows "\<not> of_nat n < (of_nat n - 1 :: u64)"
proof -
  obtain m where m: "n = Suc m" using assms(1) by (cases n) auto
  have "unat (of_nat m :: u64) = m" "unat (of_nat (Suc m) :: u64) = Suc m"
    using assms(2) m by (simp_all add: unat_of_nat del: of_nat_Suc)
  then have "\<not> (of_nat (Suc m) :: u64) < of_nat m" by (simp add: word_less_nat_alt del: of_nat_Suc)
  then show ?thesis by (simp add: m)
qed

lemma not_stuck:
  assumes "mrc_inv rs res s" "\<And>i. i < length rs \<Longrightarrow> sim (rs ! i) = Inr (res ! i)" "0 < n_threads"
    and "rs \<noteq> []" "length rs < 2 ^ 31" "main_at s \<noteq> Returned"
  shows "\<exists>s'. mrc_step sim n_threads s s'"
proof (cases "\<exists>i < length (tasks s). tasks s ! i \<noteq> Unpushed \<and> tasks s ! i \<noteq> Exited")
  case True
  then show ?thesis using thread_goes_on [OF assms(1-3)] by blast
next
  case False
  note inv = assms(1) [unfolded mrc_inv_def results_ok_def progress_ok_def main_ok_def]
  show ?thesis
  proof (cases "main_at s")
    case (Pushing k)
    then show ?thesis using inv mrc_step.push [OF Pushing] mrc_step.pushed [of s] by (cases "k < length (tasks s)") auto
  next
    case Waiting
    have "length (filter (\<lambda>t. steps_left t \<le> 1) (tasks s)) = length (tasks s)"
      using False inv Waiting by (intro arg_cong [of _ _ length] filter_True) (auto simp: in_set_conv_nth)
    then have "progress s = length rs" "length (tasks s) = length rs" using inv by auto
    moreover have "\<not> of_nat (length rs) < (of_nat (length rs) - 1 :: u64)"
      using assms(4,5) wait_bound by simp
    ultimately show ?thesis using mrc_step.leave [OF Waiting] by metis
  next
    case Freeing
    have "\<forall>t \<in> set (tasks s). t = Exited" using False inv Freeing by (auto simp: in_set_conv_nth)
    then show ?thesis using mrc_step.free [OF Freeing] by blast
  qed (use assms(6) in simp)
qed

lemma steps_bounded:
  assumes "(mrc_step sim n ^^ k) s s'" "mrc_inv rs res s" "\<And>i. i < length rs \<Longrightarrow> sim (rs ! i) = Inr (res ! i)"
  shows "k + steps_to_go s' \<le> steps_to_go s"
  using assms(1)
proof (induction k arbitrary: s')
  case (Suc k)
  then obtain t where t: "(mrc_step sim n ^^ k) s t" "mrc_step sim n t s'" by auto
  have "mrc_inv rs res t"
    using relpowp_imp_rtranclp [OF t(1)]
  proof (induction rule: rtranclp_induct)
    case (step u v)
    show ?case by (rule mrc_inv_step [OF step.hyps(2) step.IH assms(3)])
  qed (rule assms(2))
  then show ?case using Suc.IH [OF t(1)] steps_fall [OF t(2)] by (simp add: mrc_inv_def)
qed simp

lemma steps_at_start: "steps_to_go (mrc_start zs) = 7 * length zs + 3"
  by (simp add: steps_to_go_def mrc_start_def sum_list_replicate)

lemma returned_results:
  assumes "mrc_inv rs res s" "main_at s = Returned" "length res = length rs"
  shows "mrc_results s = res" "progress s = length rs"
proof -
  note inv = assms(1) [unfolded mrc_inv_def results_ok_def progress_ok_def main_ok_def]
  show "mrc_results s = res" using inv assms(2,3) by (intro nth_equalityI) auto
  have "length (filter (\<lambda>t. steps_left t \<le> 1) (tasks s)) = length (tasks s)"
    using inv assms(2) by (intro arg_cong [of _ _ length] filter_True) (auto simp: in_set_conv_nth)
  then show "progress s = length rs" using inv by simp
qed

end
