(* ===== verification/MissRatioLRU.thy ===== *)
theory MissRatioLRU
  imports MissRatioProps ReaderProps CacheTraces
begin

text \<open>
  What one simulation of \<^verbatim>\<open>get_miss_ratio_curve\<close> counts, on traces in the simulator's binary format: the
  misses of the list specification of the cache, after the requests that warm it up. With the theory
  of the thread pool this gives the results of \<^verbatim>\<open>get_miss_ratio_curve\<close>, for every schedule.
\<close>

section \<open>Reading ahead by one request\<close>

type_synonym record_t = "u32 \<times> u32 \<times> u32"

definition trace_obj :: "record_t \<Rightarrow> obj_id_t \<times> u32" where
  "trace_obj = (\<lambda>(t, i, z). (ucast i, z))"

text \<open>The loops hold the next request, so the reader is one record ahead.\<close>

definition reading :: "reader_t \<Rightarrow> request_t \<Rightarrow> record_t list \<Rightarrow> bool" where
  "reading reader req xs \<longleftrightarrow> op_ok req \<and> (case xs of [] \<Rightarrow> \<not> valid req
     | (t, i, z) # ys \<Rightarrow> valid req \<and> hv req = 0 \<and> obj_id_int req = ucast i \<and> obj_size req = ucast z \<and> at_records reader ys)"

lemma op_ok_op: "op req' = op req \<Longrightarrow> op_ok req' = op_ok req"
  by (simp add: op_ok_def)

lemma reading_first:
  assumes "at_records reader xs" "op_ok req"
  obtains e reader' req' where "read_one_req csv g_quark reader req = Inr (e, reader', req')" "reading reader' req' xs"
    "xs \<noteq> [] \<Longrightarrow> mapped_file reader' = mapped_file reader"
proof (cases xs)
  case Nil
  obtain reader' req' where "read_one_req csv g_quark reader req = Inr (1, reader', req')" "\<not> valid req'" "op req' = op req"
    by (rule read_end [OF assms(1) [unfolded Nil]])
  then show thesis using that [of 1 reader' req'] assms(2) Nil op_ok_op [of req' req] by (simp add: reading_def)
next
  case (Cons x ys)
  obtain t i z where x: "x = (t, i, z)" by (cases x) auto
  let ?req = "req\<lparr>hv := 0, valid := True, real_time := ucast t, obj_id_int := ucast i, obj_size := ucast z\<rparr>"
  obtain reader' where "read_one_req csv g_quark reader req = Inr (0, reader', ?req)" "at_records reader' ys"
    "mapped_file reader' = mapped_file reader" by (rule read_next [OF assms [unfolded Cons x]])
  then show thesis using that [of 0 reader' ?req] assms(2) Cons x op_ok_op [of ?req req] by (simp add: reading_def)
qed

lemma reading_next:
  assumes "reading reader req (x # xs)" "req'\<lparr>hv := hv req\<rparr> = req"
  obtains e reader' req'' where "read_one_req csv g_quark reader req' = Inr (e, reader', req'')" "reading reader' req'' xs"
proof -
  obtain t i z where x: "x = (t, i, z)" by (cases x) auto
  have "op req' = op req" using arg_cong [OF assms(2), of op] by simp
  then have "at_records reader xs" "op_ok req'" using assms(1) op_ok_op [of req' req] by (simp_all add: reading_def x)
  then show thesis by (rule reading_first) (rule that)
qed

lemma reading_req:
  assumes "reading reader req (x # xs)" "snd (trace_obj x) \<noteq> 0"
  shows "valid req" "hv_ok hash req" "fits req" "obj_of req = trace_obj x" "obj_size req = of_nat (unat (snd (trace_obj x)))"
proof -
  obtain t i z where x: "x = (t, i, z)" by (cases x) auto
  have r: "valid req" "hv req = 0" "obj_id_int req = ucast i" "obj_size req = ucast z" using assms(1) by (auto simp: reading_def x)
  show "valid req" "hv_ok hash req" by (auto simp: r hv_ok_def)
  have "unat (obj_size req) = unat z" by (simp add: r unat_ucast_u32)
  moreover have "0 < unat z" using assms(2) by (simp add: x trace_obj_def unat_gt_0)
  moreover have "unat z < 2 ^ 32" using unsigned_less [of z] by simp
  ultimately show "fits req" by (simp add: fits_def)
  show "obj_of req = trace_obj x" by (simp add: obj_of_def trace_obj_def x r)
  show "obj_size req = of_nat (unat (snd (trace_obj x)))" by (simp add: x trace_obj_def r)
qed

section \<open>The specification\<close>

lemma spec_run_append:
  "spec_run touch shrink n (xs @ ys) L =
    (fst (spec_run touch shrink n xs L) @ fst (spec_run touch shrink n ys (snd (spec_run touch shrink n xs L))),
     snd (spec_run touch shrink n ys (snd (spec_run touch shrink n xs L))))"
  by (induction xs arbitrary: L) (auto split: prod.splits)

lemma length_spec_run [simp]: "length (fst (spec_run touch shrink n xs L)) = length xs"
proof (induction xs arbitrary: L)
  case (Cons x xs)
  obtain r M where "spec_get touch shrink n x L = (r, M)" by fastforce
  then show ?case using Cons [of M] by (cases "spec_run touch shrink n xs M") simp
qed simp

text \<open>The requests \<open>xs\<close> that missed, given their results.\<close>

definition missed :: "(obj_id_t \<times> u32) list \<Rightarrow> cache_ck_res_e list \<Rightarrow> (obj_id_t \<times> u32) list" where
  "missed xs rs = map fst (filter (\<lambda>(x, r). r \<noteq> cache_ck_hit) (zip xs rs))"

lemma missed_simps [simp]:
  "missed [] rs = []" "missed (x # xs) (r # rs) = (if r = cache_ck_hit then missed xs rs else x # missed xs rs)"
  by (simp_all add: missed_def)

section \<open>The loops\<close>

lemma unat_suc_below: "j < m \<Longrightarrow> unat (j + 1) = Suc (unat j)" for j m :: u64
proof -
  assume "j < m"
  moreover have "unat m < 2 ^ LENGTH(64)" by (rule unsigned_less)
  ultimately show ?thesis by (subst unat_add_lem [THEN iffD1]) (auto simp: word_less_nat_alt)
qed

context list_cache
begin

lemma get_step:
  assumes "reading reader req (x # xs)" "rep c L" "inv (unat (cache_size c)) L" "snd (trace_obj x) \<noteq> 0"
    "ok (unat (cache_size c)) (unat (snd (trace_obj x)))" "spec_get touch shrink (unat (cache_size c)) (trace_obj x) L = (r, L1)"
  obtains req1 c1 where "cache_get V c req = Inr (r, req1, c1)" "rep c1 L1" "inv (unat (cache_size c)) L1" "cache_size c1 = cache_size c"
proof -
  note q = reading_req [OF assms(1,4)]
  have "unat (snd (trace_obj x)) = unat (obj_size req)" using fitsD(2) [OF q(3)] by (simp add: obj_of_def flip: q(4))
  then show thesis
    using that cache_get_correct [OF assms(2) q(2,3) assms(3)] assms(5,6) q(4) by auto
qed

lemma warm_up_correct:
  assumes "reading reader req xs" "rep c L" "inv (unat (cache_size c)) L" "length xs < k"
    "\<forall>x \<in> set xs. snd (trace_obj x) \<noteq> 0 \<and> ok (unat (cache_size c)) (unat (snd (trace_obj x)))"
    and "w = (case m of None \<Rightarrow> length xs | Some m \<Rightarrow> unat m - unat j)"
  shows "\<exists>reader' req' c'. warm_up k csv g_quark (cache_get V) m j reader req c = Inr (reader', req', c') \<and>
    reading reader' req' (drop w xs) \<and> cache_size c' = cache_size c \<and>
    rep c' (snd (spec_run touch shrink (unat (cache_size c)) (map trace_obj (take w xs)) L)) \<and>
    inv (unat (cache_size c)) (snd (spec_run touch shrink (unat (cache_size c)) (map trace_obj (take w xs)) L))"
  using assms
proof (induction k arbitrary: xs j reader req c L w)
  case (Suc k)
  let ?n = "unat (cache_size c)"
  show ?case
  proof (cases "xs = [] \<or> w = 0")
    case True
    then have "\<not> (valid req \<and> (case m of None \<Rightarrow> True | Some m \<Rightarrow> j < m))"
      using Suc.prems(1,6) by (auto simp: reading_def word_less_nat_alt split: option.splits)
    then have "warm_up (Suc k) csv g_quark (cache_get V) m j reader req c = Inr (reader, req, c)" by auto
    then show ?thesis using True Suc.prems(1-3) by auto
  next
    case False
    then obtain x ys v where xs: "xs = x # ys" "w = Suc v" by (metis neq_Nil_conv not0_implies_Suc)
    have x: "snd (trace_obj x) \<noteq> 0" "ok ?n (unat (snd (trace_obj x)))" using Suc.prems(5) xs by auto
    note q = reading_req [OF Suc.prems(1) [unfolded xs(1)] x(1)]
    obtain r L1 where s: "spec_get touch shrink ?n (trace_obj x) L = (r, L1)" by fastforce
    obtain req1 c1 where c1: "cache_get V c req = Inr (r, req1, c1)" "rep c1 L1" "inv ?n L1" "cache_size c1 = cache_size c"
      using get_step [OF Suc.prems(1) [unfolded xs(1)] Suc.prems(2,3) x s] .
    obtain e reader1 req2 where rd: "read_one_req csv g_quark reader req1 = Inr (e, reader1, req2)" "reading reader1 req2 ys"
      by (rule reading_next [OF Suc.prems(1) [unfolded xs(1)] cache_get_same_req [OF Suc.prems(2) q(2,3) c1(1)]])
    have go: "case m of None \<Rightarrow> True | Some m \<Rightarrow> j < m"
      using Suc.prems(6) xs by (auto simp: word_less_nat_alt split: option.splits)
    have "v = (case m of None \<Rightarrow> length ys | Some m \<Rightarrow> unat m - unat (j + 1))"
      using Suc.prems(6) xs go unat_suc_below by (auto split: option.splits)
    from Suc.IH [OF rd(2) c1(2) _ _ _ this] c1(3,4) Suc.prems(4,5) xs
    show ?thesis using q(1) go c1(1) rd(1) s xs c1(4) by (auto split: prod.splits)
  qed
qed simp

lemma count_misses_correct:
  assumes "reading reader req xs" "rep c L" "inv (unat (cache_size c)) L" "length xs < k"
    "\<forall>x \<in> set xs. snd (trace_obj x) \<noteq> 0 \<and> ok (unat (cache_size c)) (unat (snd (trace_obj x)))"
    and "spec_run touch shrink (unat (cache_size c)) (map trace_obj xs) L = (rs, L')"
  shows "\<exists>req' c'. count_misses k csv g_quark (cache_get V) (n, b, m, d) reader req c =
      Inr ((n + of_nat (length xs), b + of_nat (total_size (map trace_obj xs)), m + of_nat (length (missed (map trace_obj xs) rs)),
        d + of_nat (total_size (missed (map trace_obj xs) rs))), req', c') \<and> rep c' L'"
  using assms
proof (induction k arbitrary: xs reader req c L n b m d rs)
  case (Suc k)
  let ?n = "unat (cache_size c)"
  show ?case
  proof (cases xs)
    case Nil
    then show ?thesis using Suc.prems by (auto simp: reading_def)
  next
    case (Cons x ys)
    have x: "snd (trace_obj x) \<noteq> 0" "ok ?n (unat (snd (trace_obj x)))" using Suc.prems(5) Cons by auto
    note q = reading_req [OF Suc.prems(1) [unfolded Cons] x(1)]
    obtain r L1 where s: "spec_get touch shrink ?n (trace_obj x) L = (r, L1)" by fastforce
    obtain rs1 where s1: "spec_run touch shrink ?n (map trace_obj ys) L1 = (rs1, L')" "rs = r # rs1"
      using Suc.prems(6) s Cons by (auto split: prod.splits)
    obtain req1 c1 where c1: "cache_get V c req = Inr (r, req1, c1)" "rep c1 L1" "inv ?n L1" "cache_size c1 = cache_size c"
      using get_step [OF Suc.prems(1) [unfolded Cons] Suc.prems(2,3) x s] .
    obtain e reader1 req2 where rd: "read_one_req csv g_quark reader req1 = Inr (e, reader1, req2)" "reading reader1 req2 ys"
      by (rule reading_next [OF Suc.prems(1) [unfolded Cons] cache_get_same_req [OF Suc.prems(2) q(2,3) c1(1)]])
    have z: "obj_size req1 = of_nat (unat (snd (trace_obj x)))"
      using arg_cong [OF cache_get_same_req [OF Suc.prems(2) q(2,3) c1(1)], of obj_size] q(5) by simp
    let ?m = "if r \<noteq> cache_ck_hit then m + 1 else m" and ?d = "if r \<noteq> cache_ck_hit then d + obj_size req1 else d"
    have "count_misses (Suc k) csv g_quark (cache_get V) (n, b, m, d) reader req c =
      count_misses k csv g_quark (cache_get V) (n + 1, b + obj_size req, ?m, ?d) reader1 req2 c1"
      using q(1) c1(1) rd(1) by (simp add: Let_def)
    then show ?thesis
      using Suc.IH [OF rd(2) c1(2), of rs1 "n + 1" "b + obj_size req" ?m ?d] c1(3,4) Suc.prems(4,5) Cons s1 z q(5)
      by (cases "r = cache_ck_hit") (auto simp: add_ac)
  qed
qed simp

end

section \<open>One simulation\<close>

text \<open>A reader that has been opened on a trace of the records \<open>rs\<close>, none of them of size 0.\<close>

definition opened :: "csv_ops \<Rightarrow> (string \<Rightarrow> u8 list option) \<Rightarrow> string \<times> reader_t \<Rightarrow> record_t list \<Rightarrow> bool" where
  "opened csv fs r rs \<longleftrightarrow> rs \<noteq> [] \<and> fs (fst r) = Some (akamai_trace rs) \<and> length (fst r) < MAX_FILE_PATH_LEN \<and>
     12 * length rs < 2 ^ 64 \<and> setup_reader csv fs (fst r) BIN_TRACE OBJ_ID_NUM akamai_params = Inr (snd r) \<and>
     (\<forall>x \<in> set rs. snd (trace_obj x) \<noteq> 0)"

lemma clone_opened:
  assumes "opened csv fs r rs"
  obtains reader where "clone_reader csv fs (fst r) (snd r) = Inr reader" "at_records reader rs" "mapped_file reader = akamai_trace rs"
proof -
  have o: "rs \<noteq> []" "fs (fst r) = Some (akamai_trace rs)" "length (fst r) < MAX_FILE_PATH_LEN" "12 * length rs < 2 ^ 64"
    "setup_reader csv fs (fst r) BIN_TRACE OBJ_ID_NUM akamai_params = Inr (snd r)" using assms by (auto simp: opened_def)
  obtain reader where r: "setup_reader csv fs (fst r) BIN_TRACE OBJ_ID_NUM akamai_params = Inr reader" "at_records reader rs"
    "n_total_req reader = of_nat (length rs)" "mapped_file reader = akamai_trace rs" "init_params reader = akamai_params"
    by (rule setup_akamai [where fs = fs and path = "fst r" and csv = csv and id_type = OBJ_ID_NUM, OF o(1-4)])
  have eq: "snd r = reader" using o(5) r(1) by simp
  obtain reader' where r': "setup_reader csv fs (fst r) BIN_TRACE (obj_id_type reader) akamai_params = Inr reader'" "at_records reader' rs"
    "n_total_req reader' = of_nat (length rs)" "mapped_file reader' = akamai_trace rs"
    by (rule setup_akamai [where fs = fs and path = "fst r" and csv = csv and id_type = "obj_id_type reader", OF o(1-4)])
  let ?reader = "reader'\<lparr>n_total_req := n_total_req reader, mapped_file := mapped_file reader, cloned := True\<rparr>"
  have "clone_reader csv fs (fst r) (snd r) = Inr ?reader"
    using r(2,5) r'(1) by (simp add: clone_reader_def eq at_records_def)
  moreover have "at_records ?reader rs" using r'(2-4) r(3,4) by (simp add: at_records_def)
  ultimately show thesis using that r(4) by simp
qed

lemma reading_fuel: "reading reader req xs \<Longrightarrow> length xs < length (mapped_file reader) + 2"
  by (cases xs) (auto simp: reading_def at_records_def)

text \<open>The counts of a simulation with \<open>d\<close> requests to warm up the cache.\<close>

definition counts_ok ::
  "(obj_id_t \<times> u32 \<Rightarrow> contents \<Rightarrow> contents) \<Rightarrow> (nat \<Rightarrow> contents \<Rightarrow> contents) \<Rightarrow> (obj_id_t \<times> u32) list \<Rightarrow> nat \<Rightarrow> u64 \<Rightarrow> sim_res_t \<Rightarrow> bool" where
  "counts_ok touch shrink xs d z res \<longleftrightarrow>
    (let counted = drop d xs; misses = missed counted (drop d (fst (spec_run touch shrink (unat z) xs []))) in
     r_cache_size res = z \<and> r_req_cnt res = of_nat (length counted) \<and> r_req_bytes res = of_nat (total_size counted) \<and>
     r_miss_cnt res = of_nat (length misses) \<and> r_miss_bytes res = of_nat (total_size misses))"

lemma drop_spec_run:
  "drop d (fst (spec_run touch shrink n xs L)) = fst (spec_run touch shrink n (drop d xs) (snd (spec_run touch shrink n (take d xs) L)))"
proof -
  have "fst (spec_run touch shrink n xs L) = fst (spec_run touch shrink n (take d xs) L) @
      fst (spec_run touch shrink n (drop d xs) (snd (spec_run touch shrink n (take d xs) L)))"
    using spec_run_append [of touch shrink n "take d xs" "drop d xs" L] by simp
  then show ?thesis by (cases "d \<le> length xs") auto
qed

text \<open>The trace that warms up the cache, if there is one.\<close>

definition warm_ok :: "csv_ops \<Rightarrow> (string \<Rightarrow> u8 list option) \<Rightarrow> (string \<times> reader_t) option \<Rightarrow> record_t list \<Rightarrow> bool" where
  "warm_ok csv fs w ws \<longleftrightarrow> (case w of None \<Rightarrow> ws = [] | Some r \<Rightarrow> opened csv fs r ws)"

context list_cache
begin

lemma warm_reader_correct:
  assumes "warm_ok csv fs w ws" "rep c L" "inv (unat (cache_size c)) L" "op_ok req"
    and "\<forall>x \<in> set ws. snd (trace_obj x) \<noteq> 0 \<longrightarrow> ok (unat (cache_size c)) (unat (snd (trace_obj x)))"
  shows "\<exists>req' c'. (case w of None \<Rightarrow> Inr (req, c) | Some (path, warmup) \<Rightarrow>
      rbind (clone_reader csv fs path warmup) (\<lambda>warmup.
      rbind (read_one_req csv g_quark warmup req) (\<lambda>(_, warmup, req).
      rbind (warm_up (length (mapped_file warmup) + 2) csv g_quark (cache_get V) None 0 warmup req c)
        (\<lambda>(_, req, local_cache). Inr (req, local_cache))))) = Inr (req', c') \<and>
    op_ok req' \<and> cache_size c' = cache_size c \<and>
    rep c' (snd (spec_run touch shrink (unat (cache_size c)) (map trace_obj ws) L)) \<and>
    inv (unat (cache_size c)) (snd (spec_run touch shrink (unat (cache_size c)) (map trace_obj ws) L))"
proof (cases w)
  case None
  then show ?thesis using assms by (auto simp: warm_ok_def)
next
  case (Some r)
  then have o: "opened csv fs r ws" using assms(1) by (simp add: warm_ok_def)
  then have sz: "\<forall>x \<in> set ws. snd (trace_obj x) \<noteq> 0 \<and> ok (unat (cache_size c)) (unat (snd (trace_obj x)))"
    using assms(5) by (auto simp: opened_def)
  obtain reader where rd: "clone_reader csv fs (fst r) (snd r) = Inr reader" "at_records reader ws" by (rule clone_opened [OF o])
  obtain e reader1 req1 where r1: "read_one_req csv g_quark reader req = Inr (e, reader1, req1)" "reading reader1 req1 ws"
    by (rule reading_first [OF rd(2) assms(4)])
  obtain reader2 req2 c2 where "warm_up (length (mapped_file reader1) + 2) csv g_quark (cache_get V) None 0 reader1 req1 c = Inr (reader2, req2, c2)"
    "reading reader2 req2 []" "cache_size c2 = cache_size c"
    "rep c2 (snd (spec_run touch shrink (unat (cache_size c)) (map trace_obj ws) L))"
    "inv (unat (cache_size c)) (snd (spec_run touch shrink (unat (cache_size c)) (map trace_obj ws) L))"
    using warm_up_correct [OF r1(2) assms(2,3) reading_fuel [OF r1(2)] sz, where m = None and w = "length ws" and j = 0 and csv = csv and g_quark = g_quark]
    by (auto simp del: warm_up.simps)
  then show ?thesis using Some rd(1) r1(1) by (auto simp: reading_def split: prod.splits simp del: warm_up.simps)
qed

lemma mrc_thread_correct:
  assumes op: "opened csv fs (mt_reader p) rs" "warm_ok csv fs (mt_warmup_reader p) ws"
    and c: "rep (create_cache_with_new_size H (mt_cache p) z) []" "inv (unat z) []"
      "cache_size (create_cache_with_new_size H (mt_cache p) z) = z"
    and st: "\<And>c L. rep c L \<Longrightarrow> \<exists>n. get_cache_state H c = Inr (n, occupied_size c)"
    and sz: "\<forall>x \<in> set (ws @ rs). ok (unat z) (unat (snd (trace_obj x)))"
  shows "\<exists>r. get_mrc_thread csv g_quark fs H (cache_get V) p (new_sim_res z) = Inr r \<and>
    counts_ok touch shrink (map trace_obj (ws @ rs)) (length ws + unat (n_warmup_req p)) z r"
proof -
  let ?n = "unat z" and ?w = "unat (n_warmup_req p)" and ?c = "create_cache_with_new_size H (mt_cache p) z"
  let ?run = "\<lambda>xs L. spec_run touch shrink ?n (map trace_obj xs) L"
  obtain reader where rd: "clone_reader csv fs (fst (mt_reader p)) (snd (mt_reader p)) = Inr reader" "at_records reader rs"
    by (rule clone_opened [OF op(1)])
  have "op_ok new_request" by (simp add: op_ok_def new_request_def)
  then obtain req1 c1 where w1: "(case mt_warmup_reader p of None \<Rightarrow> Inr (new_request, ?c) | Some (path, warmup) \<Rightarrow>
      rbind (clone_reader csv fs path warmup) (\<lambda>warmup.
      rbind (read_one_req csv g_quark warmup new_request) (\<lambda>(_, warmup, req).
      rbind (warm_up (length (mapped_file warmup) + 2) csv g_quark (cache_get V) None 0 warmup req ?c)
        (\<lambda>(_, req, local_cache). Inr (req, local_cache))))) = Inr (req1, c1)"
    "op_ok req1" "cache_size c1 = z" "rep c1 (snd (?run ws []))" "inv ?n (snd (?run ws []))"
    using warm_reader_correct [OF op(2) c(1), of new_request g_quark] c(2,3) sz by auto
  obtain e reader2 req2 where r2: "read_one_req csv g_quark reader req1 = Inr (e, reader2, req2)" "reading reader2 req2 rs"
    by (rule reading_first [OF rd(2) w1(2)])
  have sz': "\<forall>x \<in> set rs. snd (trace_obj x) \<noteq> 0 \<and> ok ?n (unat (snd (trace_obj x)))" using op(1) sz by (auto simp: opened_def)
  have wu: "\<exists>reader3 req3 c3. (if 0 < n_warmup_req p then warm_up (length (mapped_file reader2) + 2) csv g_quark (cache_get V)
        (Some (n_warmup_req p)) 0 reader2 req2 c1 else Inr (reader2, req2, c1)) = Inr (reader3, req3, c3) \<and>
      reading reader3 req3 (drop ?w rs) \<and> cache_size c3 = z \<and> rep c3 (snd (?run (take ?w rs) (snd (?run ws [])))) \<and>
      inv ?n (snd (?run (take ?w rs) (snd (?run ws []))))"
    using warm_up_correct [OF r2(2) w1(4) _ reading_fuel [OF r2(2)], where m = "Some (n_warmup_req p)" and j = 0 and w = ?w
        and csv = csv and g_quark = g_quark]
      w1(3-5) sz' r2(2) by (cases "n_warmup_req p = 0") (auto simp: word_neq_0_conv simp del: warm_up.simps)
  then obtain reader3 req3 c3 where w3: "(if 0 < n_warmup_req p then warm_up (length (mapped_file reader2) + 2) csv g_quark (cache_get V)
        (Some (n_warmup_req p)) 0 reader2 req2 c1 else Inr (reader2, req2, c1)) = Inr (reader3, req3, c3)"
    "reading reader3 req3 (drop ?w rs)" "cache_size c3 = z" "rep c3 (snd (?run (take ?w rs) (snd (?run ws []))))"
    "inv ?n (snd (?run (take ?w rs) (snd (?run ws []))))" by blast
  obtain res L where run: "?run (drop ?w rs) (snd (?run (take ?w rs) (snd (?run ws [])))) = (res, L)" by fastforce
  let ?counted = "map trace_obj (drop ?w rs)" and ?misses = "missed (map trace_obj (drop ?w rs)) res"
  obtain req4 c4 where c4: "count_misses (length (mapped_file reader3) + 2) csv g_quark (cache_get V) (0, 0, 0, 0) reader3 req3 c3 =
      Inr ((of_nat (length (drop ?w rs)), of_nat (total_size ?counted), of_nat (length ?misses), of_nat (total_size ?misses)), req4, c4)"
    "rep c4 L"
    using count_misses_correct [OF w3(2,4) _ reading_fuel [OF w3(2)], where n = 0 and b = 0 and m = 0 and d = 0
        and csv = csv and g_quark = g_quark and rs = res and L' = L] w3(3,5) run sz' in_set_dropD [of _ ?w rs]
    by (auto simp del: count_misses.simps)
  obtain k where "get_cache_state H c4 = Inr (k, occupied_size c4)" using st [OF c4(2)] by blast
  then obtain r where "get_mrc_thread csv g_quark fs H (cache_get V) p (new_sim_res z) = Inr r" "r_cache_size r = z"
    "r_req_cnt r = of_nat (length (drop ?w rs))" "r_req_bytes r = of_nat (total_size ?counted)"
    "r_miss_cnt r = of_nat (length ?misses)" "r_miss_bytes r = of_nat (total_size ?misses)"
    unfolding get_mrc_thread_def using rd(1) w1(1) r2(1) w3(1) c4(1)
    by (cases "default_ttl c4 = 0") (simp_all add: new_sim_res_def Let_def del: count_misses.simps warm_up.simps)
  moreover have "drop (length ws + ?w) (fst (spec_run touch shrink ?n (map trace_obj (ws @ rs)) [])) = res"
    using run by (simp add: drop_spec_run spec_run_append take_map drop_map)
  ultimately show ?thesis by (auto simp: counts_ok_def Let_def drop_map)
qed

end

section \<open>The results of the whole program\<close>

lemma opened_params:
  assumes "opened csv fs r rs" "mrc_params csv r cache w perc = Inr p"
  shows "mt_reader p = r" "mt_cache p = cache" "mt_warmup_reader p = w"
    "n_warmup_req p = of_int \<lfloor>to_double (to_double (of_nat (length rs)) * perc)\<rfloor>"
proof -
  have o: "rs \<noteq> []" "fs (fst r) = Some (akamai_trace rs)" "length (fst r) < MAX_FILE_PATH_LEN" "12 * length rs < 2 ^ 64"
    "setup_reader csv fs (fst r) BIN_TRACE OBJ_ID_NUM akamai_params = Inr (snd r)" using assms(1) by (auto simp: opened_def)
  obtain reader where "setup_reader csv fs (fst r) BIN_TRACE OBJ_ID_NUM akamai_params = Inr reader" "n_total_req reader = of_nat (length rs)"
    by (rule setup_akamai [where fs = fs and path = "fst r" and csv = csv and id_type = OBJ_ID_NUM, OF o(1-4)])
  then have n: "n_total_req (snd r) = of_nat (length rs)" using o(5) by simp
  have u: "unat (of_nat (length rs) :: u64) = length rs" using o(4) by (simp add: unat_of_nat)
  then have "0 < n_total_req (snd r)" using n o(1) by (simp add: word_less_nat_alt)
  then have "get_num_of_req csv (snd r) = Inr (of_nat (length rs), snd r)" using n by (simp add: get_num_of_req_def)
  then show "mt_reader p = r" "mt_cache p = cache" "mt_warmup_reader p = w"
    "n_warmup_req p = of_int \<lfloor>to_double (to_double (of_nat (length rs)) * perc)\<rfloor>"
    using assms(2) u by (auto simp: mrc_params_def simp del: of_nat_unat)
qed

lemma LRU_sims:
  assumes "opened csv fs (mt_reader p) rs" "warm_ok csv fs (mt_warmup_reader p) ws" "unat z < 2 ^ 47"
  shows "\<exists>r. get_mrc_thread csv g_quark fs (hashtable_ver1 hash) (cache_get (LRU_ops (hashtable_ver1 hash))) p (new_sim_res z) = Inr r \<and>
    counts_ok make_newest evict_oldest (map trace_obj (ws @ rs)) (length ws + unat (n_warmup_req p)) z r"
proof (rule lru1.mrc_thread_correct [OF assms(1,2)])
  show "cache_rep (ht_v1 hash) True (create_cache_with_new_size (hashtable_ver1 hash) (mt_cache p) z) []"
    unfolding create_cache_with_new_size_def by (rule v1.init_rep)
  show "lru_inv (unat z) []" using assms(3) by (simp add: lru_inv_def)
  show "cache_size (create_cache_with_new_size (hashtable_ver1 hash) (mt_cache p) z) = z"
    by (simp add: create_cache_with_new_size_def cache_struct_init_def Let_def)
  show "\<exists>n. get_cache_state (hashtable_ver1 hash) c = Inr (n, occupied_size c)" if "cache_rep (ht_v1 hash) True c L" for c L
    using get_cache_state_correct [OF that] by blast
qed simp

text \<open>
  (C11) \<^verbatim>\<open>get_miss_ratio_curve\<close> for LRU caches, with any number of threads, scheduled in any way, on traces
  in the simulator's binary format. No run of its threads and its main function is longer than
  \<open>7 n + 3\<close> steps for \<open>n\<close> sizes, and none is stuck before the return, so it returns. When it
  returns, every size has its result: the number and the bytes of the requests that are not used to
  warm up the cache and of those among them that miss in a list of that size that evicts the least
  recently used objects.
\<close>

theorem get_miss_ratio_curve_LRU:
  assumes "opened csv fs r rs" "warm_ok csv fs w ws" "mrc_params csv r cache w perc = Inr p"
    and "zs \<noteq> []" "length zs < 2 ^ 31" "\<forall>z \<in> set zs. unat z < 2 ^ 47" "0 < n_threads"
    and "(mrc_step (get_mrc_thread csv g_quark fs (hashtable_ver1 hash) (cache_get (LRU_ops (hashtable_ver1 hash))) p) n_threads ^^ k)
      (mrc_start zs) s"
  shows "k \<le> 7 * length zs + 3 \<and>
    (main_at s \<noteq> Returned \<longrightarrow>
      (\<exists>s'. mrc_step (get_mrc_thread csv g_quark fs (hashtable_ver1 hash) (cache_get (LRU_ops (hashtable_ver1 hash))) p) n_threads s s')) \<and>
    (main_at s = Returned \<longrightarrow> length (mrc_results s) = length zs \<and> progress s = length zs \<and>
      (\<forall>i < length zs. counts_ok make_newest evict_oldest (map trace_obj (ws @ rs))
        (length ws + unat (of_int \<lfloor>to_double (to_double (of_nat (length rs)) * perc)\<rfloor> :: u64)) (zs ! i) (mrc_results s ! i)))"
proof -
  let ?sim = "get_mrc_thread csv g_quark fs (hashtable_ver1 hash) (cache_get (LRU_ops (hashtable_ver1 hash))) p"
  let ?ok = "counts_ok make_newest evict_oldest (map trace_obj (ws @ rs)) (length ws + unat (n_warmup_req p))"
  let ?rs = "map new_sim_res zs"
  note p = opened_params [OF assms(1,3)]
  have "\<exists>r. ?sim (new_sim_res z) = Inr r \<and> ?ok z r" if "z \<in> set zs" for z
    using LRU_sims [of csv fs p rs ws z] assms(1,2,6) p(1,3) that by simp
  then obtain f where f: "\<And>z. z \<in> set zs \<Longrightarrow> ?sim (new_sim_res z) = Inr (f z) \<and> ?ok z (f z)" by metis
  have sim: "?sim (?rs ! i) = Inr (map f zs ! i)" if "i < length ?rs" for i using f [of "zs ! i"] that by simp
  have inv: "mrc_inv ?rs (map f zs) s"
    by (rule mrc_inv_reach [OF relpowp_imp_rtranclp [OF assms(8)]]) (use sim in simp)
  have "k + steps_to_go s \<le> 7 * length zs + 3"
    using steps_bounded [OF assms(8) mrc_inv_start sim] by (simp add: steps_at_start)
  moreover have "\<exists>s'. mrc_step ?sim n_threads s s'" if "main_at s \<noteq> Returned"
    using not_stuck [OF inv sim assms(7)] assms(4,5) that by simp
  moreover have "mrc_results s = map f zs" "progress s = length zs" if "main_at s = Returned"
    using returned_results [OF inv that] by simp_all
  ultimately show ?thesis using f by (auto simp: p(4))
qed

text \<open>Objects 1, 2, 1, 3 of 5 bytes each, with caches of 5 and 10 bytes and two threads: 4 and 3 misses.\<close>

theorem get_miss_ratio_curve_LRU_witness:
  "\<exists>reader p k s.
    setup_reader no_csv [''t'' \<mapsto> akamai_trace [(0, 1, 5), (1, 2, 5), (2, 1, 5), (3, 3, 5)]] ''t'' BIN_TRACE OBJ_ID_NUM akamai_params = Inr reader \<and>
    mrc_params no_csv (''t'', reader) (LRU_init (hashtable_ver1 (\<lambda>k. k)) (sample_params 10)) None 0 = Inr p \<and>
    (mrc_step (get_mrc_thread no_csv (\<lambda>_. 0) [''t'' \<mapsto> akamai_trace [(0, 1, 5), (1, 2, 5), (2, 1, 5), (3, 3, 5)]] (hashtable_ver1 (\<lambda>k. k))
      (cache_get (LRU_ops (hashtable_ver1 (\<lambda>k. k)))) p) 2 ^^ k) (mrc_start [5, 10]) s \<and>
    main_at s = Returned \<and> map r_miss_cnt (mrc_results s) = [4, 3]"
proof -
  let ?rs = "[(0, 1, 5), (1, 2, 5), (2, 1, 5), (3, 3, 5)] :: record_t list"
  let ?fs = "[''t'' \<mapsto> akamai_trace ?rs]" and ?H = "hashtable_ver1 (\<lambda>k. k)"
  let ?cache = "LRU_init ?H (sample_params 10)"
  have h: "?rs \<noteq> []" "?fs ''t'' = Some (akamai_trace ?rs)" "length ''t'' < MAX_FILE_PATH_LEN" "12 * length ?rs < 2 ^ 64"
    by (simp_all add: MAX_FILE_PATH_LEN_def)
  obtain reader where rd: "setup_reader no_csv ?fs ''t'' BIN_TRACE OBJ_ID_NUM akamai_params = Inr reader"
    "n_total_req reader = of_nat (length ?rs)"
    by (rule setup_akamai [where fs = ?fs and path = "''t''" and csv = no_csv and id_type = OBJ_ID_NUM, OF h])
  have o: "opened no_csv ?fs (''t'', reader) ?rs" using rd(1) h by (simp add: opened_def trace_obj_def)
  have w: "warm_ok no_csv ?fs None []" by (simp add: warm_ok_def)
  obtain p where p: "mrc_params no_csv (''t'', reader) ?cache None 0 = Inr p"
    using rd(2) by (simp add: mrc_params_def get_num_of_req_def)
  let ?step = "mrc_step (get_mrc_thread no_csv (\<lambda>_. 0) ?fs ?H (cache_get (LRU_ops ?H)) p) 2"
  have z: "[5, 10 :: u64] \<noteq> []" "length [5, 10 :: u64] < 2 ^ 31" "\<forall>z \<in> set [5, 10 :: u64]. unat z < 2 ^ 47" "0 < (2 :: nat)"
    by simp_all
  note curve = get_miss_ratio_curve_LRU [OF o w p z, where g_quark = "\<lambda>_. 0" and hash = "\<lambda>k. k"]
  obtain k s where s: "(?step ^^ k) (mrc_start [5, 10]) s" "main_at s = Returned"
    using run_to_end [of ?step "mrc_start [5, 10]" "7 * length [5, 10 :: u64] + 3" "\<lambda>s. main_at s = Returned"] curve by blast
  have zero: "unat (of_int \<lfloor>to_double (to_double (of_nat (length ?rs)) * 0)\<rfloor> :: u64) = 0" by (simp add: rnd_def)
  have res: "length (mrc_results s) = 2"
    "\<And>i. i < 2 \<Longrightarrow> counts_ok make_newest evict_oldest (map trace_obj ?rs) 0 ([5, 10] ! i) (mrc_results s ! i)"
    using curve [OF s(1)] s(2) unfolding zero by simp_all
  have "r_miss_cnt (mrc_results s ! 0) = 4" "r_miss_cnt (mrc_results s ! 1) = 3"
    using res(2) [of 0] res(2) [of 1] by (simp_all add: counts_ok_def trace_obj_def run_simps missed_def)
  then have "map r_miss_cnt (mrc_results s) = [4, 3]" using res(1) by (auto simp: list_eq_iff_nth_eq nth_Cons less_Suc_eq numeral_2_eq_2 split: nat.splits)
  then show ?thesis using rd(1) p s by (intro exI conjI)
qed

end
