(* ===== verification/PQueue.thy ===== *)
theory PQueue
  imports Prelude
begin

text \<open>
  \<^verbatim>\<open>dataStructure/pqueue.c\<close>: the binary heap of pointers to nodes, which keeps in every node its
  position in the array. The nodes are in a memory \<open>q_nodes\<close>; the call-backs \<^verbatim>\<open>getpri\<close>, \<^verbatim>\<open>setpri\<close>, \<^verbatim>\<open>getpos\<close> and
  \<^verbatim>\<open>setpos\<close> read and write the fields of a node, as all users of the queue define them, and \<^verbatim>\<open>cmppri\<close> is an
  argument. Fresh memory of \<^verbatim>\<open>malloc\<close> and \<^verbatim>\<open>realloc\<close> has the contents \<open>raw\<close>. An index is a natural number:
  an array of \<open>2 ^ 60\<close> pointers cannot be allocated, so its shifts do not wrap.
\<close>

section \<open>The queue\<close>

record pqueue_pri_t =
  pri1 :: u64
  pri2 :: u64

record pq_node_t =
  nd_pri :: pqueue_pri_t
  nd_obj_id :: obj_id_t
  nd_pos :: nat

record pqueue_t =
  q_size :: nat
  q_avail :: nat
  q_step :: nat
  q_d :: "nat list"
  q_nodes :: "nat \<rightharpoonup> pq_node_t"

type_synonym pri_less = "pqueue_pri_t \<Rightarrow> pqueue_pri_t \<Rightarrow> bool"

definition d_at :: "pqueue_t \<Rightarrow> nat \<Rightarrow> nat result" where
  "d_at q i = (if i < length (q_d q) then Inr (q_d q ! i) else Inl Out_of_bounds)"

definition set_d :: "nat \<Rightarrow> nat \<Rightarrow> pqueue_t \<Rightarrow> pqueue_t result" where
  "set_d i a q = (if i < length (q_d q) then Inr (q\<lparr>q_d := (q_d q)[i := a]\<rparr>) else Inl Out_of_bounds)"

definition get_pri :: "pqueue_t \<Rightarrow> nat \<Rightarrow> pqueue_pri_t result" where
  "get_pri q a = (case q_nodes q a of None \<Rightarrow> Inl Bad_pointer | Some x \<Rightarrow> Inr (nd_pri x))"

definition set_pri :: "nat \<Rightarrow> pqueue_pri_t \<Rightarrow> pqueue_t \<Rightarrow> pqueue_t result" where
  "set_pri a p q = (case q_nodes q a of None \<Rightarrow> Inl Bad_pointer
    | Some x \<Rightarrow> Inr (q\<lparr>q_nodes := (q_nodes q)(a \<mapsto> x\<lparr>nd_pri := p\<rparr>)\<rparr>))"

definition get_pos :: "pqueue_t \<Rightarrow> nat \<Rightarrow> nat result" where
  "get_pos q a = (case q_nodes q a of None \<Rightarrow> Inl Bad_pointer | Some x \<Rightarrow> Inr (nd_pos x))"

definition set_pos :: "nat \<Rightarrow> nat \<Rightarrow> pqueue_t \<Rightarrow> pqueue_t result" where
  "set_pos a i q = (case q_nodes q a of None \<Rightarrow> Inl Bad_pointer
    | Some x \<Rightarrow> Inr (q\<lparr>q_nodes := (q_nodes q)(a \<mapsto> x\<lparr>nd_pos := i\<rparr>)\<rparr>))"

definition pqueue_init :: "nat \<Rightarrow> (nat \<Rightarrow> nat) \<Rightarrow> (nat \<rightharpoonup> pq_node_t) \<Rightarrow> pqueue_t" where
  "pqueue_init n raw nodes = \<lparr>q_size = 1, q_avail = n + 1, q_step = n + 1, q_d = map raw [0 ..< n + 1], q_nodes = nodes\<rparr>"

definition pqueue_size :: "pqueue_t \<Rightarrow> nat" where
  "pqueue_size q = q_size q - 1"

text \<open>The loop of \<^verbatim>\<open>bubble_up\<close>: where the moving node goes.\<close>

function bubble_up_loop :: "pri_less \<Rightarrow> pqueue_pri_t \<Rightarrow> nat \<Rightarrow> pqueue_t \<Rightarrow> (nat \<times> pqueue_t) result" where
  "bubble_up_loop cmppri moving_pri i q =
    (if i > 1 then
       rbind (d_at q (i div 2)) (\<lambda>p.
       rbind (get_pri q p) (\<lambda>parent_pri.
       if cmppri parent_pri moving_pri then
         rbind (set_d i p q) (\<lambda>q. rbind (set_pos p i q) (\<lambda>q. bubble_up_loop cmppri moving_pri (i div 2) q))
       else Inr (i, q)))
     else Inr (i, q))"
  by pat_completeness auto

termination by (relation "measure (\<lambda>(_, _, i, _). i)") auto

definition place :: "nat \<Rightarrow> nat \<Rightarrow> pqueue_t \<Rightarrow> pqueue_t result" where
  "place i a q = rbind (set_d i a q) (set_pos a i)"

definition bubble_up :: "pri_less \<Rightarrow> nat \<Rightarrow> pqueue_t \<Rightarrow> pqueue_t result" where
  "bubble_up cmppri i q =
    rbind (d_at q i) (\<lambda>moving_node.
    rbind (get_pri q moving_node) (\<lambda>moving_pri.
    rbind (bubble_up_loop cmppri moving_pri i q) (\<lambda>(i, q). place i moving_node q)))"

definition maxchild :: "pri_less \<Rightarrow> pqueue_t \<Rightarrow> nat \<Rightarrow> nat result" where
  "maxchild cmppri q i =
    (let child_node = 2 * i in
     if child_node \<ge> q_size q then Inr 0
     else if child_node + 1 < q_size q then
       rbind (d_at q child_node) (\<lambda>a. rbind (get_pri q a) (\<lambda>p.
       rbind (d_at q (child_node + 1)) (\<lambda>b. rbind (get_pri q b) (\<lambda>r.
       Inr (if cmppri p r then child_node + 1 else child_node)))))
     else Inr child_node)"

lemma maxchild_cases:
  "maxchild cmppri q i = Inr c \<Longrightarrow> c = 0 \<or> c = 2 * i \<and> c < q_size q \<or> c = 2 * i + 1 \<and> c < q_size q"
  by (auto simp: maxchild_def Let_def rbind_eq_Inr split: if_splits)

lemma set_d_size: "set_d i a q = Inr q' \<Longrightarrow> q_size q' = q_size q"
  by (auto simp: set_d_def split: if_splits)

lemma set_pos_size: "set_pos a i q = Inr q' \<Longrightarrow> q_size q' = q_size q"
  by (auto simp: set_pos_def split: option.splits)

function percolate_down_loop :: "pri_less \<Rightarrow> pqueue_pri_t \<Rightarrow> nat \<Rightarrow> pqueue_t \<Rightarrow> (nat \<times> pqueue_t) result" where
  "percolate_down_loop cmppri moving_pri i q =
    (case maxchild cmppri q i of
       Inl e \<Rightarrow> Inl e
     | Inr c \<Rightarrow>
         if c = 0 then Inr (i, q)
         else
           rbind (d_at q c) (\<lambda>a.
           rbind (get_pri q a) (\<lambda>child_pri.
           if cmppri moving_pri child_pri then
             (case set_d i a q of
                Inl e \<Rightarrow> Inl e
              | Inr q1 \<Rightarrow>
                  (case set_pos a i q1 of Inl e \<Rightarrow> Inl e | Inr q2 \<Rightarrow> percolate_down_loop cmppri moving_pri c q2))
           else Inr (i, q))))"
  by pat_completeness auto

termination
  by (relation "measure (\<lambda>(_, _, i, q). q_size q - i)") (auto dest!: maxchild_cases set_d_size set_pos_size)

definition percolate_down :: "pri_less \<Rightarrow> nat \<Rightarrow> pqueue_t \<Rightarrow> pqueue_t result" where
  "percolate_down cmppri i q =
    rbind (d_at q i) (\<lambda>moving_node.
    rbind (get_pri q moving_node) (\<lambda>moving_pri.
    rbind (percolate_down_loop cmppri moving_pri i q) (\<lambda>(i, q). place i moving_node q)))"

definition pqueue_insert :: "pri_less \<Rightarrow> (nat \<Rightarrow> nat) \<Rightarrow> nat \<Rightarrow> pqueue_t \<Rightarrow> pqueue_t result" where
  "pqueue_insert cmppri raw a q =
    (let newsize = q_size q + q_step q;
         q = (if q_size q \<ge> q_avail q then q\<lparr>q_d := q_d q @ map raw [q_avail q ..< newsize], q_avail := newsize\<rparr> else q);
         i = q_size q in
     rbind (set_d i a (q\<lparr>q_size := q_size q + 1\<rparr>)) (bubble_up cmppri i))"

definition pqueue_change_priority :: "pri_less \<Rightarrow> pqueue_pri_t \<Rightarrow> nat \<Rightarrow> pqueue_t \<Rightarrow> pqueue_t result" where
  "pqueue_change_priority cmppri new_pri a q =
    rbind (get_pri q a) (\<lambda>old_pri.
    rbind (set_pri a new_pri q) (\<lambda>q.
    rbind (get_pos q a) (\<lambda>posn.
    if cmppri old_pri new_pri then bubble_up cmppri posn q else percolate_down cmppri posn q)))"

definition pqueue_remove :: "pri_less \<Rightarrow> nat \<Rightarrow> pqueue_t \<Rightarrow> pqueue_t result" where
  "pqueue_remove cmppri a q =
    rbind (get_pos q a) (\<lambda>posn.
    let q = q\<lparr>q_size := q_size q - 1\<rparr> in
    rbind (d_at q (q_size q)) (\<lambda>b.
    rbind (set_d posn b q) (\<lambda>q.
    rbind (get_pri q a) (\<lambda>p.
    rbind (d_at q posn) (\<lambda>b. rbind (get_pri q b) (\<lambda>r.
    if cmppri p r then bubble_up cmppri posn q else percolate_down cmppri posn q))))))"

definition pqueue_pop :: "pri_less \<Rightarrow> pqueue_t \<Rightarrow> (nat option \<times> pqueue_t) result" where
  "pqueue_pop cmppri q =
    (if q_size q = 1 then Inr (None, q)
     else
       rbind (d_at q 1) (\<lambda>head.
       let q = q\<lparr>q_size := q_size q - 1\<rparr> in
       rbind (d_at q (q_size q)) (\<lambda>b.
       rbind (set_d 1 b q) (\<lambda>q.
       rbind (percolate_down cmppri 1 q) (\<lambda>q. Inr (Some head, q))))))"

definition pqueue_peek :: "pqueue_t \<Rightarrow> nat option result" where
  "pqueue_peek q = (if q_size q = 1 then Inr None else rbind (d_at q 1) (\<lambda>a. Inr (Some a)))"

text \<open>The check of the heap order. The positions of the code start at 1; from position 0, its own left
  child, the recursion would not end.\<close>

function subtree_is_valid :: "pri_less \<Rightarrow> pqueue_t \<Rightarrow> nat \<Rightarrow> bool result" where
  "subtree_is_valid cmppri q i =
    (if i = 0 then Inl Diverges
     else
       rbind (if 2 * i < q_size q then
                rbind (d_at q i) (\<lambda>a. rbind (get_pri q a) (\<lambda>p. rbind (d_at q (2 * i)) (\<lambda>b. rbind (get_pri q b) (\<lambda>r.
                if cmppri p r then Inr False else subtree_is_valid cmppri q (2 * i)))))
              else Inr True) (\<lambda>ok.
       if \<not> ok then Inr False
       else if 2 * i + 1 < q_size q then
         rbind (d_at q i) (\<lambda>a. rbind (get_pri q a) (\<lambda>p. rbind (d_at q (2 * i + 1)) (\<lambda>b. rbind (get_pri q b) (\<lambda>r.
         if cmppri p r then Inr False else subtree_is_valid cmppri q (2 * i + 1)))))
       else Inr True))"
  by pat_completeness auto

termination by (relation "measure (\<lambda>(_, q, i). q_size q - i)") auto

definition pqueue_is_valid :: "pri_less \<Rightarrow> pqueue_t \<Rightarrow> bool result" where
  "pqueue_is_valid cmppri q = subtree_is_valid cmppri q 1"

declare bubble_up_loop.simps [simp del] percolate_down_loop.simps [simp del] subtree_is_valid.simps [simp del]

text \<open>The orders of the users of the queue: LFU, LRU-K and the optimal algorithm.\<close>

definition LFU_cmp_pri :: pri_less where
  "LFU_cmp_pri p r = (if pri1 p = pri1 r then pri2 p > pri2 r else pri1 p > pri1 r)"

definition LRU_K_cmp_pri :: pri_less where
  "LRU_K_cmp_pri p r = (pri1 p > pri1 r)"

definition Optimal_cmp_pri :: pri_less where
  "Optimal_cmp_pri p r = (pri1 p < pri1 r)"

end
