(* ===== verification/PQueueProps.thy ===== *)
theory PQueueProps
  imports PQueue
begin

text \<open>
  The priority queue is a binary heap whose nodes know their positions. Sifting is a heap with a hole
  at the place of the moving node; the order around the hole is reasoned about on the function from
  positions to priorities, for any strict weak order.
\<close>

section \<open>Heaps with a hole\<close>

locale pri_order =
  fixes cmppri :: pri_less
  assumes asym: "cmppri a b \<Longrightarrow> \<not> cmppri b a"
    and neg_trans: "\<not> cmppri a b \<Longrightarrow> \<not> cmppri b c \<Longrightarrow> \<not> cmppri a c"
begin

definition heap_order :: "nat \<Rightarrow> (nat \<Rightarrow> pqueue_pri_t) \<Rightarrow> bool" where
  "heap_order n A \<longleftrightarrow> (\<forall>k. 2 \<le> k \<and> k < n \<longrightarrow> \<not> cmppri (A (k div 2)) (A k))"

text \<open>The order but for position \<open>i\<close>, whose parent is not below its children.\<close>

definition holed_order :: "nat \<Rightarrow> nat \<Rightarrow> (nat \<Rightarrow> pqueue_pri_t) \<Rightarrow> bool" where
  "holed_order n i A \<longleftrightarrow>
    (\<forall>k. 2 \<le> k \<and> k < n \<and> k \<noteq> i \<and> k div 2 \<noteq> i \<longrightarrow> \<not> cmppri (A (k div 2)) (A k)) \<and>
    (1 < i \<longrightarrow> (\<forall>c. 2 \<le> c \<and> c < n \<and> c div 2 = i \<longrightarrow> \<not> cmppri (A (i div 2)) (A c)))"

definition above_children :: "nat \<Rightarrow> nat \<Rightarrow> pqueue_pri_t \<Rightarrow> (nat \<Rightarrow> pqueue_pri_t) \<Rightarrow> bool" where
  "above_children n i m A \<longleftrightarrow> (\<forall>c. 2 \<le> c \<and> c < n \<and> c div 2 = i \<longrightarrow> \<not> cmppri m (A c))"

lemma order_cong:
  assumes "\<And>k. 1 \<le> k \<Longrightarrow> k < n \<Longrightarrow> A k = B k"
  shows "heap_order n A = heap_order n B" "holed_order n i A = holed_order n i B"
    "above_children n i m A = above_children n i m B"
proof -
  have h: "A (k div 2) = B (k div 2)" "A k = B k" if "2 \<le> k" "k < n" for k
    using that by (auto intro!: assms)
  show "heap_order n A = heap_order n B" "above_children n i m A = above_children n i m B"
    unfolding heap_order_def above_children_def using h by metis+
  have "A (i div 2) = B (i div 2)" if "1 < i" "2 \<le> c" "c < n" "c div 2 = i" for c
    using that by (intro assms) auto
  then show "holed_order n i A = holed_order n i B" unfolding holed_order_def using h by metis
qed

lemma up_step:
  assumes "holed_order n i A" "1 < i" "cmppri (A (i div 2)) m"
  shows "holed_order n (i div 2) (A(i := A (i div 2)))" "above_children n (i div 2) m (A(i := A (i div 2)))"
proof -
  let ?p = "i div 2" and ?B = "A(i := A (i div 2))"
  have o: "\<not> cmppri (A (k div 2)) (A k)" if "2 \<le> k" "k < n" "k \<noteq> i" "k div 2 \<noteq> i" for k
    using assms(1) that by (simp add: holed_order_def)
  have c: "\<not> cmppri (A ?p) (A k)" if "2 \<le> k" "k < n" "k div 2 = i" for k using assms(1,2) that by (simp add: holed_order_def)
  have p: "?p \<noteq> i" "?p < i" using assms(2) by auto
  have m: "\<not> cmppri m (A ?p)" using assms(3) by (rule asym)
  have "\<not> cmppri (?B (k div 2)) (?B k)" if "2 \<le> k" "k < n" "k \<noteq> ?p" "k div 2 \<noteq> ?p" for k
    using that o [of k] c [of k] by auto
  moreover have "\<not> cmppri (?B (?p div 2)) (?B k)" if "1 < ?p" "2 \<le> k" "k < n" "k div 2 = ?p" for k
  proof -
    have g: "?p div 2 \<noteq> i" using p that(1) by auto
    have "\<not> cmppri (A (?p div 2)) (A ?p)" using o [of ?p] that p g by auto
    moreover have "k = i \<or> \<not> cmppri (A ?p) (A k)" using o [of k] that p(1) by auto
    ultimately show ?thesis using g neg_trans by auto
  qed
  ultimately show "holed_order n ?p ?B" by (simp add: holed_order_def)
  have "\<not> cmppri m (?B k)" if "2 \<le> k" "k < n" "k div 2 = ?p" for k
    using m o [of k] that p(1) neg_trans [of m "A ?p" "A k"] by auto
  then show "above_children n ?p m ?B" by (simp add: above_children_def)
qed

lemma hole_filled:
  assumes "holed_order n i A" "above_children n i m A" "1 < i \<Longrightarrow> i < n \<Longrightarrow> \<not> cmppri (A (i div 2)) m"
  shows "heap_order n (A(i := m))"
  unfolding heap_order_def
proof (intro allI impI)
  fix k
  assume k: "2 \<le> k \<and> k < n"
  then have "k div 2 \<noteq> k" by auto
  then show "\<not> cmppri ((A(i := m)) (k div 2)) ((A(i := m)) k)"
    using assms k by (cases "k = i"; cases "k div 2 = i") (auto simp: holed_order_def above_children_def)
qed

lemma down_step:
  assumes "holed_order n i A" "1 \<le> i" "c div 2 = i" "2 \<le> c" "c < n" "cmppri m (A c)"
    and "\<And>s. 2 \<le> s \<Longrightarrow> s < n \<Longrightarrow> s div 2 = i \<Longrightarrow> \<not> cmppri (A c) (A s)"
  shows "holed_order n c (A(i := A c))" "\<not> cmppri ((A(i := A c)) (c div 2)) m"
proof -
  let ?B = "A(i := A c)"
  have o: "\<not> cmppri (A (k div 2)) (A k)" if "2 \<le> k" "k < n" "k \<noteq> i" "k div 2 \<noteq> i" for k
    using assms(1) that by (simp add: holed_order_def)
  have ci: "i < c" "c \<noteq> i" using assms(2,3,4) by auto
  have "\<not> cmppri (?B (k div 2)) (?B k)" if k: "2 \<le> k" "k < n" "k \<noteq> c" "k div 2 \<noteq> c" for k
  proof (cases "k = i")
    case True
    then have "\<not> cmppri (A (i div 2)) (A c)" "i div 2 \<noteq> i" using assms(1,3,4,5) k by (auto simp: holed_order_def)
    then show ?thesis using True by simp
  next
    case False
    then show ?thesis using o [of k] assms(7) [of k] k by auto
  qed
  moreover have "\<not> cmppri (?B (c div 2)) (?B k)" if "2 \<le> k" "k < n" "k div 2 = c" for k
    using o [of k] that ci assms(3) by auto
  ultimately show "holed_order n c ?B" by (simp add: holed_order_def)
  show "\<not> cmppri (?B (c div 2)) m" using asym [OF assms(6)] assms(3) by simp
qed

text \<open>What is at the hole does not matter.\<close>

lemma hole_cong:
  assumes "\<And>k. 1 \<le> k \<Longrightarrow> k < n \<Longrightarrow> k \<noteq> i \<Longrightarrow> B k = A k"
  shows "holed_order n i B = holed_order n i A" "above_children n i m B = above_children n i m A"
proof -
  have h: "B (k div 2) = A (k div 2)" "B k = A k" if "2 \<le> k" "k < n" "k \<noteq> i" "k div 2 \<noteq> i" for k
    using that by (auto intro!: assms)
  have c: "B c = A c" if "2 \<le> c" "c < n" "c div 2 = i" for c using that by (intro assms) auto
  then show "above_children n i m B = above_children n i m A" unfolding above_children_def by metis
  have "B (i div 2) = A (i div 2)" if "1 < i" "2 \<le> c" "c < n" "c div 2 = i" for c using that by (intro assms) auto
  then show "holed_order n i B = holed_order n i A" unfolding holed_order_def using h c by metis
qed

lemma heap_top:
  assumes "heap_order n A" "1 \<le> k" "k < n"
  shows "\<not> cmppri (A 1) (A k)"
  using assms(2,3)
proof (induction k rule: less_induct)
  case (less k)
  show ?case
  proof (cases "k = 1")
    case True
    then show ?thesis using asym by blast
  next
    case False
    then have "\<not> cmppri (A 1) (A (k div 2))" using less.prems by (intro less.IH) auto
    moreover have "\<not> cmppri (A (k div 2)) (A k)" using assms(1) False less.prems by (simp add: heap_order_def)
    ultimately show ?thesis by (rule neg_trans)
  qed
qed

text \<open>A heap with one priority replaced.\<close>

lemma heap_holed:
  assumes "heap_order n A" "1 \<le> i" "\<And>k. 1 \<le> k \<Longrightarrow> k < n \<Longrightarrow> k \<noteq> i \<Longrightarrow> B k = A k"
  shows "holed_order n i B"
proof -
  have "\<not> cmppri (B (i div 2)) (B c)" if "1 < i" "2 \<le> c" "c < n" "c div 2 = i" for c
  proof -
    have "\<not> cmppri (A (i div 2)) (A i)" "\<not> cmppri (A i) (A c)" using assms(1) that by (auto simp: heap_order_def)
    then show ?thesis using neg_trans assms(3) [of "i div 2"] assms(3) [of c] that by auto
  qed
  moreover have "\<not> cmppri (B (k div 2)) (B k)" if "2 \<le> k" "k < n" "k \<noteq> i" "k div 2 \<noteq> i" for k
    using assms(1) assms(3) [of "k div 2"] assms(3) [of k] that by (auto simp: heap_order_def)
  ultimately show ?thesis by (simp add: holed_order_def)
qed

lemma raised:
  assumes "heap_order n A" "cmppri (A i) m" "1 \<le> i" "\<And>k. 1 \<le> k \<Longrightarrow> k < n \<Longrightarrow> k \<noteq> i \<Longrightarrow> B k = A k"
  shows "above_children n i m B"
  unfolding above_children_def
proof (intro allI impI)
  fix c
  assume c: "2 \<le> c \<and> c < n \<and> c div 2 = i"
  then have "\<not> cmppri (A i) (A c)" "B c = A c" using assms(1) assms(4) [of c] by (auto simp: heap_order_def)
  then show "\<not> cmppri m (B c)" using neg_trans asym [OF assms(2)] by simp
qed

lemma lowered:
  assumes "heap_order n A" "\<not> cmppri (A i) m" "1 < i" "i < n" "\<And>k. 1 \<le> k \<Longrightarrow> k < n \<Longrightarrow> k \<noteq> i \<Longrightarrow> B k = A k"
  shows "\<not> cmppri (B (i div 2)) m"
proof -
  have "\<not> cmppri (A (i div 2)) (A i)" "B (i div 2) = A (i div 2)"
    using assms(1,3,4) assms(5) [of "i div 2"] by (auto simp: heap_order_def)
  then show ?thesis using neg_trans assms(2) by simp
qed

end

section \<open>The array and the nodes\<close>

definition pri_of :: "pqueue_t \<Rightarrow> nat \<Rightarrow> pqueue_pri_t" where
  "pri_of q a = nd_pri (the (q_nodes q a))"

definition pri_at :: "pqueue_t \<Rightarrow> nat \<Rightarrow> pqueue_pri_t" where
  "pri_at q k = pri_of q (q_d q ! k)"

definition active :: "pqueue_t \<Rightarrow> nat set" where
  "active q = {1 ..< q_size q}"

definition elems :: "pqueue_t \<Rightarrow> nat set" where
  "elems q = (!) (q_d q) ` active q"

definition array_ok :: "pqueue_t \<Rightarrow> bool" where
  "array_ok q \<longleftrightarrow> 1 \<le> q_size q \<and> q_size q \<le> q_avail q \<and> length (q_d q) = q_avail q \<and> 0 < q_step q"

definition knows_pos :: "pqueue_t \<Rightarrow> nat \<Rightarrow> bool" where
  "knows_pos q k \<longleftrightarrow> (\<exists>x. q_nodes q (q_d q ! k) = Some x \<and> nd_pos x = k)"

text \<open>Only positions of nodes and the order of the array differ.\<close>

definition same_pris :: "pqueue_t \<Rightarrow> pqueue_t \<Rightarrow> bool" where
  "same_pris q q' \<longleftrightarrow> q_size q' = q_size q \<and> (\<forall>a. map_option nd_pri (q_nodes q' a) = map_option nd_pri (q_nodes q a))"

lemma same_pris_refl [simp]: "same_pris q q"
  by (simp add: same_pris_def)

lemma same_pris_trans [trans]: "same_pris q1 q2 \<Longrightarrow> same_pris q2 q3 \<Longrightarrow> same_pris q1 q3"
  by (simp add: same_pris_def)

lemma same_pris_of: "same_pris q q' \<Longrightarrow> q_nodes q a \<noteq> None \<Longrightarrow> pri_of q' a = pri_of q a \<and> q_nodes q' a \<noteq> None"
proof -
  assume "same_pris q q'" "q_nodes q a \<noteq> None"
  then have "map_option nd_pri (q_nodes q' a) = map_option nd_pri (q_nodes q a)" "q_nodes q a \<noteq> None" by (auto simp: same_pris_def)
  then show ?thesis unfolding pri_of_def by (metis map_option_is_None option.map_sel)
qed

text \<open>The node \<open>a\<close> is moving, its place is to be \<open>i\<close>; \<open>E\<close> are the nodes of the queue.\<close>

definition holed :: "nat \<Rightarrow> nat \<Rightarrow> pqueue_t \<Rightarrow> nat set \<Rightarrow> bool" where
  "holed i a q E \<longleftrightarrow> array_ok q \<and> i \<in> active q \<and> q_nodes q a \<noteq> None \<and> (\<forall>k \<in> active q - {i}. knows_pos q k \<and> q_d q ! k \<noteq> a) \<and>
     E = insert a ((!) (q_d q) ` (active q - {i}))"

lemma holedD: "holed i a q E \<Longrightarrow> i \<in> active q" "holed i a q E \<Longrightarrow> array_ok q" "holed i a q E \<Longrightarrow> q_nodes q a \<noteq> None"
  "holed i a q E \<Longrightarrow> k \<in> active q \<Longrightarrow> k \<noteq> i \<Longrightarrow> knows_pos q k"
  by (simp_all add: holed_def)

lemma active_d: "array_ok q \<Longrightarrow> k \<in> active q \<Longrightarrow> k < length (q_d q)"
  by (simp add: array_ok_def active_def)

lemma d_at_active [simp]: "array_ok q \<Longrightarrow> k \<in> active q \<Longrightarrow> d_at q k = Inr (q_d q ! k)"
  by (simp add: d_at_def active_d)

lemma get_pri_node: "q_nodes q a \<noteq> None \<Longrightarrow> get_pri q a = Inr (pri_of q a)"
  by (auto simp: get_pri_def pri_of_def)

lemma get_pri_active: "knows_pos q k \<Longrightarrow> get_pri q (q_d q ! k) = Inr (pri_at q k)"
  by (auto simp: get_pri_node pri_at_def knows_pos_def)

lemma knows_pos_inj: "knows_pos q k \<Longrightarrow> knows_pos q l \<Longrightarrow> q_d q ! k = q_d q ! l \<Longrightarrow> k = l"
  unfolding knows_pos_def by (metis option.inject)

lemma move_node:
  assumes "holed i a q E" "j \<in> active q" "j \<noteq> i"
  obtains q1 q2 where "set_d i (q_d q ! j) q = Inr q1" "set_pos (q_d q ! j) i q1 = Inr q2" "holed j a q2 E" "same_pris q q2"
    "\<forall>k \<in> active q. k \<noteq> j \<longrightarrow> pri_at q2 k = (if k = i then pri_at q j else pri_at q k)"
proof -
  let ?b = "q_d q ! j"
  have h: "array_ok q" "i \<in> active q" "q_nodes q a \<noteq> None" "\<And>k. k \<in> active q \<Longrightarrow> k \<noteq> i \<Longrightarrow> knows_pos q k \<and> q_d q ! k \<noteq> a"
    "E = insert a ((!) (q_d q) ` (active q - {i}))" using assms(1) by (auto simp: holed_def)
  obtain x where x: "q_nodes q ?b = Some x" "nd_pos x = j" using h(4) [of j] assms(2,3) by (auto simp: knows_pos_def)
  let ?q1 = "q\<lparr>q_d := (q_d q)[i := ?b]\<rparr>"
  let ?q2 = "?q1\<lparr>q_nodes := (q_nodes q)(?b \<mapsto> x\<lparr>nd_pos := i\<rparr>)\<rparr>"
  have i: "i < length (q_d q)" using active_d h(1,2) by blast
  have act: "active ?q2 = active q" by (simp add: active_def)
  have other: "q_d q ! k \<noteq> ?b" if "k \<in> active q" "k \<noteq> i" "k \<noteq> j" for k
    using knows_pos_inj [of q k j] h(4) that assms(2,3) by blast
  have ab: "a \<noteq> ?b" using h(4) [of j] assms(2,3) by auto
  have kp: "knows_pos ?q2 k \<and> q_d ?q2 ! k \<noteq> a" if "k \<in> active q" "k \<noteq> j" for k
    using that h(4) [of k] other [of k] i x ab by (cases "k = i") (auto simp: knows_pos_def)
  have "(!) (q_d ?q2) ` (active q - {j}) = (!) (q_d q) ` (active q - {i})"
  proof -
    have "(!) (q_d ?q2) ` (active q - {j}) = insert ?b ((!) (q_d q) ` (active q - {i, j}))"
      using i h(2) assms(3) by (auto simp: nth_list_update image_iff)
    also have "\<dots> = (!) (q_d q) ` (active q - {i})" using assms(2,3) by blast
    finally show ?thesis .
  qed
  then have "holed j a ?q2 E" using h(1,3,5) assms(2) kp ab by (auto simp: holed_def act array_ok_def)
  moreover have "same_pris q ?q2" using x(1) by (simp add: same_pris_def)
  moreover have "\<forall>k \<in> active q. k \<noteq> j \<longrightarrow> pri_at ?q2 k = (if k = i then pri_at q j else pri_at q k)"
    using other i x(1) by (auto simp: pri_at_def pri_of_def)
  moreover have "set_d i ?b q = Inr ?q1" "set_pos ?b i ?q1 = Inr ?q2" using i x(1) by (simp_all add: set_d_def set_pos_def)
  ultimately show thesis by (intro that)
qed

lemma place_node:
  assumes "holed i a q E"
  obtains q' where "place i a q = Inr q'" "array_ok q'" "\<forall>k \<in> active q. knows_pos q' k" "elems q' = E" "same_pris q q'"
    "\<forall>k \<in> active q. pri_at q' k = (if k = i then pri_of q a else pri_at q k)"
proof -
  have h: "array_ok q" "i \<in> active q" "q_nodes q a \<noteq> None" "\<And>k. k \<in> active q \<Longrightarrow> k \<noteq> i \<Longrightarrow> knows_pos q k \<and> q_d q ! k \<noteq> a"
    "E = insert a ((!) (q_d q) ` (active q - {i}))" using assms(1) by (auto simp: holed_def)
  obtain x where x: "q_nodes q a = Some x" using h(3) by auto
  let ?q' = "q\<lparr>q_d := (q_d q)[i := a], q_nodes := (q_nodes q)(a \<mapsto> x\<lparr>nd_pos := i\<rparr>)\<rparr>"
  have i: "i < length (q_d q)" using active_d h(1,2) by blast
  have act: "active ?q' = active q" by (simp add: active_def)
  have "place i a q = Inr ?q'" using i x by (simp add: place_def set_d_def set_pos_def)
  moreover have "array_ok ?q'" using h(1) by (simp add: array_ok_def)
  moreover have "knows_pos ?q' k" if "k \<in> active q" for k using that h(4) [of k] i by (cases "k = i") (auto simp: knows_pos_def)
  then have "\<forall>k \<in> active q. knows_pos ?q' k" by blast
  moreover have "elems ?q' = E" using i h(2,5) by (auto simp: elems_def act nth_list_update image_iff)
  moreover have "same_pris q ?q'" using x by (simp add: same_pris_def)
  moreover have "\<forall>k \<in> active q. pri_at ?q' k = (if k = i then pri_of q a else pri_at q k)"
    using h(4) i x by (auto simp: pri_at_def pri_of_def)
  ultimately show thesis by (intro that)
qed

section \<open>Sifting\<close>

context pri_order
begin

definition pq_ok :: "pqueue_t \<Rightarrow> bool" where
  "pq_ok q \<longleftrightarrow> array_ok q \<and> (\<forall>k \<in> active q. knows_pos q k) \<and> heap_order (q_size q) (pri_at q)"

lemma bubble_up_loop_correct:
  assumes "holed i a q E" "holed_order (q_size q) i (pri_at q)" "above_children (q_size q) i m (pri_at q)"
  shows "\<exists>j q'. bubble_up_loop cmppri m i q = Inr (j, q') \<and> holed j a q' E \<and> same_pris q q' \<and>
    heap_order (q_size q) ((pri_at q')(j := m))"
  using assms
proof (induction i arbitrary: q rule: less_induct)
  case (less i)
  show ?case
  proof (cases "1 < i \<and> cmppri (pri_at q (i div 2)) m")
    case False
    then have "heap_order (q_size q) ((pri_at q)(i := m))" using less.prems by (intro hole_filled) auto
    moreover have "bubble_up_loop cmppri m i q = Inr (i, q)"
    proof (cases "1 < i")
      case True
      then have "i div 2 \<in> active q" "i div 2 \<noteq> i" using less.prems(1) by (auto simp: holed_def active_def)
      then have "d_at q (i div 2) = Inr (q_d q ! (i div 2))" "get_pri q (q_d q ! (i div 2)) = Inr (pri_at q (i div 2))"
        using less.prems(1) by (auto simp: holed_def get_pri_active)
      then show ?thesis using False True by (subst bubble_up_loop.simps) simp
    qed (subst bubble_up_loop.simps, simp)
    ultimately show ?thesis using less.prems(1) by (intro exI [of _ i] exI [of _ q] conjI same_pris_refl)
  next
    case True
    note ia = holedD(1) [OF less.prems(1)]
    have "1 < i" using True by simp
    then have p: "i div 2 \<in> active q" "i div 2 \<noteq> i" and lt: "i div 2 < i" using ia unfolding active_def atLeastLessThan_iff by arith+
    obtain q1 q2 where mv: "set_d i (q_d q ! (i div 2)) q = Inr q1" "set_pos (q_d q ! (i div 2)) i q1 = Inr q2" "holed (i div 2) a q2 E"
      "same_pris q q2" "\<forall>k \<in> active q. k \<noteq> i div 2 \<longrightarrow> pri_at q2 k = (if k = i then pri_at q (i div 2) else pri_at q k)"
      by (rule move_node [OF less.prems(1) p(1,2)])
    have sz: "q_size q2 = q_size q" using mv(4) by (simp add: same_pris_def)
    let ?A = "(pri_at q)(i := pri_at q (i div 2))"
    have o: "holed_order (q_size q2) (i div 2) ?A" "above_children (q_size q2) (i div 2) m ?A"
      using up_step [OF less.prems(2) True [THEN conjunct1] True [THEN conjunct2]] by (simp_all add: sz)
    have eq: "pri_at q2 k = ?A k" if "1 \<le> k" "k < q_size q2" "k \<noteq> i div 2" for k using mv(5) that sz by (simp add: active_def)
    have "holed_order (q_size q2) (i div 2) (pri_at q2)" "above_children (q_size q2) (i div 2) m (pri_at q2)"
      using o hole_cong [of "q_size q2" "i div 2" "pri_at q2" ?A, OF eq] by blast+
    then obtain j q' where r: "bubble_up_loop cmppri m (i div 2) q2 = Inr (j, q')" "holed j a q' E" "same_pris q2 q'"
      "heap_order (q_size q2) ((pri_at q')(j := m))"
      using less.IH [OF lt mv(3)] by blast
    have e: "bubble_up_loop cmppri m i q = bubble_up_loop cmppri m (i div 2) q2"
    proof -
      have "d_at q (i div 2) = Inr (q_d q ! (i div 2))" "get_pri q (q_d q ! (i div 2)) = Inr (pri_at q (i div 2))"
        using less.prems(1) p by (auto simp: holed_def get_pri_active)
      then show ?thesis using True mv(1,2) by (subst bubble_up_loop.simps) simp
    qed
    show ?thesis unfolding e using r(1,2) same_pris_trans [OF mv(4) r(3)] r(4) [unfolded sz] by blast
  qed
qed

lemma place_correct:
  assumes "holed i a q E" "heap_order (q_size q) ((pri_at q)(i := pri_of q a))"
  shows "\<exists>q'. place i a q = Inr q' \<and> pq_ok q' \<and> elems q' = E \<and> same_pris q q'"
proof -
  obtain q' where q': "place i a q = Inr q'" "array_ok q'" "\<forall>k \<in> active q. knows_pos q' k" "elems q' = E" "same_pris q q'"
    "\<forall>k \<in> active q. pri_at q' k = (if k = i then pri_of q a else pri_at q k)" by (rule place_node [OF assms(1)])
  have sz: "q_size q' = q_size q" "active q' = active q" using q'(5) by (simp_all add: same_pris_def active_def)
  have "heap_order (q_size q) (pri_at q') = heap_order (q_size q) ((pri_at q)(i := pri_of q a))"
    using q'(6) by (intro order_cong(1)) (simp add: active_def)
  then have "pq_ok q'" using q'(2,3) assms(2) sz by (simp add: pq_ok_def)
  then show ?thesis using q'(1,4,5) by blast
qed

lemma bubble_up_correct:
  assumes "holed i (q_d q ! i) q E" "holed_order (q_size q) i (pri_at q)" "above_children (q_size q) i (pri_at q i) (pri_at q)"
  shows "\<exists>q'. bubble_up cmppri i q = Inr q' \<and> pq_ok q' \<and> elems q' = E \<and> same_pris q q'"
proof -
  let ?a = "q_d q ! i"
  have a: "q_nodes q ?a \<noteq> None" "array_ok q" "i \<in> active q" "pri_at q i = pri_of q ?a" using assms(1) by (auto simp: holed_def pri_at_def)
  obtain j q1 where q1: "bubble_up_loop cmppri (pri_of q ?a) i q = Inr (j, q1)" "holed j ?a q1 E" "same_pris q q1"
    "heap_order (q_size q) ((pri_at q1)(j := pri_of q ?a))"
    using bubble_up_loop_correct [OF assms(1,2), of "pri_of q ?a"] assms(3) a(4) by auto
  have "heap_order (q_size q1) ((pri_at q1)(j := pri_of q1 ?a))" using q1(3,4) same_pris_of [OF q1(3) a(1)] by (simp add: same_pris_def)
  from place_correct [OF q1(2) this] obtain q' where "place j ?a q1 = Inr q'" "pq_ok q'" "elems q' = E" "same_pris q1 q'" by blast
  then show ?thesis using q1(1) a same_pris_trans [OF q1(3)] by (auto simp: bubble_up_def get_pri_node)
qed

lemma maxchild_correct:
  assumes "holed i a q E"
  obtains c where "maxchild cmppri q i = Inr c" "c = 0 \<longrightarrow> q_size q \<le> 2 * i"
    "c \<noteq> 0 \<longrightarrow> c div 2 = i \<and> 2 \<le> c \<and> c \<in> active q \<and> c \<noteq> i \<and>
      (\<forall>s. 2 \<le> s \<and> s < q_size q \<and> s div 2 = i \<longrightarrow> \<not> cmppri (pri_at q c) (pri_at q s))"
proof -
  note ia = holedD(1,2) [OF assms]
  have i: "1 \<le> i" using ia(1) by (simp add: active_def)
  have sib: "s = 2 * i \<or> s = 2 * i + 1" if "s div 2 = i" for s using that by arith
  have rd: "d_at q k = Inr (q_d q ! k)" "get_pri q (q_d q ! k) = Inr (pri_at q k)" if "k < q_size q" "i < k" for k
    using that i holedD(4) [OF assms] by (auto simp: ia(2) active_def intro!: get_pri_active)
  have irr: "\<not> cmppri p p" for p using asym by blast
  show thesis
  proof (cases "2 * i + 1 < q_size q")
    case True
    let ?c = "if cmppri (pri_at q (2 * i)) (pri_at q (2 * i + 1)) then 2 * i + 1 else 2 * i"
    have "maxchild cmppri q i = Inr ?c" using True i rd [of "2 * i"] rd [of "2 * i + 1"] by (simp add: maxchild_def Let_def)
    moreover have "\<not> cmppri (pri_at q ?c) (pri_at q s)" if "s div 2 = i" for s
      using sib [OF that] irr asym by auto
    ultimately show thesis using True i by (intro that [of ?c]) (auto simp: active_def)
  next
    case False
    show thesis
    proof (cases "2 * i < q_size q")
      case True
      then have "maxchild cmppri q i = Inr (2 * i)" using False by (simp add: maxchild_def Let_def)
      moreover have "\<not> cmppri (pri_at q (2 * i)) (pri_at q s)" if "s < q_size q" "s div 2 = i" for s
        using sib [OF that(2)] that(1) False irr by auto
      ultimately show thesis using True i by (intro that [of "2 * i"]) (auto simp: active_def)
    next
      case False
      then show thesis by (intro that [of 0]) (auto simp: maxchild_def Let_def)
    qed
  qed
qed

lemma percolate_down_loop_correct:
  assumes "holed i a q E" "holed_order (q_size q) i (pri_at q)" "1 < i \<longrightarrow> \<not> cmppri (pri_at q (i div 2)) m"
  shows "\<exists>j q'. percolate_down_loop cmppri m i q = Inr (j, q') \<and> holed j a q' E \<and> same_pris q q' \<and>
    heap_order (q_size q) ((pri_at q')(j := m))"
  using assms
proof (induction "q_size q - i" arbitrary: i q rule: less_induct)
  case less
  note ia = holedD(1,2) [OF less.prems(1)]
  have i: "1 \<le> i" using ia(1) by (simp add: active_def)
  obtain c where c: "maxchild cmppri q i = Inr c" "c = 0 \<longrightarrow> q_size q \<le> 2 * i"
    "c \<noteq> 0 \<longrightarrow> c div 2 = i \<and> 2 \<le> c \<and> c \<in> active q \<and> c \<noteq> i \<and>
      (\<forall>s. 2 \<le> s \<and> s < q_size q \<and> s div 2 = i \<longrightarrow> \<not> cmppri (pri_at q c) (pri_at q s))"
    by (rule maxchild_correct [OF less.prems(1)])
  have rd: "d_at q c = Inr (q_d q ! c)" "get_pri q (q_d q ! c) = Inr (pri_at q c)" if "c \<noteq> 0"
    using c(3) that holedD(4) [OF less.prems(1), of c] by (simp_all add: ia(2) get_pri_active)
  show ?case
  proof (cases "c \<noteq> 0 \<and> cmppri m (pri_at q c)")
    case False
    have "above_children (q_size q) i m (pri_at q)"
    proof (cases "c = 0")
      case True
      then show ?thesis using c(2) by (auto simp: above_children_def)
    next
      case nz: False
      then have "\<not> cmppri m (pri_at q c)" using False by blast
      then show ?thesis using c(3) nz neg_trans unfolding above_children_def by blast
    qed
    then have "heap_order (q_size q) ((pri_at q)(i := m))" using less.prems by (intro hole_filled) auto
    moreover have "percolate_down_loop cmppri m i q = Inr (i, q)"
      using c(1) rd False by (subst percolate_down_loop.simps) (cases "c = 0"; simp)
    ultimately show ?thesis using less.prems(1) by (intro exI [of _ i] exI [of _ q] conjI same_pris_refl)
  next
    case True
    then have cc: "c div 2 = i" "2 \<le> c" "c \<in> active q" "c \<noteq> i"
      "\<And>s. 2 \<le> s \<Longrightarrow> s < q_size q \<Longrightarrow> s div 2 = i \<Longrightarrow> \<not> cmppri (pri_at q c) (pri_at q s)" using c(3) by auto
    obtain q1 q2 where mv: "set_d i (q_d q ! c) q = Inr q1" "set_pos (q_d q ! c) i q1 = Inr q2" "holed c a q2 E"
      "same_pris q q2" "\<forall>k \<in> active q. k \<noteq> c \<longrightarrow> pri_at q2 k = (if k = i then pri_at q c else pri_at q k)"
      by (rule move_node [OF less.prems(1) cc(3,4)])
    have sz: "q_size q2 = q_size q" using mv(4) by (simp add: same_pris_def)
    let ?A = "(pri_at q)(i := pri_at q c)"
    have cn: "c < q_size q" using cc(3) by (simp add: active_def)
    note o = down_step [OF less.prems(2) i cc(1,2) cn True [THEN conjunct2] cc(5)]
    have eq: "pri_at q2 k = ?A k" if "1 \<le> k" "k < q_size q2" "k \<noteq> c" for k using mv(5) that sz by (simp add: active_def)
    have "holed_order (q_size q2) c (pri_at q2)" using o(1) hole_cong(1) [of "q_size q2" c "pri_at q2" ?A, OF eq] unfolding sz by blast
    moreover have "i < q_size q2" "i \<noteq> c" using ia(1) cc(4) sz by (simp_all add: active_def)
    from eq [OF i this] have e1: "pri_at q2 i = pri_at q c" by (simp only: fun_upd_same)
    have "\<not> cmppri (pri_at q2 (c div 2)) m" unfolding cc(1) e1 by (rule asym [OF True [THEN conjunct2]])
    moreover have "q_size q2 - c < q_size q - i" using cc(1,2) cn sz by arith
    ultimately obtain j q' where r: "percolate_down_loop cmppri m c q2 = Inr (j, q')" "holed j a q' E" "same_pris q2 q'"
      "heap_order (q_size q2) ((pri_at q')(j := m))" using less.hyps [OF _ mv(3)] by blast
    have e: "percolate_down_loop cmppri m i q = percolate_down_loop cmppri m c q2"
      using c(1) rd True mv(1,2) by (subst percolate_down_loop.simps) simp
    show ?thesis unfolding e using r(1,2) same_pris_trans [OF mv(4) r(3)] r(4) [unfolded sz] by blast
  qed
qed

lemma percolate_down_correct:
  assumes "holed i (q_d q ! i) q E" "holed_order (q_size q) i (pri_at q)" "1 < i \<longrightarrow> \<not> cmppri (pri_at q (i div 2)) (pri_at q i)"
  shows "\<exists>q'. percolate_down cmppri i q = Inr q' \<and> pq_ok q' \<and> elems q' = E \<and> same_pris q q'"
proof -
  let ?a = "q_d q ! i"
  note a = holedD(1-3) [OF assms(1)]
  obtain j q1 where q1: "percolate_down_loop cmppri (pri_of q ?a) i q = Inr (j, q1)" "holed j ?a q1 E" "same_pris q q1"
    "heap_order (q_size q) ((pri_at q1)(j := pri_of q ?a))"
    using percolate_down_loop_correct [OF assms(1,2), of "pri_of q ?a"] assms(3) by (auto simp: pri_at_def)
  have "heap_order (q_size q1) ((pri_at q1)(j := pri_of q1 ?a))" using q1(3,4) same_pris_of [OF q1(3) a(3)] by (simp add: same_pris_def)
  from place_correct [OF q1(2) this] obtain q' where "place j ?a q1 = Inr q'" "pq_ok q'" "elems q' = E" "same_pris q1 q'" by blast
  then show ?thesis using q1(1) a same_pris_trans [OF q1(3)] by (auto simp: percolate_down_def get_pri_node)
qed

end

section \<open>The operations\<close>

text \<open>The priorities of all nodes in memory.\<close>

definition pris :: "pqueue_t \<Rightarrow> nat \<rightharpoonup> pqueue_pri_t" where
  "pris q a = map_option nd_pri (q_nodes q a)"

lemma same_pris_pris: "same_pris q q' \<Longrightarrow> pris q' = pris q"
  by (auto simp: same_pris_def pris_def)

lemma pris_upd [simp]:
  "pris (q\<lparr>q_size := n\<rparr>) = pris q" "pris (q\<lparr>q_d := d\<rparr>) = pris q" "pris (q\<lparr>q_avail := m\<rparr>) = pris q"
  by (auto simp: pris_def)

text \<open>The last node of the array takes the place of the one at \<open>k\<close>.\<close>

definition refilled :: "nat \<Rightarrow> pqueue_t \<Rightarrow> pqueue_t" where
  "refilled k q = q\<lparr>q_size := q_size q - 1, q_d := (q_d q)[k := q_d q ! (q_size q - 1)]\<rparr>"

lemma refill_step:
  assumes "array_ok q" "k \<in> active q"
  shows "d_at (q\<lparr>q_size := q_size q - 1\<rparr>) (q_size q - 1) = Inr (q_d q ! (q_size q - 1))"
    "set_d k (q_d q ! (q_size q - 1)) (q\<lparr>q_size := q_size q - 1\<rparr>) = Inr (refilled k q)"
    "d_at (refilled k q) k = Inr (q_d q ! (q_size q - 1))"
proof -
  have "q_size q - 1 < length (q_d q)" "k < length (q_d q)" using assms unfolding array_ok_def active_def atLeastLessThan_iff by arith+
  then show "d_at (q\<lparr>q_size := q_size q - 1\<rparr>) (q_size q - 1) = Inr (q_d q ! (q_size q - 1))"
    "set_d k (q_d q ! (q_size q - 1)) (q\<lparr>q_size := q_size q - 1\<rparr>) = Inr (refilled k q)"
    "d_at (refilled k q) k = Inr (q_d q ! (q_size q - 1))" by (simp_all add: refilled_def d_at_def set_d_def)
qed

context pri_order
begin

lemma pq_ok_D: "pq_ok q \<Longrightarrow> array_ok q" "pq_ok q \<Longrightarrow> k \<in> active q \<Longrightarrow> knows_pos q k" "pq_ok q \<Longrightarrow> heap_order (q_size q) (pri_at q)"
  by (simp_all add: pq_ok_def)

lemma pq_ok_inj: "pq_ok q \<Longrightarrow> k \<in> active q \<Longrightarrow> l \<in> active q \<Longrightarrow> q_d q ! k = q_d q ! l \<longleftrightarrow> k = l"
  using knows_pos_inj [of q k l] pq_ok_D(2) [of q k] pq_ok_D(2) [of q l] by metis

lemma pqueue_insert_correct:
  assumes "pq_ok q" "a \<notin> elems q" "q_nodes q a \<noteq> None"
  shows "\<exists>q'. pqueue_insert cmppri raw a q = Inr q' \<and> pq_ok q' \<and> elems q' = insert a (elems q) \<and> pris q' = pris q"
proof -
  let ?n = "q_size q"
  define q0 where "q0 = (if ?n \<ge> q_avail q then q\<lparr>q_d := q_d q @ map raw [q_avail q ..< ?n + q_step q], q_avail := ?n + q_step q\<rparr> else q)"
  let ?q1 = "q0\<lparr>q_size := ?n + 1, q_d := (q_d q0)[?n := a]\<rparr>"
  note ar = pq_ok_D(1) [OF assms(1), unfolded array_ok_def]
  have len: "?n < length (q_d q0)" "array_ok ?q1" "q_size q0 = ?n" using ar by (auto simp: array_ok_def q0_def)
  have dk: "q_d ?q1 ! k = q_d q ! k" if "k \<in> active q" for k using that ar by (auto simp: active_def nth_append q0_def)
  have dn: "q_d ?q1 ! ?n = a" using len(1) by simp
  have nodes: "q_nodes ?q1 = q_nodes q" "pris ?q1 = pris q" by (auto simp: q0_def)
  have act: "active ?q1 - {?n} = active q" "?n \<in> active ?q1" using ar by (auto simp: active_def)
  have "knows_pos ?q1 k" if "k \<in> active q" for k
    using pq_ok_D(2) [OF assms(1) that] dk [OF that] nodes(1) by (simp only: knows_pos_def)
  moreover have "(!) (q_d ?q1) ` active q = elems q" unfolding elems_def using dk by (rule image_cong [OF refl])
  moreover have "q_d ?q1 ! k \<noteq> a" if "k \<in> active q" for k using dk [OF that] assms(2) that by (auto simp: elems_def)
  ultimately have h: "holed ?n (q_d ?q1 ! ?n) ?q1 (insert a (elems q))"
    unfolding holed_def act(1) dn using len(2) act(2) assms(3) nodes(1) by auto
  have pk: "pri_at ?q1 k = pri_at q k" if "1 \<le> k" "k < ?n" for k
    using dk [of k] that nodes(1) by (simp only: pri_at_def pri_of_def active_def atLeastLessThan_iff)
  have nc: "\<not> (2 \<le> c \<and> c < m + 1 \<and> c div 2 = m)" if "1 \<le> m" for c m :: nat using that by arith
  have ac: "above_children (?n + 1) ?n m A" for m A using nc [of ?n] ar unfolding above_children_def by blast
  have "holed_order (?n + 1) ?n (pri_at q)"
    using pq_ok_D(3) [OF assms(1)] nc [of ?n] ar by (auto simp: holed_order_def heap_order_def)
  then have ho: "holed_order (q_size ?q1) ?n (pri_at ?q1)" using hole_cong(1) [of "?n + 1" ?n "pri_at ?q1" "pri_at q"] pk by simp
  have "above_children (q_size ?q1) ?n (pri_at ?q1 ?n) (pri_at ?q1)" using ac [of "pri_at ?q1 ?n" "pri_at ?q1"] by simp
  from bubble_up_correct [OF h ho this]
  obtain q' where "bubble_up cmppri ?n ?q1 = Inr q'" "pq_ok q'" "elems q' = insert a (elems q)" "same_pris ?q1 q'" by blast
  moreover have "pqueue_insert cmppri raw a q = bubble_up cmppri ?n ?q1"
    using len(1,3) by (simp add: pqueue_insert_def Let_def set_d_def flip: q0_def)
  ultimately show ?thesis using same_pris_pris nodes(2) by metis
qed

lemma at_node:
  assumes "pq_ok q" "a \<in> elems q"
  obtains k x where "k \<in> active q" "q_d q ! k = a" "q_nodes q a = Some x" "nd_pos x = k"
  using assms by (auto simp: elems_def pq_ok_def knows_pos_def)

lemma pqueue_change_priority_correct:
  assumes "pq_ok q" "a \<in> elems q"
  shows "\<exists>q'. pqueue_change_priority cmppri p a q = Inr q' \<and> pq_ok q' \<and> elems q' = elems q \<and> pris q' = (pris q)(a \<mapsto> p)"
proof -
  obtain k x where k: "k \<in> active q" "q_d q ! k = a" "q_nodes q a = Some x" "nd_pos x = k" by (rule at_node [OF assms])
  let ?q1 = "q\<lparr>q_nodes := (q_nodes q)(a \<mapsto> x\<lparr>nd_pri := p\<rparr>)\<rparr>"
  have act: "active ?q1 = active q" by (simp add: active_def)
  have other: "q_d q ! j \<noteq> a" if "j \<in> active q" "j \<noteq> k" for j using pq_ok_inj [OF assms(1) that(1) k(1)] that(2) k(2) by simp
  have "knows_pos ?q1 j" if "j \<in> active q" "j \<noteq> k" for j
    using pq_ok_D(2) [OF assms(1) that(1)] other [OF that] by (simp add: knows_pos_def)
  moreover have "insert a ((!) (q_d q) ` (active q - {k})) = elems q" using k(1,2) by (auto simp: elems_def)
  ultimately have h: "holed k (q_d ?q1 ! k) ?q1 (elems q)"
    using pq_ok_D(1) [OF assms(1)] k(1,2) other by (auto simp: holed_def act array_ok_def)
  have pj: "pri_at ?q1 j = pri_at q j" if "1 \<le> j" "j < q_size q" "j \<noteq> k" for j
    using other [of j] that by (simp add: pri_at_def pri_of_def active_def)
  have pk: "pri_at ?q1 k = p" "pri_at q k = nd_pri x" using k(2,3) by (simp_all add: pri_at_def pri_of_def)
  have k1: "1 \<le> k" "k < q_size q" using k(1) by (simp_all add: active_def)
  note hp = pq_ok_D(3) [OF assms(1)]
  have ho: "holed_order (q_size ?q1) k (pri_at ?q1)" using heap_holed [OF hp k1(1) pj] by simp
  have "\<exists>q'. (if cmppri (nd_pri x) p then bubble_up cmppri k ?q1 else percolate_down cmppri k ?q1) = Inr q' \<and>
    pq_ok q' \<and> elems q' = elems q \<and> same_pris ?q1 q'"
  proof (cases "cmppri (nd_pri x) p")
    case True
    have "above_children (q_size ?q1) k (pri_at ?q1 k) (pri_at ?q1)" using raised [OF hp _ k1(1) pj, of p] True pk by simp
    from bubble_up_correct [OF h ho this] show ?thesis using True by simp
  next
    case False
    have "1 < k \<longrightarrow> \<not> cmppri (pri_at ?q1 (k div 2)) (pri_at ?q1 k)" using lowered [OF hp _ _ k1(2) pj, of p] False pk by simp
    from percolate_down_correct [OF h ho this] show ?thesis using False by simp
  qed
  moreover have "pris ?q1 = (pris q)(a \<mapsto> p)" by (auto simp: pris_def)
  moreover have "pqueue_change_priority cmppri p a q =
      (if cmppri (nd_pri x) p then bubble_up cmppri k ?q1 else percolate_down cmppri k ?q1)"
    using k(3,4) by (simp add: pqueue_change_priority_def get_pri_def set_pri_def get_pos_def)
  ultimately show ?thesis using same_pris_pris by metis
qed

text \<open>A node beyond the queue stays where it is.\<close>

lemma percolate_end:
  assumes "pq_ok q" "q_size q < length (q_d q)" "q_nodes q (q_d q ! q_size q) \<noteq> None" "q_d q ! q_size q \<notin> elems q"
  shows "\<exists>q'. percolate_down cmppri (q_size q) q = Inr q' \<and> pq_ok q' \<and> elems q' = elems q \<and> same_pris q q'"
proof -
  let ?i = "q_size q" and ?a = "q_d q ! q_size q"
  obtain x where x: "q_nodes q ?a = Some x" using assms(3) by auto
  let ?q1 = "q\<lparr>q_d := q_d q\<rparr>"
  let ?q' = "?q1\<lparr>q_nodes := (q_nodes q)(?a \<mapsto> x\<lparr>nd_pos := ?i\<rparr>)\<rparr>"
  have "maxchild cmppri q ?i = Inr 0" by (simp add: maxchild_def)
  then have "percolate_down_loop cmppri (nd_pri x) ?i q = Inr (?i, q)" by (subst percolate_down_loop.simps) simp
  moreover have "d_at q ?i = Inr ?a" "get_pri q ?a = Inr (nd_pri x)" "set_d ?i ?a q = Inr ?q1" "set_pos ?a ?i ?q1 = Inr ?q'"
    using assms(2) x by (simp_all add: d_at_def get_pri_def set_d_def set_pos_def)
  ultimately have "percolate_down cmppri ?i q = Inr ?q'" by (simp only: percolate_down_def place_def rbind_simps prod.case)
  moreover have act: "active ?q' = active q" "elems ?q' = elems q" by (simp_all add: active_def elems_def)
  have other: "q_d q ! k \<noteq> ?a" if "k \<in> active q" for k using assms(4) that unfolding elems_def by (metis image_eqI)
  have "knows_pos ?q' k" if "k \<in> active q" for k using pq_ok_D(2) [OF assms(1) that] other [OF that] by (simp add: knows_pos_def)
  moreover have "heap_order ?i (pri_at ?q') = heap_order ?i (pri_at q)"
    using other by (intro order_cong(1)) (simp add: pri_at_def pri_of_def active_def)
  ultimately show ?thesis using assms(1) act(2) x by (auto simp: pq_ok_def active_def array_ok_def same_pris_def)
qed

lemma refilled_last:
  assumes "pq_ok q" "k = q_size q - 1" "k \<in> active q"
  shows "pq_ok (refilled k q)" "elems (refilled k q) = elems q - {q_d q ! k}"
proof -
  let ?q' = "q\<lparr>q_size := k\<rparr>"
  have eq: "refilled k q = ?q'" by (simp add: refilled_def assms(2))
  have act: "active ?q' = active q - {k}" "q_size ?q' = k" "k < q_size q" "1 \<le> k" using assms(2,3) by (auto simp: active_def)
  have "heap_order k (pri_at ?q')"
    using pq_ok_D(3) [OF assms(1)] act(3) by (simp add: heap_order_def pri_at_def pri_of_def)
  moreover have "knows_pos ?q' j" if "j \<in> active q" for j using pq_ok_D(2) [OF assms(1) that] by (simp add: knows_pos_def)
  ultimately show "pq_ok (refilled k q)"
    using pq_ok_D(1) [OF assms(1)] act unfolding eq by (simp add: pq_ok_def array_ok_def)
  show "elems (refilled k q) = elems q - {q_d q ! k}"
    unfolding eq elems_def act(1) using pq_ok_inj [OF assms(1)] assms(3) by auto
qed

lemma refilled_hole:
  assumes "pq_ok q" "k \<in> active q" "k \<noteq> q_size q - 1"
  shows "holed k (q_d (refilled k q) ! k) (refilled k q) (elems q - {q_d q ! k})"
    "\<And>j. 1 \<le> j \<Longrightarrow> j < q_size q - 1 \<Longrightarrow> j \<noteq> k \<Longrightarrow> pri_at (refilled k q) j = pri_at q j"
    "q_d (refilled k q) ! k = q_d q ! (q_size q - 1)"
proof -
  let ?n = "q_size q - 1" and ?q' = "refilled k q"
  have k: "k < length (q_d q)" by (rule active_d [OF pq_ok_D(1) [OF assms(1)] assms(2)])
  have n: "?n \<in> active q" "active ?q' = active q - {?n}" using assms(2) by (auto simp: active_def refilled_def)
  have d: "q_d ?q' ! k = q_d q ! ?n" "\<And>j. j \<noteq> k \<Longrightarrow> q_d ?q' ! j = q_d q ! j" "q_nodes ?q' = q_nodes q"
    using k by (simp_all add: refilled_def)
  show "q_d ?q' ! k = q_d q ! ?n" by (rule d(1))
  show "pri_at ?q' j = pri_at q j" if "j \<noteq> k" for j using d(2) [OF that] d(3) by (simp add: pri_at_def pri_of_def)
  have "knows_pos ?q' j \<and> q_d ?q' ! j \<noteq> q_d q ! ?n" if "j \<in> active q" "j \<noteq> ?n" "j \<noteq> k" for j
    using pq_ok_D(2) [OF assms(1) that(1)] pq_ok_inj [OF assms(1) that(1) n(1)] that d(2) [OF that(3)] d(3) by (simp add: knows_pos_def)
  moreover have "elems q - {q_d q ! k} = insert (q_d q ! ?n) ((!) (q_d q) ` (active q - {?n} - {k}))"
    unfolding elems_def using pq_ok_inj [OF assms(1)] assms(2,3) n(1) by auto
  moreover have "(!) (q_d q) ` (active q - {?n} - {k}) = (!) (q_d ?q') ` (active q - {?n} - {k})" using d(2) by (intro image_cong) auto
  moreover have "array_ok ?q'" using pq_ok_D(1) [OF assms(1)] assms(2) by (auto simp: array_ok_def active_def refilled_def)
  moreover have "q_nodes ?q' (q_d q ! ?n) \<noteq> None" using pq_ok_D(2) [OF assms(1) n(1)] d(3) by (auto simp: knows_pos_def)
  ultimately show "holed k (q_d ?q' ! k) ?q' (elems q - {q_d q ! k})"
    unfolding holed_def d(1) n(2) using assms(2,3) by auto
qed

text \<open>The node that took the place is sifted to its position.\<close>

lemma refilled_sifted:
  assumes "pq_ok q" "k \<in> active q" and b: "b = q_d q ! (q_size q - 1)"
  shows "\<exists>q'. (if cmppri (pri_at q k) (pri_of q b) then bubble_up cmppri k (refilled k q) else percolate_down cmppri k (refilled k q)) = Inr q' \<and>
      pq_ok q' \<and> elems q' = elems q - {q_d q ! k} \<and> pris q' = pris q"
    and "k = 1 \<Longrightarrow> \<exists>q'. percolate_down cmppri k (refilled k q) = Inr q' \<and>
      pq_ok q' \<and> elems q' = elems q - {q_d q ! k} \<and> pris q' = pris q"
proof -
  let ?q1 = "refilled k q" and ?n = "q_size q - 1"
  have k: "1 \<le> k" "k < q_size q" using assms(2) by (simp_all add: active_def)
  have pr: "pris ?q1 = pris q" by (simp add: refilled_def pris_def fun_eq_iff)
  have last: "\<exists>q'. percolate_down cmppri k ?q1 = Inr q' \<and> pq_ok q' \<and> elems q' = elems q - {q_d q ! k} \<and> same_pris ?q1 q'"
    if kn: "k = ?n"
  proof -
    note r = refilled_last [OF assms(1) kn assms(2)]
    have sz: "q_size ?q1 = k" "q_d ?q1 = q_d q" "q_nodes ?q1 = q_nodes q" by (simp_all add: refilled_def kn)
    have "q_nodes q (q_d q ! k) \<noteq> None" using pq_ok_D(2) [OF assms(1,2)] by (auto simp: knows_pos_def)
    then show ?thesis using percolate_end [OF r(1)] r(2) sz active_d [OF pq_ok_D(1) [OF assms(1)] assms(2)] by simp
  qed
  have eqn: "cmppri (pri_at q k) (pri_of q b) = False" if "k = ?n" using asym that by (auto simp: pri_at_def b)
  have heap: "heap_order ?n (pri_at q)" using pq_ok_D(3) [OF assms(1)] by (auto simp: heap_order_def)
  have h: "holed k (q_d ?q1 ! k) ?q1 (elems q - {q_d q ! k})" "holed_order (q_size ?q1) k (pri_at ?q1)"
    "cmppri (pri_at q k) (pri_of q b) \<Longrightarrow> above_children (q_size ?q1) k (pri_at ?q1 k) (pri_at ?q1)"
    "\<not> cmppri (pri_at q k) (pri_of q b) \<Longrightarrow> 1 < k \<longrightarrow> \<not> cmppri (pri_at ?q1 (k div 2)) (pri_at ?q1 k)" if kn: "k \<noteq> ?n"
  proof -
    note r = refilled_hole [OF assms(1,2) kn]
    have sz: "q_size ?q1 = ?n" "pri_at ?q1 k = pri_of q b" "k < ?n" using r(3) k kn
      by (auto simp: refilled_def b pri_at_def pri_of_def)
    show "holed k (q_d ?q1 ! k) ?q1 (elems q - {q_d q ! k})" by (rule r(1))
    show "holed_order (q_size ?q1) k (pri_at ?q1)" using heap_holed [OF heap k(1) r(2)] sz(1) by simp
    show "above_children (q_size ?q1) k (pri_at ?q1 k) (pri_at ?q1)" if "cmppri (pri_at q k) (pri_of q b)"
      using raised [OF heap that k(1) r(2)] sz by simp
    show "1 < k \<longrightarrow> \<not> cmppri (pri_at ?q1 (k div 2)) (pri_at ?q1 k)" if "\<not> cmppri (pri_at q k) (pri_of q b)"
      using lowered [OF heap that _ sz(3) r(2)] sz(2) by simp
  qed
  have down: "\<exists>q'. percolate_down cmppri k ?q1 = Inr q' \<and> pq_ok q' \<and> elems q' = elems q - {q_d q ! k} \<and> same_pris ?q1 q'"
    if "\<not> cmppri (pri_at q k) (pri_of q b) \<or> k = 1"
  proof (cases "k = ?n")
    case False
    then have "1 < k \<longrightarrow> \<not> cmppri (pri_at ?q1 (k div 2)) (pri_at ?q1 k)" using h(4) that by auto
    then show ?thesis by (rule percolate_down_correct [OF h(1,2) [OF False]])
  qed (rule last)
  have up: "\<exists>q'. bubble_up cmppri k ?q1 = Inr q' \<and> pq_ok q' \<and> elems q' = elems q - {q_d q ! k} \<and> same_pris ?q1 q'"
    if "cmppri (pri_at q k) (pri_of q b)"
  proof -
    have "k \<noteq> ?n" using eqn that by blast
    then show ?thesis using bubble_up_correct [OF h(1,2,3)] that by blast
  qed
  show "\<exists>q'. (if cmppri (pri_at q k) (pri_of q b) then bubble_up cmppri k ?q1 else percolate_down cmppri k ?q1) = Inr q' \<and>
      pq_ok q' \<and> elems q' = elems q - {q_d q ! k} \<and> pris q' = pris q"
    using up down same_pris_pris pr by (cases "cmppri (pri_at q k) (pri_of q b)") force+
  show "\<exists>q'. percolate_down cmppri k ?q1 = Inr q' \<and> pq_ok q' \<and> elems q' = elems q - {q_d q ! k} \<and> pris q' = pris q" if "k = 1"
    using down that same_pris_pris pr by force
qed

lemma pqueue_remove_correct:
  assumes "pq_ok q" "a \<in> elems q"
  shows "\<exists>q'. pqueue_remove cmppri a q = Inr q' \<and> pq_ok q' \<and> elems q' = elems q - {a} \<and> pris q' = pris q"
proof -
  obtain k x where k: "k \<in> active q" "q_d q ! k = a" "q_nodes q a = Some x" "nd_pos x = k" by (rule at_node [OF assms])
  let ?b = "q_d q ! (q_size q - 1)"
  have n: "q_size q - 1 \<in> active q" using k(1) by (auto simp: active_def)
  have nodes: "q_nodes (refilled k q) = q_nodes q" by (simp add: refilled_def)
  have "get_pri (refilled k q) a = Inr (pri_at q k)" "get_pri (refilled k q) ?b = Inr (pri_of q ?b)"
    using k(2,3) pq_ok_D(2) [OF assms(1) n] nodes by (auto simp: get_pri_def pri_at_def pri_of_def knows_pos_def)
  then have "pqueue_remove cmppri a q =
      (if cmppri (pri_at q k) (pri_of q ?b) then bubble_up cmppri k (refilled k q) else percolate_down cmppri k (refilled k q))"
    using k(3,4) refill_step [OF pq_ok_D(1) [OF assms(1)] k(1)] by (simp add: pqueue_remove_def get_pos_def Let_def)
  then show ?thesis using refilled_sifted(1) [OF assms(1) k(1) refl] k(2) by simp
qed

text \<open>No node comes before the one at the head.\<close>

lemma head_first:
  assumes "pq_ok q" "elems q \<noteq> {}"
  shows "1 \<in> active q" "q_size q \<noteq> 1" "\<forall>b \<in> elems q. \<not> cmppri (the (pris q (q_d q ! 1))) (the (pris q b))"
proof -
  show k: "1 \<in> active q" "q_size q \<noteq> 1" using assms(2) by (auto simp: elems_def active_def)
  have p: "the (pris q (q_d q ! j)) = pri_at q j" if "j \<in> active q" for j
    using pq_ok_D(2) [OF assms(1) that] by (auto simp: pris_def pri_at_def pri_of_def knows_pos_def)
  have "\<not> cmppri (pri_at q 1) (pri_at q j)" if "j \<in> active q" for j
    using heap_top [OF pq_ok_D(3) [OF assms(1)]] that by (simp add: active_def)
  then show "\<forall>b \<in> elems q. \<not> cmppri (the (pris q (q_d q ! 1))) (the (pris q b))" using p k(1) by (auto simp: elems_def)
qed

lemma pqueue_pop_correct:
  assumes "pq_ok q" "elems q \<noteq> {}"
  shows "\<exists>q'. pqueue_pop cmppri q = Inr (Some (q_d q ! 1), q') \<and> pq_ok q' \<and> elems q' = elems q - {q_d q ! 1} \<and> pris q' = pris q"
proof -
  note k = head_first(1,2) [OF assms] and ar = pq_ok_D(1) [OF assms(1)]
  obtain q' where "percolate_down cmppri 1 (refilled 1 q) = Inr q'" "pq_ok q'" "elems q' = elems q - {q_d q ! 1}" "pris q' = pris q"
    using refilled_sifted(2) [OF assms(1) k(1) refl refl] by blast
  moreover from this have "pqueue_pop cmppri q = Inr (Some (q_d q ! 1), q')"
    using k(2) refill_step [OF ar k(1)] d_at_active [OF ar k(1)] by (simp add: pqueue_pop_def Let_def)
  ultimately show ?thesis by blast
qed

lemma pqueue_peek_correct:
  assumes "pq_ok q" "elems q \<noteq> {}"
  shows "pqueue_peek q = Inr (Some (q_d q ! 1))" "q_d q ! 1 \<in> elems q"
  using head_first(1,2) [OF assms] d_at_active [OF pq_ok_D(1) [OF assms(1)]] by (simp_all add: pqueue_peek_def elems_def)

lemma size_elems: "pq_ok q \<Longrightarrow> q_size q = 1 \<longleftrightarrow> elems q = {}" "pq_ok q \<Longrightarrow> pqueue_size q = card (elems q)"
proof -
  assume q: "pq_ok q"
  then show "q_size q = 1 \<longleftrightarrow> elems q = {}" by (auto simp: elems_def active_def pq_ok_def array_ok_def)
  have "inj_on ((!) (q_d q)) (active q)" using pq_ok_inj [OF q] by (auto simp: inj_on_def)
  then show "pqueue_size q = card (elems q)" by (simp add: elems_def card_image pqueue_size_def active_def)
qed

lemma subtree_valid:
  assumes "pq_ok q" "1 \<le> i"
  shows "subtree_is_valid cmppri q i = Inr True"
  using assms(2)
proof (induction "q_size q - i" arbitrary: i rule: less_induct)
  case less
  have rd: "d_at q k = Inr (q_d q ! k)" "get_pri q (q_d q ! k) = Inr (pri_at q k)" if "1 \<le> k" "k < q_size q" for k
    using that pq_ok_D(1,2) [OF assms(1)] by (auto simp: active_def intro: get_pri_active)
  have o: "\<not> cmppri (pri_at q i) (pri_at q (2 * i))" if "2 * i < q_size q"
    using pq_ok_D(3) [OF assms(1)] less.prems that unfolding heap_order_def by (auto dest: spec [of _ "2 * i"])
  have o': "\<not> cmppri (pri_at q i) (pri_at q (2 * i + 1))" if "2 * i + 1 < q_size q"
    using pq_ok_D(3) [OF assms(1)] less.prems that unfolding heap_order_def by (auto dest: spec [of _ "2 * i + 1"])
  have l: "subtree_is_valid cmppri q (2 * i) = Inr True" if "2 * i < q_size q" using less.hyps [of "2 * i"] less.prems that by simp
  have r: "subtree_is_valid cmppri q (2 * i + 1) = Inr True" if "2 * i + 1 < q_size q"
    using less.hyps [of "2 * i + 1"] less.prems that by simp
  show ?case
    using less.prems rd [of i] rd [of "2 * i"] rd [of "2 * i + 1"] o o' l r
    by (subst subtree_is_valid.simps) auto
qed

text \<open>The users allocate, set and free nodes that are not in the queue.\<close>

lemma client_correct:
  assumes "pq_ok q" "\<forall>a \<in> elems q. nodes a = q_nodes q a"
  shows "pq_ok (q\<lparr>q_nodes := nodes\<rparr>)"
proof -
  let ?q = "q\<lparr>q_nodes := nodes\<rparr>"
  have n: "nodes (q_d q ! k) = q_nodes q (q_d q ! k)" if "k \<in> active q" for k using assms(2) that by (simp add: elems_def)
  have "heap_order (q_size q) (pri_at ?q) = heap_order (q_size q) (pri_at q)"
    using n by (intro order_cong(1)) (simp add: pri_at_def pri_of_def active_def)
  then show ?thesis using assms(1) n by (simp add: pq_ok_def array_ok_def knows_pos_def active_def)
qed

lemma pqueue_init_ok: "pq_ok (pqueue_init n raw nodes)"
  by (simp add: pq_ok_def pqueue_init_def array_ok_def active_def heap_order_def)

end

section \<open>A set of nodes with priorities\<close>

text \<open>What the users of the queue do: calls of it, and changes of nodes that are not in it.\<close>

datatype pq_op = Insert nat | Change nat pqueue_pri_t | Remove nat | Pop | Peek

fun pq_exec :: "pri_less \<Rightarrow> (nat \<Rightarrow> nat) \<Rightarrow> pq_op \<Rightarrow> pqueue_t \<Rightarrow> (nat option \<times> pqueue_t) result" where
  "pq_exec cmppri raw (Insert a) q = rbind (pqueue_insert cmppri raw a q) (\<lambda>q. Inr (None, q))"
| "pq_exec cmppri raw (Change a p) q = rbind (pqueue_change_priority cmppri p a q) (\<lambda>q. Inr (None, q))"
| "pq_exec cmppri raw (Remove a) q = rbind (pqueue_remove cmppri a q) (\<lambda>q. Inr (None, q))"
| "pq_exec cmppri raw Pop q = pqueue_pop cmppri q"
| "pq_exec cmppri raw Peek q = rbind (pqueue_peek q) (\<lambda>r. Inr (r, q))"

fun allowed :: "pq_op \<Rightarrow> pqueue_t \<Rightarrow> bool" where
  "allowed (Insert a) q \<longleftrightarrow> a \<notin> elems q \<and> q_nodes q a \<noteq> None"
| "allowed (Change a p) q \<longleftrightarrow> a \<in> elems q"
| "allowed (Remove a) q \<longleftrightarrow> a \<in> elems q"
| "allowed _ q \<longleftrightarrow> True"

inductive pq_reach :: "pri_less \<Rightarrow> (nat \<Rightarrow> nat) \<Rightarrow> pqueue_t \<Rightarrow> bool" for cmppri raw where
  init: "pq_reach cmppri raw (pqueue_init n raw nodes)"
| call: "pq_reach cmppri raw q \<Longrightarrow> allowed x q \<Longrightarrow> pq_exec cmppri raw x q = Inr (r, q') \<Longrightarrow> pq_reach cmppri raw q'"
| client: "pq_reach cmppri raw q \<Longrightarrow> \<forall>a \<in> elems q. nodes a = q_nodes q a \<Longrightarrow> pq_reach cmppri raw (q\<lparr>q_nodes := nodes\<rparr>)"

text \<open>The same on a set \<open>S\<close> of nodes with priorities \<open>P\<close>: \<open>first_node\<close> is a node no other comes before.\<close>

definition first_node :: "pri_less \<Rightarrow> (nat \<rightharpoonup> pqueue_pri_t) \<Rightarrow> nat set \<Rightarrow> nat option \<Rightarrow> bool" where
  "first_node cmppri P S r \<longleftrightarrow> (case r of None \<Rightarrow> S = {} | Some a \<Rightarrow> a \<in> S \<and> (\<forall>b \<in> S. \<not> cmppri (the (P a)) (the (P b))))"

fun pq_spec :: "pri_less \<Rightarrow> pq_op \<Rightarrow> nat option \<Rightarrow> (nat \<rightharpoonup> pqueue_pri_t) \<times> nat set \<Rightarrow> (nat \<rightharpoonup> pqueue_pri_t) \<times> nat set \<Rightarrow> bool" where
  "pq_spec cmppri (Insert a) r (P, S) B \<longleftrightarrow> r = None \<and> B = (P, insert a S)"
| "pq_spec cmppri (Change a p) r (P, S) B \<longleftrightarrow> r = None \<and> B = (P(a \<mapsto> p), S)"
| "pq_spec cmppri (Remove a) r (P, S) B \<longleftrightarrow> r = None \<and> B = (P, S - {a})"
| "pq_spec cmppri Pop r (P, S) B \<longleftrightarrow> first_node cmppri P S r \<and> B = (P, S - set_option r)"
| "pq_spec cmppri Peek r (P, S) B \<longleftrightarrow> first_node cmppri P S r \<and> B = (P, S)"

context pri_order
begin

lemma head_node:
  assumes "pq_ok q"
  shows "first_node cmppri (pris q) (elems q) (if elems q = {} then None else Some (q_d q ! 1))"
  using head_first(3) [OF assms] pqueue_peek_correct(2) [OF assms] by (simp add: first_node_def)

lemma step_correct:
  assumes "pq_ok q" "allowed x q"
  shows "\<exists>r q'. pq_exec cmppri raw x q = Inr (r, q') \<and> pq_ok q' \<and> pq_spec cmppri x r (pris q, elems q) (pris q', elems q')"
proof (cases x)
  case (Insert a)
  then show ?thesis using pqueue_insert_correct [OF assms(1), of a raw] assms(2) by auto
next
  case (Change a p)
  then show ?thesis using pqueue_change_priority_correct [OF assms(1), of a p] assms(2) by auto
next
  case (Remove a)
  then show ?thesis using pqueue_remove_correct [OF assms(1), of a] assms(2) by auto
next
  case Pop
  show ?thesis
  proof (cases "elems q = {}")
    case True
    then have "pqueue_pop cmppri q = Inr (None, q)" using size_elems(1) [OF assms(1)] by (simp add: pqueue_pop_def)
    then show ?thesis using head_node [OF assms(1)] True Pop assms(1) by simp
  next
    case False
    obtain q' where "pqueue_pop cmppri q = Inr (Some (q_d q ! 1), q')" "pq_ok q'" "elems q' = elems q - {q_d q ! 1}" "pris q' = pris q"
      using pqueue_pop_correct [OF assms(1) False] by blast
    then show ?thesis using head_node [OF assms(1)] False Pop by simp
  qed
next
  case Peek
  have "pqueue_peek q = Inr (if elems q = {} then None else Some (q_d q ! 1))"
    using size_elems(1) [OF assms(1)] pqueue_peek_correct(1) [OF assms(1)] by (auto simp: pqueue_peek_def)
  then show ?thesis using head_node [OF assms(1)] Peek assms(1) by simp
qed

lemma reach_ok: "pq_reach cmppri raw q \<Longrightarrow> pq_ok q"
proof (induction rule: pq_reach.induct)
  case (call q x r q')
  then show ?case using step_correct [of q x raw] by auto
qed (auto intro: pqueue_init_ok client_correct)

lemma queue_correct:
  assumes "pq_reach cmppri raw q" "allowed x q"
  shows "\<exists>r q'. pq_exec cmppri raw x q = Inr (r, q') \<and> pq_spec cmppri x r (pris q, elems q) (pris q', elems q') \<and>
    pqueue_size q' = card (elems q') \<and> pqueue_is_valid cmppri q' = Inr True"
  using step_correct [OF reach_ok [OF assms(1)] assms(2), of raw] size_elems(2) subtree_valid [of _ 1] by (auto simp: pqueue_is_valid_def)

end

interpretation lfu: pri_order LFU_cmp_pri
  by unfold_locales (auto simp: LFU_cmp_pri_def split: if_splits)

interpretation lru_k: pri_order LRU_K_cmp_pri
  by unfold_locales (auto simp: LRU_K_cmp_pri_def)

interpretation optimal: pri_order Optimal_cmp_pri
  by unfold_locales (auto simp: Optimal_cmp_pri_def)

text \<open>
  (C12) The priority queue, with the orders of LFU, LRU-K and the optimal algorithm, after any sequence of
  insertions, changes of priority, removals, pops and peeks, with any initial size, contents of fresh
  memory and changes of other nodes by its users: every call returns without an access out of bounds or
  to a node that is not there, and does to the set of the queued nodes and their priorities what it
  should; in particular a pop takes out a node that no other comes before. The size is the number of
  nodes and the code's own check of the heap order succeeds.
\<close>

theorem pqueue_is_priority_queue:
  assumes "cmppri \<in> {LFU_cmp_pri, LRU_K_cmp_pri, Optimal_cmp_pri}" "pq_reach cmppri raw q" "allowed x q"
  shows "\<exists>r q'. pq_exec cmppri raw x q = Inr (r, q') \<and> pq_spec cmppri x r (pris q, elems q) (pris q', elems q') \<and>
    pqueue_size q' = card (elems q') \<and> pqueue_is_valid cmppri q' = Inr True"
  using assms lfu.queue_correct lru_k.queue_correct optimal.queue_correct by blast

text \<open>Two nodes with frequencies 3 and 2: the second one is popped.\<close>

theorem pqueue_is_priority_queue_witness:
  "\<exists>q q'. pq_reach LFU_cmp_pri (\<lambda>_. 0) q \<and> elems q = {7, 8} \<and> pq_exec LFU_cmp_pri (\<lambda>_. 0) Pop q = Inr (Some 8, q') \<and>
    pq_spec LFU_cmp_pri Pop (Some 8) (pris q, elems q) (pris q', elems q')"
proof -
  let ?node = "\<lambda>f. \<lparr>nd_pri = \<lparr>pri1 = f, pri2 = 0\<rparr>, nd_obj_id = 0, nd_pos = 0\<rparr>"
  let ?q0 = "pqueue_init 1 (\<lambda>_. 0) [7 \<mapsto> ?node 3, 8 \<mapsto> ?node 2]"
  let ?exec = "pq_exec LFU_cmp_pri (\<lambda>_. 0)"
  have q0: "pq_reach LFU_cmp_pri (\<lambda>_. 0) ?q0" by (rule pq_reach.init)
  have e0: "elems ?q0 = {}" by (simp add: elems_def active_def pqueue_init_def)
  have "q_nodes ?q0 7 \<noteq> None" by (simp add: pqueue_init_def)
  then have a0: "allowed (Insert 7) ?q0" using e0 by simp
  obtain r q1 where q1: "?exec (Insert 7) ?q0 = Inr (r, q1)" "pris q1 = pris ?q0" "elems q1 = {7}"
    using pqueue_is_priority_queue [OF _ q0 a0] e0 by auto
  have r1: "pq_reach LFU_cmp_pri (\<lambda>_. 0) q1" using q0 a0 q1(1) by (rule pq_reach.call)
  have p1: "pris q1 7 = Some \<lparr>pri1 = 3, pri2 = 0\<rparr>" "pris q1 8 = Some \<lparr>pri1 = 2, pri2 = 0\<rparr>" using q1(2) by (simp_all add: pris_def pqueue_init_def)
  then have "q_nodes q1 8 \<noteq> None" by (auto simp: pris_def)
  then have a: "allowed (Insert 8) q1" using q1(3) by simp
  obtain r' q2 where q2: "?exec (Insert 8) q1 = Inr (r', q2)" "pris q2 = pris q1" "elems q2 = {7, 8}"
    using pqueue_is_priority_queue [OF _ r1 a] q1(3) by auto
  have r2: "pq_reach LFU_cmp_pri (\<lambda>_. 0) q2" using r1 a q2(1) by (rule pq_reach.call)
  obtain r'' q3 where q3: "?exec Pop q2 = Inr (r'', q3)" "pq_spec LFU_cmp_pri Pop r'' (pris q2, elems q2) (pris q3, elems q3)"
    using pqueue_is_priority_queue [OF _ r2, of Pop] by auto
  then have "first_node LFU_cmp_pri (pris q2) {7, 8} r''" using q2(3) by simp
  then have "r'' = Some 8" using p1 q2(2) by (auto simp: first_node_def LFU_cmp_pri_def split: option.splits)
  then show ?thesis using r2 q2(3) q3 by (intro exI [of _ q2] exI [of _ q3]) simp
qed

end
