(* ===== verification/LRUv0.thy ===== *)
theory LRUv0
  imports CacheTraces
begin

text \<open>
  \<^verbatim>\<open>evictionAlgo/LRUv0.c\<close>: the LRU cache over a hash table and a queue of GLib, and that it answers every
  sequence of requests as \<^verbatim>\<open>LRU.c\<close> does. GLib is the argument \<open>L\<close>, with \<open>glib_ok\<close> for what it documents:
  the table maps keys to values, \<open>gq_links\<close> are the links of a queue from its head on. The links (\<^verbatim>\<open>GList\<close>)
  and the cache objects are in memories of their own, new ones get the next address.
\<close>

section \<open>The code\<close>

record ('h, 'q) glib =
  gh_new :: 'h
  gh_lookup :: "'h \<Rightarrow> u64 \<Rightarrow> nat option"
  gh_insert :: "'h \<Rightarrow> u64 \<Rightarrow> nat \<Rightarrow> 'h"
  gh_remove :: "'h \<Rightarrow> u64 \<Rightarrow> 'h"
  gq_new :: 'q
  gq_links :: "'q \<Rightarrow> nat list"
  gq_push_tail_link :: "'q \<Rightarrow> nat \<Rightarrow> 'q"
  gq_unlink :: "'q \<Rightarrow> nat \<Rightarrow> 'q"
  gq_pop_head_link :: "'q \<Rightarrow> nat option \<times> 'q"

definition glib_ok :: "('h, 'q) glib \<Rightarrow> bool" where
  "glib_ok L \<longleftrightarrow> (\<forall>k. gh_lookup L (gh_new L) k = None) \<and>
    (\<forall>h k v j. gh_lookup L (gh_insert L h k v) j = (if j = k then Some v else gh_lookup L h j)) \<and>
    (\<forall>h k j. gh_lookup L (gh_remove L h k) j = (if j = k then None else gh_lookup L h j)) \<and>
    gq_links L (gq_new L) = [] \<and>
    (\<forall>q n. gq_links L (gq_push_tail_link L q n) = gq_links L q @ [n]) \<and>
    (\<forall>q n. n \<in> set (gq_links L q) \<longrightarrow> gq_links L (gq_unlink L q n) = remove1 n (gq_links L q)) \<and>
    (\<forall>q. gq_links L q = [] \<longrightarrow> fst (gq_pop_head_link L q) = None) \<and>
    (\<forall>q n ns. gq_links L q = n # ns \<longrightarrow>
      fst (gq_pop_head_link L q) = Some n \<and> gq_links L (snd (gq_pop_head_link L q)) = ns)"

record ('h, 'q) LRUv0_t =
  lv_cache :: cache_t
  lv_hash :: 'h
  lv_list :: 'q
  lv_links :: "nat \<rightharpoonup> nat"
  lv_objs :: "nat \<rightharpoonup> cache_obj_t"
  lv_next :: nat

definition lv_load :: "(nat \<rightharpoonup> 'a) \<Rightarrow> nat \<Rightarrow> 'a result" where
  "lv_load m a = (case m a of None \<Rightarrow> Inl Bad_pointer | Some x \<Rightarrow> Inr x)"

definition add_occupied :: "u64 \<Rightarrow> ('h, 'q) LRUv0_t \<Rightarrow> ('h, 'q) LRUv0_t" where
  "add_occupied d c = c\<lparr>lv_cache := (lv_cache c)\<lparr>occupied_size := occupied_size (lv_cache c) + d\<rparr>\<rparr>"

definition LRUv0_init :: "('h, 'q) glib \<Rightarrow> ht_ops \<Rightarrow> common_cache_params_t \<Rightarrow> ('h, 'q) LRUv0_t" where
  "LRUv0_init L H params = \<lparr>lv_cache = cache_struct_init H params, lv_hash = gh_new L, lv_list = gq_new L,
     lv_links = Map.empty, lv_objs = Map.empty, lv_next = 0\<rparr>"

definition LRUv0_check ::
  "('h, 'q) glib \<Rightarrow> ('h, 'q) LRUv0_t \<Rightarrow> request_t \<Rightarrow> bool \<Rightarrow> (cache_ck_res_e \<times> ('h, 'q) LRUv0_t) result" where
  "LRUv0_check L c req update_cache =
    (case gh_lookup L (lv_hash c) (obj_id_int req) of
       None \<Rightarrow> Inr (cache_ck_miss, c)
     | Some node \<Rightarrow>
         if \<not> update_cache then Inr (cache_ck_hit, c)
         else
           rbind (lv_load (lv_links c) node) (\<lambda>p.
           rbind (lv_load (lv_objs c) p) (\<lambda>x.
           let c = (if ucast (o_size x) \<noteq> obj_size req
                    then (add_occupied (obj_size req) (add_occupied (- ucast (o_size x)) c))
                      \<lparr>lv_objs := (lv_objs c)(p \<mapsto> x\<lparr>o_size := ucast (obj_size req)\<rparr>)\<rparr>
                    else c)
           in Inr (cache_ck_hit, c\<lparr>lv_list := gq_push_tail_link L (gq_unlink L (lv_list c) node) node\<rparr>))))"

definition LRUv0_insert :: "('h, 'q) glib \<Rightarrow> ('h, 'q) LRUv0_t \<Rightarrow> request_t \<Rightarrow> ('h, 'q) LRUv0_t" where
  "LRUv0_insert L c req =
    (let c = add_occupied (obj_size req) c;
         a = lv_next c;
         x = copy_request_to_cache_obj zero_obj req;
         node = a + 1
     in c\<lparr>lv_objs := (lv_objs c)(a \<mapsto> x), lv_links := (lv_links c)(node \<mapsto> a), lv_next := a + 2,
          lv_list := gq_push_tail_link L (lv_list c) node, lv_hash := gh_insert L (lv_hash c) (o_id x) node\<rparr>)"

text \<open>\<^verbatim>\<open>g_queue_pop_head\<close> returns the data of the head, the null pointer for an empty queue, and frees the link.\<close>

definition LRUv0_evict :: "('h, 'q) glib \<Rightarrow> ('h, 'q) LRUv0_t \<Rightarrow> ('h, 'q) LRUv0_t result" where
  "LRUv0_evict L c =
    (case gq_pop_head_link L (lv_list c) of
       (None, _) \<Rightarrow> Inl Null_deref
     | (Some node, q) \<Rightarrow>
         rbind (lv_load (lv_links c) node) (\<lambda>p.
         rbind (lv_load (lv_objs c) p) (\<lambda>x.
         if occupied_size (lv_cache c) \<ge> ucast (o_size x) then
           Inr ((add_occupied (- ucast (o_size x)) c)
             \<lparr>lv_list := q, lv_links := (lv_links c)(node := None), lv_hash := gh_remove L (lv_hash c) (o_id x),
              lv_objs := (lv_objs c)(p := None)\<rparr>)
         else Inl Assert_failed)))"

fun LRUv0_evict_loop :: "nat \<Rightarrow> ('h, 'q) glib \<Rightarrow> ('h, 'q) LRUv0_t \<Rightarrow> ('h, 'q) LRUv0_t result" where
  "LRUv0_evict_loop 0 L c = Inl Diverges"
| "LRUv0_evict_loop (Suc k) L c =
    (if occupied_size (lv_cache c) > cache_size (lv_cache c) then rbind (LRUv0_evict L c) (LRUv0_evict_loop k L) else Inr c)"

definition LRUv0_get :: "('h, 'q) glib \<Rightarrow> ('h, 'q) LRUv0_t \<Rightarrow> request_t \<Rightarrow> (cache_ck_res_e \<times> ('h, 'q) LRUv0_t) result" where
  "LRUv0_get L c req =
    rbind (LRUv0_check L c req True) (\<lambda>(r, c).
    rbind (if obj_size req \<le> cache_size (lv_cache c) then
             (let c = (if r = cache_ck_miss then LRUv0_insert L c req else c)
              in LRUv0_evict_loop (length (gq_links L (lv_list c)) + 1) L c)
           else Inr c) (\<lambda>c.
    Inr (r, c\<lparr>lv_cache := (lv_cache c)\<lparr>req_cnt := req_cnt (lv_cache c) + 1\<rparr>\<rparr>)))"

definition LRUv0_get_cached_obj :: "('h, 'q) glib \<Rightarrow> ('h, 'q) LRUv0_t \<Rightarrow> request_t \<Rightarrow> nat result" where
  "LRUv0_get_cached_obj L c req =
    (case gh_lookup L (lv_hash c) (obj_id_int req) of None \<Rightarrow> Inl Null_deref | Some node \<Rightarrow> lv_load (lv_links c) node)"

definition LRUv0_remove_obj :: "('h, 'q) glib \<Rightarrow> ('h, 'q) LRUv0_t \<Rightarrow> nat \<Rightarrow> ('h, 'q) LRUv0_t result" where
  "LRUv0_remove_obj L c obj_to_remove =
    rbind (lv_load (lv_objs c) obj_to_remove) (\<lambda>y.
    case gh_lookup L (lv_hash c) (o_id y) of
      None \<Rightarrow> Inl Aborted
    | Some node \<Rightarrow>
        rbind (lv_load (lv_links c) node) (\<lambda>p.
        rbind (lv_load (lv_objs c) p) (\<lambda>x.
        if occupied_size (lv_cache c) \<ge> ucast (o_size x) then
          Inr ((add_occupied (- ucast (o_size x)) c)
            \<lparr>lv_list := gq_unlink L (lv_list c) node, lv_links := (lv_links c)(node := None),
             lv_hash := gh_remove L (lv_hash c) (o_id y), lv_objs := (lv_objs c)(p := None)\<rparr>)
        else Inl Assert_failed)))"

text \<open>A sequence of requests.\<close>

fun LRUv0_get_all :: "('h, 'q) glib \<Rightarrow> ('h, 'q) LRUv0_t \<Rightarrow> request_t list \<Rightarrow> (cache_ck_res_e list \<times> ('h, 'q) LRUv0_t) result" where
  "LRUv0_get_all L c [] = Inr ([], c)"
| "LRUv0_get_all L c (req # reqs) =
    rbind (LRUv0_get L c req) (\<lambda>(r, c). rbind (LRUv0_get_all L c reqs) (\<lambda>(rs, c). Inr (r # rs, c)))"

section \<open>The list of its objects\<close>

definition entry :: "(nat \<rightharpoonup> cache_obj_t) \<Rightarrow> nat \<times> nat \<Rightarrow> obj_id_t \<times> u32" where
  "entry m e = (o_id (the (m (snd e))), o_size (the (m (snd e))))"

text \<open>\<open>es\<close> are the links of the queue with their objects.\<close>

definition lv_at :: "('h, 'q) glib \<Rightarrow> ('h, 'q) LRUv0_t \<Rightarrow> (nat \<times> nat) list \<Rightarrow> bool" where
  "lv_at L c es \<longleftrightarrow> gq_links L (lv_list c) = map fst es \<and> distinct (map fst es) \<and> distinct (map snd es) \<and>
    (\<forall>n p. (n, p) \<in> set es \<longrightarrow> lv_links c n = Some p \<and> lv_objs c p \<noteq> None \<and> n < lv_next c \<and> p < lv_next c) \<and>
    (\<forall>k n. gh_lookup L (lv_hash c) k = Some n \<longleftrightarrow> (\<exists>p. (n, p) \<in> set es \<and> fst (entry (lv_objs c) (n, p)) = k)) \<and>
    occupied_size (lv_cache c) = of_nat (total_size (map (entry (lv_objs c)) es)) \<and> wf_contents (map (entry (lv_objs c)) es)"

definition lv_rep :: "('h, 'q) glib \<Rightarrow> ('h, 'q) LRUv0_t \<Rightarrow> contents \<Rightarrow> bool" where
  "lv_rep L c xs \<longleftrightarrow> (\<exists>es. lv_at L c es \<and> xs = map (entry (lv_objs c)) es)"

definition lv_same :: "('h, 'q) LRUv0_t \<Rightarrow> ('h, 'q) LRUv0_t \<Rightarrow> bool" where
  "lv_same c c' \<longleftrightarrow> cache_size (lv_cache c') = cache_size (lv_cache c) \<and> req_cnt (lv_cache c') = req_cnt (lv_cache c)"

lemma lv_atD:
  assumes "lv_at L c es"
  shows "(n, p) \<in> set es \<Longrightarrow> lv_links c n = Some p" "(n, p) \<in> set es \<Longrightarrow> lv_objs c p \<noteq> None"
    "(n, p) \<in> set es \<Longrightarrow> n < lv_next c" "(n, p) \<in> set es \<Longrightarrow> p < lv_next c"
    "gh_lookup L (lv_hash c) k = Some n \<longleftrightarrow> (\<exists>p. (n, p) \<in> set es \<and> fst (entry (lv_objs c) (n, p)) = k)"
  using assms unfolding lv_at_def by blast+

lemma lookup_cached: "lv_at L c es \<Longrightarrow> gh_lookup L (lv_hash c) k = None \<longleftrightarrow> \<not> cached k (map (entry (lv_objs c)) es)"
proof -
  assume c: "lv_at L c es"
  have "cached k (map (entry (lv_objs c)) es) \<longleftrightarrow> (\<exists>n p. (n, p) \<in> set es \<and> fst (entry (lv_objs c) (n, p)) = k)"
    by (force simp: cached_def)
  moreover have "gh_lookup L (lv_hash c) k = Some n \<longleftrightarrow> (\<exists>p. (n, p) \<in> set es \<and> fst (entry (lv_objs c) (n, p)) = k)" for n
    using c by (simp add: lv_at_def)
  ultimately show ?thesis by (metis not_None_eq)
qed

lemma entry_upd: "snd e \<noteq> p \<Longrightarrow> entry (m(p := x)) e = entry m e"
  by (simp add: entry_def)

lemma map_entry_upd: "p \<notin> snd ` set es \<Longrightarrow> map (entry (m(p := x))) es = map (entry m) es"
  by (induction es) (auto simp: entry_upd)

lemma make_newest_split:
  assumes "distinct (map fst (A @ y # B))" "fst x = fst y"
  shows "make_newest x (A @ y # B) = A @ B @ [x]"
proof -
  have "filter (\<lambda>z. fst z \<noteq> fst x) A = A" "filter (\<lambda>z. fst z \<noteq> fst x) B = B"
    using assms by (auto simp: filter_id_conv image_iff)
  then show ?thesis using assms(2) by (simp add: make_newest_def)
qed

lemma wf_make_newest: "wf_contents M \<Longrightarrow> snd x \<noteq> 0 \<Longrightarrow> wf_contents (make_newest x M)"
  by (auto simp: wf_contents_def make_newest_def distinct_map_filter)

lemma check_hit_lv:
  assumes L: "glib_ok L" and c: "lv_at L c es" and fit: "fits req" and hit: "cached (obj_id_int req) (map (entry (lv_objs c)) es)"
  shows "\<exists>c'. LRUv0_check L c req True = Inr (cache_ck_hit, c') \<and> lv_rep L c' (make_newest (obj_of req) (map (entry (lv_objs c)) es)) \<and>
    lv_same c c'"
proof -
  obtain n where n: "gh_lookup L (lv_hash c) (obj_id_int req) = Some n" using lookup_cached [OF c] hit by blast
  then obtain p where np: "(n, p) \<in> set es" "fst (entry (lv_objs c) (n, p)) = obj_id_int req" using c by (auto simp: lv_at_def)
  obtain A B where es: "es = A @ (n, p) # B" using np(1) by (auto simp: in_set_conv_decomp)
  obtain x where x: "lv_links c n = Some p" "lv_objs c p = Some x" using lv_atD(1,2) [OF c np(1)] by blast
  have id: "o_id x = obj_id_int req" using np(2) x(2) by (simp add: entry_def)
  let ?y = "x\<lparr>o_size := size32 req\<rparr>" and ?E = "map (entry (lv_objs c))"
  let ?objs = "(lv_objs c)(p \<mapsto> ?y)" and ?es = "A @ B @ [(n, p)]"
  let ?c = "(add_occupied (obj_size req) (add_occupied (- ucast (o_size x)) c))
    \<lparr>lv_objs := ?objs, lv_list := gq_push_tail_link L (gq_unlink L (lv_list c) n) n\<rparr>"
  have "LRUv0_check L c req True = Inr (cache_ck_hit, ?c)"
  proof (cases "ucast (o_size x) = obj_size req")
    case True
    then have "o_size x = size32 req" using fitsD(3) [OF fit] by (metis ucast_32_64)
    then have "?objs = lv_objs c" using x(2) by (metis fun_upd_triv cache_obj_t.surjective cache_obj_t.update_convs(6))
    then show ?thesis using True n x by (simp add: LRUv0_check_def lv_load_def add_occupied_def)
  next
    case False
    then show ?thesis using n x by (simp add: LRUv0_check_def lv_load_def add_occupied_def)
  qed
  moreover have "p \<notin> snd ` set A" "p \<notin> snd ` set B" using c by (auto simp: lv_at_def es)
  note upd = this [THEN map_entry_upd, of "lv_objs c" "Some ?y"]
  have upd: "map (entry ?objs) ?es = ?E A @ ?E B @ [obj_of req]" using upd id by (simp only: map_append) (simp add: entry_def obj_of_def)
  have new: "map (entry ?objs) ?es = make_newest (obj_of req) (?E es)"
  proof -
    have "distinct (map fst (?E es))" "fst (obj_of req) = fst (entry (lv_objs c) (n, p))"
      using c np(2) by (auto simp: lv_at_def wf_contents_def obj_of_def)
    then show ?thesis using make_newest_split [of "?E A" "entry (lv_objs c) (n, p)" "?E B" "obj_of req"] upd by (simp add: es)
  qed
  moreover have "lv_at L ?c ?es"
    unfolding lv_at_def
  proof (intro conjI)
    have d: "distinct (map fst es)" "distinct (map snd es)" "gq_links L (lv_list c) = map fst es" using c by (auto simp: lv_at_def)
    have "gq_links L (gq_unlink L (lv_list c) n) = remove1 n (map fst es)" using L d(3) by (simp add: glib_ok_def es)
    also have "\<dots> = map fst (A @ B)" using d(1) by (simp add: es remove1_append)
    finally show "gq_links L (lv_list ?c) = map fst ?es" using L by (simp add: glib_ok_def)
    show "distinct (map fst ?es)" "distinct (map snd ?es)" using d(1,2) by (auto simp: es)
    show "\<forall>n p. (n, p) \<in> set ?es \<longrightarrow> lv_links ?c n = Some p \<and> lv_objs ?c p \<noteq> None \<and> n < lv_next ?c \<and> p < lv_next ?c"
      using c by (auto simp: lv_at_def es add_occupied_def)
    have "fst (entry ?objs e) = fst (entry (lv_objs c) e)" for e using x(2) by (simp add: entry_def)
    moreover have "set ?es = set es" by (auto simp: es)
    ultimately show "\<forall>k m. gh_lookup L (lv_hash ?c) k = Some m \<longleftrightarrow> (\<exists>p. (m, p) \<in> set ?es \<and> fst (entry (lv_objs ?c) (m, p)) = k)"
      using c by (simp add: lv_at_def add_occupied_def)
    have w: "wf_contents (?E es)" using c by (simp add: lv_at_def)
    have "snd (obj_of req) \<noteq> 0" using fitsD(1) [OF fit] by (simp add: obj_of_def)
    from wf_make_newest [OF w this] have "wf_contents (map (entry ?objs) ?es)" by (simp only: new)
    then show "wf_contents (map (entry (lv_objs ?c)) ?es)" by simp
    have "total_size (map (entry ?objs) ?es) = total_size (?E A) + total_size (?E B) + unat (size32 req)"
      unfolding upd by (simp add: obj_of_def)
    moreover have "occupied_size (lv_cache c) = of_nat (total_size (?E A) + total_size (?E B)) + ucast (o_size x)"
      using c x(2) by (simp add: lv_at_def es entry_def)
    ultimately show "occupied_size (lv_cache ?c) = of_nat (total_size (map (entry (lv_objs ?c)) ?es))"
      using fitsD(4) [OF fit] by (simp add: add_occupied_def)
  qed
  ultimately show ?thesis by (auto simp: lv_rep_def lv_same_def add_occupied_def)
qed

lemma insert_lv:
  assumes L: "glib_ok L" and c: "lv_at L c es" and fit: "fits req" and new: "\<not> cached (obj_id_int req) (map (entry (lv_objs c)) es)"
  shows "lv_rep L (LRUv0_insert L c req) (map (entry (lv_objs c)) es @ [obj_of req])" "lv_same c (LRUv0_insert L c req)"
proof -
  let ?a = "lv_next c" and ?x = "copy_request_to_cache_obj zero_obj req" and ?c = "LRUv0_insert L c req"
  let ?es = "es @ [(lv_next c + 1, lv_next c)]" and ?E = "map (entry (lv_objs c)) es"
  have f: "lv_objs ?c = (lv_objs c)(?a \<mapsto> ?x)" "lv_links ?c = (lv_links c)(?a + 1 \<mapsto> ?a)" "lv_next ?c = ?a + 2"
    "lv_list ?c = gq_push_tail_link L (lv_list c) (?a + 1)" "lv_hash ?c = gh_insert L (lv_hash c) (obj_id_int req) (?a + 1)"
    "occupied_size (lv_cache ?c) = occupied_size (lv_cache c) + obj_size req"
    by (simp_all add: LRUv0_insert_def add_occupied_def Let_def copy_request_to_cache_obj_def)
  have b: "n < ?a" "p < ?a" "lv_links c n = Some p" "lv_objs c p \<noteq> None" if "(n, p) \<in> set es" for n p using lv_atD [OF c] that by blast+
  have "?a \<notin> snd ` set es" "?a + 1 \<notin> fst ` set es" using b by force+
  then have e: "map (entry (lv_objs ?c)) ?es = ?E @ [obj_of req]" "?a \<notin> snd ` set es" "?a + 1 \<notin> fst ` set es"
    using map_entry_upd [of ?a es "lv_objs c"] by (simp_all add: f(1) entry_def obj_of_def copy_request_to_cache_obj_def)
  have "lv_at L ?c ?es"
    unfolding lv_at_def
  proof (intro conjI)
    show "gq_links L (lv_list ?c) = map fst ?es" using L c by (simp add: f(4) glib_ok_def lv_at_def)
    show "distinct (map fst ?es)" "distinct (map snd ?es)" using c e by (auto simp: lv_at_def)
    show "\<forall>n p. (n, p) \<in> set ?es \<longrightarrow> lv_links ?c n = Some p \<and> lv_objs ?c p \<noteq> None \<and> n < lv_next ?c \<and> p < lv_next ?c"
      using b by (fastforce simp: f)
    show "wf_contents (map (entry (lv_objs ?c)) ?es)"
      using c new fitsD(1) [OF fit] unfolding e(1) by (auto simp: lv_at_def wf_contents_def obj_of_def cached_def)
    show "occupied_size (lv_cache ?c) = of_nat (total_size (map (entry (lv_objs ?c)) ?es))"
      using c fitsD(4) [OF fit] unfolding e(1) f(6) by (simp add: lv_at_def obj_of_def)
    show "\<forall>k n. gh_lookup L (lv_hash ?c) k = Some n \<longleftrightarrow> (\<exists>p. (n, p) \<in> set ?es \<and> fst (entry (lv_objs ?c) (n, p)) = k)"
    proof (intro allI)
      fix k n
      have old: "entry (lv_objs ?c) (m, p) = entry (lv_objs c) (m, p)" if "(m, p) \<in> set es" for m p
        using b(2) [OF that] by (simp add: f(1) entry_def)
      have a: "fst (entry (lv_objs ?c) (?a + 1, ?a)) = obj_id_int req" by (simp add: f(1) entry_def copy_request_to_cache_obj_def)
      have "(\<exists>p. (n, p) \<in> set ?es \<and> fst (entry (lv_objs ?c) (n, p)) = k) \<longleftrightarrow>
          n = ?a + 1 \<and> k = obj_id_int req \<or> (\<exists>p. (n, p) \<in> set es \<and> fst (entry (lv_objs c) (n, p)) = k)"
        using old a by auto
      also have "\<dots> \<longleftrightarrow> n = ?a + 1 \<and> k = obj_id_int req \<or> gh_lookup L (lv_hash c) k = Some n" by (simp only: lv_atD(5) [OF c])
      finally show "gh_lookup L (lv_hash ?c) k = Some n \<longleftrightarrow> (\<exists>p. (n, p) \<in> set ?es \<and> fst (entry (lv_objs ?c) (n, p)) = k)"
        using L lookup_cached [OF c, of "obj_id_int req"] new by (auto simp: f(5) glib_ok_def)
    qed
  qed
  then show "lv_rep L ?c (?E @ [obj_of req])" unfolding lv_rep_def using e(1) by metis
  show "lv_same c ?c" by (simp add: lv_same_def LRUv0_insert_def add_occupied_def Let_def)
qed

lemma evict_lv:
  assumes L: "glib_ok L" and c: "lv_at L c (e # es)" and b: "total_size (map (entry (lv_objs c)) (e # es)) < 2 ^ 64"
  shows "\<exists>c'. LRUv0_evict L c = Inr c' \<and> lv_rep L c' (map (entry (lv_objs c)) es) \<and> lv_same c c'"
proof -
  obtain n p where e: "e = (n, p)" by (cases e)
  let ?E = "map (entry (lv_objs c))"
  obtain x where x: "lv_links c n = Some p" "lv_objs c p = Some x" using lv_atD(1,2) [OF c, of n p] e by auto
  obtain q where q: "gq_pop_head_link L (lv_list c) = (Some n, q)" "gq_links L q = map fst es"
  proof -
    have "gq_links L (lv_list c) = n # map fst es" using c e by (simp add: lv_at_def)
    then have "fst (gq_pop_head_link L (lv_list c)) = Some n" "gq_links L (snd (gq_pop_head_link L (lv_list c))) = map fst es"
      using L by (auto simp: glib_ok_def)
    then show thesis by (intro that [of "snd (gq_pop_head_link L (lv_list c))"]) (simp_all add: prod_eq_iff)
  qed
  have t: "occupied_size (lv_cache c) = of_nat (unat (o_size x) + total_size (?E es))" "unat (o_size x) + total_size (?E es) < 2 ^ 64"
    using c b x(2) by (simp_all add: lv_at_def e entry_def)
  have "unat (occupied_size (lv_cache c)) = unat (o_size x) + total_size (?E es)"
    unfolding t(1) using t(2) by (simp only: unat_of_nat_u64)
  then have "ucast (o_size x) \<le> occupied_size (lv_cache c)" by (simp add: word_le_nat_alt unat_ucast_u32)
  note le = this
  let ?c = "(add_occupied (- ucast (o_size x)) c)\<lparr>lv_list := q, lv_links := (lv_links c)(n := None),
    lv_hash := gh_remove L (lv_hash c) (o_id x), lv_objs := (lv_objs c)(p := None)\<rparr>"
  have ev: "LRUv0_evict L c = Inr ?c" using le q(1) x by (simp add: LRUv0_evict_def lv_load_def)
  have d: "p \<notin> snd ` set es" "n \<notin> fst ` set es" using c e by (auto simp: lv_at_def)
  have E: "map (entry (lv_objs ?c)) es = ?E es" using map_entry_upd [OF d(1), of "lv_objs c"] by simp
  have "lv_at L ?c es"
    unfolding lv_at_def E
  proof (intro conjI)
    show "gq_links L (lv_list ?c) = map fst es" using q(2) by simp
    show "distinct (map fst es)" "distinct (map snd es)" "wf_contents (?E es)" using c by (auto simp: lv_at_def wf_contents_def)
    show "\<forall>m r. (m, r) \<in> set es \<longrightarrow> lv_links ?c m = Some r \<and> lv_objs ?c r \<noteq> None \<and> m < lv_next ?c \<and> r < lv_next ?c"
    proof (intro allI impI)
      fix m r
      assume mr: "(m, r) \<in> set es"
      then have "m \<noteq> n" "r \<noteq> p" using d by force+
      then show "lv_links ?c m = Some r \<and> lv_objs ?c r \<noteq> None \<and> m < lv_next ?c \<and> r < lv_next ?c"
        using lv_atD(1-4) [OF c, of m r] mr by (simp add: add_occupied_def)
    qed
    show "occupied_size (lv_cache ?c) = of_nat (total_size (?E es))" using t(1) by (simp add: add_occupied_def)
    show "\<forall>k m. gh_lookup L (lv_hash ?c) k = Some m \<longleftrightarrow> (\<exists>r. (m, r) \<in> set es \<and> fst (entry (lv_objs ?c) (m, r)) = k)"
    proof (intro allI)
      fix k m
      have same: "entry (lv_objs ?c) (m, r) = entry (lv_objs c) (m, r)" if "(m, r) \<in> set es" for r
        using d(1) that by (simp add: entry_def) force
      have id: "fst (entry (lv_objs c) (n, p)) = o_id x" using x(2) by (simp add: entry_def)
      have nd: "fst (entry (lv_objs c) (m, r)) \<noteq> o_id x" if "(m, r) \<in> set es" for r
        using c that id by (force simp: lv_at_def wf_contents_def e image_iff)
      have "gh_lookup L (lv_hash ?c) k = Some m \<longleftrightarrow> k \<noteq> o_id x \<and> gh_lookup L (lv_hash c) k = Some m" using L by (simp add: glib_ok_def)
      also have "\<dots> \<longleftrightarrow> k \<noteq> o_id x \<and> (\<exists>r. (m, r) \<in> set (e # es) \<and> fst (entry (lv_objs c) (m, r)) = k)" by (simp only: lv_atD(5) [OF c])
      also have "\<dots> \<longleftrightarrow> (\<exists>r. (m, r) \<in> set es \<and> fst (entry (lv_objs c) (m, r)) = k)" using id nd e by auto
      finally show "gh_lookup L (lv_hash ?c) k = Some m \<longleftrightarrow> (\<exists>r. (m, r) \<in> set es \<and> fst (entry (lv_objs ?c) (m, r)) = k)"
        using same by metis
    qed
  qed
  then have "lv_rep L ?c (?E es)" unfolding lv_rep_def using E by metis
  then show ?thesis using ev by (auto simp: lv_same_def add_occupied_def)
qed

lemma rep_length: "lv_rep L c xs \<Longrightarrow> length xs = length (gq_links L (lv_list c))"
  unfolding lv_rep_def lv_at_def by (metis length_map)

lemma evict_loop_lv:
  assumes "glib_ok L" "lv_rep L c xs" "total_size xs < 2 ^ 64" "length xs < k"
  shows "\<exists>c'. LRUv0_evict_loop k L c = Inr c' \<and> lv_rep L c' (evict_oldest (unat (cache_size (lv_cache c))) xs) \<and> lv_same c c'"
  using assms
proof (induction k arbitrary: c xs)
  case (Suc k)
  let ?n = "unat (cache_size (lv_cache c))"
  obtain es where es: "lv_at L c es" "xs = map (entry (lv_objs c)) es" using Suc.prems(2) by (auto simp: lv_rep_def)
  have "occupied_size (lv_cache c) = of_nat (total_size xs)" using es by (simp add: lv_at_def)
  then have occ: "unat (occupied_size (lv_cache c)) = total_size xs" using Suc.prems(3) by (simp only: unat_of_nat_u64)
  show ?case
  proof (cases "?n < total_size xs")
    case False
    then have "evict_oldest ?n xs = xs" by (cases xs) auto
    then show ?thesis using False occ Suc.prems(2) by (simp add: word_less_nat_alt lv_same_def)
  next
    case True
    then obtain e es' where e: "es = e # es'" using es(2) by (cases es) auto
    obtain c1 where c1: "LRUv0_evict L c = Inr c1" "lv_rep L c1 (map (entry (lv_objs c)) es')" "lv_same c c1"
      using evict_lv [OF Suc.prems(1), of c e es'] es Suc.prems(3) e by auto
    obtain c' where "LRUv0_evict_loop k L c1 = Inr c'"
      "lv_rep L c' (evict_oldest (unat (cache_size (lv_cache c1))) (map (entry (lv_objs c)) es'))" "lv_same c1 c'"
      using Suc.IH [OF Suc.prems(1) c1(2)] Suc.prems(3,4) es(2) e by auto
    then show ?thesis using True occ c1 es(2) e by (auto simp: word_less_nat_alt lv_same_def)
  qed
qed simp

lemma get_lv:
  assumes L: "glib_ok L" and c: "lv_rep L c xs" "lru_inv (unat (cache_size (lv_cache c))) xs" and fit: "fits req"
  defines "n \<equiv> unat (cache_size (lv_cache c))"
  shows "\<exists>c'. LRUv0_get L c req = Inr (fst (spec_get make_newest evict_oldest n (obj_of req) xs), c') \<and>
    lv_rep L c' (snd (spec_get make_newest evict_oldest n (obj_of req) xs)) \<and>
    lru_inv n (snd (spec_get make_newest evict_oldest n (obj_of req) xs)) \<and> cache_size (lv_cache c') = cache_size (lv_cache c)"
proof -
  let ?x = "obj_of req" and ?hit = "cached (obj_id_int req) xs"
  let ?M1 = "if ?hit then make_newest ?x xs else xs" and ?M2 = "if ?hit then make_newest ?x xs else xs @ [?x]"
  obtain es where es: "lv_at L c es" "xs = map (entry (lv_objs c)) es" using c(1) by (auto simp: lv_rep_def)
  have w: "wf_contents xs" using es by (simp add: lv_at_def)
  have x: "fst ?x = obj_id_int req" "unat (snd ?x) = unat (obj_size req)" "snd ?x \<noteq> 0" using fitsD [OF fit] by (simp_all add: obj_of_def)
  note st = lru_inv_step [OF c(2) [folded n_def] w x(3), unfolded x(1,2)]
  have "\<exists>c1. LRUv0_check L c req True = Inr (if ?hit then cache_ck_hit else cache_ck_miss, c1) \<and> lv_rep L c1 ?M1 \<and> lv_same c c1 \<and>
      (\<not> ?hit \<longrightarrow> c1 = c)"
    using check_hit_lv [OF L es(1) fit] lookup_cached [OF es(1), of "obj_id_int req"] c(1) es(2)
    by (cases ?hit) (auto simp: LRUv0_check_def lv_same_def)
  then obtain c1 where c1: "LRUv0_check L c req True = Inr (if ?hit then cache_ck_hit else cache_ck_miss, c1)" "lv_rep L c1 ?M1"
    "lv_same c c1" "\<not> ?hit \<Longrightarrow> c1 = c" by blast
  show ?thesis
  proof (cases "obj_size req \<le> cache_size (lv_cache c)")
    case True
    then have le: "unat (obj_size req) \<le> n" by (simp add: n_def word_le_nat_alt)
    let ?c2 = "if ?hit then c1 else LRUv0_insert L c1 req"
    have c2: "lv_rep L ?c2 ?M2" "lv_same c ?c2" using insert_lv [OF L es(1) fit] c1 es(2) by (auto simp: lv_same_def)
    have "length ?M2 = length (gq_links L (lv_list ?c2))" by (rule rep_length [OF c2(1)])
    then have "length ?M2 < length (gq_links L (lv_list ?c2)) + 1" by simp
    from evict_loop_lv [OF L c2(1) st(2) this]
    obtain c3 where c3: "LRUv0_evict_loop (length (gq_links L (lv_list ?c2)) + 1) L ?c2 = Inr c3"
      "lv_rep L c3 (evict_oldest (unat (cache_size (lv_cache ?c2))) ?M2)" "lv_same ?c2 c3" by blast
    have sz: "unat (cache_size (lv_cache ?c2)) = n" "cache_size (lv_cache c3) = cache_size (lv_cache c)" "cache_size (lv_cache c1) = cache_size (lv_cache c)"
      using c2(2) c3(3) c1(3) by (simp_all add: lv_same_def n_def split: if_splits)
    let ?c4 = "c3\<lparr>lv_cache := (lv_cache c3)\<lparr>req_cnt := req_cnt (lv_cache c3) + 1\<rparr>\<rparr>"
    have "LRUv0_get L c req = Inr (if ?hit then cache_ck_hit else cache_ck_miss, ?c4)"
      using c1(1) c3(1) True sz(3) by (cases ?hit) (simp_all add: LRUv0_get_def Let_def del: LRUv0_evict_loop.simps)
    moreover have "lv_rep L ?c4 (evict_oldest n ?M2)" using c3(2) unfolding sz(1) by (simp add: lv_rep_def lv_at_def)
    moreover have "spec_get make_newest evict_oldest n ?x xs = (if ?hit then cache_ck_hit else cache_ck_miss, evict_oldest n ?M2)"
      using le x by (simp add: spec_get_def Let_def)
    ultimately show ?thesis using st(4) [OF le] sz(2) by simp
  next
    case False
    then have gt: "n < unat (obj_size req)" by (simp add: n_def word_le_nat_alt)
    let ?c4 = "c1\<lparr>lv_cache := (lv_cache c1)\<lparr>req_cnt := req_cnt (lv_cache c1) + 1\<rparr>\<rparr>"
    have "LRUv0_get L c req = Inr (if ?hit then cache_ck_hit else cache_ck_miss, ?c4)"
      using c1(1,3) False by (simp add: LRUv0_get_def lv_same_def)
    moreover have "lv_rep L ?c4 ?M1" using c1(2) by (simp add: lv_rep_def lv_at_def)
    moreover have "spec_get make_newest evict_oldest n ?x xs = (if ?hit then cache_ck_hit else cache_ck_miss, ?M1)"
      using gt x by (simp add: spec_get_def Let_def)
    ultimately show ?thesis using st(5) [OF gt] c1(3) by (simp add: lv_same_def)
  qed
qed

lemma get_all_lv:
  assumes "glib_ok L" "lv_rep L c xs" "lru_inv (unat (cache_size (lv_cache c))) xs" "\<forall>req \<in> set reqs. fits req"
  shows "\<exists>c'. LRUv0_get_all L c reqs =
      Inr (fst (spec_run make_newest evict_oldest (unat (cache_size (lv_cache c))) (map obj_of reqs) xs), c') \<and>
    lv_rep L c' (snd (spec_run make_newest evict_oldest (unat (cache_size (lv_cache c))) (map obj_of reqs) xs))"
  using assms
proof (induction reqs arbitrary: c xs)
  case (Cons req reqs)
  let ?n = "unat (cache_size (lv_cache c))"
  obtain r ys where s: "spec_get make_newest evict_oldest ?n (obj_of req) xs = (r, ys)" by fastforce
  obtain c1 where c1: "LRUv0_get L c req = Inr (r, c1)" "lv_rep L c1 ys" "lru_inv ?n ys" "cache_size (lv_cache c1) = cache_size (lv_cache c)"
    using get_lv [OF Cons.prems(1-3), of req] Cons.prems(4) s by auto
  show ?case using Cons.IH [OF Cons.prems(1) c1(2)] c1 s Cons.prems(4) by (auto split: prod.splits)
qed simp

lemma init_lv: "glib_ok L \<Longrightarrow> lv_rep L (LRUv0_init L H params) []"
  by (auto simp: lv_rep_def lv_at_def LRUv0_init_def glib_ok_def wf_contents_def cache_struct_init_def Let_def)

text \<open>
  (C13) The LRU cache over GLib and the one over the hash table of libCacheSim: from new caches of the same
  size below \<open>2 ^ 47\<close> bytes, every sequence of requests with sizes from 1 to \<open>2 ^ 32 - 1\<close> runs in both
  without an error, gets the same answers from both, and leaves the same objects with the same sizes in
  the same order in both.
\<close>

theorem LRUv0_matches_LRU:
  assumes "glib_ok L" "\<forall>req \<in> set reqs. hv_ok hash req \<and> fits req" "unat (p_cache_size params) < 2 ^ 47"
  shows "\<exists>rs c c' xs. LRUv0_get_all L (LRUv0_init L H params) reqs = Inr (rs, c) \<and>
    get_all (LRU_ops (hashtable_ver1 hash)) (LRU_init (hashtable_ver1 hash) params) reqs = Inr (rs, c') \<and>
    lv_rep L c xs \<and> cache_rep (ht_v1 hash) True c' xs"
proof -
  have sz: "cache_size (lv_cache (LRUv0_init L H params)) = p_cache_size params" "cache_size (LRU_init (hashtable_ver1 hash) params) = p_cache_size params"
    by (simp_all add: LRUv0_init_def LRU_init_def cache_struct_init_def Let_def)
  have i: "lru_inv (unat (p_cache_size params)) []" using assms(3) by (simp add: lru_inv_def)
  show ?thesis
    using get_all_lv [OF assms(1) init_lv [OF assms(1)], of H params reqs]
      lru1.get_all_correct [OF v1.init_rep [of hash True params, folded LRU_init_def], of reqs] assms(2) i unfolding sz by auto
qed

text \<open>GLib's table and queue as a function and a list, for the example.\<close>

definition list_glib :: "(u64 \<rightharpoonup> nat, nat list) glib" where
  "list_glib = \<lparr>gh_new = Map.empty, gh_lookup = (\<lambda>h. h), gh_insert = (\<lambda>h k v. h(k \<mapsto> v)), gh_remove = (\<lambda>h k. h(k := None)),
     gq_new = [], gq_links = (\<lambda>q. q), gq_push_tail_link = (\<lambda>q n. q @ [n]), gq_unlink = (\<lambda>q n. remove1 n q),
     gq_pop_head_link = (\<lambda>q. case q of [] \<Rightarrow> (None, []) | n # ns \<Rightarrow> (Some n, ns))\<rparr>"

lemma list_glib_ok: "glib_ok list_glib"
  by (auto simp: glib_ok_def list_glib_def)

theorem LRUv0_matches_LRU_witness:
  "\<exists>rs c c' xs. LRUv0_get_all list_glib (LRUv0_init list_glib (hashtable_ver1 (\<lambda>k. k)) (sample_params 10))
      [sample_req 1 5, sample_req 2 5, sample_req 1 4, sample_req 3 6, sample_req 2 1] = Inr (rs, c) \<and>
    get_all (LRU_ops (hashtable_ver1 (\<lambda>k. k))) (LRU_init (hashtable_ver1 (\<lambda>k. k)) (sample_params 10))
      [sample_req 1 5, sample_req 2 5, sample_req 1 4, sample_req 3 6, sample_req 2 1] = Inr (rs, c') \<and>
    lv_rep list_glib c xs \<and> cache_rep (ht_v1 (\<lambda>k. k)) True c' xs"
  by (rule LRUv0_matches_LRU [OF list_glib_ok]) simp_all

end
