(* ===== verification/SlabCommon.thy ===== *)
theory SlabCommon
  imports LRUv0
begin

text \<open>
  \<^verbatim>\<open>include/libCacheSim/evictionAlgo/slabCommon.h\<close>, what the slab caches share: the memory of a cache is cut into
  slabs of one size, a slab holds objects of one class of sizes. The classes, the search for the class of a
  size, the allocation of slabs and the insertion of an object, with an abstract account of the slabs of a
  cache and of how it is represented. The hash table and the queues are GLib's: \<open>L\<close> as in \<open>LRUv0\<close> for the
  table and the queue of links, \<open>D\<close> for the queues used only through their data, with \<open>dq_ok\<close> for what GLib
  documents of them.
\<close>

section \<open>The code\<close>

definition N_SLABCLASS :: nat where
  "N_SLABCLASS = 48"

definition SLABCLASS_SIZES :: "u32 list" where
  "SLABCLASS_SIZES =
    [96, 120, 152, 192, 240, 304, 384, 480,
     600, 752, 944, 1184, 1480, 1856, 2320, 2904,
     3632, 4544, 5680, 7104, 8880, 11104, 13880, 17352,
     21696, 27120, 33904, 42384, 52984, 66232, 82792, 103496,
     129376, 161720, 202152, 252696, 315872, 394840, 524288, 655360,
     819200, 1048576, 1280000, 1600000, 2097152, 2500000, 3125000, 3906250]"

definition MiB :: u64 where
  "MiB = 1048576"

datatype slab_automove_t = no_automove | recency_t | eviction_rate_t

record slab_init_params_t =
  i_slab_size :: u64
  i_slab_move_strategy :: slab_automove_t
  i_per_obj_metadata_size :: u8

record slab_cache_obj_t =
  so_id :: obj_id_t
  so_size :: u32
  so_access_time :: u32
  so_slab :: nat
  so_pos :: u32

record slab_t =
  slabclass_id :: nat
  n_total_items :: u32
  n_stored_items :: u32
  q_node :: nat
  slab_items :: "obj_id_t list"

record ('q, 'd) slabclass_t =
  sc_chunk_size :: u32
  sc_n_stored_items :: u32
  free_slab_q :: 'd
  slab_q :: 'd
  obj_q :: 'q
  n_evictions :: u32

record ('q, 'd) slab_params_t =
  slab_size :: u64
  slabclasses :: "('q, 'd) slabclass_t list"
  n_total_slabs :: u64
  n_allocated_slabs :: u64
  global_slab_q :: 'q
  per_obj_metadata_size :: u8
  slab_move_strategy :: slab_automove_t

text \<open>GLib's queues through their data.\<close>

record 'd dqueue =
  gd_new :: 'd
  gd_items :: "'d \<Rightarrow> nat list"
  gd_push_tail :: "'d \<Rightarrow> nat \<Rightarrow> 'd"
  gd_peek_head :: "'d \<Rightarrow> nat option"
  gd_pop_head :: "'d \<Rightarrow> 'd"
  gd_remove :: "'d \<Rightarrow> nat \<Rightarrow> 'd"

definition dq_ok :: "'d dqueue \<Rightarrow> bool" where
  "dq_ok D \<longleftrightarrow> gd_items D (gd_new D) = [] \<and>
    (\<forall>q x. gd_items D (gd_push_tail D q x) = gd_items D q @ [x]) \<and>
    (\<forall>q. gd_peek_head D q = (case gd_items D q of [] \<Rightarrow> None | x # _ \<Rightarrow> Some x)) \<and>
    (\<forall>q. gd_items D (gd_pop_head D q) = tl (gd_items D q)) \<and>
    (\<forall>q x. gd_items D (gd_remove D q x) = remove1 x (gd_items D q))"

text \<open>A slab cache: the fields every cache has, the hash table and the parameters of the slabs
  (\<^verbatim>\<open>slabLRU_params_t\<close>, \<^verbatim>\<open>slabLRC_params_t\<close>), and the memories of the links, the slabs and the objects.\<close>

record ('h, 'q, 'd) slab_cache_t =
  sb_cache :: cache_t
  sb_hash :: 'h
  sb_params :: "('q, 'd) slab_params_t"
  sb_links :: "nat \<rightharpoonup> nat"
  sb_slabs :: "nat \<rightharpoonup> slab_t"
  sb_objs :: "nat \<rightharpoonup> slab_cache_obj_t"
  sb_next :: nat

definition on_class ::
  "nat \<Rightarrow> (('q, 'd) slabclass_t \<Rightarrow> ('q, 'd) slabclass_t) \<Rightarrow> ('h, 'q, 'd) slab_cache_t \<Rightarrow> ('h, 'q, 'd) slab_cache_t" where
  "on_class cl f c = c\<lparr>sb_params := (sb_params c)
     \<lparr>slabclasses := (slabclasses (sb_params c))[cl := f (slabclasses (sb_params c) ! cl)]\<rparr>\<rparr>"

definition sb_add_occupied :: "u64 \<Rightarrow> ('h, 'q, 'd) slab_cache_t \<Rightarrow> ('h, 'q, 'd) slab_cache_t" where
  "sb_add_occupied d c = c\<lparr>sb_cache := (sb_cache c)\<lparr>occupied_size := occupied_size (sb_cache c) + d\<rparr>\<rparr>"

text \<open>The slab and the position of a new object are set by \<open>add_to_slabclass\<close> before anything reads them.\<close>

definition create_slab_cache_obj_from_req :: "request_t \<Rightarrow> slab_cache_obj_t" where
  "create_slab_cache_obj_from_req req =
    \<lparr>so_id = obj_id_int req, so_size = ucast (obj_size req), so_access_time = ucast (real_time req), so_slab = 0, so_pos = 0\<rparr>"

definition init_slabclass :: "('h, 'q) glib \<Rightarrow> 'd dqueue \<Rightarrow> nat \<Rightarrow> ('q, 'd) slabclass_t" where
  "init_slabclass L D cl = \<lparr>sc_chunk_size = SLABCLASS_SIZES ! cl, sc_n_stored_items = 0, free_slab_q = gd_new D,
     slab_q = gd_new D, obj_q = gq_new L, n_evictions = 0\<rparr>"

text \<open>
  What the three \<^verbatim>\<open>init\<close> functions share: the number of slabs is computed from the default size of a slab,
  before the caller's size replaces it.
\<close>

definition init_slab_params ::
  "('h, 'q) glib \<Rightarrow> 'd dqueue \<Rightarrow> u64 \<Rightarrow> slab_init_params_t option \<Rightarrow> ('q, 'd) slab_params_t" where
  "init_slab_params L D csize init_params =
    (let p = \<lparr>slab_size = MiB, slabclasses = map (init_slabclass L D) [0 ..< N_SLABCLASS], n_total_slabs = csize div MiB,
              n_allocated_slabs = 0, global_slab_q = gq_new L, per_obj_metadata_size = 0, slab_move_strategy = no_automove\<rparr>
     in case init_params of None \<Rightarrow> p
        | Some i \<Rightarrow> p\<lparr>slab_size := i_slab_size i, per_obj_metadata_size := i_per_obj_metadata_size i\<rparr>)"

function find_slabclass_loop :: "u32 \<Rightarrow> nat \<Rightarrow> nat \<Rightarrow> nat result" where
  "find_slabclass_loop sz imin imax =
    (if imax \<ge> imin then
       (let id = (imin + imax) div 2 in
        if id \<ge> length SLABCLASS_SIZES then Inl Out_of_bounds
        else if sz > SLABCLASS_SIZES ! id then find_slabclass_loop sz (id + 1) imax
        else if id > 0 \<and> sz \<le> SLABCLASS_SIZES ! (id - 1) then find_slabclass_loop sz imin (id - 1)
        else Inr id)
     else Inl Aborted)"
  by pat_completeness auto
termination
  by (relation "measure (\<lambda>(sz, imin, imax). imax + 1 - imin)") auto

definition find_slabclass_id :: "u32 \<Rightarrow> nat result" where
  "find_slabclass_id sz = find_slabclass_loop sz 0 N_SLABCLASS"

declare find_slabclass_loop.simps [simp del]

text \<open>\<open>n_total_items\<close> of a slab of a class.\<close>

definition slab_cap :: "u64 \<Rightarrow> nat \<Rightarrow> u32" where
  "slab_cap sz cl = ucast (sz div ucast (SLABCLASS_SIZES ! cl))"

definition allocate_slab ::
  "('h, 'q) glib \<Rightarrow> 'd dqueue \<Rightarrow> ('h, 'q, 'd) slab_cache_t \<Rightarrow> nat \<Rightarrow> nat \<times> ('h, 'q, 'd) slab_cache_t" where
  "allocate_slab L D c cl =
    (let n = slab_cap (slab_size (sb_params c)) cl;
         s = sb_next c;
         q = s + 1;
         slab = \<lparr>slabclass_id = cl, n_total_items = n, n_stored_items = 0, q_node = q, slab_items = replicate (unat n) 0\<rparr>;
         c = c\<lparr>sb_slabs := (sb_slabs c)(s \<mapsto> slab), sb_links := (sb_links c)(q \<mapsto> s), sb_next := s + 2\<rparr>;
         c = c\<lparr>sb_params := (sb_params c)\<lparr>global_slab_q := gq_push_tail_link L (global_slab_q (sb_params c)) q\<rparr>\<rparr>;
         c = on_class cl (\<lambda>k. k\<lparr>free_slab_q := gd_push_tail D (free_slab_q k) s, slab_q := gd_push_tail D (slab_q k) s\<rparr>) c
     in (s, c\<lparr>sb_params := (sb_params c)\<lparr>n_allocated_slabs := n_allocated_slabs (sb_params c) + 1\<rparr>\<rparr>))"

text \<open>The branch of \<open>add_to_slabclass\<close> that stores the object at \<open>a\<close> into the slab at \<open>s\<close>.\<close>

definition store_obj ::
  "'d dqueue \<Rightarrow> ('h, 'q, 'd) slab_cache_t \<Rightarrow> nat \<Rightarrow> nat \<Rightarrow> nat \<Rightarrow> ('h, 'q, 'd) slab_cache_t result" where
  "store_obj D c cl s a =
    rbind (lv_load (sb_slabs c) s) (\<lambda>slab.
    rbind (lv_load (sb_objs c) a) (\<lambda>x.
    let i = n_stored_items slab;
        c = on_class cl (\<lambda>k. k\<lparr>sc_n_stored_items := sc_n_stored_items k + 1\<rparr>) c;
        c = c\<lparr>sb_objs := (sb_objs c)(a \<mapsto> x\<lparr>so_slab := s, so_pos := i\<rparr>)\<rparr>
    in if unat i \<ge> length (slab_items slab) then Inl Out_of_bounds
       else
         let c = c\<lparr>sb_slabs := (sb_slabs c)(s \<mapsto> slab\<lparr>slab_items := (slab_items slab)[unat i := so_id x], n_stored_items := i + 1\<rparr>)\<rparr>
         in Inr (if n_total_items slab = i + 1
                 then on_class cl (\<lambda>k. k\<lparr>free_slab_q := gd_pop_head D (free_slab_q k)\<rparr>) c
                 else c)))"

type_synonym ('h, 'q, 'd) slab_fun = "('h, 'q, 'd) slab_cache_t \<Rightarrow> request_t \<Rightarrow> ('h, 'q, 'd) slab_cache_t result"

fun add_to_slabclass ::
  "nat \<Rightarrow> ('h, 'q) glib \<Rightarrow> 'd dqueue \<Rightarrow> ('h, 'q, 'd) slab_fun \<Rightarrow> ('h, 'q, 'd) slab_fun option \<Rightarrow>
    ('h, 'q, 'd) slab_cache_t \<Rightarrow> request_t \<Rightarrow> nat \<Rightarrow> (nat \<times> ('h, 'q, 'd) slab_cache_t) result" where
  "add_to_slabclass 0 L D evict_func slab_move_func c req a = Inl Diverges"
| "add_to_slabclass (Suc n) L D evict_func slab_move_func c req a =
    rbind (find_slabclass_id (ucast (obj_size req))) (\<lambda>slab_id.
    let p = sb_params c in
    case (case gd_peek_head D (free_slab_q (slabclasses p ! slab_id)) of
            Some s \<Rightarrow> Some (s, c)
          | None \<Rightarrow> if n_allocated_slabs p < n_total_slabs p then Some (allocate_slab L D c slab_id) else None) of
      Some (s, c) \<Rightarrow> rbind (store_obj D c slab_id s a) (\<lambda>c. Inr (slab_id, c))
    | None \<Rightarrow>
        rbind (evict_func c req) (\<lambda>c.
        rbind (case slab_move_func of None \<Rightarrow> Inr c | Some f \<Rightarrow> f c req) (\<lambda>c.
        add_to_slabclass n L D evict_func slab_move_func c req a)))"

text \<open>The hash table frees a value it drops, with the function given to \<^verbatim>\<open>g_hash_table_new_full\<close>.\<close>

definition drop_value :: "('h, 'q) glib \<Rightarrow> u64 \<Rightarrow> ('h, 'q, 'd) slab_cache_t \<Rightarrow> ('h, 'q, 'd) slab_cache_t" where
  "drop_value L k c = (case gh_lookup L (sb_hash c) k of None \<Rightarrow> c | Some p \<Rightarrow> c\<lparr>sb_objs := (sb_objs c)(p := None)\<rparr>)"

definition table_remove :: "('h, 'q) glib \<Rightarrow> u64 \<Rightarrow> ('h, 'q, 'd) slab_cache_t \<Rightarrow> ('h, 'q, 'd) slab_cache_t" where
  "table_remove L k c = (drop_value L k c)\<lparr>sb_hash := gh_remove L (sb_hash c) k\<rparr>"

definition table_insert :: "('h, 'q) glib \<Rightarrow> u64 \<Rightarrow> nat \<Rightarrow> ('h, 'q, 'd) slab_cache_t \<Rightarrow> ('h, 'q, 'd) slab_cache_t" where
  "table_insert L k p c = (drop_value L k c)\<lparr>sb_hash := gh_insert L (sb_hash c) k p\<rparr>"

section \<open>The class of a size\<close>

definition class_of :: "u32 \<Rightarrow> nat" where
  "class_of sz = length (takeWhile (\<lambda>s. s < sz) SLABCLASS_SIZES)"

lemma n_sizes: "length SLABCLASS_SIZES = 48"
  by (simp add: SLABCLASS_SIZES_def)

lemma sorted_sizes: "sorted SLABCLASS_SIZES"
  by (simp add: SLABCLASS_SIZES_def sorted2_simps del: sorted_simps)

lemma nth_less_takeWhile:
  "sorted xs \<Longrightarrow> i < length xs \<Longrightarrow> xs ! i < w \<longleftrightarrow> i < length (takeWhile (\<lambda>s. s < w) xs)"
proof (induction xs arbitrary: i)
  case (Cons x xs)
  show ?case
  proof (cases i)
    case (Suc j)
    then have "x \<le> xs ! j" using Cons.prems by simp
    then have "xs ! j < w \<Longrightarrow> x < w" by (rule le_less_trans)
    then show ?thesis using Cons.IH [of j] Cons.prems Suc by auto
  qed simp
qed simp

lemma less_class_of: "i < 48 \<Longrightarrow> SLABCLASS_SIZES ! i < sz \<longleftrightarrow> i < class_of sz"
  using nth_less_takeWhile [OF sorted_sizes, of i sz] by (simp add: class_of_def n_sizes)

lemma class_of_le: "class_of sz \<le> 48"
  using length_takeWhile_le [of "\<lambda>s. s < sz" SLABCLASS_SIZES] by (simp add: class_of_def n_sizes)

lemma find_slabclass_loop_correct:
  "imin \<le> class_of sz \<Longrightarrow> class_of sz \<le> imax \<Longrightarrow> imax \<le> 48 \<Longrightarrow>
    find_slabclass_loop sz imin imax = (if class_of sz < 48 then Inr (class_of sz) else Inl Out_of_bounds)"
proof (induction sz imin imax rule: find_slabclass_loop.induct)
  case (1 sz imin imax)
  let ?id = "(imin + imax) div 2"
  show ?case
  proof (cases "?id < 48")
    case False
    then have "class_of sz = 48" using "1.prems" by linarith
    then show ?thesis using False "1.prems" by (subst find_slabclass_loop.simps) (simp add: n_sizes Let_def)
  next
    case True
    have le: "imin \<le> imax" using "1.prems" by simp
    consider (up) "?id < class_of sz" | (down) "class_of sz < ?id" | (found) "class_of sz = ?id" by linarith
    then show ?thesis
    proof cases
      case up
      then have "SLABCLASS_SIZES ! ?id < sz" using less_class_of [OF True] by simp
      then show ?thesis
        using "1.IH"(1) [OF le refl] "1.prems" up le True
        by (subst find_slabclass_loop.simps) (simp add: n_sizes Let_def)
    next
      case down
      then have "\<not> SLABCLASS_SIZES ! ?id < sz" "\<not> SLABCLASS_SIZES ! (?id - 1) < sz"
        using less_class_of [OF True, of sz] less_class_of [of "?id - 1" sz] True by simp_all
      then show ?thesis
        using "1.IH"(2) [OF le refl] "1.prems" down le True
        by (subst find_slabclass_loop.simps) (auto simp: n_sizes Let_def)
    next
      case found
      then have "\<not> SLABCLASS_SIZES ! ?id < sz" "0 < ?id \<Longrightarrow> SLABCLASS_SIZES ! (?id - 1) < sz"
        using less_class_of [OF True, of sz] less_class_of [of "?id - 1" sz] True by simp_all
      then show ?thesis
        using found le True by (subst find_slabclass_loop.simps) (auto simp: n_sizes Let_def)
    qed
  qed
qed

lemma find_slabclass_id_eq: "find_slabclass_id sz = (if class_of sz < 48 then Inr (class_of sz) else Inl Out_of_bounds)"
  using find_slabclass_loop_correct [of 0 sz 48] class_of_le by (simp add: find_slabclass_id_def N_SLABCLASS_def)

lemma class_of_less: "class_of sz < 48 \<longleftrightarrow> sz \<le> 3906250"
  using less_class_of [of 47 sz] class_of_le [of sz] by (auto simp: SLABCLASS_SIZES_def not_less)

text \<open>
  (C40) The binary search for the class of a size is right for every 32 bit size: up to 3906250 bytes it returns the
  class whose chunks are the smallest that hold the size, and it always ends. A larger size does not reach the
  message and the \<^verbatim>\<open>abort\<close>: the search starts with \<^verbatim>\<open>imax = N_SLABCLASS\<close> and reads the table one past its end.
\<close>

theorem find_slabclass_id_correct:
  "(\<exists>id < N_SLABCLASS. find_slabclass_id sz = Inr id \<and> sz \<le> SLABCLASS_SIZES ! id \<and> (\<forall>j < id. SLABCLASS_SIZES ! j < sz)) \<and> sz \<le> 3906250 \<or>
   find_slabclass_id sz = Inl Out_of_bounds \<and> 3906250 < sz"
proof (cases "sz \<le> 3906250")
  case True
  then have l: "class_of sz < 48" by (simp add: class_of_less)
  then have "\<not> SLABCLASS_SIZES ! class_of sz < sz" "\<forall>j < class_of sz. SLABCLASS_SIZES ! j < sz"
    using less_class_of [OF l, of sz] less_class_of [of _ sz] by auto
  then have "sz \<le> SLABCLASS_SIZES ! class_of sz" "\<forall>j < class_of sz. SLABCLASS_SIZES ! j < sz" by simp_all
  then show ?thesis using l True by (auto simp: find_slabclass_id_eq N_SLABCLASS_def)
next
  case False
  then show ?thesis by (auto simp: find_slabclass_id_eq class_of_less)
qed

theorem find_slabclass_id_correct_witness:
  "(\<exists>id < N_SLABCLASS. find_slabclass_id 100 = Inr id \<and> 100 \<le> SLABCLASS_SIZES ! id) \<and> find_slabclass_id 4000000 = Inl Out_of_bounds"
  using find_slabclass_id_correct [of 100] find_slabclass_id_correct [of 4000000] by auto

end
