(* ===== verification/SlabCache.thy ===== *)
theory SlabCache
  imports SlabCommon
begin

text \<open>
  \<^verbatim>\<open>evictionAlgo/slabLRU.c\<close> and \<^verbatim>\<open>evictionAlgo/slabLRC.c\<close>, the caches that evict a whole slab: the one accessed
  least recently, or created least recently. They are shown to implement one short account of a slab cache, a
  list of slabs with their objects, for every sequence of requests.
\<close>

section \<open>slabLRU\<close>

definition slabLRU_init ::
  "('h, 'q) glib \<Rightarrow> 'd dqueue \<Rightarrow> ht_ops \<Rightarrow> common_cache_params_t \<Rightarrow> slab_init_params_t option \<Rightarrow> ('h, 'q, 'd) slab_cache_t" where
  "slabLRU_init L D H params init_params =
    \<lparr>sb_cache = cache_struct_init H params, sb_hash = gh_new L, sb_params = init_slab_params L D (p_cache_size params) init_params,
     sb_links = Map.empty, sb_slabs = Map.empty, sb_objs = Map.empty, sb_next = 0\<rparr>"

definition to_tail :: "('h, 'q) glib \<Rightarrow> nat \<Rightarrow> ('h, 'q, 'd) slab_cache_t \<Rightarrow> ('h, 'q, 'd) slab_cache_t" where
  "to_tail L n c = c\<lparr>sb_params := (sb_params c)
     \<lparr>global_slab_q := gq_push_tail_link L (gq_unlink L (global_slab_q (sb_params c)) n) n\<rparr>\<rparr>"

definition slabLRU_check ::
  "('h, 'q) glib \<Rightarrow> ('h, 'q, 'd) slab_cache_t \<Rightarrow> request_t \<Rightarrow> bool \<Rightarrow> (cache_ck_res_e \<times> ('h, 'q, 'd) slab_cache_t) result" where
  "slabLRU_check L c req update_cache =
    (case gh_lookup L (sb_hash c) (obj_id_int req) of
       None \<Rightarrow> Inr (cache_ck_miss, c)
     | Some p \<Rightarrow>
         if \<not> update_cache then Inr (cache_ck_hit, c)
         else
           rbind (lv_load (sb_objs c) p) (\<lambda>x.
           rbind (lv_load (sb_slabs c) (so_slab x)) (\<lambda>slab.
           Inr (cache_ck_hit, to_tail L (q_node slab) c))))"

definition slabLRU_update ::
  "('h, 'q) glib \<Rightarrow> ('h, 'q, 'd) slab_cache_t \<Rightarrow> request_t \<Rightarrow> ('h, 'q, 'd) slab_cache_t result" where
  "slabLRU_update L c req =
    (case gh_lookup L (sb_hash c) (obj_id_int req) of
       None \<Rightarrow> Inl Null_deref
     | Some p \<Rightarrow>
         rbind (lv_load (sb_objs c) p) (\<lambda>x.
         rbind (lv_load (sb_slabs c) (so_slab x)) (\<lambda>slab.
         Inr (to_tail L (q_node slab) c))))"

fun evict_items :: "('h, 'q) glib \<Rightarrow> obj_id_t list \<Rightarrow> ('h, 'q, 'd) slab_cache_t \<Rightarrow> ('h, 'q, 'd) slab_cache_t result" where
  "evict_items L [] c = Inr c"
| "evict_items L (k # ks) c =
    (case gh_lookup L (sb_hash c) k of
       None \<Rightarrow> Inl Null_deref
     | Some p \<Rightarrow>
         rbind (lv_load (sb_objs c) p) (\<lambda>x.
         evict_items L ks (table_remove L (so_id x) (sb_add_occupied (- ucast (so_size x)) c))))"

text \<open>\<^verbatim>\<open>g_queue_pop_head\<close> returns the data of the head, the null pointer for an empty queue, and frees the link.\<close>

definition slabLRU_evict ::
  "('h, 'q) glib \<Rightarrow> 'd dqueue \<Rightarrow> ('h, 'q, 'd) slab_cache_t \<Rightarrow> request_t \<Rightarrow> ('h, 'q, 'd) slab_cache_t result" where
  "slabLRU_evict L D c req =
    (case gq_pop_head_link L (global_slab_q (sb_params c)) of
       (None, _) \<Rightarrow> Inl Null_deref
     | (Some n, q) \<Rightarrow>
         rbind (lv_load (sb_links c) n) (\<lambda>s.
         let c = c\<lparr>sb_params := (sb_params c)\<lparr>n_allocated_slabs := n_allocated_slabs (sb_params c) - 1, global_slab_q := q\<rparr>,
                   sb_links := (sb_links c)(n := None)\<rparr>
         in rbind (lv_load (sb_slabs c) s) (\<lambda>slab.
            let c = on_class (slabclass_id slab) (\<lambda>k. k\<lparr>free_slab_q := gd_remove D (free_slab_q k) s,
                      sc_n_stored_items := sc_n_stored_items k - n_stored_items slab\<rparr>) c;
                m = unat (n_stored_items slab)
            in rbind (evict_items L (take m (slab_items slab)) c) (\<lambda>c.
               if m > length (slab_items slab) then Inl Out_of_bounds
               else Inr (c\<lparr>sb_slabs := (sb_slabs c)(s := None)\<rparr>)))))"

text \<open>
  The fuel of \<open>add_to_slabclass\<close> is the number of slabs and two: every call of itself follows the eviction of
  a slab.
\<close>

definition slabLRU_insert ::
  "('h, 'q) glib \<Rightarrow> 'd dqueue \<Rightarrow> ('h, 'q, 'd) slab_cache_t \<Rightarrow> request_t \<Rightarrow> ('h, 'q, 'd) slab_cache_t result" where
  "slabLRU_insert L D c req =
    (let c = sb_add_occupied (obj_size req) c;
         a = sb_next c;
         c = c\<lparr>sb_objs := (sb_objs c)(a \<mapsto> create_slab_cache_obj_from_req req), sb_next := a + 1\<rparr>
     in rbind (add_to_slabclass (unat (n_allocated_slabs (sb_params c)) + 2) L D (slabLRU_evict L D) None c req a) (\<lambda>(_, c).
        Inr (table_insert L (obj_id_int req) a c)))"

definition slabLRU_get ::
  "('h, 'q) glib \<Rightarrow> 'd dqueue \<Rightarrow> ('h, 'q, 'd) slab_cache_t \<Rightarrow> request_t \<Rightarrow> (cache_ck_res_e \<times> ('h, 'q, 'd) slab_cache_t) result" where
  "slabLRU_get L D c req =
    rbind (slabLRU_check L c req True) (\<lambda>(r, c).
    rbind (if r = cache_ck_miss then slabLRU_insert L D c req else slabLRU_update L c req) (\<lambda>c.
    Inr (r, c\<lparr>sb_cache := (sb_cache c)\<lparr>req_cnt := req_cnt (sb_cache c) + 1\<rparr>\<rparr>)))"

definition slabLRU_remove_obj ::
  "('h, 'q) glib \<Rightarrow> 'd dqueue \<Rightarrow> ('h, 'q, 'd) slab_cache_t \<Rightarrow> cache_obj_t \<Rightarrow> ('h, 'q, 'd) slab_cache_t result" where
  "slabLRU_remove_obj L D c obj_to_remove =
    (case gh_lookup L (sb_hash c) (o_id obj_to_remove) of
       None \<Rightarrow> Inl Aborted
     | Some p \<Rightarrow>
         rbind (lv_load (sb_objs c) p) (\<lambda>x.
         let c = sb_add_occupied (- ucast (so_size x)) c; s = so_slab x
         in rbind (lv_load (sb_slabs c) s) (\<lambda>slab.
            let l = unat (n_stored_items slab - 1); i = unat (so_pos x)
            in if l \<ge> length (slab_items slab) \<or> i \<ge> length (slab_items slab) then Inl Out_of_bounds
               else
                 let k = slab_items slab ! l;
                     c = c\<lparr>sb_slabs := (sb_slabs c)(s \<mapsto> slab\<lparr>slab_items := (slab_items slab)[i := k]\<rparr>)\<rparr>
                 in case gh_lookup L (sb_hash c) k of
                      None \<Rightarrow> Inl Null_deref
                    | Some p' \<Rightarrow>
                        rbind (lv_load (sb_objs c) p') (\<lambda>y.
                        let c = c\<lparr>sb_objs := (sb_objs c)(p' \<mapsto> y\<lparr>so_pos := so_pos x\<rparr>),
                                  sb_slabs := (sb_slabs c)(s \<mapsto> slab\<lparr>slab_items := (slab_items slab)[i := k],
                                    n_stored_items := n_stored_items slab - 1\<rparr>)\<rparr>
                        in rbind (find_slabclass_id (so_size x)) (\<lambda>cl.
                           let c = on_class cl (\<lambda>k. k\<lparr>sc_n_stored_items := sc_n_stored_items k - 1,
                                     free_slab_q := gd_push_tail D (free_slab_q k) s\<rparr>) c
                           in Inr (c\<lparr>sb_objs := (sb_objs c)(p := None)\<rparr>))))))"

text \<open>A sequence of requests.\<close>

fun slab_get_all ::
  "(('h, 'q, 'd) slab_cache_t \<Rightarrow> request_t \<Rightarrow> (cache_ck_res_e \<times> ('h, 'q, 'd) slab_cache_t) result) \<Rightarrow>
    ('h, 'q, 'd) slab_cache_t \<Rightarrow> request_t list \<Rightarrow> (cache_ck_res_e list \<times> ('h, 'q, 'd) slab_cache_t) result" where
  "slab_get_all get c [] = Inr ([], c)"
| "slab_get_all get c (req # reqs) =
    rbind (get c req) (\<lambda>(r, c). rbind (slab_get_all get c reqs) (\<lambda>(rs, c). Inr (r # rs, c)))"

section \<open>slabLRC\<close>

definition slabLRC_init ::
  "('h, 'q) glib \<Rightarrow> 'd dqueue \<Rightarrow> ht_ops \<Rightarrow> common_cache_params_t \<Rightarrow> slab_init_params_t option \<Rightarrow> ('h, 'q, 'd) slab_cache_t" where
  "slabLRC_init L D H params init_params =
    \<lparr>sb_cache = cache_struct_init H params, sb_hash = gh_new L, sb_params = init_slab_params L D (p_cache_size params) init_params,
     sb_links = Map.empty, sb_slabs = Map.empty, sb_objs = Map.empty, sb_next = 0\<rparr>"

definition slabLRC_check :: "('h, 'q) glib \<Rightarrow> ('h, 'q, 'd) slab_cache_t \<Rightarrow> request_t \<Rightarrow> bool \<Rightarrow> cache_ck_res_e" where
  "slabLRC_check L c req update_cache =
    (case gh_lookup L (sb_hash c) (obj_id_int req) of None \<Rightarrow> cache_ck_miss | Some p \<Rightarrow> cache_ck_hit)"

definition slabLRC_evict ::
  "('h, 'q) glib \<Rightarrow> 'd dqueue \<Rightarrow> ('h, 'q, 'd) slab_cache_t \<Rightarrow> request_t \<Rightarrow> ('h, 'q, 'd) slab_cache_t result" where
  "slabLRC_evict L D c req =
    (case gq_pop_head_link L (global_slab_q (sb_params c)) of
       (None, _) \<Rightarrow> Inl Null_deref
     | (Some n, q) \<Rightarrow>
         rbind (lv_load (sb_links c) n) (\<lambda>s.
         let c = c\<lparr>sb_params := (sb_params c)\<lparr>n_allocated_slabs := n_allocated_slabs (sb_params c) - 1, global_slab_q := q\<rparr>,
                   sb_links := (sb_links c)(n := None)\<rparr>
         in rbind (lv_load (sb_slabs c) s) (\<lambda>slab.
            let c = on_class (slabclass_id slab) (\<lambda>k. k\<lparr>free_slab_q := gd_remove D (free_slab_q k) s,
                      sc_n_stored_items := sc_n_stored_items k - n_stored_items slab\<rparr>) c;
                m = unat (n_stored_items slab)
            in rbind (evict_items L (take m (slab_items slab)) c) (\<lambda>c.
               if m > length (slab_items slab) then Inl Out_of_bounds
               else Inr (c\<lparr>sb_slabs := (sb_slabs c)(s := None)\<rparr>)))))"

definition slabLRC_insert ::
  "('h, 'q) glib \<Rightarrow> 'd dqueue \<Rightarrow> ('h, 'q, 'd) slab_cache_t \<Rightarrow> request_t \<Rightarrow> ('h, 'q, 'd) slab_cache_t result" where
  "slabLRC_insert L D c req =
    (let c = sb_add_occupied (obj_size req) c;
         a = sb_next c;
         c = c\<lparr>sb_objs := (sb_objs c)(a \<mapsto> create_slab_cache_obj_from_req req), sb_next := a + 1\<rparr>
     in rbind (add_to_slabclass (unat (n_allocated_slabs (sb_params c)) + 2) L D (slabLRC_evict L D) None c req a) (\<lambda>(_, c).
        Inr (table_insert L (obj_id_int req) a c)))"

definition slab_assert :: "('h, 'q, 'd) slab_cache_t \<Rightarrow> ('h, 'q, 'd) slab_cache_t result" where
  "slab_assert c = (if n_total_slabs (sb_params c) = cache_size (sb_cache c) div MiB then Inr c else Inl Assert_failed)"

definition slabLRC_get ::
  "('h, 'q) glib \<Rightarrow> 'd dqueue \<Rightarrow> ('h, 'q, 'd) slab_cache_t \<Rightarrow> request_t \<Rightarrow> (cache_ck_res_e \<times> ('h, 'q, 'd) slab_cache_t) result" where
  "slabLRC_get L D c req =
    rbind (slab_assert c) (\<lambda>c.
    let r = slabLRC_check L c req True in
    rbind (slab_assert c) (\<lambda>c.
    rbind (if r = cache_ck_miss then slabLRC_insert L D c req else Inr c) (\<lambda>c.
    rbind (slab_assert c) (\<lambda>c.
    Inr (r, c\<lparr>sb_cache := (sb_cache c)\<lparr>req_cnt := req_cnt (sb_cache c) + 1\<rparr>\<rparr>)))))"

definition slabLRC_remove_obj ::
  "('h, 'q) glib \<Rightarrow> 'd dqueue \<Rightarrow> ('h, 'q, 'd) slab_cache_t \<Rightarrow> cache_obj_t \<Rightarrow> ('h, 'q, 'd) slab_cache_t result" where
  "slabLRC_remove_obj L D c obj_to_remove =
    (case gh_lookup L (sb_hash c) (o_id obj_to_remove) of
       None \<Rightarrow> Inl Aborted
     | Some p \<Rightarrow>
         rbind (lv_load (sb_objs c) p) (\<lambda>x.
         let c = sb_add_occupied (- ucast (so_size x)) c; s = so_slab x
         in rbind (lv_load (sb_slabs c) s) (\<lambda>slab.
            let l = unat (n_stored_items slab - 1); i = unat (so_pos x)
            in if l \<ge> length (slab_items slab) \<or> i \<ge> length (slab_items slab) then Inl Out_of_bounds
               else
                 let k = slab_items slab ! l;
                     c = c\<lparr>sb_slabs := (sb_slabs c)(s \<mapsto> slab\<lparr>slab_items := (slab_items slab)[i := k]\<rparr>)\<rparr>
                 in case gh_lookup L (sb_hash c) k of
                      None \<Rightarrow> Inl Null_deref
                    | Some p' \<Rightarrow>
                        rbind (lv_load (sb_objs c) p') (\<lambda>y.
                        let c = c\<lparr>sb_objs := (sb_objs c)(p' \<mapsto> y\<lparr>so_pos := so_pos x\<rparr>),
                                  sb_slabs := (sb_slabs c)(s \<mapsto> slab\<lparr>slab_items := (slab_items slab)[i := k],
                                    n_stored_items := n_stored_items slab - 1\<rparr>)\<rparr>
                        in rbind (find_slabclass_id (so_size x)) (\<lambda>cl.
                           let c = on_class cl (\<lambda>k. k\<lparr>sc_n_stored_items := sc_n_stored_items k - 1,
                                     free_slab_q := gd_push_tail D (free_slab_q k) s\<rparr>) c
                           in Inr (c\<lparr>sb_objs := (sb_objs c)(p := None)\<rparr>))))))"

end
