(* ===== verification/SlabProps.thy ===== *)
theory SlabProps
  imports SlabCache
begin

text \<open>
  The slab caches of \<open>SlabCache\<close> implement a short account of a slab cache: a list of slabs, each with its class
  and its objects, from the next slab to evict to the last one.
\<close>

section \<open>A slab cache as a list of slabs\<close>

type_synonym slabs = "(nat \<times> contents) list"

definition objects :: "slabs \<Rightarrow> contents" where
  "objects S = concat (map snd S)"

definition has_room :: "u64 \<Rightarrow> nat \<Rightarrow> nat \<times> contents \<Rightarrow> bool" where
  "has_room ss cl sl \<longleftrightarrow> fst sl = cl \<and> length (snd sl) < unat (slab_cap ss cl)"

text \<open>
  A new object goes into the slab of its class that has room (there is at most one). If there is none it gets
  a new slab, for which the first slab goes if there are \<open>N\<close> of them.
\<close>

definition slab_put :: "u64 \<Rightarrow> nat \<Rightarrow> obj_id_t \<times> u32 \<Rightarrow> slabs \<Rightarrow> slabs" where
  "slab_put ss N x S =
    (let room = has_room ss (class_of (snd x)) in
     if list_ex room S then map (\<lambda>sl. if room sl then (fst sl, snd sl @ [x]) else sl) S
     else (if length S < N then S else tl S) @ [(class_of (snd x), [x])])"

text \<open>An access of an LRU cache makes the slab of the object the last one.\<close>

definition slab_touch :: "obj_id_t \<Rightarrow> slabs \<Rightarrow> slabs" where
  "slab_touch k S = filter (\<lambda>sl. \<not> cached k (snd sl)) S @ filter (\<lambda>sl. cached k (snd sl)) S"

definition slab_spec_get :: "bool \<Rightarrow> u64 \<Rightarrow> nat \<Rightarrow> obj_id_t \<times> u32 \<Rightarrow> slabs \<Rightarrow> cache_ck_res_e \<times> slabs" where
  "slab_spec_get lru ss N x S =
    (if cached (fst x) (objects S) then (cache_ck_hit, if lru then slab_touch (fst x) S else S)
     else (cache_ck_miss, slab_put ss N x S))"

fun slab_spec_run :: "bool \<Rightarrow> u64 \<Rightarrow> nat \<Rightarrow> (obj_id_t \<times> u32) list \<Rightarrow> slabs \<Rightarrow> cache_ck_res_e list \<times> slabs" where
  "slab_spec_run lru ss N [] S = ([], S)"
| "slab_spec_run lru ss N (x # xs) S =
    (let (r, S) = slab_spec_get lru ss N x S; (rs, S) = slab_spec_run lru ss N xs S in (r # rs, S))"

lemma objects_simps [simp]:
  "objects [] = []" "objects (sl # S) = snd sl @ objects S" "objects (S @ T) = objects S @ objects T"
  by (simp_all add: objects_def)

lemma cached_simps [simp]:
  "\<not> cached k []" "cached k (x # xs) \<longleftrightarrow> k = fst x \<or> cached k xs" "cached k (xs @ ys) \<longleftrightarrow> cached k xs \<or> cached k ys"
  by (auto simp: cached_def)

lemma cached_objects: "cached k (objects S) \<longleftrightarrow> (\<exists>sl \<in> set S. cached k (snd sl))"
  by (induction S) auto

section \<open>How a cache represents it\<close>

text \<open>An entry \<open>((n, s), cl, xs)\<close>: the link \<open>n\<close> of the queue of slabs, the slab at \<open>s\<close>, its class and objects.\<close>

type_synonym slab_entry = "(nat \<times> nat) \<times> (nat \<times> contents)"

abbreviation node :: "slab_entry \<Rightarrow> nat" where "node e \<equiv> fst (fst e)"
abbreviation addr :: "slab_entry \<Rightarrow> nat" where "addr e \<equiv> snd (fst e)"

definition slab_obj :: "('h, 'q) glib \<Rightarrow> ('h, 'q, 'd) slab_cache_t \<Rightarrow> nat \<Rightarrow> nat \<Rightarrow> obj_id_t \<times> u32 \<Rightarrow> bool" where
  "slab_obj L c s i y \<longleftrightarrow> (\<exists>p t. gh_lookup L (sb_hash c) (fst y) = Some p \<and> p < sb_next c \<and>
     sb_objs c p = Some \<lparr>so_id = fst y, so_size = snd y, so_access_time = t, so_slab = s, so_pos = of_nat i\<rparr>)"

definition slab_ok :: "('h, 'q) glib \<Rightarrow> ('h, 'q, 'd) slab_cache_t \<Rightarrow> slab_entry \<Rightarrow> bool" where
  "slab_ok L c e = (case e of ((n, s), (cl, xs)) \<Rightarrow>
     sb_links c n = Some s \<and> n < sb_next c \<and> s < sb_next c \<and> cl < 48 \<and>
     (\<exists>free. sb_slabs c s = Some \<lparr>slabclass_id = cl, n_total_items = slab_cap (slab_size (sb_params c)) cl,
         n_stored_items = of_nat (length xs), q_node = n, slab_items = map fst xs @ free\<rparr> \<and>
       length xs + length free = unat (slab_cap (slab_size (sb_params c)) cl)) \<and>
     (\<forall>i < length xs. slab_obj L c s i (xs ! i)))"

definition class_ok :: "'d dqueue \<Rightarrow> ('h, 'q, 'd) slab_cache_t \<Rightarrow> slab_entry list \<Rightarrow> nat \<Rightarrow> bool" where
  "class_ok D c es cl \<longleftrightarrow> (let fs = filter (\<lambda>e. has_room (slab_size (sb_params c)) cl (snd e)) es; k = slabclasses (sb_params c) ! cl in
     gd_items D (free_slab_q k) = map addr fs \<and> length fs \<le> 1 \<and>
     sc_n_stored_items k = of_nat (length (objects (filter (\<lambda>sl. fst sl = cl) (map snd es)))))"

text \<open>\<open>d\<close> is what the occupied size counts beyond the objects of the slabs, while an insertion is under way.\<close>

definition slab_at :: "('h, 'q) glib \<Rightarrow> 'd dqueue \<Rightarrow> u64 \<Rightarrow> ('h, 'q, 'd) slab_cache_t \<Rightarrow> slab_entry list \<Rightarrow> bool" where
  "slab_at L D d c es \<longleftrightarrow> gq_links L (global_slab_q (sb_params c)) = map node es \<and>
    distinct (map node es) \<and> distinct (map addr es) \<and> (\<forall>e \<in> set es. slab_ok L c e) \<and>
    distinct (map fst (objects (map snd es))) \<and>
    (\<forall>k. gh_lookup L (sb_hash c) k \<noteq> None \<longrightarrow> cached k (objects (map snd es))) \<and>
    length (slabclasses (sb_params c)) = 48 \<and> (\<forall>cl < 48. class_ok D c es cl) \<and>
    n_allocated_slabs (sb_params c) = of_nat (length es) \<and> length es \<le> unat (n_total_slabs (sb_params c)) \<and>
    occupied_size (sb_cache c) = of_nat (total_size (objects (map snd es))) + d"

definition slab_rep :: "('h, 'q) glib \<Rightarrow> 'd dqueue \<Rightarrow> ('h, 'q, 'd) slab_cache_t \<Rightarrow> slabs \<Rightarrow> bool" where
  "slab_rep L D c S \<longleftrightarrow> (\<exists>es. slab_at L D 0 c es \<and> S = map snd es)"

lemma slab_atD:
  assumes "slab_at L D d c es"
  shows "gq_links L (global_slab_q (sb_params c)) = map node es" "distinct (map node es)" "distinct (map addr es)"
    "e \<in> set es \<Longrightarrow> slab_ok L c e" "distinct (map fst (objects (map snd es)))"
    "gh_lookup L (sb_hash c) k = Some p \<Longrightarrow> cached k (objects (map snd es))"
    "length (slabclasses (sb_params c)) = 48" "cl < 48 \<Longrightarrow> class_ok D c es cl"
    "n_allocated_slabs (sb_params c) = of_nat (length es)" "length es \<le> unat (n_total_slabs (sb_params c))"
    "occupied_size (sb_cache c) = of_nat (total_size (objects (map snd es))) + d"
  using assms unfolding slab_at_def by auto

lemma slab_ok_frame:
  assumes "slab_ok L c e" "sb_links c' (node e) = sb_links c (node e)" "sb_slabs c' (addr e) = sb_slabs c (addr e)"
    "sb_next c \<le> sb_next c'" "slab_size (sb_params c') = slab_size (sb_params c)"
    "\<And>k p. cached k (snd (snd e)) \<Longrightarrow> gh_lookup L (sb_hash c) k = Some p \<Longrightarrow>
      gh_lookup L (sb_hash c') k = Some p \<and> (p < sb_next c \<longrightarrow> sb_objs c' p = sb_objs c p)"
  shows "slab_ok L c' e"
proof -
  obtain n s cl xs where e: "e = ((n, s), (cl, xs))" by (metis surj_pair)
  have "slab_obj L c' s i (xs ! i)" if i: "i < length xs" for i
  proof -
    obtain p t where p: "gh_lookup L (sb_hash c) (fst (xs ! i)) = Some p" "p < sb_next c"
      "sb_objs c p = Some \<lparr>so_id = fst (xs ! i), so_size = snd (xs ! i), so_access_time = t, so_slab = s, so_pos = of_nat i\<rparr>"
      using assms(1) i by (auto simp: slab_ok_def slab_obj_def e)
    have "cached (fst (xs ! i)) (snd (snd e))" using i by (simp add: cached_def e)
    from assms(6) [OF this p(1)] show ?thesis using p assms(4) by (auto simp: slab_obj_def)
  qed
  then show ?thesis using assms(1-5) by (auto simp: slab_ok_def e)
qed

text \<open>The object of an id that is cached.\<close>

lemma slab_lookup:
  assumes "slab_at L D d c es" "cached k (objects (map snd es))"
  obtains A n s cl xs B i p x where "es = A @ ((n, s), (cl, xs)) # B" "i < length xs" "fst (xs ! i) = k"
    "gh_lookup L (sb_hash c) k = Some p" "sb_objs c p = Some x" "so_id x = k" "so_size x = snd (xs ! i)" "so_slab x = s"
proof -
  obtain e where e: "e \<in> set es" "cached k (snd (snd e))" using assms(2) by (auto simp: cached_objects)
  obtain n s cl xs where e': "e = ((n, s), (cl, xs))" by (metis surj_pair)
  obtain A B where "es = A @ e # B" using e(1) by (metis split_list)
  moreover obtain i where i: "i < length xs" "fst (xs ! i) = k" using e(2) by (auto simp: e' cached_def in_set_conv_nth)
  moreover have "slab_obj L c s i (xs ! i)" using slab_atD(4) [OF assms(1) e(1)] i(1) by (simp add: slab_ok_def e')
  ultimately show thesis using that e' unfolding slab_obj_def by auto
qed

lemma lookup_iff: "slab_at L D d c es \<Longrightarrow> gh_lookup L (sb_hash c) k = None \<longleftrightarrow> \<not> cached k (objects (map snd es))"
  by (metis slab_atD(6) slab_lookup not_None_eq)

section \<open>The operations\<close>

lemma on_class_simps [simp]:
  "sb_cache (on_class cl f c) = sb_cache c" "sb_hash (on_class cl f c) = sb_hash c" "sb_links (on_class cl f c) = sb_links c"
  "sb_slabs (on_class cl f c) = sb_slabs c" "sb_objs (on_class cl f c) = sb_objs c" "sb_next (on_class cl f c) = sb_next c"
  "slab_size (sb_params (on_class cl f c)) = slab_size (sb_params c)"
  "n_total_slabs (sb_params (on_class cl f c)) = n_total_slabs (sb_params c)"
  "n_allocated_slabs (sb_params (on_class cl f c)) = n_allocated_slabs (sb_params c)"
  "global_slab_q (sb_params (on_class cl f c)) = global_slab_q (sb_params c)"
  "length (slabclasses (sb_params (on_class cl f c))) = length (slabclasses (sb_params c))"
  by (simp_all add: on_class_def)

lemma on_class_nth [simp]:
  "cl < length (slabclasses (sb_params c)) \<Longrightarrow> slabclasses (sb_params (on_class cl f c)) ! j =
    (if j = cl then f (slabclasses (sb_params c) ! cl) else slabclasses (sb_params c) ! j)"
  by (simp add: on_class_def nth_list_update)

lemma table_remove_lookup [simp]:
  "glib_ok L \<Longrightarrow> gh_lookup L (sb_hash (table_remove L k c)) j = (if j = k then None else gh_lookup L (sb_hash c) j)"
  by (simp add: table_remove_def drop_value_def glib_ok_def split: option.splits)

lemma table_insert_lookup [simp]:
  "glib_ok L \<Longrightarrow> gh_lookup L (sb_hash (table_insert L k p c)) j = (if j = k then Some p else gh_lookup L (sb_hash c) j)"
  by (simp add: table_insert_def drop_value_def glib_ok_def split: option.splits)

lemma table_simps [simp]:
  "sb_cache (table_remove L k c) = sb_cache c" "sb_params (table_remove L k c) = sb_params c" "sb_links (table_remove L k c) = sb_links c"
  "sb_slabs (table_remove L k c) = sb_slabs c" "sb_next (table_remove L k c) = sb_next c"
  "sb_cache (table_insert L k p c) = sb_cache c" "sb_params (table_insert L k p c) = sb_params c" "sb_links (table_insert L k p c) = sb_links c"
  "sb_slabs (table_insert L k p c) = sb_slabs c" "sb_next (table_insert L k p c) = sb_next c"
  by (simp_all add: table_remove_def table_insert_def drop_value_def split: option.splits)

lemma sb_add_occupied_simps [simp]:
  "sb_cache (sb_add_occupied d c) = (sb_cache c)\<lparr>occupied_size := occupied_size (sb_cache c) + d\<rparr>"
  "sb_hash (sb_add_occupied d c) = sb_hash c" "sb_links (sb_add_occupied d c) = sb_links c"
  "sb_slabs (sb_add_occupied d c) = sb_slabs c" "sb_objs (sb_add_occupied d c) = sb_objs c" "sb_next (sb_add_occupied d c) = sb_next c"
  "sb_params (sb_add_occupied d c) = sb_params c"
  by (simp_all add: sb_add_occupied_def)

text \<open>What the eviction of a slab leaves of the cache outside the queues and counters.\<close>

definition dropped :: "('h, 'q) glib \<Rightarrow> contents \<Rightarrow> ('h, 'q, 'd) slab_cache_t \<Rightarrow> ('h, 'q, 'd) slab_cache_t \<Rightarrow> bool" where
  "dropped L xs c c' \<longleftrightarrow>
    sb_cache c' = (sb_cache c)\<lparr>occupied_size := occupied_size (sb_cache c) - of_nat (total_size xs)\<rparr> \<and>
    sb_params c' = sb_params c \<and> sb_links c' = sb_links c \<and> sb_slabs c' = sb_slabs c \<and> sb_next c' = sb_next c \<and>
    (\<forall>k. gh_lookup L (sb_hash c') k = (if cached k xs then None else gh_lookup L (sb_hash c) k)) \<and>
    (\<forall>p. (\<forall>k. cached k xs \<longrightarrow> gh_lookup L (sb_hash c) k \<noteq> Some p) \<longrightarrow> sb_objs c' p = sb_objs c p)"

lemma evict_items_drop:
  assumes "glib_ok L" "distinct (map fst xs)"
    "\<And>y. y \<in> set xs \<Longrightarrow> \<exists>p x. gh_lookup L (sb_hash c) (fst y) = Some p \<and> sb_objs c p = Some x \<and> so_id x = fst y \<and> so_size x = snd y"
  shows "\<exists>c'. evict_items L (map fst xs) c = Inr c' \<and> dropped L xs c c'"
  using assms(2,3)
proof (induction xs arbitrary: c)
  case Nil
  then show ?case by (simp add: dropped_def)
next
  case (Cons y xs)
  obtain p x where p: "gh_lookup L (sb_hash c) (fst y) = Some p" "sb_objs c p = Some x" "so_id x = fst y" "so_size x = snd y"
    using Cons.prems(2) [of y] by auto
  let ?c = "table_remove L (fst y) (sb_add_occupied (- ucast (snd y)) c)"
  have objs: "sb_objs ?c = (sb_objs c)(p := None)" using p(1) by (simp add: table_remove_def drop_value_def)
  have "\<exists>q x'. gh_lookup L (sb_hash ?c) (fst z) = Some q \<and> sb_objs ?c q = Some x' \<and> so_id x' = fst z \<and> so_size x' = snd z"
    if z: "z \<in> set xs" for z
  proof -
    have "fst z \<noteq> fst y" using Cons.prems(1) z by (metis distinct.simps(2) image_eqI list.set_map list.simps(9))
    moreover obtain q x' where "gh_lookup L (sb_hash c) (fst z) = Some q" "sb_objs c q = Some x'" "so_id x' = fst z" "so_size x' = snd z"
      using Cons.prems(2) [of z] z by auto
    ultimately show ?thesis using p assms(1) by (auto simp: objs)
  qed
  then obtain c' where c': "evict_items L (map fst xs) ?c = Inr c'" "dropped L xs ?c c'"
    using Cons.IH [of ?c] Cons.prems(1) by auto
  have "sb_cache c' = (sb_cache c)\<lparr>occupied_size := occupied_size (sb_cache c) - of_nat (total_size (y # xs))\<rparr>"
    using c'(2) by (simp add: dropped_def)
  moreover have "\<not> cached (fst y) xs" using Cons.prems(1) by (simp add: cached_def)
  ultimately have "dropped L (y # xs) c c'" using c'(2) p(1) assms(1) by (auto simp: dropped_def objs)
  then show ?case using c'(1) p by (auto simp: lv_load_def)
qed

text \<open>What an operation keeps: the sizes, and the objects the table does not know.\<close>

definition slab_same :: "('h, 'q, 'd) slab_cache_t \<Rightarrow> ('h, 'q, 'd) slab_cache_t \<Rightarrow> bool" where
  "slab_same c c' \<longleftrightarrow> cache_size (sb_cache c') = cache_size (sb_cache c) \<and>
    slab_size (sb_params c') = slab_size (sb_params c) \<and> n_total_slabs (sb_params c') = n_total_slabs (sb_params c) \<and>
    sb_next c \<le> sb_next c'"

definition slab_keeps :: "('h, 'q) glib \<Rightarrow> ('h, 'q, 'd) slab_cache_t \<Rightarrow> ('h, 'q, 'd) slab_cache_t \<Rightarrow> bool" where
  "slab_keeps L c c' \<longleftrightarrow>
    (\<forall>p. (\<forall>k. gh_lookup L (sb_hash c) k \<noteq> Some p) \<longrightarrow> sb_objs c' p = sb_objs c p \<and> (\<forall>k. gh_lookup L (sb_hash c') k \<noteq> Some p))"

lemma slab_at_length:
  assumes "slab_at L D d c es" "((n, s), (cl, xs)) \<in> set es"
  shows "unat (of_nat (length xs) :: u32) = length xs" "length xs < 2 ^ 32" "length xs \<le> unat (slab_cap (slab_size (sb_params c)) cl)"
proof -
  show le: "length xs \<le> unat (slab_cap (slab_size (sb_params c)) cl)"
    using slab_atD(4) [OF assms] by (auto simp: slab_ok_def)
  then show "length xs < 2 ^ 32" using unat_u32_less le_less_trans by blast
  then show "unat (of_nat (length xs) :: u32) = length xs" by (simp add: unat_of_nat)
qed

lemma objs_differ:
  assumes "slab_at L D d c es" "gh_lookup L (sb_hash c) k = Some p" "gh_lookup L (sb_hash c) j = Some p"
  shows "k = j"
proof -
  have "cached k (objects (map snd es))" "cached j (objects (map snd es))" using slab_atD(6) [OF assms(1)] assms(2,3) by blast+
  then show ?thesis using slab_lookup [OF assms(1), of k] slab_lookup [OF assms(1), of j] assms(2,3) by (metis option.inject)
qed

lemma slab_entry_obj:
  assumes "slab_at L D d c es" "((n, s), (cl, xs)) \<in> set es" "y \<in> set xs"
  shows "\<exists>p x. gh_lookup L (sb_hash c) (fst y) = Some p \<and> sb_objs c p = Some x \<and> so_id x = fst y \<and> so_size x = snd y \<and> so_slab x = s"
proof -
  obtain i where i: "i < length xs" "xs ! i = y" using assms(3) by (auto simp: in_set_conv_nth)
  have "slab_obj L c s i (xs ! i)" using slab_atD(4) [OF assms(1,2)] i(1) by (auto simp: slab_ok_def)
  then show ?thesis using i(2) by (auto simp: slab_obj_def)
qed

lemma class_ok_drop:
  assumes "dq_ok D" "class_ok D c (((n, s), (cl, xs)) # es) j" "s \<notin> addr ` set es"
    "slab_size (sb_params c') = slab_size (sb_params c)"
    "slabclasses (sb_params c') ! j = (if j = cl then (slabclasses (sb_params c) ! j)\<lparr>free_slab_q := gd_remove D (free_slab_q (slabclasses (sb_params c) ! j)) s,
       sc_n_stored_items := sc_n_stored_items (slabclasses (sb_params c) ! j) - of_nat (length xs)\<rparr> else slabclasses (sb_params c) ! j)"
  shows "class_ok D c' es j"
proof -
  let ?fs = "filter (\<lambda>e. has_room (slab_size (sb_params c)) j (snd e)) es"
  have "s \<notin> set (map addr ?fs)" using assms(3) by auto
  then have "remove1 s (map addr ?fs) = map addr ?fs" by (rule remove1_idem)
  then show ?thesis using assms by (auto simp: class_ok_def Let_def dq_ok_def has_room_def split: if_splits)
qed

lemma slabLRU_evict_correct:
  assumes L: "glib_ok L" and D: "dq_ok D" and c: "slab_at L D d c (e # es)"
  shows "\<exists>c'. slabLRU_evict L D c req = Inr c' \<and> slab_at L D d c' es \<and> slab_same c c' \<and> slab_keeps L c c'"
proof -
  obtain n s cl xs where e: "e = ((n, s), (cl, xs))" by (metis surj_pair)
  have mem: "((n, s), (cl, xs)) \<in> set (e # es)" by (simp add: e)
  let ?ss = "slab_size (sb_params c)"
  obtain free where ok: "sb_links c n = Some s" "cl < 48" "sb_slabs c s = Some \<lparr>slabclass_id = cl, n_total_items = slab_cap ?ss cl,
       n_stored_items = of_nat (length xs), q_node = n, slab_items = map fst xs @ free\<rparr>"
    using slab_atD(4) [OF c mem] by (auto simp: slab_ok_def)
  obtain q where q: "gq_pop_head_link L (global_slab_q (sb_params c)) = (Some n, q)" "gq_links L q = map node es"
  proof -
    have "gq_links L (global_slab_q (sb_params c)) = n # map node es" using slab_atD(1) [OF c] e by simp
    then have "fst (gq_pop_head_link L (global_slab_q (sb_params c))) = Some n"
      "gq_links L (snd (gq_pop_head_link L (global_slab_q (sb_params c)))) = map node es"
      using L by (auto simp: glib_ok_def)
    then show thesis by (intro that [of "snd (gq_pop_head_link L (global_slab_q (sb_params c)))"]) (simp_all add: prod_eq_iff)
  qed
  note len = slab_at_length [OF c mem]
  let ?c1 = "c\<lparr>sb_params := (sb_params c)\<lparr>n_allocated_slabs := n_allocated_slabs (sb_params c) - 1, global_slab_q := q\<rparr>,
    sb_links := (sb_links c)(n := None)\<rparr>"
  let ?c2 = "on_class cl (\<lambda>k. k\<lparr>free_slab_q := gd_remove D (free_slab_q k) s,
    sc_n_stored_items := sc_n_stored_items k - of_nat (length xs)\<rparr>) ?c1"
  have dist: "distinct (map fst xs)" "\<And>k. cached k xs \<Longrightarrow> \<not> cached k (objects (map snd es))"
    using slab_atD(5) [OF c] by (auto simp: e cached_def)
  have "\<exists>p x. gh_lookup L (sb_hash ?c2) (fst y) = Some p \<and> sb_objs ?c2 p = Some x \<and> so_id x = fst y \<and> so_size x = snd y" if "y \<in> set xs" for y
    using slab_entry_obj [OF c mem that] by auto
  from evict_items_drop [OF L dist(1) this]
  obtain c3 where c3: "evict_items L (map fst xs) ?c2 = Inr c3" "dropped L xs ?c2 c3" by blast
  let ?c4 = "c3\<lparr>sb_slabs := (sb_slabs c3)(s := None)\<rparr>"
  have run: "slabLRU_evict L D c req = Inr ?c4" using q(1) ok len c3(1) by (simp add: slabLRU_evict_def lv_load_def Let_def)
  have f: "sb_params ?c4 = sb_params ?c2" "sb_next ?c4 = sb_next c" "sb_links ?c4 = (sb_links c)(n := None)" "sb_slabs ?c4 = (sb_slabs c)(s := None)"
    "sb_cache ?c4 = (sb_cache c)\<lparr>occupied_size := occupied_size (sb_cache c) - of_nat (total_size xs)\<rparr>"
    "\<And>k. gh_lookup L (sb_hash ?c4) k = (if cached k xs then None else gh_lookup L (sb_hash c) k)"
    "\<And>p. (\<And>k. cached k xs \<Longrightarrow> gh_lookup L (sb_hash c) k \<noteq> Some p) \<Longrightarrow> sb_objs ?c4 p = sb_objs c p"
    using c3(2) by (auto simp: dropped_def)
  have "slab_at L D d ?c4 es"
    unfolding slab_at_def
  proof (intro conjI ballI allI impI)
    show "gq_links L (global_slab_q (sb_params ?c4)) = map node es" using q(2) f(1) by simp
    show "distinct (map node es)" "distinct (map addr es)" "distinct (map fst (objects (map snd es)))"
      using slab_atD(2,3,5) [OF c] by simp_all
    show "length (slabclasses (sb_params ?c4)) = 48" using slab_atD(7) [OF c] f(1) by simp
    show "n_allocated_slabs (sb_params ?c4) = of_nat (length es)" "length es \<le> unat (n_total_slabs (sb_params ?c4))"
      using slab_atD(9,10) [OF c] f(1) by simp_all
    show "occupied_size (sb_cache ?c4) = of_nat (total_size (objects (map snd es))) + d" using slab_atD(11) [OF c] f(5) e by simp
    show "cached k (objects (map snd es))" if "gh_lookup L (sb_hash ?c4) k \<noteq> None" for k
      using that f(6) [of k] slab_atD(6) [OF c, of k] e by (auto split: if_splits)
    show "class_ok D ?c4 es j" if "j < 48" for j
    proof (rule class_ok_drop [OF D slab_atD(8) [OF c that, unfolded e]])
      show "s \<notin> addr ` set es" using slab_atD(3) [OF c] e by simp
    qed (use slab_atD(7) [OF c] ok(2) f(1) in simp_all)
    fix e'
    assume e': "e' \<in> set es"
    show "slab_ok L ?c4 e'"
    proof (rule slab_ok_frame)
      show "slab_ok L c e'" using slab_atD(4) [OF c] e' by simp
      have "node e' \<noteq> n" "addr e' \<noteq> s" using slab_atD(2,3) [OF c] e' e by auto
      then show "sb_links ?c4 (node e') = sb_links c (node e')" "sb_slabs ?c4 (addr e') = sb_slabs c (addr e')" using f(3,4) by simp_all
      fix k p
      assume k: "cached k (snd (snd e'))" "gh_lookup L (sb_hash c) k = Some p"
      have "cached k (objects (map snd es))" using k(1) e' by (auto simp: cached_objects)
      then have "\<not> cached k xs" using dist(2) by blast
      then show "gh_lookup L (sb_hash ?c4) k = Some p \<and> (p < sb_next c \<longrightarrow> sb_objs ?c4 p = sb_objs c p)"
        using f(6,7) k(2) objs_differ [OF c k(2)] by metis
    qed (use f(1,2) in simp_all)
  qed
  moreover have "slab_same c ?c4" unfolding slab_same_def f(1,2) using f(5) by simp
  moreover have "slab_keeps L c ?c4" unfolding slab_keeps_def using f(6,7) by simp
  ultimately show ?thesis using run by blast
qed

lemma allocate_slab_correct:
  assumes L: "glib_ok L" and D: "dq_ok D" and c: "slab_at L D d c es" and cl: "cl < 48" "0 < unat (slab_cap (slab_size (sb_params c)) cl)"
    and none: "\<forall>e \<in> set es. \<not> has_room (slab_size (sb_params c)) cl (snd e)" and lt: "length es < unat (n_total_slabs (sb_params c))"
  defines "s \<equiv> sb_next c"
  shows "\<exists>c'. allocate_slab L D c cl = (s, c') \<and> slab_at L D d c' (es @ [((s + 1, s), (cl, []))]) \<and> slab_same c c' \<and> slab_keeps L c c'"
proof -
  obtain c' where al: "allocate_slab L D c cl = (s, c')" by (simp add: allocate_slab_def Let_def s_def)
  let ?e = "((s + 1, s), (cl, [])) :: slab_entry" and ?n = "slab_cap (slab_size (sb_params c)) cl"
  have f: "sb_cache c' = sb_cache c" "sb_hash c' = sb_hash c" "sb_objs c' = sb_objs c" "sb_next c' = s + 2"
    "sb_links c' = (sb_links c)(s + 1 \<mapsto> s)"
    "sb_slabs c' = (sb_slabs c)(s \<mapsto> \<lparr>slabclass_id = cl, n_total_items = ?n, n_stored_items = 0, q_node = s + 1, slab_items = replicate (unat ?n) 0\<rparr>)"
    "slab_size (sb_params c') = slab_size (sb_params c)" "n_total_slabs (sb_params c') = n_total_slabs (sb_params c)"
    "n_allocated_slabs (sb_params c') = n_allocated_slabs (sb_params c) + 1"
    "global_slab_q (sb_params c') = gq_push_tail_link L (global_slab_q (sb_params c)) (s + 1)"
    "length (slabclasses (sb_params c')) = length (slabclasses (sb_params c))"
    using al by (auto simp: allocate_slab_def Let_def s_def)
  have k: "slabclasses (sb_params c') ! j = (if j = cl then (slabclasses (sb_params c) ! cl)\<lparr>free_slab_q := gd_push_tail D (free_slab_q (slabclasses (sb_params c) ! cl)) s,
      slab_q := gd_push_tail D (slab_q (slabclasses (sb_params c) ! cl)) s\<rparr> else slabclasses (sb_params c) ! j)" for j
    using al cl(1) slab_atD(7) [OF c] by (auto simp: allocate_slab_def Let_def s_def)
  have new: "node e < s \<and> addr e < s" if "e \<in> set es" for e using slab_atD(4) [OF c that] by (auto simp: slab_ok_def s_def)
  have "slab_at L D d c' (es @ [?e])"
    unfolding slab_at_def
  proof (intro conjI ballI allI impI)
    show "gq_links L (global_slab_q (sb_params c')) = map node (es @ [?e])" using slab_atD(1) [OF c] L by (simp add: f glib_ok_def)
    show "distinct (map node (es @ [?e]))" "distinct (map addr (es @ [?e]))" using slab_atD(2,3) [OF c] new by fastforce+
    show "distinct (map fst (objects (map snd (es @ [?e]))))" using slab_atD(5) [OF c] by simp
    show "length (slabclasses (sb_params c')) = 48" using slab_atD(7) [OF c] f by simp
    show "n_allocated_slabs (sb_params c') = of_nat (length (es @ [?e]))" "length (es @ [?e]) \<le> unat (n_total_slabs (sb_params c'))"
      using slab_atD(9) [OF c] lt by (simp_all add: f)
    show "occupied_size (sb_cache c') = of_nat (total_size (objects (map snd (es @ [?e])))) + d" using slab_atD(11) [OF c] by (simp add: f)
    show "cached k (objects (map snd (es @ [?e])))" if "gh_lookup L (sb_hash c') k \<noteq> None" for k
      using that slab_atD(6) [OF c, of k] by (auto simp: f)
    show "class_ok D c' (es @ [?e]) j" if "j < 48" for j
    proof (cases "j = cl")
      case True
      then have "filter (\<lambda>e. has_room (slab_size (sb_params c)) j (snd e)) es = []" using none by (simp add: filter_empty_conv)
      then show ?thesis using slab_atD(8) [OF c that] D cl(2) True by (simp add: class_ok_def Let_def f k dq_ok_def has_room_def)
    next
      case False
      then show ?thesis using slab_atD(8) [OF c that] by (simp add: class_ok_def Let_def f k has_room_def)
    qed
    fix e
    assume "e \<in> set (es @ [?e])"
    then consider "e \<in> set es" | "e = ?e" by auto
    then show "slab_ok L c' e"
    proof cases
      case 1
      show ?thesis by (rule slab_ok_frame [OF slab_atD(4) [OF c 1]]) (use new [OF 1] in \<open>simp_all add: f s_def\<close>)
    next
      case 2
      then show ?thesis using cl(1) by (simp add: slab_ok_def f)
    qed
  qed
  moreover have "slab_same c c'" "slab_keeps L c c'" by (simp_all add: slab_same_def slab_keeps_def f s_def)
  ultimately show ?thesis using al by blast
qed

lemma room_unique:
  assumes "slab_at L D d c (A @ e # B)" "cl < 48" "has_room (slab_size (sb_params c)) cl (snd e)"
  shows "filter (\<lambda>e. has_room (slab_size (sb_params c)) cl (snd e)) A = []" "filter (\<lambda>e. has_room (slab_size (sb_params c)) cl (snd e)) B = []"
    "gd_items D (free_slab_q (slabclasses (sb_params c) ! cl)) = [addr e]"
  using slab_atD(8) [OF assms(1,2)] assms(3) by (auto simp: class_ok_def Let_def)

lemma class_ok_store:
  assumes "dq_ok D" and c: "slab_at L D d c (A @ ((n, s), (cl, xs)) # B)" and j: "j < 48"
    and room: "has_room (slab_size (sb_params c)) cl (cl, xs)" "slab_size (sb_params c') = slab_size (sb_params c)"
    and free: "free_slab_q (slabclasses (sb_params c') ! cl) =
      (let q = free_slab_q (slabclasses (sb_params c) ! cl) in if unat (slab_cap (slab_size (sb_params c)) cl) = length xs + 1 then gd_pop_head D q else q)"
    and stored: "sc_n_stored_items (slabclasses (sb_params c') ! cl) = sc_n_stored_items (slabclasses (sb_params c) ! cl) + 1"
    and other: "j \<noteq> cl \<Longrightarrow> slabclasses (sb_params c') ! j = slabclasses (sb_params c) ! j"
  shows "class_ok D c' (A @ ((n, s), (cl, xs @ [y])) # B) j"
proof (cases "j = cl")
  case True
  let ?ss = "slab_size (sb_params c)"
  have r: "has_room ?ss cl (snd ((n, s), (cl, xs)))" using room(1) by simp
  have e: "has_room ?ss cl (cl, xs @ [y]) \<longleftrightarrow> unat (slab_cap ?ss cl) \<noteq> length xs + 1" using room(1) by (auto simp: has_room_def)
  note u = room_unique [OF c j [unfolded True] r]
  have pop: "gd_items D (gd_pop_head D (free_slab_q (slabclasses (sb_params c) ! cl))) = []" using assms(1) u(3) by (simp add: dq_ok_def)
  have "sc_n_stored_items (slabclasses (sb_params c) ! cl) = of_nat (length (objects (filter (\<lambda>sl. fst sl = cl) (map snd (A @ ((n, s), (cl, xs)) # B)))))"
    using slab_atD(8) [OF c j] True by (simp add: class_ok_def Let_def)
  then show ?thesis using True u pop by (simp add: class_ok_def Let_def room(2) e free stored)
next
  case False
  then show ?thesis using slab_atD(8) [OF c j] by (simp add: class_ok_def Let_def room(2) other has_room_def)
qed

lemma of_nat_Suc_u32:
  assumes "n < unat (w :: u32)"
  shows "w = of_nat n + 1 \<longleftrightarrow> unat w = n + 1"
proof -
  have "n + 1 < 2 ^ 32" using assms unat_u32_less [of w] by linarith
  then have "unat (of_nat (n + 1) :: u32) = n + 1" by (simp only: unat_of_nat) simp
  then show ?thesis by (simp add: word_unat_eq_iff add.commute)
qed

lemma store_obj_correct:
  assumes L: "glib_ok L" and D: "dq_ok D" and c: "slab_at L D d c (A @ ((n, s), (cl, xs)) # B)"
    and room: "has_room (slab_size (sb_params c)) cl (cl, xs)"
    and a: "sb_objs c a = Some x" "\<And>k. gh_lookup L (sb_hash c) k \<noteq> Some a" "a < sb_next c"
    and fresh: "\<not> cached (so_id x) (objects (map snd (A @ ((n, s), (cl, xs)) # B)))"
  shows "\<exists>c'. store_obj D c cl s a = Inr c' \<and> slab_same c c' \<and>
    slab_at L D (d - ucast (so_size x)) (table_insert L (so_id x) a c') (A @ ((n, s), (cl, xs @ [(so_id x, so_size x)])) # B)"
proof -
  let ?es = "A @ ((n, s), (cl, xs)) # B" and ?y = "(so_id x, so_size x)"
  let ?e = "((n, s), (cl, xs @ [?y]))" and ?n = "slab_cap (slab_size (sb_params c)) cl"
  have mem: "((n, s), (cl, xs)) \<in> set ?es" by simp
  note len = slab_at_length [OF c mem]
  have lt: "length xs < unat ?n" using room by (simp add: has_room_def)
  obtain free where ok: "sb_links c n = Some s" "n < sb_next c" "s < sb_next c" "cl < 48" "sb_slabs c s = Some \<lparr>slabclass_id = cl, n_total_items = ?n,
       n_stored_items = of_nat (length xs), q_node = n, slab_items = map fst xs @ free\<rparr>" "length xs + length free = unat ?n"
    and objs: "\<And>i. i < length xs \<Longrightarrow> slab_obj L c s i (xs ! i)"
    using slab_atD(4) [OF c mem] by (auto simp: slab_ok_def)
  obtain z free' where free: "free = z # free'" using lt ok(6) by (cases free) auto
  note full = of_nat_Suc_u32 [OF lt]
  obtain c1 where c1: "store_obj D c cl s a = Inr c1" using ok(5) a(1) len lt ok(6) by (simp add: store_obj_def lv_load_def Let_def)
  let ?c2 = "table_insert L (so_id x) a c1"
  have f1: "sb_cache c1 = sb_cache c" "sb_hash c1 = sb_hash c" "sb_objs c1 = (sb_objs c)(a \<mapsto> x\<lparr>so_slab := s, so_pos := of_nat (length xs)\<rparr>)"
    "sb_next c1 = sb_next c" "sb_links c1 = sb_links c"
    "sb_slabs c1 = (sb_slabs c)(s \<mapsto> \<lparr>slabclass_id = cl, n_total_items = ?n, n_stored_items = of_nat (length xs) + 1, q_node = n,
      slab_items = map fst (xs @ [?y]) @ free'\<rparr>)"
    "slab_size (sb_params c1) = slab_size (sb_params c)" "n_total_slabs (sb_params c1) = n_total_slabs (sb_params c)"
    "n_allocated_slabs (sb_params c1) = n_allocated_slabs (sb_params c)" "global_slab_q (sb_params c1) = global_slab_q (sb_params c)"
    "length (slabclasses (sb_params c1)) = 48"
    using c1 ok(5) a(1) len lt ok(6) free slab_atD(7) [OF c] by (auto simp: store_obj_def lv_load_def Let_def list_update_append)
  let ?q = "free_slab_q (slabclasses (sb_params c) ! cl)" and ?k = "sc_n_stored_items (slabclasses (sb_params c) ! cl)"
  have k: "free_slab_q (slabclasses (sb_params c1) ! cl) = (if unat ?n = length xs + 1 then gd_pop_head D ?q else ?q)"
    "sc_n_stored_items (slabclasses (sb_params c1) ! cl) = ?k + 1" "\<And>j. j \<noteq> cl \<Longrightarrow> slabclasses (sb_params c1) ! j = slabclasses (sb_params c) ! j"
    using c1 ok(4,5) a(1) len lt ok(6) slab_atD(7) [OF c] by (auto simp: store_obj_def lv_load_def Let_def full split: if_splits)
  have nl: "gh_lookup L (sb_hash c) (so_id x) = None" using fresh lookup_iff [OF c] by blast
  then have o2: "sb_objs ?c2 = sb_objs c1" by (simp add: table_insert_def drop_value_def f1)
  have h2: "gh_lookup L (sb_hash ?c2) j = (if j = so_id x then Some a else gh_lookup L (sb_hash c) j)" for j using L by (simp add: f1)
  have keep: "gh_lookup L (sb_hash ?c2) j = Some p \<and> sb_objs ?c2 p = sb_objs c p" if "gh_lookup L (sb_hash c) j = Some p" for j p
    using that nl a(2) by (auto simp: h2 o2 f1)
  have "slab_at L D (d - ucast (so_size x)) ?c2 (A @ ?e # B)"
    unfolding slab_at_def
  proof (intro conjI ballI allI impI)
    show "gq_links L (global_slab_q (sb_params ?c2)) = map node (A @ ?e # B)" using slab_atD(1) [OF c] by (simp add: f1)
    show "distinct (map node (A @ ?e # B))" "distinct (map addr (A @ ?e # B))" using slab_atD(2,3) [OF c] by simp_all
    show "distinct (map fst (objects (map snd (A @ ?e # B))))" using slab_atD(5) [OF c] fresh by (auto simp: cached_def)
    show "length (slabclasses (sb_params ?c2)) = 48" using f1 by simp
    show "n_allocated_slabs (sb_params ?c2) = of_nat (length (A @ ?e # B))" "length (A @ ?e # B) \<le> unat (n_total_slabs (sb_params ?c2))"
      using slab_atD(9,10) [OF c] by (simp_all add: f1)
    show "occupied_size (sb_cache ?c2) = of_nat (total_size (objects (map snd (A @ ?e # B)))) + (d - ucast (so_size x))"
      using slab_atD(11) [OF c] by (simp add: f1)
    show "cached j (objects (map snd (A @ ?e # B)))" if "gh_lookup L (sb_hash ?c2) j \<noteq> None" for j
      using that slab_atD(6) [OF c, of j] by (auto simp: h2 split: if_splits)
    show "class_ok D ?c2 (A @ ?e # B) j" if j: "j < 48" for j
      by (rule class_ok_store [OF D c j room]) (simp_all add: f1 k)
    fix e'
    assume "e' \<in> set (A @ ?e # B)"
    then consider "e' = ?e" | "e' \<in> set A \<union> set B" by auto
    then show "slab_ok L ?c2 e'"
    proof cases
      case 1
      have "slab_obj L ?c2 s i ((xs @ [?y]) ! i)" if "i < length (xs @ [?y])" for i
      proof (cases "i < length xs")
        case True
        then show ?thesis using objs [OF True] keep by (auto simp: slab_obj_def nth_append f1)
      next
        case False
        then have i: "i = length xs" using that by simp
        have xe: "x\<lparr>so_slab := s, so_pos := w\<rparr> = \<lparr>so_id = so_id x, so_size = so_size x, so_access_time = so_access_time x, so_slab = s, so_pos = w\<rparr>" for w
          by (cases x) simp
        show ?thesis using a(3) i by (simp add: slab_obj_def h2 o2 f1 xe)
      qed
      then show ?thesis using ok free 1 by (simp add: slab_ok_def f1)
    next
      case 2
      then have e': "e' \<in> set ?es" by auto
      have "addr e' \<noteq> s" using slab_atD(3) [OF c] 2 by auto
      then show ?thesis using keep by (intro slab_ok_frame [OF slab_atD(4) [OF c e']]) (simp_all add: f1)
    qed
  qed
  moreover have "slab_same c c1" by (simp add: slab_same_def f1)
  ultimately show ?thesis using c1 by blast
qed

text \<open>An object that is created but not yet in the table.\<close>

definition pending :: "('h, 'q) glib \<Rightarrow> ('h, 'q, 'd) slab_cache_t \<Rightarrow> nat \<Rightarrow> slab_cache_obj_t \<Rightarrow> bool" where
  "pending L c a x \<longleftrightarrow> sb_objs c a = Some x \<and> (\<forall>k. gh_lookup L (sb_hash c) k \<noteq> Some a) \<and> a < sb_next c"

lemma pending_keeps: "pending L c a x \<Longrightarrow> slab_same c c' \<Longrightarrow> slab_keeps L c c' \<Longrightarrow> pending L c' a x"
  by (auto simp: pending_def slab_same_def slab_keeps_def)

lemma slab_same_trans: "slab_same c c' \<Longrightarrow> slab_same c' c'' \<Longrightarrow> slab_same c c''"
  by (simp add: slab_same_def)

lemma no_room_peek:
  assumes "dq_ok D" "slab_at L D d c es" "cl < 48" "\<not> list_ex (has_room (slab_size (sb_params c)) cl) (map snd es)"
  shows "gd_peek_head D (free_slab_q (slabclasses (sb_params c) ! cl)) = None"
proof -
  have "filter (\<lambda>e. has_room (slab_size (sb_params c)) cl (snd e)) es = []" using assms(4) by (auto simp: filter_empty_conv list_ex_iff)
  then show ?thesis using slab_atD(8) [OF assms(2,3)] assms(1) by (simp add: class_ok_def dq_ok_def Let_def)
qed

lemma allocated_less:
  assumes "slab_at L D d c es"
  shows "n_allocated_slabs (sb_params c) < n_total_slabs (sb_params c) \<longleftrightarrow> length es < unat (n_total_slabs (sb_params c))"
proof -
  have "unat (n_total_slabs (sb_params c)) < 2 ^ 64" using unsigned_less [of "n_total_slabs (sb_params c)"] by simp
  then have "length es < 2 ^ 64" using slab_atD(10) [OF assms] by linarith
  then show ?thesis by (simp add: slab_atD(9) [OF assms] word_less_nat_alt)
qed

lemma slab_put_room:
  assumes "has_room ss (class_of (snd y)) (class_of (snd y), xs)" "\<forall>sl \<in> set A \<union> set B. \<not> has_room ss (class_of (snd y)) sl"
  shows "slab_put ss N y (A @ (class_of (snd y), xs) # B) = A @ (class_of (snd y), xs @ [y]) # B"
proof -
  have "map (\<lambda>sl. if has_room ss (class_of (snd y)) sl then (fst sl, snd sl @ [y]) else sl) S = S" if "set S \<subseteq> set A \<union> set B" for S
    using assms(2) that by (intro map_idI) auto
  from this [of A] this [of B] show ?thesis using assms(1) by (simp add: slab_put_def)
qed

text \<open>The two branches of \<open>add_to_slabclass\<close> that store the object; \<open>y\<close> is its id and size.\<close>

lemma add_stores:
  assumes L: "glib_ok L" and D: "dq_ok D" and c: "slab_at L D d c es" and x: "pending L c a x" "\<not> cached (so_id x) (objects (map snd es))"
    and req: "so_size x = size32 req" and cl: "cl = class_of (size32 req)" "cl < 48" "0 < unat (slab_cap (slab_size (sb_params c)) cl)"
    and space: "list_ex (has_room (slab_size (sb_params c)) cl) (map snd es) \<or> length es < unat (n_total_slabs (sb_params c))"
  defines "y \<equiv> (so_id x, so_size x)"
  shows "\<exists>c' es'. add_to_slabclass (Suc m) L D ev mv c req a = Inr (cl, c') \<and> slab_same c c' \<and>
    slab_at L D (d - ucast (so_size x)) (table_insert L (so_id x) a c') es' \<and>
    map snd es' = slab_put (slab_size (sb_params c)) (unat (n_total_slabs (sb_params c))) y (map snd es)"
proof (cases "list_ex (has_room (slab_size (sb_params c)) cl) (map snd es)")
  case True
  let ?r = "has_room (slab_size (sb_params c)) cl"
  obtain e where e: "e \<in> set es" "?r (snd e)" using True by (auto simp: list_ex_iff)
  obtain A B where es: "es = A @ e # B" using e(1) by (metis split_list)
  obtain n s xs where e': "e = ((n, s), (cl, xs))"
  proof -
    obtain n s j xs where "e = ((n, s), (j, xs))" by (metis surj_pair)
    then show thesis using that e(2) by (simp add: has_room_def)
  qed
  note u = room_unique [OF c [unfolded es] cl(2) e(2)]
  have p: "gd_peek_head D (free_slab_q (slabclasses (sb_params c) ! cl)) = Some s" using D u(3) e' by (simp add: dq_ok_def)
  obtain c' where c': "store_obj D c cl s a = Inr c'" "slab_same c c'"
    "slab_at L D (d - ucast (so_size x)) (table_insert L (so_id x) a c') (A @ ((n, s), (cl, xs @ [y])) # B)"
    using store_obj_correct [OF L D c [unfolded es e'], where a = a and x = x] e(2) e' x es by (auto simp: pending_def y_def)
  have "slab_put (slab_size (sb_params c)) N y (map snd es) = map snd (A @ ((n, s), (cl, xs @ [y])) # B)" for N
    using slab_put_room [of "slab_size (sb_params c)" y xs "map snd A" "map snd B" N] u(1,2) e(2) req cl(1)
    by (simp add: y_def es e' filter_empty_conv ball_Un)
  moreover have "add_to_slabclass (Suc m) L D ev mv c req a = Inr (cl, c')"
    using cl p c'(1) by (simp add: find_slabclass_id_eq Let_def)
  ultimately show ?thesis using c'(2,3) by metis
next
  case False
  let ?ss = "slab_size (sb_params c)" and ?s = "sb_next c"
  have lt: "length es < unat (n_total_slabs (sb_params c))" using space False by simp
  have none: "\<forall>e \<in> set es. \<not> has_room ?ss cl (snd e)" using False by (auto simp: list_ex_iff)
  obtain c1 where c1: "allocate_slab L D c cl = (?s, c1)" "slab_at L D d c1 (es @ [((?s + 1, ?s), (cl, []))])" "slab_same c c1" "slab_keeps L c c1"
    using allocate_slab_correct [OF L D c cl(2,3) none lt] by blast
  have x1: "pending L c1 a x" using pending_keeps [OF x(1) c1(3,4)] .
  have ss: "slab_size (sb_params c1) = ?ss" using c1(3) by (simp add: slab_same_def)
  obtain c' where c': "store_obj D c1 cl ?s a = Inr c'" "slab_same c1 c'"
    "slab_at L D (d - ucast (so_size x)) (table_insert L (so_id x) a c') (es @ [((?s + 1, ?s), (cl, [y]))])"
    using store_obj_correct [OF L D c1(2), where a = a and x = x] x1 x(2) cl(3) by (auto simp: pending_def y_def has_room_def ss)
  have "slab_put ?ss (unat (n_total_slabs (sb_params c))) y (map snd es) = map snd (es @ [((?s + 1, ?s), (cl, [y]))])"
    using False lt req cl(1) by (simp add: slab_put_def y_def)
  moreover have "add_to_slabclass (Suc m) L D ev mv c req a = Inr (cl, c')"
    using cl c1(1) c'(1) no_room_peek [OF D c cl(2) False] allocated_less [OF c] lt by (simp add: find_slabclass_id_eq Let_def)
  ultimately show ?thesis using c'(2,3) slab_same_trans [OF c1(3)] by metis
qed

lemma add_to_slabclass_correct:
  assumes L: "glib_ok L" and D: "dq_ok D" and c: "slab_at L D d c es" and x: "pending L c a x" "\<not> cached (so_id x) (objects (map snd es))"
    and req: "so_size x = size32 req" and cl: "cl = class_of (size32 req)" "cl < 48" "0 < unat (slab_cap (slab_size (sb_params c)) cl)"
    and N: "0 < unat (n_total_slabs (sb_params c))"
  defines "y \<equiv> (so_id x, so_size x)"
  shows "\<exists>c' es'. add_to_slabclass (Suc (Suc m)) L D (slabLRU_evict L D) None c req a = Inr (cl, c') \<and> slab_same c c' \<and>
    slab_at L D (d - ucast (so_size x)) (table_insert L (so_id x) a c') es' \<and>
    map snd es' = slab_put (slab_size (sb_params c)) (unat (n_total_slabs (sb_params c))) y (map snd es)"
proof (cases "list_ex (has_room (slab_size (sb_params c)) cl) (map snd es) \<or> length es < unat (n_total_slabs (sb_params c))")
  case True
  then show ?thesis using add_stores [OF L D c x req cl] y_def by blast
next
  case False
  obtain e es1 where es: "es = e # es1" using False N by (cases es) auto
  obtain c1 where c1: "slabLRU_evict L D c req = Inr c1" "slab_at L D d c1 es1" "slab_same c c1" "slab_keeps L c c1"
    using slabLRU_evict_correct [OF L D c [unfolded es]] by blast
  have same: "slab_size (sb_params c1) = slab_size (sb_params c)" "n_total_slabs (sb_params c1) = n_total_slabs (sb_params c)"
    using c1(3) by (simp_all add: slab_same_def)
  have lt: "length es1 < unat (n_total_slabs (sb_params c1))" using slab_atD(10) [OF c] es same(2) by simp
  have "\<not> cached (so_id x) (objects (map snd es1))" using x(2) es by simp
  then obtain c' es' where c': "add_to_slabclass (Suc m) L D (slabLRU_evict L D) None c1 req a = Inr (cl, c')" "slab_same c1 c'"
    "slab_at L D (d - ucast (so_size x)) (table_insert L (so_id x) a c') es'"
    "map snd es' = slab_put (slab_size (sb_params c)) (unat (n_total_slabs (sb_params c))) y (map snd es1)"
    using add_stores [OF L D c1(2) pending_keeps [OF x(1) c1(3,4)] _ req cl(1,2)] cl(3) lt y_def unfolding same by blast
  have "slab_put (slab_size (sb_params c)) (unat (n_total_slabs (sb_params c))) y (map snd es1) =
      slab_put (slab_size (sb_params c)) (unat (n_total_slabs (sb_params c))) y (map snd es)"
    using False lt es req cl(1) same by (simp add: slab_put_def y_def Let_def)
  moreover have "add_to_slabclass (Suc (Suc m)) L D (slabLRU_evict L D) None c req a = Inr (cl, c')"
    using cl c1(1) c'(1) no_room_peek [OF D c cl(2)] allocated_less [OF c] False
    by (simp add: find_slabclass_id_eq Let_def del: add_to_slabclass.simps(2)) (subst add_to_slabclass.simps(2), simp add: find_slabclass_id_eq Let_def)
  ultimately show ?thesis using c'(2-4) slab_same_trans [OF c1(3)] by metis
qed

lemma lookup_less:
  assumes "slab_at L D d c es" "gh_lookup L (sb_hash c) k = Some p"
  shows "p < sb_next c"
proof -
  obtain e where e: "e \<in> set es" "cached k (snd (snd e))" using slab_atD(6) [OF assms] by (auto simp: cached_objects)
  obtain n s cl xs where e': "e = ((n, s), (cl, xs))" by (metis surj_pair)
  obtain i where i: "i < length xs" "fst (xs ! i) = k" using e(2) by (auto simp: e' cached_def in_set_conv_nth)
  have "slab_obj L c s i (xs ! i)" using slab_atD(4) [OF assms(1) e(1)] i(1) by (simp add: slab_ok_def e')
  then show ?thesis using assms(2) i(2) by (auto simp: slab_obj_def)
qed

text \<open>A request the cache can store: its size is counted in full, and its class has slabs of at least one object.\<close>

definition slab_req :: "u64 \<Rightarrow> request_t \<Rightarrow> bool" where
  "slab_req ss req \<longleftrightarrow> fits req \<and> unat (obj_size req) \<le> 3906250 \<and> 0 < unat (slab_cap ss (class_of (size32 req)))"

lemma slab_req_class: "slab_req ss req \<Longrightarrow> class_of (size32 req) < 48"
  using fitsD(2) [of req] by (simp add: slab_req_def class_of_less word_le_nat_alt)

lemma slabLRU_insert_correct:
  assumes L: "glib_ok L" and D: "dq_ok D" and c: "slab_at L D 0 c es" and req: "slab_req (slab_size (sb_params c)) req"
    and fresh: "\<not> cached (obj_id_int req) (objects (map snd es))" and N: "0 < unat (n_total_slabs (sb_params c))"
  shows "\<exists>c'. slabLRU_insert L D c req = Inr c' \<and> slab_same c c' \<and>
    slab_rep L D c' (slab_put (slab_size (sb_params c)) (unat (n_total_slabs (sb_params c))) (obj_of req) (map snd es))"
proof -
  let ?a = "sb_next c" and ?x = "create_slab_cache_obj_from_req req"
  let ?c = "(sb_add_occupied (obj_size req) c)\<lparr>sb_objs := (sb_objs c)(?a \<mapsto> ?x), sb_next := ?a + 1\<rparr>"
  have x: "so_id ?x = obj_id_int req" "so_size ?x = size32 req" by (simp_all add: create_slab_cache_obj_from_req_def)
  have "class_ok D ?c es j \<longleftrightarrow> class_ok D c es j" for j by (simp add: class_ok_def)
  moreover have "slab_ok L ?c e" if "e \<in> set es" for e by (rule slab_ok_frame [OF slab_atD(4) [OF c that]]) simp_all
  ultimately have c0: "slab_at L D (obj_size req) ?c es" using c by (simp add: slab_at_def)
  have pend: "pending L ?c ?a ?x" using lookup_less [OF c] by (auto simp: pending_def)
  have cap: "0 < unat (slab_cap (slab_size (sb_params ?c)) (class_of (size32 req)))" "0 < unat (n_total_slabs (sb_params ?c))"
    using req N by (simp_all add: slab_req_def)
  have zero: "obj_size req - ucast (so_size ?x) = 0" using req by (simp add: x slab_req_def fitsD(3))
  obtain c' es' where c': "add_to_slabclass (Suc (Suc (unat (n_allocated_slabs (sb_params c))))) L D (slabLRU_evict L D) None ?c req ?a = Inr (class_of (size32 req), c')"
    "slab_same ?c c'" "slab_at L D (obj_size req - ucast (so_size ?x)) (table_insert L (so_id ?x) ?a c') es'"
    "map snd es' = slab_put (slab_size (sb_params ?c)) (unat (n_total_slabs (sb_params ?c))) (so_id ?x, so_size ?x) (map snd es)"
    using add_to_slabclass_correct [OF L D c0 pend _ x(2) refl slab_req_class [OF req] cap] fresh x(1) by metis
  let ?c2 = "table_insert L (obj_id_int req) ?a c'"
  have "slabLRU_insert L D c req = Inr ?c2" using c'(1) by (simp add: slabLRU_insert_def Let_def del: add_to_slabclass.simps)
  moreover have "slab_rep L D ?c2 (slab_put (slab_size (sb_params c)) (unat (n_total_slabs (sb_params c))) (obj_of req) (map snd es))"
    using c'(3,4) unfolding zero slab_rep_def by (auto simp: x obj_of_def)
  moreover have "slab_same c ?c2" using c'(2) by (simp add: slab_same_def)
  ultimately show ?thesis by blast
qed

lemma to_tail_correct:
  assumes L: "glib_ok L" and c: "slab_at L D d c (A @ e # B)"
  shows "slab_at L D d (to_tail L (node e) c) (A @ B @ [e])"
proof -
  let ?c = "to_tail L (node e) c"
  have f: "sb_cache ?c = sb_cache c" "sb_hash ?c = sb_hash c" "sb_objs ?c = sb_objs c" "sb_links ?c = sb_links c" "sb_slabs ?c = sb_slabs c"
    "sb_next ?c = sb_next c" "slab_size (sb_params ?c) = slab_size (sb_params c)" "slabclasses (sb_params ?c) = slabclasses (sb_params c)"
    "n_total_slabs (sb_params ?c) = n_total_slabs (sb_params c)" "n_allocated_slabs (sb_params ?c) = n_allocated_slabs (sb_params c)"
    by (simp_all add: to_tail_def)
  have "node e \<notin> node ` set A" using slab_atD(2) [OF c] by simp
  then have "remove1 (node e) (map node (A @ e # B)) = map node (A @ B)" by (simp add: remove1_append)
  moreover have "node e \<in> set (gq_links L (global_slab_q (sb_params c)))" using slab_atD(1) [OF c] by simp
  ultimately have q: "gq_links L (global_slab_q (sb_params ?c)) = map node (A @ B @ [e])"
    using L slab_atD(1) [OF c] by (simp add: to_tail_def glib_ok_def)
  have "class_ok D ?c (A @ B @ [e]) cl" if "cl < 48" for cl
    using slab_atD(8) [OF c that] by (auto simp: class_ok_def Let_def f add.commute add.left_commute split: if_splits)
  moreover have "slab_ok L ?c e'" if "e' \<in> set (A @ B @ [e])" for e'
  proof -
    have "slab_ok L c e'" by (rule slab_atD(4) [OF c]) (use that in auto)
    then show ?thesis by (rule slab_ok_frame) (simp_all add: f)
  qed
  moreover have "distinct (map node (A @ B @ [e]))" "distinct (map addr (A @ B @ [e]))" "distinct (map fst (objects (map snd (A @ B @ [e]))))"
    using slab_atD(2,3,5) [OF c] by auto
  moreover have "cached k (objects (map snd (A @ B @ [e])))" if "gh_lookup L (sb_hash c) k \<noteq> None" for k
    using that slab_atD(6) [OF c, of k] by auto
  ultimately show ?thesis using q slab_atD(7,9,10,11) [OF c] unfolding slab_at_def by (simp add: f)
qed

lemma slab_touch_split:
  assumes "distinct (map fst (objects (A @ sl # B)))" "cached k (snd sl)"
  shows "slab_touch k (A @ sl # B) = A @ B @ [sl]"
proof -
  have "k \<notin> set (map fst (objects A))" "k \<notin> set (map fst (objects B))" using assms by (auto simp: cached_def)
  then have "\<not> cached k (objects A)" "\<not> cached k (objects B)" by (simp_all add: cached_def)
  then have "filter (\<lambda>y. \<not> cached k (snd y)) S = S \<and> filter (\<lambda>y. cached k (snd y)) S = []" if "S = A \<or> S = B" for S
    using that by (auto simp: filter_id_conv filter_empty_conv cached_objects)
  then show ?thesis using assms(2) by (simp add: slab_touch_def)
qed

lemma slab_access:
  assumes "slab_at L D d c es" "cached k (objects (map snd es))"
  obtains A e B p x slab where "es = A @ e # B" "slab_touch k (map snd es) = map snd (A @ B @ [e])"
    "gh_lookup L (sb_hash c) k = Some p" "sb_objs c p = Some x" "sb_slabs c (so_slab x) = Some slab" "q_node slab = node e"
proof (rule slab_lookup [OF assms])
  fix A n s cl xs B i p x
  assume e: "es = A @ ((n, s), (cl, xs)) # B" "i < length xs" "fst (xs ! i) = k"
    "gh_lookup L (sb_hash c) k = Some p" "sb_objs c p = Some x" "so_slab x = s"
  have "cached k xs" using e(2,3) by (auto simp: cached_def)
  then have "slab_touch k (map snd es) = map snd (A @ B @ [((n, s), (cl, xs))])"
    using slab_touch_split [of "map snd A" "(cl, xs)" "map snd B" k] slab_atD(5) [OF assms(1)] e(1) by simp
  moreover obtain slab where "sb_slabs c s = Some slab" "q_node slab = n"
    using slab_atD(4) [OF assms(1), of "((n, s), (cl, xs))"] e(1) by (auto simp: slab_ok_def)
  ultimately show thesis using that e by auto
qed

section \<open>Sequences of requests\<close>

text \<open>
  What a slab algorithm promises of one request: on a cache with slabs, whose number of slabs is the one
  \<^verbatim>\<open>slabLRC_get\<close> asserts, it answers and changes the slabs as the account says.
\<close>

abbreviation "total_slabs c \<equiv> unat (n_total_slabs (sb_params c))"

locale slab_alg =
  fixes get :: "('h, 'q) glib \<Rightarrow> 'd dqueue \<Rightarrow> ('h, 'q, 'd) slab_cache_t \<Rightarrow> request_t \<Rightarrow> (cache_ck_res_e \<times> ('h, 'q, 'd) slab_cache_t) result"
    and lru :: bool
  assumes get_correct: "glib_ok L \<Longrightarrow> dq_ok D \<Longrightarrow> slab_rep L D c S \<Longrightarrow> n_total_slabs (sb_params c) = cache_size (sb_cache c) div MiB \<Longrightarrow>
    0 < total_slabs c \<Longrightarrow> slab_req (slab_size (sb_params c)) req \<Longrightarrow>
    \<exists>c'. get L D c req = Inr (fst (slab_spec_get lru (slab_size (sb_params c)) (total_slabs c) (obj_of req) S), c') \<and>
      slab_rep L D c' (snd (slab_spec_get lru (slab_size (sb_params c)) (total_slabs c) (obj_of req) S)) \<and> slab_same c c'"
begin

lemma run_correct:
  assumes "glib_ok L" "dq_ok D" "slab_rep L D c S" "n_total_slabs (sb_params c) = cache_size (sb_cache c) div MiB"
    "0 < total_slabs c" "\<forall>req \<in> set reqs. slab_req (slab_size (sb_params c)) req"
  shows "\<exists>c'. slab_get_all (get L D) c reqs = Inr (fst (slab_spec_run lru (slab_size (sb_params c)) (total_slabs c) (map obj_of reqs) S), c') \<and>
    slab_rep L D c' (snd (slab_spec_run lru (slab_size (sb_params c)) (total_slabs c) (map obj_of reqs) S)) \<and> slab_same c c'"
  using assms
proof (induction reqs arbitrary: c S)
  case Nil
  then show ?case by (simp add: slab_same_def)
next
  case (Cons req reqs)
  let ?ss = "slab_size (sb_params c)"
  obtain r T where s: "slab_spec_get lru ?ss (total_slabs c) (obj_of req) S = (r, T)" by fastforce
  obtain c1 where c1: "get L D c req = Inr (r, c1)" "slab_rep L D c1 T" "slab_same c c1"
    using get_correct [OF Cons.prems(1-5), of req] Cons.prems(6) s by auto
  have k: "slab_size (sb_params c1) = ?ss" "total_slabs c1 = total_slabs c" "n_total_slabs (sb_params c1) = cache_size (sb_cache c1) div MiB"
    using c1(3) Cons.prems(4) by (simp_all add: slab_same_def)
  show ?case
    using Cons.IH [OF Cons.prems(1,2) c1(2) k(3)] Cons.prems(5,6) c1(1,3) s slab_same_trans [OF c1(3)]
    by (auto simp: k(1,2) split: prod.splits)
qed

end

lemma slab_rep_count: "slab_rep L D (c\<lparr>sb_cache := (sb_cache c)\<lparr>req_cnt := n\<rparr>\<rparr>) S \<longleftrightarrow> slab_rep L D c S"
  by (simp add: slab_rep_def slab_at_def slab_ok_def slab_obj_def class_ok_def)

lemma slabLRU_get_correct:
  assumes L: "glib_ok L" and D: "dq_ok D" and c: "slab_at L D 0 c es" and N: "0 < total_slabs c" and req: "slab_req (slab_size (sb_params c)) req"
  shows "\<exists>c'. slabLRU_get L D c req = Inr (fst (slab_spec_get True (slab_size (sb_params c)) (total_slabs c) (obj_of req) (map snd es)), c') \<and>
    slab_rep L D c' (snd (slab_spec_get True (slab_size (sb_params c)) (total_slabs c) (obj_of req) (map snd es))) \<and> slab_same c c'"
proof (cases "cached (obj_id_int req) (objects (map snd es))")
  case True
  obtain A e B p x slab where e: "es = A @ e # B" "slab_touch (obj_id_int req) (map snd es) = map snd (A @ B @ [e])"
    "gh_lookup L (sb_hash c) (obj_id_int req) = Some p" "sb_objs c p = Some x" "sb_slabs c (so_slab x) = Some slab" "q_node slab = node e"
    using slab_access [OF c True] by blast
  let ?c = "to_tail L (node e) (to_tail L (node e) c)"
  let ?c' = "?c\<lparr>sb_cache := (sb_cache ?c)\<lparr>req_cnt := req_cnt (sb_cache ?c) + 1\<rparr>\<rparr>"
  have "slab_at L D 0 ?c (A @ B @ [e])"
    using to_tail_correct [OF L, of D 0 "to_tail L (node e) c" "A @ B" e "[]"] to_tail_correct [OF L c [unfolded e(1)]] by simp
  then have "slab_rep L D ?c (slab_touch (obj_id_int req) (map snd es))" unfolding slab_rep_def e(2) by blast
  then have "slab_rep L D ?c' (slab_touch (obj_id_int req) (map snd es))" by (simp only: slab_rep_count)
  moreover have "slabLRU_get L D c req = Inr (cache_ck_hit, ?c')"
    using e(3-6) by (simp add: slabLRU_get_def slabLRU_check_def slabLRU_update_def lv_load_def to_tail_def)
  ultimately show ?thesis using True by (simp add: slab_spec_get_def obj_of_def slab_same_def to_tail_def)
next
  case False
  then have "gh_lookup L (sb_hash c) (obj_id_int req) = None" by (simp add: lookup_iff [OF c])
  then have "slabLRU_check L c req True = Inr (cache_ck_miss, c)" by (simp add: slabLRU_check_def)
  moreover obtain c1 where c1: "slabLRU_insert L D c req = Inr c1" "slab_same c c1"
    "slab_rep L D c1 (slab_put (slab_size (sb_params c)) (total_slabs c) (obj_of req) (map snd es))"
    using slabLRU_insert_correct [OF L D c req False N] by blast
  ultimately show ?thesis using False by (simp add: slabLRU_get_def slab_spec_get_def obj_of_def slab_same_def slab_rep_count)
qed

text \<open>The eviction and the insertion of slabLRC are those of slabLRU.\<close>

lemma slabLRC_insert_eq: "slabLRC_insert L D c req = slabLRU_insert L D c req"
proof -
  have "slabLRC_evict L D = slabLRU_evict L D" by (intro ext) (simp add: slabLRC_evict_def slabLRU_evict_def)
  then show ?thesis by (simp add: slabLRC_insert_def slabLRU_insert_def)
qed

lemma slabLRC_get_correct:
  assumes L: "glib_ok L" and D: "dq_ok D" and c: "slab_at L D 0 c es" and N: "0 < total_slabs c" and req: "slab_req (slab_size (sb_params c)) req"
    and asserted: "n_total_slabs (sb_params c) = cache_size (sb_cache c) div MiB"
  shows "\<exists>c'. slabLRC_get L D c req = Inr (fst (slab_spec_get False (slab_size (sb_params c)) (total_slabs c) (obj_of req) (map snd es)), c') \<and>
    slab_rep L D c' (snd (slab_spec_get False (slab_size (sb_params c)) (total_slabs c) (obj_of req) (map snd es))) \<and> slab_same c c'"
proof (cases "cached (obj_id_int req) (objects (map snd es))")
  case True
  then obtain p where "gh_lookup L (sb_hash c) (obj_id_int req) = Some p" using slab_access [OF c] by metis
  moreover have "slab_rep L D c (map snd es)" using c by (auto simp: slab_rep_def)
  ultimately show ?thesis using True asserted
    by (simp add: slabLRC_get_def slabLRC_check_def slab_assert_def slab_spec_get_def obj_of_def slab_same_def slab_rep_count)
next
  case False
  then have "gh_lookup L (sb_hash c) (obj_id_int req) = None" by (simp add: lookup_iff [OF c])
  moreover obtain c1 where "slabLRC_insert L D c req = Inr c1" "slab_same c c1"
    "slab_rep L D c1 (slab_put (slab_size (sb_params c)) (total_slabs c) (obj_of req) (map snd es))"
    using slabLRU_insert_correct [OF L D c req False N] by (auto simp: slabLRC_insert_eq)
  ultimately show ?thesis using False asserted
    by (simp add: slabLRC_get_def slabLRC_check_def slab_assert_def slab_spec_get_def obj_of_def slab_same_def slab_rep_count)
qed

interpretation slab_lru: slab_alg slabLRU_get True
proof
  fix L :: "('h, 'q) glib" and D :: "'d dqueue" and c S req
  assume a: "glib_ok L" "dq_ok D" "slab_rep L D c S" "0 < total_slabs c" "slab_req (slab_size (sb_params c)) req"
  then obtain es where "slab_at L D 0 c es" "S = map snd es" by (auto simp: slab_rep_def)
  then show "\<exists>c'. slabLRU_get L D c req = Inr (fst (slab_spec_get True (slab_size (sb_params c)) (total_slabs c) (obj_of req) S), c') \<and>
      slab_rep L D c' (snd (slab_spec_get True (slab_size (sb_params c)) (total_slabs c) (obj_of req) S)) \<and> slab_same c c'"
    using slabLRU_get_correct [OF a(1,2) _ a(4,5)] by simp
qed

interpretation slab_lrc: slab_alg slabLRC_get False
proof
  fix L :: "('h, 'q) glib" and D :: "'d dqueue" and c S req
  assume a: "glib_ok L" "dq_ok D" "slab_rep L D c S" "n_total_slabs (sb_params c) = cache_size (sb_cache c) div MiB"
    "0 < total_slabs c" "slab_req (slab_size (sb_params c)) req"
  then obtain es where "slab_at L D 0 c es" "S = map snd es" by (auto simp: slab_rep_def)
  then show "\<exists>c'. slabLRC_get L D c req = Inr (fst (slab_spec_get False (slab_size (sb_params c)) (total_slabs c) (obj_of req) S), c') \<and>
      slab_rep L D c' (snd (slab_spec_get False (slab_size (sb_params c)) (total_slabs c) (obj_of req) S)) \<and> slab_same c c'"
    using slabLRC_get_correct [OF a(1,2) _ a(5,6,4)] by simp
qed

section \<open>The size of the cache\<close>

definition slab_full_ok :: "u64 \<Rightarrow> nat \<times> contents \<Rightarrow> bool" where
  "slab_full_ok ss sl \<longleftrightarrow> fst sl < 48 \<and> length (snd sl) \<le> unat (slab_cap ss (fst sl)) \<and> (\<forall>y \<in> set (snd sl). class_of (snd y) = fst sl)"

definition slab_wf :: "u64 \<Rightarrow> nat \<Rightarrow> slabs \<Rightarrow> bool" where
  "slab_wf ss N S \<longleftrightarrow> length S \<le> N \<and> (\<forall>sl \<in> set S. slab_full_ok ss sl)"

lemma slab_touch_wf: "slab_wf ss N S \<Longrightarrow> slab_wf ss N (slab_touch k S)"
  using sum_length_filter_compl [of "\<lambda>sl. cached k (snd sl)" S] by (auto simp: slab_wf_def slab_touch_def)

lemma slab_put_wf:
  assumes "slab_wf ss N S" "0 < N" "class_of (snd x) < 48" "0 < unat (slab_cap ss (class_of (snd x)))"
  shows "slab_wf ss N (slab_put ss N x S)"
proof (cases "list_ex (has_room ss (class_of (snd x))) S")
  case True
  have "slab_full_ok ss (fst sl, snd sl @ [x])" if "slab_full_ok ss sl" "has_room ss (class_of (snd x)) sl" for sl
    using that by (simp add: slab_full_ok_def has_room_def)
  then show ?thesis using assms(1) True by (auto simp: slab_wf_def slab_put_def)
next
  case False
  have "length (tl S) < N" "set (tl S) \<subseteq> set S" using assms(1,2) by (cases S; auto simp: slab_wf_def)+
  moreover have "slab_full_ok ss (class_of (snd x), [x])" using assms(3,4) by (simp add: slab_full_ok_def)
  ultimately show ?thesis using False assms by (auto simp: slab_wf_def slab_put_def Let_def)
qed

lemma slab_spec_run_wf:
  assumes "slab_wf ss N S" "0 < N" "\<forall>x \<in> set xs. class_of (snd x) < 48 \<and> 0 < unat (slab_cap ss (class_of (snd x)))"
  shows "slab_wf ss N (snd (slab_spec_run lru ss N xs S))"
  using assms
proof (induction xs arbitrary: S)
  case (Cons x xs)
  have "slab_wf ss N (snd (slab_spec_get lru ss N x S))"
    using slab_put_wf [OF Cons.prems(1,2), of x] slab_touch_wf [OF Cons.prems(1)] Cons.prems(1,3) by (simp add: slab_spec_get_def)
  from Cons.IH [OF this Cons.prems(2)] show ?case using Cons.prems(3) by (simp add: split_beta)
qed simp

lemma slab_total_le:
  assumes "length xs \<le> unat (slab_cap ss cl)" "cl < 48" "\<forall>y \<in> set xs. class_of (snd y) = cl"
  shows "total_size xs \<le> unat ss"
proof -
  let ?z = "SLABCLASS_SIZES ! cl"
  have "snd y \<le> ?z" if "y \<in> set xs" for y using less_class_of [OF assms(2), of "snd y"] assms(3) that by auto
  then have "total_size xs \<le> length xs * unat ?z"
    unfolding total_size_def by (induction xs) (auto simp: word_le_nat_alt intro: add_mono)
  also have "\<dots> \<le> unat (slab_cap ss cl) * unat ?z" using assms(1) by simp
  also have "\<dots> \<le> (unat ss div unat ?z) * unat ?z"
  proof -
    have "unat (slab_cap ss cl) \<le> unat (ss div ucast ?z)" by (simp add: slab_cap_def unsigned_ucast_eq take_bit_nat_less_eq_self)
    then show ?thesis by (simp add: unat_div unat_ucast_u32)
  qed
  finally show ?thesis using div_times_less_eq_dividend le_trans by blast
qed

lemma slab_wf_total: "slab_wf ss N S \<Longrightarrow> total_size (objects S) \<le> N * unat ss"
proof -
  assume wf: "slab_wf ss N S"
  have "total_size (objects S) \<le> length S * unat ss"
    using wf by (induction S) (auto simp: slab_wf_def slab_full_ok_def intro!: add_mono slab_total_le)
  then show ?thesis using wf by (meson le_trans mult_le_mono1 slab_wf_def)
qed

section \<open>The slab caches\<close>

definition init_slab_size :: "slab_init_params_t option \<Rightarrow> u64" where
  "init_slab_size init_params = (case init_params of None \<Rightarrow> MiB | Some i \<Rightarrow> i_slab_size i)"

lemma init_slab_params_simps:
  "slab_size (init_slab_params L D n ip) = init_slab_size ip" "n_total_slabs (init_slab_params L D n ip) = n div MiB"
  "n_allocated_slabs (init_slab_params L D n ip) = 0" "global_slab_q (init_slab_params L D n ip) = gq_new L"
  "slabclasses (init_slab_params L D n ip) = map (init_slabclass L D) [0 ..< N_SLABCLASS]"
  by (simp_all add: init_slab_params_def init_slab_size_def Let_def split: option.splits)

lemma slabLRU_init_rep: "glib_ok L \<Longrightarrow> dq_ok D \<Longrightarrow> slab_rep L D (slabLRU_init L D H params ip) []"
  by (simp add: slab_rep_def slab_at_def slabLRU_init_def init_slab_params_simps class_ok_def init_slabclass_def glib_ok_def dq_ok_def
      cache_struct_init_def N_SLABCLASS_def Let_def del: upt_rec_numeral)

lemma slab_rep_occupied: "slab_rep L D c S \<Longrightarrow> occupied_size (sb_cache c) = of_nat (total_size (objects S))"
  using slab_atD(11) by (fastforce simp: slab_rep_def)

lemma MiB_div: "MiB \<le> n \<Longrightarrow> 0 < unat (n div MiB)" "unat (n div MiB) * unat MiB \<le> unat n"
  by (simp_all add: MiB_def unat_div word_le_nat_alt)

lemma slab_reqs:
  assumes "\<forall>req \<in> set reqs. slab_req ss req"
  shows "\<forall>x \<in> set (map obj_of reqs). class_of (snd x) < 48 \<and> 0 < unat (slab_cap ss (class_of (snd x)))"
  using assms slab_req_class by (auto simp: obj_of_def slab_req_def)

definition list_dqueue :: "nat list dqueue" where
  "list_dqueue = \<lparr>gd_new = [], gd_items = (\<lambda>q. q), gd_push_tail = (\<lambda>q x. q @ [x]),
     gd_peek_head = (\<lambda>q. case q of [] \<Rightarrow> None | x # _ \<Rightarrow> Some x), gd_pop_head = tl, gd_remove = (\<lambda>q x. remove1 x q)\<rparr>"

lemma list_dqueue_ok: "dq_ok list_dqueue"
  by (simp add: dq_ok_def list_dqueue_def)

text \<open>Two slabs of 200 bytes, and requests for the examples.\<close>

definition small_slabs :: slab_init_params_t where
  "small_slabs = \<lparr>i_slab_size = 200, i_slab_move_strategy = no_automove, i_per_obj_metadata_size = 0\<rparr>"

definition sample_slab_reqs :: "request_t list" where
  "sample_slab_reqs = map (\<lambda>(k, z). sample_req k z) [(1, 90), (2, 150), (1, 90), (3, 96), (4, 100), (1, 90)]"

lemma sample_slab_run:
  "slab_spec_run True 200 2 (map obj_of sample_slab_reqs) [] =
    ([cache_ck_miss, cache_ck_miss, cache_ck_hit, cache_ck_miss, cache_ck_miss, cache_ck_hit], [(1, [(4, 100)]), (0, [(1, 90), (3, 96)])])"
  "slab_spec_run False 200 2 (map obj_of sample_slab_reqs) [] =
    ([cache_ck_miss, cache_ck_miss, cache_ck_hit, cache_ck_miss, cache_ck_miss, cache_ck_miss], [(1, [(4, 100)]), (0, [(1, 90)])])"
  by code_simp+

lemma sample_slab_params: "init_slab_size (Some small_slabs) = 200" "unat (2 * MiB div MiB) = 2" "MiB \<le> 2 * MiB"
  by (simp_all add: init_slab_size_def small_slabs_def MiB_def)

lemma sample_slab_reqs_ok: "\<forall>req \<in> set sample_slab_reqs. slab_req 200 req"
  by (simp add: sample_slab_reqs_def slab_req_def slab_cap_def class_of_def SLABCLASS_SIZES_def)

text \<open>
  (C15) The cache that evicts the least recently accessed slab: with at least one slab, every sequence of requests
  with sizes for which a slab has room runs without an error, and the cache gives the answers and holds the
  slabs of the short account. Its occupied size is the size of its objects, which never exceeds the number of
  slabs times their size.
\<close>

theorem slabLRU_run_correct:
  fixes params :: common_cache_params_t and reqs :: "request_t list" and ip :: "slab_init_params_t option"
  defines "ss \<equiv> init_slab_size ip" and "N \<equiv> unat (p_cache_size params div MiB)"
  defines "R \<equiv> slab_spec_run True ss N (map obj_of reqs) []"
  assumes "glib_ok L" "dq_ok D" "MiB \<le> p_cache_size params" "\<forall>req \<in> set reqs. slab_req ss req"
  shows "\<exists>c. slab_get_all (slabLRU_get L D) (slabLRU_init L D H params ip) reqs = Inr (fst R, c) \<and> slab_rep L D c (snd R) \<and>
    occupied_size (sb_cache c) = of_nat (total_size (objects (snd R))) \<and> total_size (objects (snd R)) \<le> N * unat ss"
proof -
  let ?c = "slabLRU_init L D H params ip"
  have i: "slab_size (sb_params ?c) = ss" "n_total_slabs (sb_params ?c) = p_cache_size params div MiB" "cache_size (sb_cache ?c) = p_cache_size params"
    by (simp_all add: slabLRU_init_def init_slab_params_simps cache_struct_init_def Let_def ss_def)
  have "slab_wf ss N (snd R)" unfolding R_def using assms MiB_div(1) slab_reqs
    by (intro slab_spec_run_wf) (auto simp: slab_wf_def N_def)
  moreover obtain c where "slab_get_all (slabLRU_get L D) ?c reqs = Inr (fst R, c)" "slab_rep L D c (snd R)"
    using slab_lru.run_correct [OF assms(4,5) slabLRU_init_rep [OF assms(4,5)], of H params ip reqs] assms(6,7) MiB_div(1)
    by (auto simp: i R_def N_def)
  ultimately show ?thesis using slab_wf_total slab_rep_occupied by blast
qed

theorem slabLRU_run_correct_witness:
  "\<exists>c. slab_get_all (slabLRU_get list_glib list_dqueue)
      (slabLRU_init list_glib list_dqueue (hashtable_ver1 (\<lambda>k. k)) (sample_params (2 * MiB)) (Some small_slabs)) sample_slab_reqs =
      Inr ([cache_ck_miss, cache_ck_miss, cache_ck_hit, cache_ck_miss, cache_ck_miss, cache_ck_hit], c) \<and>
    slab_rep list_glib list_dqueue c [(1, [(4, 100)]), (0, [(1, 90), (3, 96)])]"
  using slabLRU_run_correct [OF list_glib_ok list_dqueue_ok, of "sample_params (2 * MiB)" sample_slab_reqs "Some small_slabs" "hashtable_ver1 (\<lambda>k. k)"]
  by (auto simp: sample_slab_reqs_ok sample_slab_run sample_slab_params)

text \<open>
  (C39) The cache that evicts the slab created first, likewise: its asserts hold, an access does not change the
  order of the slabs.
\<close>

theorem slabLRC_run_correct:
  fixes params :: common_cache_params_t and reqs :: "request_t list" and ip :: "slab_init_params_t option"
  defines "ss \<equiv> init_slab_size ip" and "N \<equiv> unat (p_cache_size params div MiB)"
  defines "R \<equiv> slab_spec_run False ss N (map obj_of reqs) []"
  assumes "glib_ok L" "dq_ok D" "MiB \<le> p_cache_size params" "\<forall>req \<in> set reqs. slab_req ss req"
  shows "\<exists>c. slab_get_all (slabLRC_get L D) (slabLRC_init L D H params ip) reqs = Inr (fst R, c) \<and> slab_rep L D c (snd R) \<and>
    occupied_size (sb_cache c) = of_nat (total_size (objects (snd R))) \<and> total_size (objects (snd R)) \<le> N * unat ss"
proof -
  let ?c = "slabLRC_init L D H params ip"
  have e: "?c = slabLRU_init L D H params ip" by (simp add: slabLRC_init_def slabLRU_init_def)
  have i: "slab_size (sb_params ?c) = ss" "n_total_slabs (sb_params ?c) = p_cache_size params div MiB" "cache_size (sb_cache ?c) = p_cache_size params"
    by (simp_all add: slabLRC_init_def init_slab_params_simps cache_struct_init_def Let_def ss_def)
  have "slab_wf ss N (snd R)" unfolding R_def using assms MiB_div(1) slab_reqs
    by (intro slab_spec_run_wf) (auto simp: slab_wf_def N_def)
  moreover obtain c where "slab_get_all (slabLRC_get L D) ?c reqs = Inr (fst R, c)" "slab_rep L D c (snd R)"
    using slab_lrc.run_correct [OF assms(4,5) slabLRU_init_rep [OF assms(4,5), of H params ip, folded e], of reqs] assms(6,7) MiB_div(1)
    by (auto simp: i R_def N_def)
  ultimately show ?thesis using slab_wf_total slab_rep_occupied by blast
qed

theorem slabLRC_run_correct_witness:
  "\<exists>c. slab_get_all (slabLRC_get list_glib list_dqueue)
      (slabLRC_init list_glib list_dqueue (hashtable_ver1 (\<lambda>k. k)) (sample_params (2 * MiB)) (Some small_slabs)) sample_slab_reqs =
      Inr ([cache_ck_miss, cache_ck_miss, cache_ck_hit, cache_ck_miss, cache_ck_miss, cache_ck_miss], c) \<and>
    slab_rep list_glib list_dqueue c [(1, [(4, 100)]), (0, [(1, 90)])]"
  using slabLRC_run_correct [OF list_glib_ok list_dqueue_ok, of "sample_params (2 * MiB)" sample_slab_reqs "Some small_slabs" "hashtable_ver1 (\<lambda>k. k)"]
  by (auto simp: sample_slab_reqs_ok sample_slab_run sample_slab_params)

section \<open>Outside these conditions\<close>

text \<open>
  With slabs of the default size, an object of more than 1 MiB gets a slab of no items, and its id is written
  beyond the end of the array; a cache of less than 1 MiB has no slabs, and evicts from the empty queue.
\<close>

lemma slabLRU_get_new:
  assumes "glib_ok L"
  shows "slabLRU_get L D (slabLRU_init L D H params ip) req =
    rbind (slabLRU_insert L D (slabLRU_init L D H params ip) req) (\<lambda>c.
    Inr (cache_ck_miss, c\<lparr>sb_cache := (sb_cache c)\<lparr>req_cnt := req_cnt (sb_cache c) + 1\<rparr>\<rparr>))"
  using assms by (simp add: slabLRU_get_def slabLRU_check_def slabLRU_init_def glib_ok_def)

lemma slabLRU_large_object:
  assumes "glib_ok L" "dq_ok D" "MiB \<le> p_cache_size params" "unat MiB < unat (obj_size req)" "unat (obj_size req) \<le> 3906250"
  shows "slabLRU_get L D (slabLRU_init L D H params None) req = Inl Out_of_bounds"
proof -
  have sz: "unat (size32 req) = unat (obj_size req)" using assms(5) by (simp add: unsigned_ucast_eq take_bit_nat_eq_self)
  then have cl: "class_of (size32 req) < 48" using assms(5) by (simp add: class_of_less word_le_nat_alt)
  have "size32 req \<le> SLABCLASS_SIZES ! class_of (size32 req)" using less_class_of [OF cl, of "size32 req"] by simp
  then have "unat MiB < unat (SLABCLASS_SIZES ! class_of (size32 req))" using sz assms(4) by (simp add: word_le_nat_alt)
  then have cap: "slab_cap MiB (class_of (size32 req)) = 0"
    by (simp add: slab_cap_def word_unat_eq_iff unat_div unat_ucast_u32 unsigned_ucast_eq)
  have "0 < p_cache_size params div MiB" using MiB_div(1) [OF assms(3)] by (simp add: word_less_nat_alt)
  then show ?thesis using assms(2) cl cap unfolding slabLRU_get_new [OF assms(1)]
    by (simp add: slabLRU_insert_def slabLRU_init_def Let_def find_slabclass_id_eq init_slab_params_simps
        init_slab_size_def init_slabclass_def allocate_slab_def store_obj_def lv_load_def dq_ok_def N_SLABCLASS_def nth_append)
qed

lemma slabLRU_small_cache:
  assumes "glib_ok L" "dq_ok D" "p_cache_size params < MiB" "slab_req MiB req"
  shows "slabLRU_get L D (slabLRU_init L D H params None) req = Inl Null_deref"
proof -
  have "p_cache_size params div MiB = 0" using assms(3) by (simp add: word_unat_eq_iff unat_div word_less_nat_alt)
  moreover have "fst (gq_pop_head_link L (gq_new L)) = None" using assms(1) by (simp add: glib_ok_def)
  then obtain q where "gq_pop_head_link L (gq_new L) = (None, q)" by (metis prod.collapse)
  ultimately show ?thesis using assms(2) slab_req_class [OF assms(4)] unfolding slabLRU_get_new [OF assms(1)]
    by (simp add: slabLRU_insert_def slabLRU_init_def Let_def find_slabclass_id_eq init_slab_params_simps
        init_slabclass_def slabLRU_evict_def dq_ok_def N_SLABCLASS_def)
qed

text \<open>
  The removal of an object frees it and leaves its entry in the table: the next request for its id reads
  the memory that was freed.
\<close>

lemma slabLRU_remove_obj_dangles:
  assumes L: "glib_ok L" and c: "slab_at L D 0 c es" and k: "cached k (objects (map snd es))" "o_id x = k" "obj_id_int req = k"
    and cl: "\<forall>y \<in> set (objects (map snd es)). class_of (snd y) < 48"
  shows "\<exists>c'. slabLRU_remove_obj L D c x = Inr c' \<and> slabLRU_get L D c' req = Inl Bad_pointer"
proof (rule slab_lookup [OF c k(1)])
  fix A n s j xs B i p y
  assume e: "es = A @ ((n, s), (j, xs)) # B" "i < length xs" "fst (xs ! i) = k" "gh_lookup L (sb_hash c) k = Some p"
    "sb_objs c p = Some y" "so_id y = k" "so_size y = snd (xs ! i)" "so_slab y = s"
  have mem: "((n, s), (j, xs)) \<in> set es" using e(1) by simp
  note len = slab_at_length [OF c mem]
  obtain free where sl: "sb_slabs c s = Some \<lparr>slabclass_id = j, n_total_items = slab_cap (slab_size (sb_params c)) j,
       n_stored_items = of_nat (length xs), q_node = n, slab_items = map fst xs @ free\<rparr>" and obj: "slab_obj L c s i (xs ! i)"
    using slab_atD(4) [OF c mem] e(2) by (auto simp: slab_ok_def)
  have pos: "so_pos y = of_nat i" using obj e(3-5) by (auto simp: slab_obj_def)
  have i: "unat (of_nat i :: u32) = i" using e(2) len(2) by (simp add: unat_of_nat)
  have "(of_nat (length xs) :: u32) - 1 = of_nat (length xs - 1)" using e(2) by (cases xs) simp_all
  then have l: "unat ((of_nat (length xs) :: u32) - 1) = length xs - 1" using len(2) by (simp add: unat_of_nat)
  have last: "last xs \<in> set xs" "(map fst xs @ free) ! (length xs - 1) = fst (last xs)"
    using e(2) by (cases "xs = []"; simp add: nth_append last_conv_nth)+
  obtain p' y' where p': "gh_lookup L (sb_hash c) (fst (last xs)) = Some p'" "sb_objs c p' = Some y'"
    using slab_entry_obj [OF c mem last(1)] by blast
  have lt: "\<not> length xs + length free \<le> length xs - 1" using e(2) by simp
  have "class_of (so_size y) < 48" using cl e(1,2,7) by simp
  then obtain c' where c': "slabLRU_remove_obj L D c x = Inr c'" "sb_hash c' = sb_hash c" "sb_objs c' p = None"
    using e(2,4,5,8) k(2) sl p' last(2) pos i l lt by (simp add: slabLRU_remove_obj_def lv_load_def Let_def find_slabclass_id_eq)
  then have "slabLRU_get L D c' req = Inl Bad_pointer" using e(4) k(3) by (simp add: slabLRU_get_def slabLRU_check_def lv_load_def)
  then show ?thesis using c'(1) by blast
qed

end
