(* ===== verification/RandomCache.thy ===== *)
theory RandomCache
  imports HashtableMap CacheTraces
begin

text \<open>
  \<^verbatim>\<open>evictionAlgo/Random.c\<close> over the default hash table: a cache without an order, which evicts the object
  \<^verbatim>\<open>chained_hashtable_rand_obj\<close> returns. The seeds \<^verbatim>\<open>Random_init\<close> sets are those of \<^verbatim>\<open>rand\<close> and of the copy of
  \<^verbatim>\<open>rand_seed\<close> that belongs to \<^verbatim>\<open>Random.c\<close>; neither is the one of the table, so they do not appear here.
  The specification is a map from ids to sizes and does not say which objects are evicted.
\<close>

section \<open>The code\<close>

definition Random_init :: "ht_ops \<Rightarrow> common_cache_params_t \<Rightarrow> cache_t" where
  "Random_init H ccache_params = cache_struct_init H ccache_params"

definition Random_free :: "ht_ops \<Rightarrow> cache_t \<Rightarrow> hashtable_t result" where
  "Random_free H cache = cache_struct_free H cache"

definition Random_check ::
  "ht_ops \<Rightarrow> cache_t \<Rightarrow> request_t \<Rightarrow> bool \<Rightarrow> (cache_ck_res_e \<times> request_t \<times> cache_t) result" where
  "Random_check H cache req update_cache =
    rbind (cache_check H cache req update_cache) (\<lambda>(ret, _, req, cache). Inr (ret, req, cache))"

definition Random_insert :: "ht_ops \<Rightarrow> cache_t \<Rightarrow> request_t \<Rightarrow> cache_t result" where
  "Random_insert H Random req =
    (let Random = Random\<lparr>occupied_size := occupied_size Random + obj_size req\<rparr> in
     rbind (hashtable_insert H (hashtable Random) req) (\<lambda>(_, s). Inr (Random\<lparr>hashtable := s\<rparr>)))"

definition Random_evict ::
  "ht_ops \<Rightarrow> cache_t \<Rightarrow> request_t \<Rightarrow> bool \<Rightarrow> (cache_obj_t option \<times> cache_t) result" where
  "Random_evict H Random req want =
    rbind (chained_hashtable_rand_obj (hashtable Random)) (\<lambda>(obj_to_evict, s).
    rbind (copy_evicted s obj_to_evict want) (\<lambda>cache_obj.
    rbind (load (heap s) obj_to_evict) (\<lambda>x.
    let Random = Random\<lparr>occupied_size := occupied_size Random - ucast (o_size x)\<rparr> in
    rbind (hashtable_delete H s obj_to_evict) (\<lambda>s. Inr (cache_obj, Random\<lparr>hashtable := s\<rparr>)))))"

definition Random_ops :: "ht_ops \<Rightarrow> cache_ops" where
  "Random_ops H = \<lparr>check = Random_check H, insert_op = Random_insert H, evict = Random_evict H\<rparr>"

definition Random_get ::
  "ht_ops \<Rightarrow> cache_t \<Rightarrow> request_t \<Rightarrow> (cache_ck_res_e \<times> request_t \<times> cache_t) result" where
  "Random_get H cache req = cache_get (Random_ops H) cache req"

section \<open>Maps from ids to sizes\<close>

definition msize :: "(obj_id_t \<rightharpoonup> u32) \<Rightarrow> nat" where
  "msize m = (\<Sum>k \<in> dom m. unat (the (m k)))"

lemma msize_empty [simp]: "msize Map.empty = 0"
  by (simp add: msize_def)

lemma msize_remove:
  assumes "finite (dom m)" "m k = Some z"
  shows "msize m = unat z + msize (m(k := None))"
proof -
  have "msize m = unat (the (m k)) + (\<Sum>j \<in> dom m - {k}. unat (the (m j)))"
    unfolding msize_def using assms by (intro sum.remove) auto
  also have "(\<Sum>j \<in> dom m - {k}. unat (the (m j))) = msize (m(k := None))"
    unfolding msize_def by (rule sum.cong) auto
  finally show ?thesis using assms(2) by simp
qed

lemma msize_add: "finite (dom m) \<Longrightarrow> m k = None \<Longrightarrow> msize (m(k \<mapsto> z)) = unat z + msize m"
  using msize_remove [of "m(k \<mapsto> z)" k z] by (simp add: fun_upd_idem)

lemma card_le_msize:
  assumes "finite (dom m)" "\<forall>k z. m k = Some z \<longrightarrow> z \<noteq> 0"
  shows "card (dom m) \<le> msize m"
proof -
  have "1 \<le> unat (the (m k))" if k: "k \<in> dom m" for k
  proof -
    obtain z where z: "m k = Some z" using k by auto
    then have "z \<noteq> 0" using assms(2) by blast
    then have "unat z \<noteq> 0" by (simp add: unat_eq_0)
    then show ?thesis using z by simp
  qed
  then have "(\<Sum>k \<in> dom m. 1) \<le> msize m" unfolding msize_def by (intro sum_mono)
  then show ?thesis by simp
qed

text \<open>Evicting: some objects are left out until the rest fits, the last one of them because it had to be.\<close>

definition shrunk :: "nat \<Rightarrow> (obj_id_t \<rightharpoonup> u32) \<Rightarrow> (obj_id_t \<rightharpoonup> u32) \<Rightarrow> bool" where
  "shrunk n m m' \<longleftrightarrow> m' \<subseteq>\<^sub>m m \<and> msize m' \<le> n \<and>
     (m' = m \<or> (\<exists>k z. m k = Some z \<and> m' k = None \<and> n < msize (m'(k \<mapsto> z))))"

definition rnd_get :: "nat \<Rightarrow> obj_id_t \<times> u32 \<Rightarrow> (obj_id_t \<rightharpoonup> u32) \<Rightarrow> cache_ck_res_e \<Rightarrow> (obj_id_t \<rightharpoonup> u32) \<Rightarrow> bool" where
  "rnd_get n x m r m' \<longleftrightarrow> r = (if m (fst x) = None then cache_ck_miss else cache_ck_hit) \<and> shrunk n (m(fst x \<mapsto> snd x)) m'"

fun rnd_run :: "nat \<Rightarrow> (obj_id_t \<times> u32) list \<Rightarrow> (obj_id_t \<rightharpoonup> u32) \<Rightarrow> cache_ck_res_e list \<Rightarrow> (obj_id_t \<rightharpoonup> u32) \<Rightarrow> bool" where
  "rnd_run n [] m rs m' \<longleftrightarrow> rs = [] \<and> m' = m"
| "rnd_run n (x # xs) m rs m' \<longleftrightarrow> (\<exists>r rs' m1. rs = r # rs' \<and> rnd_get n x m r m1 \<and> rnd_run n xs m1 rs' m')"

lemma shrunk_step:
  assumes "m k = Some z" "n < msize m" "shrunk n (m(k := None)) m'"
  shows "shrunk n m m'"
proof -
  have s: "m' \<subseteq>\<^sub>m m(k := None)" "msize m' \<le> n" using assms(3) by (simp_all add: shrunk_def)
  then have sub: "m' \<subseteq>\<^sub>m m" "m' k = None" by (auto simp: map_le_def dom_def fun_upd_def split: if_splits) (metis (mono_tags, lifting) option.distinct(1) option.exhaust)
  have "\<exists>j w. m j = Some w \<and> m' j = None \<and> n < msize (m'(j \<mapsto> w))"
  proof (cases "m' = m(k := None)")
    case True
    then have "m'(k \<mapsto> z) = m" using assms(1) by (auto simp: fun_eq_iff)
    then show ?thesis using assms(1,2) sub(2) by metis
  next
    case False
    then obtain j w where "(m(k := None)) j = Some w" "m' j = None" "n < msize (m'(j \<mapsto> w))" using assms(3) by (auto simp: shrunk_def)
    then show ?thesis by (auto split: if_splits)
  qed
  then show ?thesis using sub(1) s(2) by (simp add: shrunk_def)
qed

lemma msize_mono:
  assumes "m \<subseteq>\<^sub>m M" "finite (dom M)"
  shows "msize m \<le> msize M"
proof -
  have "msize m = (\<Sum>k \<in> dom m. unat (the (M k)))" unfolding msize_def using assms(1) by (intro sum.cong) (auto simp: map_le_def)
  also have "\<dots> \<le> msize M" unfolding msize_def using assms by (intro sum_mono2) (auto simp: map_le_implies_dom_le)
  finally show ?thesis .
qed

text \<open>What fits is not evicted.\<close>

lemma shrunk_fits:
  assumes "finite (dom m)" "msize m \<le> n"
  shows "shrunk n m m' \<longleftrightarrow> m' = m"
proof
  assume s: "shrunk n m m'"
  have "msize (m'(k \<mapsto> z)) \<le> n" if "m k = Some z" for k z
  proof -
    have "m'(k \<mapsto> z) \<subseteq>\<^sub>m m" using s that by (auto simp: shrunk_def map_le_def)
    from msize_mono [OF this assms(1)] show ?thesis using assms(2) by simp
  qed
  then show "m' = m" using s by (force simp: shrunk_def)
qed (use assms in \<open>simp add: shrunk_def\<close>)

section \<open>The code refines it\<close>

definition rnd_at :: "(obj_id_t \<Rightarrow> u64) \<Rightarrow> cache_t \<Rightarrow> ptr set \<Rightarrow> (obj_id_t \<rightharpoonup> u32) \<Rightarrow> bool" where
  "rnd_at hash c P m \<longleftrightarrow> ht_v1 hash (hashtable c) P \<and> linked (hashtable c) P [] \<and>
     objs (heap (hashtable c)) P = {(k, z). m k = Some z} \<and> occupied_size c = of_nat (msize m)"

lemma graph_map:
  assumes "ht_v1 hash s P" "objs (heap s) P = {(k, z). m k = Some z}"
  shows "finite (dom m)" "card (dom m) = card P" "\<forall>k z. m k = Some z \<longrightarrow> z \<noteq> 0" "unat (n_cur_item s) = card (dom m)"
proof -
  note i = v1.ids [OF assms(1)]
  have d: "dom m = (fst \<circ> payload (heap s)) ` P"
    using arg_cong [OF assms(2), of "image fst"] by (auto simp: objs_def image_comp image_iff dom_def)
  show "finite (dom m)" using i d by simp
  show c: "card (dom m) = card P" unfolding d using i by (intro card_image) (simp add: ids_ok_def)
  show "unat (n_cur_item s) = card (dom m)" using i c by simp
  show "\<forall>k z. m k = Some z \<longrightarrow> z \<noteq> 0"
  proof (intro allI impI)
    fix k z
    assume "m k = Some z"
    then have "(k, z) \<in> objs (heap s) P" using assms(2) by simp
    then obtain p where "p \<in> P" "payload (heap s) p = (k, z)" unfolding objs_def by (metis imageE)
    then show "z \<noteq> 0" using v1.alloc [OF assms(1), of p] by (auto simp: payload_def)
  qed
qed

text \<open>A hit sets the size of the object.\<close>

lemma map_resize:
  assumes h: "ht_v1 hash s P" and o: "objs (heap s) P = {(k, z). m k = Some z}"
    and p: "p \<in> P" "payload (heap s) p = (k, w)" "heap s p = Some x"
  shows "objs ((heap s)(p \<mapsto> x\<lparr>o_size := z\<rparr>)) P = {(j, w). (m(k \<mapsto> z)) j = Some w}"
proof -
  let ?h = "(heap s)(p \<mapsto> x\<lparr>o_size := z\<rparr>)"
  have inj: "q = p" if "q \<in> P" "fst (payload (heap s) q) = k" for q
    using inj_onD [of "fst \<circ> payload (heap s)" P q p] v1.ids [OF h] that p(1,2) by (simp add: ids_ok_def)
  have pay: "payload ?h q = (if q = p then (k, z) else payload (heap s) q)" for q using p(2,3) by (auto simp: payload_def)
  have mem: "(j, w) \<in> objs (heap s) P \<longleftrightarrow> m j = Some w" for j w using o by simp
  have "(j, w) \<in> objs ?h P \<longleftrightarrow> (m(k \<mapsto> z)) j = Some w" for j w
  proof (cases "j = k")
    case True
    have "(j, w) \<in> objs ?h P \<longleftrightarrow> w = z" unfolding objs_def image_iff pay using True inj p(1) by (metis fst_conv snd_conv)
    then show ?thesis using True by auto
  next
    case False
    have "(j, w) \<in> objs ?h P \<longleftrightarrow> (j, w) \<in> objs (heap s) P" unfolding objs_def image_iff pay using False p(2) by (metis fst_conv)
    then show ?thesis using mem False by simp
  qed
  then show ?thesis by auto
qed

lemma Random_check_correct:
  assumes c: "rnd_at hash c P m" and hv: "hv_ok hash req" and fit: "fits req"
  shows "\<exists>req' c'. Random_check (hashtable_ver1 hash) c req True =
      Inr (if m (obj_id_int req) = None then cache_ck_miss else cache_ck_hit, req', c') \<and>
    obj_id_int req' = obj_id_int req \<and> obj_size req' = obj_size req \<and>
    rnd_at hash c' P (if m (obj_id_int req) = None then m else m(obj_id_int req \<mapsto> size32 req)) \<and> same_params c c'"
proof -
  let ?k = "obj_id_int req"
  have r: "ht_v1 hash (hashtable c) P" "linked (hashtable c) P []" "objs (heap (hashtable c)) P = {(k, z). m k = Some z}"
    "occupied_size c = of_nat (msize m)" using c by (simp_all add: rnd_at_def)
  from v1.map_find [OF r(1-3) hv] obtain p req' s' where f: "hashtable_find (hashtable_ver1 hash) (hashtable c) req = Inr (p, req', s')"
    "obj_id_int req' = ?k" "obj_size req' = obj_size req" "ht_v1 hash s' P" "linked s' P []" "objs (heap s') P = {(k, z). m k = Some z}"
    "case m ?k of None \<Rightarrow> p = NULL
     | Some z \<Rightarrow> p \<in> P \<and> p \<noteq> NULL \<and> payload (heap s') p = (?k, z) \<and> (\<exists>x. heap s' p = Some x \<and> o_size x = z)" by blast
  show ?thesis
  proof (cases "m ?k")
    case None
    then have "Random_check (hashtable_ver1 hash) c req True = Inr (cache_ck_miss, req', c\<lparr>hashtable := s'\<rparr>)"
      using f(1,7) by (simp add: Random_check_def cache_check_def)
    then show ?thesis using None f r(4) by (auto simp: rnd_at_def same_params_def)
  next
    case (Some z)
    then obtain x where x: "p \<in> P" "p \<noteq> NULL" "payload (heap s') p = (?k, z)" "heap s' p = Some x" "o_size x = z" using f(7) by auto
    let ?h = "(heap s')(p \<mapsto> x\<lparr>o_size := size32 req\<rparr>)"
    let ?c = "c\<lparr>occupied_size := occupied_size c - ucast z + obj_size req, hashtable := s'\<lparr>heap := ?h\<rparr>\<rparr>"
    have run: "Random_check (hashtable_ver1 hash) c req True = Inr (cache_ck_hit, req', ?c)"
    proof (cases "ucast z = obj_size req")
      case True
      then have "size32 req = z" by (metis ucast_32_64)
      then have "?h = heap s'" using x(4,5) by (metis cache_obj_t.surjective cache_obj_t.update_convs(6) fun_upd_triv)
      then show ?thesis using f(1,3) x True by (simp add: Random_check_def cache_check_def Let_def c_simps)
    next
      case False
      then show ?thesis using f(1,3) x by (simp add: Random_check_def cache_check_def c_simps)
    qed
    have "ht_v1 hash (s'\<lparr>heap := ?h\<rparr>) P" using v1.resize [OF f(4) x(1,4) fitsD(1) [OF fit]] .
    moreover have l: "links ?h = links (heap s')" using x(4) by (intro links_keep) auto
    have "linked (s'\<lparr>heap := ?h\<rparr>) P []" by (rule linked_cong [OF f(5)]) (simp_all add: l del: links_upd)
    moreover have "objs ?h P = {(j, w). (m(?k \<mapsto> size32 req)) j = Some w}" by (rule map_resize [OF f(4,6) x(1,3,4)])
    moreover have "occupied_size ?c = of_nat (msize (m(?k \<mapsto> size32 req)))"
    proof -
      have fin: "finite (dom m)" by (rule graph_map(1) [OF f(4,6)])
      have "msize (m(?k \<mapsto> size32 req)) = unat (size32 req) + msize (m(?k := None))"
        using msize_remove [of "m(?k \<mapsto> size32 req)" ?k] fin by simp
      then show ?thesis using r(4) msize_remove [OF fin Some] fitsD(4) [OF fit] by simp
    qed
    ultimately show ?thesis using run f(2,3) Some by (auto simp: rnd_at_def same_params_def)
  qed
qed

lemma Random_insert_correct:
  assumes c: "rnd_at hash c P m" and fit: "fits req" and k: "m (obj_id_int req) = None" and n: "card (dom m) < 2 ^ 48"
  shows "\<exists>c' P'. Random_insert (hashtable_ver1 hash) c req = Inr c' \<and> rnd_at hash c' P' (m(obj_id_int req \<mapsto> size32 req)) \<and> same_params c c'"
proof -
  have r: "ht_v1 hash (hashtable c) P" "linked (hashtable c) P []" "objs (heap (hashtable c)) P = {(k, z). m k = Some z}"
    "occupied_size c = of_nat (msize m)" using c by (simp_all add: rnd_at_def)
  note g = graph_map [OF r(1,3)]
  obtain p s' P' where i: "hashtable_insert (hashtable_ver1 hash) (hashtable c) req = Inr (p, s')" "ht_v1 hash s' P'" "linked s' P' []"
    "objs (heap s') P' = {(k, z). (m(obj_id_int req \<mapsto> size32 req)) k = Some z}"
    using v1.map_insert [OF r(1-3) k fitsD(1) [OF fit]] n g(2) by auto
  let ?c = "c\<lparr>occupied_size := occupied_size c + obj_size req, hashtable := s'\<rparr>"
  have "Random_insert (hashtable_ver1 hash) c req = Inr ?c" using i(1) by (simp add: Random_insert_def Let_def)
  moreover have "occupied_size ?c = of_nat (msize (m(obj_id_int req \<mapsto> size32 req)))"
    using r(4) msize_add [OF g(1) k, of "size32 req"] fitsD(4) [OF fit] by simp
  ultimately show ?thesis using i(2-4) by (intro exI [of _ ?c] exI [of _ P']) (simp add: rnd_at_def same_params_def)
qed

lemma Random_evict_correct:
  assumes c: "rnd_at hash c P m" and ne: "m \<noteq> Map.empty"
  shows "\<exists>ev c' P' k z. Random_evict (hashtable_ver1 hash) c req w = Inr (ev, c') \<and> m k = Some z \<and>
    rnd_at hash c' P' (m(k := None)) \<and> same_params c c'"
proof -
  have r: "ht_v1 hash (hashtable c) P" "linked (hashtable c) P []" "objs (heap (hashtable c)) P = {(k, z). m k = Some z}"
    "occupied_size c = of_nat (msize m)" using c by (simp_all add: rnd_at_def)
  note g = graph_map [OF r(1,3)]
  have "dom m \<noteq> {}" using ne by simp
  then have "P \<noteq> {}" using g(1,2) by (metis card_eq_0_iff finite.emptyI card.empty)
  then obtain p where p: "chained_hashtable_rand_obj (hashtable c) =
      Inr (p, hashtable c\<lparr>rand_seed := next_rand (rand_seed (hashtable c))\<rparr>)" "p \<in> P"
    using chained_hashtable_rand_obj_correct [OF r(1)] by blast
  let ?s = "hashtable c\<lparr>rand_seed := next_rand (rand_seed (hashtable c))\<rparr>"
  have s: "ht_v1 hash ?s P" "linked ?s P []" "objs (heap ?s) P = {(k, z). m k = Some z}" using r(1-3) by (simp_all add: ht_v1_def linked_def)
  obtain x where x: "heap ?s p = Some x" "p \<noteq> NULL" using v1.alloc [OF s(1) p(2)] by auto
  let ?k = "o_id x" and ?z = "o_size x"
  have pay: "payload (heap ?s) p = (?k, ?z)" using x(1) by (simp add: payload_def)
  then have "(?k, ?z) \<in> objs (heap ?s) P" using p(2) unfolding objs_def by (metis imageI)
  then have m: "m ?k = Some ?z" unfolding s(3) by simp
  obtain s' P' where d: "hashtable_delete (hashtable_ver1 hash) ?s p = Inr s'" "ht_v1 hash s' P'" "linked s' P' []"
    "objs (heap s') P' = {(j, w). (m(?k := None)) j = Some w}" using v1.map_delete [OF s p(2) pay] by blast
  let ?c = "c\<lparr>occupied_size := occupied_size c - ucast ?z, hashtable := s'\<rparr>"
  have "\<exists>ev. Random_evict (hashtable_ver1 hash) c req w = Inr (ev, ?c)"
    using p(1) x d(1) by (simp add: Random_evict_def copy_evicted_def Let_def c_simps)
  moreover have "occupied_size ?c = of_nat (msize (m(?k := None)))" using r(4) msize_remove [OF g(1) m] by simp
  ultimately show ?thesis using d(2-4) m by (auto simp: rnd_at_def same_params_def intro!: exI [of _ ?c] exI [of _ P'] exI [of _ ?k])
qed

lemma Random_loop_correct:
  assumes "rnd_at hash c P m" "msize m < 2 ^ 64" "card (dom m) < fuel"
  shows "\<exists>c' P' m'. evict_loop fuel (Random_ops (hashtable_ver1 hash)) c req = Inr c' \<and> rnd_at hash c' P' m' \<and>
    shrunk (unat (cache_size c)) m m' \<and> same_params c c'"
  using assms
proof (induction fuel arbitrary: c P m)
  case (Suc fuel)
  let ?n = "unat (cache_size c)"
  have occ: "unat (occupied_size c) = msize m" using Suc.prems(1,2) by (simp add: rnd_at_def)
  have fin: "finite (dom m)" using Suc.prems(1) graph_map(1) by (auto simp: rnd_at_def)
  show ?case
  proof (cases "?n < msize m")
    case False
    then have "evict_loop (Suc fuel) (Random_ops (hashtable_ver1 hash)) c req = Inr c" using occ by (simp add: word_less_nat_alt)
    then show ?thesis using False Suc.prems(1)
      by (intro exI [of _ c] exI [of _ P] exI [of _ m]) (simp add: shrunk_def same_params_def del: evict_loop.simps)
  next
    case True
    then have "m \<noteq> Map.empty" by auto
    then obtain ev c1 P1 k z where c1: "Random_evict (hashtable_ver1 hash) c req False = Inr (ev, c1)" "m k = Some z"
      "rnd_at hash c1 P1 (m(k := None))" "same_params c c1" using Random_evict_correct [OF Suc.prems(1)] by blast
    have "msize (m(k := None)) < 2 ^ 64" using msize_remove [OF fin c1(2)] Suc.prems(2) by simp
    moreover have "card (dom (m(k := None))) < fuel"
    proof -
      have "card (dom m - {k}) < card (dom m)" using fin c1(2) by (intro card_Diff1_less) auto
      then show ?thesis using Suc.prems(3) by simp
    qed
    ultimately obtain c' P' m' where r: "evict_loop fuel (Random_ops (hashtable_ver1 hash)) c1 req = Inr c'" "rnd_at hash c' P' m'"
      "shrunk (unat (cache_size c1)) (m(k := None)) m'" "same_params c1 c'" using Suc.IH [OF c1(3)] by blast
    have "shrunk ?n m m'" using shrunk_step [OF c1(2) True] r(3) c1(4) by (simp add: same_params_def)
    moreover have "evict_loop (Suc fuel) (Random_ops (hashtable_ver1 hash)) c req = Inr c'"
      using True occ c1(1) r(1) by (simp add: word_less_nat_alt Random_ops_def)
    ultimately show ?thesis using r(2,4) c1(4) by (auto simp: same_params_def)
  qed
qed simp

lemma Random_get_correct:
  assumes c: "rnd_at hash c P m" "msize m \<le> unat (cache_size c)" "unat (cache_size c) < 2 ^ 47"
    and req: "hv_ok hash req" "fits req" "obj_size req \<le> cache_size c"
  shows "\<exists>r req' c' P' m'. Random_get (hashtable_ver1 hash) c req = Inr (r, req', c') \<and> rnd_at hash c' P' m' \<and>
    rnd_get (unat (cache_size c)) (obj_of req) m r m' \<and> cache_size c' = cache_size c \<and> req_cnt c' = req_cnt c + 1"
proof -
  let ?k = "obj_id_int req" and ?M = "m(obj_id_int req \<mapsto> size32 req)" and ?V = "Random_ops (hashtable_ver1 hash)"
  have "ht_v1 hash (hashtable c) P" "objs (heap (hashtable c)) P = {(k, z). m k = Some z}" using c(1) by (simp_all add: rnd_at_def)
  note fin = graph_map(1,3) [OF this]
  have card: "card (dom m) \<le> msize m" by (rule card_le_msize [OF fin])
  have z: "unat (size32 req) < 2 ^ 32" using req(2) fitsD(2) by (simp add: fits_def)
  have "msize (m(?k := None)) \<le> msize m" by (cases "m ?k") (simp_all add: fun_upd_idem msize_remove [OF fin(1)])
  moreover have "msize ?M = unat (size32 req) + msize (m(?k := None))" using msize_remove [of ?M ?k] fin(1) by simp
  ultimately have b: "msize ?M < 2 ^ 64" using c(2,3) z by simp
  obtain req1 c1 where c1: "check ?V c req True = Inr (if m ?k = None then cache_ck_miss else cache_ck_hit, req1, c1)"
    "obj_id_int req1 = ?k" "obj_size req1 = obj_size req" "rnd_at hash c1 P (if m ?k = None then m else ?M)" "same_params c c1"
    using Random_check_correct [OF c(1) req(1,2)] by (auto simp: Random_ops_def)
  have "\<exists>c2 P2. (if m ?k = None then insert_op ?V c1 req1 else Inr c1) = Inr c2 \<and> rnd_at hash c2 P2 ?M \<and> same_params c c2"
  proof (cases "m ?k")
    case None
    have "fits req1" "m (obj_id_int req1) = None" using req(2) c1(2,3) None by (simp_all add: fits_def)
    from Random_insert_correct [where m = m and c = c1 and hash = hash and P = P, OF _ this] show ?thesis
      using None c1 card c(2,3) by (auto simp: Random_ops_def same_params_def)
  next
    case (Some w)
    then show ?thesis using c1(4,5) by auto
  qed
  then obtain c2 P2 where c2: "(if m ?k = None then insert_op ?V c1 req1 else Inr c1) = Inr c2" "rnd_at hash c2 P2 ?M" "same_params c c2" by blast
  have "card (dom ?M) < chain_bound (hashtable c2)" using graph_map(4) [of hash "hashtable c2" P2 ?M] c2(2) by (simp add: rnd_at_def)
  from Random_loop_correct [OF c2(2) b this] obtain c3 P3 m' where c3: "evict_loop (chain_bound (hashtable c2)) ?V c2 req1 = Inr c3"
    "rnd_at hash c3 P3 m'" "shrunk (unat (cache_size c2)) ?M m'" "same_params c2 c3" by blast
  let ?c = "c3\<lparr>req_cnt := req_cnt c3 + 1\<rparr>" and ?r = "if m ?k = None then cache_ck_miss else cache_ck_hit"
  have "Random_get (hashtable_ver1 hash) c req = Inr (?r, req1, ?c)"
    using c1(1,3,5) c2(1) c3(1) req(3)
    by (cases "m ?k") (simp_all add: Random_get_def cache_get_def same_params_def del: evict_loop.simps)
  moreover have "rnd_at hash ?c P3 m'" using c3(2) by (simp add: rnd_at_def)
  moreover have "rnd_get (unat (cache_size c)) (obj_of req) m ?r m'"
    using c3(3) c2(3) by (simp add: rnd_get_def obj_of_def same_params_def)
  moreover have "cache_size ?c = cache_size c" "req_cnt ?c = req_cnt c + 1" using c2(3) c3(4) by (simp_all add: same_params_def)
  ultimately show ?thesis by blast
qed

lemma Random_run:
  assumes "rnd_at hash c P m" "msize m \<le> unat (cache_size c)" "unat (cache_size c) < 2 ^ 47"
    "\<forall>req \<in> set reqs. hv_ok hash req \<and> fits req \<and> obj_size req \<le> cache_size c"
  shows "\<exists>rs c' P' m'. get_all (Random_ops (hashtable_ver1 hash)) c reqs = Inr (rs, c') \<and> rnd_at hash c' P' m' \<and>
    rnd_run (unat (cache_size c)) (map obj_of reqs) m rs m' \<and> msize m' \<le> unat (cache_size c)"
  using assms
proof (induction reqs arbitrary: c P m)
  case (Cons req reqs)
  obtain r req' c1 P1 m1 where c1: "cache_get (Random_ops (hashtable_ver1 hash)) c req = Inr (r, req', c1)" "rnd_at hash c1 P1 m1"
    "rnd_get (unat (cache_size c)) (obj_of req) m r m1" "cache_size c1 = cache_size c"
    using Random_get_correct [OF Cons.prems(1-3), of req] Cons.prems(4) by (auto simp: Random_get_def)
  have "msize m1 \<le> unat (cache_size c)" using c1(3) by (simp add: rnd_get_def shrunk_def)
  then obtain rs c' P' m' where "get_all (Random_ops (hashtable_ver1 hash)) c1 reqs = Inr (rs, c')" "rnd_at hash c' P' m'"
    "rnd_run (unat (cache_size c)) (map obj_of reqs) m1 rs m'" "msize m' \<le> unat (cache_size c)"
    using Cons.IH [OF c1(2)] Cons.prems(3,4) c1(4) by auto
  then show ?case using c1(1,3) by auto
qed auto

lemma Random_init_at: "rnd_at hash (Random_init (hashtable_ver1 hash) params) {} Map.empty"
proof -
  obtain xs where "cache_at (ht_v1 hash) False (cache_struct_init (hashtable_ver1 hash) params) xs"
    "view (heap (hashtable (cache_struct_init (hashtable_ver1 hash) params))) xs = []"
    using v1.init_rep [of hash False params] unfolding cache_rep_def by metis
  then show ?thesis by (auto simp: Random_init_def cache_at_def rnd_at_def objs_def)
qed

text \<open>
  (C14) The random cache over the default hash table: from a new cache of fewer than \<open>2 ^ 47\<close> bytes, every
  sequence of requests with sizes from 1 to the cache size runs without an error, for every hash function. A request
  is a hit exactly when the object is cached; it sets the size of the object; objects are evicted only
  if they do not all fit, and no more than until they do, whichever objects the generator picks. The
  table then holds exactly the objects of the map and \<^verbatim>\<open>occupied_size\<close> is the sum of their sizes.
\<close>

theorem Random_run_correct:
  assumes "\<forall>req \<in> set reqs. hv_ok hash req \<and> fits req \<and> obj_size req \<le> p_cache_size params" "unat (p_cache_size params) < 2 ^ 47"
  shows "\<exists>rs c P m. get_all (Random_ops (hashtable_ver1 hash)) (Random_init (hashtable_ver1 hash) params) reqs = Inr (rs, c) \<and>
    rnd_run (unat (p_cache_size params)) (map obj_of reqs) Map.empty rs m \<and> rnd_at hash c P m \<and> msize m \<le> unat (p_cache_size params)"
proof -
  have "cache_size (Random_init (hashtable_ver1 hash) params) = p_cache_size params"
    by (simp add: Random_init_def cache_struct_init_def Let_def)
  then show ?thesis using Random_run [OF Random_init_at [of hash params], of reqs] assms by auto
qed

text \<open>Objects of 5, 4 and 6 bytes in a cache of 10: the first two fit, the third one makes one of them leave.\<close>

theorem Random_run_correct_witness:
  "\<exists>c P m. get_all (Random_ops (hashtable_ver1 (\<lambda>k. k))) (Random_init (hashtable_ver1 (\<lambda>k. k)) (sample_params 10))
      [sample_req 1 5, sample_req 2 4, sample_req 1 5, sample_req 3 6] = Inr ([cache_ck_miss, cache_ck_miss, cache_ck_hit, cache_ck_miss], c) \<and>
    rnd_at (\<lambda>k. k) c P m \<and> msize m \<le> 10"
proof -
  let ?reqs = "[sample_req 1 5, sample_req 2 4, sample_req 1 5, sample_req 3 6]"
  have m: "msize [1 \<mapsto> 5] = 5" "msize [1 \<mapsto> 5, 2 \<mapsto> 4] = 9" by (simp_all add: msize_add)
  obtain rs c P m where r: "get_all (Random_ops (hashtable_ver1 (\<lambda>k. k))) (Random_init (hashtable_ver1 (\<lambda>k. k)) (sample_params 10)) ?reqs = Inr (rs, c)"
    "rnd_run 10 (map obj_of ?reqs) Map.empty rs m" "rnd_at (\<lambda>k. k) c P m" "msize m \<le> 10"
    using Random_run_correct [of ?reqs "\<lambda>k. k" "sample_params 10"] by (auto simp del: get_all.simps rnd_run.simps)
  have "rs = [cache_ck_miss, cache_ck_miss, cache_ck_hit, cache_ck_miss]"
    using r(2) by (auto simp: rnd_get_def shrunk_fits m fun_upd_idem)
  then show ?thesis using r(1,3,4) by blast
qed

end
