(* ===== verification/Spec2Isabelle.thy ===== *)
theory Spec2Isabelle
  imports Prelude Mattson HashtableMap ConsistentHash ClusterProps ParityMapping ReaderProps ClusterStats SimulatorProps ReplicatedRun
  MissRatioLRU PQueueProps SlabProps RandomCache
begin

text \<open>
  \<^bold>\<open>C2DN\<close>: a simulator of a cluster of CDN cache servers with erasure coding
  (\<^verbatim>\<open>src/CDNSimulator/src\<close>), on top of the cache simulation library libCacheSim
  (\<^verbatim>\<open>src/CDNSimulator/libCacheSim\<close>).

  \<^bold>\<open>The program.\<close> \<^verbatim>\<open>simulator.cpp\<close> turns its arguments into cache servers, a cluster and a cluster thread.
  The thread (\<^verbatim>\<open>cacheClusterThread.cpp\<close>) reads a trace through the readers of libCacheSim, applies the
  server failures of a schedule, hands every request to the cluster and writes rows of statistics. The
  cluster (\<^verbatim>\<open>cacheCluster.cpp\<close>) maps objects to 100 buckets and buckets to servers, by consistent hashing
  (\<^verbatim>\<open>consistentHash.cpp\<close>, whose ring is made of MD5 digests, \<^verbatim>\<open>md5.c\<close>) and, for the parity chunks, by a
  maximum flow. It stores an object as full copies or as the n chunks of an (n, k) code, in servers
  (\<^verbatim>\<open>cacheServer.hpp\<close>) that wrap a cache of libCacheSim and keep two bytes of metadata in every cached
  object. A cache (\<^verbatim>\<open>cache/cache.c\<close> with \<^verbatim>\<open>evictionAlgo/*.c\<close>) is a chained hash table
  (\<^verbatim>\<open>dataStructure/hashtable\<close>) with a doubly linked list threaded through its objects. Beside the
  simulator, libCacheSim has profilers (\<^verbatim>\<open>profiler/\<close>): stack distances over a splay tree, and miss ratio
  curves from many simulations in a pool of threads.

  \<^bold>\<open>How the code is modelled.\<close> Structures are records, enumerations datatypes, integers words of their
  width. A function that can fail returns \<open>error + 'a\<close> (\<open>Prelude\<close>): a null dereference, an access out of
  bounds, a failed assertion, a call of \<^verbatim>\<open>abort\<close> and a loop that does not end are all values. Memory that is
  shared is explicit: cache objects live in a store (\<open>CacheObj\<close>), and the version 1 hash table moves them
  to new addresses there. Code outside of the repository is an argument: GLib's hash table, the
  64-bit hash function, \<^verbatim>\<open>qsort\<close>, \<^verbatim>\<open>rand\<close>, the maximum flow solver, the CSV parser, the file system; what
  is assumed of it (\<open>ghash_ok\<close>, \<open>qsort_ok\<close>, \<open>flow_solver\<close> and so on) is what its documentation says. The build
  options are those of \<^verbatim>\<open>include/config.h\<close> and \<^verbatim>\<open>C2DNconfig.h\<close>.

  \<^bold>\<open>The theories\<close>, from the bottom up.
  \<^item> \<open>Prelude\<close>, \<open>Structs\<close>, \<open>Ieee\<close>: errors and sequencing, requests, rounding to \<^verbatim>\<open>float\<close> and \<^verbatim>\<open>double\<close>.
  \<^item> \<open>CacheObj\<close>: the store and the list operations of \<^verbatim>\<open>cacheObj.h\<close>, with the invariant of doubly linked lists.
  \<^item> \<open>HashtableStruct\<close>, \<open>HashtableRep\<close>, \<open>ChainedHashtable\<close>, \<open>ChainedHashtableV2\<close>, \<open>Hashtable\<close>,
    \<open>HashtableMap\<close>: both chained hash tables; the locale \<open>hashtable_spec\<close> is what caches rely on and is
    interpreted for both; any sequence of look-ups, insertions and deletions behaves as a map.
  \<^item> \<open>Cache\<close>, \<open>EvictionAlgo\<close>, \<open>CachePolicy\<close>, \<open>CacheTraces\<close>: the common cache functions, FIFO, LRU and MRU. The
    locale \<open>list_cache\<close> is the contract of an algorithm on the list of its objects; its interpretations
    give the behaviour of each algorithm on every trace. \<open>LRUv0\<close>: the LRU cache over GLib, which agrees with it.
    \<open>RandomCache\<close>: random eviction over the hash table, against a map that does not say what is evicted.
  \<^item> \<open>SlabCommon\<close>, \<open>SlabCache\<close>, \<open>SlabProps\<close>: the caches that evict whole slabs (\<^verbatim>\<open>slabCommon.h\<close>, \<^verbatim>\<open>slabLRU.c\<close>,
    \<^verbatim>\<open>slabLRC.c\<close>), which implement a list of slabs with their objects. The locale \<open>slab_alg\<close> is what such a cache
    promises of a request; what happens to requests outside its conditions is at the end of \<open>SlabProps\<close>.
  \<^item> \<open>Splay\<close>, \<open>StackDist\<close>, \<open>Mattson\<close>: \<^verbatim>\<open>splay.c\<close>, \<^verbatim>\<open>dist.c\<close>, \<^verbatim>\<open>distInternal.h\<close>, \<^verbatim>\<open>profilerLRU.c\<close>, and that the profiler and
    the LRU cache agree.
  \<^item> \<open>Reader\<close>, \<open>ReaderProps\<close>: the trace readers and that traces are read back as they were written.
  \<^item> \<open>MissRatioCurve\<close>, \<open>MissRatioProps\<close>, \<open>MissRatioLRU\<close>: \<^verbatim>\<open>profiler/simulator.c\<close>, its threads as a step relation
    with invariants, termination and freedom from deadlock, and the numbers it computes.
  \<^item> \<open>PQueue\<close>, \<open>PQueueProps\<close>: the priority queue \<^verbatim>\<open>pqueue.c\<close>, a heap for the orders of its users (the locale
    \<open>pri_order\<close>), as a set of nodes with priorities.
  \<^item> \<open>MD5\<close>, \<open>ConsistentHash\<close>: the digest against RFC 1321, the ring.
  \<^item> \<open>CacheServer\<close>, \<open>Metadata\<close>, \<open>ServerSpec\<close>: the servers, the metadata in their objects, and the abstract server (a
    list of objects and a map of metadata) the code refines.
  \<^item> \<open>CacheCluster\<close>, \<open>ClusterSpec\<close>, \<open>ClusterMapping\<close>, \<open>ParityMapping\<close>, \<open>ClusterProps\<close>, \<open>ReplicatedCluster\<close>,
    \<open>RepFactor\<close>, \<open>SampleCluster\<close>: the cluster; the mapping of buckets, the requests for coded and for
    replicated objects on the abstract servers, the replication factor.
  \<^item> \<open>Simulator\<close>, \<open>SimulatorProps\<close>, \<open>ClusterStats\<close>, \<open>ReplicatedRun\<close>: set-up, thread and failures; the counters
    along a run; that a whole run ends without an error.

  \<^bold>\<open>Bounds and fuel.\<close> Loops over chains and lists have fuel that exceeds the number of objects
  (\<open>chain_bound\<close>), loops over a trace exceed the number of its bytes, the walk of the ring the number of
  its nodes; running out of fuel is the error \<open>Diverges\<close>, and the theorems show that a function returns
  a value, so that the fuel is enough. Caches are smaller than \<open>2 ^ 47\<close> bytes, so that
  \<^verbatim>\<open>occupied_size\<close> and the number of objects do not wrap and the table's size stays within its
  exponent. Runs of the thread pool have at most \<open>7 n + 3\<close> steps for \<open>n\<close> sizes.

  \<^bold>\<open>Not modelled.\<close> Printing, logging and the parsing of the command line (Boost); releasing memory where
  nothing else depends on it. Bundled code of others: libcuckoo, xxHash, murmur3, uthash, libketama, libcsv with
  its client \<^verbatim>\<open>csv.c\<close>. Code that is not part of the build: \<^verbatim>\<open>evictionAlgo/toUpdate\<close>,
  \<^verbatim>\<open>evictionAlgo/unsupported\<close>, \<^verbatim>\<open>profiler/dep\<close>, \<^verbatim>\<open>utils/dep\<close>, the cuckoo hash tables. The slab cache
  \<^verbatim>\<open>slabObjLRU.c\<close>, which the simulator cannot select and which moves slabs by a comparison in floating point;
  plug-ins, benchmarks, and queries of the operating system. The histograms of \<^verbatim>\<open>dist.c\<close> and the heat maps of
  \<^verbatim>\<open>distHeatmap.c\<close>, which rest on the values of \<^verbatim>\<open>log\<close> in floating point. The prototype of the CDN (\<^verbatim>\<open>src/prototype\<close>), a distributed system in Go.
\<close>

end
